(* ===== verification/Prelude.thy ===== *)
theory Prelude
  imports Main "HOL-Library.Word" "HOL-Library.Signed_Division"
begin

text \<open>
  Shared vocabulary of the development: MPI error codes as values of a sum type, the
  C view of memory (byte-addressed, NUL-terminated strings), linked lists in a heap of
  addresses and in an array of indices, and the small list lemmas the components share.
\<close>

named_theorems cstring_simps \<open>facts about NUL-terminated strings in memory\<close>
named_theorems heap_list_simps \<open>facts about linked lists in a heap\<close>

section \<open>MPI error codes\<close>

text \<open>
  \<open>MPIR_Err_create_code\<close> (src/src/mpi/errhan/errutil.c) combines an error class with a
  generic message; a routine's \<open>fn_fail\<close> block calls it again with class
  \<open>MPI_ERR_OTHER\<close>, which keeps the class of the earlier code and pushes one more message.
  An error is its class and the stack of generic messages, newest first.
\<close>

datatype mpi_class =
    MPI_ERR_BUFFER | MPI_ERR_COMM | MPI_ERR_RANK | MPI_ERR_GROUP | MPI_ERR_ARG
  | MPI_ERR_DIMS | MPI_ERR_TOPOLOGY | MPI_ERR_OTHER | MPI_ERR_INFO | MPI_ERR_INFO_KEY
  | MPI_ERR_INFO_VALUE | MPI_ERR_INFO_NOKEY | MPI_ERR_KEYVAL

datatype mpi_err = Err (err_class: mpi_class) (err_msgs: "string list")

definition create_code :: "mpi_err option \<Rightarrow> mpi_class \<Rightarrow> string \<Rightarrow> mpi_err" where
  "create_code lastcode cls msg =
     (case lastcode of
        None \<Rightarrow> Err cls [msg]
      | Some e \<Rightarrow> Err (if cls = MPI_ERR_OTHER then err_class e else cls) (msg # err_msgs e))"

abbreviation new_error :: "mpi_class \<Rightarrow> string \<Rightarrow> mpi_err" where
  "new_error cls msg \<equiv> create_code None cls msg"

text \<open>The \<open>fn_fail\<close> block of a routine: one more message, the same class.\<close>

definition fn_fail :: "string \<Rightarrow> mpi_err \<Rightarrow> mpi_err" where
  "fn_fail msg e = create_code (Some e) MPI_ERR_OTHER msg"

lemma err_class_fn_fail [simp]: "err_class (fn_fail msg e) = err_class e"
  by (simp add: fn_fail_def create_code_def)

lemma err_class_new_error [simp]: "err_class (new_error cls msg) = cls"
  by (simp add: create_code_def)

definition wrap_fail :: "string \<Rightarrow> mpi_err + 'a \<Rightarrow> mpi_err + 'a" where
  "wrap_fail msg r = (case r of Inl e \<Rightarrow> Inl (fn_fail msg e) | Inr x \<Rightarrow> Inr x)"

lemma wrap_fail_simps [simp]:
  "wrap_fail msg (Inl e) = Inl (fn_fail msg e)" "wrap_fail msg (Inr x) = Inr x"
  by (simp_all add: wrap_fail_def)

lemma wrap_fail_Inr_iff [simp]: "wrap_fail msg r = Inr x \<longleftrightarrow> r = Inr x"
  by (cases r) simp_all

text \<open>
  The parameter checks of a routine run one after another and each failing check
  overwrites \<open>mpi_errno\<close>: the last failing one decides.
\<close>

fun last_error :: "(bool \<times> mpi_err) list \<Rightarrow> mpi_err option" where
  "last_error [] = None"
| "last_error ((bad, e) # cs) =
     (case last_error cs of Some e' \<Rightarrow> Some e' | None \<Rightarrow> if bad then Some e else None)"

text \<open>The same for checks that come as the error they found, if any.\<close>

definition last_of :: "mpi_err option list \<Rightarrow> mpi_err option" where
  "last_of es = fold (\<lambda>x a. case x of None \<Rightarrow> a | Some e \<Rightarrow> Some e) es None"

lemma last_of_None [simp]: "(\<forall>x \<in> set es. x = None) \<Longrightarrow> last_of es = None"
proof -
  have "(\<forall>x \<in> set es. x = None) \<Longrightarrow> fold (\<lambda>x a. case x of None \<Rightarrow> a | Some e \<Rightarrow> Some e) es a = a" for a
    by (induction es) auto
  then show "(\<forall>x \<in> set es. x = None) \<Longrightarrow> last_of es = None" by (simp add: last_of_def)
qed

lemma last_of_snoc: "last_of (es @ [x]) = (case x of None \<Rightarrow> last_of es | Some e \<Rightarrow> Some e)"
  by (cases x) (simp_all add: last_of_def)

lemma last_of_None_iff: "last_of es = None \<longleftrightarrow> (\<forall>x \<in> set es. x = None)"
  by (induction es rule: rev_induct) (auto simp: last_of_snoc split: option.splits)

lemma last_of_Some: "last_of es = Some e \<Longrightarrow> Some e \<in> set es"
  by (induction es rule: rev_induct) (auto simp: last_of_snoc last_of_def[of "[]"] split: option.splits)

lemma last_error_None_iff: "last_error cs = None \<longleftrightarrow> (\<forall>(bad, e) \<in> set cs. \<not> bad)"
  by (induction cs) (auto split: option.splits)

section \<open>Memory and C strings\<close>

type_synonym mem = "int \<Rightarrow> char"

abbreviation NUL :: char where
  "NUL \<equiv> CHR 0x00"

text \<open>A C string value: the characters before the terminating NUL.\<close>

definition is_cstr :: "string \<Rightarrow> bool" where
  "is_cstr s \<longleftrightarrow> NUL \<notin> set s"

lemma is_cstr_simps [simp]:
  "is_cstr []" "is_cstr (c # s) \<longleftrightarrow> c \<noteq> NUL \<and> is_cstr s"
  "is_cstr (s @ t) \<longleftrightarrow> is_cstr s \<and> is_cstr t"
  by (auto simp: is_cstr_def)

text \<open>The memory holds the characters \<open>s\<close> from address \<open>a\<close> on.\<close>

fun holds :: "mem \<Rightarrow> int \<Rightarrow> string \<Rightarrow> bool" where
  "holds m a [] = True"
| "holds m a (c # s) = (m a = c \<and> holds m (a + 1) s)"

definition cstring :: "mem \<Rightarrow> int \<Rightarrow> string \<Rightarrow> bool" where
  "cstring m a s \<longleftrightarrow> holds m a s \<and> m (a + int (length s)) = NUL"

primrec wr :: "mem \<Rightarrow> int \<Rightarrow> string \<Rightarrow> mem" where
  "wr m a [] = m"
| "wr m a (c # s) = wr (m(a := c)) (a + 1) s"

lemma wr_outside [cstring_simps]:
  "x < a \<or> a + int (length s) \<le> x \<Longrightarrow> wr m a s x = m x"
  by (induction s arbitrary: m a) auto

lemma holds_cong:
  "(\<And>x. a \<le> x \<Longrightarrow> x < a + int (length s) \<Longrightarrow> m x = m' x) \<Longrightarrow> holds m a s = holds m' a s"
proof (induction s arbitrary: a)
  case Nil
  then show ?case by simp
next
  case (Cons c s)
  have "holds m (a + 1) s = holds m' (a + 1) s"
    by (rule Cons.IH) (use Cons.prems in auto)
  with Cons.prems[of a] show ?case by simp
qed

lemma holds_wr [cstring_simps]: "holds (wr m a s) a s"
proof (induction s arbitrary: m a)
  case Nil
  then show ?case by simp
next
  case (Cons c s)
  have "wr (m(a := c)) (a + 1) s a = c"
    by (subst wr_outside) auto
  moreover have "holds (wr (m(a := c)) (a + 1) s) (a + 1) s"
    by (rule Cons.IH)
  ultimately show ?case by (simp only: wr.simps holds.simps)
qed

lemma holds_append:
  "holds m a (s @ t) \<longleftrightarrow> holds m a s \<and> holds m (a + int (length s)) t"
  by (induction s arbitrary: a) (auto simp: algebra_simps)

lemma wr_append: "wr m a (s @ t) = wr (wr m a s) (a + int (length s)) t"
  by (induction s arbitrary: m a) (auto simp: algebra_simps)

lemma wr_snoc: "wr m a (s @ [c]) = (wr m a s)(a + int (length s) := c)"
  by (simp add: wr_append)

lemma holds_frame [cstring_simps]:
  "x < a \<or> a + int (length s) \<le> x \<Longrightarrow> holds (m(x := c)) a s = holds m a s"
  by (rule holds_cong) auto

lemma cstring_wr_nul [cstring_simps]:
  "cstring ((wr m a s)(a + int (length s) := NUL)) a s"
  by (simp add: cstring_def holds_frame holds_wr)

lemma holds_take: "holds m a s \<Longrightarrow> holds m a (take n s)"
  by (metis append_take_drop_id holds_append)

lemma holds_nth: "holds m a s \<Longrightarrow> i < length s \<Longrightarrow> m (a + int i) = s ! i"
proof (induction s arbitrary: a i)
  case Nil
  then show ?case by simp
next
  case (Cons c s)
  then show ?case
    using Cons.IH[of "a + 1" "i - 1"] by (cases i) (auto simp: algebra_simps)
qed

lemma cstring_unique:
  assumes "cstring m a s" "cstring m a t" "is_cstr s" "is_cstr t"
  shows "s = t"
  using assms
proof (induction s arbitrary: a t)
  case Nil
  then show ?case by (cases t) (auto simp: cstring_def)
next
  case (Cons c s)
  from Cons.prems obtain t' where t: "t = c # t'"
    by (cases t) (auto simp: cstring_def)
  have "s = t'"
    by (rule Cons.IH[of "a + 1"]) (use Cons.prems t in \<open>auto simp: cstring_def algebra_simps\<close>)
  with t show ?case by simp
qed

section \<open>Linked lists\<close>

text \<open>
  A list linked through \<open>next\<close> pointers, the null pointer being address 0:
  from \<open>p\<close> the pointers visit the addresses \<open>xs\<close> and end at null.
\<close>

fun hlist :: "(nat \<Rightarrow> nat) \<Rightarrow> nat \<Rightarrow> nat list \<Rightarrow> bool" where
  "hlist nx p [] = (p = 0)"
| "hlist nx p (x # xs) = (p = x \<and> x \<noteq> 0 \<and> hlist nx (nx x) xs)"

lemma hlist_cong [heap_list_simps]:
  "(\<And>x. x \<in> set xs \<Longrightarrow> nx x = ny x) \<Longrightarrow> hlist nx p xs = hlist ny p xs"
  by (induction xs arbitrary: p) auto

lemma hlist_upd [heap_list_simps]: "z \<notin> set xs \<Longrightarrow> hlist (nx(z := v)) p xs = hlist nx p xs"
  by (rule hlist_cong) auto

lemma hlist_null [simp]: "hlist nx 0 xs \<longleftrightarrow> xs = []"
  by (cases xs) auto

lemma hlist_nonzero: "hlist nx p xs \<Longrightarrow> 0 \<notin> set xs"
  by (induction xs arbitrary: p) auto

lemma hlist_functional: "hlist nx p xs \<Longrightarrow> hlist nx p ys \<Longrightarrow> xs = ys"
proof (induction xs arbitrary: p ys)
  case Nil
  then show ?case by (cases ys) auto
next
  case (Cons x xs)
  then show ?case by (cases ys) auto
qed

lemma hlist_suffix: "hlist nx p (xs @ y # ys) \<Longrightarrow> hlist nx y (y # ys)"
  by (induction xs arbitrary: p) auto

lemma hlist_next:
  "hlist nx p (xs @ y # ys) \<Longrightarrow> nx y = (case ys of [] \<Rightarrow> 0 | z # _ \<Rightarrow> z)"
  by (drule hlist_suffix) (cases ys; simp)

lemma hlist_distinct: "hlist nx p xs \<Longrightarrow> distinct xs"
proof (induction xs arbitrary: p)
  case Nil
  then show ?case by simp
next
  case (Cons x xs)
  have "x \<notin> set xs"
  proof
    assume "x \<in> set xs"
    then obtain us vs where xs: "xs = us @ x # vs" by (auto simp: in_set_conv_decomp)
    with Cons.prems have "hlist nx x (x # vs)" "hlist nx x (x # xs)"
      using hlist_suffix[of nx p "x # us" x vs] by auto
    then have "x # vs = x # xs" by (rule hlist_functional)
    with xs show False by simp
  qed
  with Cons show ?case by auto
qed

text \<open>Replacing the pointer into a list: the two ways the code unlinks an element.\<close>

lemma hlist_unlink_head: "hlist nx p (y # ys) \<Longrightarrow> hlist nx (nx y) ys"
  by simp

lemma hlist_unlink_inner:
  "hlist nx p (xs @ x # y # ys) \<Longrightarrow> hlist (nx(x := nx y)) p (xs @ x # ys)"
proof (induction xs arbitrary: p)
  case Nil
  then have d: "distinct (x # y # ys)" by (metis append_Nil hlist_distinct)
  have "hlist (nx(x := nx y)) (nx y) ys = hlist nx (nx y) ys"
    by (rule hlist_cong) (use d in auto)
  with Nil show ?case
    by (simp add: fun_upd_def)
next
  case (Cons z xs)
  have d: "distinct ((z # xs) @ x # y # ys)" by (rule hlist_distinct[OF Cons.prems])
  from Cons.prems have "hlist nx (nx z) (xs @ x # y # ys)" by simp
  from Cons.IH[OF this] d Cons.prems show ?case by simp
qed

lemma hlist_append_last:
  "hlist nx p (xs @ [x]) \<Longrightarrow> z \<notin> set (xs @ [x]) \<Longrightarrow> z \<noteq> 0
    \<Longrightarrow> hlist (nx(z := 0, x := z)) p (xs @ [x, z])"
proof (induction xs arbitrary: p)
  case Nil
  then show ?case by auto
next
  case (Cons y xs)
  have d: "distinct ((y # xs) @ [x])" by (rule hlist_distinct[OF Cons.prems(1)])
  from Cons.prems have "hlist nx (nx y) (xs @ [x])" by simp
  from Cons.IH[OF this] Cons.prems d show ?case by auto
qed

text \<open>
  The same for a list threaded through an array of indices, a negative index ending it.
\<close>

fun chain :: "(nat \<Rightarrow> int) \<Rightarrow> int \<Rightarrow> nat list \<Rightarrow> bool" where
  "chain nx i [] = (i < 0)"
| "chain nx i (x # xs) = (i = int x \<and> chain nx (nx x) xs)"

lemma chain_cong: "(\<And>x. x \<in> set xs \<Longrightarrow> nx x = ny x) \<Longrightarrow> chain nx i xs = chain ny i xs"
  by (induction xs arbitrary: i) auto

lemma chain_neg [simp]: "i < 0 \<Longrightarrow> chain nx i xs \<longleftrightarrow> xs = []"
  by (cases xs) auto

lemma chain_nonneg_iff: "chain nx i xs \<Longrightarrow> 0 \<le> i \<longleftrightarrow> xs \<noteq> []"
  by (cases xs) auto

section \<open>Division in C\<close>

lemma sdiv_pos: "0 \<le> a \<Longrightarrow> 0 < b \<Longrightarrow> a sdiv b = a div (b :: int)"
  by (cases "a = 0") (simp_all add: signed_divide_int_def)

lemma smod_pos: "0 \<le> a \<Longrightarrow> 0 < b \<Longrightarrow> a smod b = a mod (b :: int)"
  by (cases "a = 0") (simp_all add: signed_modulo_int_def)

section \<open>Lists\<close>

lemma filter_eq_nths_idx: "filter P xs = map ((!) xs) (filter (\<lambda>i. P (xs ! i)) [0..<length xs])"
proof (induction xs rule: rev_induct)
  case Nil
  then show ?case by simp
next
  case (snoc x xs)
  have "filter (\<lambda>i. P ((xs @ [x]) ! i)) [0..<length xs] = filter (\<lambda>i. P (xs ! i)) [0..<length xs]"
    by (rule filter_cong) (auto simp: nth_append)
  moreover have "map ((!) (xs @ [x])) (filter (\<lambda>i. P (xs ! i)) [0..<length xs])
    = map ((!) xs) (filter (\<lambda>i. P (xs ! i)) [0..<length xs])"
    by (rule map_cong) (auto simp: nth_append)
  ultimately show ?case by (simp add: snoc)
qed

end
