(* ===== verification/SafeStr.thy ===== *)
theory SafeStr
  imports Prelude
begin

text \<open>
  The bounded string copies of src/src/util/mem/safestr.c: \<open>MPIU_Strncpy\<close>,
  \<open>MPIU_Strnapp\<close>, \<open>MPIU_Strdup\<close> and the fallback \<open>MPIU_Snprintf\<close>. The destination is an
  address in memory, the source a NUL-terminated string that does not overlap it
  (the pointers are \<open>restrict\<close>). Every store is an update of the memory, so that a store
  outside the buffer is visible.
\<close>

section \<open>MPIU_Strncpy\<close>

text \<open>
  \<open>while (*s_ptr && i-- > 0) *d_ptr++ = *s_ptr++\<close>; the result is the memory and the final
  value of the counter \<open>i\<close>, which the failing test decrements once more.
\<close>

fun strncpy_loop :: "mem \<Rightarrow> int \<Rightarrow> string \<Rightarrow> int \<Rightarrow> mem \<times> int \<times> int" where
  "strncpy_loop m d [] i = (m, d, i)"
| "strncpy_loop m d (c # s) i =
     (if i > 0 then strncpy_loop (m(d := c)) (d + 1) s (i - 1) else (m, d, i - 1))"

definition MPIU_Strncpy :: "mem \<Rightarrow> int \<Rightarrow> string \<Rightarrow> int \<Rightarrow> mem \<times> int" where
  "MPIU_Strncpy m dest src n =
     (case strncpy_loop m dest src n of (m', d, i) \<Rightarrow>
        if i > 0 then (m'(d := NUL), 0)
        else (m'(dest + n - 1 := NUL), 1))"

lemma strncpy_loop_eq:
  "0 \<le> i \<Longrightarrow> strncpy_loop m d s i =
     (wr m d (take (nat i) s), d + min (int (length s)) i,
      if int (length s) \<le> i then i - int (length s) else - 1)"
proof (induction s arbitrary: m d i)
  case Nil
  then show ?case by simp
next
  case (Cons c s)
  show ?case
  proof (cases "i > 0")
    case True
    then have "nat i = Suc (nat (i - 1))" by simp
    with True show ?thesis by (auto simp: Cons.IH min_def fun_upd_def)
  next
    case False
    with Cons.prems show ?thesis by simp
  qed
qed

lemma MPIU_Strncpy_fits:
  "int (length s) < n \<Longrightarrow> MPIU_Strncpy m d s n = ((wr m d s)(d + int (length s) := NUL), 0)"
  by (simp add: MPIU_Strncpy_def strncpy_loop_eq)

lemma MPIU_Strncpy_truncates:
  assumes "0 \<le> n" "n \<le> int (length s)"
  shows "MPIU_Strncpy m d s n = ((wr m d (take (nat n) s))(d + n - 1 := NUL), 1)"
  using assms by (auto simp: MPIU_Strncpy_def strncpy_loop_eq)

lemma wr_take_last:
  assumes "0 < n" "n \<le> length s"
  shows "(wr m d (take n s))(d + int n - 1 := c) = (wr m d (take (n - 1) s))(d + int (n - 1) := c)"
proof -
  from assms obtain k where k: "n = Suc k" by (cases n) auto
  with assms have "take n s = take (n - 1) s @ [s ! (n - 1)]"
    by (simp add: take_Suc_conv_app_nth)
  moreover have "length (take (n - 1) s) = n - 1" using assms by simp
  ultimately have "wr m d (take n s) = (wr m d (take (n - 1) s))(d + int (n - 1) := s ! (n - 1))"
    by (simp add: wr_snoc)
  moreover have "d + int n - 1 = d + int (n - 1)" using assms by simp
  ultimately show ?thesis by (simp only: fun_upd_upd)
qed

lemma MPIU_Strncpy_eq:
  assumes "1 \<le> n"
  shows "MPIU_Strncpy m d s n =
    (let t = take (nat (n - 1)) s in (wr m d t)(d + int (length t) := NUL),
     if int (length s) < n then 0 else 1)"
proof (cases "int (length s) < n")
  case True
  then have "take (nat (n - 1)) s = s" by simp
  with True show ?thesis by (simp add: MPIU_Strncpy_fits)
next
  case False
  with assms have le: "0 < nat n" "nat n \<le> length s" and n: "d + n = d + int (nat n)" by simp_all
  have "nat (n - 1) = nat n - 1" by simp
  moreover have "min (length s) (nat n - 1) = nat n - 1" using le by simp
  ultimately show ?thesis
    using False assms le wr_take_last[OF le, of m d NUL]
    by (simp add: MPIU_Strncpy_truncates)
qed

text \<open>
  For a destination of at least one byte, \<open>MPIU_Strncpy\<close> leaves a terminated copy
  of as many characters as fit, returns 0 exactly when nothing was cut off, and stores
  nothing outside the \<open>n\<close> bytes of the destination.
\<close>

theorem MPIU_Strncpy_correct:
  assumes "1 \<le> n" and "MPIU_Strncpy m dest src n = (m', r)"
  shows "cstring m' dest (take (nat (n - 1)) src) \<and> (r = 0 \<longleftrightarrow> int (length src) < n)
    \<and> (\<forall>x. x < dest \<or> dest + n \<le> x \<longrightarrow> m' x = m x)"
proof -
  let ?t = "take (nat (n - 1)) src"
  from assms have m': "m' = (wr m dest ?t)(dest + int (length ?t) := NUL)"
    and r: "r = (if int (length src) < n then 0 else 1)"
    by (simp_all only: MPIU_Strncpy_eq Let_def prod.inject)
  have "cstring m' dest ?t" unfolding m' by (rule cstring_wr_nul)
  moreover have "m' x = m x" if "x < dest \<or> dest + n \<le> x" for x
    using that assms(1) unfolding m' by (auto simp: cstring_simps)
  ultimately show ?thesis by (simp add: r)
qed

theorem MPIU_Strncpy_correct_witness:
  "cstring (fst (MPIU_Strncpy (\<lambda>_. CHR ''x'') 100 ''hello'' 4)) 100 ''hel''
    \<and> snd (MPIU_Strncpy (\<lambda>_. CHR ''x'') 100 ''hello'' 4) \<noteq> 0"
  using MPIU_Strncpy_correct [of 4 "\<lambda>_. CHR ''x''" 100 "''hello''"
      "fst (MPIU_Strncpy (\<lambda>_. CHR ''x'') 100 ''hello'' 4)"
      "snd (MPIU_Strncpy (\<lambda>_. CHR ''x'') 100 ''hello'' 4)"]
  by simp

text \<open>
  With a destination of zero bytes the final store of \<open>MPIU_Strncpy\<close> goes to the byte
  in front of the destination, whatever the source holds: \<open>dest[n-1] = 0\<close> is not guarded.
\<close>

theorem MPIU_Strncpy_zero_underflows:
  "MPIU_Strncpy m dest src 0 = (m(dest - 1 := NUL), 1)"
  by (cases src) (simp_all add: MPIU_Strncpy_def)

section \<open>MPIU_Strnapp\<close>

text \<open>\<open>while (i-- > 0 && *d_ptr) d_ptr++\<close>\<close>

function strnapp_skip :: "mem \<Rightarrow> int \<Rightarrow> int \<Rightarrow> int \<times> int" where
  "strnapp_skip m d i =
     (if i > 0 then (if m d \<noteq> NUL then strnapp_skip m (d + 1) (i - 1) else (d, i - 1))
      else (d, i - 1))"
  by pat_completeness auto
termination
  by (relation "measure (\<lambda>(m, d, i). nat i)") auto

declare strnapp_skip.simps [simp del]

definition MPIU_Strnapp :: "mem \<Rightarrow> int \<Rightarrow> string \<Rightarrow> int \<Rightarrow> mem \<times> int" where
  "MPIU_Strnapp m dest src n =
     (case strnapp_skip m dest n of (d, i) \<Rightarrow>
        if i \<le> 0 then (m, 1)
        else (case strncpy_loop m d src i of (m', d', i') \<Rightarrow>
                if i' \<ge> 0 then (m'(d' := NUL), 0)
                else (m'(d' - 1 := NUL), 1)))"

lemma strnapp_skip_cstring:
  "cstring m d s \<Longrightarrow> is_cstr s \<Longrightarrow> 0 \<le> i \<Longrightarrow>
   strnapp_skip m d i =
     (if int (length s) < i then (d + int (length s), i - int (length s) - 1) else (d + i, - 1))"
proof (induction s arbitrary: d i)
  case Nil
  then show ?case by (simp add: strnapp_skip.simps[of m d i] cstring_def)
next
  case (Cons c s)
  then have "cstring m (d + 1) s" "m d = c" "c \<noteq> NUL" "is_cstr s"
    by (auto simp: cstring_def algebra_simps)
  with Cons.IH[of "d + 1" "i - 1"] Cons.prems(3) show ?case
    by (simp add: strnapp_skip.simps[of m d i])
qed

lemma MPIU_Strnapp_eq:
  assumes "cstring m dest s" "is_cstr s" "0 \<le> n"
  shows "MPIU_Strnapp m dest src n =
    (let d = dest + int (length s); room = n - int (length s) - 1 in
     if room \<le> 0 then (m, 1)
     else if int (length src) \<le> room then ((wr m d src)(d + int (length src) := NUL), 0)
     else ((wr m d (take (nat room) src))(d + room - 1 := NUL), 1))"
  using assms by (auto simp: MPIU_Strnapp_def strnapp_skip_cstring strncpy_loop_eq Let_def)

lemma cstring_append_wr:
  assumes "holds m a s"
  shows "cstring ((wr m (a + int (length s)) t)(a + int (length s) + int (length t) := NUL)) a (s @ t)"
proof -
  let ?m = "(wr m (a + int (length s)) t)(a + int (length s) + int (length t) := NUL)"
  have "holds ?m a s = holds m a s"
    by (rule holds_cong) (auto simp: wr_outside)
  moreover have "cstring ?m (a + int (length s)) t" by (rule cstring_wr_nul)
  ultimately show ?thesis using assms by (simp add: cstring_def holds_append algebra_simps)
qed

text \<open>
  Appending to the string \<open>s\<close> in a buffer of \<open>n\<close> bytes never stores outside the buffer;
  a result of 0 means that the buffer now holds the whole concatenation, a result of 1 that
  it holds \<open>s\<close> with a (possibly empty) proper prefix of the source. The source is appended in
  full exactly when it fits with its terminator and \<open>s\<close> left more than the terminator's room.
\<close>

theorem MPIU_Strnapp_correct:
  assumes "cstring m dest s" "is_cstr s" "int (length s) < n"
    and "MPIU_Strnapp m dest src n = (m', r)"
  shows "(r = 0 \<longleftrightarrow> int (length s + length src) < n \<and> int (length s) + 1 < n)
    \<and> (r = 0 \<longrightarrow> cstring m' dest (s @ src))
    \<and> (r \<noteq> 0 \<longrightarrow> cstring m' dest (s @ take (nat (n - int (length s) - 2)) src))
    \<and> (\<forall>x. x < dest \<or> dest + n \<le> x \<longrightarrow> m' x = m x)"
proof -
  let ?d = "dest + int (length s)" and ?room = "n - int (length s) - 1"
  have eq: "(m', r) = (if ?room \<le> 0 then (m, 1)
     else if int (length src) \<le> ?room then ((wr m ?d src)(?d + int (length src) := NUL), 0)
     else ((wr m ?d (take (nat ?room) src))(?d + ?room - 1 := NUL), 1))"
    using MPIU_Strnapp_eq[OF assms(1,2), of n src] assms(3,4) by (simp add: Let_def)
  have h: "holds m dest s" using assms(1) by (simp add: cstring_def)
  consider (full) "?room \<le> 0" | (fits) "\<not> ?room \<le> 0" "int (length src) \<le> ?room"
    | (cut) "\<not> ?room \<le> 0" "\<not> int (length src) \<le> ?room" by blast
  then show ?thesis
  proof cases
    case full
    with eq assms(1) show ?thesis by simp
  next
    case fits
    with eq cstring_append_wr[OF h, of src] show ?thesis
      by (auto simp: wr_outside)
  next
    case cut
    have k: "0 < nat ?room" "nat ?room \<le> length src" "?room = int (nat ?room)"
      using cut by simp_all
    let ?t = "take (nat ?room - 1) src"
    have len: "length ?t = nat ?room - 1" using k by simp
    have r: "r = 1" using eq cut by simp
    from eq cut have "m' = (wr m ?d (take (nat ?room) src))(?d + ?room - 1 := NUL)"
      by simp
    also have "?d + ?room - 1 = ?d + int (nat ?room) - 1" using k by simp
    also note wr_take_last[OF k(1,2)]
    finally have m': "m' = (wr m ?d ?t)(?d + int (length ?t) := NUL)" by (simp only: len)
    have "nat ?room - 1 = nat (n - int (length s) - 2)" by simp
    moreover have "cstring m' dest (s @ ?t)"
      unfolding m' by (rule cstring_append_wr[OF h])
    moreover have "m' x = m x" if "x < dest \<or> dest + n \<le> x" for x
      using that k cut unfolding m' by (auto simp: wr_outside)
    ultimately show ?thesis using r cut by simp
  qed
qed

theorem MPIU_Strnapp_correct_witness:
  "let m = wr (\<lambda>_. NUL) 100 ''ab''; r = MPIU_Strnapp m 100 ''cdefg'' 6
   in cstring (fst r) 100 ''abcd'' \<and> snd r \<noteq> 0 \<and> fst r 106 = m 106"
proof -
  let ?m = "wr (\<lambda>_. NUL) 100 ''ab''"
  have "cstring ?m 100 ''ab''" by (simp add: cstring_def)
  from MPIU_Strnapp_correct[OF this, of 6 "''cdefg''" "fst (MPIU_Strnapp ?m 100 ''cdefg'' 6)"
      "snd (MPIU_Strnapp ?m 100 ''cdefg'' 6)"]
  show ?thesis by (simp add: Let_def numeral_eq_Suc)
qed

section \<open>MPIU_Strdup\<close>

text \<open>\<open>while (*in_p) *p++ = *in_p++; *p = 0\<close> into the block \<open>MPIU_Malloc\<close> answered, if any.\<close>

definition MPIU_Strdup :: "mem \<Rightarrow> int option \<Rightarrow> string \<Rightarrow> mem \<times> int option" where
  "MPIU_Strdup m block str =
     (case block of
        None \<Rightarrow> (m, None)
      | Some p \<Rightarrow> ((wr m p str)(p + int (length str) := NUL), Some p))"

lemma MPIU_Strdup_cstring:
  "MPIU_Strdup m block str = (m', Some p) \<Longrightarrow> cstring m' p str"
  by (auto simp: MPIU_Strdup_def cstring_wr_nul split: option.splits)

end
