(* ===== verification/ArgStr.thy ===== *)
theory ArgStr
  imports SafeStr
begin

text \<open>
  The \<open>key = value\<close> strings of src/src/util/mem/argstr.c: the tokenizer, the readers
  \<open>MPIU_Str_get_*\<close> and the writers \<open>MPIU_Str_add_*\<close>. A pointer into a string that is only
  read is the rest of the string from there on (the terminating NUL is the end of the list,
  \<open>NULL\<close> is \<open>None\<close>); a buffer that is written is an address in memory. The characters are
  those of the default configuration (src/src/include/mpimem.h).
\<close>

section \<open>Characters\<close>

abbreviation QUOTE :: char where "QUOTE \<equiv> CHR 0x22"
abbreviation DELIM :: char where "DELIM \<equiv> CHR ''#''"
abbreviation ESC :: char where "ESC \<equiv> CHR 0x5C"
abbreviation HIDE :: char where "HIDE \<equiv> CHR ''*''"
abbreviation SEPAR :: char where "SEPAR \<equiv> CHR ''$''"

abbreviation STR_SUCCESS :: int where "STR_SUCCESS \<equiv> 0"
abbreviation STR_FAIL :: int where "STR_FAIL \<equiv> - 1"
abbreviation STR_NOMEM :: int where "STR_NOMEM \<equiv> 1"
abbreviation STR_TRUNCATED :: int where "STR_TRUNCATED \<equiv> STR_NOMEM"

text \<open>The character a string pointer points at.\<close>

definition at0 :: "string \<Rightarrow> char" where
  "at0 s = (case s of [] \<Rightarrow> NUL | c # _ \<Rightarrow> c)"

lemma at0_simps [simp]: "at0 [] = NUL" "at0 (c # s) = c"
  by (simp_all add: at0_def)

text \<open>The value of a (signed) \<open>char\<close> in a comparison.\<close>

definition char_val :: "char \<Rightarrow> int" where
  "char_val c = (let n = of_char c in if n < 128 then n else n - 256)"

section \<open>The tokenizer\<close>

fun skip_separ :: "string \<Rightarrow> string" where
  "skip_separ [] = []"
| "skip_separ (c # s) = (if c = SEPAR then skip_separ s else c # s)"

definition first_token :: "string option \<Rightarrow> string option" where
  "first_token str =
     (case str of
        None \<Rightarrow> None
      | Some s \<Rightarrow> (let t = skip_separ s in if at0 t = NUL then None else Some t))"

text \<open>\<open>while (*str != MPIU_STR_QUOTE_CHAR)\<close>: the pointer at the closing quote, if any.\<close>

function next_quote :: "string \<Rightarrow> string option" where
  "next_quote s =
     (if at0 s = QUOTE then Some s
      else (let s' = (if at0 s = ESC then (if at0 (tl s) = QUOTE then tl (tl s) else tl s) else tl s)
            in if at0 s' = NUL then None else next_quote s'))"
  by pat_completeness auto
termination
proof (relation "measure length", goal_cases)
  case (2 s s')
  then show ?case by (cases s; cases "tl s") (auto split: if_splits)
qed auto

declare next_quote.simps [simp del]

fun skip_literal :: "string \<Rightarrow> string" where
  "skip_literal [] = []"
| "skip_literal (c # s) = (if c \<noteq> SEPAR \<and> c \<noteq> DELIM \<and> c \<noteq> NUL then skip_literal s else c # s)"

definition next_token :: "string option \<Rightarrow> string option" where
  "next_token str =
     (case first_token str of
        None \<Rightarrow> None
      | Some s \<Rightarrow>
          if at0 s = QUOTE then
            (if at0 (tl s) = NUL then None
             else (case next_quote (tl s) of None \<Rightarrow> None | Some t \<Rightarrow> first_token (Some (tl t))))
          else if at0 s = DELIM then first_token (Some (tl s))
          else first_token (Some (skip_literal s)))"

text \<open>
  \<open>compare_token\<close> on a quoted token: the loop \<open>for(;;)\<close> leaves both pointers where the
  comparison stopped.
\<close>

function compare_quoted :: "string \<Rightarrow> string \<Rightarrow> string \<times> string" where
  "compare_quoted token str =
     (let tok = (if at0 token = ESC \<and> at0 (tl token) = QUOTE then tl token else token);
          stop = (if at0 token = ESC then at0 tok \<noteq> at0 str
                  else at0 token \<noteq> at0 str \<or> at0 token = QUOTE)
      in if stop \<or> at0 str = NUL then (tok, str) else compare_quoted (tl tok) (tl str))"
  by pat_completeness auto
termination
proof (relation "measure (\<lambda>(token, str). length str)", goal_cases)
  case (2 token str tok stop)
  then show ?case by (cases str) auto
qed auto

declare compare_quoted.simps [simp del]

fun compare_literal :: "string \<Rightarrow> string \<Rightarrow> string \<times> string" where
  "compare_literal (t # ts) (c # cs) =
     (if t = c \<and> c \<noteq> NUL \<and> t \<noteq> DELIM \<and> t \<noteq> SEPAR then compare_literal ts cs
      else (t # ts, c # cs))"
| "compare_literal ts cs = (ts, cs)"

definition compare_token :: "string option \<Rightarrow> string option \<Rightarrow> int" where
  "compare_token token str =
     (case (token, str) of
        (Some t, Some s) \<Rightarrow>
          if at0 t = QUOTE then
            (case compare_quoted (tl t) s of (tok, s') \<Rightarrow>
               if at0 s' = NUL \<and> at0 tok = QUOTE then 0
               else if at0 tok = QUOTE then 1
               else if char_val (at0 s') < char_val (at0 tok) then - 1 else 1)
          else if at0 t = DELIM then
            (if at0 s = DELIM then (if at0 (tl s) = NUL then 0 else 1)
             else if char_val (at0 t) < char_val (at0 s) then - 1 else 1)
          else
            (case compare_literal t s of (tok, s') \<Rightarrow>
               if at0 s' = NUL \<and> (at0 tok = DELIM \<or> at0 tok = SEPAR \<or> at0 tok = NUL) then 0
               else if at0 tok = DELIM \<or> at0 tok = SEPAR \<or> char_val (at0 tok) < char_val (at0 s')
               then - 1 else 1)
      | _ \<Rightarrow> - 1)"

section \<open>Copying a token\<close>

text \<open>
  The quoted copy of \<open>token_copy\<close>; \<open>None\<close> when it reads past the end of the string, which
  happens for a token without closing quote.
\<close>

fun copy_quoted :: "mem \<Rightarrow> string \<Rightarrow> int \<Rightarrow> nat \<Rightarrow> (mem \<times> int) option" where
  "copy_quoted m [] str maxlen =
     (if maxlen = 1 then Some (m(str := NUL), STR_TRUNCATED) else None)"
| "copy_quoted m (c # ts) str maxlen =
     (if c = ESC then
        (case ts of
           d # ts' \<Rightarrow>
             if d = QUOTE then
               (if maxlen = 1 then Some (m(str := NUL), STR_TRUNCATED)
                else copy_quoted (m(str := d)) ts' (str + 1) (maxlen - 1))
             else if maxlen = 1 then Some (m(str := NUL), STR_TRUNCATED)
             else copy_quoted (m(str := c)) ts (str + 1) (maxlen - 1)
         | [] \<Rightarrow> if maxlen = 1 then Some (m(str := NUL), STR_TRUNCATED)
                else copy_quoted (m(str := c)) ts (str + 1) (maxlen - 1))
      else if c = QUOTE then Some (m(str := NUL), STR_SUCCESS)
      else if maxlen = 1 then Some (m(str := NUL), STR_TRUNCATED)
      else copy_quoted (m(str := c)) ts (str + 1) (maxlen - 1))"

fun copy_literal :: "mem \<Rightarrow> string \<Rightarrow> int \<Rightarrow> nat \<Rightarrow> mem \<times> int \<times> nat" where
  "copy_literal m [] str maxlen = (m, str, maxlen)"
| "copy_literal m (c # ts) str maxlen =
     (if c \<noteq> DELIM \<and> c \<noteq> SEPAR \<and> c \<noteq> NUL \<and> maxlen \<noteq> 0
      then copy_literal (m(str := c)) ts (str + 1) (maxlen - 1)
      else (m, str, maxlen))"

definition token_copy :: "mem \<Rightarrow> string option \<Rightarrow> int \<Rightarrow> int \<Rightarrow> (mem \<times> int) option" where
  "token_copy m token str maxlen =
     (if token = None \<or> maxlen < 1 then Some (m, STR_FAIL)
      else if maxlen = 1 then Some (m(str := NUL), STR_SUCCESS)
      else (case first_token token of
        None \<Rightarrow> Some (m(str := NUL), STR_SUCCESS)
      | Some t \<Rightarrow>
          if at0 t = DELIM then Some (m(str := DELIM, str + 1 := NUL), STR_SUCCESS)
          else if at0 t = QUOTE then copy_quoted m (tl t) str (nat maxlen)
          else (case copy_literal m t str (nat maxlen) of (m', d, left) \<Rightarrow>
            if left \<noteq> 0 then Some (m'(d := NUL), STR_SUCCESS)
            else Some (m'(d - 1 := NUL), STR_TRUNCATED))))"


text \<open>Every token is shorter than the rest it is cut from, so the readers' loops end.\<close>

lemma length_skip_separ: "length (skip_separ s) \<le> length s"
  by (induction s) auto

lemma first_token_shorter: "first_token (Some s) = Some t \<Longrightarrow> length t \<le> length s \<and> t \<noteq> []"
  using length_skip_separ[of s] by (auto simp: first_token_def Let_def split: if_splits)

lemma first_token_head: "first_token (Some s) = Some t \<Longrightarrow> at0 t \<noteq> SEPAR"
  by (induction s) (auto simp: first_token_def Let_def split: if_splits)

lemma next_quote_shorter: "next_quote s = Some t \<Longrightarrow> length t \<le> length s \<and> t \<noteq> []"
proof (induction s rule: next_quote.induct)
  case (1 s)
  let ?s' = "if at0 s = ESC then (if at0 (tl s) = QUOTE then tl (tl s) else tl s) else tl s"
  have len: "length ?s' \<le> length s" by auto
  show ?case
  proof (cases "at0 s = QUOTE")
    case True
    then have "next_quote s = Some s" by (simp add: next_quote.simps[of s])
    with True "1.prems" show ?thesis by (cases s) auto
  next
    case False
    with "1.prems" have "at0 ?s' \<noteq> NUL" "next_quote ?s' = Some t"
      by (auto simp: next_quote.simps[of s] Let_def split: if_splits)
    from "1.IH"[OF False refl this] len show ?thesis by auto
  qed
qed

lemma length_skip_literal: "length (skip_literal s) \<le> length s"
  by (induction s) auto

lemma next_token_shorter:
  assumes "next_token str = Some t"
  shows "\<exists>s. str = Some s \<and> length t < length s"
proof -
  obtain s u where str: "str = Some s" and u: "first_token (Some s) = Some u"
    using assms by (cases str) (auto simp: next_token_def first_token_def split: option.splits)
  note len = first_token_shorter[OF u]
  note hd = first_token_head[OF u]
  obtain c v where c: "u = c # v" using len by (cases u) auto
  have nz: "c \<noteq> NUL" using u c by (auto simp: first_token_def Let_def split: if_splits)
  have "length t < length u"
  proof -
    consider "c = QUOTE" | "c = DELIM" | "c \<noteq> QUOTE" "c \<noteq> DELIM" by blast
    then show ?thesis
    proof cases
      case 1
      with assms u c str obtain q where q: "next_quote v = Some q" "first_token (Some (tl q)) = Some t"
        by (auto simp: next_token_def split: if_splits option.splits)
      with next_quote_shorter[OF q(1)] first_token_shorter[OF q(2)] c show ?thesis by auto
    next
      case 2
      with assms u c str have "first_token (Some v) = Some t" by (auto simp: next_token_def)
      from first_token_shorter[OF this] c show ?thesis by auto
    next
      case 3
      with assms u c str hd nz have "first_token (Some (skip_literal v)) = Some t"
        by (auto simp: next_token_def)
      from first_token_shorter[OF this] length_skip_literal[of v] c show ?thesis by auto
    qed
  qed
  with str len show ?thesis by auto
qed

section \<open>The readers\<close>

text \<open>
  The search loop of \<open>MPIU_Str_get_string_arg\<close>, \<open>MPIU_Str_get_binary_arg\<close> and
  \<open>MPIU_Str_hide_string_arg\<close>, the same in all three: \<open>None\<close> when the loop ends, otherwise
  what \<open>next_token\<close> gave behind the delimiter.
\<close>

function find_arg :: "string \<Rightarrow> string \<Rightarrow> string option option" where
  "find_arg s flag =
     (if compare_token (Some s) (Some flag) = 0 then
        (case next_token (Some s) of
           None \<Rightarrow> None
         | Some t \<Rightarrow>
             if compare_token (Some t) (Some [DELIM]) = 0 then Some (next_token (Some t))
             else find_arg t flag)
      else
        (case next_token (Some s) of None \<Rightarrow> None | Some t \<Rightarrow> find_arg t flag))"
  by pat_completeness auto
termination
  by (relation "measure (\<lambda>(s, flag). length s)") (auto dest: next_token_shorter)

declare find_arg.simps [simp del]

definition MPIU_Str_get_string_arg ::
    "mem \<Rightarrow> string option \<Rightarrow> string \<Rightarrow> int \<Rightarrow> int \<Rightarrow> (mem \<times> int) option" where
  "MPIU_Str_get_string_arg m str flag val maxlen =
     (if maxlen < 1 then Some (m, STR_FAIL)
      else (case first_token str of
        None \<Rightarrow> Some (m, STR_FAIL)
      | Some s \<Rightarrow>
         (case find_arg s flag of
            Some (Some t) \<Rightarrow> token_copy m (Some t) val maxlen
          | _ \<Rightarrow> Some (m, STR_FAIL))))"

text \<open>
  \<open>sscanf\<close> with the format \<open>%X\<close> on a pair of characters, both of them hexadecimal digits.
\<close>

definition hex_digit :: "char \<Rightarrow> nat option" where
  "hex_digit c = (let n = of_char c in
     if 48 \<le> n \<and> n \<le> 57 then Some (n - 48)
     else if 65 \<le> n \<and> n \<le> 70 then Some (n - 55)
     else if 97 \<le> n \<and> n \<le> 102 then Some (n - 87) else None)"

definition scan_hex :: "char \<Rightarrow> char \<Rightarrow> char option" where
  "scan_hex h l = (case (hex_digit h, hex_digit l) of
     (Some a, Some b) \<Rightarrow> Some (char_of (16 * a + b)) | _ \<Rightarrow> None)"

text \<open>
  The loop of \<open>decode_buffer\<close>; \<open>None\<close> where a pair is not two hexadecimal digits (the value
  \<open>sscanf\<close> leaves is then not determined), in particular where the string ends inside a pair
  and the code reads past its terminator.
\<close>

fun decode_loop :: "mem \<Rightarrow> string \<Rightarrow> int \<Rightarrow> nat \<Rightarrow> int \<Rightarrow> (mem \<times> string \<times> nat \<times> int) option" where
  "decode_loop m (h # l # str) dest len n =
     (if h \<noteq> NUL \<and> h \<noteq> SEPAR \<and> h \<noteq> QUOTE \<and> len \<noteq> 0
      then (case scan_hex h l of
              None \<Rightarrow> None
            | Some c \<Rightarrow> decode_loop (m(dest := c)) str (dest + 1) (len - 1) (n + 1))
      else Some (m, h # l # str, len, n))"
| "decode_loop m [h] dest len n =
     (if h \<noteq> NUL \<and> h \<noteq> SEPAR \<and> h \<noteq> QUOTE \<and> len \<noteq> 0 then None else Some (m, [h], len, n))"
| "decode_loop m [] dest len n = Some (m, [], len, n)"

definition decode_buffer :: "mem \<Rightarrow> string option \<Rightarrow> int \<Rightarrow> int \<Rightarrow> (mem \<times> int \<times> int) option" where
  "decode_buffer m str dest len =
     (case str of
        None \<Rightarrow> Some (m, 0, STR_FAIL)
      | Some s \<Rightarrow>
          if len < 1 then
            Some (m, 0, if at0 s = NUL then STR_SUCCESS else STR_TRUNCATED)
          else
            (case decode_loop m (if at0 s = QUOTE then tl s else s) dest (nat len) 0 of
               None \<Rightarrow> None
             | Some (m', s', left, n) \<Rightarrow>
                 Some (m', n,
                   if left = 0 \<and> at0 s' \<noteq> NUL \<and> at0 s' \<noteq> SEPAR \<and> at0 s' \<noteq> QUOTE
                   then STR_TRUNCATED else STR_SUCCESS)))"

text \<open>The result is the memory, the number of decoded characters and the status.\<close>

definition MPIU_Str_get_binary_arg ::
    "mem \<Rightarrow> string option \<Rightarrow> string \<Rightarrow> int \<Rightarrow> int \<Rightarrow> (mem \<times> int \<times> int) option" where
  "MPIU_Str_get_binary_arg m str flag buffer maxlen =
     (if maxlen < 1 then Some (m, 0, STR_FAIL)
      else (case first_token str of
        None \<Rightarrow> Some (m, 0, STR_FAIL)
      | Some s \<Rightarrow>
         (case find_arg s flag of
            Some (Some t) \<Rightarrow> decode_buffer m (Some t) buffer maxlen
          | _ \<Rightarrow> Some (m, 0, STR_FAIL))))"

fun hide_quoted :: "string \<Rightarrow> string" where
  "hide_quoted [] = []"
| "hide_quoted (c # s) =
     (if c = ESC then
        (case s of
           d # s' \<Rightarrow> if d = QUOTE then HIDE # HIDE # hide_quoted s' else HIDE # hide_quoted s
         | [] \<Rightarrow> [HIDE])
      else if c = QUOTE then HIDE # s
      else HIDE # hide_quoted s)"

fun hide_literal :: "string \<Rightarrow> string" where
  "hide_literal [] = []"
| "hide_literal (c # s) =
     (if c \<noteq> DELIM \<and> c \<noteq> SEPAR \<and> c \<noteq> NUL then HIDE # hide_literal s else c # s)"

definition token_hide :: "string \<Rightarrow> string" where
  "token_hide token =
     (case first_token (Some token) of
        None \<Rightarrow> token
      | Some t \<Rightarrow>
          take (length token - length t) token @
          (if at0 t = DELIM then HIDE # tl t
           else if at0 t = QUOTE then HIDE # hide_quoted (tl t)
           else hide_literal t))"

text \<open>The string after the call and the returned \<open>MPIU_BOOL\<close>.\<close>

definition MPIU_Str_hide_string_arg :: "string \<Rightarrow> string \<Rightarrow> string \<times> bool" where
  "MPIU_Str_hide_string_arg str flag =
     (case first_token (Some str) of
        None \<Rightarrow> (str, True)
      | Some s \<Rightarrow>
         (case find_arg s flag of
            None \<Rightarrow> (str, False)
          | Some None \<Rightarrow> (str, True)
          | Some (Some t) \<Rightarrow> (take (length str - length t) str @ token_hide t, True)))"

text \<open>\<open>atoi\<close>: blanks, an optional sign, then as many digits as there are.\<close>

fun atoi_digits :: "int \<Rightarrow> string \<Rightarrow> int" where
  "atoi_digits acc [] = acc"
| "atoi_digits acc (c # s) =
     (let n = of_char c in if 48 \<le> n \<and> n \<le> 57 then atoi_digits (10 * acc + (n - 48)) s else acc)"

definition atoi :: "string \<Rightarrow> int" where
  "atoi s =
     (let t = dropWhile (\<lambda>c. c \<in> {CHR '' '', CHR 0x09, CHR 0x0A, CHR 0x0B, CHR 0x0C, CHR 0x0D}) s in
      if at0 t = CHR ''-'' then - atoi_digits 0 (tl t)
      else if at0 t = CHR ''+'' then atoi_digits 0 (tl t)
      else atoi_digits 0 t)"

text \<open>
  \<open>MPIU_Str_get_int_arg\<close> reads the value into a local buffer of 12 bytes, here at address
  \<open>buf\<close>; the result is the memory, the number (\<open>*val_ptr\<close>, when stored) and the status.
\<close>

fun read_cstr :: "mem \<Rightarrow> int \<Rightarrow> nat \<Rightarrow> string" where
  "read_cstr m a 0 = []"
| "read_cstr m a (Suc k) = (if m a = NUL then [] else m a # read_cstr m (a + 1) k)"

definition MPIU_Str_get_int_arg ::
    "mem \<Rightarrow> string option \<Rightarrow> string \<Rightarrow> int \<Rightarrow> (mem \<times> int option \<times> int) option" where
  "MPIU_Str_get_int_arg m str flag buf =
     (case MPIU_Str_get_string_arg m str flag buf 12 of
        None \<Rightarrow> None
      | Some (m', result) \<Rightarrow>
          if result = STR_SUCCESS then Some (m', Some (atoi (read_cstr m' buf 12)), STR_SUCCESS)
          else Some (m', None, result))"

text \<open>
  \<open>MPIU_Str_get_string\<close>: the new value of \<open>*str_ptr\<close> beside the memory and the result.
\<close>

definition MPIU_Str_get_string ::
    "mem \<Rightarrow> string option \<Rightarrow> int \<Rightarrow> int \<Rightarrow> (mem \<times> string option \<times> int) option" where
  "MPIU_Str_get_string m str val maxlen =
     (if maxlen < 1 then Some (m, str, 0)
      else (case first_token str of
        None \<Rightarrow> Some (m, str, 0)
      | Some s \<Rightarrow>
         (case token_copy m (Some s) val maxlen of
            None \<Rightarrow> None
          | Some (m', result) \<Rightarrow>
              if result = STR_SUCCESS then Some (m', next_token (Some s), 0)
              else if result = STR_TRUNCATED then Some (m', str, - 1)
              else Some (m', str, - 2))))"

end
