(* ===== verification/ArgStrParse.thy ===== *)
theory ArgStrParse
  imports ArgStr
begin

text \<open>
  The abstract syntax of an argument string and what the readers of \<open>ArgStr\<close> find in it:
  a list of (key, value) pairs, its text as the writers lay it out, and the lemmas that
  walk the tokenizer over such a text.
\<close>

section \<open>The text of a pair\<close>

definition esc_char :: "char \<Rightarrow> string" where
  "esc_char c = (if c = QUOTE then [ESC, QUOTE] else [c])"

definition escape :: "string \<Rightarrow> string" where
  "escape s = concat (map esc_char s)"

lemma escape_simps [simp]:
  "escape [] = []" "escape (c # s) = (if c = QUOTE then ESC # QUOTE # escape s else c # escape s)"
  by (simp_all add: escape_def esc_char_def)

definition quoted :: "string \<Rightarrow> string" where
  "quoted s = QUOTE # escape s @ [QUOTE]"

definition needs_quotes :: "string \<Rightarrow> bool" where
  "needs_quotes s \<longleftrightarrow> SEPAR \<in> set s \<or> DELIM \<in> set s \<or> at0 s = QUOTE"

definition enc_key :: "string \<Rightarrow> string" where
  "enc_key k = (if needs_quotes k then quoted k else k)"

definition enc_val :: "string \<Rightarrow> string" where
  "enc_val v = (if needs_quotes v then quoted v else if v = [] then [QUOTE, QUOTE] else v)"

definition enc_pair :: "string \<Rightarrow> string \<Rightarrow> string" where
  "enc_pair k v = enc_key k @ DELIM # enc_val v @ [SEPAR]"

definition enc_args :: "(string \<times> string) list \<Rightarrow> string" where
  "enc_args kvs = concat (map (\<lambda>(k, v). enc_pair k v) kvs)"

lemma enc_args_simps [simp]:
  "enc_args [] = []" "enc_args ((k, v) # kvs) = enc_pair k v @ enc_args kvs"
  "enc_args (kvs @ kvs') = enc_args kvs @ enc_args kvs'"
  by (simp_all add: enc_args_def)

text \<open>
  The escape character is not itself escaped: a quoted string is read back only when no
  escape character stands in front of a quote or at the end.
\<close>

fun esc_safe :: "string \<Rightarrow> bool" where
  "esc_safe [] = True"
| "esc_safe (c # s) = ((c = ESC \<longrightarrow> s \<noteq> [] \<and> at0 s \<noteq> QUOTE) \<and> esc_safe s)"

definition key_ok :: "string \<Rightarrow> bool" where
  "key_ok k \<longleftrightarrow> k \<noteq> [] \<and> k \<noteq> [DELIM] \<and> is_cstr k
     \<and> (needs_quotes k \<longrightarrow> QUOTE \<notin> set k \<and> esc_safe k)"

definition val_ok :: "string \<Rightarrow> bool" where
  "val_ok v \<longleftrightarrow> is_cstr v \<and> (needs_quotes v \<longrightarrow> esc_safe v)"

section \<open>Tokens\<close>

lemma at0_append [simp]: "at0 (s @ t) = (if s = [] then at0 t else at0 s)"
  by (cases s) auto

lemma at0_escape: "s \<noteq> [] \<Longrightarrow> at0 (escape s) = (if at0 s = QUOTE then ESC else at0 s)"
  by (cases s) auto

lemma escape_eq_Nil [simp]: "escape s = [] \<longleftrightarrow> s = []"
  by (cases s) auto

lemma escape_no_quote: "QUOTE \<notin> set s \<Longrightarrow> escape s = s"
  by (induction s) auto

lemma at0_nul_iff: "is_cstr s \<Longrightarrow> at0 s = NUL \<longleftrightarrow> s = []"
  by (cases s) auto

lemma at0_mem: "s \<noteq> [] \<Longrightarrow> at0 s \<in> set s"
  by (cases s) auto

lemma next_quote_escape:
  "esc_safe s \<Longrightarrow> is_cstr s \<Longrightarrow> next_quote (escape s @ QUOTE # r) = Some (QUOTE # r)"
proof (induction s)
  case Nil
  then show ?case by (simp add: next_quote.simps[of "QUOTE # r"])
next
  case (Cons c s)
  have rec: "next_quote (escape s @ QUOTE # r) = Some (QUOTE # r)" using Cons by simp
  have nz: "at0 (escape s @ QUOTE # r) \<noteq> NUL"
    using Cons.prems(2) by (cases s) auto
  show ?case
  proof (cases "c = QUOTE")
    case True
    with rec nz show ?thesis by (simp add: next_quote.simps[of "ESC # QUOTE # _"])
  next
    case False
    have "c = ESC \<Longrightarrow> at0 (escape s @ QUOTE # r) \<noteq> QUOTE"
      using Cons.prems(1) by (simp add: at0_escape)
    with False rec nz show ?thesis
      by (simp add: next_quote.simps[of "c # _"])
  qed
qed

lemma skip_literal_stops:
  "SEPAR \<notin> set s \<Longrightarrow> DELIM \<notin> set s \<Longrightarrow> is_cstr s \<Longrightarrow> at0 r \<in> {SEPAR, DELIM}
    \<Longrightarrow> skip_literal (s @ r) = r"
proof (induction s)
  case Nil
  then show ?case by (cases r) auto
next
  case (Cons c s)
  then show ?case by auto
qed

lemma first_token_id: "s \<noteq> [] \<Longrightarrow> at0 s \<noteq> SEPAR \<Longrightarrow> at0 s \<noteq> NUL \<Longrightarrow> first_token (Some s) = Some s"
  by (cases s) (auto simp: first_token_def)

lemma first_token_separ [simp]: "first_token (Some (SEPAR # s)) = first_token (Some s)"
  by (simp add: first_token_def)

lemma next_token_quoted:
  assumes "esc_safe s" "is_cstr s"
  shows "next_token (Some (quoted s @ r)) = first_token (Some r)"
proof -
  have "first_token (Some (quoted s @ r)) = Some (quoted s @ r)"
    by (rule first_token_id) (simp_all add: quoted_def)
  moreover have "at0 (escape s @ QUOTE # r) \<noteq> NUL"
    using assms(2) by (cases s) auto
  ultimately show ?thesis
    using next_quote_escape[OF assms, of r] by (simp add: next_token_def quoted_def)
qed

lemma next_token_literal:
  assumes "\<not> needs_quotes s" "s \<noteq> []" "is_cstr s" "at0 r \<in> {SEPAR, DELIM}"
  shows "next_token (Some (s @ r)) = first_token (Some r)"
proof -
  have hd: "at0 s \<noteq> SEPAR" "at0 s \<noteq> DELIM" "at0 s \<noteq> NUL" "at0 s \<noteq> QUOTE"
    using assms at0_mem[OF assms(2)] by (auto simp: needs_quotes_def is_cstr_def)
  moreover have "first_token (Some (s @ r)) = Some (s @ r)"
    by (rule first_token_id) (use hd assms(2) in auto)
  moreover have "skip_literal (s @ r) = r"
    by (rule skip_literal_stops) (use assms in \<open>auto simp: needs_quotes_def\<close>)
  ultimately show ?thesis using assms(2) by (simp add: next_token_def)
qed

lemma next_token_key:
  "key_ok k \<Longrightarrow> next_token (Some (enc_key k @ DELIM # r)) = Some (DELIM # r)"
  by (simp add: enc_key_def key_ok_def next_token_quoted next_token_literal first_token_id)

lemma next_token_delim: "next_token (Some (DELIM # r)) = first_token (Some r)"
  by (simp add: next_token_def first_token_id)

lemma enc_val_head: "val_ok v \<Longrightarrow> enc_val v \<noteq> [] \<and> at0 (enc_val v) \<noteq> SEPAR \<and> at0 (enc_val v) \<noteq> NUL
    \<and> at0 (enc_val v) \<noteq> DELIM"
  using at0_mem[of v] by (auto simp: enc_val_def val_ok_def needs_quotes_def quoted_def is_cstr_def)

lemma next_token_delim_val:
  "val_ok v \<Longrightarrow> next_token (Some (DELIM # enc_val v @ r)) = Some (enc_val v @ r)"
  using enc_val_head[of v] by (simp add: next_token_delim first_token_id)

lemma next_token_val:
  "val_ok v \<Longrightarrow> next_token (Some (enc_val v @ SEPAR # r)) = first_token (Some r)"
proof -
  assume v: "val_ok v"
  have e: "next_token (Some (QUOTE # QUOTE # SEPAR # r)) = first_token (Some r)"
    using next_token_quoted[of "[]" "SEPAR # r"] by (simp add: quoted_def)
  consider "needs_quotes v" | "\<not> needs_quotes v" "v \<noteq> []" | "v = []" by blast
  then show ?thesis
  proof cases
    case 1
    with v next_token_quoted[of v "SEPAR # r"] show ?thesis by (simp add: enc_val_def val_ok_def)
  next
    case 2
    with v next_token_literal[of v "SEPAR # r"] show ?thesis by (simp add: enc_val_def val_ok_def)
  next
    case 3
    with e show ?thesis by (simp add: enc_val_def needs_quotes_def)
  qed
qed

section \<open>Comparing a token\<close>

lemma compare_quoted_iff:
  "QUOTE \<notin> set k \<Longrightarrow> esc_safe k \<Longrightarrow> is_cstr k \<Longrightarrow> is_cstr f \<Longrightarrow>
   (case compare_quoted (k @ QUOTE # r) f of (tok, s') \<Rightarrow> at0 s' = NUL \<and> at0 tok = QUOTE)
     \<longleftrightarrow> f = k"
proof (induction k arbitrary: f)
  case Nil
  then show ?case by (simp add: compare_quoted.simps[of "QUOTE # r"] at0_nul_iff)
next
  case (Cons c k)
  have nq: "c = ESC \<Longrightarrow> at0 (k @ QUOTE # r) \<noteq> QUOTE" using Cons.prems by auto
  show ?case
  proof (cases "f = [] \<or> at0 f \<noteq> c")
    case True
    with Cons.prems nq have "fst (compare_quoted (c # k @ QUOTE # r) f) = c # k @ QUOTE # r"
      by (subst compare_quoted.simps) (auto simp: Let_def)
    with True Cons.prems show ?thesis by (cases "compare_quoted (c # k @ QUOTE # r) f") auto
  next
    case False
    then obtain f' where f: "f = c # f'" by (cases f) auto
    with Cons.prems nq have "compare_quoted (c # k @ QUOTE # r) f = compare_quoted (k @ QUOTE # r) f'"
      by (subst compare_quoted.simps) (auto simp: Let_def)
    with Cons f show ?thesis by simp
  qed
qed

lemma compare_literal_iff:
  "SEPAR \<notin> set k \<Longrightarrow> DELIM \<notin> set k \<Longrightarrow> is_cstr k \<Longrightarrow> is_cstr f \<Longrightarrow> at0 r \<in> {SEPAR, DELIM} \<Longrightarrow>
   (case compare_literal (k @ r) f of (tok, s') \<Rightarrow>
      at0 s' = NUL \<and> (at0 tok = DELIM \<or> at0 tok = SEPAR \<or> at0 tok = NUL)) \<longleftrightarrow> f = k"
proof (induction k arbitrary: f)
  case Nil
  then show ?case by (cases r; cases f) auto
next
  case (Cons c k)
  then show ?case by (cases f) auto
qed

lemma compare_key_iff:
  assumes "key_ok k" "is_cstr f"
  shows "compare_token (Some (enc_key k @ DELIM # r)) (Some f) = 0 \<longleftrightarrow> f = k"
proof (cases "needs_quotes k")
  case True
  with assms have k: "QUOTE \<notin> set k" "esc_safe k" "is_cstr k" by (auto simp: key_ok_def)
  have "enc_key k @ DELIM # r = QUOTE # k @ QUOTE # DELIM # r"
    using True k by (simp add: enc_key_def quoted_def escape_no_quote)
  with compare_quoted_iff[OF k assms(2), of "DELIM # r"] show ?thesis
    by (auto simp: compare_token_def split: prod.splits)
next
  case False
  with assms have k: "SEPAR \<notin> set k" "DELIM \<notin> set k" "is_cstr k" "k \<noteq> []" "at0 k \<noteq> QUOTE"
    by (auto simp: key_ok_def needs_quotes_def)
  then have "at0 k \<noteq> DELIM" using at0_mem[of k] by auto
  with compare_literal_iff[OF k(1-3) assms(2), of "DELIM # r"] k show ?thesis
    using False by (auto simp: compare_token_def enc_key_def split: prod.splits)
qed

lemma compare_delim_iff:
  "is_cstr f \<Longrightarrow> compare_token (Some (DELIM # r)) (Some f) = 0 \<longleftrightarrow> f = [DELIM]"
  by (cases f; cases "tl f") (auto simp: compare_token_def)

lemma compare_key_delim:
  "key_ok k \<Longrightarrow> compare_token (Some (enc_key k @ DELIM # r)) (Some [DELIM]) \<noteq> 0"
  using compare_key_iff[of k "[DELIM]" r] by (auto simp: key_ok_def)

section \<open>Looking a key up\<close>

lemma first_token_enc_args:
  "\<forall>(k, v) \<in> set kvs. key_ok k \<Longrightarrow>
   first_token (Some (enc_args kvs)) = (if kvs = [] then None else Some (enc_args kvs))"
proof (cases kvs)
  case Nil
  then show ?thesis by (simp add: first_token_def)
next
  case (Cons kv kvs')
  assume ok: "\<forall>(k, v) \<in> set kvs. key_ok k"
  obtain k v where kv: "kv = (k, v)" by (cases kv)
  from ok Cons kv have "key_ok k" by auto
  then have "enc_key k \<noteq> []" "at0 (enc_key k) \<noteq> SEPAR" "at0 (enc_key k) \<noteq> NUL"
    using at0_mem[of k] by (auto simp: enc_key_def key_ok_def needs_quotes_def quoted_def is_cstr_def)
  with Cons kv show ?thesis by (simp add: enc_pair_def first_token_id)
qed

lemma find_arg_step_val:
  assumes kvs: "\<forall>(k, v) \<in> set kvs. key_ok k" and v: "val_ok v"
  shows "find_arg (enc_val v @ SEPAR # enc_args kvs) f =
    (if kvs = [] then None else find_arg (enc_args kvs) f)"
proof -
  let ?s = "enc_val v @ SEPAR # enc_args kvs"
  have nxt: "next_token (Some ?s) = (if kvs = [] then None else Some (enc_args kvs))"
    by (simp only: next_token_val[OF v] first_token_enc_args[OF kvs])
  have fa: "find_arg ?s f = (case next_token (Some ?s) of None \<Rightarrow> None | Some t \<Rightarrow>
      if compare_token (Some ?s) (Some f) = 0 \<and> compare_token (Some t) (Some [DELIM]) = 0
      then Some (next_token (Some t)) else find_arg t f)"
    by (subst find_arg.simps) (auto split: option.splits)
  show ?thesis
  proof (cases kvs)
    case Nil
    with nxt fa show ?thesis by simp
  next
    case (Cons kv kvs')
    obtain k w where kw: "kv = (k, w)" by (cases kv)
    with Cons kvs have "key_ok k" by auto
    from compare_key_delim[OF this] Cons kw
    have "compare_token (Some (enc_args kvs)) (Some [DELIM]) \<noteq> 0" by (simp add: enc_pair_def)
    with Cons nxt fa show ?thesis by simp
  qed
qed

lemma find_arg_enc_args:
  assumes "\<forall>(k, v) \<in> set kvs. key_ok k \<and> val_ok v" "kvs \<noteq> []" "is_cstr f" "f \<noteq> [DELIM]"
  shows "\<exists>rest. find_arg (enc_args kvs) f =
    (case map_of kvs f of None \<Rightarrow> None | Some v \<Rightarrow> Some (Some (enc_val v @ SEPAR # rest)))"
  using assms(1,2)
proof (induction kvs)
  case Nil
  then show ?case by simp
next
  case (Cons kv kvs)
  obtain k v where kv: "kv = (k, v)" by (cases kv)
  from Cons.prems kv have k: "key_ok k" and v: "val_ok v"
    and ok: "\<forall>(k, v) \<in> set kvs. key_ok k \<and> val_ok v" and ok': "\<forall>(k, v) \<in> set kvs. key_ok k"
    by auto
  let ?r = "enc_val v @ SEPAR # enc_args kvs"
  let ?s = "enc_key k @ DELIM # ?r"
  have s: "enc_args (kv # kvs) = ?s" by (simp add: kv enc_pair_def)
  show ?case
  proof (cases "f = k")
    case True
    have "compare_token (Some (DELIM # ?r)) (Some [DELIM]) = 0" by (simp add: compare_delim_iff)
    with True compare_key_iff[OF k assms(3)] next_token_key[OF k] next_token_delim_val[OF v]
    have "find_arg ?s f = Some (Some ?r)" by (subst find_arg.simps) simp
    with True s kv show ?thesis by auto
  next
    case False
    have "find_arg ?s f = find_arg (DELIM # ?r) f"
      using False compare_key_iff[OF k assms(3)] next_token_key[OF k]
      by (subst find_arg.simps) simp
    also have "\<dots> = find_arg ?r f"
      using compare_delim_iff[OF assms(3)] assms(4) next_token_delim_val[OF v]
      by (simp add: find_arg.simps[of "DELIM # ?r" f])
    also have "\<dots> = (if kvs = [] then None else find_arg (enc_args kvs) f)"
      by (rule find_arg_step_val[OF ok' v])
    finally show ?thesis using False Cons.IH[OF ok] s kv by auto
  qed
qed

section \<open>Copying the value\<close>

lemma copy_literal_eq:
  "SEPAR \<notin> set s \<Longrightarrow> DELIM \<notin> set s \<Longrightarrow> is_cstr s \<Longrightarrow> at0 r \<in> {SEPAR, DELIM, NUL} \<Longrightarrow>
   copy_literal m (s @ r) d n =
     (wr m d (take n s), d + int (min (length s) n), n - length s)"
proof (induction s arbitrary: m d n)
  case Nil
  then show ?case by (cases r) auto
next
  case (Cons c s)
  then show ?case
    by (cases n) (auto simp: min_def fun_upd_def)
qed

lemma copy_quoted_step:
  assumes "c = ESC \<Longrightarrow> at0 ts \<noteq> QUOTE" "c \<noteq> QUOTE" "n \<noteq> 1"
  shows "copy_quoted m (c # ts) d n = copy_quoted (m(d := c)) ts (d + 1) (n - 1)"
proof (cases ts)
  case Nil
  with assms show ?thesis by (subst copy_quoted.simps(2)) (simp del: copy_quoted.simps)
next
  case (Cons x xs)
  with assms show ?thesis by (subst copy_quoted.simps(2)) (auto simp del: copy_quoted.simps)
qed

lemma copy_quoted_quote:
  assumes "n \<noteq> 1"
  shows "copy_quoted m (ESC # QUOTE # ts) d n = copy_quoted (m(d := QUOTE)) ts (d + 1) (n - 1)"
  using assms by (subst copy_quoted.simps(2)) (simp del: copy_quoted.simps)

lemma copy_quoted_eq:
  "esc_safe s \<Longrightarrow> is_cstr s \<Longrightarrow> 0 < n \<Longrightarrow>
   copy_quoted m (escape s @ QUOTE # r) d n =
     Some ((wr m d (take (n - 1) s))(d + int (min (length s) (n - 1)) := NUL),
       if length s < n then STR_SUCCESS else STR_TRUNCATED)"
proof (induction s arbitrary: m d n)
  case Nil
  then show ?case by (simp add: fun_upd_def)
next
  case (Cons c s)
  have q: "c = ESC \<Longrightarrow> at0 (escape s @ QUOTE # r) \<noteq> QUOTE"
    using Cons.prems(1) by (simp add: at0_escape)
  obtain x xs where x: "escape s @ QUOTE # r = x # xs" by (cases "escape s @ QUOTE # r") auto
  show ?case
  proof (cases "n = 1")
    case True
    have "copy_quoted m (escape (c # s) @ QUOTE # r) d n = Some (m(d := NUL), STR_TRUNCATED)"
      using q x True by (simp add: fun_upd_def)
    with True show ?thesis by (simp add: fun_upd_def)
  next
    case False
    with Cons.prems obtain k where k: "n = Suc (Suc k)"
      by (metis One_nat_def Suc_pred' not0_implies_Suc)
    have "copy_quoted m (escape (c # s) @ QUOTE # r) d n =
        copy_quoted (m(d := c)) (escape s @ QUOTE # r) (d + 1) (Suc k)"
      using k q by (simp add: copy_quoted_step copy_quoted_quote del: copy_quoted.simps)
    also have "\<dots> = Some ((wr (m(d := c)) (d + 1) (take k s))(d + 1 + int (min (length s) k) := NUL),
        if length s < Suc k then STR_SUCCESS else STR_TRUNCATED)"
      using Cons.prems by (subst Cons.IH) auto
    finally show ?thesis using k by (simp add: add.assoc fun_upd_def)
  qed
qed

lemma token_copy_enc_val:
  assumes v: "val_ok v" and n: "int (length v) < n"
  shows "token_copy m (Some (enc_val v @ SEPAR # r)) d n
    = Some ((wr m d v)(d + int (length v) := NUL), STR_SUCCESS)"
proof (cases "n = 1")
  case True
  with n have "v = []" by simp
  with True show ?thesis by (simp add: token_copy_def)
next
  case False
  let ?s = "enc_val v @ SEPAR # r"
  have n2: "n > 1" "length v < nat n" "take (nat n - 1) v = v" "0 < nat n" using n False by auto
  have ft: "first_token (Some ?s) = Some ?s"
    using enc_val_head[OF v] by (intro first_token_id) auto
  have nd: "at0 ?s \<noteq> DELIM" using enc_val_head[OF v] by auto
  consider (q) "needs_quotes v" | (e) "v = []" | (l) "\<not> needs_quotes v" "v \<noteq> []" by blast
  then show ?thesis
  proof cases
    case q
    with v have "esc_safe v" "is_cstr v" by (auto simp: val_ok_def)
    from copy_quoted_eq[OF this n2(4), of m "SEPAR # r" d] q n2 ft nd show ?thesis
      by (simp add: token_copy_def enc_val_def quoted_def)
  next
    case e
    have "copy_quoted m (escape [] @ QUOTE # SEPAR # r) d (nat n) = Some (m(d := NUL), STR_SUCCESS)"
      by simp
    with e n2 ft nd show ?thesis by (simp add: token_copy_def enc_val_def needs_quotes_def)
  next
    case l
    then have lit: "SEPAR \<notin> set v" "DELIM \<notin> set v" "is_cstr v" "at0 v \<noteq> QUOTE"
      using v by (auto simp: needs_quotes_def val_ok_def)
    from copy_literal_eq[OF lit(1-3), of "SEPAR # r" m d "nat n"] l lit(4) n2 ft nd show ?thesis
      by (simp add: token_copy_def enc_val_def)
  qed
qed

lemma get_string_arg_lookup:
  assumes "\<forall>(k, v) \<in> set kvs. key_ok k \<and> val_ok v" "is_cstr key" "key \<noteq> [DELIM]"
    and "1 \<le> maxlen" and "\<forall>v. map_of kvs key = Some v \<longrightarrow> int (length v) < maxlen"
  shows "MPIU_Str_get_string_arg m (Some (enc_args kvs)) key val maxlen =
    (case map_of kvs key of
       None \<Rightarrow> Some (m, STR_FAIL)
     | Some v \<Rightarrow> Some ((wr m val v)(val + int (length v) := NUL), STR_SUCCESS))"
proof (cases "kvs = []")
  case True
  with assms(4) show ?thesis by (simp add: MPIU_Str_get_string_arg_def first_token_def)
next
  case False
  have "\<forall>(k, v) \<in> set kvs. key_ok k" using assms(1) by auto
  note ft = first_token_enc_args[OF this]
  obtain rest where fa: "find_arg (enc_args kvs) key =
    (case map_of kvs key of None \<Rightarrow> None | Some v \<Rightarrow> Some (Some (enc_val v @ SEPAR # rest)))"
    using find_arg_enc_args[OF assms(1) False assms(2,3)] by blast
  show ?thesis
  proof (cases "map_of kvs key")
    case None
    with ft fa False assms(4) show ?thesis by (simp add: MPIU_Str_get_string_arg_def)
  next
    case (Some v)
    with assms(1) have "val_ok v" by (auto dest: map_of_SomeD)
    moreover from Some assms(5) have "int (length v) < maxlen" by simp
    ultimately have "token_copy m (Some (enc_val v @ SEPAR # rest)) val maxlen
        = Some ((wr m val v)(val + int (length v) := NUL), STR_SUCCESS)"
      by (rule token_copy_enc_val)
    with Some ft fa False assms(4) show ?thesis by (simp add: MPIU_Str_get_string_arg_def)
  qed
qed

text \<open>
  Reading a key from the text of a list of pairs gives the value of its first pair,
  terminated, in the caller's buffer, and fails without touching the buffer when no pair has
  the key.
\<close>

theorem get_string_arg_finds_first:
  assumes "\<forall>(k, v) \<in> set kvs. key_ok k \<and> val_ok v" "is_cstr key" "key \<noteq> [DELIM]"
    and "1 \<le> maxlen" and "\<forall>v. map_of kvs key = Some v \<longrightarrow> int (length v) < maxlen"
  shows "MPIU_Str_get_string_arg m (Some (enc_args kvs)) key val maxlen =
    (case map_of kvs key of
       None \<Rightarrow> Some (m, STR_FAIL)
     | Some v \<Rightarrow> Some ((wr m val v)(val + int (length v) := NUL), STR_SUCCESS))"
  using assms by (rule get_string_arg_lookup)

theorem get_string_arg_finds_first_witness:
  "MPIU_Str_get_string_arg (\<lambda>_. NUL) (Some (''host#node-7$path#'' @ [QUOTE] @ ''a$b'' @ [QUOTE] @ ''$'')) ''host'' 100 7
    = Some ((wr (\<lambda>_. NUL) 100 ''node-7'')(106 := NUL), STR_SUCCESS)"
  using get_string_arg_finds_first [of "[(''host'', ''node-7''), (''path'', ''a$b'')]" "''host''" 7 "\<lambda>_. NUL" 100]
  by (simp add: key_ok_def val_ok_def needs_quotes_def enc_pair_def enc_key_def enc_val_def quoted_def)

end
