(* ===== verification/ArgStrWrite.thy ===== *)
theory ArgStrWrite
  imports ArgStrParse
begin

text \<open>
  The writers of src/src/util/mem/argstr.c at the level of memory: \<open>quoted_printf\<close>,
  \<open>encode_buffer\<close> and the \<open>MPIU_Str_add_*\<close> routines, and what the readers of \<open>ArgStr\<close> find
  in a string they built. \<open>MPIU_Snprintf\<close> is the C99 \<open>snprintf\<close> of the default configuration
  (\<open>HAVE_SNPRINTF\<close>).
\<close>

section \<open>snprintf\<close>

text \<open>
  C99 \<open>snprintf\<close> for an already formatted text: it returns the length of the text whatever
  was stored. The \<open>int\<close> size is converted to \<open>size_t\<close>, so a negative one is no bound.
\<close>

definition c_snprintf :: "mem \<Rightarrow> int \<Rightarrow> int \<Rightarrow> string \<Rightarrow> mem \<times> int" where
  "c_snprintf m str sz out =
     (let t = (if sz < 0 then out else take (nat (sz - 1)) out) in
      (if sz = 0 then m else (wr m str t)(str + int (length t) := NUL), int (length out)))"

lemma c_snprintf_fits:
  "int (length s) < n \<Longrightarrow> c_snprintf m d n s = ((wr m d s)(d + int (length s) := NUL), int (length s))"
  by (simp add: c_snprintf_def Let_def)

lemma snd_c_snprintf [simp]: "snd (c_snprintf m d n s) = int (length s)"
  by (simp add: c_snprintf_def Let_def)

text \<open>\<open>%d\<close>\<close>

function dec_digits :: "nat \<Rightarrow> string" where
  "dec_digits n = (if n < 10 then [char_of (48 + n)] else dec_digits (n div 10) @ [char_of (48 + n mod 10)])"
  by pat_completeness auto
termination
  by (relation "measure id") auto

declare dec_digits.simps [simp del]

definition itoa :: "int \<Rightarrow> string" where
  "itoa v = (if v < 0 then CHR ''-'' # dec_digits (nat (- v)) else dec_digits (nat v))"

text \<open>\<open>%02X\<close>\<close>

definition hex_char :: "nat \<Rightarrow> char" where
  "hex_char n = char_of (if n < 10 then 48 + n else 55 + n)"

definition hex2 :: "char \<Rightarrow> string" where
  "hex2 c = (let n = (of_char c :: nat) in [hex_char (n div 16), hex_char (n mod 16)])"

section \<open>quoted_printf\<close>

text \<open>
  The loop of \<open>quoted_printf\<close>: memory, \<open>str\<close>, \<open>maxlen\<close> and \<open>count\<close> where it stops. The
  \<open>return count\<close> inside the loop is the case \<open>maxlen = 0\<close> behind it.
\<close>

fun qp_loop :: "mem \<Rightarrow> int \<Rightarrow> nat \<Rightarrow> int \<Rightarrow> string \<Rightarrow> mem \<times> int \<times> nat \<times> int" where
  "qp_loop m str maxlen count [] = (m, str, maxlen, count)"
| "qp_loop m str maxlen count (c # val) =
     (if maxlen = 0 then (m, str, maxlen, count)
      else if c = QUOTE then
        (let m1 = m(str := ESC) in
         if maxlen - 1 = 0 then (m1, str + 1, 0, count + 1)
         else qp_loop (m1(str + 1 := c)) (str + 2) (maxlen - 2) (count + 2) val)
      else qp_loop (m(str := c)) (str + 1) (maxlen - 1) (count + 1) val)"

definition quoted_printf :: "mem \<Rightarrow> int \<Rightarrow> int \<Rightarrow> string \<Rightarrow> mem \<times> int" where
  "quoted_printf m str maxlen val =
     (if maxlen < 1 then (m, 0)
      else (case qp_loop (m(str := QUOTE)) (str + 1) (nat (maxlen - 1)) 1 val of
              (m1, str1, left, count) \<Rightarrow>
                if left = 0 then (m1, count)
                else if left - 1 = 0 then (m1(str1 := QUOTE), count + 1)
                else (m1(str1 := QUOTE, str1 + 1 := NUL), count + 1)))"

lemma qp_loop_eq:
  "qp_loop m d n k s =
     (wr m d (take n (escape s)), d + int (min n (length (escape s))), n - length (escape s),
      k + int (min n (length (escape s))))"
proof (induction s arbitrary: m d n k)
  case Nil
  then show ?case by simp
next
  case (Cons c s)
  show ?case
  proof (cases n)
    case 0
    then show ?thesis by simp
  next
    case (Suc i)
    show ?thesis
    proof (cases "c = QUOTE")
      case False
      with Suc show ?thesis by (auto simp: Cons.IH min_def simp del: fun_upd_apply)
    next
      case True
      with Suc show ?thesis
        by (cases i) (auto simp: Cons.IH Let_def min_def algebra_simps simp del: fun_upd_apply)
    qed
  qed
qed

lemma quoted_printf_eq:
  assumes "1 \<le> n"
  shows "quoted_printf m d n s =
    (let q = quoted s in
     (if int (length q) < n then (wr m d q)(d + int (length q) := NUL) else wr m d (take (nat n) q),
      min n (int (length q))))"
proof -
  let ?e = "escape s"
  from assms obtain k where k: "n = int (Suc k)" by (metis Suc_pred' int_one_le_iff_zero_less zero_less_imp_eq_int)
  have loop: "qp_loop (m(d := QUOTE)) (d + 1) (nat (n - 1)) 1 s =
      (wr m d (take (Suc k) (QUOTE # ?e)), d + 1 + int (min k (length ?e)), k - length ?e,
       1 + int (min k (length ?e)))"
    using k by (simp add: qp_loop_eq)
  consider "k \<le> length ?e" | "k = Suc (length ?e)" | "Suc (length ?e) < k" by linarith
  then show ?thesis
  proof cases
    case 1
    have "nat n = Suc k" using k by simp
    with 1 loop assms k show ?thesis
      by (simp add: quoted_printf_def quoted_def Let_def)
  next
    case 2
    with loop assms k have "quoted_printf m d n s =
        ((wr m d (QUOTE # ?e))(d + int (length (QUOTE # ?e)) := QUOTE), n)"
      by (simp add: quoted_printf_def algebra_simps)
    also have "(wr m d (QUOTE # ?e))(d + int (length (QUOTE # ?e)) := QUOTE) = wr m d (quoted s)"
      by (simp only: wr_snoc[symmetric] quoted_def append_Cons)
    finally show ?thesis using 2 k by (simp add: quoted_def)
  next
    case 3
    with loop assms k have "quoted_printf m d n s =
        (((wr m d (QUOTE # ?e))(d + int (length (QUOTE # ?e)) := QUOTE))(d + int (length (quoted s)) := NUL),
         int (length (quoted s)))"
      by (simp add: quoted_printf_def quoted_def algebra_simps)
    also have "(wr m d (QUOTE # ?e))(d + int (length (QUOTE # ?e)) := QUOTE) = wr m d (quoted s)"
      by (simp only: wr_snoc[symmetric] quoted_def append_Cons)
    finally show ?thesis using 3 k by (simp add: quoted_def del: fun_upd_apply)
  qed
qed

section \<open>The writers\<close>

text \<open>
  \<open>encode_buffer\<close>: memory, \<open>*num_encoded\<close> where it is stored, and the status. The length is
  an \<open>int\<close> that drops by two in every round and stops the loop only at 0.
\<close>

fun encode_loop :: "mem \<Rightarrow> int \<Rightarrow> int \<Rightarrow> string \<Rightarrow> int \<Rightarrow> mem \<times> int \<times> int" where
  "encode_loop m dest dlen [] n = (m, n, STR_SUCCESS)"
| "encode_loop m dest dlen (c # src) n =
     (if dlen = 0 then (m, n, STR_TRUNCATED)
      else (case c_snprintf m dest dlen (hex2 c) of (m', num_used) \<Rightarrow>
              if num_used < 0 then (m', n, STR_TRUNCATED)
              else encode_loop m' (dest + num_used) (dlen - num_used) src (n + 1)))"

definition encode_buffer :: "mem \<Rightarrow> int \<Rightarrow> int \<Rightarrow> string \<Rightarrow> mem \<times> int option \<times> int" where
  "encode_buffer m dest dlen src =
     (if src = [] then
        (if dlen > 2 then (m(dest := QUOTE, dest + 1 := QUOTE, dest + 2 := NUL), Some 0, STR_SUCCESS)
         else (m, None, STR_TRUNCATED))
      else (case encode_loop m dest dlen src 0 of (m', n, r) \<Rightarrow> (m', Some n, r)))"

text \<open>The flag, the same code in \<open>MPIU_Str_add_string_arg\<close> and \<open>MPIU_Str_add_binary_arg\<close>.\<close>

definition add_flag :: "mem \<Rightarrow> int \<Rightarrow> int \<Rightarrow> string \<Rightarrow> mem \<times> int" where
  "add_flag m str maxlen flag =
     (if SEPAR \<in> set flag \<or> DELIM \<in> set flag \<or> at0 flag = QUOTE then quoted_printf m str maxlen flag
      else c_snprintf m str maxlen flag)"

definition add_value :: "mem \<Rightarrow> int \<Rightarrow> int \<Rightarrow> string \<Rightarrow> mem \<times> int" where
  "add_value m str maxlen val =
     (if SEPAR \<in> set val \<or> DELIM \<in> set val \<or> at0 val = QUOTE then quoted_printf m str maxlen val
      else if at0 val = NUL then c_snprintf m str maxlen [QUOTE, QUOTE]
      else c_snprintf m str maxlen val)"

text \<open>The result: memory, \<open>*str_ptr\<close>, \<open>*maxlen_ptr\<close> and the status.\<close>

definition MPIU_Str_add_string_arg ::
    "mem \<Rightarrow> int \<Rightarrow> int \<Rightarrow> string \<Rightarrow> string \<Rightarrow> mem \<times> int \<times> int \<times> int" where
  "MPIU_Str_add_string_arg m str maxlen flag val =
     (if maxlen < 1 then (m, str, maxlen, STR_FAIL)
      else (case add_flag m str maxlen flag of (m1, num_chars) \<Rightarrow>
        let maxlen1 = maxlen - num_chars in
        if maxlen1 < 1 then (m1(str := NUL), str, maxlen1, STR_NOMEM)
        else
          let str1 = str + num_chars; m2 = m1(str1 := DELIM);
              str2 = str1 + 1; maxlen2 = maxlen1 - 1 in
          (case add_value m2 str2 maxlen2 val of (m3, num_chars) \<Rightarrow>
             let str3 = str2 + num_chars; maxlen3 = maxlen2 - num_chars in
             if maxlen3 < 2 then (m3(str3 := NUL), str3, maxlen3, STR_NOMEM)
             else (m3(str3 := SEPAR, str3 + 1 := NUL), str3 + 1, maxlen3 - 1, STR_SUCCESS))))"

definition MPIU_Str_add_int_arg ::
    "mem \<Rightarrow> int \<Rightarrow> int \<Rightarrow> string \<Rightarrow> int \<Rightarrow> mem \<times> int \<times> int \<times> int" where
  "MPIU_Str_add_int_arg m str maxlen flag val =
     MPIU_Str_add_string_arg m str maxlen flag (take 11 (itoa val))"

definition MPIU_Str_add_binary_arg ::
    "mem \<Rightarrow> int \<Rightarrow> int \<Rightarrow> string \<Rightarrow> string \<Rightarrow> mem \<times> int \<times> int \<times> int" where
  "MPIU_Str_add_binary_arg m str maxlen flag buffer =
     (if maxlen < 1 then (m, str, maxlen, STR_FAIL)
      else (case add_flag m str maxlen flag of (m1, num_chars) \<Rightarrow>
        let maxlen1 = maxlen - num_chars in
        if maxlen1 < 1 then (m1(str := NUL), str, maxlen1, STR_NOMEM)
        else
          let str1 = str + num_chars; m2 = m1(str1 := DELIM);
              str2 = str1 + 1; maxlen2 = maxlen1 - 1 in
          (case encode_buffer m2 str2 maxlen2 buffer of (m3, enc, result) \<Rightarrow>
             if result \<noteq> STR_SUCCESS then (m3(str2 := NUL), str2, maxlen2, result)
             else
               let num_chars = (case enc of Some n \<Rightarrow> n | None \<Rightarrow> num_chars) * 2;
                   str3 = str2 + num_chars; maxlen3 = maxlen2 - num_chars in
               if maxlen3 < 2 then (m3(str3 := NUL), str3, maxlen3, STR_NOMEM)
               else (m3(str3 := SEPAR, str3 + 1 := NUL), str3 + 1, maxlen3 - 1, STR_SUCCESS))))"

text \<open>\<open>MPIU_Str_add_string\<close>: memory, \<open>*str_ptr\<close>, \<open>*maxlen_ptr\<close> and the result.\<close>

definition MPIU_Str_add_string :: "mem \<Rightarrow> int \<Rightarrow> int \<Rightarrow> string \<Rightarrow> mem \<times> int \<times> int \<times> int" where
  "MPIU_Str_add_string m str maxlen val =
     (if SEPAR \<in> set val \<or> QUOTE \<in> set val \<or> DELIM \<in> set val then
        (case quoted_printf m str maxlen val of (m1, num_chars) \<Rightarrow>
           if num_chars = maxlen then (m1(str := NUL), str, maxlen, - 1)
           else if num_chars < maxlen - 1 then
             (m1(str + num_chars := SEPAR, str + num_chars + 1 := NUL),
              str + (num_chars + 1), maxlen - (num_chars + 1), 0)
           else (m1(str + num_chars := NUL), str + num_chars, maxlen - num_chars, 0))
      else
        (case (if at0 val = NUL then c_snprintf m str maxlen [QUOTE, QUOTE]
               else c_snprintf m str maxlen (val @ [SEPAR])) of (m1, num_chars) \<Rightarrow>
           if num_chars = maxlen then (m1(str := NUL), str, maxlen, - 1)
           else (m1, str + num_chars, maxlen - num_chars, 0)))"

section \<open>Adding a pair\<close>

lemma wr_over: "0 < length s \<Longrightarrow> wr (m(a := c)) a s = wr m a s"
  by (cases s) simp_all

lemma add_flag_fits:
  assumes "int (length (enc_key k)) < n"
  shows "add_flag m d n k =
    ((wr m d (enc_key k))(d + int (length (enc_key k)) := NUL), int (length (enc_key k)))"
  using assms
  by (auto simp: add_flag_def enc_key_def needs_quotes_def quoted_printf_eq c_snprintf_fits Let_def)

lemma add_flag_long:
  assumes "1 \<le> n" "n \<le> int (length (enc_key k))"
  shows "n \<le> snd (add_flag m d n k)"
  using assms
  by (auto simp: add_flag_def enc_key_def needs_quotes_def quoted_printf_eq Let_def)

lemma add_value_fits:
  assumes "int (length (enc_val v)) < n" "is_cstr v"
  shows "add_value m d n v =
    ((wr m d (enc_val v))(d + int (length (enc_val v)) := NUL), int (length (enc_val v)))"
  using assms
  by (auto simp: add_value_def enc_val_def needs_quotes_def quoted_printf_eq c_snprintf_fits Let_def
      at0_nul_iff)

lemma add_value_long:
  assumes "0 \<le> n" "n < int (length (enc_val v)) + 2" "is_cstr v"
  shows "n < snd (add_value m d n v) + 2"
proof (cases "n = 0")
  case True
  then show ?thesis using assms by (auto simp: add_value_def quoted_printf_def)
next
  case False
  with assms show ?thesis
    by (auto simp: add_value_def enc_val_def needs_quotes_def quoted_printf_eq Let_def at0_nul_iff)
qed

lemma add_string_arg_fits:
  assumes fits: "int (length (enc_pair k v)) < n" and v: "is_cstr v"
  shows "MPIU_Str_add_string_arg m d n k v =
    ((wr m d (enc_pair k v))(d + int (length (enc_pair k v)) := NUL),
     d + int (length (enc_pair k v)), n - int (length (enc_pair k v)), STR_SUCCESS)"
proof -
  let ?K = "int (length (enc_key k))" and ?V = "int (length (enc_val v))"
  let ?m2 = "wr m d (enc_key k @ [DELIM])"
  have len: "int (length (enc_pair k v)) = ?K + ?V + 2" by (simp add: enc_pair_def)
  have key: "add_flag m d n k = ((wr m d (enc_key k))(d + ?K := NUL), ?K)"
    by (rule add_flag_fits) (use fits len in linarith)
  have m2: "(wr m d (enc_key k))(d + ?K := NUL, d + ?K := DELIM) = ?m2"
    by (simp only: fun_upd_upd wr_snoc)
  have val: "add_value ?m2 (d + ?K + 1) (n - ?K - 1) v
      = ((wr ?m2 (d + ?K + 1) (enc_val v))(d + ?K + 1 + ?V := NUL), ?V)"
    by (rule add_value_fits) (use fits len v in linarith)+
  have "(wr ?m2 (d + ?K + 1) (enc_val v))(d + ?K + 1 + ?V := NUL, d + ?K + 1 + ?V := SEPAR)
      = wr m d (enc_pair k v)"
    by (simp add: enc_pair_def wr_append algebra_simps del: fun_upd_apply)
  with key m2 val fits len show ?thesis
    by (simp add: MPIU_Str_add_string_arg_def Let_def algebra_simps del: fun_upd_apply fun_upd_upd)
qed

lemma add_string_arg_long:
  assumes "1 \<le> n" "n \<le> int (length (enc_pair k v))" "is_cstr v"
  shows "snd (snd (snd (MPIU_Str_add_string_arg m d n k v))) = STR_NOMEM"
proof (cases "n \<le> int (length (enc_key k))")
  case True
  obtain m1 c where "add_flag m d n k = (m1, c)" "n \<le> c"
    using add_flag_long[OF assms(1) True, of m d] by (metis prod.collapse)
  with assms(1) show ?thesis by (simp add: MPIU_Str_add_string_arg_def)
next
  case False
  let ?K = "int (length (enc_key k))"
  from False have key: "add_flag m d n k = ((wr m d (enc_key k))(d + ?K := NUL), ?K)"
    by (intro add_flag_fits) simp
  let ?m2 = "(wr m d (enc_key k))(d + ?K := DELIM)"
  have "n - ?K - 1 < snd (add_value ?m2 (d + ?K + 1) (n - ?K - 1) v) + 2"
    by (rule add_value_long) (use False assms in \<open>simp_all add: enc_pair_def\<close>)
  then obtain m3 c where "add_value ?m2 (d + ?K + 1) (n - ?K - 1) v = (m3, c)" "n - ?K - 1 < c + 2"
    by (metis prod.collapse)
  with assms(1) False key show ?thesis by (simp add: MPIU_Str_add_string_arg_def Let_def)
qed

text \<open>
  \<open>MPIU_Str_add_string_arg\<close> succeeds exactly when the pair fits with its terminator;
  then memory holds the text of the pair, terminated, nothing else has changed, and the
  caller's pointer and remaining length have moved over it. Otherwise it reports
  \<open>MPIU_STR_NOMEM\<close>.
\<close>

theorem MPIU_Str_add_string_arg_correct:
  assumes "1 \<le> maxlen" "is_cstr val"
  shows "MPIU_Str_add_string_arg m str maxlen flag val = (m', str', maxlen', r)
    \<Longrightarrow> (let l = int (length (enc_pair flag val)) in
         (r = STR_SUCCESS \<longleftrightarrow> l < maxlen)
       \<and> (r \<noteq> STR_SUCCESS \<longrightarrow> r = STR_NOMEM)
       \<and> (r = STR_SUCCESS \<longrightarrow> m' = (wr m str (enc_pair flag val))(str + l := NUL)
            \<and> str' = str + l \<and> maxlen' = maxlen - l))"
  using assms add_string_arg_fits[of flag val maxlen m str] add_string_arg_long[of maxlen flag val m str]
  by (cases "int (length (enc_pair flag val)) < maxlen") (auto simp: Let_def)

theorem MPIU_Str_add_string_arg_correct_witness:
  "\<exists>m' r. MPIU_Str_add_string_arg (\<lambda>_. NUL) 100 10 ''key'' ''val'' = (m', 108, 2, r)
    \<and> r = STR_SUCCESS \<and> m' = (wr (\<lambda>_. NUL) 100 ''key#val$'')(108 := NUL)"
proof -
  obtain m' s' n' r where e: "MPIU_Str_add_string_arg (\<lambda>_. NUL) 100 10 ''key'' ''val'' = (m', s', n', r)"
    by (metis prod_cases4)
  have p: "enc_pair ''key'' ''val'' = ''key#val$''"
    by (simp add: enc_pair_def enc_key_def enc_val_def needs_quotes_def)
  from MPIU_Str_add_string_arg_correct[OF _ _ e] p e show ?thesis by (simp add: Let_def)
qed

text \<open>
  C40: when the key fits but an unquoted value does not, the routine that is meant to clear
  the caller's string stores its NUL behind the position the value would have ended at,
  which lies beyond the buffer for every value longer than the room left, and the first
  byte of the string keeps the key: \<open>orig_str_ptr\<close> is the pointer the routine advances.
\<close>

theorem MPIU_Str_add_string_arg_nomem_out_of_bounds:
  assumes "\<not> needs_quotes flag" "flag \<noteq> []" "\<not> needs_quotes val" "val \<noteq> []" "is_cstr val"
    and "int (length flag) + 1 \<le> maxlen" "maxlen \<le> int (length flag) + 1 + int (length val)"
  shows "\<exists>m' str' maxlen'. MPIU_Str_add_string_arg m str maxlen flag val = (m', str', maxlen', STR_NOMEM)
    \<and> str' = str + int (length flag) + 1 + int (length val)
    \<and> str + maxlen \<le> str' \<and> m' str' = NUL \<and> m' str = at0 flag"
proof -
  let ?K = "int (length flag)" and ?V = "int (length val)"
  have key: "add_flag m str maxlen flag = ((wr m str flag)(str + ?K := NUL), ?K)"
    using add_flag_fits[of flag maxlen m str] assms(1,6) by (simp add: enc_key_def)
  let ?m2 = "(wr m str flag)(str + ?K := DELIM)"
  have val: "add_value ?m2 (str + ?K + 1) (maxlen - ?K - 1) val
      = c_snprintf ?m2 (str + ?K + 1) (maxlen - ?K - 1) val"
    using assms(3,4,5) by (auto simp: add_value_def needs_quotes_def at0_nul_iff)
  obtain m3 where m3: "c_snprintf ?m2 (str + ?K + 1) (maxlen - ?K - 1) val = (m3, ?V)"
    using snd_c_snprintf by (metis prod.collapse)
  have "m3 str = ?m2 str"
    using m3 assms(2) by (auto simp: c_snprintf_def Let_def wr_outside split: if_splits)
  also have "\<dots> = at0 flag"
    using holds_nth[OF holds_wr[of m str flag], of 0] assms(2) by (cases flag) auto
  finally have "m3 str = at0 flag" .
  moreover have "MPIU_Str_add_string_arg m str maxlen flag val =
      (m3(str + ?K + 1 + ?V := NUL), str + ?K + 1 + ?V, maxlen - ?K - 1 - ?V, STR_NOMEM)"
    using key val m3 assms(6,7) by (simp add: MPIU_Str_add_string_arg_def Let_def)
  ultimately show ?thesis using assms(2,7) by auto
qed

theorem MPIU_Str_add_string_arg_nomem_out_of_bounds_witness:
  "\<exists>m' str' maxlen'. MPIU_Str_add_string_arg (\<lambda>_. NUL) 100 6 ''k'' ''abcdefgh'' = (m', str', maxlen', STR_NOMEM)
    \<and> str' = 110 \<and> m' 110 = NUL \<and> m' 100 = CHR ''k''"
  using MPIU_Str_add_string_arg_nomem_out_of_bounds [of "''k''" "''abcdefgh''" 6 "\<lambda>_. NUL" 100]
  by (auto simp: needs_quotes_def)

section \<open>Round trips\<close>

text \<open>A client that adds several pairs to one buffer and stops at the first failure.\<close>

fun add_args :: "mem \<Rightarrow> int \<Rightarrow> int \<Rightarrow> (string \<times> string) list \<Rightarrow> mem \<times> int \<times> int \<times> int" where
  "add_args m str maxlen [] = (m, str, maxlen, STR_SUCCESS)"
| "add_args m str maxlen ((k, v) # kvs) =
     (case MPIU_Str_add_string_arg m str maxlen k v of (m', str', maxlen', r) \<Rightarrow>
        if r = STR_SUCCESS then add_args m' str' maxlen' kvs else (m', str', maxlen', r))"

lemma length_enc_pair: "0 < length (enc_pair k v)"
  by (simp add: enc_pair_def)

lemma add_args_eq:
  assumes "\<forall>(k, v) \<in> set kvs. is_cstr v" "int (length (enc_args kvs)) < n" "kvs \<noteq> []"
  shows "add_args m d n kvs =
    ((wr m d (enc_args kvs))(d + int (length (enc_args kvs)) := NUL),
     d + int (length (enc_args kvs)), n - int (length (enc_args kvs)), STR_SUCCESS)"
  using assms
proof (induction kvs arbitrary: m d n)
  case Nil
  then show ?case by simp
next
  case (Cons kv kvs)
  obtain k v where kv: "kv = (k, v)" by (cases kv)
  let ?p = "enc_pair k v" and ?r = "enc_args kvs"
  have step: "MPIU_Str_add_string_arg m d n k v =
    ((wr m d ?p)(d + int (length ?p) := NUL), d + int (length ?p), n - int (length ?p), STR_SUCCESS)"
    by (rule add_string_arg_fits) (use Cons.prems kv in auto)
  show ?case
  proof (cases "kvs = []")
    case True
    with step kv show ?thesis by (simp del: fun_upd_apply)
  next
    case False
    then obtain kv' kvs' where "kvs = kv' # kvs'" by (cases kvs) auto
    then have "0 < length ?r" using length_enc_pair by (cases kv') simp
    note over = wr_over[OF this]
    have "add_args ((wr m d ?p)(d + int (length ?p) := NUL)) (d + int (length ?p)) (n - int (length ?p)) kvs
      = ((wr (wr m d ?p) (d + int (length ?p)) ?r)(d + int (length ?p) + int (length ?r) := NUL),
         d + int (length ?p) + int (length ?r), n - int (length ?p) - int (length ?r), STR_SUCCESS)"
      using Cons.prems kv False
      by (subst Cons.IH) (auto simp: over simp del: fun_upd_apply)
    with step kv show ?thesis
      by (simp add: wr_append algebra_simps del: fun_upd_apply)
  qed
qed

lemma read_cstr_cstring:
  "cstring m a s \<Longrightarrow> is_cstr s \<Longrightarrow> length s < k \<Longrightarrow> read_cstr m a k = s"
proof (induction s arbitrary: a k)
  case Nil
  then show ?case by (cases k) (auto simp: cstring_def)
next
  case (Cons c s)
  from Cons.prems(3) obtain j where "k = Suc j" by (cases k) auto
  with Cons show ?case by (auto simp: cstring_def algebra_simps)
qed

lemma is_cstr_escape: "is_cstr s \<Longrightarrow> is_cstr (escape s)"
  by (induction s) auto

lemma is_cstr_enc_args:
  "\<forall>(k, v) \<in> set kvs. is_cstr k \<and> is_cstr v \<Longrightarrow> is_cstr (enc_args kvs)"
  by (induction kvs)
     (auto simp: enc_pair_def enc_key_def enc_val_def quoted_def is_cstr_escape)

text \<open>
  C38: pairs added one after another to a buffer that has room for all of them are found
  again: the additions succeed without touching memory outside the buffer, and looking a key
  up in the resulting string gives the value of its first pair. The keys of the pairs have to be
  \<open>key_ok\<close>: not empty, not the delimiter character alone, and a key that is written in quotes (it
  contains a delimiter or a separator, or begins with a quote) has no quote in it. A key or value
  that is written in quotes must also not have an escape character at its end or in front of a quote.
  Outside these conditions the code can give another pair's value, see the runs below.
\<close>

theorem add_get_string_arg_roundtrip:
  assumes "\<forall>(k, v) \<in> set kvs. key_ok k \<and> val_ok v" "int (length (enc_args kvs)) < maxlen"
    and "add_args m str maxlen kvs = (m', str', maxlen', r)"
    and "is_cstr key" "key \<noteq> [DELIM]" "map_of kvs key = Some v" "int (length v) < n"
  shows "r = STR_SUCCESS \<and> (\<forall>x. x < str \<or> str + maxlen \<le> x \<longrightarrow> m' x = m x)
    \<and> (\<exists>m''. MPIU_Str_get_string_arg m' (Some (read_cstr m' str (nat maxlen))) key val n
            = Some (m'', STR_SUCCESS) \<and> cstring m'' val v)"
proof -
  let ?e = "enc_args kvs"
  have cs: "\<forall>(k, v) \<in> set kvs. is_cstr k \<and> is_cstr v"
    using assms(1) by (auto simp: key_ok_def val_ok_def)
  from assms(6) have "kvs \<noteq> []" by auto
  then have m': "m' = (wr m str ?e)(str + int (length ?e) := NUL)" and r: "r = STR_SUCCESS"
    using add_args_eq[of kvs maxlen m str] assms(2,3) cs by auto
  have "cstring m' str ?e" unfolding m' by (rule cstring_wr_nul)
  then have "read_cstr m' str (nat maxlen) = ?e"
    by (rule read_cstr_cstring) (use is_cstr_enc_args[OF cs] assms(2) in auto)
  moreover have "MPIU_Str_get_string_arg m' (Some ?e) key val n
      = Some ((wr m' val v)(val + int (length v) := NUL), STR_SUCCESS)"
    using get_string_arg_lookup[OF assms(1,4,5), of n m' val] assms(6,7) by auto
  moreover have "m' x = m x" if "x < str \<or> str + maxlen \<le> x" for x
    using that assms(2) unfolding m' by (auto simp: wr_outside)
  ultimately show ?thesis using r cstring_wr_nul by simp
qed

theorem add_get_string_arg_roundtrip_witness:
  "let (m', str', maxlen', r) = add_args (\<lambda>_. NUL) 100 40 [(''host'', ''node-7''), (''path'', ''a$b'')]
   in r = STR_SUCCESS \<and> (\<exists>m''. MPIU_Str_get_string_arg m' (Some (read_cstr m' 100 40)) ''path'' 200 9
        = Some (m'', STR_SUCCESS) \<and> cstring m'' 200 ''a$b'')"
proof -
  obtain m' s' n' r where e:
    "add_args (\<lambda>_. NUL) 100 40 [(''host'', ''node-7''), (''path'', ''a$b'')] = (m', s', n', r)"
    by (metis prod_cases4)
  from add_get_string_arg_roundtrip[OF _ _ e, of "''path''" "''a$b''" 9 200] e
  show ?thesis
    by (simp add: key_ok_def val_ok_def needs_quotes_def enc_pair_def enc_key_def enc_val_def quoted_def)
qed

text \<open>
  Why \<open>key_ok\<close> excludes what it does. A pair whose key is the delimiter hides the pair behind
  it from a lookup when the value in front of it is the key looked for; and a quoted key with a
  quote inside is taken for the part in front of that quote. The keys of the self test at the end of argstr.c,
  one of them with a quote, are found where nothing of the kind stands in front of them.
\<close>

lemma delim_key_hides:
  "let (m, _, _, r) = add_args (\<lambda>_. NUL) 0 200 [(''a'', ''b''), ([DELIM], ''c''), (''b'', ''d'')]
   in find_arg (read_cstr m 0 200) ''b'' = Some (Some ''#c$b#d$'')"
  by code_simp

lemma quote_key_prefix:
  "let (m, _, _, r) = add_args (\<lambda>_. NUL) 0 200 [(''a$'' @ QUOTE # ''b'', ''1''), (''a$'', ''2'')]
   in map_option (map_option (take 2)) (find_arg (read_cstr m 0 200) ''a$'') = Some (Some ''1$'')"
  by code_simp

lemma self_test_keys:
  "let (m, _, _, r) = add_args (\<lambda>_. NUL) 0 200 [(''name'', ''David Ashton''), (''a b'', ''c d''), (''='', ''equals''),
      (QUOTE # ''help='', [CHR ''='', QUOTE]), (''age'', ''123'')];
     s = read_cstr m 0 200
   in r = STR_SUCCESS \<and> map_option (map_option (take 6)) (find_arg s ''='') = Some (Some ''equals'')
     \<and> map_option (map_option (take 2)) (find_arg s (QUOTE # ''help='')) = Some (Some [CHR ''='', QUOTE])"
  by code_simp

text \<open>Integers.\<close>

lemma of_char_digit: "n < 10 \<Longrightarrow> (of_char (char_of (48 + n) :: char) :: int) = 48 + int n"
proof -
  assume "n < 10"
  then have "(of_char (char_of (48 + n) :: char) :: nat) = 48 + n" by simp
  then show ?thesis by (metis of_nat_of_char of_nat_add of_nat_numeral)
qed

lemma atoi_digits_dec: "atoi_digits acc (dec_digits n @ r) =
    atoi_digits (acc * 10 ^ length (dec_digits n) + int n) r"
proof (induction n arbitrary: acc r rule: dec_digits.induct)
  case (1 n)
  have last: "atoi_digits a (char_of (48 + d) # r) = atoi_digits (10 * a + int d) r" if "d < 10" for a d r
    using that by (simp add: of_char_digit Let_def)
  show ?case
  proof (cases "n < 10")
    case True
    then show ?thesis by (simp add: dec_digits.simps[of n] last mult.commute del: atoi_digits.simps)
  next
    case False
    let ?L = "10 ^ length (dec_digits (n div 10)) :: int"
    have "atoi_digits acc (dec_digits n @ r)
        = atoi_digits (10 * (acc * ?L + int (n div 10)) + int (n mod 10)) r"
      using False 1 last[of "n mod 10"] by (simp add: dec_digits.simps[of n] del: atoi_digits.simps)
    also have "10 * (acc * ?L + int (n div 10)) + int (n mod 10) = acc * (10 * ?L) + int n"
      by (simp add: algebra_simps zdiv_int zmod_int)
    finally show ?thesis using False by (simp add: dec_digits.simps[of n] mult.assoc)
  qed
qed

lemma dec_digits_chars: "c \<in> set (dec_digits n) \<Longrightarrow> \<exists>d < 10. c = char_of (48 + d :: nat)"
proof (induction n rule: dec_digits.induct)
  case (1 n)
  show ?case
  proof (cases "n < 10")
    case True
    with "1.prems" show ?thesis by (auto simp: dec_digits.simps[of n])
  next
    case False
    with "1.prems" 1 show ?thesis
      by (subst (asm) dec_digits.simps) (auto intro: exI[of _ "n mod 10"])
  qed
qed

lemma dec_digits_not_Nil [simp]: "dec_digits n \<noteq> []"
  by (subst dec_digits.simps) simp

lemma length_dec_digits: "n < 10 ^ Suc k \<Longrightarrow> length (dec_digits n) \<le> Suc k"
proof (induction k arbitrary: n)
  case 0
  then show ?case by (simp add: dec_digits.simps[of n])
next
  case (Suc k)
  then have "n div 10 < 10 ^ Suc k" by (simp add: less_mult_imp_div_less)
  from Suc.IH[OF this] show ?case by (simp add: dec_digits.simps[of n])
qed

lemma atoi_itoa: "atoi (itoa v) = v"
proof -
  have minus: "CHR ''-'' \<notin> {CHR '' '', CHR 0x09, CHR 0x0A, CHR 0x0B, CHR 0x0C, CHR 0x0D}" by simp
  have digit: "c \<notin> {CHR '' '', CHR 0x09, CHR 0x0A, CHR 0x0B, CHR 0x0C, CHR 0x0D} \<and> c \<noteq> CHR ''-'' \<and> c \<noteq> CHR ''+''"
    if "c \<in> set (dec_digits n)" for c n
  proof -
    from dec_digits_chars[OF that] obtain d :: nat where d: "d < 10" "c = char_of (48 + d)" by blast
    then have "(of_char c :: nat) \<in> {48..57}" by simp
    then show ?thesis by auto
  qed
  have h: "at0 (dec_digits n) \<in> set (dec_digits n)" for n by (rule at0_mem) simp
  have drop: "dropWhile (\<lambda>c. c \<in> {CHR '' '', CHR 0x09, CHR 0x0A, CHR 0x0B, CHR 0x0C, CHR 0x0D}) (dec_digits n) = dec_digits n" for n
    using digit[OF h[of n]] by (cases "dec_digits n") auto
  have "atoi_digits 0 (dec_digits n) = int n" for n
    using atoi_digits_dec[of 0 n "[]"] by simp
  with digit[OF h] drop minus show ?thesis
    by (simp add: atoi_def itoa_def Let_def del: insert_iff)
qed

lemma itoa_ok:
  assumes "- (2 ^ 31) \<le> v" "v < 2 ^ 31"
  shows "length (itoa v) \<le> 11 \<and> val_ok (itoa v) \<and> enc_val (itoa v) = itoa v"
proof -
  have ch: "c \<noteq> NUL \<and> c \<noteq> SEPAR \<and> c \<noteq> DELIM \<and> c \<noteq> QUOTE" if "c \<in> set (itoa v)" for c
  proof -
    from that consider "c = CHR ''-''" | d where "d < 10" "c = char_of (48 + d :: nat)"
      by (auto simp: itoa_def dest!: dec_digits_chars split: if_splits)
    then show ?thesis
    proof cases
      case 2
      then have "(of_char c :: nat) \<in> {48..57}" by simp
      then show ?thesis by auto
    qed simp
  qed
  have "nat v < 10 ^ Suc 9" "nat (- v) < 10 ^ Suc 9" using assms by simp_all
  then have "length (itoa v) \<le> 11"
    using length_dec_digits[of "nat v" 9] length_dec_digits[of "nat (- v)" 9] by (simp add: itoa_def)
  moreover have "itoa v \<noteq> []" by (simp add: itoa_def)
  moreover have "\<not> needs_quotes (itoa v)"
    using ch at0_mem[of "itoa v"] \<open>itoa v \<noteq> []\<close> unfolding needs_quotes_def by blast
  moreover have "is_cstr (itoa v)" using ch unfolding is_cstr_def by blast
  ultimately show ?thesis by (simp add: val_ok_def enc_val_def)
qed

text \<open>
  An \<open>int\<close> added by \<open>MPIU_Str_add_int_arg\<close> is read back unchanged by
  \<open>MPIU_Str_get_int_arg\<close>: its text fits the 12 bytes both routines use for it.
\<close>

theorem add_get_int_arg_roundtrip:
  assumes "key_ok key" "- (2 ^ 31) \<le> v" "v < 2 ^ 31" "int (length (enc_pair key (itoa v))) < maxlen"
    and "MPIU_Str_add_int_arg m str maxlen key v = (m', str', maxlen', r)"
  shows "r = STR_SUCCESS \<and> (\<exists>m''. MPIU_Str_get_int_arg m' (Some (read_cstr m' str (nat maxlen))) key buf
    = Some (m'', Some v, STR_SUCCESS))"
proof -
  let ?v = "itoa v" let ?e = "enc_pair key ?v"
  have v: "length ?v \<le> 11" "val_ok ?v" using itoa_ok[OF assms(2,3)] by auto
  have key: "is_cstr key" "key \<noteq> [DELIM]" and cs: "is_cstr ?v"
    using assms(1) v(2) by (auto simp: key_ok_def val_ok_def)
  have m': "m' = (wr m str ?e)(str + int (length ?e) := NUL)" and r: "r = STR_SUCCESS"
    using add_string_arg_fits[OF assms(4) cs, of m str] assms(5) v(1)
    by (auto simp: MPIU_Str_add_int_arg_def)
  have "cstring m' str ?e" unfolding m' by (rule cstring_wr_nul)
  then have "read_cstr m' str (nat maxlen) = ?e"
    by (rule read_cstr_cstring) (use is_cstr_enc_args[of "[(key, ?v)]"] key cs assms(4) in auto)
  moreover have "MPIU_Str_get_string_arg m' (Some ?e) key buf 12
      = Some ((wr m' buf ?v)(buf + int (length ?v) := NUL), STR_SUCCESS)"
    using get_string_arg_lookup[of "[(key, ?v)]" key 12 m' buf] assms(1) key v by auto
  moreover have "read_cstr ((wr m' buf ?v)(buf + int (length ?v) := NUL)) buf 12 = ?v"
    by (rule read_cstr_cstring[OF cstring_wr_nul cs]) (use v(1) in simp)
  ultimately show ?thesis using r by (simp add: MPIU_Str_get_int_arg_def atoi_itoa)
qed

theorem add_get_int_arg_roundtrip_witness:
  "\<exists>m' str' maxlen' m''. MPIU_Str_add_int_arg (\<lambda>_. NUL) 100 20 ''port'' (- 2147483648) = (m', str', maxlen', STR_SUCCESS)
    \<and> MPIU_Str_get_int_arg m' (Some (read_cstr m' 100 20)) ''port'' 200 = Some (m'', Some (- 2147483648), STR_SUCCESS)"
proof -
  obtain m' s' n' r where e: "MPIU_Str_add_int_arg (\<lambda>_. NUL) 100 20 ''port'' (- 2147483648) = (m', s', n', r)"
    by (metis prod_cases4)
  have "int (length (enc_pair ''port'' (itoa (- 2147483648)))) < 20"
    using itoa_ok[of "- 2147483648"] by (simp add: enc_pair_def enc_key_def needs_quotes_def)
  from add_get_int_arg_roundtrip[OF _ _ _ this e, of 200] e
  show ?thesis by (simp add: key_ok_def needs_quotes_def)
qed

section \<open>Binary values\<close>

definition hexenc :: "string \<Rightarrow> string" where
  "hexenc bs = concat (map hex2 bs)"

lemma hexenc_simps [simp]: "hexenc [] = []" "hexenc (c # bs) = hex2 c @ hexenc bs"
  by (simp_all add: hexenc_def)

lemma length_hex2 [simp]: "length (hex2 c) = 2"
  by (simp add: hex2_def Let_def)

lemma length_hexenc [simp]: "length (hexenc bs) = 2 * length bs"
  by (induction bs) auto

lemma hex_char_val: "n < 16 \<Longrightarrow> (of_char (hex_char n) :: nat) = (if n < 10 then 48 + n else 55 + n)"
  by (simp add: hex_char_def)

lemma hex_digit_hex_char: "n < 16 \<Longrightarrow> hex_digit (hex_char n) = Some n"
  by (auto simp: hex_digit_def hex_char_val Let_def)

lemma hex_char_plain:
  "n < 16 \<Longrightarrow> hex_char n \<noteq> NUL \<and> hex_char n \<noteq> SEPAR \<and> hex_char n \<noteq> QUOTE \<and> hex_char n \<noteq> DELIM"
  using hex_char_val[of n] by (auto split: if_splits)

lemma of_char_less: "(of_char c :: nat) < 256"
  by (cases c) (simp add: of_char_def horner_sum_simps)

lemma scan_hex2: "hex2 c = [h, l] \<Longrightarrow> scan_hex h l = Some c"
  using of_char_less[of c] by (auto simp: hex2_def scan_hex_def Let_def hex_digit_hex_char less_mult_imp_div_less)

lemma hex2_cases:
  obtains h l where "hex2 c = [h, l]" "h \<noteq> NUL" "h \<noteq> SEPAR" "h \<noteq> QUOTE" "scan_hex h l = Some c"
proof -
  obtain h l where hl: "hex2 c = [h, l]" by (simp add: hex2_def Let_def)
  moreover have "h = hex_char (of_char c div 16)" using hl by (simp add: hex2_def Let_def)
  moreover have "of_char c div 16 < (16::nat)" using of_char_less[of c] by (simp add: less_mult_imp_div_less)
  ultimately show ?thesis using that hex_char_plain scan_hex2 by metis
qed

lemma hexenc_chars: "c \<in> set (hexenc bs) \<Longrightarrow> c \<noteq> NUL \<and> c \<noteq> SEPAR \<and> c \<noteq> QUOTE \<and> c \<noteq> DELIM"
proof (induction bs)
  case (Cons b bs)
  have "of_char b div 16 < (16::nat)" "of_char b mod 16 < (16::nat)" using of_char_less[of b] by (simp_all add: less_mult_imp_div_less)
  with Cons hex_char_plain show ?case by (auto simp: hex2_def Let_def)
qed simp

lemma hexenc_val:
  assumes "bs \<noteq> []"
  shows "val_ok (hexenc bs) \<and> enc_val (hexenc bs) = hexenc bs"
proof -
  have "hexenc bs \<noteq> []" using assms by (metis length_0_conv length_hexenc mult_is_0 zero_neq_numeral)
  moreover have "\<not> needs_quotes (hexenc bs)" "is_cstr (hexenc bs)"
    using hexenc_chars at0_mem[OF \<open>hexenc bs \<noteq> []\<close>] unfolding needs_quotes_def is_cstr_def by blast+
  ultimately show ?thesis by (simp add: val_ok_def enc_val_def)
qed

lemma encode_loop_fits:
  "2 * int (length bs) < n \<Longrightarrow> encode_loop m d n bs k =
     (if bs = [] then m else (wr m d (hexenc bs))(d + 2 * int (length bs) := NUL),
      k + int (length bs), STR_SUCCESS)"
proof (induction bs arbitrary: m d n k)
  case Nil
  then show ?case by simp
next
  case (Cons c bs)
  have snp: "c_snprintf m d n (hex2 c) = ((wr m d (hex2 c))(d + 2 := NUL), 2)"
    using c_snprintf_fits[of "hex2 c" n m d] Cons.prems by simp
  show ?case
  proof (cases "bs = []")
    case True
    with snp Cons.prems show ?thesis by (simp del: fun_upd_apply)
  next
    case False
    then have "0 < length (hexenc bs)" by simp
    from wr_over[OF this] show ?thesis
      using snp Cons.prems False
      by (simp add: Cons.IH wr_append algebra_simps del: fun_upd_apply)
  qed
qed

lemma decode_loop_hexenc:
  "decode_loop m (hexenc bs @ SEPAR # r) d (length bs + j) k = Some (wr m d bs, SEPAR # r, j, k + int (length bs))"
proof (induction bs arbitrary: m d k)
  case Nil
  then show ?case by (cases r) simp_all
next
  case (Cons c bs)
  from hex2_cases[of c] obtain h l where
    "hex2 c = [h, l]" "h \<noteq> NUL" "h \<noteq> SEPAR" "h \<noteq> QUOTE" "scan_hex h l = Some c" .
  then have "decode_loop m (hexenc (c # bs) @ SEPAR # r) d (length (c # bs) + j) k
      = decode_loop (m(d := c)) (hexenc bs @ SEPAR # r) (d + 1) (length bs + j) (k + 1)"
    by (simp del: fun_upd_apply)
  then show ?case by (simp add: Cons.IH del: fun_upd_apply)
qed

lemma add_binary_arg_fits:
  assumes fits: "int (length (enc_pair k (hexenc bs))) < n" and bs: "bs \<noteq> []"
  shows "MPIU_Str_add_binary_arg m d n k bs =
    ((wr m d (enc_pair k (hexenc bs)))(d + int (length (enc_pair k (hexenc bs))) := NUL),
     d + int (length (enc_pair k (hexenc bs))), n - int (length (enc_pair k (hexenc bs))), STR_SUCCESS)"
proof -
  let ?K = "int (length (enc_key k))" and ?V = "2 * int (length bs)"
  let ?m2 = "wr m d (enc_key k @ [DELIM])"
  have ev: "enc_val (hexenc bs) = hexenc bs" using hexenc_val[OF bs] by simp
  have len: "int (length (enc_pair k (hexenc bs))) = ?K + ?V + 2" by (simp add: enc_pair_def ev)
  have key: "add_flag m d n k = ((wr m d (enc_key k))(d + ?K := NUL), ?K)"
    by (rule add_flag_fits) (use fits len in linarith)
  have m2: "(wr m d (enc_key k))(d + ?K := NUL, d + ?K := DELIM) = ?m2"
    by (simp only: fun_upd_upd wr_snoc)
  have val: "encode_buffer ?m2 (d + ?K + 1) (n - ?K - 1) bs
      = ((wr ?m2 (d + ?K + 1) (hexenc bs))(d + ?K + 1 + ?V := NUL), Some (int (length bs)), STR_SUCCESS)"
    using fits len bs by (simp add: encode_buffer_def encode_loop_fits del: fun_upd_apply)
  have "(wr ?m2 (d + ?K + 1) (hexenc bs))(d + ?K + 1 + ?V := NUL, d + ?K + 1 + ?V := SEPAR)
      = wr m d (enc_pair k (hexenc bs))"
    by (simp add: enc_pair_def ev wr_append algebra_simps del: fun_upd_apply)
  with key m2 val fits len show ?thesis
    by (simp add: MPIU_Str_add_binary_arg_def Let_def algebra_simps del: fun_upd_apply fun_upd_upd)
qed

text \<open>
  C39: A non-empty byte sequence added under a key that is \<open>key_ok\<close> by \<open>MPIU_Str_add_binary_arg\<close> where its hexadecimal
  text fits is read back byte for byte, zero bytes included, by \<open>MPIU_Str_get_binary_arg\<close>
  into a buffer that is large enough, with its length.
\<close>

theorem add_get_binary_arg_roundtrip:
  assumes "key_ok key" "bs \<noteq> []" "int (length (enc_key key)) + 2 * int (length bs) + 2 < maxlen"
    and "int (length bs) \<le> n"
    and "MPIU_Str_add_binary_arg m str maxlen key bs = (m', str', maxlen', r)"
  shows "r = STR_SUCCESS \<and> MPIU_Str_get_binary_arg m' (Some (read_cstr m' str (nat maxlen))) key buf n
    = Some (wr m' buf bs, int (length bs), STR_SUCCESS)"
proof -
  let ?v = "hexenc bs" let ?e = "enc_pair key ?v"
  have ev: "enc_val ?v = ?v" "val_ok ?v" using hexenc_val[OF assms(2)] by auto
  have key: "is_cstr key" "key \<noteq> [DELIM]" and cs: "is_cstr ?v"
    using assms(1) ev(2) by (auto simp: key_ok_def val_ok_def)
  have fits: "int (length ?e) < maxlen" using assms(3) by (simp add: enc_pair_def ev)
  have m': "m' = (wr m str ?e)(str + int (length ?e) := NUL)" and r: "r = STR_SUCCESS"
    using add_binary_arg_fits[OF fits assms(2), of m str] assms(5) by auto
  have "cstring m' str ?e" unfolding m' by (rule cstring_wr_nul)
  then have rd: "read_cstr m' str (nat maxlen) = ?e"
    by (rule read_cstr_cstring) (use is_cstr_enc_args[of "[(key, ?v)]"] key cs fits in auto)
  have ft: "first_token (Some ?e) = Some ?e"
    using first_token_enc_args[of "[(key, ?v)]"] assms(1) by simp
  obtain rest where fa: "find_arg ?e key = Some (Some (?v @ SEPAR # rest))"
    using find_arg_enc_args[of "[(key, ?v)]" key] assms(1) key ev by auto
  have "at0 (?v @ SEPAR # rest) \<noteq> QUOTE"
    using hexenc_chars[of QUOTE bs] at0_mem[of ?v] by (auto dest: sym)
  moreover have "1 \<le> n" using assms(2,4) by (cases bs) auto
  moreover have "decode_loop m' (?v @ SEPAR # rest) buf (nat n) 0
      = Some (wr m' buf bs, SEPAR # rest, nat n - length bs, int (length bs))"
    using decode_loop_hexenc[of m' bs rest buf "nat n - length bs" 0] assms(4) by simp
  ultimately show ?thesis using r rd ft fa
    by (simp add: MPIU_Str_get_binary_arg_def decode_buffer_def)
qed

theorem add_get_binary_arg_roundtrip_witness:
  "\<exists>m' str' maxlen'. MPIU_Str_add_binary_arg (\<lambda>_. NUL) 100 20 ''k'' [NUL, CHR 0xFF, QUOTE] = (m', str', maxlen', STR_SUCCESS)
    \<and> MPIU_Str_get_binary_arg m' (Some (read_cstr m' 100 20)) ''k'' 200 3
      = Some (wr m' 200 [NUL, CHR 0xFF, QUOTE], 3, STR_SUCCESS)"
proof -
  obtain m' s' n' r where e: "MPIU_Str_add_binary_arg (\<lambda>_. NUL) 100 20 ''k'' [NUL, CHR 0xFF, QUOTE] = (m', s', n', r)"
    by (metis prod_cases4)
  from add_get_binary_arg_roundtrip[OF _ _ _ _ e, of 3 200] e
  show ?thesis by (simp add: key_ok_def needs_quotes_def enc_key_def)
qed

text \<open>The length that passes below zero.\<close>

lemma encode_loop_unbounded:
  "n < 0 \<Longrightarrow> encode_loop m d n bs k =
     (if bs = [] then m else (wr m d (hexenc bs))(d + 2 * int (length bs) := NUL),
      k + int (length bs), STR_SUCCESS)"
proof (induction bs arbitrary: m d n k)
  case Nil
  then show ?case by simp
next
  case (Cons c bs)
  have snp: "c_snprintf m d n (hex2 c) = ((wr m d (hex2 c))(d + 2 := NUL), 2)"
    using Cons.prems by (simp add: c_snprintf_def)
  show ?case
  proof (cases "bs = []")
    case True
    with snp Cons.prems show ?thesis by (simp del: fun_upd_apply)
  next
    case False
    then have "0 < length (hexenc bs)" by simp
    from wr_over[OF this] show ?thesis
      using snp Cons.prems False
      by (simp add: Cons.IH wr_append algebra_simps del: fun_upd_apply)
  qed
qed

lemma encode_loop_odd:
  "k + 2 \<le> length bs \<Longrightarrow> \<exists>m'. encode_loop m d (2 * int k + 1) bs j = (m', j + int (length bs), STR_SUCCESS)
     \<and> holds m' (d + 2 * int k + 2) (hexenc (drop (k + 1) bs))"
proof (induction k arbitrary: m d bs j)
  case 0
  then obtain b bs' where bs: "bs = b # bs'" "bs' \<noteq> []" by (cases bs; cases "tl bs") auto
  have "c_snprintf m d 1 (hex2 b) = (m(d := NUL), 2)" by (simp add: c_snprintf_def)
  with bs have "encode_loop m d 1 bs j =
      ((wr (m(d := NUL)) (d + 2) (hexenc bs'))(d + 2 + 2 * int (length bs') := NUL), j + 1 + int (length bs'), STR_SUCCESS)"
    by (simp add: encode_loop_unbounded del: fun_upd_apply)
  with bs show ?case by (simp add: holds_frame holds_wr del: fun_upd_apply)
next
  case (Suc k)
  then obtain b bs' where bs: "bs = b # bs'" "k + 2 \<le> length bs'" by (cases bs) auto
  have "c_snprintf m d (2 * int (Suc k) + 1) (hex2 b) = ((wr m d (hex2 b))(d + 2 := NUL), 2)"
    using c_snprintf_fits[of "hex2 b" "2 * int (Suc k) + 1" m d] by simp
  with bs have step: "encode_loop m d (2 * int (Suc k) + 1) bs j =
      encode_loop ((wr m d (hex2 b))(d + 2 := NUL)) (d + 2) (2 * int k + 1) bs' (j + 1)"
    by (simp add: add.commute del: fun_upd_apply)
  from Suc.IH[OF bs(2), of "(wr m d (hex2 b))(d + 2 := NUL)" "d + 2" "j + 1"]
  show ?case unfolding step using bs(1) by (auto simp: algebra_simps simp del: fun_upd_apply)
qed

text \<open>
  An odd destination length is no bound for \<open>encode_buffer\<close>: its counter drops by two
  and misses zero, so every source byte after the first \<open>k + 1\<close> is encoded behind the
  \<open>2 k + 1\<close> bytes of the destination, and the routine reports success.
\<close>

theorem encode_buffer_odd_length_overruns:
  assumes "k + 2 \<le> length src"
  shows "\<exists>m'. encode_buffer m dest (2 * int k + 1) src = (m', Some (int (length src)), STR_SUCCESS)
    \<and> holds m' (dest + 2 * int k + 2) (hexenc (drop (k + 1) src))"
proof -
  from encode_loop_odd[OF assms, of m dest 0] obtain m' where
    "encode_loop m dest (2 * int k + 1) src 0 = (m', int (length src), STR_SUCCESS)"
    "holds m' (dest + 2 * int k + 2) (hexenc (drop (k + 1) src))" by auto
  moreover have "src \<noteq> []" using assms by auto
  ultimately show ?thesis by (simp add: encode_buffer_def)
qed

theorem encode_buffer_odd_length_overruns_witness:
  "\<exists>m'. encode_buffer (\<lambda>_. NUL) 100 3 ''abcd'' = (m', Some 4, STR_SUCCESS) \<and> holds m' 104 (hexenc ''cd'')"
  using encode_buffer_odd_length_overruns [of 1 "''abcd''" "\<lambda>_. NUL" 100] by simp

text \<open>
  An empty byte sequence is not read back: the quotes \<open>encode_buffer\<close> stands for it
  with are not counted and the separator overwrites them, so that the key is followed by no
  value at all and \<open>MPIU_Str_get_binary_arg\<close> fails.
\<close>

theorem add_get_binary_arg_empty_lost:
  assumes "key_ok key" "int (length (enc_key key)) + 3 < maxlen" "1 \<le> n"
    and "MPIU_Str_add_binary_arg m str maxlen key [] = (m', str', maxlen', r)"
  shows "r = STR_SUCCESS \<and> read_cstr m' str (nat maxlen) = enc_key key @ [DELIM, SEPAR]
    \<and> MPIU_Str_get_binary_arg m' (Some (read_cstr m' str (nat maxlen))) key buf n = Some (m', 0, STR_FAIL)"
proof -
  let ?k = "enc_key key" let ?K = "int (length (enc_key key))"
  have key: "is_cstr key" using assms(1) by (simp add: key_ok_def)
  have k: "add_flag m str maxlen key = ((wr m str ?k)(str + ?K := NUL), ?K)"
    by (rule add_flag_fits) (use assms(2) in linarith)
  let ?m = "wr m str (?k @ [DELIM])"
  from k assms(2,4) have m': "m' = ?m(str + ?K + 1 := QUOTE, str + ?K + 1 + 1 := QUOTE, str + ?K + 1 + 2 := NUL,
      str + ?K + 1 := SEPAR, str + ?K + 1 + 1 := NUL)" and r: "r = STR_SUCCESS"
    by (auto simp: MPIU_Str_add_binary_arg_def encode_buffer_def Let_def wr_snoc simp del: fun_upd_apply)
  have "holds m' str (?k @ [DELIM]) = holds ?m str (?k @ [DELIM])"
    unfolding m' by (rule holds_cong) auto
  then have "cstring m' str (?k @ [DELIM, SEPAR])"
    using holds_wr[of m str "?k @ [DELIM]"] unfolding m' by (simp add: cstring_def holds_append)
  moreover have "is_cstr ?k" using key by (simp add: enc_key_def quoted_def is_cstr_escape)
  ultimately have rd: "read_cstr m' str (nat maxlen) = ?k @ [DELIM, SEPAR]"
    by (intro read_cstr_cstring) (use assms(2) in auto)
  have ft: "first_token (Some (?k @ [DELIM, SEPAR])) = Some (?k @ [DELIM, SEPAR])"
    using assms(1) at0_mem[of key]
    by (intro first_token_id) (auto simp: enc_key_def key_ok_def needs_quotes_def quoted_def is_cstr_def)
  have "compare_token (Some (?k @ DELIM # [SEPAR])) (Some key) = 0"
    using compare_key_iff[OF assms(1) key] by simp
  moreover have "compare_token (Some (DELIM # [SEPAR])) (Some [DELIM]) = 0"
    by (simp add: compare_delim_iff)
  moreover have "next_token (Some (DELIM # [SEPAR])) = None"
    by (simp add: next_token_delim) (simp add: first_token_def)
  ultimately have "find_arg (?k @ [DELIM, SEPAR]) key = Some None"
    using next_token_key[OF assms(1), of "[SEPAR]"] by (subst find_arg.simps) simp
  with rd ft r assms(3) show ?thesis by (simp add: MPIU_Str_get_binary_arg_def)
qed

theorem add_get_binary_arg_empty_lost_witness:
  "\<exists>m' str' maxlen'. MPIU_Str_add_binary_arg (\<lambda>_. NUL) 100 10 ''k'' [] = (m', str', maxlen', STR_SUCCESS)
    \<and> read_cstr m' 100 10 = ''k#$''"
proof -
  obtain m' s' n' r where e: "MPIU_Str_add_binary_arg (\<lambda>_. NUL) 100 10 ''k'' [] = (m', s', n', r)"
    by (metis prod_cases4)
  from add_get_binary_arg_empty_lost[OF _ _ _ e, of 1] e
  show ?thesis by (simp add: key_ok_def needs_quotes_def enc_key_def)
qed

section \<open>Adding a bare string\<close>

text \<open>The text \<open>MPIU_Str_add_string\<close> lays out; an empty string gets no separator.\<close>

definition enc_str :: "string \<Rightarrow> string" where
  "enc_str v = (if SEPAR \<in> set v \<or> QUOTE \<in> set v \<or> DELIM \<in> set v then quoted v @ [SEPAR]
     else if v = [] then [QUOTE, QUOTE] else v @ [SEPAR])"

lemma add_string_fits:
  assumes "int (length (enc_str v)) < n" "is_cstr v"
  shows "MPIU_Str_add_string m d n v =
    ((wr m d (enc_str v))(d + int (length (enc_str v)) := NUL),
     d + int (length (enc_str v)), n - int (length (enc_str v)), 0)"
proof (cases "SEPAR \<in> set v \<or> QUOTE \<in> set v \<or> DELIM \<in> set v")
  case True
  then have e: "enc_str v = quoted v @ [SEPAR]" by (simp add: enc_str_def)
  with assms(1) have "quoted_printf m d n v
      = ((wr m d (quoted v))(d + int (length (quoted v)) := NUL), int (length (quoted v)))"
    by (simp add: quoted_printf_eq Let_def)
  with True e assms(1) show ?thesis
    by (simp add: MPIU_Str_add_string_def wr_snoc algebra_simps del: fun_upd_apply)
next
  case False
  with assms show ?thesis
    by (auto simp: MPIU_Str_add_string_def enc_str_def at0_nul_iff c_snprintf_fits simp del: fun_upd_apply)
qed

lemma enc_str_head: "is_cstr v \<Longrightarrow> first_token (Some (enc_str v @ r)) = Some (enc_str v @ r) \<and> at0 (enc_str v @ r) \<noteq> DELIM"
  using at0_mem[of v] by (auto simp: enc_str_def quoted_def is_cstr_def intro!: first_token_id)

lemma token_copy_enc_str:
  assumes v: "is_cstr v" "DELIM \<in> set v \<or> SEPAR \<in> set v \<or> QUOTE \<in> set v \<Longrightarrow> esc_safe v"
    and n: "int (length v) < n"
  shows "token_copy m (Some (enc_str v @ r)) d n = Some ((wr m d v)(d + int (length v) := NUL), STR_SUCCESS)"
proof (cases "n = 1")
  case True
  with n have "v = []" by simp
  with True show ?thesis by (simp add: token_copy_def)
next
  case False
  have n2: "n > 1" "length v < nat n" "take (nat n - 1) v = v" "0 < nat n" using n False by auto
  note hd = enc_str_head[OF v(1), of r]
  consider (q) "DELIM \<in> set v \<or> SEPAR \<in> set v \<or> QUOTE \<in> set v" | (e) "v = []"
    | (l) "DELIM \<notin> set v" "SEPAR \<notin> set v" "QUOTE \<notin> set v" "v \<noteq> []" by blast
  then show ?thesis
  proof cases
    case q
    have e: "enc_str v @ r = QUOTE # escape v @ QUOTE # SEPAR # r"
      using q by (auto simp: enc_str_def quoted_def)
    from copy_quoted_eq[OF v(2)[OF q] v(1) n2(4), of m "SEPAR # r" d] n2 hd show ?thesis
      unfolding e by (simp add: token_copy_def del: fun_upd_apply)
  next
    case e
    with n2 hd show ?thesis by (simp add: token_copy_def enc_str_def)
  next
    case l
    then have "at0 v \<noteq> QUOTE" using at0_mem[of v] by auto
    with copy_literal_eq[OF l(2,1) v(1), of "SEPAR # r" m d "nat n"] l n2 hd show ?thesis
      by (simp add: token_copy_def enc_str_def)
  qed
qed

lemma next_token_enc_str:
  assumes v: "is_cstr v" "DELIM \<in> set v \<or> SEPAR \<in> set v \<or> QUOTE \<in> set v \<Longrightarrow> esc_safe v"
  shows "next_token (Some (enc_str v @ r)) = first_token (Some r)"
proof -
  consider (q) "SEPAR \<in> set v \<or> QUOTE \<in> set v \<or> DELIM \<in> set v" | (e) "v = []"
    | (l) "DELIM \<notin> set v" "SEPAR \<notin> set v" "QUOTE \<notin> set v" "v \<noteq> []" by blast
  then show ?thesis
  proof cases
    case q
    then have "enc_str v = quoted v @ [SEPAR]" by (simp add: enc_str_def)
    with next_token_quoted[of v "SEPAR # r"] v q show ?thesis by auto
  next
    case e
    have "enc_str v = quoted []" using e by (simp add: enc_str_def quoted_def)
    with next_token_quoted[of "[]" r] show ?thesis by simp
  next
    case l
    then have "\<not> needs_quotes v" using at0_mem[of v] by (auto simp: needs_quotes_def)
    with next_token_literal[of v "SEPAR # r"] v l show ?thesis by (simp add: enc_str_def)
  qed
qed

text \<open>
  \<open>MPIU_Str_add_string\<close> of a string that fits succeeds and leaves its text,
  and \<open>MPIU_Str_get_string\<close> at that text, whatever follows it, copies the string back and
  moves to the next token.
\<close>

theorem add_get_string_roundtrip:
  assumes "is_cstr v" "DELIM \<in> set v \<or> SEPAR \<in> set v \<or> QUOTE \<in> set v \<longrightarrow> esc_safe v"
    and "int (length (enc_str v)) < maxlen" "int (length v) < n"
  shows "MPIU_Str_add_string m str maxlen v =
      ((wr m str (enc_str v))(str + int (length (enc_str v)) := NUL),
       str + int (length (enc_str v)), maxlen - int (length (enc_str v)), 0)
    \<and> MPIU_Str_get_string m (Some (enc_str v @ r)) val n =
      Some ((wr m val v)(val + int (length v) := NUL), first_token (Some r), 0)"
proof
  show "MPIU_Str_add_string m str maxlen v =
      ((wr m str (enc_str v))(str + int (length (enc_str v)) := NUL),
       str + int (length (enc_str v)), maxlen - int (length (enc_str v)), 0)"
    using assms(1,3) by (intro add_string_fits)
  have esc: "DELIM \<in> set v \<or> SEPAR \<in> set v \<or> QUOTE \<in> set v \<Longrightarrow> esc_safe v"
    using assms(2) by blast
  note hd = enc_str_head[OF assms(1), of r]
  note cp = token_copy_enc_str[OF assms(1) esc assms(4), of m r val]
  note nx = next_token_enc_str[OF assms(1) esc, of r]
  show "MPIU_Str_get_string m (Some (enc_str v @ r)) val n =
      Some ((wr m val v)(val + int (length v) := NUL), first_token (Some r), 0)"
    using hd cp nx assms(4) by (simp add: MPIU_Str_get_string_def del: fun_upd_apply)
qed

theorem add_get_string_roundtrip_witness:
  "MPIU_Str_get_string (\<lambda>_. NUL) (Some (enc_str ''a b$'' @ ''next'')) 100 9
    = Some ((wr (\<lambda>_. NUL) 100 ''a b$'')(104 := NUL), Some ''next'', 0)"
  using add_get_string_roundtrip [of "''a b$''" 20 9 "\<lambda>_. NUL" 100 "''next''" 100]
  by (simp add: enc_str_def quoted_def first_token_def)

text \<open>
  A plain string that does not fit is cut off, and the routine still reports success
  and moves the caller's pointer past the end of the buffer, leaving a negative length: it
  only compares the length \<open>snprintf\<close> answers with the size for equality.
\<close>

theorem MPIU_Str_add_string_overlong:
  assumes "is_cstr v" "v \<noteq> []" "SEPAR \<notin> set v" "QUOTE \<notin> set v" "DELIM \<notin> set v"
    and "1 \<le> maxlen" "maxlen \<le> int (length v)"
  shows "\<exists>m'. MPIU_Str_add_string m str maxlen v =
      (m', str + int (length v) + 1, maxlen - (int (length v) + 1), 0)
    \<and> cstring m' str (take (nat (maxlen - 1)) v) \<and> maxlen - (int (length v) + 1) < 0"
proof -
  have "c_snprintf m str maxlen (v @ [SEPAR]) =
    ((wr m str (take (nat (maxlen - 1)) v))(str + int (length (take (nat (maxlen - 1)) v)) := NUL), int (length v) + 1)"
    using assms(6,7) by (simp add: c_snprintf_def Let_def)
  with assms show ?thesis
    by (auto simp: MPIU_Str_add_string_def at0_nul_iff cstring_wr_nul simp del: fun_upd_apply length_take)
qed

theorem MPIU_Str_add_string_overlong_witness:
  "\<exists>m'. MPIU_Str_add_string (\<lambda>_. NUL) 100 4 ''abcdefgh'' = (m', 109, - 5, 0) \<and> cstring m' 100 ''abc''"
  using MPIU_Str_add_string_overlong [of "''abcdefgh''" 4 "\<lambda>_. NUL" 100] by (simp add: numeral_eq_Suc)

end
