(* ===== verification/HandleMem.thy ===== *)
theory HandleMem
  imports Prelude
begin

unbundle bit_operations_syntax

text \<open>
  The handle allocator of src/src/util/mem/handlemem.c and the handle layout of
  src/src/include/mpihandlemem.h. A handle is a 32-bit word; objects live at addresses
  (\<open>nat\<close>, 0 is the null pointer) in a heap that holds the two fields of
  \<open>MPIU_Handle_common\<close> the allocator uses. The theory states what the allocator promises as a
  locale and shows that the code keeps it.
\<close>

section \<open>Handles\<close>

type_synonym handle = "32 word"

abbreviation HANDLE_KIND_INVALID :: handle where "HANDLE_KIND_INVALID \<equiv> 0"
abbreviation HANDLE_KIND_BUILTIN :: handle where "HANDLE_KIND_BUILTIN \<equiv> 1"
abbreviation HANDLE_KIND_DIRECT :: handle where "HANDLE_KIND_DIRECT \<equiv> 2"
abbreviation HANDLE_KIND_INDIRECT :: handle where "HANDLE_KIND_INDIRECT \<equiv> 3"

abbreviation HANDLE_BLOCK_SIZE :: nat where "HANDLE_BLOCK_SIZE \<equiv> 256"
abbreviation HANDLE_BLOCK_INDEX_SIZE :: nat where "HANDLE_BLOCK_INDEX_SIZE \<equiv> 1024"

definition HANDLE_GET_KIND :: "handle \<Rightarrow> handle" where
  "HANDLE_GET_KIND a = drop_bit 30 (a AND 0xc0000000)"

definition HANDLE_GET_MPI_KIND :: "handle \<Rightarrow> handle" where
  "HANDLE_GET_MPI_KIND a = drop_bit 26 (a AND 0x3c000000)"

definition HANDLE_BLOCK :: "handle \<Rightarrow> handle" where
  "HANDLE_BLOCK a = drop_bit 16 (a AND 0x03FF0000)"

definition HANDLE_BLOCK_INDEX :: "handle \<Rightarrow> handle" where
  "HANDLE_BLOCK_INDEX a = a AND 0x0000FFFF"

definition HANDLE_INDEX :: "handle \<Rightarrow> handle" where
  "HANDLE_INDEX a = a AND 0x03FFFFFF"

definition direct_handle :: "handle \<Rightarrow> nat \<Rightarrow> handle" where
  "direct_handle kind i =
     push_bit 30 HANDLE_KIND_DIRECT OR push_bit 26 kind OR of_nat i"

definition indirect_handle :: "handle \<Rightarrow> nat \<Rightarrow> nat \<Rightarrow> handle" where
  "indirect_handle kind b i =
     push_bit 30 HANDLE_KIND_INDIRECT OR push_bit 26 kind OR push_bit 16 (of_nat b) OR of_nat i"

lemma handle_masks:
  "(0xc0000000 :: handle) = push_bit 30 (mask 2)" "(0x3c000000 :: handle) = push_bit 26 (mask 4)"
  "(0x03FF0000 :: handle) = push_bit 16 (mask 10)" "(0x0000FFFF :: handle) = mask 16"
  "(0x03FFFFFF :: handle) = mask 26"
  by (simp_all add: mask_eq_exp_minus_1)

lemma bit_small: "x < 2 ^ k \<Longrightarrow> bit (x :: nat) n \<Longrightarrow> n < k"
  by (metis bit_take_bit_iff take_bit_nat_eq_self)

lemma bit_small_word: "unat (x :: handle) < 2 ^ k \<Longrightarrow> bit x n \<Longrightarrow> n < k"
  using bit_small[of "unat x" k n] by (simp add: bit_unsigned_iff)

lemma handle_kinds: "(3 :: handle) = mask 2" "(2 :: handle) = push_bit 1 1"
  by (simp_all add: mask_eq_exp_minus_1)

lemma bit_32: "n < 4 \<Longrightarrow> \<not> bit (32 :: handle) n" "n < 4 \<Longrightarrow> \<not> bit (32 :: int) n"
  "n < 4 \<Longrightarrow> \<not> bit (32 :: nat) n"
  by (cases "n = 0"; cases "n = 1"; cases "n = 2"; cases "n = 3"; simp)+

lemma bit_2_31: "n < 26 \<Longrightarrow> \<not> bit (2147483648 :: handle) n"
  "n < 26 \<Longrightarrow> \<not> bit (2147483648 :: int) n" "n < 26 \<Longrightarrow> \<not> bit (2147483648 :: nat) n"
  using bit_exp_iff[of 31 n, where 'a = handle] bit_exp_iff[of 31 n, where 'a = int]
    bit_exp_iff[of 31 n, where 'a = nat] by auto

lemma direct_handle_fields:
  assumes "unat kind < 2 ^ 4" "i < 2 ^ 26"
  shows "HANDLE_GET_KIND (direct_handle kind i) = HANDLE_KIND_DIRECT
    \<and> HANDLE_GET_MPI_KIND (direct_handle kind i) = kind
    \<and> HANDLE_INDEX (direct_handle kind i) = of_nat i"
proof (intro conjI)
  note k = bit_small_word[OF assms(1)] and i = bit_small[OF assms(2)]
  show "HANDLE_GET_KIND (direct_handle kind i) = HANDLE_KIND_DIRECT"
    unfolding HANDLE_GET_KIND_def direct_handle_def handle_masks handle_kinds
    by (rule bit_word_eqI) (auto simp: bit_simps dest!: k dest: i)
  show "HANDLE_GET_MPI_KIND (direct_handle kind i) = kind"
    unfolding HANDLE_GET_MPI_KIND_def direct_handle_def handle_masks handle_kinds
    by (rule bit_word_eqI) (auto simp: bit_simps bit_32 dest: i k)
  show "HANDLE_INDEX (direct_handle kind i) = of_nat i"
    unfolding HANDLE_INDEX_def direct_handle_def handle_masks
    by (rule bit_word_eqI) (auto simp: bit_simps bit_2_31 dest: i)
qed

lemma indirect_handle_fields:
  assumes "unat kind < 2 ^ 4" "b < 2 ^ 10" "i < 2 ^ 16"
  shows "HANDLE_GET_KIND (indirect_handle kind b i) = HANDLE_KIND_INDIRECT
    \<and> HANDLE_GET_MPI_KIND (indirect_handle kind b i) = kind
    \<and> HANDLE_BLOCK (indirect_handle kind b i) = of_nat b
    \<and> HANDLE_BLOCK_INDEX (indirect_handle kind b i) = of_nat i"
proof (intro conjI)
  note k = bit_small_word[OF assms(1)] and b = bit_small[OF assms(2)] and i = bit_small[OF assms(3)]
  show "HANDLE_GET_KIND (indirect_handle kind b i) = HANDLE_KIND_INDIRECT"
    unfolding HANDLE_GET_KIND_def indirect_handle_def handle_masks handle_kinds
    by (rule bit_word_eqI) (auto simp: bit_simps dest!: k dest: b i)
  show "HANDLE_GET_MPI_KIND (indirect_handle kind b i) = kind"
    unfolding HANDLE_GET_MPI_KIND_def indirect_handle_def handle_masks handle_kinds
    by (rule bit_word_eqI) (auto simp: bit_simps dest: b i k)
  show "HANDLE_BLOCK (indirect_handle kind b i) = of_nat b"
    unfolding HANDLE_BLOCK_def indirect_handle_def handle_masks handle_kinds
    by (rule bit_word_eqI) (auto simp: bit_simps dest: i b)
  show "HANDLE_BLOCK_INDEX (indirect_handle kind b i) = of_nat i"
    unfolding HANDLE_BLOCK_INDEX_def indirect_handle_def handle_masks handle_kinds
    by (rule bit_word_eqI) (auto simp: bit_simps dest: i)
qed

section \<open>The allocator\<close>

text \<open>
  The fields \<open>handle\<close> and \<open>next\<close> of \<open>MPIU_Handle_common\<close>, per address, and the allocator's
  record. \<open>indirect\<close> is the table of block pointers once it exists. What \<open>MPIU_Calloc\<close>
  answers is an argument: whether the table could be had, and the address of the block
  (0 for none).
\<close>

record handle_heap =
  handle_of :: "nat \<Rightarrow> handle"
  next_of :: "nat \<Rightarrow> nat"

record MPIU_Object_alloc_t =
  om_avail :: nat
  om_initialized :: bool
  om_indirect :: "nat list option"
  om_indirect_size :: nat
  om_kind :: handle
  om_size :: nat
  om_direct :: nat
  om_direct_size :: nat

record calloc_env =
  table_ok :: bool
  new_block :: nat

text \<open>
  The loop that links the \<open>n\<close> objects of a block from \<open>ptr\<close> on and gives each its handle;
  \<open>hptr\<close> is the last object it visited.
\<close>

fun link_block :: "('a handle_heap_scheme) \<Rightarrow> nat \<Rightarrow> nat \<Rightarrow> (nat \<Rightarrow> handle) \<Rightarrow> nat \<Rightarrow> nat \<Rightarrow> nat
    \<Rightarrow> ('a handle_heap_scheme) \<times> nat" where
  "link_block h ptr osize mk i 0 hptr = (h, hptr)"
| "link_block h ptr osize mk i (Suc n) hptr =
     link_block (h\<lparr>next_of := (next_of h)(ptr := ptr + osize), handle_of := (handle_of h)(ptr := mk i)\<rparr>)
       (ptr + osize) osize mk (Suc i) n ptr"

definition MPIU_Handle_direct_init :: "('a handle_heap_scheme) \<Rightarrow> nat \<Rightarrow> nat \<Rightarrow> nat \<Rightarrow> handle
    \<Rightarrow> ('a handle_heap_scheme) \<times> nat" where
  "MPIU_Handle_direct_init h dir dsize osize htype =
     (case link_block h dir osize (direct_handle htype) 0 dsize 0 of (h', hptr) \<Rightarrow>
        (h'\<lparr>next_of := (next_of h')(hptr := 0)\<rparr>, dir))"

definition MPIU_Handle_indirect_init :: "calloc_env \<Rightarrow> ('a handle_heap_scheme) \<Rightarrow> nat list option \<Rightarrow> nat
    \<Rightarrow> nat \<Rightarrow> nat \<Rightarrow> nat \<Rightarrow> handle \<Rightarrow> ('a handle_heap_scheme) \<times> nat list option \<times> nat \<times> nat" where
  "MPIU_Handle_indirect_init e h ind isize imax bsize osize htype =
     (case (case ind of Some t \<Rightarrow> Some (t, isize)
            | None \<Rightarrow> if table_ok e then Some (replicate imax 0, 0) else None) of
        None \<Rightarrow> (h, None, isize, 0)
      | Some (t, isize) \<Rightarrow>
          if int isize \<ge> int imax - 1 then (h, Some t, isize, 0)
          else if new_block e = 0 then (h, Some t, isize, 0)
          else (case link_block h (new_block e) osize (indirect_handle htype isize) 0 bsize 0 of
                  (h', hptr) \<Rightarrow>
                    (h'\<lparr>next_of := (next_of h')(hptr := 0)\<rparr>, Some (t[isize := new_block e]),
                     isize + 1, new_block e)))"

text \<open>The pointer is 0 when no object is available or can be allocated.\<close>

definition MPIU_Handle_obj_alloc :: "calloc_env \<Rightarrow> ('a handle_heap_scheme) \<Rightarrow> MPIU_Object_alloc_t
    \<Rightarrow> ('a handle_heap_scheme) \<times> MPIU_Object_alloc_t \<times> nat" where
  "MPIU_Handle_obj_alloc e h om =
     (if om_avail om \<noteq> 0 then (h, om\<lparr>om_avail := next_of h (om_avail om)\<rparr>, om_avail om)
      else if \<not> om_initialized om then
        (let om1 = om\<lparr>om_initialized := True\<rparr> in
         case MPIU_Handle_direct_init h (om_direct om) (om_direct_size om) (om_size om) (om_kind om) of
           (h', ptr) \<Rightarrow> (h', if ptr \<noteq> 0 then om1\<lparr>om_avail := next_of h' ptr\<rparr> else om1, ptr))
      else
        (case MPIU_Handle_indirect_init e h (om_indirect om) (om_indirect_size om) HANDLE_BLOCK_INDEX_SIZE
                HANDLE_BLOCK_SIZE (om_size om) (om_kind om) of
           (h', ind, isize, ptr) \<Rightarrow>
             let om1 = om\<lparr>om_indirect := ind, om_indirect_size := isize\<rparr> in
             (h', if ptr \<noteq> 0 then om1\<lparr>om_avail := next_of h' ptr\<rparr> else om1, ptr)))"

definition MPIU_Handle_obj_free :: "('a handle_heap_scheme) \<Rightarrow> MPIU_Object_alloc_t \<Rightarrow> nat
    \<Rightarrow> ('a handle_heap_scheme) \<times> MPIU_Object_alloc_t" where
  "MPIU_Handle_obj_free h om obj =
     (h\<lparr>next_of := (next_of h)(obj := om_avail om)\<rparr>, om\<lparr>om_avail := obj\<rparr>)"

definition MPIU_Handle_get_ptr_indirect :: "handle \<Rightarrow> MPIU_Object_alloc_t \<Rightarrow> nat" where
  "MPIU_Handle_get_ptr_indirect handle om =
     (if HANDLE_GET_MPI_KIND handle \<noteq> om_kind om then 0
      else
        (let block_num = unat (HANDLE_BLOCK handle) in
         if block_num \<ge> om_indirect_size om then 0
         else the (om_indirect om) ! block_num + unat (HANDLE_BLOCK_INDEX handle) * om_size om))"

text \<open>\<open>MPID_Get_ptr\<close> of src/src/include/mpiimpl.h.\<close>

definition MPID_Get_ptr :: "MPIU_Object_alloc_t \<Rightarrow> handle \<Rightarrow> nat" where
  "MPID_Get_ptr om a =
     (if HANDLE_GET_KIND a = HANDLE_KIND_DIRECT then om_direct om + unat (HANDLE_INDEX a) * om_size om
      else if HANDLE_GET_KIND a = HANDLE_KIND_INDIRECT then MPIU_Handle_get_ptr_indirect a om
      else 0)"

text \<open>\<open>MPIU_Handle_free\<close>: the blocks it hands to \<open>MPIU_Free\<close>, then the table itself.\<close>

definition MPIU_Handle_free :: "nat list option \<Rightarrow> nat \<Rightarrow> nat list \<times> bool" where
  "MPIU_Handle_free ind isize =
     (map (\<lambda>i. the ind ! i) [0..<isize], ind \<noteq> None)"

section \<open>The objects of a pool\<close>

definition block_objs :: "nat \<Rightarrow> nat \<Rightarrow> nat \<Rightarrow> nat list" where
  "block_objs base osize n = map (\<lambda>i. base + i * osize) [0..<n]"

definition blocks :: "MPIU_Object_alloc_t \<Rightarrow> nat list" where
  "blocks om = (case om_indirect om of None \<Rightarrow> [] | Some t \<Rightarrow> take (om_indirect_size om) t)"

definition pool_objs :: "MPIU_Object_alloc_t \<Rightarrow> nat list" where
  "pool_objs om =
     (if om_initialized om then block_objs (om_direct om) (om_size om) (om_direct_size om) else []) @
     concat (map (\<lambda>b. block_objs b (om_size om) HANDLE_BLOCK_SIZE) (blocks om))"

lemma pool_avail [simp]:
  "blocks (om\<lparr>om_avail := p\<rparr>) = blocks om" "pool_objs (om\<lparr>om_avail := p\<rparr>) = pool_objs om"
  by (simp_all add: blocks_def pool_objs_def cong: option.case_cong)

lemma block_objs_Suc: "block_objs base osize (Suc n) = base # block_objs (base + osize) osize n"
  unfolding block_objs_def
  by (subst upt_conv_Cons) (auto simp: map_Suc_upt[symmetric] simp del: upt_Suc)

lemma block_objs_0 [simp]: "block_objs base osize 0 = []"
  by (simp add: block_objs_def)

lemma length_block_objs [simp]: "length (block_objs base osize n) = n"
  by (simp add: block_objs_def)

lemma block_objs_nth: "i < n \<Longrightarrow> block_objs base osize n ! i = base + i * osize"
  by (simp add: block_objs_def)

lemma in_block_objs: "p \<in> set (block_objs base osize n) \<longleftrightarrow> (\<exists>i < n. p = base + i * osize)"
  by (auto simp: block_objs_def)

lemma distinct_block_objs: "0 < osize \<Longrightarrow> distinct (block_objs base osize n)"
  by (auto simp: block_objs_def distinct_map inj_on_def)

lemma link_block_frame:
  "link_block h p osize mk i n q = (h', r) \<Longrightarrow> x \<notin> set (block_objs p osize n)
    \<Longrightarrow> next_of h' x = next_of h x \<and> handle_of h' x = handle_of h x"
proof (induction n arbitrary: h p i q)
  case 0
  then show ?case by simp
next
  case (Suc n)
  from Suc.prems have "x \<noteq> p" "x \<notin> set (block_objs (p + osize) osize n)"
    by (auto simp: block_objs_Suc)
  with Suc.IH Suc.prems(1) show ?case by fastforce
qed

lemma link_block_last:
  "link_block h p osize mk i (Suc n) q = (h', r) \<Longrightarrow> r = p + n * osize"
proof (induction n arbitrary: h p i q)
  case 0
  then show ?case by simp
next
  case (Suc n)
  let ?h = "h\<lparr>next_of := (next_of h)(p := p + osize), handle_of := (handle_of h)(p := mk i)\<rparr>"
  have "link_block h p osize mk i (Suc (Suc n)) q = link_block ?h (p + osize) osize mk (Suc i) (Suc n) p"
    by (subst link_block.simps(2)) (rule refl)
  with Suc.prems have "link_block ?h (p + osize) osize mk (Suc i) (Suc n) p = (h', r)" by simp
  from Suc.IH[OF this] show ?case by simp
qed

lemma link_block_handles:
  "0 < osize \<Longrightarrow> link_block h p osize mk i n q = (h', r) \<Longrightarrow> j < n
    \<Longrightarrow> handle_of h' (p + j * osize) = mk (i + j) \<and> next_of h' (p + j * osize) = p + Suc j * osize"
proof (induction n arbitrary: h p i q j)
  case 0
  then show ?case by simp
next
  case (Suc n)
  let ?h = "h\<lparr>next_of := (next_of h)(p := p + osize), handle_of := (handle_of h)(p := mk i)\<rparr>"
  have rec: "link_block ?h (p + osize) osize mk (Suc i) n p = (h', r)" using Suc.prems(2) by simp
  show ?case
  proof (cases j)
    case 0
    have "p \<notin> set (block_objs (p + osize) osize n)" using Suc.prems(1) by (auto simp: in_block_objs)
    from link_block_frame[OF rec this] 0 show ?thesis by simp
  next
    case (Suc k)
    with Suc.prems Suc.IH[OF Suc.prems(1) rec, of k] show ?thesis by (simp add: add.assoc)
  qed
qed

lemma link_block_more: "link_block h p osize mk i n q = (h', r) \<Longrightarrow> handle_heap.more h' = handle_heap.more h"
  by (induction n arbitrary: h p i q) fastforce+

lemma hlist_block_objs:
  "(\<And>j. Suc j < n \<Longrightarrow> nx (p + j * osize) = p + Suc j * osize) \<Longrightarrow> nx (p + (n - 1) * osize) = 0
    \<Longrightarrow> 0 < n \<Longrightarrow> p \<noteq> 0 \<Longrightarrow> hlist nx p (block_objs p osize n)"
proof (induction n arbitrary: p)
  case 0
  then show ?case by simp
next
  case (Suc n)
  show ?case
  proof (cases n)
    case 0
    with Suc.prems show ?thesis by (simp add: block_objs_Suc)
  next
    case (Suc k)
    have "hlist nx (p + osize) (block_objs (p + osize) osize n)"
    proof (rule Suc.IH)
      show "nx (p + osize + j * osize) = p + osize + Suc j * osize" if "Suc j < n" for j
        using Suc.prems(1)[of "Suc j"] that by (simp add: add.assoc)
      show "nx (p + osize + (n - 1) * osize) = 0"
        using Suc.prems(2) Suc by (simp add: add.assoc)
    qed (use Suc Suc.prems in auto)
    moreover have "nx p = p + osize" using Suc.prems(1)[of 0] Suc by simp
    ultimately show ?thesis using Suc.prems by (simp add: block_objs_Suc)
  qed
qed

text \<open>A new block: linked from its first object to null, its handles set, nothing else touched.\<close>

lemma new_block_linked:
  assumes "0 < osize" "0 < n" "p \<noteq> 0" "link_block h p osize mk 0 n 0 = (h1, r)"
    and "h' = h1\<lparr>next_of := (next_of h1)(r := 0)\<rparr>"
  shows "hlist (next_of h') p (block_objs p osize n)
    \<and> (\<forall>j < n. handle_of h' (p + j * osize) = mk j)
    \<and> (\<forall>x. x \<notin> set (block_objs p osize n) \<longrightarrow> next_of h' x = next_of h x \<and> handle_of h' x = handle_of h x)
    \<and> handle_heap.more h' = handle_heap.more h"
proof -
  obtain k where n: "n = Suc k" using assms(2) by (cases n) auto
  have r: "r = p + (n - 1) * osize" using link_block_last[of h p osize mk 0 k 0 h1 r] assms(4) n by simp
  note hs = link_block_handles[OF assms(1,4)]
  have "hlist (next_of h') p (block_objs p osize n)"
  proof (rule hlist_block_objs)
    show "next_of h' (p + j * osize) = p + Suc j * osize" if "Suc j < n" for j
      using hs[of j] that assms(1) by (simp add: assms(5) r)
  qed (use assms r in auto)
  moreover have "r \<in> set (block_objs p osize n)" using r n by (auto simp: in_block_objs)
  ultimately show ?thesis
    using hs link_block_frame[OF assms(4)] link_block_more[OF assms(4)] by (auto simp: assms(5))
qed

section \<open>The invariant of a pool\<close>

definition all_objs :: "MPIU_Object_alloc_t \<Rightarrow> nat list" where
  "all_objs om = block_objs (om_direct om) (om_size om) (om_direct_size om) @
     concat (map (\<lambda>b. block_objs b (om_size om) HANDLE_BLOCK_SIZE) (blocks om))"

lemma all_objs_avail [simp]: "all_objs (om\<lparr>om_avail := p\<rparr>) = all_objs om"
  by (simp add: all_objs_def)

definition pool_wf :: "MPIU_Object_alloc_t \<Rightarrow> bool" where
  "pool_wf om \<longleftrightarrow> 0 < om_size om \<and> om_direct om \<noteq> 0 \<and> 0 < om_direct_size om \<and> om_direct_size om \<le> 2 ^ 26
     \<and> unat (om_kind om) < 2 ^ 4
     \<and> (\<not> om_initialized om \<longrightarrow> om_avail om = 0 \<and> om_indirect om = None)
     \<and> (case om_indirect om of None \<Rightarrow> om_indirect_size om = 0
        | Some t \<Rightarrow> length t = HANDLE_BLOCK_INDEX_SIZE \<and> om_indirect_size om < HANDLE_BLOCK_INDEX_SIZE)
     \<and> distinct (all_objs om) \<and> 0 \<notin> set (all_objs om)"

definition handles_ok :: "('a handle_heap_scheme) \<Rightarrow> MPIU_Object_alloc_t \<Rightarrow> bool" where
  "handles_ok h om \<longleftrightarrow>
     (om_initialized om \<longrightarrow> (\<forall>i < om_direct_size om.
        handle_of h (om_direct om + i * om_size om) = direct_handle (om_kind om) i))
     \<and> (\<forall>b < length (blocks om). \<forall>i < HANDLE_BLOCK_SIZE.
        handle_of h (blocks om ! b + i * om_size om) = indirect_handle (om_kind om) b i)"

text \<open>\<open>fs\<close> is the list of free objects, from \<open>avail\<close> on.\<close>

definition pool_inv :: "('a handle_heap_scheme) \<Rightarrow> MPIU_Object_alloc_t \<Rightarrow> nat list \<Rightarrow> bool" where
  "pool_inv h om fs \<longleftrightarrow> pool_wf om \<and> handles_ok h om \<and> hlist (next_of h) (om_avail om) fs
     \<and> set fs \<subseteq> set (pool_objs om)"

text \<open>\<open>MPIU_Calloc\<close> answers memory nobody else has.\<close>

definition calloc_fresh :: "calloc_env \<Rightarrow> MPIU_Object_alloc_t \<Rightarrow> bool" where
  "calloc_fresh e om \<longleftrightarrow>
     set (block_objs (new_block e) (om_size om) HANDLE_BLOCK_SIZE) \<inter> set (all_objs om) = {} \<or> new_block e = 0"

lemma pool_objs_all: "set (pool_objs om) \<subseteq> set (all_objs om)"
  by (auto simp: pool_objs_def all_objs_def)

lemma length_blocks: "pool_wf om \<Longrightarrow> length (blocks om) = om_indirect_size om \<and> om_indirect_size om < HANDLE_BLOCK_INDEX_SIZE"
  by (auto simp: pool_wf_def blocks_def split: option.splits)

lemma blocks_nth: "pool_wf om \<Longrightarrow> b < om_indirect_size om \<Longrightarrow> the (om_indirect om) ! b = blocks om ! b"
  by (auto simp: pool_wf_def blocks_def split: option.splits)

lemma pool_objs_cases:
  assumes "p \<in> set (pool_objs om)"
  obtains (direct) i where "om_initialized om" "i < om_direct_size om" "p = om_direct om + i * om_size om"
  | (indirect) b i where "b < length (blocks om)" "i < HANDLE_BLOCK_SIZE" "p = blocks om ! b + i * om_size om"
proof -
  consider "om_initialized om" "p \<in> set (block_objs (om_direct om) (om_size om) (om_direct_size om))"
    | "p \<in> set (concat (map (\<lambda>b. block_objs b (om_size om) HANDLE_BLOCK_SIZE) (blocks om)))"
    using assms by (auto simp: pool_objs_def split: if_splits)
  then show ?thesis
  proof cases
    case 1
    with direct show ?thesis by (auto simp: in_block_objs)
  next
    case 2
    then obtain c where "c \<in> set (blocks om)" "p \<in> set (block_objs c (om_size om) HANDLE_BLOCK_SIZE)" by auto
    moreover from this(1) obtain b where "b < length (blocks om)" "c = blocks om ! b"
      by (auto simp: in_set_conv_nth)
    ultimately show ?thesis using indirect[of b] by (auto simp: in_block_objs)
  qed
qed

lemma get_ptr_handle:
  assumes "pool_inv h om fs" "p \<in> set (pool_objs om)"
  shows "MPID_Get_ptr om (handle_of h p) = p \<and> HANDLE_GET_MPI_KIND (handle_of h p) = om_kind om
    \<and> HANDLE_GET_KIND (handle_of h p) \<noteq> HANDLE_KIND_INVALID"
proof -
  from assms(1) have wf: "pool_wf om" and hs: "handles_ok h om" by (auto simp: pool_inv_def)
  then have k: "unat (om_kind om) < 2 ^ 4" by (simp add: pool_wf_def)
  from assms(2) show ?thesis
  proof (cases rule: pool_objs_cases)
    case (direct i)
    with hs have e: "handle_of h p = direct_handle (om_kind om) i" by (simp add: handles_ok_def)
    have i: "i < 2 ^ 26" using direct wf by (simp add: pool_wf_def)
    then have "unat (of_nat i :: handle) = i" by (simp add: unat_of_nat)
    with direct(3) direct_handle_fields[OF k i] show ?thesis unfolding e by (simp add: MPID_Get_ptr_def)
  next
    case (indirect b i)
    with hs have e: "handle_of h p = indirect_handle (om_kind om) b i" by (simp add: handles_ok_def)
    have b: "b < 2 ^ 10" "b < om_indirect_size om" and i: "i < 2 ^ 16"
      using indirect length_blocks[OF wf] by simp_all
    then have "unat (of_nat i :: handle) = i" "unat (of_nat b :: handle) = b" by (simp_all add: unat_of_nat)
    with indirect(3) b blocks_nth[OF wf b(2)] indirect_handle_fields[OF k b(1) i] show ?thesis
      unfolding e by (simp add: MPID_Get_ptr_def MPIU_Handle_get_ptr_indirect_def)
  qed
qed

section \<open>Allocating and freeing\<close>

text \<open>
  What one call of the allocator does to the pool: the free list afterwards is \<open>fs'\<close>; an
  object that is handed out was not in use, and nothing that is in use changes.
\<close>

definition alloc_post :: "('a handle_heap_scheme) \<Rightarrow> MPIU_Object_alloc_t \<Rightarrow> nat list
    \<Rightarrow> ('a handle_heap_scheme) \<Rightarrow> MPIU_Object_alloc_t \<Rightarrow> nat \<Rightarrow> nat list \<Rightarrow> bool" where
  "alloc_post h om fs h' om' p fs' \<longleftrightarrow>
     pool_inv h' om' fs' \<and> om_kind om' = om_kind om
     \<and> (p = 0 \<longrightarrow> h' = h \<and> fs' = fs \<and> pool_objs om' = pool_objs om)
     \<and> (p \<noteq> 0 \<longrightarrow> p \<notin> set (pool_objs om) - set fs
          \<and> set (pool_objs om') - set fs' = insert p (set (pool_objs om) - set fs))
     \<and> (\<forall>x. x \<in> set (pool_objs om) - set fs \<longrightarrow> next_of h' x = next_of h x \<and> handle_of h' x = handle_of h x)
     \<and> handle_heap.more h' = handle_heap.more h"

lemma alloc_avail:
  assumes "pool_inv h om fs" "om_avail om \<noteq> 0"
  shows "alloc_post h om fs h (om\<lparr>om_avail := next_of h (om_avail om)\<rparr>) (om_avail om) (tl fs)"
proof -
  let ?om = "om\<lparr>om_avail := next_of h (om_avail om)\<rparr>"
  from assms obtain gs where fs: "fs = om_avail om # gs" and hl: "hlist (next_of h) (om_avail om) fs"
    by (cases fs) (auto simp: pool_inv_def)
  have "distinct fs" by (rule hlist_distinct[OF hl])
  have "om_initialized om" using assms by (auto simp: pool_inv_def pool_wf_def)
  with assms hl fs have "pool_inv h ?om gs"
    by (auto simp: pool_inv_def pool_wf_def handles_ok_def cong: option.case_cong)
  with fs assms \<open>distinct fs\<close> show ?thesis by (auto simp: alloc_post_def pool_inv_def)
qed

lemma pool_wf_initialized: "pool_wf om \<Longrightarrow> pool_wf (om\<lparr>om_initialized := True\<rparr>)"
  by (auto simp: pool_wf_def all_objs_def blocks_def split: option.splits)

lemma alloc_direct:
  assumes "pool_inv h om fs" "\<not> om_initialized om"
    and "MPIU_Handle_direct_init h (om_direct om) (om_direct_size om) (om_size om) (om_kind om) = (h', p)"
  shows "p \<noteq> 0 \<and> alloc_post h om fs h' (om\<lparr>om_initialized := True, om_avail := next_of h' p\<rparr>) p
    (tl (block_objs (om_direct om) (om_size om) (om_direct_size om)))"
proof -
  let ?om = "om\<lparr>om_initialized := True, om_avail := next_of h' p\<rparr>"
  let ?bs = "block_objs (om_direct om) (om_size om) (om_direct_size om)"
  from assms have wf: "pool_wf om" by (simp add: pool_inv_def)
  with assms(2) have n: "om_indirect om = None" "om_avail om = 0" by (auto simp: pool_wf_def)
  with assms have fs: "fs = []" by (simp add: pool_inv_def)
  obtain h1 r where lb: "link_block h (om_direct om) (om_size om) (direct_handle (om_kind om)) 0
      (om_direct_size om) 0 = (h1, r)" by (cases "link_block h (om_direct om) (om_size om) (direct_handle (om_kind om)) 0 (om_direct_size om) 0")
  with assms(3) have h': "h' = h1\<lparr>next_of := (next_of h1)(r := 0)\<rparr>" and p: "p = om_direct om"
    by (auto simp: MPIU_Handle_direct_init_def)
  have pos: "0 < om_size om" "0 < om_direct_size om" "om_direct om \<noteq> 0" using wf by (simp_all add: pool_wf_def)
  note nb = new_block_linked[OF pos lb h']
  obtain k where "om_direct_size om = Suc k" using pos by (cases "om_direct_size om") auto
  then have bs: "?bs = p # tl ?bs" by (simp add: block_objs_Suc p)
  have d: "distinct ?bs" using pos by (simp add: distinct_block_objs)
  have objs: "pool_objs ?om = ?bs" "pool_objs om = []" "blocks ?om = []"
    using n assms(2) by (simp_all add: pool_objs_def blocks_def)
  have "hlist (next_of h') p (p # tl ?bs)" using nb bs p by metis
  then have "hlist (next_of h') (next_of h' p) (tl ?bs)" by simp
  moreover have "pool_wf ?om"
    using wf n by (simp add: pool_wf_def all_objs_def blocks_def)
  moreover have "handles_ok h' ?om" using nb n by (simp add: handles_ok_def blocks_def)
  moreover have "set (tl ?bs) \<subseteq> set ?bs" by (metis list.set_sel(2) list.set(1) subsetI tl_Nil)
  ultimately have "pool_inv h' ?om (tl ?bs)" unfolding pool_inv_def objs(1) by simp
  moreover have "set ?bs - set (tl ?bs) = {p}" using bs d by (metis Diff_insert_absorb distinct.simps(2) list.simps(15) Diff_cancel insert_Diff1 insert_Diff_if)
  ultimately show ?thesis using pos p nb objs fs by (auto simp: alloc_post_def)
qed

lemma blocks_extend:
  assumes "length t = HANDLE_BLOCK_INDEX_SIZE" "isize < HANDLE_BLOCK_INDEX_SIZE"
  shows "take (isize + 1) (t[isize := b]) = take isize t @ [b]"
  using assms by (simp add: take_Suc_conv_app_nth)

lemma alloc_indirect_block:
  assumes inv: "pool_inv h om fs" and ini: "om_initialized om" "om_avail om = 0"
    and t: "length t = HANDLE_BLOCK_INDEX_SIZE" "take (om_indirect_size om) t = blocks om"
    and room: "om_indirect_size om < HANDLE_BLOCK_INDEX_SIZE - 1"
    and blk: "blk \<noteq> 0" "set (block_objs blk (om_size om) HANDLE_BLOCK_SIZE) \<inter> set (all_objs om) = {}"
    and lb: "link_block h blk (om_size om) (indirect_handle (om_kind om) (om_indirect_size om)) 0
        HANDLE_BLOCK_SIZE 0 = (h1, r)"
    and h': "h' = h1\<lparr>next_of := (next_of h1)(r := 0)\<rparr>"
    and om': "om' = om\<lparr>om_indirect := Some (t[om_indirect_size om := blk]),
        om_indirect_size := om_indirect_size om + 1, om_avail := next_of h' blk\<rparr>"
  shows "alloc_post h om fs h' om' blk (tl (block_objs blk (om_size om) HANDLE_BLOCK_SIZE))"
proof -
  let ?bs = "block_objs blk (om_size om) HANDLE_BLOCK_SIZE" let ?n = "om_indirect_size om"
  from inv have wf: "pool_wf om" and hok: "handles_ok h om" by (auto simp: pool_inv_def)
  from inv ini have fs: "fs = []" by (simp add: pool_inv_def)
  have pos: "0 < om_size om" "0 < HANDLE_BLOCK_SIZE" using wf by (simp_all add: pool_wf_def)
  note nb = new_block_linked[OF pos blk(1) lb h']
  have blocks': "blocks om' = blocks om @ [blk]"
    using blocks_extend[OF t(1), of ?n blk] room t(2) by (simp add: om' blocks_def)
  have len: "length (blocks om) = ?n" using length_blocks[OF wf] by simp
  have objs: "pool_objs om' = pool_objs om @ ?bs" "all_objs om' = all_objs om @ ?bs"
    using ini by (simp_all add: pool_objs_def all_objs_def blocks') (simp_all add: om')
  have bs: "?bs = blk # tl ?bs" using block_objs_Suc[of blk "om_size om" 255] by simp
  have d: "distinct ?bs" using pos by (simp add: distinct_block_objs)
  have nz: "0 \<notin> set ?bs" using blk(1) by (auto simp: in_block_objs)
  have wf': "pool_wf om'"
    using wf d nz blk(2) t(1) room ini objs(2) by (auto simp: pool_wf_def om' split: option.splits)
  have old: "x \<notin> set ?bs" if "x \<in> set (all_objs om)" for x using that blk(2) by blast
  have "handles_ok h' om'"
    unfolding handles_ok_def
  proof (intro conjI impI allI)
    fix i assume "i < om_direct_size om'"
    then have "om_direct om + i * om_size om \<in> set (all_objs om)"
      by (auto simp: all_objs_def in_block_objs om')
    with old nb hok ini \<open>i < om_direct_size om'\<close>
    show "handle_of h' (om_direct om' + i * om_size om') = direct_handle (om_kind om') i"
      by (auto simp: handles_ok_def om')
  next
    fix b i assume b: "b < length (blocks om')" and i: "i < HANDLE_BLOCK_SIZE"
    show "handle_of h' (blocks om' ! b + i * om_size om') = indirect_handle (om_kind om') b i"
    proof (cases "b < length (blocks om)")
      case True
      then have "blocks om ! b + i * om_size om \<in> set (all_objs om)"
        using i by (auto simp: all_objs_def in_block_objs intro!: bexI[of _ "blocks om ! b"])
      with old nb hok True i show ?thesis by (auto simp: handles_ok_def blocks' nth_append) (simp_all add: om')
    next
      case False
      with b len blocks' have "b = ?n" "blocks om' ! b = blk" by (auto simp: nth_append)
      with nb i show ?thesis by (simp add: om')
    qed
  qed
  moreover have "hlist (next_of h') blk (blk # tl ?bs)" using nb bs by metis
  then have "hlist (next_of h') (om_avail om') (tl ?bs)" by (simp add: om')
  moreover have tl: "set (tl ?bs) \<subseteq> set ?bs" by (metis list.set_sel(2) list.set(1) subsetI tl_Nil)
  ultimately have "pool_inv h' om' (tl ?bs)" using wf' by (auto simp: pool_inv_def objs)
  moreover have "set ?bs = insert blk (set (tl ?bs))" "blk \<notin> set (tl ?bs)"
    using bs d by (metis list.simps(15), metis distinct.simps(2))
  moreover have "set ?bs \<inter> set (pool_objs om) = {}" using blk(2) pool_objs_all by blast
  moreover have "om_kind om' = om_kind om" by (simp add: om')
  moreover have "x \<notin> set ?bs" if "x \<in> set (pool_objs om)" for x using that old pool_objs_all by blast
  ultimately show ?thesis using fs nb blk(1) by (auto simp: alloc_post_def objs)
qed

lemma alloc_nothing:
  assumes "pool_inv h om fs" "om_initialized om" "om_avail om = 0"
    and "om_indirect om = None \<Longrightarrow> ind = None \<or> ind = Some (replicate HANDLE_BLOCK_INDEX_SIZE 0) \<and> isize = 0"
    and "om_indirect om \<noteq> None \<Longrightarrow> ind = om_indirect om"
    and "om_indirect om = None \<Longrightarrow> ind = None \<Longrightarrow> isize = om_indirect_size om"
    and "om_indirect om \<noteq> None \<Longrightarrow> isize = om_indirect_size om"
  shows "alloc_post h om fs h (om\<lparr>om_indirect := ind, om_indirect_size := isize\<rparr>) 0 fs"
proof -
  let ?om = "om\<lparr>om_indirect := ind, om_indirect_size := isize\<rparr>"
  have "om_indirect om = None \<and> ind = None \<and> isize = om_indirect_size om
    \<or> om_indirect om = None \<and> om_indirect_size om = 0 \<and> ind = Some (replicate HANDLE_BLOCK_INDEX_SIZE 0) \<and> isize = 0
    \<or> om_indirect om \<noteq> None \<and> ?om = om"
    using assms by (cases "om_indirect om") (auto simp: pool_inv_def pool_wf_def)
  then consider "?om = om" | "om_indirect om = None" "om_indirect_size om = 0"
      "ind = Some (replicate HANDLE_BLOCK_INDEX_SIZE 0)" "isize = 0" by auto
  then show ?thesis
  proof cases
    case 1
    with assms(1) show ?thesis unfolding 1 by (simp add: alloc_post_def)
  next
    case 2
    then have same: "blocks ?om = []" "blocks om = []" by (simp_all add: blocks_def)
    then have "pool_objs ?om = pool_objs om" "all_objs ?om = all_objs om"
      by (simp_all add: pool_objs_def all_objs_def)
    with same 2 assms(1,2) have "pool_inv h ?om fs"
      by (simp add: pool_inv_def pool_wf_def handles_ok_def)
    with \<open>pool_objs ?om = pool_objs om\<close> show ?thesis by (simp add: alloc_post_def)
  qed
qed

lemma alloc_spec:
  assumes inv: "pool_inv h om fs" and fresh: "calloc_fresh e om"
    and alloc: "MPIU_Handle_obj_alloc e h om = (h', om', p)"
  shows "\<exists>fs'. alloc_post h om fs h' om' p fs'"
proof -
  consider (avail) "om_avail om \<noteq> 0" | (direct) "om_avail om = 0" "\<not> om_initialized om"
    | (indirect) "om_avail om = 0" "om_initialized om" by blast
  then show ?thesis
  proof cases
    case avail
    with alloc_avail[OF inv avail] alloc show ?thesis
      by (auto simp: MPIU_Handle_obj_alloc_def)
  next
    case direct
    obtain h1 q where di: "MPIU_Handle_direct_init h (om_direct om) (om_direct_size om) (om_size om) (om_kind om) = (h1, q)"
      by fastforce
    from alloc_direct[OF inv direct(2) di] di direct alloc show ?thesis
      by (auto simp: MPIU_Handle_obj_alloc_def Let_def)
  next
    case indirect
    from inv have wf: "pool_wf om" by (simp add: pool_inv_def)
    define t where "t = (case om_indirect om of Some t \<Rightarrow> t | None \<Rightarrow> replicate HANDLE_BLOCK_INDEX_SIZE 0)"
    show ?thesis
    proof (cases "om_indirect om = None \<and> \<not> table_ok e \<or> om_indirect_size om \<ge> HANDLE_BLOCK_INDEX_SIZE - 1
        \<or> new_block e = 0")
      case True
      have "\<exists>ind isize. MPIU_Handle_indirect_init e h (om_indirect om) (om_indirect_size om)
          HANDLE_BLOCK_INDEX_SIZE HANDLE_BLOCK_SIZE (om_size om) (om_kind om) = (h, ind, isize, 0)
        \<and> (om_indirect om = None \<longrightarrow> ind = None \<or> ind = Some (replicate HANDLE_BLOCK_INDEX_SIZE 0) \<and> isize = 0)
        \<and> (om_indirect om \<noteq> None \<longrightarrow> ind = om_indirect om \<and> isize = om_indirect_size om)
        \<and> (om_indirect om = None \<longrightarrow> ind = None \<longrightarrow> isize = om_indirect_size om)"
      proof (cases "om_indirect om")
        case None
        with wf True show ?thesis
          by (cases "table_ok e") (simp_all add: MPIU_Handle_indirect_init_def pool_wf_def)
      next
        case (Some u)
        with wf True show ?thesis
          by (auto simp: MPIU_Handle_indirect_init_def pool_wf_def)
      qed
      then obtain ind isize where ii: "MPIU_Handle_indirect_init e h (om_indirect om) (om_indirect_size om)
          HANDLE_BLOCK_INDEX_SIZE HANDLE_BLOCK_SIZE (om_size om) (om_kind om) = (h, ind, isize, 0)"
        and isz: "om_indirect om = None \<longrightarrow> ind = None \<or> ind = Some (replicate HANDLE_BLOCK_INDEX_SIZE 0) \<and> isize = 0"
        "om_indirect om \<noteq> None \<longrightarrow> ind = om_indirect om \<and> isize = om_indirect_size om"
        "om_indirect om = None \<longrightarrow> ind = None \<longrightarrow> isize = om_indirect_size om"
        by blast
      have "alloc_post h om fs h (om\<lparr>om_indirect := ind, om_indirect_size := isize\<rparr>) 0 fs"
        by (intro alloc_nothing[OF inv indirect(2,1)]) (use isz in blast)+
      with alloc ii indirect show ?thesis by (auto simp: MPIU_Handle_obj_alloc_def Let_def)
    next
      case False
      have t: "length t = HANDLE_BLOCK_INDEX_SIZE" "take (om_indirect_size om) t = blocks om"
        using wf by (auto simp: t_def pool_wf_def blocks_def split: option.splits)
      obtain h1 r where lb: "link_block h (new_block e) (om_size om)
          (indirect_handle (om_kind om) (om_indirect_size om)) 0 HANDLE_BLOCK_SIZE 0 = (h1, r)"
        by fastforce
      have ii: "MPIU_Handle_indirect_init e h (om_indirect om) (om_indirect_size om)
          HANDLE_BLOCK_INDEX_SIZE HANDLE_BLOCK_SIZE (om_size om) (om_kind om) =
          (h1\<lparr>next_of := (next_of h1)(r := 0)\<rparr>, Some (t[om_indirect_size om := new_block e]),
           om_indirect_size om + 1, new_block e)"
        using False lb wf by (auto simp: MPIU_Handle_indirect_init_def t_def pool_wf_def split: option.splits)
      have "alloc_post h om fs h' om' (new_block e)
          (tl (block_objs (new_block e) (om_size om) HANDLE_BLOCK_SIZE))"
        by (rule alloc_indirect_block[OF inv indirect(2,1) t _ _ _ lb])
           (use False fresh alloc ii indirect in \<open>auto simp: MPIU_Handle_obj_alloc_def Let_def calloc_fresh_def\<close>)
      with alloc ii indirect False show ?thesis by (auto simp: MPIU_Handle_obj_alloc_def Let_def)
    qed
  qed
qed

lemma free_spec:
  assumes inv: "pool_inv h om fs" and p: "p \<in> set (pool_objs om) - set fs"
    and free: "MPIU_Handle_obj_free h om p = (h', om')"
  shows "pool_inv h' om' (p # fs) \<and> pool_objs om' = pool_objs om
    \<and> (\<forall>x. x \<noteq> p \<longrightarrow> next_of h' x = next_of h x) \<and> handle_of h' = handle_of h
    \<and> handle_heap.more h' = handle_heap.more h"
proof -
  from free have h': "h' = h\<lparr>next_of := (next_of h)(p := om_avail om)\<rparr>" and om': "om' = om\<lparr>om_avail := p\<rparr>"
    by (auto simp: MPIU_Handle_obj_free_def)
  have "0 \<notin> set (pool_objs om)" using pool_objs_all inv unfolding pool_inv_def pool_wf_def by blast
  with p have "p \<noteq> 0" by (metis DiffD1)
  moreover have "hlist (next_of h') (om_avail om) fs"
    using inv p by (simp add: h' pool_inv_def hlist_upd)
  moreover have "om_initialized om"
  proof (rule ccontr)
    assume "\<not> om_initialized om"
    with inv have "pool_objs om = []" by (auto simp: pool_inv_def pool_wf_def pool_objs_def blocks_def)
    with p show False by simp
  qed
  with inv have "pool_wf om'" "handles_ok h' om'"
    by (auto simp: pool_inv_def pool_wf_def handles_ok_def h' om' cong: option.case_cong)
  ultimately show ?thesis using inv p by (auto simp: pool_inv_def h' om')
qed

text \<open>A whole list of objects in use goes in front of the free list at once.\<close>

lemma hlist_join:
  "hlist nx p (ys @ [l]) \<Longrightarrow> hlist nx a fs \<Longrightarrow> set (ys @ [l]) \<inter> set fs = {}
    \<Longrightarrow> hlist (nx(l := a)) p (ys @ l # fs)"
proof (induction ys arbitrary: p)
  case Nil
  then show ?case by (simp add: hlist_upd fun_upd_same del: fun_upd_apply)
next
  case (Cons y ys)
  have "l \<noteq> y" using hlist_distinct[OF Cons.prems(1)] by auto
  moreover have "hlist (nx(l := a)) (nx y) (ys @ l # fs)" by (rule Cons.IH) (use Cons.prems in auto)
  ultimately show ?case using Cons.prems by (simp add: fun_upd_def)
qed

lemma free_list_spec:
  assumes inv: "pool_inv h om fs" and p: "set (ys @ [l]) \<subseteq> set (pool_objs om) - set fs"
    and hl: "hlist (next_of h) p (ys @ [l])"
  shows "pool_inv (h\<lparr>next_of := (next_of h)(l := om_avail om)\<rparr>) (om\<lparr>om_avail := p\<rparr>) (ys @ l # fs)"
proof -
  have "om_initialized om"
  proof (rule ccontr)
    assume "\<not> om_initialized om"
    with inv have "pool_objs om = []" by (auto simp: pool_inv_def pool_wf_def pool_objs_def blocks_def)
    with p show False by simp
  qed
  with inv have "pool_wf (om\<lparr>om_avail := p\<rparr>)"
    "handles_ok (h\<lparr>next_of := (next_of h)(l := om_avail om)\<rparr>) (om\<lparr>om_avail := p\<rparr>)"
    by (auto simp: pool_inv_def pool_wf_def handles_ok_def cong: option.case_cong)
  moreover have "hlist ((next_of h)(l := om_avail om)) p (ys @ l # fs)"
    by (rule hlist_join[OF hl]) (use inv p in \<open>auto simp: pool_inv_def\<close>)
  ultimately show ?thesis using inv p by (auto simp: pool_inv_def)
qed

text \<open>The pool that MPI starts with: nothing initialised, only the static direct block.\<close>

definition new_pool :: "handle \<Rightarrow> nat \<Rightarrow> nat \<Rightarrow> nat \<Rightarrow> MPIU_Object_alloc_t" where
  "new_pool k osize dir n = \<lparr>om_avail = 0, om_initialized = False, om_indirect = None, om_indirect_size = 0,
     om_kind = k, om_size = osize, om_direct = dir, om_direct_size = n\<rparr>"

lemma new_pool_inv:
  assumes "unat k < 16" "0 < osize" "dir \<noteq> 0" "0 < n" "n \<le> 2 ^ 26"
  shows "pool_inv h (new_pool k osize dir n) []"
proof -
  have "distinct (block_objs dir osize n)" "0 \<notin> set (block_objs dir osize n)"
    using assms by (auto simp: distinct_block_objs in_block_objs)
  with assms show ?thesis
    by (simp add: pool_inv_def new_pool_def pool_wf_def handles_ok_def all_objs_def blocks_def pool_objs_def)
qed

section \<open>The contract of an object pool\<close>

text \<open>
  What the users of the allocator rely on. \<open>live s\<close> are the objects handed out and not
  returned, \<open>link s\<close> and \<open>name s\<close> the fields \<open>next\<close> and \<open>handle\<close> of an object.
\<close>

locale object_pool =
  fixes inv :: "'s \<Rightarrow> bool" and live :: "'s \<Rightarrow> nat set"
    and ok :: "'e \<Rightarrow> 's \<Rightarrow> bool"
    and alloc :: "'e \<Rightarrow> 's \<Rightarrow> 's \<times> nat" and free :: "nat \<Rightarrow> 's \<Rightarrow> 's"
    and link :: "'s \<Rightarrow> nat \<Rightarrow> nat" and name :: "'s \<Rightarrow> nat \<Rightarrow> handle"
    and find :: "'s \<Rightarrow> handle \<Rightarrow> nat"
    and set_link :: "nat \<Rightarrow> nat \<Rightarrow> 's \<Rightarrow> 's" and rest :: "'s \<Rightarrow> 'r"
  assumes null_not_live: "inv s \<Longrightarrow> 0 \<notin> live s"
    and alloc_inv: "inv s \<Longrightarrow> ok e s \<Longrightarrow> alloc e s = (s', p) \<Longrightarrow> inv s'"
    and alloc_live: "inv s \<Longrightarrow> ok e s \<Longrightarrow> alloc e s = (s', p) \<Longrightarrow> p \<noteq> 0
      \<Longrightarrow> p \<notin> live s \<and> live s' = insert p (live s)"
    and alloc_null: "inv s \<Longrightarrow> ok e s \<Longrightarrow> alloc e s = (s', 0) \<Longrightarrow> live s' = live s"
    and alloc_frame: "inv s \<Longrightarrow> ok e s \<Longrightarrow> alloc e s = (s', p) \<Longrightarrow> x \<in> live s
      \<Longrightarrow> link s' x = link s x \<and> name s' x = name s x"
    and free_inv: "inv s \<Longrightarrow> p \<in> live s \<Longrightarrow> inv (free p s)"
    and free_live: "inv s \<Longrightarrow> p \<in> live s \<Longrightarrow> live (free p s) = live s - {p}"
    and free_frame: "inv s \<Longrightarrow> p \<in> live s \<Longrightarrow> x \<noteq> p \<Longrightarrow> link (free p s) x = link s x"
    and free_name: "inv s \<Longrightarrow> p \<in> live s \<Longrightarrow> name (free p s) x = name s x"
    and find_name: "inv s \<Longrightarrow> p \<in> live s \<Longrightarrow> find s (name s p) = p"
    and set_link_inv: "inv s \<Longrightarrow> p \<in> live s \<Longrightarrow> inv (set_link p v s)"
    and set_link_live: "inv s \<Longrightarrow> p \<in> live s \<Longrightarrow> live (set_link p v s) = live s"
    and set_link_link: "link (set_link p v s) = (link s)(p := v)"
    and set_link_name: "name (set_link p v s) = name s"
    and alloc_rest: "inv s \<Longrightarrow> ok e s \<Longrightarrow> alloc e s = (s', p) \<Longrightarrow> rest s' = rest s"
    and free_rest: "rest (free p s) = rest s"
begin

text \<open>Lists of live objects survive the allocation and the release of others.\<close>

lemma alloc_keeps_list:
  assumes "inv s" "ok e s" "alloc e s = (s', p)" "set xs \<subseteq> live s"
  shows "hlist (link s') q xs = hlist (link s) q xs"
  by (rule hlist_cong) (use alloc_frame[OF assms(1-3)] assms(4) in blast)

lemma free_keeps_list:
  assumes "inv s" "p \<in> live s" "p \<notin> set xs"
  shows "hlist (link (free p s)) q xs = hlist (link s) q xs"
  by (rule hlist_cong) (use free_frame[OF assms(1,2)] assms(3) in metis)

text \<open>Two live objects never share a handle, so that a handle identifies its object.\<close>

lemma name_inj: "inv s \<Longrightarrow> p \<in> live s \<Longrightarrow> q \<in> live s \<Longrightarrow> name s p = name s q \<Longrightarrow> p = q"
  using find_name by metis

lemma new_name:
  assumes "inv s" "ok e s" "alloc e s = (s', p)" "p \<noteq> 0" "x \<in> live s"
  shows "name s' p \<noteq> name s x"
proof
  assume eq: "name s' p = name s x"
  have "x \<in> live s'" "p \<in> live s'" "p \<noteq> x" using alloc_live[OF assms(1-4)] assms(5) by auto
  moreover have "name s' x = name s x" using alloc_frame[OF assms(1-3,5)] by simp
  ultimately show False using name_inj[OF alloc_inv[OF assms(1-3)]] eq by metis
qed

text \<open>The client appends a new object to a list of its own.\<close>

lemma append_new:
  assumes "inv s" "ok e s" "alloc e s = (s', q)" "q \<noteq> 0"
    and "set (xs @ [x]) \<subseteq> live s" "hlist (link s) p (xs @ [x])"
  shows "hlist (link (set_link q 0 (set_link x q s'))) p (xs @ [x, q])
    \<and> inv (set_link q 0 (set_link x q s')) \<and> live (set_link q 0 (set_link x q s')) = insert q (live s)"
proof -
  note lv = alloc_live[OF assms(1-4)]
  have q: "q \<notin> set (xs @ [x])" using lv assms(5) by blast
  have "hlist (link s') p (xs @ [x])"
    using alloc_keeps_list[OF assms(1-3,5), of p] assms(6) by simp
  from hlist_append_last[OF this q assms(4)]
  have "hlist ((link s')(q := 0, x := q)) p (xs @ [x, q])" .
  moreover have "(link s')(q := 0, x := q) = link (set_link q 0 (set_link x q s'))"
    using q by (simp add: set_link_link fun_upd_twist)
  ultimately have "hlist (link (set_link q 0 (set_link x q s'))) p (xs @ [x, q])" by simp
  moreover have "x \<in> live s'" "q \<in> live s'" using lv assms(5) by auto
  ultimately show ?thesis
    using alloc_inv[OF assms(1-3)] lv by (simp add: set_link_inv set_link_live)
qed

lemma free_then_alloc_new_or_same:
  assumes "inv s" "p \<in> live s" "ok e (free p s)" "alloc e (free p s) = (s', q)" "q \<noteq> 0"
  shows "q = p \<or> q \<notin> live s"
  using alloc_live[OF free_inv[OF assms(1,2)] assms(3-5)] free_live[OF assms(1,2)] by auto

end

text \<open>The pool of handle objects: the heap and the allocator's record.\<close>

definition pool_ok :: "('a handle_heap_scheme) \<times> MPIU_Object_alloc_t \<Rightarrow> bool" where
  "pool_ok s \<longleftrightarrow> (\<exists>fs. pool_inv (fst s) (snd s) fs)"

definition pool_live :: "('a handle_heap_scheme) \<times> MPIU_Object_alloc_t \<Rightarrow> nat set" where
  "pool_live s = {p \<in> set (pool_objs (snd s)).
     \<not> (\<exists>fs. hlist (next_of (fst s)) (om_avail (snd s)) fs \<and> p \<in> set fs)}"

definition pool_alloc :: "calloc_env \<Rightarrow> ('a handle_heap_scheme) \<times> MPIU_Object_alloc_t
    \<Rightarrow> (('a handle_heap_scheme) \<times> MPIU_Object_alloc_t) \<times> nat" where
  "pool_alloc e s = (case MPIU_Handle_obj_alloc e (fst s) (snd s) of (h, om, p) \<Rightarrow> ((h, om), p))"

definition pool_free :: "nat \<Rightarrow> ('a handle_heap_scheme) \<times> MPIU_Object_alloc_t
    \<Rightarrow> ('a handle_heap_scheme) \<times> MPIU_Object_alloc_t" where
  "pool_free p s = MPIU_Handle_obj_free (fst s) (snd s) p"

definition pool_set_link :: "nat \<Rightarrow> nat \<Rightarrow> ('a handle_heap_scheme) \<times> MPIU_Object_alloc_t
    \<Rightarrow> ('a handle_heap_scheme) \<times> MPIU_Object_alloc_t" where
  "pool_set_link p v s = ((fst s)\<lparr>next_of := (next_of (fst s))(p := v)\<rparr>, snd s)"

definition pool_rest :: "('a handle_heap_scheme) \<times> MPIU_Object_alloc_t \<Rightarrow> 'a \<times> handle" where
  "pool_rest s = (handle_heap.more (fst s), om_kind (snd s))"

lemma pool_inv_set_link:
  "pool_inv h om fs \<Longrightarrow> p \<notin> set fs \<Longrightarrow> pool_inv (h\<lparr>next_of := (next_of h)(p := v)\<rparr>) om fs"
  by (simp add: pool_inv_def handles_ok_def hlist_upd)

lemma pool_live_eq:
  assumes "pool_inv h om fs"
  shows "pool_live (h, om) = set (pool_objs om) - set fs"
proof -
  have "(\<exists>gs. hlist (next_of h) (om_avail om) gs \<and> p \<in> set gs) \<longleftrightarrow> p \<in> set fs" for p
    using assms hlist_functional unfolding pool_inv_def by blast
  then show ?thesis by (auto simp: pool_live_def)
qed

lemma pool_alloc_post:
  assumes "pool_ok (h, om)" "calloc_fresh e om" "pool_alloc e (h, om) = ((h', om'), p)"
  shows "\<exists>fs fs'. pool_inv h om fs \<and> alloc_post h om fs h' om' p fs'"
  using assms alloc_spec[of h om _ e h' om' p]
  by (auto simp: pool_ok_def pool_alloc_def split: prod.splits)

interpretation hm: object_pool pool_ok pool_live "\<lambda>e s. calloc_fresh e (snd s)" pool_alloc pool_free
  "\<lambda>s. next_of (fst s)" "\<lambda>s. handle_of (fst s)" "\<lambda>s. MPID_Get_ptr (snd s)"
  pool_set_link pool_rest
proof
  fix s s' :: "('a handle_heap_scheme) \<times> MPIU_Object_alloc_t" and e p x v
  show "next_of (fst (pool_set_link p v s)) = (next_of (fst s))(p := v)"
    "handle_of (fst (pool_set_link p v s)) = handle_of (fst s)"
    by (simp_all add: pool_set_link_def)
  show "pool_rest (pool_free p s) = pool_rest s"
    by (simp add: pool_rest_def pool_free_def MPIU_Handle_obj_free_def)
  obtain h om h' om' where s: "s = (h, om)" "s' = (h', om')" by (metis surj_pair)
  assume ok: "pool_ok s"
  from ok s obtain fs where inv: "pool_inv h om fs" by (auto simp: pool_ok_def)
  note lv = pool_live_eq[OF inv]
  show "0 \<notin> pool_live s"
    using inv lv s pool_objs_all[of om] by (auto simp: pool_inv_def pool_wf_def)
  show "MPID_Get_ptr (snd s) (handle_of (fst s) p) = p" if "p \<in> pool_live s"
    using get_ptr_handle[OF inv] that lv s by auto
  {
    assume "p \<in> pool_live s"
    with lv s have "p \<notin> set fs" by simp
    note inv' = pool_inv_set_link[OF inv this, of v]
    show "pool_ok (pool_set_link p v s)" using inv' s by (auto simp: pool_ok_def pool_set_link_def)
    show "pool_live (pool_set_link p v s) = pool_live s"
      using pool_live_eq[OF inv'] lv s by (simp add: pool_set_link_def)
  }
  {
    assume fresh: "calloc_fresh e (snd s)" and al: "pool_alloc e s = (s', p)"
    with ok s obtain gs fs' where g: "pool_inv h om gs" and post: "alloc_post h om gs h' om' p fs'"
      using pool_alloc_post[of h om e h' om' p] by auto
    note lv = pool_live_eq[OF g]
    have inv': "pool_inv h' om' fs'" using post by (simp add: alloc_post_def)
    note lv' = pool_live_eq[OF inv']
    show "pool_rest s' = pool_rest s" using post s by (simp add: pool_rest_def alloc_post_def)
    show "pool_ok s'" using inv' s by (auto simp: pool_ok_def)
    show "p \<notin> pool_live s \<and> pool_live s' = insert p (pool_live s)" if "p \<noteq> 0"
      using that post lv lv' s by (auto simp: alloc_post_def)
    show "next_of (fst s') x = next_of (fst s) x \<and> handle_of (fst s') x = handle_of (fst s) x"
      if "x \<in> pool_live s"
      using that post lv s by (auto simp: alloc_post_def)
  }
  {
    assume fresh: "calloc_fresh e (snd s)" and al: "pool_alloc e s = (s', 0)"
    with ok s obtain gs fs' where g: "pool_inv h om gs" and post: "alloc_post h om gs h' om' 0 fs'"
      using pool_alloc_post[of h om e h' om' 0] by auto
    with s show "pool_live s' = pool_live s"
      using pool_live_eq[OF g] pool_live_eq[of h' om' fs'] by (auto simp: alloc_post_def)
  }
  {
    assume p: "p \<in> pool_live s"
    obtain h2 om2 where fr: "MPIU_Handle_obj_free h om p = (h2, om2)" by fastforce
    from p lv s have "p \<in> set (pool_objs om) - set fs" by simp
    note sp = free_spec[OF inv this fr]
    have f: "pool_free p s = (h2, om2)" using fr s by (simp add: pool_free_def)
    show "pool_ok (pool_free p s)" unfolding f pool_ok_def using sp by auto
    show "pool_live (pool_free p s) = pool_live s - {p}"
      unfolding f using sp pool_live_eq[of h2 om2 "p # fs"] lv s by auto
    show "next_of (fst (pool_free p s)) x = next_of (fst s) x" if "x \<noteq> p"
      unfolding f using sp that s by simp
    show "handle_of (fst (pool_free p s)) x = handle_of (fst s) x"
      unfolding f using sp s by simp
  }
qed

section \<open>Properties\<close>

text \<open>
  C35: an object that \<open>MPIU_Handle_obj_alloc\<close> hands out was not in use before, becomes the
  only new object in use, is found again through its handle, which no other object in use
  has, and the objects in use keep their handle and \<open>next\<close> fields.
\<close>

theorem MPIU_Handle_obj_alloc_new:
  assumes "pool_ok (h, om)" "calloc_fresh e om" "MPIU_Handle_obj_alloc e h om = (h', om', p)" "p \<noteq> 0"
  shows "pool_ok (h', om') \<and> p \<notin> pool_live (h, om) \<and> pool_live (h', om') = insert p (pool_live (h, om))
    \<and> MPID_Get_ptr om' (handle_of h' p) = p
    \<and> (\<forall>x \<in> pool_live (h, om). handle_of h' p \<noteq> handle_of h x
         \<and> next_of h' x = next_of h x \<and> handle_of h' x = handle_of h x)"
proof -
  have al: "pool_alloc e (h, om) = ((h', om'), p)" using assms(3) by (simp add: pool_alloc_def)
  note inv' = hm.alloc_inv[OF assms(1) _ al]
  note live = hm.alloc_live[OF assms(1) _ al assms(4)]
  show ?thesis
    using assms(2) inv' live hm.alloc_frame[OF assms(1) _ al] hm.new_name[OF assms(1) _ al assms(4)]
      hm.find_name[OF inv', of p] by auto
qed

theorem MPIU_Handle_obj_alloc_new_witness:
  "\<exists>h' om'. MPIU_Handle_obj_alloc \<lparr>table_ok = True, new_block = 0\<rparr> \<lparr>handle_of = (\<lambda>_. 0), next_of = (\<lambda>_. 0)\<rparr>
      (new_pool 7 32 1000 2) = (h', om', 1000) \<and> MPID_Get_ptr om' (handle_of h' 1000) = 1000"
proof -
  let ?e = "\<lparr>table_ok = True, new_block = 0\<rparr>" and ?h = "\<lparr>handle_of = (\<lambda>_. 0), next_of = (\<lambda>_. 0)\<rparr>"
  obtain h' om' where e: "MPIU_Handle_obj_alloc ?e ?h (new_pool 7 32 1000 2) = (h', om', 1000)"
    by (simp add: MPIU_Handle_obj_alloc_def new_pool_def MPIU_Handle_direct_init_def numeral_2_eq_2 Let_def)
  have "pool_ok (?h, new_pool 7 32 1000 2)"
    using new_pool_inv[of 7 32 1000 2 ?h] by (auto simp: pool_ok_def)
  from MPIU_Handle_obj_alloc_new[OF this _ e] e show ?thesis by (simp add: calloc_fresh_def)
qed

text \<open>
  No object is available only when every object of the pool is in use and the block
  table cannot be had, is full, or \<open>MPIU_Calloc\<close> has no block; the pool is then as before.
  The table is full one block early, so a pool never holds more than its direct objects and
  1023 blocks of 256, not the 256K objects the comment in the file promises.
\<close>

theorem MPIU_Handle_obj_alloc_exhausted:
  assumes "pool_ok (h, om)" "calloc_fresh e om" "MPIU_Handle_obj_alloc e h om = (h', om', 0)"
  shows "pool_live (h, om) = set (pool_objs om) \<and> pool_live (h', om') = pool_live (h, om) \<and> h' = h
    \<and> (om_indirect om = None \<and> \<not> table_ok e \<or> om_indirect_size om = 1023 \<or> new_block e = 0)
    \<and> length (pool_objs om) \<le> om_direct_size om + 1023 * 256"
proof -
  from assms(1) obtain fs where inv: "pool_inv h om fs" by (auto simp: pool_ok_def)
  from alloc_spec[OF inv assms(2,3)] obtain fs' where post: "alloc_post h om fs h' om' 0 fs'" by blast
  have wf: "pool_wf om" using inv by (simp add: pool_inv_def)
  have av: "om_avail om = 0 \<and> om_initialized om"
  proof (rule ccontr)
    assume n: "\<not> ?thesis"
    show False
    proof (cases "om_avail om = 0")
      case False
      with assms(3) show False by (auto simp: MPIU_Handle_obj_alloc_def)
    next
      case True
      with n have ni: "\<not> om_initialized om" by simp
      obtain h1 q where di: "MPIU_Handle_direct_init h (om_direct om) (om_direct_size om) (om_size om) (om_kind om) = (h1, q)"
        by fastforce
      from alloc_direct[OF inv ni di] di True ni assms(3) show False
        by (auto simp: MPIU_Handle_obj_alloc_def Let_def)
    qed
  qed
  with inv have "fs = []" by (simp add: pool_inv_def)
  with post pool_live_eq[OF inv] have "pool_live (h, om) = set (pool_objs om)" "h' = h"
    by (auto simp: alloc_post_def)
  moreover have "pool_live (h', om') = pool_live (h, om)"
    using hm.alloc_null[OF assms(1), of e "(h', om')"] assms(2,3) by (simp add: pool_alloc_def)
  moreover have "om_indirect om = None \<and> \<not> table_ok e \<or> om_indirect_size om = 1023 \<or> new_block e = 0"
    using assms(3) av wf
    by (auto simp: MPIU_Handle_obj_alloc_def MPIU_Handle_indirect_init_def pool_wf_def Let_def
        split: option.splits prod.splits if_splits)
  moreover have "length (concat (map (\<lambda>b. block_objs b (om_size om) HANDLE_BLOCK_SIZE) bs)) = length bs * 256" for bs
    by (induction bs) auto
  then have "length (pool_objs om) \<le> om_direct_size om + 1023 * 256"
    using length_blocks[OF wf] by (simp add: pool_objs_def)
  ultimately show ?thesis by simp
qed

theorem MPIU_Handle_obj_alloc_exhausted_witness:
  "\<exists>h' om'. MPIU_Handle_obj_alloc \<lparr>table_ok = False, new_block = 0\<rparr>
      \<lparr>handle_of = (\<lambda>_. direct_handle 7 0), next_of = (\<lambda>_. 0)\<rparr>
      ((new_pool 7 32 1000 1)\<lparr>om_initialized := True\<rparr>) = (h', om', 0)
    \<and> pool_live (h', om') = {1000}"
proof -
  let ?e = "\<lparr>table_ok = False, new_block = 0\<rparr>" and ?om = "(new_pool 7 32 1000 1)\<lparr>om_initialized := True\<rparr>"
    and ?h = "\<lparr>handle_of = (\<lambda>_. direct_handle 7 0), next_of = (\<lambda>_. 0)\<rparr>"
  obtain h' om' where e: "MPIU_Handle_obj_alloc ?e ?h ?om = (h', om', 0)"
    by (simp add: MPIU_Handle_obj_alloc_def new_pool_def MPIU_Handle_indirect_init_def)
  have objs: "pool_objs ?om = [1000]"
    by (simp add: pool_objs_def new_pool_def blocks_def block_objs_def)
  have "pool_inv ?h ?om []"
    by (simp add: pool_inv_def new_pool_def pool_wf_def handles_ok_def all_objs_def blocks_def block_objs_def)
  then have ok: "pool_ok (?h, ?om)" by (auto simp: pool_ok_def)
  have fr: "calloc_fresh ?e ?om" by (simp add: calloc_fresh_def)
  have "pool_live (h', om') = {1000}"
    using MPIU_Handle_obj_alloc_exhausted[OF ok fr e] objs by (metis list.set(1) list.set(2))
  with e show ?thesis by blast
qed

text \<open>
  Returning an object in use takes exactly it out of use, keeps every other object's
  fields, and the next allocation hands it out again without touching memory.
\<close>

theorem MPIU_Handle_obj_free_reuse:
  assumes "pool_ok (h, om)" "p \<in> pool_live (h, om)" "MPIU_Handle_obj_free h om p = (h', om')"
  shows "pool_ok (h', om') \<and> pool_live (h', om') = pool_live (h, om) - {p}
    \<and> (\<forall>x. x \<noteq> p \<longrightarrow> next_of h' x = next_of h x)
    \<and> (\<exists>om''. MPIU_Handle_obj_alloc e h' om' = (h', om'', p) \<and> pool_live (h', om'') = pool_live (h, om))"
proof -
  have f: "pool_free p (h, om) = (h', om')" using assms(3) by (simp add: pool_free_def)
  note inv' = hm.free_inv[OF assms(1,2), unfolded f] and live' = hm.free_live[OF assms(1,2), unfolded f]
  have p: "p \<noteq> 0" using hm.null_not_live[OF assms(1)] assms(2) by metis
  have "om_avail om' = p" using assms(3) by (auto simp: MPIU_Handle_obj_free_def)
  then have al: "MPIU_Handle_obj_alloc e h' om' = (h', om'\<lparr>om_avail := next_of h' p\<rparr>, p)"
    using p by (simp add: MPIU_Handle_obj_alloc_def)
  let ?e = "\<lparr>table_ok = False, new_block = 0\<rparr>"
  have "pool_alloc ?e (h', om') = ((h', om'\<lparr>om_avail := next_of h' p\<rparr>), p)"
    using al \<open>om_avail om' = p\<close> p by (simp add: pool_alloc_def MPIU_Handle_obj_alloc_def)
  from hm.alloc_live[OF inv' _ this p]
  have "pool_live (h', om'\<lparr>om_avail := next_of h' p\<rparr>) = insert p (pool_live (h', om'))"
    by (simp add: calloc_fresh_def)
  with live' assms(2) have "pool_live (h', om'\<lparr>om_avail := next_of h' p\<rparr>) = pool_live (h, om)" by auto
  with inv' live' hm.free_frame[OF assms(1,2), unfolded f] al show ?thesis by auto
qed

theorem MPIU_Handle_obj_free_reuse_witness:
  "\<exists>h' om' om''. MPIU_Handle_obj_free \<lparr>handle_of = (\<lambda>_. direct_handle 7 0), next_of = (\<lambda>_. 0)\<rparr>
      ((new_pool 7 32 1000 1)\<lparr>om_initialized := True\<rparr>) 1000 = (h', om')
    \<and> MPIU_Handle_obj_alloc \<lparr>table_ok = False, new_block = 0\<rparr> h' om' = (h', om'', 1000)"
proof -
  let ?om = "(new_pool 7 32 1000 1)\<lparr>om_initialized := True\<rparr>"
    and ?h = "\<lparr>handle_of = (\<lambda>_. direct_handle 7 0), next_of = (\<lambda>_. 0)\<rparr>"
  obtain h' om' where e: "MPIU_Handle_obj_free ?h ?om 1000 = (h', om')" by fastforce
  have inv: "pool_inv ?h ?om []"
    by (simp add: pool_inv_def new_pool_def pool_wf_def handles_ok_def all_objs_def blocks_def block_objs_def)
  then have "pool_ok (?h, ?om)" by (auto simp: pool_ok_def)
  moreover have "1000 \<in> pool_live (?h, ?om)"
    unfolding pool_live_eq[OF inv] by (simp add: pool_objs_def new_pool_def blocks_def block_objs_def)
  ultimately show ?thesis
    using MPIU_Handle_obj_free_reuse[OF _ _ e, of "\<lparr>table_ok = False, new_block = 0\<rparr>"] e by blast
qed

end
