(* ===== verification/Info.thy ===== *)
theory Info
  imports HandleMem SafeStr
begin

text \<open>
  The \<open>MPI_Info\<close> objects of src/src/util/info: a list of (key, value) nodes behind an empty
  head node, every node an object of the pool \<open>MPID_Info_mem\<close>. The theory models each routine
  with its parameter checks and relates the linked nodes to an association list per info
  object. A routine's result is \<open>None\<close> where the code does not return (a loop over a cyclic
  list) or follows a null pointer.
\<close>

section \<open>State\<close>

text \<open>\<open>MPID_Info\<close>: the allocator's fields and the two string pointers, \<open>None\<close> for null.\<close>

record info_heap = handle_heap +
  key_of :: "nat \<Rightarrow> string option"
  value_of :: "nat \<Rightarrow> string option"

record info_state =
  iheap :: info_heap
  MPID_Info_mem :: MPIU_Object_alloc_t

abbreviation MPID_INFO :: handle where "MPID_INFO \<equiv> 7"
abbreviation MPI_INFO_NULL :: handle where "MPI_INFO_NULL \<equiv> 0x1c000000"
abbreviation MPI_MAX_INFO_KEY :: nat where "MPI_MAX_INFO_KEY \<equiv> 255"
abbreviation MPI_MAX_INFO_VAL :: nat where "MPI_MAX_INFO_VAL \<equiv> 1024"

text \<open>
  What the storage layer answers: \<open>MPIU_Calloc\<close> for the allocator and \<open>MPIU_Strdup\<close>, whose
  copy is null when there is no memory.
\<close>

type_synonym strdup = "string \<Rightarrow> string option"

text \<open>\<open>!strncmp(a, b, n)\<close> on NUL-terminated strings.\<close>

definition strncmp_eq :: "string \<Rightarrow> string \<Rightarrow> nat \<Rightarrow> bool" where
  "strncmp_eq a b n \<longleftrightarrow> take n a = take n b"

section \<open>Parameter checks\<close>

definition errtest_info :: "handle \<Rightarrow> mpi_err option" where
  "errtest_info info =
     (if info = MPI_INFO_NULL then Some (new_error MPI_ERR_ARG ''**infonull'')
      else if HANDLE_GET_MPI_KIND info \<noteq> MPID_INFO \<or> HANDLE_GET_KIND info = HANDLE_KIND_INVALID
      then Some (new_error MPI_ERR_ARG ''**info'') else None)"

definition get_info :: "info_state \<Rightarrow> handle \<Rightarrow> mpi_err + nat" where
  "get_info st info =
     (case errtest_info info of
        Some e \<Rightarrow> Inl e
      | None \<Rightarrow> (let p = MPID_Get_ptr (MPID_Info_mem st) info in
          if p = 0 then Inl (new_error MPI_ERR_INFO ''**nullptrtype'') else Inr p))"

definition check_key :: "string option \<Rightarrow> mpi_err + string" where
  "check_key key =
     (case key of
        None \<Rightarrow> Inl (new_error MPI_ERR_INFO_KEY ''**infokeynull'')
      | Some k \<Rightarrow>
          if length k > MPI_MAX_INFO_KEY then Inl (new_error MPI_ERR_INFO_KEY ''**infokeylong'')
          else if length k = 0 then Inl (new_error MPI_ERR_INFO_KEY ''**infokeyempty'')
          else Inr k)"

definition check_value :: "string option \<Rightarrow> mpi_err + string" where
  "check_value val =
     (case val of
        None \<Rightarrow> Inl (new_error MPI_ERR_INFO_VALUE ''**infovalnull'')
      | Some v \<Rightarrow>
          if length v > MPI_MAX_INFO_VAL then Inl (new_error MPI_ERR_INFO_VALUE ''**infovallong'')
          else Inr v)"

text \<open>The value buffer of \<open>MPI_Info_get\<close>: the second check keeps the first one's message.\<close>

definition check_valbuf :: "int \<Rightarrow> bool \<Rightarrow> mpi_err option" where
  "check_valbuf valuelen value_null =
     (let e1 = (if valuelen < 0 then Some (new_error MPI_ERR_ARG ''**argneg'') else None) in
      if value_null then Some (create_code e1 MPI_ERR_INFO_VALUE ''**infovalnull'') else e1)"

section \<open>The routines\<close>

text \<open>The search loop \<open>while (curr_ptr)\<close> with \<open>prev_ptr\<close> behind it.\<close>

partial_function (option) info_find :: "info_heap \<Rightarrow> string \<Rightarrow> nat \<Rightarrow> nat \<Rightarrow> (nat \<times> nat) option" where
  "info_find h key prev_ptr curr_ptr =
     (if curr_ptr = 0 then Some (prev_ptr, 0)
      else if strncmp_eq (the (key_of h curr_ptr)) key MPI_MAX_INFO_KEY then Some (prev_ptr, curr_ptr)
      else info_find h key curr_ptr (next_of h curr_ptr))"

definition MPI_Info_create :: "calloc_env \<Rightarrow> info_state \<Rightarrow> info_state \<times> (mpi_err + handle)" where
  "MPI_Info_create e st =
     (case MPIU_Handle_obj_alloc e (iheap st) (MPID_Info_mem st) of (h, om, p) \<Rightarrow>
        if p = 0 then
          (\<lparr>iheap = h, MPID_Info_mem = om\<rparr>,
           Inl (fn_fail ''**mpi_info_create'' (new_error MPI_ERR_OTHER ''**nomem'')))
        else
          (\<lparr>iheap = h\<lparr>key_of := (key_of h)(p := None), value_of := (value_of h)(p := None),
              next_of := (next_of h)(p := 0)\<rparr>, MPID_Info_mem = om\<rparr>,
           Inr (handle_of h p)))"

definition MPI_Info_set :: "calloc_env \<Rightarrow> strdup \<Rightarrow> info_state \<Rightarrow> handle \<Rightarrow> string option \<Rightarrow> string option
    \<Rightarrow> (info_state \<times> (mpi_err + unit)) option" where
  "MPI_Info_set e dup st info key val =
     (case get_info st info of
        Inl er \<Rightarrow> Some (st, Inl (fn_fail ''**mpi_info_set'' er))
      | Inr p \<Rightarrow>
      (case check_key key of
        Inl er \<Rightarrow> Some (st, Inl (fn_fail ''**mpi_info_set'' er))
      | Inr k \<Rightarrow>
      (case check_value val of
        Inl er \<Rightarrow> Some (st, Inl (fn_fail ''**mpi_info_set'' er))
      | Inr v \<Rightarrow>
      (case info_find (iheap st) k p (next_of (iheap st) p) of
        None \<Rightarrow> None
      | Some (prev_ptr, curr_ptr) \<Rightarrow>
          if curr_ptr \<noteq> 0 then
            Some (st\<lparr>iheap := (iheap st)\<lparr>value_of := (value_of (iheap st))(curr_ptr := dup v)\<rparr>\<rparr>, Inr ())
          else
            (case MPIU_Handle_obj_alloc e (iheap st) (MPID_Info_mem st) of (h, om, q) \<Rightarrow>
               if q = 0 then
                 Some (\<lparr>iheap = h, MPID_Info_mem = om\<rparr>,
                   Inl (fn_fail ''**mpi_info_set'' (new_error MPI_ERR_OTHER ''**nomem'')))
               else
                 Some (\<lparr>iheap = h\<lparr>next_of := (next_of h)(prev_ptr := q, q := 0),
                     key_of := (key_of h)(q := dup k), value_of := (value_of h)(q := dup v)\<rparr>,
                   MPID_Info_mem = om\<rparr>, Inr ()))))))"

definition MPI_Info_delete :: "info_state \<Rightarrow> handle \<Rightarrow> string option
    \<Rightarrow> (info_state \<times> (mpi_err + unit)) option" where
  "MPI_Info_delete st info key =
     (case get_info st info of
        Inl er \<Rightarrow> Some (st, Inl (fn_fail ''**mpi_info_delete'' er))
      | Inr p \<Rightarrow>
      (case check_key key of
        Inl er \<Rightarrow> Some (st, Inl (fn_fail ''**mpi_info_delete'' er))
      | Inr k \<Rightarrow>
      (case info_find (iheap st) k p (next_of (iheap st) p) of
        None \<Rightarrow> None
      | Some (prev_ptr, curr_ptr) \<Rightarrow>
          if curr_ptr \<noteq> 0 then
            (let h = (iheap st)\<lparr>next_of := (next_of (iheap st))(prev_ptr := next_of (iheap st) curr_ptr)\<rparr> in
             case MPIU_Handle_obj_free h (MPID_Info_mem st) curr_ptr of (h', om) \<Rightarrow>
               Some (\<lparr>iheap = h', MPID_Info_mem = om\<rparr>, Inr ()))
          else Some (st, Inl (fn_fail ''**mpi_info_delete'' (new_error MPI_ERR_INFO_NOKEY ''**infonokey''))))))"

text \<open>\<open>MPI_Info_get\<close>: memory (the value buffer) and \<open>*flag\<close>.\<close>

definition MPI_Info_get :: "info_state \<Rightarrow> mem \<Rightarrow> handle \<Rightarrow> string option \<Rightarrow> int \<Rightarrow> int option
    \<Rightarrow> (mem \<times> (mpi_err + bool)) option" where
  "MPI_Info_get st m info key valuelen buf =
     (case get_info st info of
        Inl er \<Rightarrow> Some (m, Inl (fn_fail ''**mpi_info_get'' er))
      | Inr p \<Rightarrow>
      (case check_key key of
        Inl er \<Rightarrow> Some (m, Inl (fn_fail ''**mpi_info_get'' er))
      | Inr k \<Rightarrow>
      (case check_valbuf valuelen (buf = None) of
        Some er \<Rightarrow> Some (m, Inl (fn_fail ''**mpi_info_get'' er))
      | None \<Rightarrow>
      (case info_find (iheap st) k p (next_of (iheap st) p) of
        None \<Rightarrow> None
      | Some (prev_ptr, curr_ptr) \<Rightarrow>
          if curr_ptr \<noteq> 0 then
            (case value_of (iheap st) curr_ptr of
               None \<Rightarrow> None
             | Some v \<Rightarrow> Some (fst (MPIU_Strncpy m (the buf) v valuelen), Inr True))
          else Some (m, Inr False)))))"

text \<open>
  \<open>MPI_Info_get_valuelen\<close>: the length where \<open>*flag\<close> is set; otherwise \<open>*valuelen\<close> is not stored.
\<close>

definition MPI_Info_get_valuelen :: "info_state \<Rightarrow> handle \<Rightarrow> string option
    \<Rightarrow> (mpi_err + int option) option" where
  "MPI_Info_get_valuelen st info key =
     (case get_info st info of
        Inl er \<Rightarrow> Some (Inl (fn_fail ''**mpi_info_get_valuelen'' er))
      | Inr p \<Rightarrow>
      (case check_key key of
        Inl er \<Rightarrow> Some (Inl (fn_fail ''**mpi_info_get_valuelen'' er))
      | Inr k \<Rightarrow>
      (case info_find (iheap st) k p (next_of (iheap st) p) of
        None \<Rightarrow> None
      | Some (prev_ptr, curr_ptr) \<Rightarrow>
          if curr_ptr \<noteq> 0 then
            (case value_of (iheap st) curr_ptr of
               None \<Rightarrow> None | Some v \<Rightarrow> Some (Inr (Some (int (length v)))))
          else Some (Inr None))))"

partial_function (option) info_count :: "info_heap \<Rightarrow> nat \<Rightarrow> int \<Rightarrow> int option" where
  "info_count h p n = (if p = 0 then Some n else info_count h (next_of h p) (n + 1))"

definition MPI_Info_get_nkeys :: "info_state \<Rightarrow> handle \<Rightarrow> (mpi_err + int) option" where
  "MPI_Info_get_nkeys st info =
     (case get_info st info of
        Inl er \<Rightarrow> Some (Inl (fn_fail ''**mpi_info_get_nkeys'' er))
      | Inr p \<Rightarrow>
      (case info_count (iheap st) (next_of (iheap st) p) 0 of
         None \<Rightarrow> None | Some n \<Rightarrow> Some (Inr n)))"

partial_function (option) info_nth :: "info_heap \<Rightarrow> nat \<Rightarrow> int \<Rightarrow> int \<Rightarrow> nat option" where
  "info_nth h p nkeys n =
     (if p \<noteq> 0 \<and> nkeys \<noteq> n then info_nth h (next_of h p) (nkeys + 1) n else Some p)"

definition MPI_Info_get_nthkey :: "info_state \<Rightarrow> mem \<Rightarrow> handle \<Rightarrow> int \<Rightarrow> int option
    \<Rightarrow> (mem \<times> (mpi_err + unit)) option" where
  "MPI_Info_get_nthkey st m info n buf =
     (case get_info st info of
        Inl er \<Rightarrow> Some (m, Inl (fn_fail ''**mpi_info_get_nthkey'' er))
      | Inr p \<Rightarrow>
      (case buf of
        None \<Rightarrow> Some (m, Inl (fn_fail ''**mpi_info_get_nthkey'' (new_error MPI_ERR_INFO_KEY ''**infokeynull'')))
      | Some b \<Rightarrow>
      (case info_nth (iheap st) (next_of (iheap st) p) 0 n of
        None \<Rightarrow> None
      | Some curr_ptr \<Rightarrow>
          if curr_ptr = 0 then
            Some (m, Inl (fn_fail ''**mpi_info_get_nthkey'' (new_error MPI_ERR_ARG ''**infonkey'')))
          else (case key_of (iheap st) curr_ptr of
              None \<Rightarrow> None
            | Some k \<Rightarrow> Some (fst (MPIU_Strncpy m b k (int MPI_MAX_INFO_KEY + 1)), Inr ())))))"

text \<open>
  \<open>MPI_Info_dup\<close>: the allocator is called once per node; \<open>es n om\<close> is what the storage layer
  answers the \<open>n\<close>-th time. The first answer is not tested, a null there is followed. The loop
  gives the state and whether an allocation failed.
\<close>

partial_function (option) dup_loop :: "(nat \<Rightarrow> MPIU_Object_alloc_t \<Rightarrow> calloc_env) \<Rightarrow> strdup \<Rightarrow> nat \<Rightarrow> info_state \<Rightarrow> nat \<Rightarrow> nat
    \<Rightarrow> (info_state \<times> bool) option" where
  "dup_loop es dup n st curr_old curr_new =
     (if curr_old = 0 then Some (st, False)
      else
        (case MPIU_Handle_obj_alloc (es n (MPID_Info_mem st)) (iheap st) (MPID_Info_mem st) of (h, om, q) \<Rightarrow>
           let h1 = h\<lparr>next_of := (next_of h)(curr_new := q)\<rparr> in
           if q = 0 then Some (\<lparr>iheap = h1, MPID_Info_mem = om\<rparr>, True)
           else
             (let h2 = h1\<lparr>key_of := (key_of h1)(q := dup (the (key_of h1 curr_old))),
                    value_of := (value_of h1)(q := dup (the (value_of h1 curr_old))),
                    next_of := (next_of h1)(q := 0)\<rparr> in
              dup_loop es dup (n + 1) \<lparr>iheap = h2, MPID_Info_mem = om\<rparr> (next_of h2 curr_old) q)))"

definition MPI_Info_dup :: "(nat \<Rightarrow> MPIU_Object_alloc_t \<Rightarrow> calloc_env) \<Rightarrow> strdup \<Rightarrow> info_state \<Rightarrow> handle
    \<Rightarrow> (info_state \<times> (mpi_err + handle)) option" where
  "MPI_Info_dup es dup st info =
     (case get_info st info of
        Inl er \<Rightarrow> Some (st, Inl (fn_fail ''**mpi_info_dup'' er))
      | Inr p \<Rightarrow>
      (case MPIU_Handle_obj_alloc (es 0 (MPID_Info_mem st)) (iheap st) (MPID_Info_mem st) of (h, om, q) \<Rightarrow>
         if q = 0 then None
         else
           (let h1 = h\<lparr>key_of := (key_of h)(q := None), value_of := (value_of h)(q := None),
                  next_of := (next_of h)(q := 0)\<rparr> in
            case dup_loop es dup 1 \<lparr>iheap = h1, MPID_Info_mem = om\<rparr> (next_of h1 p) q of
              None \<Rightarrow> None
            | Some (st', nomem) \<Rightarrow>
                if nomem then Some (st', Inl (fn_fail ''**mpi_info_dup'' (new_error MPI_ERR_OTHER ''**nomem'')))
                else Some (st', Inr (handle_of h1 q)))))"

text \<open>\<open>MPIU_Info_free\<close>: the whole list of nodes goes in front of the free list.\<close>

partial_function (option) info_last :: "info_heap \<Rightarrow> nat \<Rightarrow> nat \<Rightarrow> nat option" where
  "info_last h curr_ptr last_ptr =
     (if curr_ptr = 0 then Some last_ptr else info_last h (next_of h curr_ptr) curr_ptr)"

definition MPIU_Info_free :: "info_state \<Rightarrow> nat \<Rightarrow> info_state option" where
  "MPIU_Info_free st p =
     (let h = iheap st; om = MPID_Info_mem st in
      case info_last h (next_of h p) p of
        None \<Rightarrow> None
      | Some last_ptr \<Rightarrow> Some \<lparr>iheap = h\<lparr>next_of := (next_of h)(last_ptr := om_avail om)\<rparr>,
          MPID_Info_mem = om\<lparr>om_avail := p\<rparr>\<rparr>)"

text \<open>The result carries the new value of \<open>*info\<close>.\<close>

definition MPI_Info_free :: "info_state \<Rightarrow> handle \<Rightarrow> (info_state \<times> (mpi_err + handle)) option" where
  "MPI_Info_free st info =
     (case get_info st info of
        Inl er \<Rightarrow> Some (st, Inl (fn_fail ''**mpi_info_free'' er))
      | Inr p \<Rightarrow>
      (case MPIU_Info_free st p of
         None \<Rightarrow> None | Some st' \<Rightarrow> Some (st', Inr MPI_INFO_NULL)))"

section \<open>The list of an info object\<close>

text \<open>
  The nodes \<open>xs\<close> behind the head \<open>p\<close> hold the pairs \<open>kvs\<close>: all of them objects in use.
\<close>

definition kvs_ok :: "(string \<times> string) list \<Rightarrow> bool" where
  "kvs_ok kvs \<longleftrightarrow> distinct (map fst kvs)
     \<and> (\<forall>(k, v) \<in> set kvs. 0 < length k \<and> length k \<le> MPI_MAX_INFO_KEY)"

definition node_data :: "info_heap \<Rightarrow> nat list \<Rightarrow> (string \<times> string) list \<Rightarrow> bool" where
  "node_data h xs kvs \<longleftrightarrow> map (key_of h) xs = map (Some \<circ> fst) kvs
     \<and> map (value_of h) xs = map (Some \<circ> snd) kvs"

definition info_chain :: "info_state \<Rightarrow> nat \<Rightarrow> nat list \<Rightarrow> (string \<times> string) list \<Rightarrow> bool" where
  "info_chain st p xs kvs \<longleftrightarrow>
     set (p # xs) \<subseteq> pool_live (iheap st, MPID_Info_mem st)
     \<and> hlist (next_of (iheap st)) p (p # xs) \<and> node_data (iheap st) xs kvs \<and> kvs_ok kvs"

abbreviation ipool :: "info_state \<Rightarrow> info_heap \<times> MPIU_Object_alloc_t" where
  "ipool st \<equiv> (iheap st, MPID_Info_mem st)"

text \<open>
  The abstract state: each head in use has its association list; \<open>X\<close> gives the nodes of each,
  and the lists do not share nodes.
\<close>

definition info_relX :: "info_state \<Rightarrow> (nat \<rightharpoonup> (string \<times> string) list) \<Rightarrow> (nat \<Rightarrow> nat list) \<Rightarrow> bool" where
  "info_relX st A X \<longleftrightarrow> pool_ok (ipool st) \<and> om_kind (MPID_Info_mem st) = MPID_INFO
     \<and> (\<forall>p kvs. A p = Some kvs \<longrightarrow> info_chain st p (X p) kvs)
     \<and> (\<forall>p q. p \<in> dom A \<longrightarrow> q \<in> dom A \<longrightarrow> p \<noteq> q \<longrightarrow> set (p # X p) \<inter> set (q # X q) = {})"

definition info_rel :: "info_state \<Rightarrow> (nat \<rightharpoonup> (string \<times> string) list) \<Rightarrow> bool" where
  "info_rel st A \<longleftrightarrow> (\<exists>X. info_relX st A X)"

lemma node_data_simps [simp]:
  "node_data h [] kvs \<longleftrightarrow> kvs = []"
  "node_data h (x # xs) [] \<longleftrightarrow> False"
  "node_data h (x # xs) ((k, v) # kvs) \<longleftrightarrow> key_of h x = Some k \<and> value_of h x = Some v \<and> node_data h xs kvs"
  by (auto simp: node_data_def)

lemma strncmp_eq_key:
  "length k \<le> MPI_MAX_INFO_KEY \<Longrightarrow> length k' \<le> MPI_MAX_INFO_KEY
    \<Longrightarrow> strncmp_eq k k' MPI_MAX_INFO_KEY \<longleftrightarrow> k = k'"
  by (simp add: strncmp_eq_def)

text \<open>The search loop returns, with the node of the key or with the last node of the list.\<close>

lemma info_find_absent:
  "hlist (next_of h) c xs \<Longrightarrow> node_data h xs kvs \<Longrightarrow> \<forall>k \<in> fst ` set kvs. length k \<le> MPI_MAX_INFO_KEY
    \<Longrightarrow> length key \<le> MPI_MAX_INFO_KEY \<Longrightarrow> key \<notin> fst ` set kvs
    \<Longrightarrow> info_find h key p c = Some (last (p # xs), 0)"
proof (induction xs arbitrary: c p kvs)
  case Nil
  then show ?case by (simp add: info_find.simps)
next
  case (Cons x xs)
  obtain k v kvs' where kvs: "kvs = (k, v) # kvs'"
    using Cons.prems(2) by (cases kvs) (auto simp: node_data_def)
  with Cons.prems have c: "c = x" "x \<noteq> 0" "hlist (next_of h) (next_of h x) xs"
    and d: "key_of h x = Some k" "node_data h xs kvs'" "k \<noteq> key" "length k \<le> MPI_MAX_INFO_KEY"
    by auto
  then have "info_find h key p c = info_find h key x (next_of h x)"
    using Cons.prems(4) by (subst info_find.simps) (simp add: strncmp_eq_key)
  also have "\<dots> = Some (last (x # xs), 0)"
    by (rule Cons.IH[OF c(3) d(2)]) (use Cons.prems kvs in auto)
  finally show ?case by simp
qed

lemma info_find_present:
  "hlist (next_of h) c (us @ x # vs) \<Longrightarrow> node_data h (us @ x # vs) (ks @ (key, v) # rest)
    \<Longrightarrow> length us = length ks \<Longrightarrow> \<forall>k \<in> fst ` set ks. length k \<le> MPI_MAX_INFO_KEY
    \<Longrightarrow> length key \<le> MPI_MAX_INFO_KEY \<Longrightarrow> key \<notin> fst ` set ks
    \<Longrightarrow> info_find h key p c = Some (last (p # us), x)"
proof (induction us arbitrary: c p ks)
  case Nil
  then show ?case by (simp add: info_find.simps strncmp_eq_def)
next
  case (Cons u us)
  obtain k w ks' where ks: "ks = (k, w) # ks'"
    using Cons.prems(3) by (cases ks) auto
  with Cons.prems have c: "c = u" "u \<noteq> 0" "hlist (next_of h) (next_of h u) (us @ x # vs)"
    and d: "key_of h u = Some k" "node_data h (us @ x # vs) (ks' @ (key, v) # rest)"
      "k \<noteq> key" "length k \<le> MPI_MAX_INFO_KEY"
    by auto
  then have "info_find h key p c = info_find h key u (next_of h u)"
    using Cons.prems(5) by (subst info_find.simps) (simp add: strncmp_eq_key)
  also have "\<dots> = Some (last (u # us), x)"
    by (rule Cons.IH[OF c(3) d(2)]) (use Cons.prems ks in auto)
  finally show ?case by simp
qed

lemma map_of_split:
  assumes "map_of kvs key = Some v"
  obtains ks rest where "kvs = ks @ (key, v) # rest" "key \<notin> fst ` set ks"
  using assms
proof (induction kvs arbitrary: thesis)
  case Nil
  then show ?case by simp
next
  case (Cons kv kvs)
  obtain k w where kv: "kv = (k, w)" by (cases kv)
  show ?case
  proof (cases "k = key")
    case True
    with Cons.prems kv show ?thesis by (intro Cons.prems(1)[of "[]" kvs]) auto
  next
    case False
    with Cons.prems(2) kv have "map_of kvs key = Some v" by simp
    from Cons.IH[OF _ this] obtain ks rest where "kvs = ks @ (key, v) # rest" "key \<notin> fst ` set ks" by blast
    with False kv show ?thesis by (intro Cons.prems(1)[of "(k, w) # ks" rest]) auto
  qed
qed

lemma node_data_length: "node_data h xs kvs \<Longrightarrow> length xs = length kvs"
  by (metis length_map node_data_def)

lemma node_data_append:
  "length us = length ks \<Longrightarrow> node_data h (us @ vs) (ks @ ls) \<longleftrightarrow> node_data h us ks \<and> node_data h vs ls"
  by (auto simp: node_data_def)

lemma node_data_split:
  assumes "node_data h xs (ks @ (key, v) # rest)"
  obtains us x vs where "xs = us @ x # vs" "length us = length ks"
proof
  let ?n = "length ks"
  have n: "?n < length xs" using node_data_length[OF assms] by simp
  then show "xs = take ?n xs @ xs ! ?n # drop (Suc ?n) xs" by (simp add: id_take_nth_drop)
  show "length (take ?n xs) = length ks" using n by simp
qed

lemma node_data_cong:
  "(\<And>x. x \<in> set xs \<Longrightarrow> key_of h x = key_of h' x \<and> value_of h x = value_of h' x)
    \<Longrightarrow> node_data h xs kvs = node_data h' xs kvs"
  by (simp add: node_data_def cong: map_cong)

section \<open>How the routines change the abstract state\<close>

text \<open>An operation that leaves the fields of every other object in use alone.\<close>

definition same_node :: "info_state \<Rightarrow> info_state \<Rightarrow> nat \<Rightarrow> bool" where
  "same_node st st' x \<longleftrightarrow> x \<in> pool_live (ipool st') \<and> next_of (iheap st') x = next_of (iheap st) x
     \<and> key_of (iheap st') x = key_of (iheap st) x \<and> value_of (iheap st') x = value_of (iheap st) x"

lemma info_chain_frame:
  assumes "info_chain st q ys kvs" "\<forall>x \<in> set (q # ys). same_node st st' x"
  shows "info_chain st' q ys kvs"
proof -
  have "hlist (next_of (iheap st')) q (q # ys) = hlist (next_of (iheap st)) q (q # ys)"
    by (rule hlist_cong) (use assms(2) in \<open>auto simp: same_node_def\<close>)
  moreover have "node_data (iheap st') ys kvs = node_data (iheap st) ys kvs"
    by (rule node_data_cong) (use assms(2) in \<open>auto simp: same_node_def\<close>)
  moreover have "set (q # ys) \<subseteq> pool_live (ipool st')"
    using assms(2) by (auto simp: same_node_def)
  ultimately show ?thesis using assms(1) unfolding info_chain_def by blast
qed

definition nodes :: "(nat \<rightharpoonup> (string \<times> string) list) \<Rightarrow> (nat \<Rightarrow> nat list) \<Rightarrow> nat \<Rightarrow> nat set" where
  "nodes A X p = (if p \<in> dom A then set (p # X p) else {})"

lemma chain_live: "info_relX st A X \<Longrightarrow> nodes A X q \<subseteq> pool_live (ipool st)"
  by (auto simp: nodes_def info_relX_def info_chain_def)

lemma info_relX_others:
  assumes rel: "info_relX st A X"
    and same: "\<forall>x \<in> pool_live (ipool st) - nodes A X p. same_node st st' x"
    and q: "A q = Some ls" "q \<noteq> p"
  shows "info_chain st' q (X q) ls"
proof (rule info_chain_frame)
  show "info_chain st q (X q) ls" using rel q by (simp add: info_relX_def)
  have "set (q # X q) \<subseteq> pool_live (ipool st)" using chain_live[OF rel, of q] domI[of A q ls] q by (simp add: nodes_def)
  moreover have "set (q # X q) \<inter> nodes A X p = {}"
  proof (cases "p \<in> dom A")
    case True
    moreover have "q \<in> dom A" using q by auto
    ultimately have "set (p # X p) \<inter> set (q # X q) = {}"
      using rel q(2) unfolding info_relX_def by metis
    with True show ?thesis by (auto simp: nodes_def)
  next
    case False
    then show ?thesis by (simp add: nodes_def)
  qed
  ultimately show "\<forall>x \<in> set (q # X q). same_node st st' x" using same by blast
qed

lemma info_relX_update:
  assumes rel: "info_relX st A X" and ok: "pool_ok (ipool st')" "om_kind (MPID_Info_mem st') = MPID_INFO"
    and same: "\<forall>x \<in> pool_live (ipool st) - nodes A X p. same_node st st' x"
    and new: "set (p # xs) \<subseteq> nodes A X p \<union> - pool_live (ipool st)"
    and chain: "info_chain st' p xs kvs"
  shows "info_relX st' (A(p \<mapsto> kvs)) (X(p := xs))"
proof -
  note oth = info_relX_others[OF rel same]
  have disj: "set (p # xs) \<inter> set (q # X q) = {}" if "q \<in> dom A" "q \<noteq> p" for q
  proof -
    have "set (q # X q) \<subseteq> pool_live (ipool st)" using chain_live[OF rel, of q] that by (simp add: nodes_def)
    moreover have "nodes A X p \<inter> set (q # X q) = {}"
    proof (cases "p \<in> dom A")
      case True
      with rel that have "set (p # X p) \<inter> set (q # X q) = {}" unfolding info_relX_def by metis
      with True show ?thesis by (simp add: nodes_def)
    qed (simp add: nodes_def)
    ultimately show ?thesis using new by blast
  qed
  show ?thesis
    unfolding info_relX_def
  proof (intro conjI allI impI)
    show "pool_ok (ipool st')" "om_kind (MPID_Info_mem st') = MPID_INFO" by fact+
    show "info_chain st' q ((X(p := xs)) q) ls" if "(A(p \<mapsto> kvs)) q = Some ls" for q ls
      using that chain oth[of q ls] by (auto split: if_splits)
    show "set (q # (X(p := xs)) q) \<inter> set (r # (X(p := xs)) r) = {}"
      if "q \<in> dom (A(p \<mapsto> kvs))" "r \<in> dom (A(p \<mapsto> kvs))" "q \<noteq> r" for q r
    proof -
      have dom: "q = p \<or> q \<in> dom A" "r = p \<or> r \<in> dom A" using that(1,2) by auto
      consider "q = p" "r \<noteq> p" "r \<in> dom A" | "r = p" "q \<noteq> p" "q \<in> dom A"
        | "q \<noteq> p" "r \<noteq> p" "q \<in> dom A" "r \<in> dom A" using \<open>q \<noteq> r\<close> dom by blast
      then show ?thesis
      proof cases
        case 1
        with disj[of r] show ?thesis by simp
      next
        case 2
        with disj[of q] show ?thesis by (simp add: Int_commute)
      next
        case 3
        with rel \<open>q \<noteq> r\<close> have "set (q # X q) \<inter> set (r # X r) = {}" unfolding info_relX_def by metis
        with 3 show ?thesis by simp
      qed
    qed
  qed
qed

lemma info_relX_remove:
  assumes rel: "info_relX st A X" and ok: "pool_ok (ipool st')" "om_kind (MPID_Info_mem st') = MPID_INFO"
    and same: "\<forall>x \<in> pool_live (ipool st) - nodes A X p. same_node st st' x"
  shows "info_relX st' (A(p := None)) X"
proof -
  have disj: "q \<in> dom A \<longrightarrow> r \<in> dom A \<longrightarrow> q \<noteq> r \<longrightarrow> set (q # X q) \<inter> set (r # X r) = {}" for q r
    using rel unfolding info_relX_def by metis
  show ?thesis
    unfolding info_relX_def
    by (intro conjI allI impI ok)
       (use info_relX_others[OF rel same] disj in \<open>auto split: if_splits\<close>)
qed

lemma info_relX_same:
  assumes rel: "info_relX st A X" and ok: "pool_ok (ipool st')" "om_kind (MPID_Info_mem st') = MPID_INFO"
    and same: "\<forall>x \<in> pool_live (ipool st). same_node st st' x"
  shows "info_relX st' A X"
proof -
  have chain: "info_chain st' q (X q) ls" if "A q = Some ls" for q ls
  proof (rule info_chain_frame)
    show "info_chain st q (X q) ls" using rel that by (simp add: info_relX_def)
    show "\<forall>x \<in> set (q # X q). same_node st st' x"
      using same chain_live[OF rel, of q] domI[of A q ls] that unfolding nodes_def by auto
  qed
  have disj: "q \<in> dom A \<longrightarrow> r \<in> dom A \<longrightarrow> q \<noteq> r \<longrightarrow> set (q # X q) \<inter> set (r # X r) = {}" for q r
    using rel unfolding info_relX_def by metis
  show ?thesis
    unfolding info_relX_def by (intro conjI allI impI ok) (use chain disj in auto)
qed

lemma info_kind_null: "HANDLE_GET_KIND MPI_INFO_NULL = HANDLE_KIND_INVALID"
  by (simp add: HANDLE_GET_KIND_def)

lemma get_info_live:
  assumes "pool_ok (ipool st)" "om_kind (MPID_Info_mem st) = MPID_INFO" "p \<in> pool_live (ipool st)"
  shows "get_info st (handle_of (iheap st) p) = Inr p"
proof -
  from assms(1) obtain fs where inv: "pool_inv (iheap st) (MPID_Info_mem st) fs" by (auto simp: pool_ok_def)
  have "p \<in> set (pool_objs (MPID_Info_mem st))" using assms(3) by (simp add: pool_live_def)
  note gp = get_ptr_handle[OF inv this]
  then have "handle_of (iheap st) p \<noteq> MPI_INFO_NULL" using info_kind_null by metis
  moreover have "p \<noteq> 0" using hm.null_not_live[OF assms(1)] assms(3) by metis
  ultimately show ?thesis using gp assms(2) by (simp add: get_info_def errtest_info_def)
qed

lemma check_key_ok [simp]: "0 < length k \<Longrightarrow> length k \<le> MPI_MAX_INFO_KEY \<Longrightarrow> check_key (Some k) = Inr k"
  by (simp add: check_key_def)

lemma check_value_ok [simp]: "length v \<le> MPI_MAX_INFO_VAL \<Longrightarrow> check_value (Some v) = Inr v"
  by (simp add: check_value_def)

lemma kvs_ok_lengths: "kvs_ok kvs \<Longrightarrow> \<forall>k \<in> fst ` set kvs. length k \<le> MPI_MAX_INFO_KEY"
  by (auto simp: kvs_ok_def)

lemma chain_find_absent:
  assumes "info_chain st p xs kvs" "length k \<le> MPI_MAX_INFO_KEY" "map_of kvs k = None"
  shows "info_find (iheap st) k p (next_of (iheap st) p) = Some (last (p # xs), 0)"
proof (rule info_find_absent)
  show "node_data (iheap st) xs kvs" using assms(1) by (simp add: info_chain_def)
  then show "k \<notin> fst ` set kvs" using assms(3) by (simp add: map_of_eq_None_iff)
  show "\<forall>k \<in> fst ` set kvs. length k \<le> MPI_MAX_INFO_KEY"
    using assms(1) kvs_ok_lengths by (auto simp: info_chain_def)
qed (use assms in \<open>auto simp: info_chain_def\<close>)

lemma chain_find_present:
  assumes "info_chain st p xs kvs" "length k \<le> MPI_MAX_INFO_KEY" "map_of kvs k = Some v"
  obtains us x vs ks rest where "xs = us @ x # vs" "kvs = ks @ (k, v) # rest" "length us = length ks"
    "k \<notin> fst ` set ks" "info_find (iheap st) k p (next_of (iheap st) p) = Some (last (p # us), x)"
proof -
  from map_of_split[OF assms(3)] obtain ks rest where kvs: "kvs = ks @ (k, v) # rest" "k \<notin> fst ` set ks" .
  with assms(1) have nd: "node_data (iheap st) xs (ks @ (k, v) # rest)" by (simp add: info_chain_def)
  from node_data_split[OF nd] obtain us x vs where xs: "xs = us @ x # vs" "length us = length ks" .
  have "info_find (iheap st) k p (next_of (iheap st) p) = Some (last (p # us), x)"
  proof (rule info_find_present)
    show "node_data (iheap st) (us @ x # vs) (ks @ (k, v) # rest)" using nd xs by simp
    show "\<forall>k \<in> fst ` set ks. length k \<le> MPI_MAX_INFO_KEY"
      using assms(1) kvs kvs_ok_lengths[of kvs] by (auto simp: info_chain_def)
  qed (use assms kvs xs in \<open>auto simp: info_chain_def\<close>)
  with kvs xs that show ?thesis by blast
qed

text \<open>The association list after \<open>MPI_Info_set\<close> and after \<open>MPI_Info_delete\<close>.\<close>

fun kvs_set :: "string \<Rightarrow> string \<Rightarrow> (string \<times> string) list \<Rightarrow> (string \<times> string) list" where
  "kvs_set k v [] = [(k, v)]"
| "kvs_set k v ((k', v') # kvs) = (if k' = k then (k, v) # kvs else (k', v') # kvs_set k v kvs)"

fun kvs_delete :: "string \<Rightarrow> (string \<times> string) list \<Rightarrow> (string \<times> string) list" where
  "kvs_delete k [] = []"
| "kvs_delete k ((k', v') # kvs) = (if k' = k then kvs else (k', v') # kvs_delete k kvs)"

lemma map_of_kvs_set: "map_of (kvs_set k v kvs) = (map_of kvs)(k \<mapsto> v)"
  by (induction kvs) auto

lemma kvs_set_absent: "k \<notin> fst ` set kvs \<Longrightarrow> kvs_set k v kvs = kvs @ [(k, v)]"
  by (induction kvs) auto

lemma kvs_set_present: "k \<notin> fst ` set ks \<Longrightarrow> kvs_set k v (ks @ (k, w) # rest) = ks @ (k, v) # rest"
  by (induction ks) auto

lemma kvs_delete_present: "k \<notin> fst ` set ks \<Longrightarrow> kvs_delete k (ks @ (k, w) # rest) = ks @ rest"
  by (induction ks) auto

lemma map_of_kvs_delete: "distinct (map fst kvs) \<Longrightarrow> map_of (kvs_delete k kvs) = (map_of kvs)(k := None)"
proof (induction kvs)
  case Nil
  then show ?case by simp
next
  case (Cons kv kvs)
  obtain k' v' where kv: "kv = (k', v')" by (cases kv)
  show ?case
  proof (cases "k' = k")
    case True
    with Cons.prems kv have "map_of kvs k = None" by (simp add: map_of_eq_None_iff)
    with True kv show ?thesis by (auto simp: fun_eq_iff)
  next
    case False
    with Cons kv show ?thesis by (auto simp: fun_eq_iff)
  qed
qed

lemma kvs_ok_set: "kvs_ok kvs \<Longrightarrow> 0 < length k \<Longrightarrow> length k \<le> MPI_MAX_INFO_KEY \<Longrightarrow> kvs_ok (kvs_set k v kvs)"
proof (induction kvs)
  case Nil
  then show ?case by (simp add: kvs_ok_def)
next
  case (Cons kv kvs)
  obtain k' v' where kv: "kv = (k', v')" by (cases kv)
  have "fst ` set (kvs_set k v kvs) = insert k (fst ` set kvs)"
    by (metis dom_fun_upd dom_map_of_conv_image_fst map_of_kvs_set option.distinct(1))
  with Cons kv show ?case by (auto simp: kvs_ok_def)
qed

lemma kvs_ok_append: "kvs_ok (ks @ (k, v) # rest) \<Longrightarrow> kvs_ok (ks @ rest)"
  by (auto simp: kvs_ok_def)

lemma heap_eta: "handle_heap.more h' = handle_heap.more h
    \<Longrightarrow> key_of (h' :: info_heap) = key_of h \<and> value_of h' = value_of h"
  by (cases h; cases h') simp

lemma info_alloc:
  assumes "pool_ok (ipool st)" "om_kind (MPID_Info_mem st) = MPID_INFO" "calloc_fresh e (MPID_Info_mem st)"
    and "MPIU_Handle_obj_alloc e (iheap st) (MPID_Info_mem st) = (h, om, q)"
  shows "pool_ok (h, om) \<and> om_kind om = MPID_INFO \<and> key_of h = key_of (iheap st) \<and> value_of h = value_of (iheap st)
    \<and> (\<forall>x \<in> pool_live (ipool st). next_of h x = next_of (iheap st) x \<and> handle_of h x = handle_of (iheap st) x)
    \<and> (q \<noteq> 0 \<longrightarrow> q \<notin> pool_live (ipool st) \<and> pool_live (h, om) = insert q (pool_live (ipool st)))
    \<and> (q = 0 \<longrightarrow> pool_live (h, om) = pool_live (ipool st))"
proof -
  have al: "pool_alloc e (ipool st) = ((h, om), q)" using assms(4) by (simp add: pool_alloc_def)
  have fr: "calloc_fresh e (snd (ipool st))" using assms(3) by simp
  have "pool_rest (h, om) = pool_rest (ipool st)" by (rule hm.alloc_rest[OF assms(1) fr al])
  then have "handle_heap.more h = handle_heap.more (iheap st)" "om_kind om = MPID_INFO"
    using assms(2) by (simp_all add: pool_rest_def)
  with heap_eta[of h "iheap st"] show ?thesis
    using hm.alloc_inv[OF assms(1) fr al] hm.alloc_live[OF assms(1) fr al] hm.alloc_frame[OF assms(1) fr al]
      hm.alloc_null[OF assms(1) fr, of "(h, om)"] al by auto
qed

text \<open>The string fields are not the allocator's.\<close>

lemma pool_strings [simp]:
  "pool_ok (h\<lparr>key_of := ks, value_of := vs\<rparr>, om) = pool_ok (h, om)"
  "pool_live (h\<lparr>key_of := ks, value_of := vs\<rparr>, om) = pool_live (h, om)"
  "pool_ok (h\<lparr>key_of := ks\<rparr>, om) = pool_ok (h, om)"
  "pool_live (h\<lparr>key_of := ks\<rparr>, om) = pool_live (h, om)"
  "pool_ok (h\<lparr>value_of := vs\<rparr>, om) = pool_ok (h, om)"
  "pool_live (h\<lparr>value_of := vs\<rparr>, om) = pool_live (h, om)"
  by (simp_all add: pool_ok_def pool_live_def pool_inv_def handles_ok_def)

text \<open>A list with a node whose key or value is a null pointer.\<close>

definition null_node :: "info_state \<Rightarrow> nat \<Rightarrow> bool" where
  "null_node st p \<longleftrightarrow> (\<exists>xs x. hlist (next_of (iheap st)) p (p # xs) \<and> x \<in> set xs
     \<and> (key_of (iheap st) x = None \<or> value_of (iheap st) x = None))"

lemma info_set_replace:
  assumes rel: "info_relX st A X" and A: "A p = Some kvs" and k: "0 < length k" "length k \<le> MPI_MAX_INFO_KEY"
    and v: "length v \<le> MPI_MAX_INFO_VAL" and old: "map_of kvs k = Some w"
  shows "\<exists>st'. MPI_Info_set e dup st (handle_of (iheap st) p) (Some k) (Some v) = Some (st', Inr ())
    \<and> (dup v = Some v \<longrightarrow> info_relX st' (A(p \<mapsto> kvs_set k v kvs)) X) \<and> (dup v = None \<longrightarrow> null_node st' p)"
proof -
  from rel A have chain: "info_chain st p (X p) kvs" and ok: "pool_ok (ipool st)"
    and kd: "om_kind (MPID_Info_mem st) = MPID_INFO" by (auto simp: info_relX_def)
  from chain_find_present[OF chain k(2) old] obtain us x vs ks rest where xs: "X p = us @ x # vs"
    and kvs: "kvs = ks @ (k, w) # rest" "length us = length ks" "k \<notin> fst ` set ks"
    and find: "info_find (iheap st) k p (next_of (iheap st) p) = Some (last (p # us), x)" .
  let ?h = "(iheap st)\<lparr>value_of := (value_of (iheap st))(x := Some v)\<rparr>" let ?st = "st\<lparr>iheap := ?h\<rparr>"
  have hl: "hlist (next_of (iheap st)) p (p # us @ x # vs)" using chain xs by (simp add: info_chain_def)
  have x: "x \<noteq> 0" "x \<notin> set us" "x \<notin> set vs" using hlist_distinct[OF hl] hlist_nonzero[OF hl] by auto
  have gi: "get_info st (handle_of (iheap st) p) = Inr p"
    by (rule get_info_live[OF ok kd]) (use chain in \<open>simp add: info_chain_def\<close>)
  let ?dup = "st\<lparr>iheap := (iheap st)\<lparr>value_of := (value_of (iheap st))(x := dup v)\<rparr>\<rparr>"
  have set: "MPI_Info_set e dup st (handle_of (iheap st) p) (Some k) (Some v) = Some (?dup, Inr ())"
    using gi k v find x(1) by (simp add: MPI_Info_set_def)
  have null: "null_node ?dup p" if "dup v = None"
    unfolding null_node_def by (intro exI[of _ "X p"] exI[of _ x]) (use hl xs that in simp)
  have "node_data ?h (X p) (kvs_set k v kvs)"
    using chain x kvs unfolding info_chain_def xs kvs(1) kvs_set_present[OF kvs(3)]
    by (auto simp: node_data_append) (auto simp: node_data_def)
  moreover have "kvs_ok (kvs_set k v kvs)" using chain k by (simp add: info_chain_def kvs_ok_set)
  ultimately have ch: "info_chain ?st p (X p) (kvs_set k v kvs)"
    using chain by (simp add: info_chain_def)
  have dom: "nodes A X p = set (p # X p)" using A by (auto simp: nodes_def)
  have "info_relX ?st (A(p \<mapsto> kvs_set k v kvs)) (X(p := X p))"
  proof (rule info_relX_update[OF rel _ _ _ _ ch])
    show "\<forall>y \<in> pool_live (ipool st) - nodes A X p. same_node st ?st y"
      using xs by (auto simp: same_node_def dom)
    show "set (p # X p) \<subseteq> nodes A X p \<union> - pool_live (ipool st)" by (auto simp: dom)
  qed (use ok kd in simp_all)
  with set null show ?thesis by auto
qed

text \<open>A new node at the end of a list, as \<open>MPI_Info_set\<close> and \<open>MPI_Info_dup\<close> build it.\<close>

lemma append_node:
  assumes rel: "info_relX st A X" and A: "A p = Some kvs" and kvs: "kvs_ok (kvs @ [(k, v)])"
    and fresh: "calloc_fresh e (MPID_Info_mem st)"
    and al: "MPIU_Handle_obj_alloc e (iheap st) (MPID_Info_mem st) = (h, om, q)" and q0: "q \<noteq> 0"
    and l: "l = last (p # X p)"
  shows "info_relX \<lparr>iheap = h\<lparr>next_of := (next_of h)(l := q, q := 0), key_of := (key_of h)(q := Some k),
      value_of := (value_of h)(q := Some v)\<rparr>, MPID_Info_mem = om\<rparr>
    (A(p \<mapsto> kvs @ [(k, v)])) (X(p := X p @ [q]))"
proof -
  from rel A have chain: "info_chain st p (X p) kvs" and ok: "pool_ok (ipool st)"
    and kd: "om_kind (MPID_Info_mem st) = MPID_INFO" by (auto simp: info_relX_def)
  have p: "p \<in> pool_live (ipool st)" "set (X p) \<subseteq> pool_live (ipool st)"
    "hlist (next_of (iheap st)) p (p # X p)"
    using chain by (simp_all add: info_chain_def)
  note ia = info_alloc[OF ok kd fresh al]
  obtain ys where ys: "p # X p = ys @ [l]" unfolding l by (metis append_butlast_last_id list.distinct(1))
  let ?h = "h\<lparr>next_of := (next_of h)(l := q, q := 0), key_of := (key_of h)(q := Some k),
    value_of := (value_of h)(q := Some v)\<rparr>"
  let ?st = "\<lparr>iheap = ?h, MPID_Info_mem = om\<rparr>"
  have q: "q \<notin> pool_live (ipool st)" using ia q0 by simp
  have alp: "pool_alloc e (ipool st) = ((h, om), q)" using al by (simp add: pool_alloc_def)
  have hl: "hlist (next_of (iheap st)) p (ys @ [l])" and sub: "set (ys @ [l]) \<subseteq> pool_live (ipool st)"
    unfolding ys[symmetric] using p by auto
  have an: "hlist ((next_of h)(l := q, q := 0)) p (ys @ [l, q])
    \<and> pool_ok (?h, om) \<and> pool_live (?h, om) = insert q (pool_live (ipool st))"
    using hm.append_new[OF ok _ alp q0 sub, of p] fresh hl by (simp add: pool_set_link_def)
  have xs: "p # X p @ [q] = ys @ [l, q]" using ys by (metis append_Cons append_assoc append_Nil)
  have "node_data ?h (X p) kvs = node_data (iheap st) (X p) kvs"
    by (rule node_data_cong) (use ia q p in auto)
  with chain have data: "node_data ?h (X p @ [q]) (kvs @ [(k, v)])"
    by (simp add: node_data_append node_data_length info_chain_def)
  have ch: "info_chain ?st p (X p @ [q]) (kvs @ [(k, v)])"
  proof -
    have "set (p # X p @ [q]) \<subseteq> insert q (pool_live (ipool st))" using p by auto
    moreover have "hlist (next_of ?h) p (p # X p @ [q])" unfolding xs using an by simp
    ultimately show ?thesis using an data kvs unfolding info_chain_def by simp
  qed
  have dom: "nodes A X p = set (p # X p)" using A by (auto simp: nodes_def)
  show ?thesis
  proof (rule info_relX_update[OF rel _ _ _ _ ch])
    have "l \<in> set (p # X p)" unfolding ys by simp
    then show "\<forall>y \<in> pool_live (ipool st) - nodes A X p. same_node st ?st y"
      using ia an q unfolding dom same_node_def by auto
    show "set (p # X p @ [q]) \<subseteq> nodes A X p \<union> - pool_live (ipool st)" using q by (auto simp: dom)
  qed (use an ia in simp_all)
qed

lemma alloc_failed:
  assumes "info_relX st A X" "calloc_fresh e (MPID_Info_mem st)"
    and "MPIU_Handle_obj_alloc e (iheap st) (MPID_Info_mem st) = (h, om, 0)"
  shows "info_relX \<lparr>iheap = h, MPID_Info_mem = om\<rparr> A X"
proof -
  have ok: "pool_ok (ipool st)" "om_kind (MPID_Info_mem st) = MPID_INFO"
    using assms(1) by (auto simp: info_relX_def)
  show ?thesis
    by (rule info_relX_same[OF assms(1)]) (use info_alloc[OF ok assms(2,3)] in \<open>auto simp: same_node_def\<close>)
qed

text \<open>The object that the pool gives next, 0 when there is none.\<close>

definition next_info :: "calloc_env \<Rightarrow> info_state \<Rightarrow> nat" where
  "next_info e st = snd (snd (MPIU_Handle_obj_alloc e (iheap st) (MPID_Info_mem st)))"

lemma info_set_append:
  assumes rel: "info_relX st A X" and A: "A p = Some kvs" and k: "0 < length k" "length k \<le> MPI_MAX_INFO_KEY"
    and v: "length v \<le> MPI_MAX_INFO_VAL" and new: "map_of kvs k = None"
    and fresh: "calloc_fresh e (MPID_Info_mem st)"
  shows "\<exists>st' r. MPI_Info_set e dup st (handle_of (iheap st) p) (Some k) (Some v) = Some (st', r)
    \<and> (if next_info e st = 0 then info_relX st' A X \<and> r = Inl (fn_fail ''**mpi_info_set'' (new_error MPI_ERR_OTHER ''**nomem''))
       else r = Inr () \<and> (dup k = Some k \<and> dup v = Some v \<longrightarrow> (\<exists>X'. info_relX st' (A(p \<mapsto> kvs_set k v kvs)) X'))
         \<and> (dup k = None \<or> dup v = None \<longrightarrow> null_node st' p))"
proof -
  from rel A have chain: "info_chain st p (X p) kvs" and ok: "pool_ok (ipool st)"
    and kd: "om_kind (MPID_Info_mem st) = MPID_INFO" by (auto simp: info_relX_def)
  note find = chain_find_absent[OF chain k(2) new]
  have gi: "get_info st (handle_of (iheap st) p) = Inr p"
    by (rule get_info_live[OF ok kd]) (use chain in \<open>simp add: info_chain_def\<close>)
  obtain h om q where al: "MPIU_Handle_obj_alloc e (iheap st) (MPID_Info_mem st) = (h, om, q)"
    by (metis prod_cases3)
  show ?thesis
  proof (cases "q = 0")
    case True
    with alloc_failed[OF rel fresh, of h om] al gi k v find show ?thesis by (simp add: MPI_Info_set_def next_info_def)
  next
    case False
    have kvs: "kvs_set k v kvs = kvs @ [(k, v)]" using new by (simp add: kvs_set_absent map_of_eq_None_iff)
    define l where "l = last (p # X p)"
    have "kvs_ok (kvs @ [(k, v)])" using chain k kvs_ok_set[of kvs k v] unfolding kvs by (simp add: info_chain_def)
    note new = append_node[OF rel A this fresh al False l_def]
    have hl: "hlist ((next_of h)(l := q, q := 0)) p (p # X p @ [q])"
      using new by (auto simp: info_relX_def info_chain_def dest!: spec[of _ p])
    let ?st = "\<lparr>iheap = h\<lparr>next_of := (next_of h)(l := q, q := 0), key_of := (key_of h)(q := dup k),
      value_of := (value_of h)(q := dup v)\<rparr>, MPID_Info_mem = om\<rparr>"
    have set: "MPI_Info_set e dup st (handle_of (iheap st) p) (Some k) (Some v) = Some (?st, Inr ())"
      using gi k v find al False by (simp add: MPI_Info_set_def l_def)
    have null: "null_node ?st p" if "dup k = None \<or> dup v = None"
      unfolding null_node_def by (intro exI[of _ "X p @ [q]"] exI[of _ q]) (use hl that in auto)
    have rel': "\<exists>X'. info_relX ?st (A(p \<mapsto> kvs_set k v kvs)) X'" if "dup k = Some k \<and> dup v = Some v"
      using new that unfolding kvs by auto
    have nz: "next_info e st \<noteq> 0" using al False by (simp add: next_info_def)
    have res: "(dup k = Some k \<and> dup v = Some v \<longrightarrow> (\<exists>X'. info_relX ?st (A(p \<mapsto> kvs_set k v kvs)) X'))
      \<and> (dup k = None \<or> dup v = None \<longrightarrow> null_node ?st p)" using null rel' by blast
    show ?thesis unfolding if_not_P[OF nz] by (intro exI[of _ ?st] exI[of _ "Inr ()"] conjI set refl res[THEN conjunct1] res[THEN conjunct2])
  qed
qed

text \<open>Removing a node.\<close>

lemma info_delete_rel:
  assumes rel: "info_relX st A X" and A: "A p = Some kvs" and k: "0 < length k" "length k \<le> MPI_MAX_INFO_KEY"
    and old: "map_of kvs k = Some w"
  shows "\<exists>st' X'. MPI_Info_delete st (handle_of (iheap st) p) (Some k) = Some (st', Inr ())
    \<and> info_relX st' (A(p \<mapsto> kvs_delete k kvs)) X'
    \<and> (\<exists>x. x \<in> pool_live (ipool st) \<and> key_of (iheap st) x = Some k \<and> pool_live (ipool st') = pool_live (ipool st) - {x})"
proof -
  from rel A have chain: "info_chain st p (X p) kvs" and ok: "pool_ok (ipool st)"
    and kd: "om_kind (MPID_Info_mem st) = MPID_INFO" by (auto simp: info_relX_def)
  from chain_find_present[OF chain k(2) old] obtain us x vs ks rest where xs: "X p = us @ x # vs"
    and kvs: "kvs = ks @ (k, w) # rest" "length us = length ks" "k \<notin> fst ` set ks"
    and find: "info_find (iheap st) k p (next_of (iheap st) p) = Some (last (p # us), x)" .
  have hl: "hlist (next_of (iheap st)) p (p # us @ x # vs)"
    and live: "set (p # us @ x # vs) \<subseteq> pool_live (ipool st)"
    using chain xs by (simp_all add: info_chain_def)
  note d = hlist_distinct[OF hl]
  have x0: "x \<noteq> 0" using hlist_nonzero[OF hl] by auto
  define l where "l = last (p # us)"
  obtain ys where ys: "p # us = ys @ [l]" unfolding l_def by (metis append_butlast_last_id list.distinct(1))
  have l: "l \<in> set (p # us)" unfolding ys by simp
  have lx: "l \<noteq> x" "l \<in> pool_live (ipool st)" using l d live by auto
  have gi: "get_info st (handle_of (iheap st) p) = Inr p"
    by (rule get_info_live[OF ok kd]) (use live in simp)
  let ?s1 = "pool_set_link l (next_of (iheap st) x) (ipool st)"
  obtain h2 om2 where s2: "pool_free x ?s1 = (h2, om2)" by fastforce
  let ?st = "\<lparr>iheap = h2, MPID_Info_mem = om2\<rparr>"
  have del: "MPI_Info_delete st (handle_of (iheap st) p) (Some k) = Some (?st, Inr ())"
    using gi k find x0 s2 by (simp add: MPI_Info_delete_def pool_free_def pool_set_link_def l_def)
  have ok1: "pool_ok ?s1" and live1: "pool_live ?s1 = pool_live (ipool st)"
    using hm.set_link_inv[OF ok lx(2)] hm.set_link_live[OF ok lx(2)] by auto
  have x1: "x \<in> pool_live ?s1" using live1 live by simp
  have ok2: "pool_ok (h2, om2)" and live2: "pool_live (h2, om2) = pool_live (ipool st) - {x}"
    using hm.free_inv[OF ok1 x1] hm.free_live[OF ok1 x1] live1 s2 by auto
  have nx2: "next_of h2 y = ((next_of (iheap st))(l := next_of (iheap st) x)) y" if "y \<noteq> x" for y
    using hm.free_frame[OF ok1 x1 that] s2 by (simp add: pool_set_link_def)
  have "pool_rest (h2, om2) = pool_rest (ipool st)"
    using hm.free_rest[of x ?s1] s2 by (simp add: pool_rest_def pool_set_link_def)
  then have str: "key_of h2 = key_of (iheap st)" "value_of h2 = value_of (iheap st)" and kd2: "om_kind om2 = MPID_INFO"
    using heap_eta[of h2 "iheap st"] kd by (simp_all add: pool_rest_def)
  have "hlist (next_of (iheap st)) p (ys @ l # x # vs)" using hl ys by (metis append_Cons append_assoc append_Nil)
  from hlist_unlink_inner[OF this]
  have "hlist ((next_of (iheap st))(l := next_of (iheap st) x)) p (p # us @ vs)"
    using ys by (metis append_Cons append_assoc append_Nil)
  moreover have "hlist (next_of h2) p (p # us @ vs) = hlist ((next_of (iheap st))(l := next_of (iheap st) x)) p (p # us @ vs)"
  proof (rule hlist_cong)
    fix y assume "y \<in> set (p # us @ vs)"
    then have "y \<noteq> x" using d by auto
    then show "next_of h2 y = ((next_of (iheap st))(l := next_of (iheap st) x)) y" by (rule nx2)
  qed
  ultimately have hl2: "hlist (next_of h2) p (p # us @ vs)" by simp
  have "node_data (iheap st) (us @ vs) (ks @ rest)" using chain xs kvs by (simp add: info_chain_def node_data_append)
  then have "node_data h2 (us @ vs) (ks @ rest)" using node_data_cong[of "us @ vs" h2 "iheap st"] str by auto
  moreover have "kvs_ok (ks @ rest)" using chain kvs kvs_ok_append by (auto simp: info_chain_def)
  ultimately have ch: "info_chain ?st p (us @ vs) (kvs_delete k kvs)"
    using hl2 live2 live d by (auto simp: info_chain_def kvs kvs_delete_present)
  have dom: "nodes A X p = set (p # us @ x # vs)" using A xs by (auto simp: nodes_def)
  have "info_relX ?st (A(p \<mapsto> kvs_delete k kvs)) (X(p := us @ vs))"
  proof (rule info_relX_update[OF rel _ _ _ _ ch])
    show "\<forall>y \<in> pool_live (ipool st) - nodes A X p. same_node st ?st y"
      using nx2 l str live2 unfolding dom same_node_def by auto
  qed (use ok2 kd2 dom in auto)
  moreover have "x \<in> pool_live (ipool st)" using live by simp
  moreover have "key_of (iheap st) x = Some k"
    using chain xs kvs by (auto simp: info_chain_def node_data_append)
  moreover have "pool_live (ipool ?st) = pool_live (ipool st) - {x}" using live2 by simp
  ultimately show ?thesis using del by blast
qed

lemma info_create_rel:
  assumes rel: "info_relX st A X" and fresh: "calloc_fresh e (MPID_Info_mem st)"
    and cr: "MPI_Info_create e st = (st', r)"
  shows "(\<forall>info. r = Inr info \<longrightarrow> (\<exists>p. p \<notin> pool_live (ipool st) \<and> info = handle_of (iheap st') p
        \<and> info_relX st' (A(p \<mapsto> [])) (X(p := []))))
    \<and> (\<forall>er. r = Inl er \<longrightarrow> er = fn_fail ''**mpi_info_create'' (new_error MPI_ERR_OTHER ''**nomem'')
        \<and> info_relX st' A X)"
proof -
  from rel have ok: "pool_ok (ipool st)" and kd: "om_kind (MPID_Info_mem st) = MPID_INFO" by (auto simp: info_relX_def)
  obtain h om q where al: "MPIU_Handle_obj_alloc e (iheap st) (MPID_Info_mem st) = (h, om, q)"
    by (metis prod_cases3)
  note ia = info_alloc[OF ok kd fresh al]
  show ?thesis
  proof (cases "q = 0")
    case True
    with alloc_failed[OF rel fresh, of h om] al cr show ?thesis by (auto simp: MPI_Info_create_def)
  next
    case False
    let ?h = "h\<lparr>key_of := (key_of h)(q := None), value_of := (value_of h)(q := None), next_of := (next_of h)(q := 0)\<rparr>"
    let ?st = "\<lparr>iheap = ?h, MPID_Info_mem = om\<rparr>"
    have st': "st' = ?st" "r = Inr (handle_of h q)" using cr al False by (auto simp: MPI_Info_create_def)
    have q: "q \<notin> pool_live (ipool st)" "q \<in> pool_live (h, om)" using ia False by auto
    have eqh: "?h = h\<lparr>next_of := (next_of h)(q := 0), key_of := (key_of h)(q := None), value_of := (value_of h)(q := None)\<rparr>" by simp
    have okh: "pool_ok (?h, om)" "pool_live (?h, om) = pool_live (h, om)"
      unfolding eqh pool_strings
      using hm.set_link_inv[of "(h, om)" q 0] hm.set_link_live[of "(h, om)" q 0] ia q
      by (simp_all add: pool_set_link_def)
    have ch: "info_chain ?st q [] []" using okh q False by (simp add: info_chain_def kvs_ok_def)
    have dom: "nodes A X q = {}"
    proof -
      have "q \<notin> dom A" using chain_live[OF rel, of q] q(1) by (auto simp: nodes_def split: if_splits)
      then show ?thesis by (simp add: nodes_def)
    qed
    have "info_relX ?st (A(q \<mapsto> [])) (X(q := []))"
    proof (rule info_relX_update[OF rel _ _ _ _ ch])
      show "\<forall>y \<in> pool_live (ipool st) - nodes A X q. same_node st ?st y"
        using ia okh q unfolding same_node_def by auto
    qed (use okh ia q in auto)
    with st' q show ?thesis by auto
  qed
qed

lemma info_last_eq: "hlist (next_of h) c xs \<Longrightarrow> info_last h c l = Some (last (l # xs))"
proof (induction xs arbitrary: c l)
  case Nil
  then show ?case by (simp add: info_last.simps)
next
  case (Cons x xs)
  then have "c = x" "x \<noteq> 0" "hlist (next_of h) (next_of h x) xs" by auto
  with Cons.IH[of "next_of h x" x] show ?case by (simp add: info_last.simps)
qed

lemma info_free_rel:
  assumes rel: "info_relX st A X" and A: "A p = Some kvs"
  shows "\<exists>st'. MPI_Info_free st (handle_of (iheap st) p) = Some (st', Inr MPI_INFO_NULL)
    \<and> info_relX st' (A(p := None)) X
    \<and> pool_live (ipool st') = pool_live (ipool st) - set (p # X p)"
proof -
  from rel A have chain: "info_chain st p (X p) kvs" and ok: "pool_ok (ipool st)"
    and kd: "om_kind (MPID_Info_mem st) = MPID_INFO" by (auto simp: info_relX_def)
  from ok obtain fs where inv: "pool_inv (iheap st) (MPID_Info_mem st) fs" by (auto simp: pool_ok_def)
  have hl: "hlist (next_of (iheap st)) p (p # X p)" and live: "set (p # X p) \<subseteq> pool_live (ipool st)"
    using chain by (simp_all add: info_chain_def)
  have gi: "get_info st (handle_of (iheap st) p) = Inr p"
    by (rule get_info_live[OF ok kd]) (use live in simp)
  define l where "l = last (p # X p)"
  obtain ys where ys: "p # X p = ys @ [l]" unfolding l_def by (metis append_butlast_last_id list.distinct(1))
  let ?h = "(iheap st)\<lparr>next_of := (next_of (iheap st))(l := om_avail (MPID_Info_mem st))\<rparr>"
  let ?om = "(MPID_Info_mem st)\<lparr>om_avail := p\<rparr>"
  let ?st = "\<lparr>iheap = ?h, MPID_Info_mem = ?om\<rparr>"
  have "info_last (iheap st) (next_of (iheap st) p) p = Some l"
    using hl info_last_eq[of "iheap st" "next_of (iheap st) p" "X p" p] by (simp add: l_def)
  with gi have fr: "MPI_Info_free st (handle_of (iheap st) p) = Some (?st, Inr MPI_INFO_NULL)"
    by (simp add: MPI_Info_free_def MPIU_Info_free_def Let_def)
  have "set (ys @ [l]) \<subseteq> set (pool_objs (MPID_Info_mem st)) - set fs" "hlist (next_of (iheap st)) p (ys @ [l])"
    unfolding ys[symmetric] using live pool_live_eq[OF inv] hl by auto
  note inv' = free_list_spec[OF inv this]
  have "set (ys @ l # fs) = set (p # X p) \<union> set fs" unfolding ys by simp
  then have live': "pool_live (?h, ?om) = pool_live (ipool st) - set (p # X p)"
    unfolding pool_live_eq[OF inv'] pool_live_eq[OF inv] by auto
  have dom: "nodes A X p = set (p # X p)" using A by (auto simp: nodes_def)
  have "l \<in> set (p # X p)" unfolding ys by simp
  have "info_relX ?st (A(p := None)) X"
  proof (rule info_relX_remove[OF rel])
    show "\<forall>x \<in> pool_live (ipool st) - nodes A X p. same_node st ?st x"
      using live' \<open>l \<in> set (p # X p)\<close> unfolding dom same_node_def by auto
    show "pool_ok (ipool ?st)" using inv' by (auto simp: pool_ok_def)
  qed (use kd in simp)
  with fr live' show ?thesis by auto
qed

text \<open>Duplicating a list.\<close>

lemma info_relX_chain: "info_relX st A X \<Longrightarrow> A p = Some kvs \<Longrightarrow> info_chain st p (X p) kvs"
  by (simp add: info_relX_def)

lemma kvs_ok_prefix: "kvs_ok (ks @ (k, v) # ls) \<Longrightarrow> kvs_ok (ks @ [(k, v)])"
  by (auto simp: kvs_ok_def)

lemma dup_loop_rel:
  assumes fresh: "\<And>n om. calloc_fresh (es n om) om"
  shows "info_relX st (A(q \<mapsto> ks)) X \<Longrightarrow> A p = Some (ks @ ls) \<Longrightarrow> p \<noteq> q \<Longrightarrow> X p = us @ ys
    \<Longrightarrow> length us = length ks \<Longrightarrow> hlist (next_of (iheap st)) old ys \<Longrightarrow> new = last (q # X q)
    \<Longrightarrow> \<exists>st' nomem X' ks'. dup_loop es Some n st old new = Some (st', nomem)
      \<and> info_relX st' (A(q \<mapsto> ks')) X' \<and> (\<not> nomem \<longrightarrow> ks' = ks @ ls)
      \<and> (\<forall>x \<in> pool_live (ipool st). x \<in> pool_live (ipool st') \<and> handle_of (iheap st') x = handle_of (iheap st) x)"
proof (induction ls arbitrary: st ks X us ys old new n)
  case Nil
  have "info_chain st p (X p) ks" using info_relX_chain[OF Nil.prems(1), of p ks] Nil.prems(2,3) by simp
  then have "length (X p) = length ks" by (auto simp: info_chain_def dest: node_data_length)
  with Nil.prems have "ys = []" "old = 0" by (auto simp: hlist.simps)
  with Nil.prems show ?case by (auto simp: dup_loop.simps)
next
  case (Cons kv ls)
  obtain k v where kv: "kv = (k, v)" by (cases kv)
  let ?A = "A(q \<mapsto> ks)"
  note rel = Cons.prems(1)
  have chp: "info_chain st p (us @ ys) (ks @ (k, v) # ls)"
    using info_relX_chain[OF rel, of p] Cons.prems(2-4) kv by simp
  then have "length (us @ ys) = length (ks @ (k, v) # ls)" by (auto simp: info_chain_def dest: node_data_length)
  with Cons.prems(5) obtain y ys' where ys: "ys = y # ys'" by (cases ys) auto
  from chp have y: "key_of (iheap st) y = Some k" "value_of (iheap st) y = Some v"
    using Cons.prems(5) by (simp_all add: info_chain_def node_data_append ys)
  have yl: "y \<in> pool_live (ipool st)" "set ys' \<subseteq> pool_live (ipool st)" using chp by (simp_all add: info_chain_def ys)
  have old: "old = y" "y \<noteq> 0" "hlist (next_of (iheap st)) (next_of (iheap st) y) ys'"
    using Cons.prems(6) ys by auto
  have ok: "pool_ok (ipool st)" "om_kind (MPID_Info_mem st) = MPID_INFO" using rel by (auto simp: info_relX_def)
  obtain h om r where al: "MPIU_Handle_obj_alloc (es n (MPID_Info_mem st)) (iheap st) (MPID_Info_mem st) = (h, om, r)"
    by (metis prod_cases3)
  note ia = info_alloc[OF ok fresh al]
  show ?case
  proof (cases "r = 0")
    case True
    have "info_chain st q (X q) ks" using info_relX_chain[OF rel, of q] by simp
    then have hlq: "hlist (next_of (iheap st)) q (q # X q)" and "new \<in> pool_live (ipool st)"
      using Cons.prems(7) last_in_set[of "q # X q"] by (auto simp: info_chain_def)
    obtain zs where "q # X q = zs @ [new]" using Cons.prems(7) by (metis append_butlast_last_id list.distinct(1))
    then have "next_of (iheap st) new = 0" using hlist_next[of "next_of (iheap st)" q zs new "[]"] hlq by simp
    then have "next_of h new = 0" using ia \<open>new \<in> pool_live (ipool st)\<close> by simp
    then have "(next_of h)(new := 0) = next_of h" by (simp add: fun_upd_idem)
    then have "dup_loop es Some n st old new = Some (\<lparr>iheap = h, MPID_Info_mem = om\<rparr>, True)"
      using al old True by (subst dup_loop.simps) (simp add: Let_def)
    moreover have "info_relX \<lparr>iheap = h, MPID_Info_mem = om\<rparr> ?A X"
      by (rule alloc_failed[OF rel fresh]) (use al True in simp)
    moreover have "\<forall>x \<in> pool_live (ipool st). x \<in> pool_live (h, om) \<and> handle_of h x = handle_of (iheap st) x"
      using ia True by simp
    ultimately show ?thesis
      by (intro exI[of _ "\<lparr>iheap = h, MPID_Info_mem = om\<rparr>"] exI[of _ True] exI[of _ X] exI[of _ ks])
        (simp del: fun_upd_apply)
  next
    case False
    let ?h = "h\<lparr>next_of := (next_of h)(new := r, r := 0), key_of := (key_of h)(r := Some k),
      value_of := (value_of h)(r := Some v)\<rparr>"
    let ?st = "\<lparr>iheap = ?h, MPID_Info_mem = om\<rparr>"
    have r: "r \<notin> pool_live (ipool st)" using ia False by simp
    have kok: "kvs_ok (ks @ [(k, v)])" using chp kvs_ok_prefix by (auto simp: info_chain_def)
    have Aq: "?A q = Some ks" by simp
    from append_node[OF rel Aq kok fresh al False Cons.prems(7)]
    have rel': "info_relX ?st (A(q \<mapsto> ks @ [(k, v)])) (X(q := X q @ [r]))"
      by (simp only: fun_upd_upd)
    have "p \<in> dom ?A" "q \<in> dom ?A" using Cons.prems(2) by auto
    then have "set (p # X p) \<inter> set (q # X q) = {}"
      using rel Cons.prems(3) unfolding info_relX_def by metis
    moreover have nq: "new \<in> set (q # X q)" unfolding Cons.prems(7) by (rule last_in_set) simp
    moreover have "set (q # X q) \<subseteq> pool_live (ipool st)"
      using info_relX_chain[OF rel Aq] by (simp add: info_chain_def)
    ultimately have new: "new \<notin> set (us @ ys)" "new \<in> pool_live (ipool st)"
      using Cons.prems(4) by auto
    then have nxt: "next_of ?h z = next_of (iheap st) z" if "z \<in> set ys" for z
      using that ia yl r ys by auto
    have hl: "hlist (next_of ?h) (next_of ?h y) ys'"
    proof -
      have "hlist (next_of ?h) (next_of (iheap st) y) ys' = hlist (next_of (iheap st)) (next_of (iheap st) y) ys'"
        by (rule hlist_cong) (rule nxt, simp add: ys)
      with nxt[of y] old ys show ?thesis by simp
    qed
    have step: "dup_loop es Some n st old new = dup_loop es Some (n + 1) ?st (next_of ?h y) r"
    proof -
      let ?h1 = "h\<lparr>next_of := (next_of h)(new := r)\<rparr>"
      let ?h2 = "?h1\<lparr>key_of := (key_of ?h1)(r := Some (the (key_of ?h1 old))),
        value_of := (value_of ?h1)(r := Some (the (value_of ?h1 old))), next_of := (next_of ?h1)(r := 0)\<rparr>"
      have "?h2 = ?h" using y ia old by (intro info_heap.equality) simp_all
      moreover have "dup_loop es Some n st old new
          = dup_loop es Some (n + 1) \<lparr>iheap = ?h2, MPID_Info_mem = om\<rparr> (next_of ?h2 old) r"
        using al old False by (subst dup_loop.simps) (simp only: Let_def prod.case if_False)
      ultimately show ?thesis using old by simp
    qed
    have IH: "\<exists>st' nomem X' ks'. dup_loop es Some (n + 1) ?st (next_of ?h y) r = Some (st', nomem)
      \<and> info_relX st' (A(q \<mapsto> ks')) X' \<and> (\<not> nomem \<longrightarrow> ks' = (ks @ [(k, v)]) @ ls)
      \<and> (\<forall>x \<in> pool_live (ipool ?st). x \<in> pool_live (ipool st') \<and> handle_of (iheap st') x = handle_of (iheap ?st) x)"
    proof (rule Cons.IH)
      show "info_relX ?st (A(q \<mapsto> ks @ [(k, v)])) (X(q := X q @ [r]))" by (rule rel')
      show "A p = Some ((ks @ [(k, v)]) @ ls)" using Cons.prems(2) kv by simp
      show "p \<noteq> q" by fact
      show "(X(q := X q @ [r])) p = (us @ [y]) @ ys'" using Cons.prems(3,4) ys by simp
      show "length (us @ [y]) = length (ks @ [(k, v)])" using Cons.prems(5) by simp
      show "hlist (next_of (iheap ?st)) (next_of ?h y) ys'" using hl by simp
      show "r = last (q # (X(q := X q @ [r])) q)" by simp
    qed
    have "pool_live (ipool st) \<subseteq> pool_live (ipool ?st)"
    proof -
      have "new \<in> pool_live (h, om)" using ia False new by simp
      from hm.set_link_live[OF _ this, of r] hm.set_link_inv[OF _ this, of r] ia False
      have "pool_live (h\<lparr>next_of := (next_of h)(new := r)\<rparr>, om) = insert r (pool_live (ipool st))"
        "pool_ok (h\<lparr>next_of := (next_of h)(new := r)\<rparr>, om)" by (simp_all add: pool_set_link_def)
      with hm.set_link_live[of "(h\<lparr>next_of := (next_of h)(new := r)\<rparr>, om)" r 0]
      show ?thesis by (auto simp: pool_set_link_def)
    qed
    moreover have "\<forall>x \<in> pool_live (ipool st). handle_of ?h x = handle_of (iheap st) x" using ia by simp
    moreover obtain st' nomem X' ks' where "dup_loop es Some (n + 1) ?st (next_of ?h y) r = Some (st', nomem)"
      "info_relX st' (A(q \<mapsto> ks')) X'" "\<not> nomem \<longrightarrow> ks' = (ks @ [(k, v)]) @ ls"
      "\<forall>x \<in> pool_live (ipool ?st). x \<in> pool_live (ipool st') \<and> handle_of (iheap st') x = handle_of (iheap ?st) x"
      using IH by blast
    ultimately show ?thesis using step kv
      by (intro exI[of _ st'] exI[of _ nomem] exI[of _ X'] exI[of _ ks']) (auto simp del: fun_upd_apply)
  qed
qed

lemma info_dup_rel:
  assumes rel: "info_relX st A X" and A: "A p = Some kvs" and fresh: "\<And>n om. calloc_fresh (es n om) om"
    and mem: "snd (snd (MPIU_Handle_obj_alloc (es 0 (MPID_Info_mem st)) (iheap st) (MPID_Info_mem st))) \<noteq> 0"
  shows "\<exists>st' r q X' ks. MPI_Info_dup es Some st (handle_of (iheap st) p) = Some (st', r)
    \<and> q \<notin> pool_live (ipool st) \<and> info_relX st' (A(q \<mapsto> ks)) X'
    \<and> (r = Inr (handle_of (iheap st') q) \<and> ks = kvs
       \<or> r = Inl (fn_fail ''**mpi_info_dup'' (new_error MPI_ERR_OTHER ''**nomem'')))"
proof -
  from rel have ok: "pool_ok (ipool st)" and kd: "om_kind (MPID_Info_mem st) = MPID_INFO" by (auto simp: info_relX_def)
  note chp = info_relX_chain[OF rel A]
  have gi: "get_info st (handle_of (iheap st) p) = Inr p"
    by (rule get_info_live[OF ok kd]) (use chp in \<open>simp add: info_chain_def\<close>)
  obtain h om q where al: "MPIU_Handle_obj_alloc (es 0 (MPID_Info_mem st)) (iheap st) (MPID_Info_mem st) = (h, om, q)"
    by (metis prod_cases3)
  with mem have q0: "q \<noteq> 0" by simp
  let ?h = "h\<lparr>key_of := (key_of h)(q := None), value_of := (value_of h)(q := None), next_of := (next_of h)(q := 0)\<rparr>"
  let ?st = "\<lparr>iheap = ?h, MPID_Info_mem = om\<rparr>"
  have cr: "MPI_Info_create (es 0 (MPID_Info_mem st)) st = (?st, Inr (handle_of h q))"
    using al q0 by (simp add: MPI_Info_create_def)
  note ia = info_alloc[OF ok kd fresh al]
  have q: "q \<notin> pool_live (ipool st)" using ia q0 by simp
  from info_create_rel[OF rel fresh cr] obtain q' where q': "handle_of h q = handle_of ?h q'"
    "q' \<notin> pool_live (ipool st)" "info_relX ?st (A(q' \<mapsto> [])) (X(q' := []))" by auto
  have "q' = q"
  proof -
    have q'l: "q' \<in> pool_live (ipool ?st)" and ok': "pool_ok (ipool ?st)" "om_kind (MPID_Info_mem ?st) = MPID_INFO"
      using info_relX_chain[OF q'(3), of q' "[]"] q'(3) by (auto simp: info_chain_def info_relX_def)
    have "q \<in> pool_live (ipool ?st)"
    proof -
      have eqh: "?h = h\<lparr>next_of := (next_of h)(q := 0), key_of := (key_of h)(q := None), value_of := (value_of h)(q := None)\<rparr>" by simp
      have "pool_live (?h, om) = pool_live (h, om)"
        unfolding eqh pool_strings using hm.set_link_live[of "(h, om)" q 0] ia q0 by (simp add: pool_set_link_def)
      with ia q0 show ?thesis by simp
    qed
    with hm.name_inj[OF ok'(1) q'l, of q] q'(1) show ?thesis by simp
  qed
  with q' have rel': "info_relX ?st (A(q \<mapsto> [])) (X(q := []))" by simp
  have pq: "p \<noteq> q" using q chp by (auto simp: info_chain_def)
  have chp': "info_chain ?st p (X p) kvs" using info_relX_chain[OF rel', of p kvs] A pq by simp
  have "\<exists>st' nomem X' ks'. dup_loop es Some 1 ?st (next_of ?h p) q = Some (st', nomem)
      \<and> info_relX st' (A(q \<mapsto> ks')) X' \<and> (\<not> nomem \<longrightarrow> ks' = [] @ kvs)
      \<and> (\<forall>x \<in> pool_live (ipool ?st). x \<in> pool_live (ipool st') \<and> handle_of (iheap st') x = handle_of (iheap ?st) x)"
  proof (rule dup_loop_rel[OF fresh rel'])
    show "(X(q := [])) p = [] @ X p" using pq by simp
    show "hlist (next_of (iheap ?st)) (next_of ?h p) (X p)" using chp' by (simp add: info_chain_def)
  qed (use A pq in simp_all)
  then obtain st' nomem X' ks' where dl: "dup_loop es Some 1 ?st (next_of ?h p) q = Some (st', nomem)"
    "info_relX st' (A(q \<mapsto> ks')) X'" "\<not> nomem \<longrightarrow> ks' = kvs"
    "\<forall>x \<in> pool_live (ipool ?st). x \<in> pool_live (ipool st') \<and> handle_of (iheap st') x = handle_of (iheap ?st) x"
    by auto
  have "q \<in> pool_live (ipool ?st)" using info_relX_chain[OF rel', of q "[]"] by (simp add: info_chain_def)
  with dl(4) have "handle_of (iheap st') q = handle_of h q" by simp
  moreover define r where "r = (if nomem then Inl (fn_fail ''**mpi_info_dup'' (new_error MPI_ERR_OTHER ''**nomem''))
    else Inr (handle_of h q))"
  moreover have "MPI_Info_dup es Some st (handle_of (iheap st) p) = Some (st', r)"
    using gi al q0 dl(1) by (simp add: MPI_Info_dup_def Let_def r_def)
  ultimately show ?thesis using q dl(2,3)
    by (intro exI[of _ st'] exI[of _ r] exI[of _ q] exI[of _ X'] exI[of _ ks'])
       (auto simp del: fun_upd_apply)
qed

section \<open>Reading an info object\<close>

lemma info_count_eq: "hlist (next_of h) c xs \<Longrightarrow> info_count h c n = Some (n + int (length xs))"
proof (induction xs arbitrary: c n)
  case Nil
  then show ?case by (simp add: info_count.simps)
next
  case (Cons x xs)
  then have "c = x" "x \<noteq> 0" "hlist (next_of h) (next_of h x) xs" by auto
  with Cons.IH[of "next_of h x" "n + 1"] show ?case by (simp add: info_count.simps)
qed

lemma info_nth_eq:
  "hlist (next_of h) c xs \<Longrightarrow> info_nth h c k n =
     Some (if k \<le> n \<and> n < k + int (length xs) then xs ! nat (n - k) else 0)"
proof (induction xs arbitrary: c k)
  case Nil
  then show ?case by (auto simp: info_nth.simps)
next
  case (Cons x xs)
  then have c: "c = x" "x \<noteq> 0" "hlist (next_of h) (next_of h x) xs" by auto
  show ?case
  proof (cases "k = n")
    case True
    with c show ?thesis by (simp add: info_nth.simps)
  next
    case False
    have "k + 1 \<le> n \<Longrightarrow> nat (n - k) = Suc (nat (n - (k + 1)))" by simp
    with False c Cons.IH[OF c(3), of "k + 1"] show ?thesis by (auto simp: info_nth.simps)
  qed
qed

section \<open>Properties\<close>

text \<open>
  The pool of infoutil.c before any call, with its direct block at \<open>dir\<close>, and a small state
  with one info object at address 1000, its only node at 1040 and one free object.
\<close>

definition MPID_Info_mem_init :: "nat \<Rightarrow> nat \<Rightarrow> MPIU_Object_alloc_t" where
  "MPID_Info_mem_init osize dir = new_pool MPID_INFO osize dir 8"

lemma info_rel_init:
  assumes "0 < osize" "dir \<noteq> 0"
  shows "info_rel \<lparr>iheap = h, MPID_Info_mem = MPID_Info_mem_init osize dir\<rparr> Map.empty"
  using new_pool_inv[of MPID_INFO osize dir 8 h] assms
  by (auto simp: info_rel_def info_relX_def pool_ok_def MPID_Info_mem_init_def new_pool_def)

definition sample_info :: info_state where
  "sample_info = \<lparr>iheap = \<lparr>handle_of = (\<lambda>_. 0)(1000 := direct_handle MPID_INFO 0,
       1040 := direct_handle MPID_INFO 1, 1080 := direct_handle MPID_INFO 2),
     next_of = (\<lambda>_. 0)(1000 := 1040), key_of = (\<lambda>_. None)(1040 := Some ''host''),
     value_of = (\<lambda>_. None)(1040 := Some ''node7'')\<rparr>,
     MPID_Info_mem = \<lparr>om_avail = 1080, om_initialized = True, om_indirect = None, om_indirect_size = 0,
       om_kind = MPID_INFO, om_size = 40, om_direct = 1000, om_direct_size = 3\<rparr>\<rparr>"

lemma less_3_cases: "(i::nat) < 3 \<Longrightarrow> i = 0 \<or> i = 1 \<or> i = 2"
  by auto

lemma sample_info_relX: "info_relX sample_info [1000 \<mapsto> [(''host'', ''node7'')]] (\<lambda>_. [1040])"
proof -
  let ?om = "MPID_Info_mem sample_info" let ?h = "iheap sample_info"
  have objs: "pool_objs ?om = [1000, 1040, 1080]" "all_objs ?om = [1000, 1040, 1080]" "blocks ?om = []"
    by (simp_all add: sample_info_def pool_objs_def all_objs_def blocks_def block_objs_def numeral_3_eq_3)
  have inv: "pool_inv ?h ?om [1080]"
    using objs by (auto simp: pool_inv_def pool_wf_def handles_ok_def) (auto simp: sample_info_def dest!: less_3_cases)
  have "pool_live (ipool sample_info) = {1000, 1040}"
    unfolding pool_live_eq[OF inv] objs by auto
  moreover have "pool_ok (ipool sample_info)" using inv by (auto simp: pool_ok_def)
  moreover have "hlist (next_of ?h) 1000 [1000, 1040]" "om_kind ?om = MPID_INFO"
    "node_data ?h [1040] [(''host'', ''node7'')]" by (simp_all add: sample_info_def)
  ultimately show ?thesis by (auto simp: info_relX_def info_chain_def kvs_ok_def split: if_splits)
qed

lemma sample_info_rel: "info_rel sample_info [1000 \<mapsto> [(''host'', ''node7'')]]"
  using sample_info_relX unfolding info_rel_def by blast

lemma sample_handle: "handle_of (iheap sample_info) 1000 = direct_handle MPID_INFO 0"
  by (simp add: sample_info_def)

text \<open>
  C36: \<open>MPI_Info_set\<close> on an info object replaces the value of the key where the list has it and appends the
  pair otherwise, leaving every other info object as it is. It fails exactly when the key is new and the
  pool has no node for it, with the abstract state unchanged. The copies of the key and the value are not
  tested: without memory for one, it reports success and leaves a node with a null pointer in the list.
\<close>

theorem MPI_Info_set_refines:
  assumes "info_rel st A" "A p = Some kvs" "0 < length k" "length k \<le> MPI_MAX_INFO_KEY"
    and "length v \<le> MPI_MAX_INFO_VAL" "calloc_fresh e (MPID_Info_mem st)" "\<forall>s. dup s = None \<or> dup s = Some s"
  shows "\<exists>st' r. MPI_Info_set e dup st (handle_of (iheap st) p) (Some k) (Some v) = Some (st', r)
    \<and> (if map_of kvs k = None \<and> next_info e st = 0
       then r = Inl (fn_fail ''**mpi_info_set'' (new_error MPI_ERR_OTHER ''**nomem'')) \<and> info_rel st' A
       else r = Inr () \<and>
         (if dup v = None \<or> map_of kvs k = None \<and> dup k = None then null_node st' p
          else info_rel st' (A(p \<mapsto> kvs_set k v kvs)) \<and> map_of (kvs_set k v kvs) = (map_of kvs)(k \<mapsto> v)))"
proof -
  from assms(1) obtain X where rel: "info_relX st A X" by (auto simp: info_rel_def)
  have dup: "dup s = None \<or> dup s = Some s" for s using assms(7) by blast
  show ?thesis
  proof (cases "map_of kvs k")
    case None
    from info_set_append[OF rel assms(2-5) None assms(6), of dup] obtain st' r where
      set: "MPI_Info_set e dup st (handle_of (iheap st) p) (Some k) (Some v) = Some (st', r)"
      and r: "if next_info e st = 0 then info_relX st' A X \<and> r = Inl (fn_fail ''**mpi_info_set'' (new_error MPI_ERR_OTHER ''**nomem''))
       else r = Inr () \<and> (dup k = Some k \<and> dup v = Some v \<longrightarrow> (\<exists>X'. info_relX st' (A(p \<mapsto> kvs_set k v kvs)) X'))
         \<and> (dup k = None \<or> dup v = None \<longrightarrow> null_node st' p)" by blast
    show ?thesis
    proof (cases "next_info e st = 0")
      case True
      with r have "info_rel st' A" unfolding info_rel_def by auto
      with set r None True show ?thesis by (intro exI[of _ st'] exI[of _ r]) simp
    next
      case False
      have "info_rel st' (A(p \<mapsto> kvs_set k v kvs))" if "\<not> (dup v = None \<or> dup k = None)"
      proof -
        have "dup k = Some k \<and> dup v = Some v" using that dup[of k] dup[of v] by (cases "dup k"; cases "dup v") simp_all
        then show ?thesis using r False unfolding info_rel_def by simp
      qed
      with set r None False show ?thesis by (intro exI[of _ st'] exI[of _ r]) (simp add: map_of_kvs_set)
    qed
  next
    case (Some w)
    obtain st' where st': "MPI_Info_set e dup st (handle_of (iheap st) p) (Some k) (Some v) = Some (st', Inr ())
        \<and> (dup v = Some v \<longrightarrow> info_relX st' (A(p \<mapsto> kvs_set k v kvs)) X) \<and> (dup v = None \<longrightarrow> null_node st' p)"
      by (rule exE[OF info_set_replace[OF rel assms(2-5) Some, of e dup]])
    note set = st'[THEN conjunct1] and ok = st'[THEN conjunct2, THEN conjunct1] and bad = st'[THEN conjunct2, THEN conjunct2]
    have "info_rel st' (A(p \<mapsto> kvs_set k v kvs))" if "dup v \<noteq> None"
    proof -
      have "dup v = Some v" using that dup[of v] by (cases "dup v") simp_all
      then show ?thesis unfolding info_rel_def by (intro exI[of _ X] ok[rule_format])
    qed
    with set bad Some show ?thesis
      by (intro exI[of _ st'] exI[of _ "Inr ()"]) (simp add: map_of_kvs_set)
  qed
qed

lemma sample_next: "next_info \<lparr>table_ok = False, new_block = 0\<rparr> sample_info = 1080"
  by (simp add: next_info_def sample_info_def MPIU_Handle_obj_alloc_def)

text \<open>A new key, an old key, and a new key without memory for the copies.\<close>

theorem MPI_Info_set_refines_witness:
  "(\<exists>st'. MPI_Info_set \<lparr>table_ok = False, new_block = 0\<rparr> Some sample_info (direct_handle MPID_INFO 0)
      (Some ''port'') (Some ''77'') = Some (st', Inr ())
      \<and> info_rel st' ([1000 \<mapsto> [(''host'', ''node7''), (''port'', ''77'')]]))
    \<and> (\<exists>st'. MPI_Info_set \<lparr>table_ok = False, new_block = 0\<rparr> Some sample_info (direct_handle MPID_INFO 0)
      (Some ''host'') (Some ''node8'') = Some (st', Inr ()) \<and> info_rel st' ([1000 \<mapsto> [(''host'', ''node8'')]]))
    \<and> (\<exists>st'. MPI_Info_set \<lparr>table_ok = False, new_block = 0\<rparr> (\<lambda>_. None) sample_info (direct_handle MPID_INFO 0)
      (Some ''port'') (Some ''77'') = Some (st', Inr ()) \<and> null_node st' 1000)"
  using MPI_Info_set_refines[OF sample_info_rel, of 1000 "[(''host'', ''node7'')]" "''port''" "''77''"
      "\<lparr>table_ok = False, new_block = 0\<rparr>" Some]
    MPI_Info_set_refines[OF sample_info_rel, of 1000 "[(''host'', ''node7'')]" "''host''" "''node8''"
      "\<lparr>table_ok = False, new_block = 0\<rparr>" Some]
    MPI_Info_set_refines[OF sample_info_rel, of 1000 "[(''host'', ''node7'')]" "''port''" "''77''"
      "\<lparr>table_ok = False, new_block = 0\<rparr>" "\<lambda>_. None"]
  by (simp_all add: calloc_fresh_def sample_handle sample_next) blast

text \<open>
  C37: \<open>MPI_Info_delete\<close> removes the pair of the key and returns its node, and no other object, to the pool; a key
  that is not there is the error \<open>MPI_ERR_INFO_NOKEY\<close> and changes nothing.
\<close>

theorem MPI_Info_delete_refines:
  assumes "info_rel st A" "A p = Some kvs" "0 < length k" "length k \<le> MPI_MAX_INFO_KEY"
  shows "\<exists>st' r. MPI_Info_delete st (handle_of (iheap st) p) (Some k) = Some (st', r)
    \<and> (if k \<in> fst ` set kvs
       then r = Inr () \<and> info_rel st' (A(p \<mapsto> kvs_delete k kvs)) \<and> map_of (kvs_delete k kvs) = (map_of kvs)(k := None)
         \<and> (\<exists>x. x \<in> pool_live (ipool st) \<and> key_of (iheap st) x = Some k \<and> pool_live (ipool st') = pool_live (ipool st) - {x})
       else r = Inl (Err MPI_ERR_INFO_NOKEY [''**mpi_info_delete'', ''**infonokey'']) \<and> st' = st)"
proof -
  from assms(1) obtain X where rel: "info_relX st A X" by (auto simp: info_rel_def)
  note chain = info_relX_chain[OF rel assms(2)]
  have "distinct (map fst kvs)" using chain by (simp add: info_chain_def kvs_ok_def)
  note del = map_of_kvs_delete[OF this, of k]
  show ?thesis
  proof (cases "map_of kvs k")
    case None
    have "get_info st (handle_of (iheap st) p) = Inr p"
      using rel chain by (intro get_info_live) (auto simp: info_relX_def info_chain_def)
    with chain_find_absent[OF chain assms(4) None] assms(3,4) None show ?thesis
      by (simp add: MPI_Info_delete_def map_of_eq_None_iff fn_fail_def create_code_def)
  next
    case (Some w)
    then have "k \<in> fst ` set kvs" by (metis map_of_eq_None_iff option.distinct(1))
    with info_delete_rel[OF rel assms(2-4) Some] del show ?thesis
      unfolding info_rel_def by auto
  qed
qed

theorem MPI_Info_delete_refines_witness:
  "\<exists>st' x. MPI_Info_delete sample_info (direct_handle MPID_INFO 0) (Some ''host'') = Some (st', Inr ())
    \<and> info_rel st' [1000 \<mapsto> []] \<and> x \<in> pool_live (ipool sample_info) \<and> x \<notin> pool_live (ipool st')"
  using MPI_Info_delete_refines[OF sample_info_rel, of 1000 "[(''host'', ''node7'')]" "''host''"]
  by (auto simp: sample_handle)

text \<open>
  \<open>MPI_Info_get\<close> sets the flag exactly for a key the object has and then leaves a
  terminated copy of as much of its value as the buffer of \<open>valuelen\<close> bytes holds, storing
  nothing outside the buffer; for any other key memory is untouched.
\<close>

theorem MPI_Info_get_correct:
  assumes "info_rel st A" "A p = Some kvs" "0 < length k" "length k \<le> MPI_MAX_INFO_KEY" "1 \<le> valuelen"
  shows "\<exists>m'. MPI_Info_get st m (handle_of (iheap st) p) (Some k) valuelen (Some buf)
      = Some (m', Inr (k \<in> fst ` set kvs))
    \<and> (\<forall>x. x < buf \<or> buf + valuelen \<le> x \<longrightarrow> m' x = m x)
    \<and> (case map_of kvs k of None \<Rightarrow> m' = m | Some v \<Rightarrow> cstring m' buf (take (nat (valuelen - 1)) v))"
proof -
  from assms(1) obtain X where rel: "info_relX st A X" by (auto simp: info_rel_def)
  note chain = info_relX_chain[OF rel assms(2)]
  have gi: "get_info st (handle_of (iheap st) p) = Inr p"
    using rel chain by (intro get_info_live) (auto simp: info_relX_def info_chain_def)
  show ?thesis
  proof (cases "map_of kvs k")
    case None
    then have "k \<notin> fst ` set kvs" by (simp add: map_of_eq_None_iff)
    with chain_find_absent[OF chain assms(4) None] gi assms(3-5) None show ?thesis
      by (simp add: MPI_Info_get_def check_valbuf_def)
  next
    case (Some v)
    from chain_find_present[OF chain assms(4) Some] obtain us x vs ks rest where xs: "X p = us @ x # vs"
      and kvs: "kvs = ks @ (k, v) # rest" "length us = length ks"
      and find: "info_find (iheap st) k p (next_of (iheap st) p) = Some (last (p # us), x)" .
    have "x \<noteq> 0" using chain xs hlist_nonzero[of "next_of (iheap st)" p "p # X p"] by (auto simp: info_chain_def)
    moreover have "value_of (iheap st) x = Some v"
      using chain kvs by (simp add: info_chain_def xs node_data_append)
    ultimately have get: "MPI_Info_get st m (handle_of (iheap st) p) (Some k) valuelen (Some buf)
        = Some (fst (MPIU_Strncpy m buf v valuelen), Inr True)"
      using gi find assms(3-5) by (simp add: MPI_Info_get_def check_valbuf_def)
    let ?t = "take (nat (valuelen - 1)) v"
    have m': "fst (MPIU_Strncpy m buf v valuelen) = (wr m buf ?t)(buf + int (length ?t) := NUL)"
      by (simp only: MPIU_Strncpy_eq[OF assms(5)] Let_def fst_conv)
    have "cstring (fst (MPIU_Strncpy m buf v valuelen)) buf ?t" unfolding m' by (rule cstring_wr_nul)
    moreover have "fst (MPIU_Strncpy m buf v valuelen) y = m y" if "y < buf \<or> buf + valuelen \<le> y" for y
      using that assms(5) unfolding m' by (auto simp: wr_outside)
    moreover have "k \<in> fst ` set kvs" using kvs by force
    ultimately show ?thesis using get Some by auto
  qed
qed

theorem MPI_Info_get_correct_witness:
  "\<exists>m'. MPI_Info_get sample_info (\<lambda>_. NUL) (direct_handle MPID_INFO 0) (Some ''host'') 10 (Some 500) = Some (m', Inr True)
    \<and> cstring m' 500 ''node7''"
  using MPI_Info_get_correct[OF sample_info_rel, of 1000 "[(''host'', ''node7'')]" "''host''" 10 "\<lambda>_. NUL" 500]
  by (auto simp: sample_handle)

text \<open>
  With \<open>valuelen = 0\<close>, which the argument check lets pass, \<open>MPI_Info_get\<close> of a key the
  object has stores a NUL in front of the caller's buffer.
\<close>

theorem MPI_Info_get_zero_length_underflow:
  assumes "info_rel st A" "A p = Some kvs" "0 < length k" "length k \<le> MPI_MAX_INFO_KEY" "k \<in> fst ` set kvs"
  shows "MPI_Info_get st m (handle_of (iheap st) p) (Some k) 0 (Some buf) = Some (m(buf - 1 := NUL), Inr True)"
proof -
  from assms(1) obtain X where rel: "info_relX st A X" by (auto simp: info_rel_def)
  note chain = info_relX_chain[OF rel assms(2)]
  have gi: "get_info st (handle_of (iheap st) p) = Inr p"
    using rel chain by (intro get_info_live) (auto simp: info_relX_def info_chain_def)
  from assms(5) obtain v where "map_of kvs k = Some v" by (metis map_of_eq_None_iff not_None_eq)
  from chain_find_present[OF chain assms(4) this] obtain us x vs ks rest where xs: "X p = us @ x # vs"
    and kvs: "kvs = ks @ (k, v) # rest" "length us = length ks"
    and find: "info_find (iheap st) k p (next_of (iheap st) p) = Some (last (p # us), x)" .
  have "x \<noteq> 0" using chain xs hlist_nonzero[of "next_of (iheap st)" p "p # X p"] by (auto simp: info_chain_def)
  moreover have "value_of (iheap st) x = Some v"
    using chain kvs by (simp add: info_chain_def xs node_data_append)
  moreover have "MPIU_Strncpy m buf v 0 = (m(buf - 1 := NUL), 1)" by (cases v) (simp_all add: MPIU_Strncpy_def)
  ultimately show ?thesis using gi find assms(3,4) by (simp add: MPI_Info_get_def check_valbuf_def)
qed

theorem MPI_Info_get_zero_length_underflow_witness:
  "MPI_Info_get sample_info (\<lambda>_. NUL) (direct_handle MPID_INFO 0) (Some ''host'') 0 (Some 500) = Some ((\<lambda>_. NUL)(499 := NUL), Inr True)"
  using MPI_Info_get_zero_length_underflow[OF sample_info_rel, of 1000 "[(''host'', ''node7'')]" "''host''" "\<lambda>_. NUL" 500]
  by (simp add: sample_handle)

text \<open>
  \<open>MPI_Info_get_nkeys\<close> counts the pairs, and \<open>MPI_Info_get_nthkey\<close> gives, for each number
  below that count and for no other, the key of that pair, terminated in the caller's buffer
  of \<open>MPI_MAX_INFO_KEY + 1\<close> bytes; any other number is \<open>MPI_ERR_ARG\<close>.
\<close>

theorem MPI_Info_get_nkeys_nthkey:
  assumes "info_rel st A" "A p = Some kvs"
  shows "MPI_Info_get_nkeys st (handle_of (iheap st) p) = Some (Inr (int (length kvs)))
    \<and> (\<exists>m' r. MPI_Info_get_nthkey st m (handle_of (iheap st) p) n (Some buf) = Some (m', r)
        \<and> (if 0 \<le> n \<and> n < int (length kvs) then r = Inr () \<and> cstring m' buf (fst (kvs ! nat n))
           else r = Inl (Err MPI_ERR_ARG [''**mpi_info_get_nthkey'', ''**infonkey'']) \<and> m' = m))"
proof -
  from assms(1) obtain X where rel: "info_relX st A X" by (auto simp: info_rel_def)
  note chain = info_relX_chain[OF rel assms(2)]
  have gi: "get_info st (handle_of (iheap st) p) = Inr p"
    using rel chain by (intro get_info_live) (auto simp: info_relX_def info_chain_def)
  have hl: "hlist (next_of (iheap st)) (next_of (iheap st) p) (X p)" and nd: "node_data (iheap st) (X p) kvs"
    and nz: "0 \<notin> set (X p)" and kok: "kvs_ok kvs"
    using chain hlist_nonzero[of "next_of (iheap st)" p "p # X p"] by (auto simp: info_chain_def)
  note len = node_data_length[OF nd]
  have count: "MPI_Info_get_nkeys st (handle_of (iheap st) p) = Some (Inr (int (length kvs)))"
    using gi info_count_eq[OF hl, of 0] len by (simp add: MPI_Info_get_nkeys_def)
  note nth = info_nth_eq[OF hl, of 0 n]
  show ?thesis
  proof (cases "0 \<le> n \<and> n < int (length kvs)")
    case True
    then have i: "nat n < length kvs" by auto
    with nz len have "X p ! nat n \<noteq> 0" by (metis nth_mem)
    have "map (key_of (iheap st)) (X p) ! nat n = map (Some \<circ> fst) kvs ! nat n" using nd by (simp add: node_data_def)
    with i len have key: "key_of (iheap st) (X p ! nat n) = Some (fst (kvs ! nat n))" by simp
    have "fst (kvs ! nat n) \<in> fst ` set kvs" using i by simp
    with kvs_ok_lengths[OF kok] have kl: "length (fst (kvs ! nat n)) \<le> 255" by blast
    have "fst (MPIU_Strncpy m buf (fst (kvs ! nat n)) 256)
        = (wr m buf (fst (kvs ! nat n)))(buf + int (length (fst (kvs ! nat n))) := NUL)"
      using kl by (simp add: MPIU_Strncpy_fits)
    then have "cstring (fst (MPIU_Strncpy m buf (fst (kvs ! nat n)) 256)) buf (fst (kvs ! nat n))"
      by (simp only: cstring_wr_nul)
    with count True gi nth len key \<open>X p ! nat n \<noteq> 0\<close> show ?thesis by (simp add: MPI_Info_get_nthkey_def)
  next
    case False
    with nth len have "info_nth (iheap st) (next_of (iheap st) p) 0 n = Some 0" by auto
    with count False gi show ?thesis
      by (simp add: MPI_Info_get_nthkey_def fn_fail_def create_code_def)
  qed
qed

theorem MPI_Info_get_nkeys_nthkey_witness:
  "MPI_Info_get_nkeys sample_info (direct_handle MPID_INFO 0) = Some (Inr 1)"
  using MPI_Info_get_nkeys_nthkey[OF sample_info_rel, of 1000 "[(''host'', ''node7'')]"] by (simp add: sample_handle)

text \<open>
  \<open>MPI_Info_dup\<close> makes a new info object with the same pairs in the same order, on nodes of
  its own, and changes no other; when an allocation fails on the way it reports that. The
  first allocation is not checked by the code, which the hypothesis on it excludes.
\<close>

theorem MPI_Info_dup_refines:
  assumes "info_rel st A" "A p = Some kvs" "\<And>n om. calloc_fresh (es n om) om"
    and "snd (snd (MPIU_Handle_obj_alloc (es 0 (MPID_Info_mem st)) (iheap st) (MPID_Info_mem st))) \<noteq> 0"
  shows "\<exists>st' r q ks. MPI_Info_dup es Some st (handle_of (iheap st) p) = Some (st', r)
    \<and> q \<notin> dom A \<and> info_rel st' (A(q \<mapsto> ks))
    \<and> (r = Inr (handle_of (iheap st') q) \<and> ks = kvs
       \<or> r = Inl (fn_fail ''**mpi_info_dup'' (new_error MPI_ERR_OTHER ''**nomem'')))"
proof -
  from assms(1) obtain X where rel: "info_relX st A X" by (auto simp: info_rel_def)
  from info_dup_rel[where es = es, OF rel assms(2,3,4)] obtain st' r q X' ks where
    d: "MPI_Info_dup es Some st (handle_of (iheap st) p) = Some (st', r)" "q \<notin> pool_live (ipool st)"
    "info_relX st' (A(q \<mapsto> ks)) X'"
    "r = Inr (handle_of (iheap st') q) \<and> ks = kvs
       \<or> r = Inl (fn_fail ''**mpi_info_dup'' (new_error MPI_ERR_OTHER ''**nomem''))" by blast
  have "q \<notin> dom A" using d(2) chain_live[OF rel, of q] by (auto simp: nodes_def split: if_splits)
  with d show ?thesis unfolding info_rel_def by blast
qed

theorem MPI_Info_dup_refines_witness:
  "\<exists>st' r q ks. MPI_Info_dup (\<lambda>n om. \<lparr>table_ok = False, new_block = 0\<rparr>) Some sample_info (direct_handle MPID_INFO 0)
      = Some (st', r) \<and> q \<noteq> 1000 \<and> info_rel st' ([1000 \<mapsto> [(''host'', ''node7'')], q \<mapsto> ks])"
proof -
  have "snd (snd (MPIU_Handle_obj_alloc \<lparr>table_ok = False, new_block = 0\<rparr> (iheap sample_info) (MPID_Info_mem sample_info))) \<noteq> 0"
    by (simp add: MPIU_Handle_obj_alloc_def sample_info_def)
  then have mem: "snd (snd (MPIU_Handle_obj_alloc ((\<lambda>n om. \<lparr>table_ok = False, new_block = 0\<rparr>) (0::nat) (MPID_Info_mem sample_info))
      (iheap sample_info) (MPID_Info_mem sample_info))) \<noteq> 0" by simp
  from MPI_Info_dup_refines[where es = "\<lambda>n om. \<lparr>table_ok = False, new_block = 0\<rparr>",
      OF sample_info_rel _ _ mem, of 1000 "[(''host'', ''node7'')]"]
  show ?thesis by (auto simp: sample_handle calloc_fresh_def)
qed

text \<open>
  \<open>MPI_Info_create\<close> gives a handle for a new, empty info object, and \<open>MPI_Info_free\<close> takes
  an object away, sets the caller's handle to \<open>MPI_INFO_NULL\<close> and returns its head and all its
  nodes to the pool; neither touches another object.
\<close>

theorem MPI_Info_create_free_refine:
  assumes "info_rel st A" "calloc_fresh e (MPID_Info_mem st)"
  shows "(\<forall>st' info. MPI_Info_create e st = (st', Inr info)
       \<longrightarrow> (\<exists>p. p \<notin> dom A \<and> info = handle_of (iheap st') p \<and> info_rel st' (A(p \<mapsto> []))))
    \<and> (\<forall>p kvs. A p = Some kvs \<longrightarrow>
        (\<exists>st'. MPI_Info_free st (handle_of (iheap st) p) = Some (st', Inr MPI_INFO_NULL)
           \<and> info_rel st' (A(p := None))
           \<and> card (pool_live (ipool st')) = card (pool_live (ipool st)) - (length kvs + 1)))"
proof -
  from assms(1) obtain X where rel: "info_relX st A X" by (auto simp: info_rel_def)
  have 1: "\<exists>p. p \<notin> dom A \<and> info = handle_of (iheap st') p \<and> info_rel st' (A(p \<mapsto> []))"
    if "MPI_Info_create e st = (st', Inr info)" for st' info
  proof -
    from info_create_rel[OF rel assms(2) that] obtain p where p: "p \<notin> pool_live (ipool st)"
      "info = handle_of (iheap st') p" "info_relX st' (A(p \<mapsto> [])) (X(p := []))" by blast
    then have "p \<notin> dom A" using chain_live[OF rel, of p] by (auto simp: nodes_def split: if_splits)
    with p show ?thesis unfolding info_rel_def by blast
  qed
  have 2: "\<exists>st'. MPI_Info_free st (handle_of (iheap st) p) = Some (st', Inr MPI_INFO_NULL)
      \<and> info_rel st' (A(p := None)) \<and> card (pool_live (ipool st')) = card (pool_live (ipool st)) - (length kvs + 1)"
    if A: "A p = Some kvs" for p kvs
  proof -
    note chain = info_relX_chain[OF rel A]
    from info_free_rel[OF rel A] obtain st' where st': "MPI_Info_free st (handle_of (iheap st) p) = Some (st', Inr MPI_INFO_NULL)"
      "info_relX st' (A(p := None)) X" "pool_live (ipool st') = pool_live (ipool st) - set (p # X p)" by blast
    have "set (p # X p) \<subseteq> pool_live (ipool st)" "distinct (p # X p)" "length (X p) = length kvs"
      using chain hlist_distinct node_data_length unfolding info_chain_def by blast+
    then have "card (pool_live (ipool st')) = card (pool_live (ipool st)) - (length kvs + 1)"
      unfolding st'(3) by (subst card_Diff_subset) (auto simp: distinct_card)
    with st' show ?thesis unfolding info_rel_def by blast
  qed
  from 1 2 show ?thesis by blast
qed

theorem MPI_Info_create_free_refine_witness:
  "\<exists>st'. MPI_Info_free sample_info (direct_handle MPID_INFO 0) = Some (st', Inr MPI_INFO_NULL) \<and> info_rel st' Map.empty"
proof -
  have none: "[1000 \<mapsto> [(''host'', ''node7'')]](1000 := None) = Map.empty" by (simp add: fun_upd_idem)
  have "calloc_fresh \<lparr>table_ok = False, new_block = 0\<rparr> (MPID_Info_mem sample_info)" by (simp add: calloc_fresh_def)
  from MPI_Info_create_free_refine[OF sample_info_rel this, THEN conjunct2, rule_format, of 1000 "[(''host'', ''node7'')]"]
  show ?thesis unfolding none sample_handle by auto
qed

end
