(* ===== verification/Recvq.thy ===== *)
theory Recvq
  imports HandleMem
begin

unbundle bit_operations_syntax

text \<open>
  The receive queues of src/src/mpid/ch3/src/ch3u_recvq.c: the posted receives and the
  unexpected messages, two lists of request objects linked through \<open>dev.next\<close>, each with a
  head and a tail pointer. The theory models the five search, dequeue and enqueue routines on
  the request heap and shows that they implement a pair of first-in first-out lists, in which no
  posted receive ever accepts a message that waits in the unexpected queue.
\<close>

section \<open>State\<close>

text \<open>\<open>MPIDI_Message_match\<close> of mpidpre.h, with the widths of its fields.\<close>

record message_match =
  m_tag :: "32 word"
  m_rank :: "16 word"
  m_ctx :: "16 word"

abbreviation MPI_ANY_SOURCE :: "32 word" where "MPI_ANY_SOURCE \<equiv> - 2"
abbreviation MPI_ANY_TAG :: "32 word" where "MPI_ANY_TAG \<equiv> - 1"

record mpi_status =
  st_SOURCE :: int
  st_TAG :: int
  st_count :: int
  st_cancelled :: bool
  st_ERROR :: int

text \<open>
  The other fields of a request that \<open>MPIDI_Request_create_rreq\<close> sets; \<open>rq_cc_ptr\<close> is the
  request whose counter \<open>cc_ptr\<close> points at, pointers are addresses.
\<close>

datatype request_kind = MPID_REQUEST_UNDEFINED | MPID_REQUEST_RECV | MPID_REQUEST_SEND

record request_body =
  rq_ref_count :: int
  rq_kind :: request_kind
  rq_comm :: nat
  rq_cc :: int
  rq_cc_ptr :: nat
  rq_status :: mpi_status
  rq_state :: "32 word"
  rq_cancel_pending :: bool
  rq_datatype_ptr :: nat
  rq_segment_ptr :: nat
  rq_iov_offset :: int

record request_heap = handle_heap +
  dev_match :: "nat \<Rightarrow> message_match"
  dev_next :: "nat \<Rightarrow> nat"
  sender_req_id :: "nat \<Rightarrow> handle"
  body :: "nat \<Rightarrow> request_body"

record recvq_state =
  rheap :: request_heap
  MPID_Request_mem :: MPIU_Object_alloc_t
  recvq_posted_head :: nat
  recvq_posted_tail :: nat
  recvq_unexpected_head :: nat
  recvq_unexpected_tail :: nat

section \<open>The comparisons\<close>

text \<open>
  The loop for a receive without wildcards compares \<open>int\<close> arguments with the narrower fields,
  which are promoted.
\<close>

definition exact_match :: "32 word \<Rightarrow> 32 word \<Rightarrow> 32 word \<Rightarrow> message_match \<Rightarrow> bool" where
  "exact_match source tag context_id m \<longleftrightarrow>
     scast (m_ctx m) = context_id \<and> scast (m_rank m) = source \<and> m_tag m = tag"

text \<open>With a wildcard the arguments are first stored in a match and a mask.\<close>

definition wild_masks :: "32 word \<Rightarrow> 32 word \<Rightarrow> 32 word \<Rightarrow> message_match \<times> message_match" where
  "wild_masks source tag context_id =
     (let (mt, kt) = (if tag = MPI_ANY_TAG then (0, 0) else (tag, NOT 0));
          (mr, kr) = (if source = MPI_ANY_SOURCE then (0, 0) else (ucast source, NOT 0)) in
      (\<lparr>m_tag = mt, m_rank = mr, m_ctx = ucast context_id\<rparr>,
       \<lparr>m_tag = kt, m_rank = kr, m_ctx = NOT 0\<rparr>))"

definition masked_match :: "message_match \<times> message_match \<Rightarrow> message_match \<Rightarrow> bool" where
  "masked_match mm m \<longleftrightarrow> m_ctx m = m_ctx (fst mm)
     \<and> m_rank m AND m_rank (snd mm) = m_rank (fst mm)
     \<and> m_tag m AND m_tag (snd mm) = m_tag (fst mm)"

text \<open>The two branches of a search for an unexpected message.\<close>

definition recv_accepts :: "32 word \<Rightarrow> 32 word \<Rightarrow> 32 word \<Rightarrow> message_match \<Rightarrow> bool" where
  "recv_accepts source tag context_id m =
     (if tag \<noteq> MPI_ANY_TAG \<and> source \<noteq> MPI_ANY_SOURCE then exact_match source tag context_id m
      else masked_match (wild_masks source tag context_id) m)"

text \<open>The comparison of a posted receive \<open>r\<close> with the match of an arriving message.\<close>

definition posted_accepts :: "message_match \<Rightarrow> message_match \<Rightarrow> bool" where
  "posted_accepts r m \<longleftrightarrow> m_ctx r = m_ctx m
     \<and> (m_rank r = m_rank m \<or> scast (m_rank r) = MPI_ANY_SOURCE)
     \<and> (m_tag r = m_tag m \<or> m_tag r = MPI_ANY_TAG)"

section \<open>The routines\<close>

text \<open>
  The search loops, with the previous request behind the current one. A loop over a cyclic
  list does not end: \<open>None\<close>.
\<close>

partial_function (option) rq_search :: "(nat \<Rightarrow> nat) \<Rightarrow> (nat \<Rightarrow> bool) \<Rightarrow> nat \<Rightarrow> nat \<Rightarrow> (nat \<times> nat) option" where
  "rq_search nx accept prev_rreq rreq =
     (if rreq = 0 then Some (prev_rreq, 0)
      else if accept rreq then Some (prev_rreq, rreq)
      else rq_search nx accept rreq (nx rreq))"

text \<open>The loop of \<open>MPIDI_CH3U_Recvq_FDU\<close> does not stop at a match: the last one counts.\<close>

partial_function (option) rq_search_last :: "(nat \<Rightarrow> nat) \<Rightarrow> (nat \<Rightarrow> bool) \<Rightarrow> nat \<Rightarrow> nat \<Rightarrow> nat \<times> nat
    \<Rightarrow> (nat \<times> nat) option" where
  "rq_search_last nx accept prev_rreq cur_rreq matching =
     (if cur_rreq = 0 then Some matching
      else rq_search_last nx accept cur_rreq (nx cur_rreq)
             (if accept cur_rreq then (prev_rreq, cur_rreq) else matching))"

definition set_dev_next :: "nat \<Rightarrow> nat \<Rightarrow> recvq_state \<Rightarrow> recvq_state" where
  "set_dev_next p v st = st\<lparr>rheap := (rheap st)\<lparr>dev_next := (dev_next (rheap st))(p := v)\<rparr>\<rparr>"

definition unexp_unlink :: "nat \<Rightarrow> nat \<Rightarrow> recvq_state \<Rightarrow> recvq_state" where
  "unexp_unlink prev_rreq rreq st =
     (let st1 = (if prev_rreq \<noteq> 0 then set_dev_next prev_rreq (dev_next (rheap st) rreq) st
                 else st\<lparr>recvq_unexpected_head := dev_next (rheap st) rreq\<rparr>) in
      if dev_next (rheap st1) rreq = 0 then st1\<lparr>recvq_unexpected_tail := prev_rreq\<rparr> else st1)"

definition posted_unlink :: "nat \<Rightarrow> nat \<Rightarrow> recvq_state \<Rightarrow> recvq_state" where
  "posted_unlink prev_rreq rreq st =
     (let st1 = (if prev_rreq \<noteq> 0 then set_dev_next prev_rreq (dev_next (rheap st) rreq) st
                 else st\<lparr>recvq_posted_head := dev_next (rheap st) rreq\<rparr>) in
      if dev_next (rheap st1) rreq = 0 then st1\<lparr>recvq_posted_tail := prev_rreq\<rparr> else st1)"

definition unexp_append :: "nat \<Rightarrow> recvq_state \<Rightarrow> recvq_state" where
  "unexp_append rreq st =
     (let st1 = set_dev_next rreq 0 st;
          st2 = (if recvq_unexpected_tail st1 \<noteq> 0 then set_dev_next (recvq_unexpected_tail st1) rreq st1
                 else st1\<lparr>recvq_unexpected_head := rreq\<rparr>) in
      st2\<lparr>recvq_unexpected_tail := rreq\<rparr>)"

definition posted_append :: "nat \<Rightarrow> recvq_state \<Rightarrow> recvq_state" where
  "posted_append rreq st =
     (let st1 = set_dev_next rreq 0 st;
          st2 = (if recvq_posted_tail st1 \<noteq> 0 then set_dev_next (recvq_posted_tail st1) rreq st1
                 else st1\<lparr>recvq_posted_head := rreq\<rparr>) in
      st2\<lparr>recvq_posted_tail := rreq\<rparr>)"

text \<open>\<open>MPIDI_Request_create_rreq\<close> of mpidimpl.h; 0 when there is no request to be had.\<close>

definition init_rreq :: "nat \<Rightarrow> request_body \<Rightarrow> request_body" where
  "init_rreq p b = b\<lparr>rq_ref_count := 2, rq_kind := MPID_REQUEST_RECV, rq_comm := 0, rq_cc := 1, rq_cc_ptr := p,
     rq_status := (rq_status b)\<lparr>st_ERROR := 0, st_cancelled := False\<rparr>, rq_state := 0,
     rq_cancel_pending := False, rq_datatype_ptr := 0, rq_segment_ptr := 0, rq_iov_offset := 0\<rparr>"

definition MPIDI_Request_create_rreq :: "calloc_env \<Rightarrow> recvq_state \<Rightarrow> recvq_state \<times> nat" where
  "MPIDI_Request_create_rreq e st =
     (case MPIU_Handle_obj_alloc e (rheap st) (MPID_Request_mem st) of (h, om, p) \<Rightarrow>
        if p = 0 then (st\<lparr>rheap := h, MPID_Request_mem := om\<rparr>, 0)
        else (st\<lparr>rheap := h\<lparr>body := (body h)(p := init_rreq p (body h p))\<rparr>, MPID_Request_mem := om\<rparr>, p))"

definition set_match :: "nat \<Rightarrow> message_match \<Rightarrow> recvq_state \<Rightarrow> recvq_state" where
  "set_match p m st = st\<lparr>rheap := (rheap st)\<lparr>dev_match := (dev_match (rheap st))(p := m)\<rparr>\<rparr>"

text \<open>The status argument is \<open>None\<close> for \<open>MPI_STATUS_IGNORE\<close>.\<close>

definition MPIDI_CH3U_Recvq_FU :: "recvq_state \<Rightarrow> 32 word \<Rightarrow> 32 word \<Rightarrow> 32 word \<Rightarrow> mpi_status option
    \<Rightarrow> (bool \<times> mpi_status option) option" where
  "MPIDI_CH3U_Recvq_FU st source tag context_id s =
     (case rq_search (dev_next (rheap st)) (\<lambda>p. recv_accepts source tag context_id (dev_match (rheap st) p))
             0 (recvq_unexpected_head st) of
        None \<Rightarrow> None
      | Some (_, rreq) \<Rightarrow>
          if rreq \<noteq> 0 then
            (let t = rq_status (body (rheap st) rreq) in
             Some (True, map_option (\<lambda>u. u\<lparr>st_SOURCE := st_SOURCE t, st_TAG := st_TAG t,
               st_count := st_count t, st_cancelled := st_cancelled t\<rparr>) s))
          else Some (False, s))"

definition MPIDI_CH3U_Recvq_FDU :: "recvq_state \<Rightarrow> handle \<Rightarrow> message_match
    \<Rightarrow> (recvq_state \<times> nat) option" where
  "MPIDI_CH3U_Recvq_FDU st sreq_id m =
     (case rq_search_last (dev_next (rheap st))
             (\<lambda>p. sender_req_id (rheap st) p = sreq_id \<and> m_ctx (dev_match (rheap st) p) = m_ctx m
                \<and> m_rank (dev_match (rheap st) p) = m_rank m \<and> m_tag (dev_match (rheap st) p) = m_tag m)
             0 (recvq_unexpected_head st) (0, 0) of
        None \<Rightarrow> None
      | Some (prev_rreq, rreq) \<Rightarrow>
          if rreq \<noteq> 0 then Some (unexp_unlink prev_rreq rreq st, rreq) else Some (st, 0))"

definition MPIDI_CH3U_Recvq_FDU_or_AEP :: "calloc_env \<Rightarrow> recvq_state \<Rightarrow> 32 word \<Rightarrow> 32 word \<Rightarrow> 32 word
    \<Rightarrow> (recvq_state \<times> nat \<times> bool) option" where
  "MPIDI_CH3U_Recvq_FDU_or_AEP e st source tag context_id =
     (case rq_search (dev_next (rheap st)) (\<lambda>p. recv_accepts source tag context_id (dev_match (rheap st) p))
             0 (recvq_unexpected_head st) of
        None \<Rightarrow> None
      | Some (prev_rreq, rreq) \<Rightarrow>
          if rreq \<noteq> 0 then Some (unexp_unlink prev_rreq rreq st, rreq, True)
          else
            (case MPIDI_Request_create_rreq e st of (st1, p) \<Rightarrow>
               if p = 0 then Some (st1, 0, False)
               else Some (posted_append p
                      (set_match p \<lparr>m_tag = tag, m_rank = ucast source, m_ctx = ucast context_id\<rparr> st1),
                    p, False)))"

definition MPIDI_CH3U_Recvq_DP :: "recvq_state \<Rightarrow> nat \<Rightarrow> (recvq_state \<times> bool) option" where
  "MPIDI_CH3U_Recvq_DP st rreq =
     (case rq_search (dev_next (rheap st)) (\<lambda>p. p = rreq) 0 (recvq_posted_head st) of
        None \<Rightarrow> None
      | Some (prev_rreq, cur_rreq) \<Rightarrow>
          if cur_rreq \<noteq> 0 then Some (posted_unlink prev_rreq cur_rreq st, True) else Some (st, False))"

definition MPIDI_CH3U_Recvq_FDP_or_AEU :: "calloc_env \<Rightarrow> recvq_state \<Rightarrow> message_match
    \<Rightarrow> (recvq_state \<times> nat \<times> bool) option" where
  "MPIDI_CH3U_Recvq_FDP_or_AEU e st m =
     (case rq_search (dev_next (rheap st)) (\<lambda>p. posted_accepts (dev_match (rheap st) p) m)
             0 (recvq_posted_head st) of
        None \<Rightarrow> None
      | Some (prev_rreq, rreq) \<Rightarrow>
          if rreq \<noteq> 0 then Some (posted_unlink prev_rreq rreq st, rreq, True)
          else
            (case MPIDI_Request_create_rreq e st of (st1, p) \<Rightarrow>
               if p = 0 then Some (st1, 0, False)
               else Some (unexp_append p (set_match p m st1), p, False)))"


section \<open>The queues as lists\<close>

text \<open>The last address of a list, 0 when it is empty: what a tail pointer holds.\<close>

abbreviation lastp :: "nat list \<Rightarrow> nat" where
  "lastp xs \<equiv> List.last (0 # xs)"

fun take_first :: "('a \<Rightarrow> bool) \<Rightarrow> 'a list \<Rightarrow> ('a list \<times> 'a \<times> 'a list) option" where
  "take_first P [] = None"
| "take_first P (x # xs) =
     (if P x then Some ([], x, xs)
      else (case take_first P xs of None \<Rightarrow> None | Some (us, y, vs) \<Rightarrow> Some (x # us, y, vs)))"

lemma take_first_None: "take_first P xs = None \<longleftrightarrow> (\<forall>x \<in> set xs. \<not> P x)"
  by (induction xs) (auto split: option.splits)

lemma take_first_Some:
  "take_first P xs = Some (us, y, vs) \<longleftrightarrow> xs = us @ y # vs \<and> P y \<and> (\<forall>x \<in> set us. \<not> P x)"
proof (induction xs arbitrary: us)
  case Nil
  then show ?case by simp
next
  case (Cons x xs)
  note IH = Cons.IH
  show ?case
  proof (cases us)
    case Nil
    then show ?thesis by (auto split: option.splits)
  next
    case (Cons u us')
    with IH[of us'] show ?thesis by (cases "take_first P xs") auto
  qed
qed

lemma take_first_map:
  "take_first P (map f xs) =
     (case take_first (\<lambda>x. P (f x)) xs of None \<Rightarrow> None | Some (us, y, vs) \<Rightarrow> Some (map f us, f y, map f vs))"
  by (induction xs) (auto split: option.splits)

lemma take_first_cong: "(\<And>x. x \<in> set xs \<Longrightarrow> P x = Q x) \<Longrightarrow> take_first P xs = take_first Q xs"
  by (induction xs) (auto split: option.splits)

lemma take_first_length: "take_first P xs = Some (us, y, vs) \<Longrightarrow> length us + length vs < length xs"
  by (simp add: take_first_Some)

lemma rq_search_spec:
  "hlist nx cur xs \<Longrightarrow> rq_search nx accept prev_rreq cur =
     Some (case take_first accept xs of None \<Rightarrow> (List.last (prev_rreq # xs), 0)
           | Some (us, y, vs) \<Rightarrow> (List.last (prev_rreq # us), y))"
proof (induction xs arbitrary: prev_rreq cur)
  case Nil
  then show ?case by (subst rq_search.simps) simp
next
  case (Cons x xs)
  then show ?case
    using Cons.IH[of "nx x" x] by (subst rq_search.simps) (auto split: option.splits)
qed

lemma rq_search_last_spec:
  "hlist nx cur xs \<Longrightarrow> rq_search_last nx accept prev_rreq cur mt =
     Some (case take_first accept (rev xs) of None \<Rightarrow> mt
           | Some (us, y, vs) \<Rightarrow> (List.last (prev_rreq # rev vs), y))"
proof (induction xs arbitrary: prev_rreq cur mt)
  case Nil
  then show ?case by (subst rq_search_last.simps) simp
next
  case (Cons x xs)
  have app: "take_first accept (ys @ [x]) =
      (case take_first accept ys of None \<Rightarrow> if accept x then Some (ys, x, []) else None
       | Some (us, y, vs) \<Rightarrow> Some (us, y, vs @ [x]))" for ys
    by (induction ys) (auto split: option.splits)
  from Cons show ?case
    using Cons.IH[of "nx x" x] by (subst rq_search_last.simps) (auto simp: app split: option.splits)
qed

section \<open>A queue with a head and a tail pointer\<close>

text \<open>
  The contract that the posted and the unexpected queue share: how their unlink and append
  operations set the head, the tail and the \<open>dev.next\<close> fields. In the locale both operations
  are shown to act on the list that the pointers describe.
\<close>

locale request_queue =
  fixes qhead qtail :: "'s \<Rightarrow> nat" and nx :: "'s \<Rightarrow> nat \<Rightarrow> nat"
    and unlink :: "nat \<Rightarrow> nat \<Rightarrow> 's \<Rightarrow> 's" and append :: "nat \<Rightarrow> 's \<Rightarrow> 's"
  assumes unlink_nx: "p \<noteq> c \<Longrightarrow> nx (unlink p c s) = (if p \<noteq> 0 then (nx s)(p := nx s c) else nx s)"
    and unlink_head: "p \<noteq> c \<Longrightarrow> qhead (unlink p c s) = (if p \<noteq> 0 then qhead s else nx s c)"
    and unlink_tail: "p \<noteq> c \<Longrightarrow> qtail (unlink p c s) = (if nx s c = 0 then p else qtail s)"
    and append_nx: "q \<noteq> qtail s \<Longrightarrow> nx (append q s)
      = (if qtail s \<noteq> 0 then (nx s)(q := 0, qtail s := q) else (nx s)(q := 0))"
    and append_head: "qhead (append q s) = (if qtail s \<noteq> 0 then qhead s else q)"
    and append_tail: "qtail (append q s) = q"
begin

lemma unlink_list:
  assumes "hlist (nx s) (qhead s) (us @ c # vs)" "qtail s = lastp (us @ c # vs)"
  shows "hlist (nx (unlink (lastp us) c s)) (qhead (unlink (lastp us) c s)) (us @ vs)
    \<and> qtail (unlink (lastp us) c s) = lastp (us @ vs)"
proof -
  have nz: "0 \<notin> set (us @ c # vs)" and d: "distinct (us @ c # vs)"
    using assms(1) hlist_nonzero hlist_distinct by blast+
  have ne: "lastp us \<noteq> c" using nz d by (cases us rule: rev_cases) auto
  note u = unlink_nx[OF ne] unlink_head[OF ne] unlink_tail[OF ne]
  have "nx s c = (case vs of [] \<Rightarrow> 0 | z # _ \<Rightarrow> z)" by (rule hlist_next[OF assms(1)])
  then have vs: "nx s c = 0 \<longleftrightarrow> vs = []" using nz by (cases vs) auto
  have t: "qtail (unlink (lastp us) c s) = lastp (us @ vs)"
    unfolding u(3) using assms(2) vs by auto
  show ?thesis
  proof (cases us rule: rev_cases)
    case Nil
    with u assms(1) t show ?thesis by simp
  next
    case (snoc ws x)
    then have "hlist (nx s) (qhead s) (ws @ x # c # vs)" using assms(1) by simp
    from hlist_unlink_inner[OF this] snoc nz t u show ?thesis by simp
  qed
qed

lemma append_list:
  assumes "hlist (nx s) (qhead s) xs" "qtail s = lastp xs" "q \<noteq> 0" "q \<notin> set xs"
  shows "hlist (nx (append q s)) (qhead (append q s)) (xs @ [q]) \<and> qtail (append q s) = lastp (xs @ [q])"
proof (cases xs rule: rev_cases)
  case Nil
  with assms show ?thesis by (simp add: append_nx append_head append_tail)
next
  case (snoc ws x)
  have nz: "0 \<notin> set xs" using assms(1) hlist_nonzero by blast
  have ne: "q \<noteq> qtail s" using assms snoc by auto
  have "hlist ((nx s)(q := 0, x := q)) (qhead s) (ws @ [x, q])"
    by (rule hlist_append_last) (use assms snoc in auto)
  with snoc nz assms(2) show ?thesis by (simp add: append_nx[OF ne] append_head append_tail)
qed

lemma unlink_other_nx:
  "p \<noteq> c \<Longrightarrow> x \<noteq> p \<Longrightarrow> nx (unlink p c s) x = nx s x"
  by (simp add: unlink_nx)

lemma unlink_keeps_list:
  assumes "hlist (nx s) (qhead s) (us @ c # vs)" "set ys \<inter> set (us @ c # vs) = {}" "hlist (nx s) r ys"
  shows "hlist (nx (unlink (lastp us) c s)) r ys"
proof -
  have nz: "0 \<notin> set (us @ c # vs)" and d: "distinct (us @ c # vs)"
    using assms(1) hlist_nonzero hlist_distinct by blast+
  have ne: "lastp us \<noteq> c" using nz d by (cases us rule: rev_cases) auto
  have "lastp us \<notin> set ys"
    using assms(2,3) hlist_nonzero by (cases us rule: rev_cases) auto
  then have "hlist (nx (unlink (lastp us) c s)) r ys = hlist (nx s) r ys"
    by (intro hlist_cong) (use unlink_other_nx[OF ne] in metis)
  with assms(3) show ?thesis by simp
qed

lemma append_keeps_list:
  assumes "qtail s = lastp xs" "q \<notin> set xs" "q \<noteq> 0" "set ys \<inter> set xs = {}" "q \<notin> set ys" "hlist (nx s) r ys"
  shows "hlist (nx (append q s)) r ys"
proof -
  have ne: "q \<noteq> qtail s" using assms(1-3) by (cases xs rule: rev_cases) auto
  have "qtail s \<notin> set ys" using assms(1,4,6) hlist_nonzero by (cases xs rule: rev_cases) auto
  then have "hlist (nx (append q s)) r ys = hlist (nx s) r ys"
    by (intro hlist_cong) (use assms(5) in \<open>auto simp: append_nx[OF ne]\<close>)
  with assms(6) show ?thesis by simp
qed

end

interpretation posted: request_queue recvq_posted_head recvq_posted_tail "\<lambda>st. dev_next (rheap st)"
  posted_unlink posted_append
  by unfold_locales (auto simp: posted_unlink_def posted_append_def set_dev_next_def Let_def fun_eq_iff)

interpretation unexp: request_queue recvq_unexpected_head recvq_unexpected_tail
  "\<lambda>st. dev_next (rheap st)" unexp_unlink unexp_append
  by unfold_locales (auto simp: unexp_unlink_def unexp_append_def set_dev_next_def Let_def fun_eq_iff)


section \<open>The invariant of the two queues\<close>

abbreviation request_pool :: "recvq_state \<Rightarrow> request_heap \<times> MPIU_Object_alloc_t" where
  "request_pool st \<equiv> (rheap st, MPID_Request_mem st)"

text \<open>
  The pointers describe the lists \<open>P\<close> and \<open>U\<close> of requests in use, no request being in both.
\<close>

definition rq_inv :: "recvq_state \<Rightarrow> nat list \<Rightarrow> nat list \<Rightarrow> bool" where
  "rq_inv st P U \<longleftrightarrow> pool_ok (request_pool st) \<and> set P \<union> set U \<subseteq> pool_live (request_pool st)
     \<and> set P \<inter> set U = {}
     \<and> hlist (dev_next (rheap st)) (recvq_posted_head st) P \<and> recvq_posted_tail st = lastp P
     \<and> hlist (dev_next (rheap st)) (recvq_unexpected_head st) U \<and> recvq_unexpected_tail st = lastp U"

lemma rq_inv_unique: "rq_inv st P U \<Longrightarrow> rq_inv st P' U' \<Longrightarrow> P = P' \<and> U = U'"
  unfolding rq_inv_def using hlist_functional by blast

text \<open>What relinking a queue leaves alone.\<close>

definition rq_frame :: "recvq_state \<Rightarrow> recvq_state \<Rightarrow> bool" where
  "rq_frame st st' \<longleftrightarrow> next_of (rheap st') = next_of (rheap st) \<and> handle_of (rheap st') = handle_of (rheap st)
     \<and> MPID_Request_mem st' = MPID_Request_mem st \<and> dev_match (rheap st') = dev_match (rheap st)
     \<and> sender_req_id (rheap st') = sender_req_id (rheap st) \<and> body (rheap st') = body (rheap st)"

lemma rq_frame_refl [simp]: "rq_frame st st"
  by (simp add: rq_frame_def)

lemma pool_cong:
  assumes "next_of h' = next_of h" "handle_of h' = handle_of h"
  shows "pool_ok (h', om) = pool_ok (h, om)" "pool_live (h', om) = pool_live (h, om)"
  using assms by (simp_all add: pool_ok_def pool_inv_def handles_ok_def pool_live_def)

lemma rq_frame_pool:
  "rq_frame st st' \<Longrightarrow> pool_ok (request_pool st') = pool_ok (request_pool st)
    \<and> pool_live (request_pool st') = pool_live (request_pool st)"
  using pool_cong[of "rheap st'" "rheap st"] by (simp add: rq_frame_def)

lemma unlink_frame: "rq_frame st (unexp_unlink p c st)" "rq_frame st (posted_unlink p c st)"
  by (simp_all add: rq_frame_def unexp_unlink_def posted_unlink_def set_dev_next_def Let_def)

lemma append_frame: "rq_frame st (unexp_append p st)" "rq_frame st (posted_append p st)"
  by (simp_all add: rq_frame_def unexp_append_def posted_append_def set_dev_next_def Let_def)

lemma other_queue [simp]:
  "recvq_posted_head (unexp_unlink p c st) = recvq_posted_head st"
  "recvq_posted_tail (unexp_unlink p c st) = recvq_posted_tail st"
  "recvq_unexpected_head (posted_unlink p c st) = recvq_unexpected_head st"
  "recvq_unexpected_tail (posted_unlink p c st) = recvq_unexpected_tail st"
  "recvq_posted_head (unexp_append p st) = recvq_posted_head st"
  "recvq_posted_tail (unexp_append p st) = recvq_posted_tail st"
  "recvq_unexpected_head (posted_append p st) = recvq_unexpected_head st"
  "recvq_unexpected_tail (posted_append p st) = recvq_unexpected_tail st"
  by (simp_all add: unexp_unlink_def posted_unlink_def unexp_append_def posted_append_def
      set_dev_next_def Let_def)

lemma unexp_unlink_inv:
  assumes "rq_inv st P (us @ c # vs)"
  shows "rq_inv (unexp_unlink (lastp us) c st) P (us @ vs)"
  using assms unexp.unlink_list[of st us c vs] unexp.unlink_keeps_list[of st us c vs P]
    rq_frame_pool[OF unlink_frame(1)]
  unfolding rq_inv_def by (auto simp del: last.simps)

lemma posted_unlink_inv:
  assumes "rq_inv st (us @ c # vs) U"
  shows "rq_inv (posted_unlink (lastp us) c st) (us @ vs) U"
  using assms posted.unlink_list[of st us c vs] posted.unlink_keeps_list[of st us c vs U]
    rq_frame_pool[OF unlink_frame(2)]
  unfolding rq_inv_def Int_commute[of _ "set U"] by (auto simp del: last.simps)

lemma unexp_append_inv:
  assumes "rq_inv st P U" "q \<in> pool_live (request_pool st)" "q \<notin> set P \<union> set U"
  shows "rq_inv (unexp_append q st) P (U @ [q])"
proof -
  have "q \<noteq> 0" using assms hm.null_not_live[of "request_pool st"] by (auto simp: rq_inv_def)
  with assms show ?thesis
    using unexp.append_list[of st U q] unexp.append_keeps_list[of st U q P]
      rq_frame_pool[OF append_frame(1)]
    unfolding rq_inv_def by (auto simp del: last.simps)
qed

lemma posted_append_inv:
  assumes "rq_inv st P U" "q \<in> pool_live (request_pool st)" "q \<notin> set P \<union> set U"
  shows "rq_inv (posted_append q st) (P @ [q]) U"
proof -
  have "q \<noteq> 0" using assms hm.null_not_live[of "request_pool st"] by (auto simp: rq_inv_def)
  with assms show ?thesis
    using posted.append_list[of st P q] posted.append_keeps_list[of st P q U]
      rq_frame_pool[OF append_frame(2)]
    unfolding rq_inv_def Int_commute[of _ "set U"] by (auto simp del: last.simps)
qed

lemma more_request_heap:
  assumes "handle_heap.more (h' :: request_heap) = handle_heap.more h"
  shows "dev_match h' = dev_match h" "dev_next h' = dev_next h" "sender_req_id h' = sender_req_id h"
    "body h' = body h"
  using assms by (cases h; cases h'; simp)+

text \<open>Creating a request: no request, and the queues as they were, or a new one.\<close>

lemma create_rreq_inv:
  assumes inv: "rq_inv st P U" and fresh: "calloc_fresh e (MPID_Request_mem st)"
    and cr: "MPIDI_Request_create_rreq e st = (st1, p)"
  shows "rq_inv st1 P U" "dev_match (rheap st1) = dev_match (rheap st)"
    "sender_req_id (rheap st1) = sender_req_id (rheap st)"
    "p \<noteq> 0 \<Longrightarrow> p \<notin> pool_live (request_pool st) \<and> pool_live (request_pool st1) = insert p (pool_live (request_pool st))
       \<and> p \<notin> set P \<union> set U \<and> body (rheap st1) = (body (rheap st))(p := init_rreq p (body (rheap st) p))"
    "p = 0 \<Longrightarrow> pool_live (request_pool st1) = pool_live (request_pool st) \<and> body (rheap st1) = body (rheap st)"
proof -
  obtain h om where al: "MPIU_Handle_obj_alloc e (rheap st) (MPID_Request_mem st) = (h, om, p)"
    using cr by (auto simp: MPIDI_Request_create_rreq_def split: prod.splits if_splits)
  then have pa: "pool_alloc e (request_pool st) = ((h, om), p)" by (simp add: pool_alloc_def)
  have ok: "pool_ok (request_pool st)" using inv by (simp add: rq_inv_def)
  have more: "handle_heap.more h = handle_heap.more (rheap st)"
    using hm.alloc_rest[OF ok _ pa] fresh by (simp add: pool_rest_def)
  note f = more_request_heap[OF more]
  have st1: "st1 = (if p = 0 then st\<lparr>rheap := h, MPID_Request_mem := om\<rparr>
    else st\<lparr>rheap := h\<lparr>body := (body h)(p := init_rreq p (body h p))\<rparr>, MPID_Request_mem := om\<rparr>)"
    using cr al by (auto simp: MPIDI_Request_create_rreq_def)
  have pool: "pool_ok (request_pool st1) = pool_ok (h, om)" "pool_live (request_pool st1) = pool_live (h, om)"
    unfolding st1 using pool_cong[of "h\<lparr>body := (body h)(p := init_rreq p (body h p))\<rparr>" h om] by auto
  have ok1: "pool_ok (h, om)" using hm.alloc_inv[OF ok _ pa] fresh by simp
  show "dev_match (rheap st1) = dev_match (rheap st)" "sender_req_id (rheap st1) = sender_req_id (rheap st)"
    unfolding st1 using f by simp_all
  have dn: "dev_next (rheap st1) = dev_next (rheap st)" unfolding st1 using f by simp
  show new: "p \<notin> pool_live (request_pool st) \<and> pool_live (request_pool st1) = insert p (pool_live (request_pool st))
       \<and> p \<notin> set P \<union> set U \<and> body (rheap st1) = (body (rheap st))(p := init_rreq p (body (rheap st) p))"
    if "p \<noteq> 0"
  proof -
    note \<open>p \<noteq> 0\<close>
    from hm.alloc_live[OF ok _ pa \<open>p \<noteq> 0\<close>] fresh
    have l: "p \<notin> pool_live (request_pool st)" "pool_live (h, om) = insert p (pool_live (request_pool st))" by auto
    moreover have "p \<notin> set P \<union> set U" using l inv unfolding rq_inv_def by blast
    ultimately show ?thesis
      using pool \<open>p \<noteq> 0\<close> f unfolding st1 by simp
  qed
  show none: "pool_live (request_pool st1) = pool_live (request_pool st) \<and> body (rheap st1) = body (rheap st)"
    if "p = 0"
  proof -
    note \<open>p = 0\<close>
    from hm.alloc_null[OF ok _ pa[unfolded \<open>p = 0\<close>]] fresh
    have "pool_live (h, om) = pool_live (request_pool st)" by simp
    with pool \<open>p = 0\<close> f show ?thesis unfolding st1 by simp
  qed
  have "pool_live (request_pool st) \<subseteq> pool_live (request_pool st1)"
    using new none by (cases "p = 0") auto
  moreover have "recvq_posted_head st1 = recvq_posted_head st" "recvq_posted_tail st1 = recvq_posted_tail st"
    "recvq_unexpected_head st1 = recvq_unexpected_head st" "recvq_unexpected_tail st1 = recvq_unexpected_tail st"
    unfolding st1 by simp_all
  ultimately show "rq_inv st1 P U"
    using inv dn pool ok1 unfolding rq_inv_def by auto
qed


section \<open>What a receive accepts\<close>

text \<open>The rule of the MPI standard, with the two wildcards.\<close>

definition envelope_fits :: "32 word \<Rightarrow> 32 word \<Rightarrow> 32 word \<Rightarrow> message_match \<Rightarrow> bool" where
  "envelope_fits source tag context_id m \<longleftrightarrow> scast (m_ctx m) = context_id
     \<and> (source = MPI_ANY_SOURCE \<or> scast (m_rank m) = source) \<and> (tag = MPI_ANY_TAG \<or> m_tag m = tag)"

text \<open>The arguments that the 16-bit fields of a match can hold.\<close>

definition fits16 :: "32 word \<Rightarrow> bool" where
  "fits16 w \<longleftrightarrow> scast (ucast w :: 16 word) = w"

lemma fits16_sint: "fits16 w \<longleftrightarrow> - (2 ^ 15) \<le> sint w \<and> sint w < 2 ^ 15"
proof -
  have "fits16 w \<longleftrightarrow> sint (scast (ucast w :: 16 word) :: 32 word) = sint w"
    unfolding fits16_def by (rule word_eq_iff_signed)
  also have "sint (scast (ucast w :: 16 word) :: 32 word) = signed_take_bit 15 (sint w)"
    by (rule bit_eqI) (simp add: signed_scast_eq signed_ucast_eq bit_simps min_def)
  also have "signed_take_bit 15 (sint w) = sint w \<longleftrightarrow> - (2 ^ 15) \<le> sint w \<and> sint w < 2 ^ 15"
    by (rule signed_take_bit_int_eq_self_iff)
  finally show ?thesis .
qed

lemma ucast_scast16 [simp]: "(ucast (scast (r :: 16 word) :: 32 word) :: 16 word) = r"
proof (rule bit_word_eqI)
  fix n assume "n < LENGTH(16)"
  then have "n < 15 \<or> n = 15" by auto
  then show "bit (ucast (scast r :: 32 word) :: 16 word) n = bit r n"
    by (auto simp: bit_simps min_def)
qed

lemma scast16_eq_iff: "fits16 w \<Longrightarrow> scast (r :: 16 word) = w \<longleftrightarrow> r = ucast w"
  unfolding fits16_def by (metis ucast_scast16)

lemma recv_accepts_fits:
  assumes "fits16 source" "fits16 context_id"
  shows "recv_accepts source tag context_id m = envelope_fits source tag context_id m"
  using scast16_eq_iff[OF assms(1)] scast16_eq_iff[OF assms(2)]
  by (auto simp: recv_accepts_def exact_match_def envelope_fits_def masked_match_def wild_masks_def Let_def)

definition posted_match :: "32 word \<Rightarrow> 32 word \<Rightarrow> 32 word \<Rightarrow> message_match" where
  "posted_match source tag context_id = \<lparr>m_tag = tag, m_rank = ucast source, m_ctx = ucast context_id\<rparr>"

lemma posted_accepts_fits:
  assumes "fits16 source" "fits16 context_id"
  shows "posted_accepts (posted_match source tag context_id) m = envelope_fits source tag context_id m"
proof -
  have s: "scast (ucast source :: 16 word) = source" using assms(1) by (simp add: fits16_def)
  show ?thesis
    unfolding posted_accepts_def posted_match_def envelope_fits_def
    using scast16_eq_iff[OF assms(1), of "m_rank m"] scast16_eq_iff[OF assms(2), of "m_ctx m"]
    by (auto simp: s)
qed


section \<open>The abstract matching engine\<close>

text \<open>
  Posted receives and unexpected messages in their order, each with its match. \<open>new\<close> is the
  request the allocator answers, 0 when there is none. The results are the new queues, the
  request returned and whether it was found.
\<close>

type_synonym entry = "nat \<times> message_match"
type_synonym queues = "entry list \<times> entry list"

definition post_receive :: "nat \<Rightarrow> 32 word \<Rightarrow> 32 word \<Rightarrow> 32 word \<Rightarrow> queues \<Rightarrow> queues \<times> nat \<times> bool" where
  "post_receive new source tag context_id A =
     (case take_first (\<lambda>u. envelope_fits source tag context_id (snd u)) (snd A) of
        Some (us, u, vs) \<Rightarrow> ((fst A, us @ vs), fst u, True)
      | None \<Rightarrow> if new = 0 then (A, 0, False)
          else ((fst A @ [(new, posted_match source tag context_id)], snd A), new, False))"

definition message_arrives :: "nat \<Rightarrow> message_match \<Rightarrow> queues \<Rightarrow> queues \<times> nat \<times> bool" where
  "message_arrives new m A =
     (case take_first (\<lambda>r. posted_accepts (snd r) m) (fst A) of
        Some (us, r, vs) \<Rightarrow> ((us @ vs, snd A), fst r, True)
      | None \<Rightarrow> if new = 0 then (A, 0, False) else ((fst A, snd A @ [(new, m)]), new, False))"

definition entries :: "recvq_state \<Rightarrow> nat list \<Rightarrow> entry list" where
  "entries st xs = map (\<lambda>p. (p, dev_match (rheap st) p)) xs"

definition rq_rel :: "recvq_state \<Rightarrow> queues \<Rightarrow> bool" where
  "rq_rel st A \<longleftrightarrow> (\<exists>P U. rq_inv st P U \<and> A = (entries st P, entries st U))"

lemma entries_simps [simp]:
  "entries st (xs @ ys) = entries st xs @ entries st ys"
  "entries st (x # xs) = (x, dev_match (rheap st) x) # entries st xs"
  "entries st [] = []"
  by (simp_all add: entries_def)

lemma entries_frame: "rq_frame st st' \<Longrightarrow> entries st' xs = entries st xs"
  by (simp add: entries_def rq_frame_def)

lemma rq_rel_frame: "rq_inv st' P U \<Longrightarrow> rq_frame st st' \<Longrightarrow> rq_rel st' (entries st P, entries st U)"
  unfolding rq_rel_def using entries_frame[of st st'] by (intro exI[of _ P] exI[of _ U]) simp

lemma entries_cong:
  "(\<And>x. x \<in> set xs \<Longrightarrow> dev_match (rheap st') x = dev_match (rheap st) x) \<Longrightarrow> entries st' xs = entries st xs"
  by (simp add: entries_def)

lemma take_first_entries:
  "take_first (\<lambda>u. f (snd u)) (entries st xs) =
     (case take_first (\<lambda>p. f (dev_match (rheap st) p)) xs of None \<Rightarrow> None
      | Some (us, y, vs) \<Rightarrow> Some (entries st us, (y, dev_match (rheap st) y), entries st vs))"
  unfolding entries_def take_first_map by simp

text \<open>The end of both routines: the new request with its match at the tail of a queue.\<close>

lemma set_match_inv:
  "rq_inv st P U \<Longrightarrow> rq_inv (set_match p m st) P U
    \<and> pool_live (request_pool (set_match p m st)) = pool_live (request_pool st)
    \<and> body (rheap (set_match p m st)) = body (rheap st)
    \<and> dev_match (rheap (set_match p m st)) = (dev_match (rheap st))(p := m)"
  using pool_cong[of "rheap (set_match p m st)" "rheap st" "MPID_Request_mem st"]
  by (simp add: rq_inv_def set_match_def)

lemma set_match_mem [simp]: "MPID_Request_mem (set_match p m st) = MPID_Request_mem st"
  by (simp add: set_match_def)

lemma create_append:
  assumes inv: "rq_inv st P U" and fresh: "calloc_fresh e (MPID_Request_mem st)"
    and cr: "MPIDI_Request_create_rreq e st = (st1, p)" and "p \<noteq> 0"
  shows "rq_inv (posted_append p (set_match p m st1)) (P @ [p]) U"
    "rq_inv (unexp_append p (set_match p m st1)) P (U @ [p])"
    "xs = P \<or> xs = U \<Longrightarrow> entries (posted_append p (set_match p m st1)) xs = entries st xs"
    "xs = P \<or> xs = U \<Longrightarrow> entries (unexp_append p (set_match p m st1)) xs = entries st xs"
    "dev_match (rheap (posted_append p (set_match p m st1))) p = m"
    "dev_match (rheap (unexp_append p (set_match p m st1))) p = m"
    "p \<notin> pool_live (request_pool st)"
    "body (rheap (posted_append p (set_match p m st1))) p = init_rreq p (body (rheap st) p)"
    "body (rheap (unexp_append p (set_match p m st1))) p = init_rreq p (body (rheap st) p)"
proof -
  note c = create_rreq_inv[OF inv fresh cr]
  note n = c(4)[OF \<open>p \<noteq> 0\<close>]
  note s = set_match_inv[OF c(1), where p = p and m = m]
  have live: "p \<in> pool_live (request_pool (set_match p m st1))" using s n by blast
  note a = append_frame[where p = p and st = "set_match p m st1", unfolded rq_frame_def]
  show "rq_inv (posted_append p (set_match p m st1)) (P @ [p]) U"
    by (rule posted_append_inv[OF _ live]) (use s n in auto)
  show "rq_inv (unexp_append p (set_match p m st1)) P (U @ [p])"
    by (rule unexp_append_inv[OF _ live]) (use s n in auto)
  show "entries (posted_append p (set_match p m st1)) xs = entries st xs" if "xs = P \<or> xs = U"
    by (rule entries_cong) (use that a s c n in auto)
  show "entries (unexp_append p (set_match p m st1)) xs = entries st xs" if "xs = P \<or> xs = U"
    by (rule entries_cong) (use that a s c n in auto)
  show "dev_match (rheap (posted_append p (set_match p m st1))) p = m"
    "dev_match (rheap (unexp_append p (set_match p m st1))) p = m"
    "body (rheap (posted_append p (set_match p m st1))) p = init_rreq p (body (rheap st) p)"
    "body (rheap (unexp_append p (set_match p m st1))) p = init_rreq p (body (rheap st) p)"
    using a s n by auto
  show "p \<notin> pool_live (request_pool st)" using n by simp
qed

lemma create_none:
  assumes inv: "rq_inv st P U" and fresh: "calloc_fresh e (MPID_Request_mem st)"
    and cr: "MPIDI_Request_create_rreq e st = (st1, 0)"
  shows "rq_rel st1 (entries st P, entries st U)"
proof -
  note c = create_rreq_inv[OF inv fresh cr]
  have "entries st1 xs = entries st xs" for xs by (rule entries_cong) (simp add: c)
  with c(1) show ?thesis by (auto simp: rq_rel_def)
qed


text \<open>The searches through a queue find what the abstract engine finds.\<close>

lemma search_unexpected:
  assumes "rq_inv st P U"
  shows "rq_search (dev_next (rheap st)) (\<lambda>p. f (dev_match (rheap st) p)) 0 (recvq_unexpected_head st) =
    Some (case take_first (\<lambda>p. f (dev_match (rheap st) p)) U of None \<Rightarrow> (lastp U, 0)
          | Some (us, y, vs) \<Rightarrow> (lastp us, y))"
  using assms by (intro rq_search_spec) (simp add: rq_inv_def)

lemma search_posted:
  assumes "rq_inv st P U"
  shows "rq_search (dev_next (rheap st)) f 0 (recvq_posted_head st) =
    Some (case take_first f P of None \<Rightarrow> (lastp P, 0) | Some (us, y, vs) \<Rightarrow> (lastp us, y))"
  using assms by (intro rq_search_spec) (simp add: rq_inv_def)

lemma rq_inv_nonzero: "rq_inv st P U \<Longrightarrow> x \<in> set P \<union> set U \<Longrightarrow> x \<noteq> 0"
  unfolding rq_inv_def using hlist_nonzero by fastforce

text \<open>What a new request looks like, and that it was not in use.\<close>

definition new_rreq :: "recvq_state \<Rightarrow> recvq_state \<Rightarrow> nat \<Rightarrow> bool" where
  "new_rreq st st' p \<longleftrightarrow> p \<notin> pool_live (request_pool st)
     \<and> body (rheap st') p = init_rreq p (body (rheap st) p)"

lemma fdu_or_aep_step:
  assumes inv: "rq_inv st P U" and fresh: "calloc_fresh e (MPID_Request_mem st)"
    and fits: "fits16 source" "fits16 context_id"
  shows "\<exists>st' new. MPIDI_CH3U_Recvq_FDU_or_AEP e st source tag context_id =
      Some (st', snd (post_receive new source tag context_id (entries st P, entries st U)))
    \<and> rq_rel st' (fst (post_receive new source tag context_id (entries st P, entries st U)))
    \<and> (new \<noteq> 0 \<longrightarrow> new_rreq st st' new)"
proof -
  let ?f = "\<lambda>p. envelope_fits source tag context_id (dev_match (rheap st) p)"
  let ?m = "\<lparr>m_tag = tag, m_rank = ucast source, m_ctx = ucast context_id\<rparr>"
  note srch = search_unexpected[OF inv, of "envelope_fits source tag context_id"]
  note def = MPIDI_CH3U_Recvq_FDU_or_AEP_def recv_accepts_fits[OF fits] srch post_receive_def
    take_first_entries snd_conv fst_conv
  show ?thesis
  proof (cases "take_first ?f U")
    case (Some t)
    then obtain us u vs where t: "take_first ?f U = Some (us, u, vs)" by (cases t) auto
    then have U: "U = us @ u # vs" by (simp add: take_first_Some)
    have u: "u \<noteq> 0" using rq_inv_nonzero[OF inv] U by auto
    have r: "rq_rel (unexp_unlink (lastp us) u st) (entries st P, entries st us @ entries st vs)"
      unfolding rq_rel_def using unexp_unlink_inv[of st P us u vs] inv U entries_frame[OF unlink_frame(1)]
      by (intro exI[of _ P] exI[of _ "us @ vs"]) simp
    show ?thesis
      by (intro exI[of _ "unexp_unlink (lastp us) u st"] exI[of _ 0]) (use t u r in \<open>simp add: def del: last.simps\<close>)
  next
    case None
    obtain st1 p where cr: "MPIDI_Request_create_rreq e st = (st1, p)" by fastforce
    show ?thesis
    proof (cases "p = 0")
      case True
      with None cr create_none[OF inv fresh] show ?thesis
        by (intro exI[of _ st1] exI[of _ 0]) (simp add: def del: last.simps)
    next
      case False
      note a = create_append(1-6,8,9)[OF inv fresh cr False, where m = ?m] create_append(7)[OF inv fresh cr False]
      let ?st = "posted_append p (set_match p ?m st1)"
      have r: "rq_rel ?st (entries st P @ [(p, ?m)], entries st U)"
        unfolding rq_rel_def using a(1,3,5) by (intro exI[of _ "P @ [p]"] exI[of _ U]) simp
      have "MPIDI_CH3U_Recvq_FDU_or_AEP e st source tag context_id = Some (?st, p, False)"
        using None cr False by (simp add: def del: last.simps)
      moreover have "post_receive p source tag context_id (entries st P, entries st U)
        = ((entries st P @ [(p, ?m)], entries st U), p, False)"
        using None False by (simp add: def posted_match_def del: last.simps)
      ultimately show ?thesis
        using r a(7,9) by (intro exI[of _ ?st] exI[of _ p]) (simp add: new_rreq_def)
    qed
  qed
qed

lemma fdp_or_aeu_step:
  assumes inv: "rq_inv st P U" and fresh: "calloc_fresh e (MPID_Request_mem st)"
  shows "\<exists>st' new. MPIDI_CH3U_Recvq_FDP_or_AEU e st m =
      Some (st', snd (message_arrives new m (entries st P, entries st U)))
    \<and> rq_rel st' (fst (message_arrives new m (entries st P, entries st U)))
    \<and> (new \<noteq> 0 \<longrightarrow> new_rreq st st' new)"
proof -
  let ?f = "\<lambda>p. posted_accepts (dev_match (rheap st) p) m"
  note srch = search_posted[OF inv, of ?f]
  note def = MPIDI_CH3U_Recvq_FDP_or_AEU_def srch message_arrives_def
    take_first_entries[where f = "\<lambda>r. posted_accepts r m"] snd_conv fst_conv
  show ?thesis
  proof (cases "take_first ?f P")
    case (Some t)
    then obtain us u vs where t: "take_first ?f P = Some (us, u, vs)" by (cases t) auto
    then have P: "P = us @ u # vs" by (simp add: take_first_Some)
    have u: "u \<noteq> 0" using rq_inv_nonzero[OF inv] P by auto
    have r: "rq_rel (posted_unlink (lastp us) u st) (entries st us @ entries st vs, entries st U)"
      unfolding rq_rel_def using posted_unlink_inv[of st us u vs U] inv P entries_frame[OF unlink_frame(2)]
      by (intro exI[of _ "us @ vs"] exI[of _ U]) simp
    show ?thesis
      by (intro exI[of _ "posted_unlink (lastp us) u st"] exI[of _ 0]) (use t u r in \<open>simp add: def del: last.simps\<close>)
  next
    case None
    obtain st1 p where cr: "MPIDI_Request_create_rreq e st = (st1, p)" by fastforce
    show ?thesis
    proof (cases "p = 0")
      case True
      with None cr create_none[OF inv fresh] show ?thesis
        by (intro exI[of _ st1] exI[of _ 0]) (simp add: def del: last.simps)
    next
      case False
      note a = create_append(1-6,8,9)[OF inv fresh cr False, where m = m] create_append(7)[OF inv fresh cr False]
      let ?st = "unexp_append p (set_match p m st1)"
      have r: "rq_rel ?st (entries st P, entries st U @ [(p, m)])"
        unfolding rq_rel_def using a(2,4,6) by (intro exI[of _ P] exI[of _ "U @ [p]"]) simp
      show ?thesis
        by (intro exI[of _ ?st] exI[of _ p]) (use None cr False r a(8,9) in \<open>simp add: def new_rreq_def del: last.simps\<close>)
    qed
  qed
qed


section \<open>Probing, cancelling\<close>

lemma fu_spec:
  assumes inv: "rq_inv st P U" and fits: "fits16 source" "fits16 context_id"
  shows "MPIDI_CH3U_Recvq_FU st source tag context_id s =
    Some (case take_first (\<lambda>p. envelope_fits source tag context_id (dev_match (rheap st) p)) U of
        None \<Rightarrow> (False, s)
      | Some (_, u, _) \<Rightarrow> (True, map_option (\<lambda>t. t\<lparr>st_SOURCE := st_SOURCE (rq_status (body (rheap st) u)),
          st_TAG := st_TAG (rq_status (body (rheap st) u)), st_count := st_count (rq_status (body (rheap st) u)),
          st_cancelled := st_cancelled (rq_status (body (rheap st) u))\<rparr>) s))"
proof -
  note srch = search_unexpected[OF inv, of "envelope_fits source tag context_id"]
  have "take_first (\<lambda>p. envelope_fits source tag context_id (dev_match (rheap st) p)) U = Some (us, u, vs)
    \<Longrightarrow> u \<noteq> 0" for us u vs
    using rq_inv_nonzero[OF inv] by (auto simp: take_first_Some)
  then show ?thesis
    by (auto simp: MPIDI_CH3U_Recvq_FU_def recv_accepts_fits[OF fits] srch Let_def split: option.splits)
qed

definition same_send :: "recvq_state \<Rightarrow> handle \<Rightarrow> message_match \<Rightarrow> nat \<Rightarrow> bool" where
  "same_send st sreq_id m p \<longleftrightarrow> sender_req_id (rheap st) p = sreq_id \<and> dev_match (rheap st) p = m"

lemma fdu_search:
  assumes "rq_inv st P U"
  shows "rq_search_last (dev_next (rheap st))
     (\<lambda>p. sender_req_id (rheap st) p = sreq_id \<and> m_ctx (dev_match (rheap st) p) = m_ctx m
        \<and> m_rank (dev_match (rheap st) p) = m_rank m \<and> m_tag (dev_match (rheap st) p) = m_tag m)
     0 (recvq_unexpected_head st) (0, 0)
   = Some (case take_first (same_send st sreq_id m) (rev U) of None \<Rightarrow> (0, 0)
       | Some (us, y, vs) \<Rightarrow> (lastp (rev vs), y))"
proof -
  have "(\<lambda>p. sender_req_id (rheap st) p = sreq_id \<and> m_ctx (dev_match (rheap st) p) = m_ctx m
        \<and> m_rank (dev_match (rheap st) p) = m_rank m \<and> m_tag (dev_match (rheap st) p) = m_tag m)
      = same_send st sreq_id m"
    by (auto simp: same_send_def)
  then show ?thesis
    using assms by (simp only: rq_search_last_spec[of _ _ U] rq_inv_def)
qed

lemma fdu_none:
  assumes "rq_inv st P U" "\<forall>u \<in> set U. \<not> same_send st sreq_id m u"
  shows "MPIDI_CH3U_Recvq_FDU st sreq_id m = Some (st, 0)"
proof -
  have "take_first (same_send st sreq_id m) (rev U) = None" using assms(2) by (simp add: take_first_None)
  then show ?thesis by (simp add: MPIDI_CH3U_Recvq_FDU_def fdu_search[OF assms(1)])
qed

lemma fdu_found:
  assumes inv: "rq_inv st P (us @ u # vs)" and m: "same_send st sreq_id m u"
    and last: "\<forall>v \<in> set vs. \<not> same_send st sreq_id m v"
  shows "MPIDI_CH3U_Recvq_FDU st sreq_id m = Some (unexp_unlink (lastp us) u st, u)"
proof -
  have "take_first (same_send st sreq_id m) (rev (us @ u # vs)) = Some (rev vs, u, rev us)"
    using m last by (subst take_first_Some) simp
  moreover have "u \<noteq> 0" using rq_inv_nonzero[OF inv] by auto
  ultimately show ?thesis
    by (simp add: MPIDI_CH3U_Recvq_FDU_def fdu_search[OF inv] del: last.simps)
qed

lemma fdu_cases:
  assumes "rq_inv st P U" "MPIDI_CH3U_Recvq_FDU st sreq_id m = Some (st', u)"
  shows "st' = st \<and> u = 0 \<and> (\<forall>v \<in> set U. \<not> same_send st sreq_id m v) \<or>
    (\<exists>us vs. U = us @ u # vs \<and> same_send st sreq_id m u \<and> (\<forall>v \<in> set vs. \<not> same_send st sreq_id m v)
       \<and> st' = unexp_unlink (lastp us) u st)"
proof (cases "\<exists>v \<in> set U. same_send st sreq_id m v")
  case True
  from split_list_last_prop[OF this] obtain us v vs where U: "U = us @ v # vs" "same_send st sreq_id m v"
      "\<forall>w \<in> set vs. \<not> same_send st sreq_id m w"
    by (elim bexE exE conjE)
  have "rq_inv st P (us @ v # vs)" using assms(1) U(1) by simp
  from fdu_found[OF this U(2,3)] assms(2) have "st' = unexp_unlink (lastp us) v st" "u = v" by simp_all
  with U show ?thesis by (intro disjI2 exI[of _ us] exI[of _ vs]) simp
next
  case False
  then have "\<forall>v \<in> set U. \<not> same_send st sreq_id m v" by blast
  with fdu_none[OF assms(1) this] assms(2) show ?thesis by simp
qed

lemma dp_none:
  assumes "rq_inv st P U" "r \<notin> set P"
  shows "MPIDI_CH3U_Recvq_DP st r = Some (st, False)"
proof -
  have "take_first (\<lambda>p. p = r) P = None" unfolding take_first_None using assms(2) by blast
  then show ?thesis by (simp add: MPIDI_CH3U_Recvq_DP_def search_posted[OF assms(1)])
qed

lemma dp_found:
  assumes inv: "rq_inv st (us @ r # vs) U"
  shows "MPIDI_CH3U_Recvq_DP st r = Some (posted_unlink (lastp us) r st, True)"
proof -
  have "distinct (us @ r # vs)" using inv unfolding rq_inv_def using hlist_distinct by blast
  then have "take_first (\<lambda>p. p = r) (us @ r # vs) = Some (us, r, vs)" by (subst take_first_Some) auto
  moreover have "r \<noteq> 0" using rq_inv_nonzero[OF inv] by auto
  ultimately show ?thesis
    by (simp add: MPIDI_CH3U_Recvq_DP_def search_posted[OF inv] del: last.simps)
qed

section \<open>Runs of the device\<close>

text \<open>
  A step of the progress engine on the queues: a receive is posted, a message arrives, a receive
  or a send is cancelled; besides, the device changes the other fields of requests and frees
  requests that are in no queue.
\<close>

inductive rq_step :: "recvq_state \<Rightarrow> recvq_state \<Rightarrow> bool" where
  step_recv: "calloc_fresh e (MPID_Request_mem st) \<Longrightarrow> fits16 source \<Longrightarrow> fits16 context_id
    \<Longrightarrow> MPIDI_CH3U_Recvq_FDU_or_AEP e st source tag context_id = Some (st', r, found) \<Longrightarrow> rq_step st st'"
| step_arrive: "calloc_fresh e (MPID_Request_mem st)
    \<Longrightarrow> MPIDI_CH3U_Recvq_FDP_or_AEU e st m = Some (st', r, found) \<Longrightarrow> rq_step st st'"
| step_cancel_recv: "MPIDI_CH3U_Recvq_DP st r = Some (st', found) \<Longrightarrow> rq_step st st'"
| step_cancel_send: "MPIDI_CH3U_Recvq_FDU st sreq_id m = Some (st', r) \<Longrightarrow> rq_step st st'"
| step_fields: "rq_step st (st\<lparr>rheap := (rheap st)\<lparr>sender_req_id := sid, body := bd\<rparr>\<rparr>)"
| step_free: "r \<in> pool_live (request_pool st) \<Longrightarrow> rq_inv st P U \<Longrightarrow> r \<notin> set P \<union> set U
    \<Longrightarrow> MPIU_Handle_obj_free (rheap st) (MPID_Request_mem st) r = (h, om)
    \<Longrightarrow> rq_step st (st\<lparr>rheap := h, MPID_Request_mem := om\<rparr>)"

inductive_cases rq_stepE: "rq_step st st'"

inductive rq_reachable :: "recvq_state \<Rightarrow> bool" where
  reach_init: "rq_inv st [] [] \<Longrightarrow> rq_reachable st"
| reach_step: "rq_reachable st \<Longrightarrow> rq_step st st' \<Longrightarrow> rq_reachable st'"

text \<open>No posted receive accepts a message that waits.\<close>

definition nothing_missed :: "queues \<Rightarrow> bool" where
  "nothing_missed A \<longleftrightarrow> (\<forall>r \<in> set (fst A). \<forall>u \<in> set (snd A). \<not> posted_accepts (snd r) (snd u))"

lemma post_receive_nothing_missed:
  assumes "nothing_missed A" "fits16 source" "fits16 context_id"
  shows "nothing_missed (fst (post_receive new source tag context_id A))"
proof (cases "take_first (\<lambda>u. envelope_fits source tag context_id (snd u)) (snd A)")
  case None
  with assms show ?thesis
    using take_first_None[of "\<lambda>u. envelope_fits source tag context_id (snd u)" "snd A"]
    by (auto simp: post_receive_def nothing_missed_def posted_accepts_fits)
next
  case (Some t)
  then obtain us u vs where "take_first (\<lambda>u. envelope_fits source tag context_id (snd u)) (snd A) = Some (us, u, vs)"
    by (cases t) auto
  with assms(1) show ?thesis
    using take_first_Some[of "\<lambda>u. envelope_fits source tag context_id (snd u)" "snd A" us u vs]
    by (auto simp: post_receive_def nothing_missed_def)
qed

lemma message_arrives_nothing_missed:
  assumes "nothing_missed A"
  shows "nothing_missed (fst (message_arrives new m A))"
proof (cases "take_first (\<lambda>r. posted_accepts (snd r) m) (fst A)")
  case None
  with assms show ?thesis
    using take_first_None[of "\<lambda>r. posted_accepts (snd r) m" "fst A"]
    by (auto simp: message_arrives_def nothing_missed_def)
next
  case (Some t)
  then obtain us u vs where "take_first (\<lambda>r. posted_accepts (snd r) m) (fst A) = Some (us, u, vs)"
    by (cases t) auto
  with assms show ?thesis
    using take_first_Some[of "\<lambda>r. posted_accepts (snd r) m" "fst A" us u vs]
    by (auto simp: message_arrives_def nothing_missed_def)
qed

lemma rq_step_rel:
  assumes "rq_step st st'" "rq_rel st A" "nothing_missed A"
  shows "\<exists>A'. rq_rel st' A' \<and> nothing_missed A'"
  using assms(1)
proof cases
  case (step_recv e source context_id tag r found)
  obtain P U where inv: "rq_inv st P U" "A = (entries st P, entries st U)"
    using assms(2) by (auto simp: rq_rel_def)
  from fdu_or_aep_step[OF inv(1) step_recv(1-3), of tag] step_recv(4) inv(2) obtain new where
    "rq_rel st' (fst (post_receive new source tag context_id A))" by auto
  with post_receive_nothing_missed[OF assms(3) step_recv(2,3)] show ?thesis by blast
next
  case (step_arrive e m r found)
  obtain P U where inv: "rq_inv st P U" "A = (entries st P, entries st U)"
    using assms(2) by (auto simp: rq_rel_def)
  from fdp_or_aeu_step[OF inv(1) step_arrive(1), of m] step_arrive(2) inv(2) obtain new where
    "rq_rel st' (fst (message_arrives new m A))" by auto
  with message_arrives_nothing_missed[OF assms(3)] show ?thesis by blast
next
  case (step_cancel_recv r found)
  obtain P U where inv: "rq_inv st P U" "A = (entries st P, entries st U)"
    using assms(2) by (auto simp: rq_rel_def)
  show ?thesis
  proof (cases "r \<in> set P")
    case False
    with dp_none[OF inv(1)] step_cancel_recv have "st' = st" by simp
    with assms show ?thesis by blast
  next
    case True
    then obtain us vs where P: "P = us @ r # vs" by (meson split_list)
    with inv have "rq_inv st (us @ r # vs) U" by simp
    from dp_found[OF this] step_cancel_recv have st': "st' = posted_unlink (lastp us) r st" by simp
    have "rq_inv st' (us @ vs) U" "rq_frame st st'"
      unfolding st' by (rule posted_unlink_inv[OF \<open>rq_inv st (us @ r # vs) U\<close>], rule unlink_frame)
    then have "rq_rel st' (entries st (us @ vs), entries st U)" by (rule rq_rel_frame)
    moreover have "nothing_missed (entries st (us @ vs), entries st U)"
      using assms(3) inv P by (auto simp: nothing_missed_def)
    ultimately show ?thesis by blast
  qed
next
  case (step_cancel_send sreq_id m r)
  obtain P U where inv: "rq_inv st P U" "A = (entries st P, entries st U)"
    using assms(2) by (auto simp: rq_rel_def)
  from fdu_cases[OF inv(1) step_cancel_send] show ?thesis
  proof (elim disjE exE conjE)
    assume "st' = st"
    with assms show ?thesis by blast
  next
    fix us vs assume U: "U = us @ r # vs" and st': "st' = unexp_unlink (lastp us) r st"
    with inv unexp_unlink_inv[of st P us r vs] have "rq_inv st' P (us @ vs)" "rq_frame st st'"
      by (auto simp: unlink_frame simp del: last.simps)
    then have "rq_rel st' (entries st P, entries st (us @ vs))" by (rule rq_rel_frame)
    moreover have "nothing_missed (entries st P, entries st (us @ vs))"
      using assms(3) inv U by (auto simp: nothing_missed_def)
    ultimately show ?thesis by blast
  qed
next
  case (step_fields sid bd)
  obtain P U where inv: "rq_inv st P U" "A = (entries st P, entries st U)"
    using assms(2) by (auto simp: rq_rel_def)
  have "rq_inv st' P U"
    using inv(1) pool_cong[of "rheap st'" "rheap st" "MPID_Request_mem st"]
    by (simp add: rq_inv_def step_fields)
  moreover have "entries st' xs = entries st xs" for xs by (rule entries_cong) (simp add: step_fields)
  ultimately have "rq_rel st' A" unfolding rq_rel_def inv(2) by (intro exI[of _ P] exI[of _ U]) simp
  with assms(3) show ?thesis by blast
next
  case (step_free r P U h om)
  from assms(2) rq_inv_unique[OF step_free(3)] have A: "A = (entries st P, entries st U)"
    by (auto simp: rq_rel_def)
  have ok: "pool_ok (request_pool st)" using step_free(3) by (simp add: rq_inv_def)
  have f: "pool_free r (request_pool st) = (h, om)" using step_free(5) by (simp add: pool_free_def)
  from step_free(5) have h: "h = (rheap st)\<lparr>next_of := (next_of (rheap st))(r := om_avail (MPID_Request_mem st))\<rparr>"
    by (auto simp: MPIU_Handle_obj_free_def)
  have "rq_inv st' P U"
    using step_free(3,4) hm.free_inv[OF ok step_free(2)] hm.free_live[OF ok step_free(2)] f
    by (auto simp: rq_inv_def step_free(1) h)
  moreover have "entries st' xs = entries st xs" for xs by (rule entries_cong) (simp add: step_free(1) h)
  ultimately have "rq_rel st' A" unfolding rq_rel_def A by (intro exI[of _ P] exI[of _ U]) simp
  with assms(3) show ?thesis by blast
qed

lemma rq_reachable_rel: "rq_reachable st \<Longrightarrow> \<exists>A. rq_rel st A \<and> nothing_missed A"
proof (induction rule: rq_reachable.induct)
  case (reach_init st)
  have "rq_rel st ([], [])" unfolding rq_rel_def using reach_init by (intro exI[of _ "[]"]) simp
  then show ?case by (force simp: nothing_missed_def)
next
  case (reach_step st st')
  then show ?case using rq_step_rel by blast
qed


section \<open>Sample states\<close>

abbreviation MPID_REQUEST :: handle where "MPID_REQUEST \<equiv> 11"

definition sample_request_heap :: request_heap where
  "sample_request_heap = \<lparr>handle_of = (\<lambda>_. 0)(1000 := direct_handle MPID_REQUEST 0,
       1200 := direct_handle MPID_REQUEST 1, 1400 := direct_handle MPID_REQUEST 2,
       1600 := direct_handle MPID_REQUEST 3),
     next_of = (\<lambda>_. 0),
     dev_match = (\<lambda>_. \<lparr>m_tag = 5, m_rank = 1, m_ctx = 0\<rparr>)(1000 := \<lparr>m_tag = - 1, m_rank = 3, m_ctx = 0\<rparr>,
       1400 := \<lparr>m_tag = 5, m_rank = 2, m_ctx = 0\<rparr>),
     dev_next = (\<lambda>_. 0)(1200 := 1400), sender_req_id = (\<lambda>_. 0)(1400 := 77),
     body = (\<lambda>_. \<lparr>rq_ref_count = 2, rq_kind = MPID_REQUEST_RECV, rq_comm = 0, rq_cc = 1, rq_cc_ptr = 0,
       rq_status = \<lparr>st_SOURCE = 2, st_TAG = 5, st_count = 64, st_cancelled = False, st_ERROR = 0\<rparr>,
       rq_state = 0, rq_cancel_pending = False, rq_datatype_ptr = 0, rq_segment_ptr = 0, rq_iov_offset = 0\<rparr>)\<rparr>"

text \<open>One posted receive at 1000, two waiting messages at 1200 and 1400, 1600 free.\<close>

definition sample_recvq :: recvq_state where
  "sample_recvq = \<lparr>rheap = sample_request_heap,
     MPID_Request_mem = \<lparr>om_avail = 1600, om_initialized = True, om_indirect = None, om_indirect_size = 0,
       om_kind = MPID_REQUEST, om_size = 200, om_direct = 1000, om_direct_size = 4\<rparr>,
     recvq_posted_head = 1000, recvq_posted_tail = 1000,
     recvq_unexpected_head = 1200, recvq_unexpected_tail = 1400\<rparr>"

text \<open>The device at its start.\<close>

definition start_recvq :: recvq_state where
  "start_recvq = \<lparr>rheap = sample_request_heap, MPID_Request_mem = new_pool MPID_REQUEST 200 1000 8,
     recvq_posted_head = 0, recvq_posted_tail = 0, recvq_unexpected_head = 0, recvq_unexpected_tail = 0\<rparr>"

abbreviation no_memory :: calloc_env where
  "no_memory \<equiv> \<lparr>table_ok = False, new_block = 0\<rparr>"

lemma no_memory_fresh: "calloc_fresh no_memory om"
  by (simp add: calloc_fresh_def)

lemma sample_recvq_inv: "rq_inv sample_recvq [1000] [1200, 1400]"
proof -
  let ?om = "MPID_Request_mem sample_recvq" let ?h = "rheap sample_recvq"
  have u: "[0..<4] = [0, 1, 2, 3 :: nat]" by code_simp
  have objs: "pool_objs ?om = [1000, 1200, 1400, 1600]" "all_objs ?om = [1000, 1200, 1400, 1600]" "blocks ?om = []"
    by (simp_all add: sample_recvq_def pool_objs_def all_objs_def blocks_def block_objs_def u)
  have c: "i < 4 \<Longrightarrow> i = 0 \<or> i = 1 \<or> i = 2 \<or> i = 3" for i :: nat by auto
  have inv: "pool_inv ?h ?om [1600]"
  proof -
    have "handles_ok ?h ?om"
      using objs(3) unfolding handles_ok_def
      by (auto simp: sample_recvq_def sample_request_heap_def dest: c)
    moreover have "pool_wf ?om" using objs(2) by (simp add: pool_wf_def) (simp add: sample_recvq_def)
    ultimately show ?thesis
      using objs(1) by (simp add: pool_inv_def) (simp add: sample_recvq_def sample_request_heap_def)
  qed
  have "pool_live (request_pool sample_recvq) = {1000, 1200, 1400}"
    unfolding pool_live_eq[OF inv] objs by auto
  moreover have "pool_ok (request_pool sample_recvq)" using inv by (auto simp: pool_ok_def)
  ultimately show ?thesis by (simp add: rq_inv_def) (simp add: sample_recvq_def sample_request_heap_def)
qed

lemma sample_recvq_rel:
  "rq_rel sample_recvq ([(1000, \<lparr>m_tag = - 1, m_rank = 3, m_ctx = 0\<rparr>)],
     [(1200, \<lparr>m_tag = 5, m_rank = 1, m_ctx = 0\<rparr>), (1400, \<lparr>m_tag = 5, m_rank = 2, m_ctx = 0\<rparr>)])"
  unfolding rq_rel_def
  by (intro exI[of _ "[1000]"] exI[of _ "[1200, 1400]"] conjI sample_recvq_inv)
    (simp add: entries_def sample_recvq_def sample_request_heap_def)

lemma sample_matches:
  "dev_match (rheap sample_recvq) 1200 = \<lparr>m_tag = 5, m_rank = 1, m_ctx = 0\<rparr>"
  "dev_match (rheap sample_recvq) 1400 = \<lparr>m_tag = 5, m_rank = 2, m_ctx = 0\<rparr>"
  by (simp_all add: sample_recvq_def sample_request_heap_def)

lemma start_recvq_inv: "rq_inv start_recvq [] []"
proof -
  have "pool_inv sample_request_heap (new_pool MPID_REQUEST 200 1000 8) []"
    by (rule new_pool_inv) simp_all
  then have "pool_ok (request_pool start_recvq)" unfolding pool_ok_def start_recvq_def by auto
  then show ?thesis by (simp add: rq_inv_def) (simp add: start_recvq_def)
qed

lemma fits16_small: "fits16 0" "fits16 1" "fits16 2" "fits16 3" "fits16 (- 2)"
  by (simp_all add: fits16_def)


section \<open>Properties\<close>

text \<open>
  C32: \<open>MPIDI_CH3U_Recvq_FDU_or_AEP\<close> implements the posting of a receive on the pair of
  first-in first-out queues: the first waiting message that the receive accepts is taken out, or
  a new request, not in use before and initialised as a receive, is put at the end of the posted
  queue; without memory the queues stay and no request is returned. The search always ends.
\<close>

theorem MPIDI_CH3U_Recvq_FDU_or_AEP_refines:
  assumes "rq_rel st A" "calloc_fresh e (MPID_Request_mem st)" "fits16 source" "fits16 context_id"
  shows "\<exists>st' new. MPIDI_CH3U_Recvq_FDU_or_AEP e st source tag context_id =
      Some (st', snd (post_receive new source tag context_id A))
    \<and> rq_rel st' (fst (post_receive new source tag context_id A))
    \<and> (new \<noteq> 0 \<longrightarrow> new_rreq st st' new)"
proof -
  obtain P U where "rq_inv st P U" "A = (entries st P, entries st U)"
    using assms(1) by (auto simp: rq_rel_def)
  with fdu_or_aep_step[OF _ assms(2-4)] show ?thesis by simp
qed

theorem MPIDI_CH3U_Recvq_FDU_or_AEP_refines_witness:
  "\<exists>st'. MPIDI_CH3U_Recvq_FDU_or_AEP no_memory sample_recvq 2 MPI_ANY_TAG 0 = Some (st', 1400, True)
    \<and> rq_rel st' ([(1000, \<lparr>m_tag = - 1, m_rank = 3, m_ctx = 0\<rparr>)], [(1200, \<lparr>m_tag = 5, m_rank = 1, m_ctx = 0\<rparr>)])"
  using MPIDI_CH3U_Recvq_FDU_or_AEP_refines[OF sample_recvq_rel no_memory_fresh fits16_small(3,1), of MPI_ANY_TAG]
  by (auto simp: post_receive_def envelope_fits_def)

text \<open>
  C33: \<open>MPIDI_CH3U_Recvq_FDP_or_AEU\<close> implements the arrival of a message: the first posted
  receive that accepts it is taken out, or a new request with its match goes to the end of the
  unexpected queue; without memory the queues stay and no request is returned.
\<close>

theorem MPIDI_CH3U_Recvq_FDP_or_AEU_refines:
  assumes "rq_rel st A" "calloc_fresh e (MPID_Request_mem st)"
  shows "\<exists>st' new. MPIDI_CH3U_Recvq_FDP_or_AEU e st m = Some (st', snd (message_arrives new m A))
    \<and> rq_rel st' (fst (message_arrives new m A)) \<and> (new \<noteq> 0 \<longrightarrow> new_rreq st st' new)"
proof -
  obtain P U where "rq_inv st P U" "A = (entries st P, entries st U)"
    using assms(1) by (auto simp: rq_rel_def)
  with fdp_or_aeu_step[OF _ assms(2)] show ?thesis by simp
qed

theorem MPIDI_CH3U_Recvq_FDP_or_AEU_refines_witness:
  "\<exists>st'. MPIDI_CH3U_Recvq_FDP_or_AEU no_memory sample_recvq \<lparr>m_tag = 9, m_rank = 3, m_ctx = 0\<rparr>
      = Some (st', 1000, True)
    \<and> rq_rel st' ([], [(1200, \<lparr>m_tag = 5, m_rank = 1, m_ctx = 0\<rparr>), (1400, \<lparr>m_tag = 5, m_rank = 2, m_ctx = 0\<rparr>)])"
  using MPIDI_CH3U_Recvq_FDP_or_AEU_refines[OF sample_recvq_rel no_memory_fresh,
      of "\<lparr>m_tag = 9, m_rank = 3, m_ctx = 0\<rparr>"]
  by (auto simp: message_arrives_def posted_accepts_def)

text \<open>
  C31: in every state that the device can reach from empty queues, by receives, messages,
  cancellations and the release of requests in any order, the pointers describe two disjoint
  lists of requests in use, and no posted receive accepts a message of the unexpected queue.
\<close>

theorem recvq_nothing_missed:
  assumes "rq_reachable st"
  shows "\<exists>P U. rq_inv st P U
    \<and> (\<forall>r \<in> set P. \<forall>u \<in> set U. \<not> posted_accepts (dev_match (rheap st) r) (dev_match (rheap st) u))"
proof -
  from rq_reachable_rel[OF assms] obtain P U where "rq_inv st P U" "nothing_missed (entries st P, entries st U)"
    by (auto simp: rq_rel_def)
  then show ?thesis by (intro exI[of _ P] exI[of _ U]) (auto simp: nothing_missed_def entries_def)
qed

theorem recvq_nothing_missed_witness:
  "\<exists>st r P U. MPIDI_CH3U_Recvq_FDP_or_AEU no_memory start_recvq \<lparr>m_tag = 9, m_rank = 3, m_ctx = 0\<rparr> = Some (st, r)
    \<and> rq_reachable st \<and> rq_inv st P U
    \<and> (\<forall>r \<in> set P. \<forall>u \<in> set U. \<not> posted_accepts (dev_match (rheap st) r) (dev_match (rheap st) u))"
proof -
  let ?m = "\<lparr>m_tag = 9, m_rank = 3, m_ctx = 0\<rparr>"
  from fdp_or_aeu_step[OF start_recvq_inv no_memory_fresh, of ?m] obtain st r f where
    eq: "MPIDI_CH3U_Recvq_FDP_or_AEU no_memory start_recvq ?m = Some (st, r, f)"
    by (metis prod.collapse)
  have "rq_reachable st"
    by (rule reach_step[OF reach_init[OF start_recvq_inv] step_arrive[OF no_memory_fresh eq]])
  with recvq_nothing_missed[OF this] eq show ?thesis by blast
qed

text \<open>
  C34: messages and receives do not overtake each other. A receive that finds a waiting message
  gets the earliest one it accepts, and no receive posted before accepts that message; a message
  that finds a posted receive gets the earliest one that accepts it, and that receive accepts no
  message that arrived before and still waits.
\<close>

theorem recvq_non_overtaking:
  assumes "rq_rel st (Q, V)" "nothing_missed (Q, V)" "calloc_fresh e (MPID_Request_mem st)"
    and "fits16 source" "fits16 context_id"
  shows "(MPIDI_CH3U_Recvq_FDU_or_AEP e st source tag context_id = Some (st', u, True) \<longrightarrow>
      (\<exists>us m vs. V = us @ (u, m) # vs \<and> envelope_fits source tag context_id m
        \<and> (\<forall>x \<in> set us. \<not> envelope_fits source tag context_id (snd x)) \<and> (\<forall>r \<in> set Q. \<not> posted_accepts (snd r) m)))
    \<and> (MPIDI_CH3U_Recvq_FDP_or_AEU e st msg = Some (st', r, True) \<longrightarrow>
      (\<exists>us p vs. Q = us @ (r, p) # vs \<and> posted_accepts p msg \<and> (\<forall>x \<in> set us. \<not> posted_accepts (snd x) msg)
        \<and> (\<forall>u \<in> set V. \<not> posted_accepts p (snd u))))"
proof (intro conjI impI)
  from assms(1) obtain P U where inv: "rq_inv st P U" and A: "(Q, V) = (entries st P, entries st U)"
    by (auto simp: rq_rel_def)
  {
    assume eq: "MPIDI_CH3U_Recvq_FDU_or_AEP e st source tag context_id = Some (st', u, True)"
    from fdu_or_aep_step[OF inv assms(3-5), of tag] eq obtain new where
      "(u, True) = snd (post_receive new source tag context_id (Q, V))" by (auto simp: A)
    then obtain us m vs where
      "take_first (\<lambda>x. envelope_fits source tag context_id (snd x)) V = Some (us, (u, m), vs)"
      by (auto simp: post_receive_def split: option.splits if_splits)
    then have "V = us @ (u, m) # vs" "envelope_fits source tag context_id m"
        "\<forall>x \<in> set us. \<not> envelope_fits source tag context_id (snd x)"
      by (auto simp: take_first_Some)
    with assms(2) show "\<exists>us m vs. V = us @ (u, m) # vs \<and> envelope_fits source tag context_id m
        \<and> (\<forall>x \<in> set us. \<not> envelope_fits source tag context_id (snd x)) \<and> (\<forall>r \<in> set Q. \<not> posted_accepts (snd r) m)"
      by (intro exI[of _ us] exI[of _ m] exI[of _ vs]) (auto simp: nothing_missed_def)
  }
  {
    assume eq: "MPIDI_CH3U_Recvq_FDP_or_AEU e st msg = Some (st', r, True)"
    from fdp_or_aeu_step[OF inv assms(3), of msg] eq obtain new where
      "(r, True) = snd (message_arrives new msg (Q, V))" by (auto simp: A)
    then obtain us p vs where "take_first (\<lambda>x. posted_accepts (snd x) msg) Q = Some (us, (r, p), vs)"
      by (auto simp: message_arrives_def split: option.splits if_splits)
    then have "Q = us @ (r, p) # vs" "posted_accepts p msg" "\<forall>x \<in> set us. \<not> posted_accepts (snd x) msg"
      by (auto simp: take_first_Some)
    with assms(2) show "\<exists>us p vs. Q = us @ (r, p) # vs \<and> posted_accepts p msg
        \<and> (\<forall>x \<in> set us. \<not> posted_accepts (snd x) msg) \<and> (\<forall>u \<in> set V. \<not> posted_accepts p (snd u))"
      by (intro exI[of _ us] exI[of _ p] exI[of _ vs]) (auto simp: nothing_missed_def)
  }
qed

theorem recvq_non_overtaking_witness:
  "\<exists>st'. MPIDI_CH3U_Recvq_FDU_or_AEP no_memory sample_recvq 2 MPI_ANY_TAG 0 = Some (st', 1400, True)
    \<and> \<not> envelope_fits 2 MPI_ANY_TAG 0 (dev_match (rheap sample_recvq) 1200)"
proof -
  let ?V = "[(1200, \<lparr>m_tag = 5, m_rank = 1, m_ctx = 0\<rparr>), (1400 :: nat, \<lparr>m_tag = 5, m_rank = 2, m_ctx = 0\<rparr>)]"
  from fdu_or_aep_step[OF sample_recvq_inv no_memory_fresh fits16_small(3,1), of MPI_ANY_TAG]
  obtain st' where eq: "MPIDI_CH3U_Recvq_FDU_or_AEP no_memory sample_recvq 2 MPI_ANY_TAG 0 = Some (st', 1400, True)"
    by (auto simp: post_receive_def entries_def sample_recvq_def sample_request_heap_def envelope_fits_def)
  have nm: "nothing_missed ([(1000, \<lparr>m_tag = - 1, m_rank = 3, m_ctx = 0\<rparr>)], ?V)"
    by (simp add: nothing_missed_def posted_accepts_def)
  from recvq_non_overtaking[OF sample_recvq_rel nm no_memory_fresh fits16_small(3,1),
      THEN conjunct1, rule_format, OF eq]
  obtain us m vs where us: "?V = us @ (1400, m) # vs" "\<forall>x \<in> set us. \<not> envelope_fits 2 MPI_ANY_TAG 0 (snd x)"
    by auto
  from us(1) have "us = [(1200, \<lparr>m_tag = 5, m_rank = 1, m_ctx = 0\<rparr>)]"
    by (auto simp: Cons_eq_append_conv)
  with us(2) eq show ?thesis by (auto simp: sample_recvq_def sample_request_heap_def)
qed

text \<open>
  What a probe reports is what the next receive with the same arguments gets: it finds a
  message exactly when the receive does, and the status it fills in is that of the request the
  receive returns; otherwise the status stays as it was and the receive is posted.
\<close>

theorem recvq_probe_then_receive:
  assumes "rq_inv st P U" "calloc_fresh e (MPID_Request_mem st)" "fits16 source" "fits16 context_id"
  shows "\<exists>found t st' r. MPIDI_CH3U_Recvq_FU st source tag context_id (Some s) = Some (found, Some t)
    \<and> MPIDI_CH3U_Recvq_FDU_or_AEP e st source tag context_id = Some (st', r, found)
    \<and> (if found then t = (rq_status (body (rheap st') r))\<lparr>st_ERROR := st_ERROR s\<rparr> \<and> r \<in> set U else t = s)"
proof -
  let ?f = "\<lambda>p. envelope_fits source tag context_id (dev_match (rheap st) p)"
  from fdu_or_aep_step[OF assms, of tag] obtain st' new where
    eq: "MPIDI_CH3U_Recvq_FDU_or_AEP e st source tag context_id =
      Some (st', snd (post_receive new source tag context_id (entries st P, entries st U)))" by blast
  note pr = post_receive_def take_first_entries snd_conv fst_conv
  show ?thesis
  proof (cases "take_first ?f U")
    case None
    then show ?thesis using eq by (auto simp: fu_spec[OF assms(1,3,4)] pr)
  next
    case (Some t)
    then obtain us u vs where t: "take_first ?f U = Some (us, u, vs)" by (cases t) auto
    then have u: "u \<in> set U" "u \<noteq> 0" using rq_inv_nonzero[OF assms(1)] by (auto simp: take_first_Some)
    have "MPIDI_CH3U_Recvq_FDU_or_AEP e st source tag context_id = Some (unexp_unlink (lastp us) u st, u, True)"
      using t u search_unexpected[OF assms(1), of "envelope_fits source tag context_id"]
      by (simp add: MPIDI_CH3U_Recvq_FDU_or_AEP_def recv_accepts_fits[OF assms(3,4)] del: last.simps)
    moreover have "body (rheap (unexp_unlink (lastp us) u st)) u = body (rheap st) u"
      using unlink_frame(1)[where st = st and p = "lastp us" and c = u] by (simp add: rq_frame_def)
    moreover have "s\<lparr>st_SOURCE := st_SOURCE b, st_TAG := st_TAG b, st_count := st_count b,
        st_cancelled := st_cancelled b\<rparr> = b\<lparr>st_ERROR := st_ERROR s\<rparr>" for b
      by (rule mpi_status.equality) simp_all
    ultimately show ?thesis
      using t u by (intro exI[of _ True]) (simp add: fu_spec[OF assms(1,3,4)] del: last.simps)
  qed
qed

theorem recvq_probe_then_receive_witness:
  "\<exists>t st' r. MPIDI_CH3U_Recvq_FU sample_recvq 2 5 0 (Some \<lparr>st_SOURCE = 0, st_TAG = 0, st_count = 0,
        st_cancelled = True, st_ERROR = 15\<rparr>) = Some (True, Some t)
    \<and> MPIDI_CH3U_Recvq_FDU_or_AEP no_memory sample_recvq 2 5 0 = Some (st', r, True) \<and> st_ERROR t = 15"
proof -
  let ?s = "\<lparr>st_SOURCE = 0, st_TAG = 0, st_count = 0, st_cancelled = True, st_ERROR = 15\<rparr>"
  from recvq_probe_then_receive[OF sample_recvq_inv no_memory_fresh fits16_small(3,1), of 5 ?s]
  obtain found t st' r where p: "MPIDI_CH3U_Recvq_FU sample_recvq 2 5 0 (Some ?s) = Some (found, Some t)"
      "MPIDI_CH3U_Recvq_FDU_or_AEP no_memory sample_recvq 2 5 0 = Some (st', r, found)"
      "found \<Longrightarrow> t = (rq_status (body (rheap st') r))\<lparr>st_ERROR := st_ERROR ?s\<rparr>"
    by (metis (full_types))
  from p(1) have "found"
    by (simp add: fu_spec[OF sample_recvq_inv fits16_small(3,1)] envelope_fits_def sample_matches)
  with p show ?thesis by auto
qed

text \<open>
  Cancelling. \<open>MPIDI_CH3U_Recvq_DP\<close> takes a posted receive out of the posted queue, keeping
  the order of the others, and says whether it was there; \<open>MPIDI_CH3U_Recvq_FDU\<close> takes the last
  waiting message with the given match and sender request out of the unexpected queue, or
  returns no request and changes nothing.
\<close>

theorem recvq_cancel:
  assumes "rq_inv st P U"
  shows "(\<exists>st'. MPIDI_CH3U_Recvq_DP st r = Some (st', r \<in> set P) \<and> rq_inv st' (remove1 r P) U \<and> rq_frame st st')
    \<and> (\<exists>st' u. MPIDI_CH3U_Recvq_FDU st sreq_id m = Some (st', u) \<and> rq_frame st st'
      \<and> (if \<exists>v \<in> set U. same_send st sreq_id m v
         then \<exists>us vs. U = us @ u # vs \<and> same_send st sreq_id m u \<and> (\<forall>v \<in> set vs. \<not> same_send st sreq_id m v)
           \<and> rq_inv st' P (us @ vs)
         else u = 0 \<and> st' = st))"
proof
  show "\<exists>st'. MPIDI_CH3U_Recvq_DP st r = Some (st', r \<in> set P) \<and> rq_inv st' (remove1 r P) U \<and> rq_frame st st'"
  proof (cases "r \<in> set P")
    case False
    with dp_none[OF assms] assms show ?thesis by (simp add: remove1_idem)
  next
    case True
    from split_list_first[OF this] obtain us vs where P: "P = us @ r # vs" "r \<notin> set us"
      by (elim exE conjE)
    then have "rq_inv st (us @ r # vs) U" "remove1 r P = us @ vs"
      using assms by (simp_all add: remove1_append)
    with dp_found posted_unlink_inv unlink_frame(2) True show ?thesis
      by (intro exI[of _ "posted_unlink (lastp us) r st"]) simp
  qed
  show "\<exists>st' u. MPIDI_CH3U_Recvq_FDU st sreq_id m = Some (st', u) \<and> rq_frame st st'
      \<and> (if \<exists>v \<in> set U. same_send st sreq_id m v
         then \<exists>us vs. U = us @ u # vs \<and> same_send st sreq_id m u \<and> (\<forall>v \<in> set vs. \<not> same_send st sreq_id m v)
           \<and> rq_inv st' P (us @ vs)
         else u = 0 \<and> st' = st)"
  proof (cases "\<exists>v \<in> set U. same_send st sreq_id m v")
    case False
    then show ?thesis using fdu_none[OF assms] by (intro exI[of _ st] exI[of _ 0]) auto
  next
    case True
    from split_list_last_prop[OF this] obtain us u vs where U: "U = us @ u # vs" "same_send st sreq_id m u"
      "\<forall>v \<in> set vs. \<not> same_send st sreq_id m v" by (elim bexE exE conjE)
    have i: "rq_inv st P (us @ u # vs)" using assms U(1) by simp
    have "\<exists>us' vs'. U = us' @ u # vs' \<and> same_send st sreq_id m u \<and> (\<forall>v \<in> set vs'. \<not> same_send st sreq_id m v)
        \<and> rq_inv (unexp_unlink (lastp us) u st) P (us' @ vs')"
      by (intro exI[of _ us] exI[of _ vs] conjI U unexp_unlink_inv[OF i])
    with True show ?thesis
      by (intro exI[of _ "unexp_unlink (lastp us) u st"] exI[of _ u] conjI fdu_found[OF i U(2,3)] unlink_frame)
        (simp only: if_True)
  qed
qed

theorem recvq_cancel_witness:
  "\<exists>st' st'' u. MPIDI_CH3U_Recvq_DP sample_recvq 1000 = Some (st', True) \<and> rq_inv st' [] [1200, 1400]
    \<and> MPIDI_CH3U_Recvq_FDU sample_recvq 77 \<lparr>m_tag = 5, m_rank = 2, m_ctx = 0\<rparr> = Some (st'', u) \<and> u \<noteq> 0"
proof -
  let ?m = "\<lparr>m_tag = 5, m_rank = 2, m_ctx = 0\<rparr>"
  note c = recvq_cancel[OF sample_recvq_inv, of 1000 77 ?m]
  have s: "\<exists>v \<in> set [1200, 1400]. same_send sample_recvq 77 ?m v"
    by (auto simp: same_send_def sample_recvq_def sample_request_heap_def)
  from c[THEN conjunct2] s obtain st'' u where u: "MPIDI_CH3U_Recvq_FDU sample_recvq 77 ?m = Some (st'', u)"
    "\<exists>us vs. [1200, 1400] = us @ u # vs" by metis
  then have "u \<in> set [1200, 1400]" by (metis in_set_conv_decomp)
  with u(1) c[THEN conjunct1] show ?thesis by auto
qed

text \<open>
  The masked comparison that searches with a wildcard, and the comparison without one, both
  decide whether the envelope fits, for every source and context id that the 16-bit fields can
  hold; and a receive posted with these arguments accepts the same messages when they arrive.
\<close>

theorem recvq_comparisons_agree:
  assumes "- (2 ^ 15) \<le> sint source" "sint source < 2 ^ 15" "- (2 ^ 15) \<le> sint context_id" "sint context_id < 2 ^ 15"
  shows "recv_accepts source tag context_id m = envelope_fits source tag context_id m
    \<and> posted_accepts (posted_match source tag context_id) m = envelope_fits source tag context_id m"
  using assms by (simp add: recv_accepts_fits posted_accepts_fits fits16_sint)

theorem recvq_comparisons_agree_witness:
  "recv_accepts MPI_ANY_SOURCE 5 3 \<lparr>m_tag = 5, m_rank = 9, m_ctx = 3\<rparr>
      = envelope_fits MPI_ANY_SOURCE 5 3 \<lparr>m_tag = 5, m_rank = 9, m_ctx = 3\<rparr>
    \<and> posted_accepts (posted_match MPI_ANY_SOURCE 5 3) \<lparr>m_tag = 5, m_rank = 9, m_ctx = 3\<rparr>
      = envelope_fits MPI_ANY_SOURCE 5 3 \<lparr>m_tag = 5, m_rank = 9, m_ctx = 3\<rparr>
    \<and> envelope_fits MPI_ANY_SOURCE 5 3 \<lparr>m_tag = 5, m_rank = 9, m_ctx = 3\<rparr>"
  using recvq_comparisons_agree[of MPI_ANY_SOURCE 3 5 "\<lparr>m_tag = 5, m_rank = 9, m_ctx = 3\<rparr>"]
  by (simp add: envelope_fits_def)

end
