(* ===== verification/Bsend.thy ===== *)
theory Bsend
  imports Prelude
begin

unbundle bit_operations_syntax

text \<open>
  The storage of buffered sends, src/src/mpi/pt2pt/bsendutil.c: the user's buffer is cut into
  segments, each behind a header \<open>BsendData_t\<close>, on a doubly linked list of free segments in
  address order or on one of segments being sent. The theory models the attachment of a buffer,
  the search, cutting and release of segments with merging, and the routine that starts a send,
  and shows that the segments always tile the buffer and that free segments are never adjacent.
\<close>

section \<open>State\<close>

datatype BsendKind_t = BSEND | IBSEND | BSEND_INIT

text \<open>The fields of \<open>BsendData_t\<close> per address, and the structure \<open>BsendBuffer\<close>.\<close>

record bsend_state =
  bs_size :: "nat \<Rightarrow> int"
  bs_total :: "nat \<Rightarrow> int"
  bs_next :: "nat \<Rightarrow> nat"
  bs_prev :: "nat \<Rightarrow> nat"
  bs_kind :: "nat \<Rightarrow> BsendKind_t"
  bs_request :: "nat \<Rightarrow> nat"
  bs_msgbuf :: "nat \<Rightarrow> nat"
  bs_count :: "nat \<Rightarrow> int"
  bb_buffer :: nat
  bb_buffer_size :: int
  bb_origbuffer :: nat
  bb_origbuffer_size :: int
  bb_avail :: nat
  bb_pending :: nat
  bb_active :: nat
  bb_initialized :: bool

text \<open>
  What the platform fixes: \<open>BSENDDATA_HEADER_TRUE_SIZE\<close>, \<open>MPI_BSEND_OVERHEAD\<close> (computed by
  configure) and the size of a pointer.
\<close>

record platform =
  HDR :: nat
  OVERHEAD :: int
  PTR :: nat

text \<open>
  What the message layer answers at one call of \<open>MPIR_Bsend_check_active\<close>: whether
  \<open>NMPI_Test\<close> completes a request, and whether the user has released it.
\<close>

record progress =
  completes :: "nat \<Rightarrow> bool"
  released :: "nat \<Rightarrow> bool"

section \<open>Attaching\<close>

definition MPIR_Bsend_attach :: "platform \<Rightarrow> nat \<Rightarrow> int \<Rightarrow> bsend_state \<Rightarrow> bsend_state \<times> (mpi_err + unit)" where
  "MPIR_Bsend_attach P buf buffer_size st =
     (if bb_buffer st \<noteq> 0 then (st, Inl (new_error MPI_ERR_BUFFER ''**bufexists''))
      else if buffer_size < OVERHEAD P then (st, Inl (new_error MPI_ERR_BUFFER ''**bsendbufsmall''))
      else
        (let offset0 = buf mod PTR P;
             offset = (if offset0 \<noteq> 0 then PTR P - offset0 else 0);
             p = buf + offset in
         (st\<lparr>bb_initialized := True, bb_origbuffer := buf, bb_origbuffer_size := buffer_size,
            bb_buffer := p, bb_buffer_size := buffer_size - int offset,
            bb_avail := p, bb_pending := 0, bb_active := 0,
            bs_size := (bs_size st)(p := buffer_size - int (HDR P)),
            bs_total := (bs_total st)(p := buffer_size),
            bs_next := (bs_next st)(p := 0), bs_prev := (bs_prev st)(p := 0),
            bs_msgbuf := (bs_msgbuf st)(p := p + HDR P)\<rparr>, Inr ())))"

section \<open>Segments\<close>

text \<open>First fit in the list of free segments.\<close>

partial_function (option) bsend_find :: "(nat \<Rightarrow> nat) \<Rightarrow> (nat \<Rightarrow> int) \<Rightarrow> int \<Rightarrow> nat \<Rightarrow> nat option" where
  "bsend_find nx szs n p =
     (if p = 0 then Some 0 else if szs p \<ge> n then Some p else bsend_find nx szs n (nx p))"

definition MPIR_Bsend_find_buffer :: "bsend_state \<Rightarrow> int \<Rightarrow> nat option" where
  "MPIR_Bsend_find_buffer st n = bsend_find (bs_next st) (bs_size st) n (bb_avail st)"

definition bsend_alloc_size :: "int \<Rightarrow> int" where
  "bsend_alloc_size n = (if n AND 7 \<noteq> 0 then n + (8 - (n AND 7)) else n)"

text \<open>Cutting the remainder off a free segment.\<close>

definition bsend_split :: "platform \<Rightarrow> nat \<Rightarrow> int \<Rightarrow> bsend_state \<Rightarrow> bsend_state" where
  "bsend_split P p alloc_size st =
     (if alloc_size + int (HDR P) + 8 \<le> bs_size st p then
        (let newp = p + HDR P + nat alloc_size;
             t = bs_total st p - alloc_size - int (HDR P);
             q = bs_next st p;
             st1 = st\<lparr>bs_total := (bs_total st)(newp := t), bs_size := (bs_size st)(newp := t - int (HDR P)),
                      bs_msgbuf := (bs_msgbuf st)(newp := newp + HDR P),
                      bs_next := (bs_next st)(newp := q), bs_prev := (bs_prev st)(newp := p)\<rparr>;
             st2 = (if q \<noteq> 0 then st1\<lparr>bs_prev := (bs_prev st1)(q := newp)\<rparr> else st1);
             tp = int newp - int p in
         st2\<lparr>bs_next := (bs_next st2)(p := newp), bs_total := (bs_total st2)(p := tp),
             bs_size := (bs_size st2)(p := tp - int (HDR P))\<rparr>)
      else st)"

text \<open>Moving a free segment to the head of the active list.\<close>

definition bsend_activate :: "nat \<Rightarrow> bsend_state \<Rightarrow> bsend_state" where
  "bsend_activate p st =
     (let st1 = (if bs_prev st p \<noteq> 0 then st\<lparr>bs_next := (bs_next st)(bs_prev st p := bs_next st p)\<rparr>
                 else st\<lparr>bb_avail := bs_next st p\<rparr>);
          st2 = (if bs_next st1 p \<noteq> 0 then st1\<lparr>bs_prev := (bs_prev st1)(bs_next st1 p := bs_prev st1 p)\<rparr> else st1);
          st3 = (if bb_active st2 \<noteq> 0 then st2\<lparr>bs_prev := (bs_prev st2)(bb_active st2 := p)\<rparr> else st2) in
      st3\<lparr>bs_next := (bs_next st3)(p := bb_active st3), bs_prev := (bs_prev st3)(p := 0), bb_active := p\<rparr>)"

definition MPIR_Bsend_take_buffer :: "platform \<Rightarrow> nat \<Rightarrow> int \<Rightarrow> bsend_state \<Rightarrow> bsend_state" where
  "MPIR_Bsend_take_buffer P p n st = bsend_activate p (bsend_split P p (bsend_alloc_size n) st)"

text \<open>The place of a segment in the list of free ones.\<close>

partial_function (option) bsend_place :: "(nat \<Rightarrow> nat) \<Rightarrow> nat \<Rightarrow> nat \<Rightarrow> nat \<Rightarrow> (nat \<times> nat) option" where
  "bsend_place nx p avail_prev avail =
     (if avail = 0 then Some (avail_prev, 0)
      else if avail > p then Some (avail_prev, avail)
      else bsend_place nx p avail (nx avail))"

definition bsend_deactivate :: "nat \<Rightarrow> bsend_state \<Rightarrow> bsend_state" where
  "bsend_deactivate p st =
     (let prev = bs_prev st p;
          st1 = (if prev \<noteq> 0 then st\<lparr>bs_next := (bs_next st)(prev := bs_next st p)\<rparr>
                 else st\<lparr>bb_active := bs_next st p\<rparr>) in
      if bs_next st1 p \<noteq> 0 then st1\<lparr>bs_prev := (bs_prev st1)(bs_next st1 p := prev)\<rparr> else st1)"

definition bsend_merge_next :: "platform \<Rightarrow> nat \<Rightarrow> nat \<Rightarrow> bsend_state \<Rightarrow> bsend_state" where
  "bsend_merge_next P p avail st =
     (if avail \<noteq> 0 then
        if int p + bs_total st p = int avail then
          (let t = bs_total st p + bs_total st avail;
               q = bs_next st avail;
               st1 = st\<lparr>bs_total := (bs_total st)(p := t), bs_size := (bs_size st)(p := t - int (HDR P)),
                        bs_next := (bs_next st)(p := q)\<rparr> in
           if q \<noteq> 0 then st1\<lparr>bs_prev := (bs_prev st1)(q := p)\<rparr> else st1)
        else st\<lparr>bs_next := (bs_next st)(p := avail), bs_prev := (bs_prev st)(avail := p)\<rparr>
      else st\<lparr>bs_next := (bs_next st)(p := 0)\<rparr>)"

definition bsend_merge_prev :: "platform \<Rightarrow> nat \<Rightarrow> nat \<Rightarrow> bsend_state \<Rightarrow> bsend_state" where
  "bsend_merge_prev P p avail_prev st =
     (if avail_prev \<noteq> 0 then
        if int avail_prev + bs_total st avail_prev = int p then
          (let t = bs_total st avail_prev + bs_total st p;
               q = bs_next st p;
               st1 = st\<lparr>bs_total := (bs_total st)(avail_prev := t),
                        bs_size := (bs_size st)(avail_prev := t - int (HDR P)),
                        bs_next := (bs_next st)(avail_prev := q)\<rparr> in
           if q \<noteq> 0 then st1\<lparr>bs_prev := (bs_prev st1)(q := avail_prev)\<rparr> else st1)
        else st\<lparr>bs_next := (bs_next st)(avail_prev := p), bs_prev := (bs_prev st)(p := avail_prev)\<rparr>
      else st\<lparr>bb_avail := p, bs_prev := (bs_prev st)(p := 0)\<rparr>)"

definition MPIR_Bsend_free_segment :: "platform \<Rightarrow> nat \<Rightarrow> bsend_state \<Rightarrow> bsend_state option" where
  "MPIR_Bsend_free_segment P p st =
     (let st1 = bsend_deactivate p st in
      case bsend_place (bs_next st1) p 0 (bb_avail st) of
        None \<Rightarrow> None
      | Some (avail_prev, avail) \<Rightarrow> Some (bsend_merge_prev P p avail_prev (bsend_merge_next P p avail st1)))"

section \<open>Progress and sending\<close>

text \<open>The flag that \<open>MPIR_Bsend_check_active\<close> computes for a segment.\<close>

definition bsend_done :: "progress \<Rightarrow> bsend_state \<Rightarrow> nat \<Rightarrow> bool" where
  "bsend_done g st p =
     (if bs_kind st p = IBSEND then released g (bs_request st p) \<and> completes g (bs_request st p)
      else completes g (bs_request st p))"

partial_function (option) check_active_loop :: "platform \<Rightarrow> progress \<Rightarrow> nat \<Rightarrow> bsend_state \<Rightarrow> bsend_state option" where
  "check_active_loop P g act st =
     (if act = 0 then Some st
      else (let next_active = bs_next st act in
        if bsend_done g st act then
          (case MPIR_Bsend_free_segment P act st of
             None \<Rightarrow> None | Some st1 \<Rightarrow> check_active_loop P g next_active st1)
        else check_active_loop P g next_active st))"

definition MPIR_Bsend_check_active :: "platform \<Rightarrow> progress \<Rightarrow> bsend_state \<Rightarrow> bsend_state option" where
  "MPIR_Bsend_check_active P g st = check_active_loop P g (bb_active st) st"

text \<open>The loop over the pending messages does nothing but follow the list.\<close>

partial_function (option) MPIR_Bsend_retry_pending :: "(nat \<Rightarrow> nat) \<Rightarrow> nat \<Rightarrow> unit option" where
  "MPIR_Bsend_retry_pending nx p = (if p = 0 then Some () else MPIR_Bsend_retry_pending nx (nx p))"

text \<open>
  One message: what \<open>NMPI_Pack_size\<close> and \<open>NMPI_Pack\<close> answer, and the request of
  \<open>MPID_Isend\<close>, 0 when it could not start.
\<close>

record message =
  packsize :: int
  packed :: int
  isend_request :: nat

text \<open>The body of the loop once a segment is found; the request is 0 when none was made.\<close>

definition bsend_start :: "platform \<Rightarrow> message \<Rightarrow> BsendKind_t \<Rightarrow> nat \<Rightarrow> bsend_state \<Rightarrow> bsend_state \<times> nat" where
  "bsend_start P msg kind p st =
     (let st1 = st\<lparr>bs_count := (bs_count st)(p := packed msg), bs_request := (bs_request st)(p := isend_request msg)\<rparr> in
      if isend_request msg \<noteq> 0 then
        (let st2 = MPIR_Bsend_take_buffer P p (packed msg) st1 in
         (st2\<lparr>bs_kind := (bs_kind st2)(p := kind)\<rparr>, isend_request msg))
      else (st1, 0))"

definition MPIR_Bsend_isend :: "platform \<Rightarrow> message \<Rightarrow> BsendKind_t \<Rightarrow> progress \<Rightarrow> progress \<Rightarrow> bsend_state
    \<Rightarrow> (bsend_state \<times> (mpi_err + nat)) option" where
  "MPIR_Bsend_isend P msg kind g1 g2 st =
     (case MPIR_Bsend_check_active P g1 st of None \<Rightarrow> None | Some st1 \<Rightarrow>
     (case MPIR_Bsend_find_buffer st1 (packsize msg) of None \<Rightarrow> None | Some p \<Rightarrow>
      if p \<noteq> 0 then (case bsend_start P msg kind p st1 of (st2, r) \<Rightarrow> Some (st2, Inr r))
      else
        (case MPIR_Bsend_check_active P g2 st1 of None \<Rightarrow> None | Some st2 \<Rightarrow>
        (case MPIR_Bsend_retry_pending (bs_next st2) (bb_pending st2) of None \<Rightarrow> None | Some _ \<Rightarrow>
        (case MPIR_Bsend_find_buffer st2 (packsize msg) of None \<Rightarrow> None | Some q \<Rightarrow>
         if q \<noteq> 0 then (case bsend_start P msg kind q st2 of (st3, r) \<Rightarrow> Some (st3, Inr r))
         else Some (st2, Inl (new_error MPI_ERR_BUFFER ''**bufbsend'')))))))"

text \<open>The requests that \<open>MPIR_Bsend_detach\<close> waits for, in the order of the active list.\<close>

partial_function (option) detach_wait :: "(nat \<Rightarrow> nat) \<Rightarrow> (nat \<Rightarrow> nat) \<Rightarrow> nat list \<Rightarrow> nat \<Rightarrow> nat list option" where
  "detach_wait nx req waited p =
     (if p = 0 then Some waited else detach_wait nx req (waited @ [req p]) (nx p))"

definition MPIR_Bsend_detach :: "bsend_state \<Rightarrow> (bsend_state \<times> (mpi_err + nat \<times> int \<times> nat list)) option" where
  "MPIR_Bsend_detach st =
     (if bb_pending st \<noteq> 0 then Some (st, Inl (new_error MPI_ERR_OTHER ''**notimpl''))
      else (case detach_wait (bs_next st) (bs_request st) [] (bb_active st) of
          None \<Rightarrow> None
        | Some waited \<Rightarrow>
            Some (st\<lparr>bb_origbuffer := 0, bb_origbuffer_size := 0, bb_buffer := 0, bb_buffer_size := 0,
                bb_avail := 0, bb_active := 0, bb_pending := 0\<rparr>,
              Inr (bb_origbuffer st, bb_origbuffer_size st, waited))))"

definition MPIR_Bsend_finalize :: "bsend_state \<Rightarrow> bsend_state option" where
  "MPIR_Bsend_finalize st =
     (if bb_buffer st \<noteq> 0 then map_option fst (MPIR_Bsend_detach st) else Some st)"


section \<open>Doubly linked lists\<close>

text \<open>
  From \<open>p\<close>, behind \<open>prv\<close>, the pointers visit \<open>xs\<close> and arrive at \<open>q\<close>.
\<close>

fun dlseg :: "(nat \<Rightarrow> nat) \<Rightarrow> (nat \<Rightarrow> nat) \<Rightarrow> nat \<Rightarrow> nat \<Rightarrow> nat list \<Rightarrow> nat \<Rightarrow> bool" where
  "dlseg nx pv prv p [] q = (p = q)"
| "dlseg nx pv prv p (x # xs) q = (p = x \<and> x \<noteq> 0 \<and> pv x = prv \<and> dlseg nx pv x (nx x) xs q)"

abbreviation dll :: "(nat \<Rightarrow> nat) \<Rightarrow> (nat \<Rightarrow> nat) \<Rightarrow> nat \<Rightarrow> nat list \<Rightarrow> bool" where
  "dll nx pv p xs \<equiv> dlseg nx pv 0 p xs 0"

lemma dlseg_append:
  "dlseg nx pv prv p (xs @ ys) q \<longleftrightarrow>
    (\<exists>r. dlseg nx pv prv p xs r \<and> dlseg nx pv (List.last (prv # xs)) r ys q)"
  by (induction xs arbitrary: prv p) auto

lemma dlseg_join:
  "dlseg nx pv prv p xs r \<Longrightarrow> List.last (prv # xs) = l \<Longrightarrow> dlseg nx pv l r ys q
    \<Longrightarrow> dlseg nx pv prv p (xs @ ys) q"
  unfolding dlseg_append by blast

lemma dlseg_cong:
  "(\<And>x. x \<in> set xs \<Longrightarrow> nx x = nx' x \<and> pv x = pv' x) \<Longrightarrow> dlseg nx pv prv p xs q = dlseg nx' pv' prv p xs q"
  by (induction xs arbitrary: prv p) auto

lemma dlseg_hlist: "dlseg nx pv prv p xs 0 \<Longrightarrow> hlist nx p xs"
  by (induction xs arbitrary: prv p) auto

lemma dll_distinct: "dlseg nx pv prv p xs 0 \<Longrightarrow> distinct xs"
  using dlseg_hlist hlist_distinct by blast

lemma dlseg_nonzero: "dlseg nx pv prv p xs q \<Longrightarrow> 0 \<notin> set xs"
  by (induction xs arbitrary: prv p) auto

lemma dlseg_start: "dlseg nx pv prv p xs q \<Longrightarrow> p = hd (xs @ [q])"
  by (cases xs) auto

text \<open>Changing where a piece ends and what is before it.\<close>

lemma dlseg_redirect:
  assumes "dlseg nx pv prv p (xs @ [x]) q" "x \<notin> set xs"
  shows "dlseg (nx(x := r)) pv prv p (xs @ [x]) r"
proof -
  have "dlseg (nx(x := r)) pv prv p xs s = dlseg nx pv prv p xs s" for s
    by (rule dlseg_cong) (use assms(2) in auto)
  with assms(1) show ?thesis by (auto simp: dlseg_append)
qed

lemma dlseg_reprev:
  assumes "dlseg nx pv prv p (x # xs) q" "x \<notin> set xs"
  shows "dlseg nx (pv(x := prv')) prv' p (x # xs) q"
proof -
  have "dlseg nx (pv(x := prv')) x (nx x) xs q = dlseg nx pv x (nx x) xs q"
    by (rule dlseg_cong) (use assms(2) in auto)
  with assms(1) show ?thesis by auto
qed

text \<open>
  Taking an element out: the two assignments of the code, each of them only where there is a
  neighbour.
\<close>

definition dl_unlink_nx :: "(nat \<Rightarrow> nat) \<Rightarrow> (nat \<Rightarrow> nat) \<Rightarrow> nat \<Rightarrow> nat \<Rightarrow> nat" where
  "dl_unlink_nx nx pv y = (if pv y \<noteq> 0 then nx(pv y := nx y) else nx)"

definition dl_unlink_pv :: "(nat \<Rightarrow> nat) \<Rightarrow> (nat \<Rightarrow> nat) \<Rightarrow> nat \<Rightarrow> nat \<Rightarrow> nat" where
  "dl_unlink_pv nx pv y = (if nx y \<noteq> 0 then pv(nx y := pv y) else pv)"

lemma dll_unlink:
  assumes "dll nx pv p (us @ y # vs)"
  shows "dll (dl_unlink_nx nx pv y) (dl_unlink_pv nx pv y) (if pv y \<noteq> 0 then p else nx y) (us @ vs)
    \<and> pv y = List.last (0 # us) \<and> nx y = hd (vs @ [0])"
proof -
  have d: "distinct (us @ y # vs)" "0 \<notin> set (us @ y # vs)"
    using assms dll_distinct dlseg_nonzero by blast+
  from assms obtain left: "dlseg nx pv 0 p us y" and right: "dlseg nx pv y (nx y) vs 0"
    and y: "pv y = List.last (0 # us)" "y \<noteq> 0" by (auto simp: dlseg_append)
  have n: "nx y = hd (vs @ [0])" using dlseg_start[OF right] .
  have l: "dlseg (dl_unlink_nx nx pv y) (dl_unlink_pv nx pv y) 0 (if pv y \<noteq> 0 then p else nx y) us (nx y)"
  proof (cases us rule: rev_cases)
    case Nil
    with y show ?thesis by simp
  next
    case (snoc ws w)
    have "w \<notin> set ws" using d snoc by simp
    from dlseg_redirect[OF left[unfolded snoc] this, of "nx y"]
    have "dlseg (nx(w := nx y)) pv 0 p us (nx y)" using snoc by simp
    moreover have "dlseg (nx(w := nx y)) (dl_unlink_pv nx pv y) 0 p us (nx y)
        = dlseg (nx(w := nx y)) pv 0 p us (nx y)"
      by (rule dlseg_cong) (use d n in \<open>cases vs; auto simp: dl_unlink_pv_def\<close>)
    moreover have "w \<noteq> 0" using d snoc by auto
    ultimately show ?thesis using y snoc by (simp add: dl_unlink_nx_def)
  qed
  have r: "dlseg (dl_unlink_nx nx pv y) (dl_unlink_pv nx pv y) (List.last (0 # us)) (nx y) vs 0"
  proof (cases vs)
    case Nil
    with n show ?thesis by simp
  next
    case (Cons v ws)
    then have nv: "nx y = v" "v \<noteq> 0" using n d by auto
    from dlseg_reprev[of nx pv y v v ws 0 "List.last (0 # us)"] right Cons nv d
    have "dlseg nx (dl_unlink_pv nx pv y) (List.last (0 # us)) (nx y) vs 0"
      by (simp add: dl_unlink_pv_def y del: last.simps)
    moreover have "dlseg (dl_unlink_nx nx pv y) (dl_unlink_pv nx pv y) (List.last (0 # us)) (nx y) vs 0
       = dlseg nx (dl_unlink_pv nx pv y) (List.last (0 # us)) (nx y) vs 0"
      by (rule dlseg_cong) (use d y in \<open>cases us rule: rev_cases; auto simp: dl_unlink_nx_def\<close>)
    ultimately show ?thesis by simp
  qed
  from l r y n show ?thesis by (auto simp: dlseg_append)
qed

text \<open>A list away from the touched elements is unchanged.\<close>

lemma dll_unlink_other:
  assumes "dll nx pv p (us @ y # vs)" "set zs \<inter> set (us @ y # vs) = {}"
  shows "dlseg (dl_unlink_nx nx pv y) (dl_unlink_pv nx pv y) prv r zs q = dlseg nx pv prv r zs q"
proof (rule dlseg_cong)
  fix x assume x: "x \<in> set zs"
  have d: "0 \<notin> set (us @ y # vs)" using assms dlseg_nonzero by blast
  from dll_unlink[OF assms(1)] have "pv y = List.last (0 # us)" "nx y = hd (vs @ [0])" by auto
  moreover have "List.last (0 # us) = 0 \<or> List.last (0 # us) \<in> set us"
    by (cases us rule: rev_cases) auto
  moreover have "hd (vs @ [0]) = 0 \<or> hd (vs @ [0]) \<in> set vs" by (cases vs) auto
  ultimately show "dl_unlink_nx nx pv y x = nx x \<and> dl_unlink_pv nx pv y x = pv x"
    using x assms(2) d unfolding dl_unlink_nx_def dl_unlink_pv_def by auto
qed


section \<open>Segments that tile a region\<close>

text \<open>The segments \<open>xs\<close>, of the lengths \<open>t\<close>, cover the addresses from \<open>a\<close> up to \<open>e\<close>.\<close>

fun tiles :: "(nat \<Rightarrow> int) \<Rightarrow> int \<Rightarrow> nat list \<Rightarrow> int \<Rightarrow> bool" where
  "tiles t a [] e = (a = e)"
| "tiles t a (x # xs) e = (int x = a \<and> 0 < t x \<and> tiles t (a + t x) xs e)"

lemma tiles_append: "tiles t a (xs @ ys) e \<longleftrightarrow> (\<exists>b. tiles t a xs b \<and> tiles t b ys e)"
  by (induction xs arbitrary: a) auto

lemma tiles_cong: "(\<And>x. x \<in> set xs \<Longrightarrow> t x = t' x) \<Longrightarrow> tiles t a xs e = tiles t' a xs e"
  by (induction xs arbitrary: a) auto

lemma tiles_range: "tiles t a xs e \<Longrightarrow> a \<le> e \<and> (\<forall>x \<in> set xs. a \<le> int x \<and> 0 < t x \<and> int x + t x \<le> e)"
proof (induction xs arbitrary: a)
  case Nil
  then show ?case by simp
next
  case (Cons x xs)
  then have "tiles t (a + t x) xs e" "int x = a" "0 < t x" by simp_all
  with Cons.IH[OF this(1)] show ?case by force
qed

lemma tiles_sum: "tiles t a xs e \<Longrightarrow> sum_list (map t xs) = e - a"
  by (induction xs arbitrary: a) fastforce+

lemma tiles_sorted: "tiles t a xs e \<Longrightarrow> sorted_wrt (\<lambda>x y. int x + t x \<le> int y) xs"
proof (induction xs arbitrary: a)
  case Nil
  then show ?case by simp
next
  case (Cons x xs)
  then have *: "tiles t (a + t x) xs e" "int x = a" by simp_all
  with Cons.IH[OF *(1)] tiles_range[OF *(1)] show ?case by simp
qed

text \<open>Distinct segments do not overlap.\<close>

lemma tiles_disjoint:
  assumes "tiles t a xs e" "x \<in> set xs" "y \<in> set xs" "int x < int y"
  shows "int x + t x \<le> int y"
proof -
  from assms(2) obtain us vs where xs: "xs = us @ x # vs" by (meson split_list)
  have s: "sorted_wrt (\<lambda>x y. int x + t x \<le> int y) (us @ x # vs)" using tiles_sorted[OF assms(1)] xs by simp
  have "y \<notin> set us"
  proof
    assume "y \<in> set us"
    with s have "int y + t y \<le> int x" by (auto simp: sorted_wrt_append)
    moreover have "0 < t y" using tiles_range[OF assms(1)] assms(3) by blast
    ultimately show False using assms(4) by simp
  qed
  with assms(3,4) xs have "y \<in> set vs" by auto
  with s show ?thesis by (auto simp: sorted_wrt_append)
qed

lemma tiles_distinct: "tiles t a xs e \<Longrightarrow> distinct xs"
proof (induction xs arbitrary: a)
  case Nil
  then show ?case by simp
next
  case (Cons x xs)
  then have *: "tiles t (a + t x) xs e" "int x = a" "0 < t x" by simp_all
  with Cons.IH[OF *(1)] tiles_range[OF *(1)] show ?case by force
qed

lemma tiles_next:
  assumes "tiles t a (us @ x # vs) e" "y \<in> set (us @ x # vs)" "int x + t x = int y"
  shows "\<exists>ws. vs = y # ws"
proof (cases vs)
  case Nil
  with tiles_range[OF assms(1)] assms have "int y + t y \<le> e" "0 < t y" by blast+
  moreover from assms(1) Nil have "int x + t x = e" by (auto simp: tiles_append)
  ultimately show ?thesis using assms(3) by simp
next
  case (Cons z ws)
  from assms(1) Cons have "int z = int x + t x" by (auto simp: tiles_append)
  with assms(3) Cons show ?thesis by simp
qed

lemma tiles_merge:
  assumes "tiles t a (us @ x # y # vs) e"
  shows "tiles (t(x := t x + t y)) a (us @ x # vs) e"
proof -
  have d: "distinct (us @ x # y # vs)" by (rule tiles_distinct[OF assms])
  from assms obtain b where b: "tiles t a us b" "int x = b" "0 < t x" "0 < t y" "tiles t (b + t x + t y) vs e"
    by (auto simp: tiles_append)
  have c: "tiles (t(x := t x + t y)) c ws f = tiles t c ws f" if "x \<notin> set ws" for c ws f
    by (rule tiles_cong) (use that in auto)
  have "tiles (t(x := t x + t y)) a us b" "tiles (t(x := t x + t y)) (b + t x + t y) vs e"
    using b d by (simp_all add: c del: fun_upd_apply)
  with b show ?thesis by (auto simp: tiles_append algebra_simps)
qed

lemma tiles_split:
  assumes "tiles t a (us @ x # vs) e" "0 < k" "int k < t x"
  shows "tiles (t(x + k := t x - int k, x := int k)) a (us @ x # (x + k) # vs) e" "x + k \<notin> set (us @ x # vs)"
proof -
  have out: "x + k \<notin> set (us @ x # vs)"
  proof
    assume "x + k \<in> set (us @ x # vs)"
    from tiles_disjoint[OF assms(1) _ this, of x] assms(2,3) show False by simp
  qed
  then show "x + k \<notin> set (us @ x # vs)" .
  let ?t = "t(x + k := t x - int k, x := int k)"
  have d: "distinct (us @ x # vs)" by (rule tiles_distinct[OF assms(1)])
  from assms obtain b where b: "tiles t a us b" "int x = b" "tiles t (b + t x) vs e" by (auto simp: tiles_append)
  have c: "tiles ?t c ws f = tiles t c ws f" if "x \<notin> set ws" "x + k \<notin> set ws" for c ws f
    by (rule tiles_cong) (use that in auto)
  have "tiles ?t a us b" "tiles ?t (b + t x) vs e"
    using b d out by (simp_all add: c del: fun_upd_apply)
  with b assms(2,3) show "tiles ?t a (us @ x # (x + k) # vs) e" by (auto simp: tiles_append)
qed


section \<open>The invariant\<close>

definition platform_ok :: "platform \<Rightarrow> bool" where
  "platform_ok P \<longleftrightarrow> 0 < HDR P \<and> HDR P mod 8 = 0 \<and> int (HDR P) \<le> OVERHEAD P \<and> 0 < PTR P"

definition seg_ok :: "platform \<Rightarrow> bsend_state \<Rightarrow> nat \<Rightarrow> bool" where
  "seg_ok P st x \<longleftrightarrow> bs_size st x = bs_total st x - int (HDR P) \<and> int (HDR P) \<le> bs_total st x
     \<and> bs_msgbuf st x = x + HDR P \<and> x mod 8 = bb_buffer st mod 8"

text \<open>
  \<open>A\<close> are the free segments, \<open>L\<close> those being sent, \<open>T\<close> all of them in address order.
\<close>

definition bsend_wf :: "platform \<Rightarrow> bsend_state \<Rightarrow> nat list \<Rightarrow> nat list \<Rightarrow> nat list \<Rightarrow> bool" where
  "bsend_wf P st A L T \<longleftrightarrow>
     dll (bs_next st) (bs_prev st) (bb_avail st) A \<and> dll (bs_next st) (bs_prev st) (bb_active st) L
     \<and> bb_pending st = 0 \<and> bb_buffer st \<noteq> 0
     \<and> tiles (bs_total st) (int (bb_buffer st)) T (int (bb_buffer st) + bb_buffer_size st)
     \<and> set T = set A \<union> set L \<and> set A \<inter> set L = {} \<and> sorted A \<and> (\<forall>x \<in> set T. seg_ok P st x)"

text \<open>No two free segments are adjacent.\<close>

definition coalesced :: "bsend_state \<Rightarrow> nat list \<Rightarrow> bool" where
  "coalesced st A \<longleftrightarrow> (\<forall>x \<in> set A. \<forall>y \<in> set A. int x + bs_total st x \<noteq> int y)"

definition bsend_inv :: "platform \<Rightarrow> bsend_state \<Rightarrow> nat list \<Rightarrow> nat list \<Rightarrow> nat list \<Rightarrow> bool" where
  "bsend_inv P st A L T \<longleftrightarrow> bsend_wf P st A L T \<and> coalesced st A"

lemma wf_list_distinct: "bsend_wf P st A L T \<Longrightarrow> distinct (A @ L) \<and> 0 \<notin> set (A @ L)"
  unfolding bsend_wf_def using dll_distinct dlseg_nonzero by (metis distinct_append set_append Un_iff)

text \<open>The fields that no operation on segments changes.\<close>

definition same_buffer :: "bsend_state \<Rightarrow> bsend_state \<Rightarrow> bool" where
  "same_buffer st st' \<longleftrightarrow> bb_buffer st' = bb_buffer st \<and> bb_buffer_size st' = bb_buffer_size st
     \<and> bb_origbuffer st' = bb_origbuffer st \<and> bb_origbuffer_size st' = bb_origbuffer_size st
     \<and> bb_pending st' = bb_pending st \<and> bb_initialized st' = bb_initialized st
     \<and> bs_kind st' = bs_kind st \<and> bs_request st' = bs_request st \<and> bs_count st' = bs_count st"

lemma same_buffer_trans: "same_buffer st st1 \<Longrightarrow> same_buffer st1 st2 \<Longrightarrow> same_buffer st st2"
  by (simp add: same_buffer_def)

lemma same_buffer_refl [simp]: "same_buffer st st"
  by (simp add: same_buffer_def)

section \<open>Releasing a segment\<close>

lemma deactivate_spec:
  assumes "dll (bs_next st) (bs_prev st) (bb_active st) (us @ p # vs)"
    "dll (bs_next st) (bs_prev st) (bb_avail st) A" "set A \<inter> set (us @ p # vs) = {}"
  shows "dll (bs_next (bsend_deactivate p st)) (bs_prev (bsend_deactivate p st))
      (bb_active (bsend_deactivate p st)) (us @ vs)
    \<and> dll (bs_next (bsend_deactivate p st)) (bs_prev (bsend_deactivate p st)) (bb_avail st) A
    \<and> same_buffer st (bsend_deactivate p st) \<and> bb_avail (bsend_deactivate p st) = bb_avail st
    \<and> bs_total (bsend_deactivate p st) = bs_total st \<and> bs_size (bsend_deactivate p st) = bs_size st
    \<and> bs_msgbuf (bsend_deactivate p st) = bs_msgbuf st"
proof -
  let ?s = "bsend_deactivate p st"
  note u = dll_unlink[OF assms(1)]
  have d: "distinct (us @ p # vs)" "0 \<notin> set (us @ p # vs)"
    using assms(1) dll_distinct dlseg_nonzero by blast+
  have ne: "bs_prev st p \<noteq> p"
  proof -
    have "List.last (0 # us) \<noteq> p" using d by (cases us rule: rev_cases) auto
    with u show ?thesis by simp
  qed
  have s: "bs_next ?s = dl_unlink_nx (bs_next st) (bs_prev st) p"
    "bs_prev ?s = dl_unlink_pv (bs_next st) (bs_prev st) p"
    "bb_active ?s = (if bs_prev st p \<noteq> 0 then bb_active st else bs_next st p)"
    using ne by (auto simp: bsend_deactivate_def dl_unlink_nx_def dl_unlink_pv_def Let_def)
  have f: "same_buffer st ?s" "bb_avail ?s = bb_avail st" "bs_total ?s = bs_total st"
    "bs_size ?s = bs_size st" "bs_msgbuf ?s = bs_msgbuf st"
    by (simp_all add: bsend_deactivate_def Let_def same_buffer_def)
  from u[THEN conjunct1] f dll_unlink_other[OF assms(1,3), of 0 "bb_avail st" 0] assms(2) show ?thesis
    by (simp add: s)
qed

lemma bsend_place_spec:
  "hlist nx av A \<Longrightarrow> bsend_place nx p prv av =
    Some (List.last (prv # takeWhile (\<lambda>x. x \<le> p) A), hd (dropWhile (\<lambda>x. x \<le> p) A @ [0]))"
proof (induction A arbitrary: prv av)
  case Nil
  then show ?case by (subst bsend_place.simps) simp
next
  case (Cons x A)
  then show ?case using Cons.IH[of "nx x" x] by (subst bsend_place.simps) auto
qed

text \<open>Joining with the next free segment: what is left of the list behind \<open>p\<close>.\<close>

definition joins :: "bsend_state \<Rightarrow> nat \<Rightarrow> nat \<Rightarrow> bool" where
  "joins st p q \<longleftrightarrow> q \<noteq> 0 \<and> p \<noteq> 0 \<and> int p + bs_total st p = int q"

lemma merge_next_spec:
  assumes "dll (bs_next st) (bs_prev st) (bb_avail st) (us @ vs)" "p \<noteq> 0" "p \<notin> set (us @ vs)"
    and "avail = hd (vs @ [0])" "vs' = (if joins st p avail then tl vs else vs)"
    and "st' = bsend_merge_next P p avail st"
  shows "dlseg (bs_next st') (bs_prev st') 0 (bb_avail st') us avail"
    "dlseg (bs_next st') (bs_prev st') (bs_prev st' p) p (p # vs') 0"
    "set zs \<inter> set (p # us @ vs) = {} \<Longrightarrow>
      dlseg (bs_next st') (bs_prev st') prv r zs q = dlseg (bs_next st) (bs_prev st) prv r zs q"
    "same_buffer st st'" "bb_active st' = bb_active st" "bb_avail st' = bb_avail st" "bs_msgbuf st' = bs_msgbuf st"
    "bs_total st' = (if joins st p avail then (bs_total st)(p := bs_total st p + bs_total st avail) else bs_total st)"
    "bs_size st' = (if joins st p avail then (bs_size st)(p := bs_total st p + bs_total st avail - int (HDR P))
       else bs_size st)"
proof -
  have d: "distinct (us @ vs)" "0 \<notin> set (us @ vs)"
    using assms(1) dll_distinct dlseg_nonzero by blast+
  from assms(1,4) obtain left: "dlseg (bs_next st) (bs_prev st) 0 (bb_avail st) us avail"
    and right: "dlseg (bs_next st) (bs_prev st) (List.last (0 # us)) avail vs 0"
    using dlseg_start by (fastforce simp: dlseg_append)
  have q: "vs = avail # tl vs \<and> bs_next st avail = hd (tl vs @ [0])" if "avail \<noteq> 0"
  proof (cases vs)
    case Nil
    with assms(4) that show ?thesis by simp
  next
    case (Cons v ws)
    with right assms(4) have "dlseg (bs_next st) (bs_prev st) v (bs_next st v) ws 0" by simp
    from dlseg_start[OF this] Cons assms(4) show ?thesis by simp
  qed
  show "same_buffer st st'" "bb_active st' = bb_active st" "bb_avail st' = bb_avail st" "bs_msgbuf st' = bs_msgbuf st"
    "bs_total st' = (if joins st p avail then (bs_total st)(p := bs_total st p + bs_total st avail) else bs_total st)"
    "bs_size st' = (if joins st p avail then (bs_size st)(p := bs_total st p + bs_total st avail - int (HDR P))
       else bs_size st)"
    unfolding assms(6) using assms(2) by (auto simp: bsend_merge_next_def Let_def same_buffer_def joins_def)
  note av = this(3)
  consider (merge) "joins st p avail" | (link) "avail \<noteq> 0" "\<not> joins st p avail" | (none) "avail = 0"
    by blast
  then have e: "bs_next st' = (if joins st p avail then (bs_next st)(p := hd (vs' @ [0])) else (bs_next st)(p := avail))
      \<and> bs_prev st' = (if hd (vs' @ [0]) \<noteq> 0 then (bs_prev st)(hd (vs' @ [0]) := p) else bs_prev st)"
  proof cases
    case merge
    with q assms(5,6) show ?thesis by (auto simp: bsend_merge_next_def joins_def Let_def)
  next
    case link
    with assms show ?thesis by (auto simp: bsend_merge_next_def joins_def)
  next
    case none
    then have "vs = []" using assms(4) d by (cases vs) auto
    with none assms show ?thesis by (auto simp: bsend_merge_next_def joins_def)
  qed
  have sub: "set vs' \<subseteq> set vs" and dv: "distinct vs'" using assms(5) d by (cases vs; auto)+
  have hdv: "hd (vs' @ [0]) = 0 \<or> hd (vs' @ [0]) \<in> set vs" using sub by (cases vs') auto
  have n: "bs_next st' p = hd (vs' @ [0])"
    using e assms(4,5) by auto
  have keep: "bs_next st' x = bs_next st x \<and> bs_prev st' x = bs_prev st x" if "x \<noteq> p" "x \<notin> set vs" for x
    using e that hdv by auto
  show "dlseg (bs_next st') (bs_prev st') 0 (bb_avail st') us avail"
  proof -
    have "dlseg (bs_next st') (bs_prev st') 0 (bb_avail st) us avail
        = dlseg (bs_next st) (bs_prev st) 0 (bb_avail st) us avail"
    proof (rule dlseg_cong)
      fix x assume "x \<in> set us"
      with assms(3) d have "x \<noteq> p" "x \<notin> set vs" by auto
      from keep[OF this] show "bs_next st' x = bs_next st x \<and> bs_prev st' x = bs_prev st x" .
    qed
    with left av show ?thesis by simp
  qed
  show "dlseg (bs_next st') (bs_prev st') prv r zs q = dlseg (bs_next st) (bs_prev st) prv r zs q"
    if "set zs \<inter> set (p # us @ vs) = {}" for zs prv r q
  proof (rule dlseg_cong)
    fix x assume x: "x \<in> set zs"
    with that have "x \<noteq> p" "x \<notin> set vs" by auto
    from keep[OF this] show "bs_next st' x = bs_next st x \<and> bs_prev st' x = bs_prev st x" .
  qed
  show "dlseg (bs_next st') (bs_prev st') (bs_prev st' p) p (p # vs') 0"
  proof (cases vs')
    case Nil
    with n assms(2) show ?thesis by simp
  next
    case (Cons v ws)
    have "\<exists>prv. dlseg (bs_next st) (bs_prev st) prv v vs' 0"
    proof (cases "joins st p avail")
      case True
      with q have vs: "vs = avail # vs'" using assms(5) by (auto simp: joins_def)
      with right Cons show ?thesis by (auto intro: exI[of _ avail])
    next
      case False
      with right assms(4,5) Cons show ?thesis by auto
    qed
    then obtain prv where "dlseg (bs_next st) (bs_prev st) prv v (v # ws) 0" using Cons by auto
    from dlseg_reprev[OF this, of p] dv Cons
    have "dlseg (bs_next st) ((bs_prev st)(v := p)) p v (v # ws) 0" by simp
    moreover have "v \<noteq> 0" "v \<noteq> p" using Cons sub d assms(3) by auto
    moreover have "dlseg (bs_next st') (bs_prev st') p v (v # ws) 0
        = dlseg (bs_next st) ((bs_prev st)(v := p)) p v (v # ws) 0"
      by (rule dlseg_cong) (use e Cons sub assms(3) \<open>v \<noteq> 0\<close> in auto)
    ultimately show ?thesis using n Cons assms(2) by simp
  qed
qed


lemma merge_prev_spec:
  assumes "dlseg (bs_next st) (bs_prev st) 0 (bb_avail st) us q"
    "dlseg (bs_next st) (bs_prev st) (bs_prev st p) p (p # vs) 0"
    and "distinct (us @ p # vs)" "ap = List.last (0 # us)" "st' = bsend_merge_prev P p ap st"
  shows "dll (bs_next st') (bs_prev st') (bb_avail st') (if joins st ap p then us @ vs else us @ p # vs)"
    "set zs \<inter> set (us @ p # vs) = {} \<Longrightarrow>
      dlseg (bs_next st') (bs_prev st') prv r zs s = dlseg (bs_next st) (bs_prev st) prv r zs s"
    "same_buffer st st'" "bb_active st' = bb_active st" "bs_msgbuf st' = bs_msgbuf st"
    "bs_total st' = (if joins st ap p then (bs_total st)(ap := bs_total st ap + bs_total st p) else bs_total st)"
    "bs_size st' = (if joins st ap p then (bs_size st)(ap := bs_total st ap + bs_total st p - int (HDR P))
       else bs_size st)"
proof -
  have nz: "0 \<notin> set us" "p \<noteq> 0" "0 \<notin> set vs"
    using assms(1,2) dlseg_nonzero by fastforce+
  have n: "bs_next st p = hd (vs @ [0])" using assms(2) dlseg_start by fastforce
  have hdv: "hd (vs @ [0]) = 0 \<or> hd (vs @ [0]) \<in> set vs" by (cases vs) auto
  show "same_buffer st st'" "bb_active st' = bb_active st" "bs_msgbuf st' = bs_msgbuf st"
    "bs_total st' = (if joins st ap p then (bs_total st)(ap := bs_total st ap + bs_total st p) else bs_total st)"
    "bs_size st' = (if joins st ap p then (bs_size st)(ap := bs_total st ap + bs_total st p - int (HDR P))
       else bs_size st)"
    unfolding assms(5) using nz(2) by (auto simp: bsend_merge_prev_def Let_def same_buffer_def joins_def)
  have keep: "bs_next st' x = bs_next st x \<and> bs_prev st' x = bs_prev st x" if "x \<notin> set (us @ p # vs)" for x
  proof -
    have "x \<noteq> ap \<or> ap = 0" using that assms(4) by (cases us rule: rev_cases) auto
    with that hdv n show ?thesis
      unfolding assms(5) by (auto simp: bsend_merge_prev_def Let_def)
  qed
  show "dlseg (bs_next st') (bs_prev st') prv r zs s = dlseg (bs_next st) (bs_prev st) prv r zs s"
    if "set zs \<inter> set (us @ p # vs) = {}"
  proof (rule dlseg_cong)
    fix x assume "x \<in> set zs"
    with that have "x \<notin> set (us @ p # vs)" by blast
    from keep[OF this] show "bs_next st' x = bs_next st x \<and> bs_prev st' x = bs_prev st x" .
  qed
  show "dll (bs_next st') (bs_prev st') (bb_avail st') (if joins st ap p then us @ vs else us @ p # vs)"
  proof (cases us rule: rev_cases)
    case Nil
    then have st': "st' = st\<lparr>bb_avail := p, bs_prev := (bs_prev st)(p := 0)\<rparr>" "ap = 0"
      using assms(4,5) by (simp_all add: bsend_merge_prev_def)
    from dlseg_reprev[OF assms(2), of 0] assms(3) Nil have "dll (bs_next st') (bs_prev st') p (p # vs)"
      by (simp add: st'(1))
    with Nil st' show ?thesis by (simp add: joins_def)
  next
    case (snoc ws a)
    then have a: "ap = a" "a \<noteq> 0" "a \<notin> set ws" "a \<noteq> p" "a \<notin> set vs" using assms(3,4) nz by auto
    have left: "dlseg ((bs_next st)(a := r)) (bs_prev st) 0 (bb_avail st) us r" for r
      using dlseg_redirect[of "bs_next st" "bs_prev st" 0 "bb_avail st" ws a q r] assms(1) snoc a by simp
    show ?thesis
    proof (cases "joins st ap p")
      case False
      then have st': "st' = st\<lparr>bs_next := (bs_next st)(a := p), bs_prev := (bs_prev st)(p := a)\<rparr>"
        using assms(5) a nz by (auto simp: bsend_merge_prev_def joins_def)
      have "dlseg (bs_next st') (bs_prev st') 0 (bb_avail st) us p
          = dlseg ((bs_next st)(a := p)) (bs_prev st) 0 (bb_avail st) us p"
        by (rule dlseg_cong) (use assms(3) in \<open>auto simp: st'\<close>)
      moreover from dlseg_reprev[OF assms(2), of a] assms(3)
      have "dlseg (bs_next st) ((bs_prev st)(p := a)) a p (p # vs) 0" by simp
      moreover have "dlseg (bs_next st') (bs_prev st') a p (p # vs) 0
          = dlseg (bs_next st) ((bs_prev st)(p := a)) a p (p # vs) 0"
        by (rule dlseg_cong) (use a in \<open>auto simp: st'\<close>)
      moreover have "bb_avail st' = bb_avail st" "List.last (0 # us) = a" using st' snoc by simp_all
      ultimately show ?thesis
        using left[of p] False dlseg_join[of "bs_next st'" "bs_prev st'" 0 "bb_avail st" us p a "p # vs" 0] by metis
    next
      case True
      have e: "bs_next st' = (bs_next st)(a := hd (vs @ [0]))" "bb_avail st' = bb_avail st"
        "bs_prev st' = (if hd (vs @ [0]) \<noteq> 0 then (bs_prev st)(hd (vs @ [0]) := a) else bs_prev st)"
        using True n a by (auto simp: assms(5) bsend_merge_prev_def joins_def Let_def)
      have "dlseg (bs_next st') (bs_prev st') 0 (bb_avail st) us (hd (vs @ [0]))
          = dlseg ((bs_next st)(a := hd (vs @ [0]))) (bs_prev st) 0 (bb_avail st) us (hd (vs @ [0]))"
      proof (rule dlseg_cong)
        fix x assume "x \<in> set us"
        then have "x \<noteq> hd (vs @ [0]) \<or> hd (vs @ [0]) = 0" using hdv assms(3) by auto
        then show "bs_next st' x = ((bs_next st)(a := hd (vs @ [0]))) x \<and> bs_prev st' x = bs_prev st x"
          using e by auto
      qed
      moreover have "dlseg (bs_next st') (bs_prev st') a (hd (vs @ [0])) vs 0"
      proof (cases vs)
        case Nil
        then show ?thesis by simp
      next
        case (Cons v xs)
        with n assms(2) have "dlseg (bs_next st) (bs_prev st) p v (v # xs) 0" by simp
        from dlseg_reprev[OF this, of a] assms(3) Cons
        have "dlseg (bs_next st) ((bs_prev st)(v := a)) a v (v # xs) 0" by simp
        moreover have "dlseg (bs_next st') (bs_prev st') a v (v # xs) 0
            = dlseg (bs_next st) ((bs_prev st)(v := a)) a v (v # xs) 0"
          by (rule dlseg_cong) (use a e Cons nz in auto)
        ultimately show ?thesis using Cons by simp
      qed
      moreover have "List.last (0 # us) = a" using snoc by simp
      ultimately show ?thesis
        using left[of "hd (vs @ [0])"] True e(2)
          dlseg_join[of "bs_next st'" "bs_prev st'" 0 "bb_avail st" us "hd (vs @ [0])" a vs 0] by metis
    qed
  qed
qed


text \<open>
  The address part of the invariant by itself: the segments tile a region and are free or in
  use, the free ones in address order.
\<close>

definition region :: "(nat \<Rightarrow> int) \<Rightarrow> int \<Rightarrow> nat list \<Rightarrow> int \<Rightarrow> nat list \<Rightarrow> nat list \<Rightarrow> bool" where
  "region t b T e A L \<longleftrightarrow> tiles t b T e \<and> set T = set A \<union> set L \<and> set A \<inter> set L = {} \<and> sorted A \<and> distinct A"

lemma region_join:
  assumes "region t b T e (us @ x # y # vs) L" "int x + t x = int y"
  shows "\<exists>T'. region (t(x := t x + t y)) b T' e (us @ x # vs) L \<and> set T' = set T - {y}"
proof -
  note r = assms(1)[unfolded region_def]
  have "x \<in> set T" "y \<in> set T" using r by auto
  then obtain X Y where T: "T = X @ x # Y" by (meson split_list)
  from r T have "tiles t b (X @ x # Y) e" by simp
  from tiles_next[OF this _ assms(2)] \<open>y \<in> set T\<close> T obtain Z where Y: "Y = y # Z" by blast
  have "tiles (t(x := t x + t y)) b (X @ x # Z) e" by (rule tiles_merge) (use r T Y in simp)
  moreover have s: "set (X @ x # Z) = set T - {y}" using tiles_distinct[of t b T e] r T Y by auto
  moreover have "set T - {y} = set (us @ x # vs) \<union> set L" using r by auto
  moreover have "sorted (us @ x # vs)" "distinct (us @ x # vs)" "set (us @ x # vs) \<inter> set L = {}"
    using r by (auto simp: sorted_append)
  ultimately show ?thesis unfolding region_def by (intro exI[of _ "X @ x # Z"]) simp
qed

lemma region_move:
  assumes "region t b T e (us @ vs) (ls @ p # rs)" "\<forall>u \<in> set us. u < p" "\<forall>v \<in> set vs. p < v"
    "p \<notin> set (ls @ rs)"
  shows "region t b T e (us @ p # vs) (ls @ rs)"
  using assms unfolding region_def by (auto simp: sorted_append)

text \<open>Among free segments only neighbours in the list can be adjacent.\<close>

lemma coalesced_successively:
  assumes "region t b T e A L"
  shows "(\<forall>x \<in> set A. \<forall>y \<in> set A. int x + t x \<noteq> int y) \<longleftrightarrow> successively (\<lambda>x y. int x + t x \<noteq> int y) A"
proof
  assume *: "\<forall>x \<in> set A. \<forall>y \<in> set A. int x + t x \<noteq> int y"
  show "successively (\<lambda>x y. int x + t x \<noteq> int y) A"
    unfolding successively_conv_nth using * by (metis Suc_lessD nth_mem)
next
  assume s: "successively (\<lambda>x y. int x + t x \<noteq> int y) A"
  show "\<forall>x \<in> set A. \<forall>y \<in> set A. int x + t x \<noteq> int y"
  proof (intro ballI notI)
    fix x y assume x: "x \<in> set A" and y: "y \<in> set A" and eq: "int x + t x = int y"
    note r = assms[unfolded region_def]
    have "0 < t x" using tiles_range r x by blast
    with eq have xy: "x < y" by simp
    from x obtain us vs where A: "A = us @ x # vs" by (meson split_list)
    with y xy r have yv: "y \<in> set vs" by (auto simp: sorted_append)
    then obtain v ws where vs: "vs = v # ws" by (cases vs) auto
    from s A vs have "int x + t x \<noteq> int v" by (simp add: successively_append_iff)
    with eq have "v \<noteq> y" by auto
    with yv vs r A have "v < y" by (auto simp: sorted_append less_le)
    moreover have "x < v" using r A vs by (auto simp: sorted_append less_le)
    then have "int x + t x \<le> int v"
      using tiles_disjoint[of t b T e x v] r A vs by auto
    ultimately show False using eq by simp
  qed
qed

lemma apart_cong:
  assumes "successively (\<lambda>x y. int x + t x \<noteq> int y) xs" "\<And>x. x \<in> set xs \<Longrightarrow> t' x = t x"
  shows "successively (\<lambda>x y. int x + t' x \<noteq> int y) xs"
  by (rule successively_mono[OF assms(1)]) (simp add: assms(2))

lemma bsend_inv_region:
  "bsend_inv P st A L T \<longleftrightarrow>
     dll (bs_next st) (bs_prev st) (bb_avail st) A \<and> dll (bs_next st) (bs_prev st) (bb_active st) L
     \<and> bb_pending st = 0 \<and> bb_buffer st \<noteq> 0
     \<and> region (bs_total st) (int (bb_buffer st)) T (int (bb_buffer st) + bb_buffer_size st) A L
     \<and> (\<forall>x \<in> set T. seg_ok P st x) \<and> successively (\<lambda>x y. int x + bs_total st x \<noteq> int y) A"
proof -
  have "dll (bs_next st) (bs_prev st) (bb_avail st) A \<Longrightarrow> distinct A" by (rule dll_distinct)
  then have "bsend_wf P st A L T \<longleftrightarrow>
     dll (bs_next st) (bs_prev st) (bb_avail st) A \<and> dll (bs_next st) (bs_prev st) (bb_active st) L
     \<and> bb_pending st = 0 \<and> bb_buffer st \<noteq> 0
     \<and> region (bs_total st) (int (bb_buffer st)) T (int (bb_buffer st) + bb_buffer_size st) A L
     \<and> (\<forall>x \<in> set T. seg_ok P st x)"
    unfolding bsend_wf_def region_def by blast
  then show ?thesis
    unfolding bsend_inv_def coalesced_def using coalesced_successively by blast
qed

lemma takeWhile_sorted_parts:
  fixes A :: "nat list"
  assumes "sorted A" "p \<notin> set A"
  shows "\<forall>u \<in> set (takeWhile (\<lambda>x. x \<le> p) A). u < p" "\<forall>v \<in> set (dropWhile (\<lambda>x. x \<le> p) A). p < v"
proof -
  show "\<forall>u \<in> set (takeWhile (\<lambda>x. x \<le> p) A). u < p"
    using assms(2) by (metis set_takeWhileD le_neq_implies_less)
  show "\<forall>v \<in> set (dropWhile (\<lambda>x. x \<le> p) A). p < v"
    using assms(1) by (induction A) auto
qed


text \<open>What a release leaves alone: the segments still being sent, and the rest of the state.\<close>

definition keeps_segments :: "bsend_state \<Rightarrow> bsend_state \<Rightarrow> nat list \<Rightarrow> bool" where
  "keeps_segments st st' L \<longleftrightarrow> same_buffer st st' \<and> (\<forall>x \<in> set L. bs_total st' x = bs_total st x)"

lemma join_free_step:
  assumes reg: "region (bs_total st) b T e (xs @ x # y # ys) L" and ok: "\<forall>x \<in> set T. seg_ok P st x"
    and j: "joins st x y"
    and t: "bs_total st' = (bs_total st)(x := bs_total st x + bs_total st y)"
    and z: "bs_size st' = (bs_size st)(x := bs_total st x + bs_total st y - int (HDR P))"
    and f: "same_buffer st st'" "bs_msgbuf st' = bs_msgbuf st"
  shows "\<exists>T'. region (bs_total st') b T' e (xs @ x # ys) L \<and> set T' \<subseteq> set T \<and> (\<forall>x \<in> set T'. seg_ok P st' x)"
proof -
  have "int x + bs_total st x = int y" using j by (simp add: joins_def)
  from region_join[OF reg this] t obtain T' where
    T': "region (bs_total st') b T' e (xs @ x # ys) L" "set T' = set T - {y}" by auto
  have ty: "0 \<le> bs_total st y" using tiles_range reg unfolding region_def by fastforce
  have "seg_ok P st' w" if "w \<in> set T'" for w
    using ok that T'(2) t z f ty unfolding seg_ok_def same_buffer_def by (cases "w = x") auto
  with T' show ?thesis by blast
qed

lemma free_segment_spec:
  assumes inv: "bsend_inv P st A (ls @ p # rs) T"
  shows "\<exists>st' A' T'. MPIR_Bsend_free_segment P p st = Some st' \<and> bsend_inv P st' A' (ls @ rs) T'
    \<and> keeps_segments st st' (ls @ rs)"
proof -
  let ?b = "int (bb_buffer st)" and ?e = "int (bb_buffer st) + bb_buffer_size st"
  note i = inv[unfolded bsend_inv_region]
  have reg: "region (bs_total st) ?b T ?e A (ls @ p # rs)"
    using i by simp
  define st1 where "st1 = bsend_deactivate p st"
  have disj: "set A \<inter> set (ls @ p # rs) = {}" "distinct A" "sorted A" using reg by (auto simp: region_def)
  have dL: "distinct (ls @ p # rs)" using i dll_distinct by blast
  from deactivate_spec[OF _ _ disj(1)] i have s1: "dll (bs_next st1) (bs_prev st1) (bb_active st1) (ls @ rs)"
    "dll (bs_next st1) (bs_prev st1) (bb_avail st) A" "same_buffer st st1" "bb_avail st1 = bb_avail st"
    "bs_total st1 = bs_total st" "bs_size st1 = bs_size st" "bs_msgbuf st1 = bs_msgbuf st"
    unfolding st1_def by simp_all
  define us where "us = takeWhile (\<lambda>x. x \<le> p) A"
  define vs where "vs = dropWhile (\<lambda>x. x \<le> p) A"
  have A: "A = us @ vs" by (simp add: us_def vs_def)
  have pA: "p \<notin> set A" "p \<noteq> 0" using disj i dlseg_nonzero[of "bs_next st" "bs_prev st" 0 "bb_active st" "ls @ p # rs" 0] by auto
  note parts = takeWhile_sorted_parts[OF disj(3) pA(1), folded us_def vs_def]
  have reg1: "region (bs_total st1) ?b T ?e (us @ p # vs) (ls @ rs)"
    unfolding s1(5) by (rule region_move[OF _ parts]) (use reg A dL in auto)
  define av where "av = hd (vs @ [0])"
  define st2 where "st2 = bsend_merge_next P p av st1"
  define vs' where "vs' = (if joins st1 p av then tl vs else vs)"
  have "dll (bs_next st1) (bs_prev st1) (bb_avail st1) (us @ vs)" "p \<notin> set (us @ vs)"
    using s1 A pA by auto
  note m = merge_next_spec[OF this(1) pA(2) this(2) av_def vs'_def st2_def]
  define ap where "ap = List.last (0 # us)"
  define st3 where "st3 = bsend_merge_prev P p ap st2"
  have sub: "set vs' \<subseteq> set vs" by (cases vs) (auto simp: vs'_def)
  have dd: "distinct (us @ p # vs')" using disj(2) A pA(1) sub
    by (cases vs) (auto simp: vs'_def)
  note q = merge_prev_spec[OF m(1,2) dd ap_def st3_def]
  have run: "MPIR_Bsend_free_segment P p st = Some st3"
    using bsend_place_spec[OF dlseg_hlist[OF s1(2)], of p 0]
    by (simp add: MPIR_Bsend_free_segment_def st1_def[symmetric] us_def[symmetric] vs_def[symmetric]
        st3_def st2_def ap_def av_def del: last.simps)
  define A3 where "A3 = (if joins st2 ap p then us @ vs' else us @ p # vs')"
  have ok1: "\<forall>x \<in> set T. seg_ok P st1 x"
    using i s1 by (auto simp: seg_ok_def same_buffer_def)
  have succ: "successively (\<lambda>x y. int x + bs_total st x \<noteq> int y) (us @ vs)" using i A by simp
  have nz: "0 \<notin> set A" using i dlseg_nonzero by blast
  \<comment> \<open>after the first join\<close>
  have "\<exists>T2. region (bs_total st2) ?b T2 ?e (us @ p # vs') (ls @ rs)
      \<and> set T2 \<subseteq> set T \<and> (\<forall>x \<in> set T2. seg_ok P st2 x)"
  proof (cases "joins st1 p av")
    case True
    then have vs: "vs = av # vs'" using av_def vs'_def by (cases vs) (auto simp: joins_def)
    show ?thesis
      by (rule join_free_step[OF _ ok1 True])
        (use True reg1 vs m s1 in simp_all)
  next
    case False
    with reg1 ok1 m(4,7,8,9) show ?thesis
      by (intro exI[of _ T]) (simp add: vs'_def seg_ok_def same_buffer_def)
  qed
  then obtain T2 where T2: "region (bs_total st2) ?b T2 ?e (us @ p # vs') (ls @ rs)"
    "set T2 \<subseteq> set T" "\<forall>x \<in> set T2. seg_ok P st2 x" by blast
  have "\<exists>T3. region (bs_total st3) ?b T3 ?e A3 (ls @ rs)
      \<and> set T3 \<subseteq> set T2 \<and> (\<forall>x \<in> set T3. seg_ok P st3 x)"
  proof (cases "joins st2 ap p")
    case True
    then obtain ws where us: "us = ws @ [ap]" using ap_def by (cases us rule: rev_cases) (auto simp: joins_def)
    have A3: "A3 = ws @ ap # vs'" using True us by (simp add: A3_def)
    show ?thesis unfolding A3
      by (rule join_free_step[OF _ T2(3) True])
        (use True T2 us q in simp_all)
  next
    case False
    with T2 q(3,5,6,7) show ?thesis
      by (intro exI[of _ T2]) (simp add: A3_def seg_ok_def same_buffer_def)
  qed
  then obtain T3 where T3: "region (bs_total st3) ?b T3 ?e A3 (ls @ rs)"
    "\<forall>x \<in> set T3. seg_ok P st3 x" by blast
  have succ_vs: "successively (\<lambda>x y. int x + bs_total st x \<noteq> int y) vs"
    and succ_us: "successively (\<lambda>x y. int x + bs_total st x \<noteq> int y) us"
    using succ by (simp_all add: successively_append_iff)
  have t2: "bs_total st2 x = bs_total st x" if "x \<noteq> p" for x using m(8) s1(5) that by simp
  have c2u: "successively (\<lambda>x y. int x + bs_total st2 x \<noteq> int y) us"
    by (rule apart_cong[OF succ_us], rule t2) (use pA A in auto)
  have c2v: "successively (\<lambda>x y. int x + bs_total st2 x \<noteq> int y) vs"
    by (rule apart_cong[OF succ_vs], rule t2) (use pA A in auto)
  have c2: "successively (\<lambda>x y. int x + bs_total st2 x \<noteq> int y) (p # vs')"
  proof (cases "joins st1 p av")
    case True
    then have vs: "vs = av # vs'" and "int p + bs_total st p = int av"
      using av_def vs'_def s1(5) by (cases vs; auto simp: joins_def)+
    moreover have "av \<noteq> p" using vs A pA(1) by auto
    ultimately show ?thesis using c2v m(8) True s1(5)
      by (auto simp: successively_Cons joins_def t2)
  next
    case False
    with av_def nz A pA m(8) have "vs \<noteq> [] \<longrightarrow> int p + bs_total st2 p \<noteq> int (hd vs)"
      by (cases vs) (auto simp: joins_def)
    with c2v False show ?thesis by (auto simp: successively_Cons vs'_def)
  qed
  have c3: "successively (\<lambda>x y. int x + bs_total st3 x \<noteq> int y) A3"
  proof (cases "joins st2 ap p")
    case False
    then have "us \<noteq> [] \<longrightarrow> int (List.last us) + bs_total st2 (List.last us) \<noteq> int p"
      using nz A pA(2) unfolding ap_def by (cases us rule: rev_cases) (auto simp: joins_def)
    with False c2 c2u q(6) show ?thesis by (auto simp: A3_def successively_append_iff)
  next
    case True
    then obtain ws where us: "us = ws @ [ap]" using ap_def by (cases us rule: rev_cases) (auto simp: joins_def)
    have ap: "ap \<notin> set ws" "ap \<notin> set vs'" using dd us by auto
    have t3: "bs_total st3 x = bs_total st2 x" if "x \<noteq> ap" for x using q(6) that by simp
    have w: "successively (\<lambda>x y. int x + bs_total st2 x \<noteq> int y) ws"
      and v: "successively (\<lambda>x y. int x + bs_total st2 x \<noteq> int y) vs'"
      using c2u c2 us by (auto simp: successively_append_iff successively_Cons)
    have "successively (\<lambda>x y. int x + bs_total st3 x \<noteq> int y) ws"
      by (rule apart_cong[OF w], rule t3) (use ap in auto)
    moreover have "successively (\<lambda>x y. int x + bs_total st3 x \<noteq> int y) vs'"
      by (rule apart_cong[OF v], rule t3) (use ap in auto)
    moreover have "ws \<noteq> [] \<longrightarrow> int (List.last ws) + bs_total st3 (List.last ws) \<noteq> int ap"
    proof
      assume "ws \<noteq> []"
      then have "List.last ws \<noteq> ap" using ap by (metis last_in_set)
      with t3 have "bs_total st3 (List.last ws) = bs_total st2 (List.last ws)" by blast
      with c2u us \<open>ws \<noteq> []\<close> show "int (List.last ws) + bs_total st3 (List.last ws) \<noteq> int ap"
        by (auto simp: successively_append_iff)
    qed
    moreover have "vs' \<noteq> [] \<longrightarrow> int ap + bs_total st3 ap \<noteq> int (hd vs')"
      using c2 True q(6) by (auto simp: successively_Cons joins_def)
    ultimately show ?thesis using True us by (auto simp: A3_def successively_append_iff successively_Cons)
  qed
  have frame: "same_buffer st st3" using s1(3) m(4) q(3) same_buffer_trans by blast
  have "bs_total st3 x = bs_total st x" if "x \<in> set (ls @ rs)" for x
  proof -
    have "x \<noteq> p" "x \<notin> set us" using that dL disj(1) A by auto
    moreover have "x \<noteq> ap" if "joins st2 ap p" using that \<open>x \<notin> set us\<close> ap_def
      by (cases us rule: rev_cases) (auto simp: joins_def)
    ultimately show ?thesis using q(6) m(8) s1(5) by auto
  qed
  moreover have "dll (bs_next st3) (bs_prev st3) (bb_active st3) (ls @ rs)"
  proof -
    have "set (ls @ rs) \<inter> set (us @ p # vs') = {}" "set (ls @ rs) \<inter> set (p # us @ vs) = {}"
      using disj(1) A dL sub by auto
    with m(3) q(2) s1(1) m(5) q(4) show ?thesis by simp
  qed
  moreover have "dll (bs_next st3) (bs_prev st3) (bb_avail st3) A3" using q(1) by (simp add: A3_def)
  ultimately have "bsend_inv P st3 A3 (ls @ rs) T3"
    using T3 c3 frame i unfolding bsend_inv_region same_buffer_def by simp
  with run frame \<open>\<And>x. x \<in> set (ls @ rs) \<Longrightarrow> bs_total st3 x = bs_total st x\<close> show ?thesis
    unfolding keeps_segments_def by blast
qed


section \<open>Taking a segment\<close>

lemma activate_spec:
  assumes "dll (bs_next st) (bs_prev st) (bb_avail st) (us @ p # vs)"
    "dll (bs_next st) (bs_prev st) (bb_active st) L" "set L \<inter> set (us @ p # vs) = {}"
    and st': "st' = bsend_activate p st"
  shows "dll (bs_next st') (bs_prev st') (bb_avail st') (us @ vs)"
    "dll (bs_next st') (bs_prev st') (bb_active st') (p # L)"
    "same_buffer st st' \<and> bs_total st' = bs_total st \<and> bs_size st' = bs_size st \<and> bs_msgbuf st' = bs_msgbuf st"
proof -
  note u = dll_unlink[OF assms(1)]
  let ?nx = "dl_unlink_nx (bs_next st) (bs_prev st) p" and ?pv = "dl_unlink_pv (bs_next st) (bs_prev st) p"
  have d: "distinct (us @ p # vs)" "0 \<notin> set (us @ p # vs)" "0 \<notin> set L" "distinct L"
    using assms(1,2) dll_distinct dlseg_nonzero by blast+
  have ne: "bs_prev st p \<noteq> p" "bs_next st p \<noteq> p"
  proof -
    have "List.last (0 # us) \<noteq> p" "hd (vs @ [0]) \<noteq> p" using d by (cases us rule: rev_cases; cases vs; auto)+
    with u show "bs_prev st p \<noteq> p" "bs_next st p \<noteq> p" by simp_all
  qed
  have act: "bb_active st = hd (L @ [0])" using dlseg_start[OF assms(2)] .
  define pv' where "pv' = (if bb_active st \<noteq> 0 then ?pv(bb_active st := p) else ?pv)"
  have s: "bs_next st' = ?nx(p := bb_active st)" "bs_prev st' = pv'(p := 0)" "bb_active st' = p"
    "bb_avail st' = (if bs_prev st p \<noteq> 0 then bb_avail st else bs_next st p)"
    using ne by (auto simp: st' bsend_activate_def dl_unlink_nx_def dl_unlink_pv_def pv'_def Let_def)
  show "same_buffer st st' \<and> bs_total st' = bs_total st \<and> bs_size st' = bs_size st \<and> bs_msgbuf st' = bs_msgbuf st"
    by (simp add: st' bsend_activate_def Let_def same_buffer_def)
  have actL: "bb_active st \<notin> set (us @ p # vs)" using act assms(3) d by (cases L) auto
  have "dlseg (bs_next st') (bs_prev st') 0 (bb_avail st') (us @ vs) 0 = dlseg ?nx ?pv 0 (bb_avail st') (us @ vs) 0"
    by (rule dlseg_cong) (use d actL s in \<open>auto simp: pv'_def\<close>)
  with u[THEN conjunct1] s(4) show "dll (bs_next st') (bs_prev st') (bb_avail st') (us @ vs)" by simp
  have L: "dlseg ?nx ?pv 0 (bb_active st) L 0"
    using dll_unlink_other[OF assms(1,3), of 0 "bb_active st" 0] assms(2) by simp
  have "dlseg (bs_next st') (bs_prev st') p (bb_active st) L 0"
  proof (cases L)
    case Nil
    with act show ?thesis by simp
  next
    case (Cons a L')
    with act have a: "bb_active st = a" "a \<noteq> 0" using d by auto
    from dlseg_reprev[of ?nx ?pv 0 a a L' 0 p] L Cons a d
    have "dlseg ?nx pv' p a (a # L') 0" by (simp add: pv'_def)
    moreover have "dlseg (bs_next st') (bs_prev st') p a (a # L') 0 = dlseg ?nx pv' p a (a # L') 0"
      by (rule dlseg_cong) (use s assms(3) Cons in auto)
    ultimately show ?thesis using Cons a by simp
  qed
  with s d show "dll (bs_next st') (bs_prev st') (bb_active st') (p # L)" by simp
qed

lemma dll_insert_after:
  assumes "dll nx pv a (us @ p # vs)" "n \<noteq> 0" "n \<notin> set (us @ p # vs)"
    "nx' = nx(n := nx p, p := n)" "pv' = (if nx p \<noteq> 0 then (pv(n := p))(nx p := n) else pv(n := p))"
  shows "dll nx' pv' a (us @ p # n # vs)"
    "set zs \<inter> set (n # us @ p # vs) = {} \<Longrightarrow> dlseg nx' pv' prv r zs q = dlseg nx pv prv r zs q"
proof -
  have d: "distinct (us @ p # vs)" "0 \<notin> set (us @ p # vs)"
    using assms(1) dll_distinct dlseg_nonzero by blast+
  from assms(1) obtain left: "dlseg nx pv 0 a us p" and right: "dlseg nx pv p (nx p) vs 0"
    and p: "pv p = List.last (0 # us)" by (auto simp: dlseg_append)
  have np: "nx p = hd (vs @ [0])" using dlseg_start[OF right] .
  have hv: "hd (vs @ [0]) = 0 \<or> hd (vs @ [0]) \<in> set vs" by (cases vs) auto
  have keep: "nx' x = nx x \<and> pv' x = pv x" if "x \<noteq> p" "x \<noteq> n" "x \<notin> set vs" for x
    using that hv np assms(4,5) by auto
  show "dlseg nx' pv' prv r zs q = dlseg nx pv prv r zs q" if "set zs \<inter> set (n # us @ p # vs) = {}"
  proof (rule dlseg_cong)
    fix x assume "x \<in> set zs"
    with that have "x \<noteq> p" "x \<noteq> n" "x \<notin> set vs" by auto
    from keep[OF this] show "nx' x = nx x \<and> pv' x = pv x" .
  qed
  have "dlseg nx' pv' 0 a us p = dlseg nx pv 0 a us p"
  proof (rule dlseg_cong)
    fix x assume "x \<in> set us"
    with d assms(3) have "x \<noteq> p" "x \<noteq> n" "x \<notin> set vs" by auto
    from keep[OF this] show "nx' x = nx x \<and> pv' x = pv x" .
  qed
  with left have l: "dlseg nx' pv' 0 a us p" by simp
  have v: "dlseg nx' pv' n (nx p) vs 0"
  proof (cases vs)
    case Nil
    with np show ?thesis by simp
  next
    case (Cons v ws)
    then have nv: "nx p = v" "v \<noteq> 0" using np d by auto
    from dlseg_reprev[of nx pv p v v ws 0 n] right Cons nv d
    have "dlseg nx (pv(v := n)) n v (v # ws) 0" by simp
    moreover have "dlseg nx' pv' n v (v # ws) 0 = dlseg nx (pv(v := n)) n v (v # ws) 0"
      by (rule dlseg_cong) (use assms nv d Cons in auto)
    ultimately show ?thesis using Cons nv by simp
  qed
  have "pv' p = List.last (0 # us)" "nx' p = n" "nx' n = nx p" "pv' n = p" "p \<noteq> 0"
    using assms p d hv np by auto
  with v assms(2) have "dlseg nx' pv' (List.last (0 # us)) p (p # n # vs) 0" by simp
  from dlseg_join[OF l refl this] show "dll nx' pv' a (us @ p # n # vs)" .
qed

lemma alloc_size_props:
  assumes "0 \<le> n"
  shows "n \<le> bsend_alloc_size n" "bsend_alloc_size n < n + 8" "bsend_alloc_size n mod 8 = 0"
proof -
  have a: "n AND 7 = n mod 8" for n :: int
    using take_bit_eq_mask[of 3 n] by (simp add: take_bit_eq_mod mask_eq_exp_minus_1)
  show "n \<le> bsend_alloc_size n" "bsend_alloc_size n < n + 8" "bsend_alloc_size n mod 8 = 0"
    unfolding bsend_alloc_size_def a by (auto; presburger)+
qed


lemma region_take:
  "region t b T e (us @ p # vs) L \<Longrightarrow> region t b T e (us @ vs) (p # L)"
  unfolding region_def by (auto simp: sorted_append)

lemma bsend_invI:
  assumes "dll (bs_next st) (bs_prev st) (bb_avail st) A" "dll (bs_next st) (bs_prev st) (bb_active st) L"
    "bb_pending st = 0" "bb_buffer st \<noteq> 0"
    "region (bs_total st) (int (bb_buffer st)) T (int (bb_buffer st) + bb_buffer_size st) A L"
    "\<forall>x \<in> set T. seg_ok P st x" "\<forall>x \<in> set A. \<forall>y \<in> set A. int x + bs_total st x \<noteq> int y"
  shows "bsend_inv P st A L T"
  unfolding bsend_inv_region using assms coalesced_successively[OF assms(5)] by blast

lemma bsend_invD:
  assumes "bsend_inv P st A L T"
  shows "dll (bs_next st) (bs_prev st) (bb_avail st) A" "dll (bs_next st) (bs_prev st) (bb_active st) L"
    "bb_pending st = 0" "bb_buffer st \<noteq> 0"
    "region (bs_total st) (int (bb_buffer st)) T (int (bb_buffer st) + bb_buffer_size st) A L"
    "\<forall>x \<in> set T. seg_ok P st x" "\<forall>x \<in> set A. \<forall>y \<in> set A. int x + bs_total st x \<noteq> int y"
  using assms unfolding bsend_inv_region using coalesced_successively by blast+

text \<open>The state after the cut, when the remainder is large enough.\<close>

lemma split_fields:
  assumes "a + int (HDR P) + 8 \<le> bs_size st p" "0 \<le> a" "0 < HDR P" "bs_next st p \<noteq> p"
    "k = HDR P + nat a" "st' = bsend_split P p a st"
  shows "bs_next st' = (bs_next st)(p + k := bs_next st p, p := p + k)"
    "bs_prev st' = (if bs_next st p \<noteq> 0 then ((bs_prev st)(p + k := p))(bs_next st p := p + k)
       else (bs_prev st)(p + k := p))"
    "bs_total st' = (bs_total st)(p + k := bs_total st p - int k, p := int k)"
    "bs_size st' = (bs_size st)(p + k := bs_total st p - int k - int (HDR P), p := int k - int (HDR P))"
    "bs_msgbuf st' = (bs_msgbuf st)(p + k := p + k + HDR P)"
    "same_buffer st st'" "bb_avail st' = bb_avail st" "bb_active st' = bb_active st"
  using assms by (auto simp: bsend_split_def Let_def same_buffer_def algebra_simps)

lemma split_region:
  assumes reg: "region t b T e (us @ p # vs) L" and k: "0 < k" "int k < t p"
  shows "\<exists>T'. region (t(p + k := t p - int k, p := int k)) b T' e (us @ p # (p + k) # vs) L
    \<and> set T' = insert (p + k) (set T)" "p + k \<notin> set (us @ p # vs) \<union> set L"
proof -
  note r = reg[unfolded region_def]
  have "p \<in> set T" using r by auto
  then obtain X Y where T: "T = X @ p # Y" by (meson split_list)
  have tl: "tiles t b (X @ p # Y) e" using r T by simp
  note s = tiles_split[OF tl k]
  show new: "p + k \<notin> set (us @ p # vs) \<union> set L"
    using s(2) unfolding T[symmetric] using r by blast
  have "p + k < v" if v: "v \<in> set vs" for v
  proof -
    have "p < v" using r v by (auto simp: sorted_append less_le)
    then have "int p + t p \<le> int v"
      using tiles_disjoint[of t b T e p v] r v by auto
    with k show ?thesis by simp
  qed
  moreover have "\<forall>u \<in> set us. u \<le> p" using r by (auto simp: sorted_append)
  ultimately have "sorted (us @ p # (p + k) # vs)" "distinct (us @ p # (p + k) # vs)"
    using r new by (force simp: sorted_append)+
  moreover have "set (X @ p # (p + k) # Y) = set (us @ p # (p + k) # vs) \<union> set L" using r T by auto
  moreover have "set (us @ p # (p + k) # vs) \<inter> set L = {}" using r new by auto
  ultimately have "region (t(p + k := t p - int k, p := int k)) b (X @ p # (p + k) # Y) e (us @ p # (p + k) # vs) L"
    using s(1) unfolding region_def by blast
  with T show "\<exists>T'. region (t(p + k := t p - int k, p := int k)) b T' e (us @ p # (p + k) # vs) L
    \<and> set T' = insert (p + k) (set T)" by (intro exI[of _ "X @ p # (p + k) # Y"]) auto
qed

lemma take_no_split:
  assumes inv: "bsend_inv P st (us @ p # vs) L T"
    and st': "st' = bsend_activate p st"
  shows "bsend_inv P st' (us @ vs) (p # L) T" "keeps_segments st st' (p # L)"
    "bs_size st' p = bs_size st p" "bs_msgbuf st' = bs_msgbuf st"
proof -
  note i = bsend_invD[OF inv]
  have disj: "set L \<inter> set (us @ p # vs) = {}" using i(5) by (auto simp: region_def)
  note a = activate_spec[OF i(1,2) disj st']
  show "bsend_inv P st' (us @ vs) (p # L) T"
    by (rule bsend_invI[OF a(1,2)])
      (use i a(3) region_take[OF i(5)] in \<open>auto simp: same_buffer_def seg_ok_def\<close>)
  show "keeps_segments st st' (p # L)" "bs_size st' p = bs_size st p" "bs_msgbuf st' = bs_msgbuf st"
    using a(3) by (simp_all add: keeps_segments_def)
qed


lemma take_split:
  assumes P: "platform_ok P" and inv: "bsend_inv P st (us @ p # vs) L T"
    and a: "0 \<le> a" "a mod 8 = 0" "a + int (HDR P) + 8 \<le> bs_size st p"
    and st': "st' = bsend_activate p (bsend_split P p a st)"
  shows "\<exists>n T'. bsend_inv P st' (us @ n # vs) (p # L) T' \<and> keeps_segments st st' L
    \<and> bs_size st' p = a \<and> bs_msgbuf st' p = p + HDR P"
proof -
  note i = bsend_invD[OF inv]
  define k where "k = HDR P + nat a"
  define s1 where "s1 = bsend_split P p a st"
  have H: "0 < HDR P" "HDR P mod 8 = 0" using P by (simp_all add: platform_ok_def)
  have pT: "p \<in> set T" using i(5) by (auto simp: region_def)
  then have ok: "bs_size st p = bs_total st p - int (HDR P)" "bs_msgbuf st p = p + HDR P" "p mod 8 = bb_buffer st mod 8"
    using i(6) by (auto simp: seg_ok_def)
  have "0 \<notin> set (us @ p # vs)" "distinct (us @ p # vs)" using i(1) dlseg_nonzero dll_distinct by blast+
  moreover have "bs_next st p = hd (vs @ [0])" using dll_unlink[OF i(1)] by simp
  ultimately have ne: "bs_next st p \<noteq> p" by (cases vs) auto
  note f = split_fields[OF a(3,1) H(1) ne k_def s1_def]
  have k: "0 < k" "int k < bs_total st p" using H a ok by (simp_all add: k_def)
  from split_region[OF i(5) k] f(3,6) obtain T' where
    reg: "region (bs_total s1) (int (bb_buffer st)) T' (int (bb_buffer st) + bb_buffer_size st) (us @ p # (p + k) # vs) L"
    and T': "set T' = insert (p + k) (set T)" and new: "p + k \<notin> set (us @ p # vs) \<union> set L" by auto
  have nz: "p + k \<noteq> 0" using k by simp
  note ins = dll_insert_after[OF i(1) nz _ f(1,2)]
  have d1: "dll (bs_next s1) (bs_prev s1) (bb_avail s1) (us @ p # (p + k) # vs)"
    using ins(1) new f(7) by simp
  have "set L \<inter> set ((p + k) # us @ p # vs) = {}" using i(5) new by (auto simp: region_def)
  with ins(2)[of L] new i(2) f(8) have d2: "dll (bs_next s1) (bs_prev s1) (bb_active s1) L" by simp
  have disj: "set L \<inter> set (us @ p # (p + k) # vs) = {}" using reg by (auto simp: region_def)
  have st1: "st' = bsend_activate p s1" by (simp add: st' s1_def)
  note act = activate_spec[OF d1 d2 disj st1]
  have reg': "region (bs_total s1) (int (bb_buffer st)) T' (int (bb_buffer st) + bb_buffer_size st)
      (us @ (p + k) # vs) (p # L)" by (rule region_take[OF reg])
  have sk: "seg_ok P s1 x" if "x \<in> set T'" for x
  proof -
    have "x = p + k \<or> x \<in> set T" using that T' by simp
    then consider "x = p + k" | "x = p" | "x \<in> set T" "x \<noteq> p" "x \<noteq> p + k" by (cases "x = p + k"; cases "x = p"; simp)
    then show ?thesis
    proof cases
      case 1
      have "8 dvd nat a" using a(1,2) by presburger
      then have "8 dvd k" using H(2) unfolding k_def by (simp add: mod_eq_0_iff_dvd)
      then have "(p + k) mod 8 = bb_buffer st mod 8" unfolding ok(3)[symmetric] by (auto simp: dvd_def)
      moreover have "int (HDR P) \<le> bs_total st p - int k" using a ok(1) by (simp add: k_def)
      ultimately show ?thesis using 1 f(3-6) k(1) by (simp add: seg_ok_def same_buffer_def)
    next
      case 2
      moreover have "int (HDR P) \<le> int k" by (simp add: k_def)
      ultimately show ?thesis using f(3-6) k(1) ok by (simp add: seg_ok_def same_buffer_def)
    next
      case 3
      with f i(6) show ?thesis by (auto simp: seg_ok_def same_buffer_def)
    qed
  qed
  have apart: "int x + bs_total s1 x \<noteq> int y" if x: "x \<in> set (us @ (p + k) # vs)" and y: "y \<in> set (us @ (p + k) # vs)" for x y
  proof -
    have "x \<noteq> p" "y \<noteq> p" using that reg by (auto simp: region_def)
    show ?thesis
    proof (cases "y = p + k")
      case False
      then have yA: "y \<in> set (us @ p # vs)" using y by auto
      show ?thesis
      proof (cases "x = p + k")
        case True
        with f(3) have "int x + bs_total s1 x = int p + bs_total st p" using k by simp
        moreover have "int p + bs_total st p \<noteq> int y" using i(7) yA by (meson in_set_conv_decomp)
        ultimately show ?thesis by simp
      next
        case False
        with x have "x \<in> set (us @ p # vs)" by auto
        then have "int x + bs_total st x \<noteq> int y" using i(7) yA by blast
        with f(3) False \<open>x \<noteq> p\<close> show ?thesis by simp
      qed
    next
      case True
      show ?thesis
      proof
        assume eq: "int x + bs_total s1 x = int y"
        have xT: "x \<in> set T'" "p \<in> set T'" "tiles (bs_total s1) (int (bb_buffer st)) T' (int (bb_buffer st) + bb_buffer_size st)"
          using x reg' pT T' by (auto simp: region_def)
        have "0 < bs_total s1 x" using tiles_range[OF xT(3)] xT(1) by blast
        with eq True have "x < p + k" by simp
        moreover have "\<not> p < x"
        proof
          assume "p < x"
          with tiles_disjoint[OF xT(3,2,1)] f(3) have "p + k \<le> x" by simp
          with \<open>x < p + k\<close> show False by simp
        qed
        ultimately have "x < p" using \<open>x \<noteq> p\<close> by simp
        with tiles_disjoint[OF xT(3,1,2)] eq True k show False by simp
      qed
    qed
  qed
  have "bsend_inv P st' (us @ (p + k) # vs) (p # L) T'"
  proof (rule bsend_invI[OF act(1,2)])
    show "bb_pending st' = 0" "bb_buffer st' \<noteq> 0"
      using act(3) f(6) i(3,4) by (simp_all add: same_buffer_def)
    show "region (bs_total st') (int (bb_buffer st')) T' (int (bb_buffer st') + bb_buffer_size st') (us @ (p + k) # vs) (p # L)"
      using act(3) f(6) reg' by (simp add: same_buffer_def)
    show "\<forall>x \<in> set T'. seg_ok P st' x" using act(3) sk by (simp add: same_buffer_def seg_ok_def)
    show "\<forall>x \<in> set (us @ (p + k) # vs). \<forall>y \<in> set (us @ (p + k) # vs). int x + bs_total st' x \<noteq> int y"
      using apart act(3) by auto
  qed
  moreover have "keeps_segments st st' L"
  proof -
    have "bs_total st' x = bs_total st x" if "x \<in> set L" for x
      using that act(3) f(3) new i(5) by (auto simp: region_def)
    then show ?thesis using act(3) f(6) same_buffer_trans unfolding keeps_segments_def by blast
  qed
  moreover have "bs_size st' p = a" "bs_msgbuf st' p = p + HDR P"
    using act(3) f ok k a by (simp_all add: k_def)
  ultimately show ?thesis by blast
qed

lemma take_spec:
  assumes P: "platform_ok P" and inv: "bsend_inv P st (us @ p # vs) L T" and n: "0 \<le> n" "n \<le> bs_size st p"
    and st': "st' = MPIR_Bsend_take_buffer P p n st"
  shows "\<exists>A' T'. bsend_inv P st' A' (p # L) T' \<and> keeps_segments st st' L \<and> n \<le> bs_size st' p
    \<and> bs_msgbuf st' p = p + HDR P"
proof (cases "bsend_alloc_size n + int (HDR P) + 8 \<le> bs_size st p")
  case True
  note al = alloc_size_props[OF n(1)]
  have "0 \<le> bsend_alloc_size n" using al n by simp
  from take_split[OF P inv this al(3) True st'[unfolded MPIR_Bsend_take_buffer_def]] obtain m T' where
    "bsend_inv P st' (us @ m # vs) (p # L) T'" "keeps_segments st st' L" "bs_size st' p = bsend_alloc_size n"
    "bs_msgbuf st' p = p + HDR P"
    by (elim exE conjE)
  with al(1) show ?thesis by (intro exI[of _ "us @ m # vs"] exI[of _ T']) simp
next
  case False
  then have "st' = bsend_activate p st" by (simp add: st' MPIR_Bsend_take_buffer_def bsend_split_def)
  note t = take_no_split[OF inv this]
  have "p \<in> set T" using bsend_invD(5)[OF inv] by (auto simp: region_def)
  then have "bs_msgbuf st p = p + HDR P" using bsend_invD(6)[OF inv] by (simp add: seg_ok_def)
  with t n show ?thesis unfolding keeps_segments_def by (intro exI[of _ "us @ vs"] exI[of _ T]) simp
qed


section \<open>Progress and sending\<close>

lemma bsend_find_spec:
  "hlist nx p A \<Longrightarrow> bsend_find nx szs n p = Some (case List.find (\<lambda>x. n \<le> szs x) A of None \<Rightarrow> 0 | Some x \<Rightarrow> x)"
proof (induction A arbitrary: p)
  case Nil
  then show ?case by (subst bsend_find.simps) simp
next
  case (Cons x A)
  then show ?case using Cons.IH[of "nx x"] by (subst bsend_find.simps) auto
qed

lemma find_buffer_spec:
  assumes "bsend_inv P st A L T"
  shows "MPIR_Bsend_find_buffer st n = Some (case List.find (\<lambda>x. n \<le> bs_size st x) A of None \<Rightarrow> 0 | Some x \<Rightarrow> x)"
  unfolding MPIR_Bsend_find_buffer_def
  by (rule bsend_find_spec[OF dlseg_hlist[OF bsend_invD(1)[OF assms]]])

lemma keeps_segments_done: "same_buffer st st' \<Longrightarrow> bsend_done g st' = bsend_done g st"
  by (rule ext) (simp add: bsend_done_def same_buffer_def)

lemma check_active_loop_spec:
  assumes "bsend_inv P st A (kept @ todo) T" "act = hd (todo @ [0])"
  shows "\<exists>st' A' T'. check_active_loop P g act st = Some st'
    \<and> bsend_inv P st' A' (kept @ filter (\<lambda>p. \<not> bsend_done g st p) todo) T'
    \<and> keeps_segments st st' (kept @ filter (\<lambda>p. \<not> bsend_done g st p) todo)"
  using assms
proof (induction todo arbitrary: st A T kept act)
  case Nil
  then show ?case
    by (subst check_active_loop.simps) (auto simp: keeps_segments_def)
next
  case (Cons x todo)
  note i = bsend_invD[OF Cons.prems(1)]
  have x: "act = x" "x \<noteq> 0" using Cons.prems(2) dlseg_nonzero[OF i(2)] by auto
  have nx: "bs_next st x = hd (todo @ [0])" using dll_unlink[OF i(2)] by simp
  show ?case
  proof (cases "bsend_done g st x")
    case False
    with Cons.IH[of st A "kept @ [x]" T "bs_next st x"] Cons.prems(1) nx x show ?thesis
      by (subst check_active_loop.simps) simp
  next
    case True
    from free_segment_spec[OF Cons.prems(1)] obtain st1 A1 T1 where
      f: "MPIR_Bsend_free_segment P x st = Some st1" "bsend_inv P st1 A1 (kept @ todo) T1"
        "keeps_segments st st1 (kept @ todo)" by blast
    have dn: "bsend_done g st1 = bsend_done g st"
      using f(3) keeps_segments_done by (simp add: keeps_segments_def)
    from Cons.IH[OF f(2), of "bs_next st x"] nx obtain st2 A2 T2 where
      r: "check_active_loop P g (bs_next st x) st1 = Some st2"
        "bsend_inv P st2 A2 (kept @ filter (\<lambda>p. \<not> bsend_done g st p) todo) T2"
        "keeps_segments st1 st2 (kept @ filter (\<lambda>p. \<not> bsend_done g st p) todo)" by (auto simp: dn)
    have "keeps_segments st st2 (kept @ filter (\<lambda>p. \<not> bsend_done g st p) todo)"
      using f(3) r(3) same_buffer_trans unfolding keeps_segments_def by auto
    moreover have "check_active_loop P g act st = Some st2"
      using True f r x by (subst check_active_loop.simps) (simp add: Let_def)
    moreover have "filter (\<lambda>p. \<not> bsend_done g st p) (x # todo) = filter (\<lambda>p. \<not> bsend_done g st p) todo"
      using True by simp
    ultimately show ?thesis using r(2) by metis
  qed
qed

lemma check_active_spec:
  assumes "bsend_inv P st A L T"
  shows "\<exists>st' A' T'. MPIR_Bsend_check_active P g st = Some st'
    \<and> bsend_inv P st' A' (filter (\<lambda>p. \<not> bsend_done g st p) L) T'
    \<and> keeps_segments st st' (filter (\<lambda>p. \<not> bsend_done g st p) L)"
  using check_active_loop_spec[of P st A "[]" L T] assms dlseg_start[OF bsend_invD(2)[OF assms]]
  by (simp add: MPIR_Bsend_check_active_def)

text \<open>The fields of a message do not matter to the lists of segments.\<close>

lemma bsend_inv_message [simp]:
  "bsend_inv P (st\<lparr>bs_count := c, bs_request := r\<rparr>) A L T = bsend_inv P st A L T"
  "bsend_inv P (st\<lparr>bs_kind := k\<rparr>) A L T = bsend_inv P st A L T"
  by (simp_all add: bsend_inv_region seg_ok_def)

text \<open>A message in its segment: room for the packed data, its request and kind, others as they were.\<close>

definition message_stored :: "platform \<Rightarrow> message \<Rightarrow> BsendKind_t \<Rightarrow> bsend_state \<Rightarrow> bsend_state \<Rightarrow> nat \<Rightarrow> nat list \<Rightarrow> bool" where
  "message_stored P msg kind st st' p L \<longleftrightarrow> packed msg \<le> bs_size st' p \<and> bs_msgbuf st' p = p + HDR P
     \<and> bs_request st' p = isend_request msg \<and> bs_kind st' p = kind \<and> bs_count st' p = packed msg
     \<and> (\<forall>x \<in> set L. bs_total st' x = bs_total st x \<and> bs_request st' x = bs_request st x \<and> bs_kind st' x = bs_kind st x)"

lemma bsend_start_spec:
  assumes P: "platform_ok P" and inv: "bsend_inv P st A L T" and p: "p \<in> set A" "packsize msg \<le> bs_size st p"
    and m: "0 \<le> packed msg" "packed msg \<le> packsize msg"
    and run: "bsend_start P msg kind p st = (st', r)"
  shows "r = isend_request msg \<and> same_buffer (st\<lparr>bs_kind := bs_kind st', bs_request := bs_request st', bs_count := bs_count st'\<rparr>) st'
    \<and> (if r = 0 then bsend_inv P st' A L T
       else \<exists>A' T'. bsend_inv P st' A' (p # L) T' \<and> message_stored P msg kind st st' p L)"
proof -
  define st1 where "st1 = st\<lparr>bs_count := (bs_count st)(p := packed msg), bs_request := (bs_request st)(p := isend_request msg)\<rparr>"
  have i1: "bsend_inv P st1 A L T" using inv by (simp add: st1_def)
  show ?thesis
  proof (cases "isend_request msg = 0")
    case True
    then have "st' = st1" "r = 0" using run by (simp_all add: bsend_start_def st1_def)
    with True i1 show ?thesis by (simp add: same_buffer_def) (simp add: st1_def)
  next
    case False
    from p(1) obtain us vs where A: "A = us @ p # vs" by (meson split_list)
    have pL: "p \<notin> set L" using bsend_invD(5)[OF inv] p(1) by (auto simp: region_def)
    define st2 where "st2 = MPIR_Bsend_take_buffer P p (packed msg) st1"
    have "packed msg \<le> bs_size st1 p" using p(2) m by (simp add: st1_def)
    from take_spec[OF P i1[unfolded A] m(1) this st2_def] obtain A' T' where
      t: "bsend_inv P st2 A' (p # L) T'" "keeps_segments st1 st2 L" "packed msg \<le> bs_size st2 p"
        "bs_msgbuf st2 p = p + HDR P" by blast
    have st': "st' = st2\<lparr>bs_kind := (bs_kind st2)(p := kind)\<rparr>" "r = isend_request msg"
      using run False by (auto simp: bsend_start_def st1_def[symmetric] st2_def[symmetric] Let_def)
    have "message_stored P msg kind st st' p L"
      using t pL unfolding message_stored_def st' keeps_segments_def same_buffer_def by (auto simp: st1_def)
    moreover have "bsend_inv P st' A' (p # L) T'" using t(1) st' by simp
    moreover have "same_buffer (st\<lparr>bs_kind := bs_kind st', bs_request := bs_request st', bs_count := bs_count st'\<rparr>) st'"
      using t(2) by (simp add: st' keeps_segments_def same_buffer_def st1_def)
    ultimately show ?thesis using False st' by auto
  qed
qed


lemma pending_empty: "bsend_inv P st A L T \<Longrightarrow> MPIR_Bsend_retry_pending nx (bb_pending st) = Some ()"
  by (subst MPIR_Bsend_retry_pending.simps) (simp add: bsend_invD)

lemma find_enough:
  assumes "bsend_inv P st A L T" "MPIR_Bsend_find_buffer st n = Some p" "p \<noteq> 0"
  shows "p \<in> set A \<and> n \<le> bs_size st p"
  using assms find_buffer_spec[OF assms(1), of n] by (auto split: option.splits simp: find_Some_iff)

lemma find_none:
  assumes "bsend_inv P st A L T" "MPIR_Bsend_find_buffer st n = Some 0"
  shows "\<forall>x \<in> set A. bs_size st x < n"
proof -
  have "0 \<notin> set A" by (rule dlseg_nonzero[OF bsend_invD(1)[OF assms(1)]])
  then show ?thesis
    using assms(2) find_buffer_spec[OF assms(1), of n]
    by (auto split: option.splits simp: find_None_iff find_Some_iff not_le) (metis nth_mem)
qed

text \<open>The outcomes of \<open>MPIR_Bsend_isend\<close>; \<open>L\<close> are the segments still being sent.\<close>

definition isend_outcome :: "platform \<Rightarrow> message \<Rightarrow> BsendKind_t \<Rightarrow> bsend_state \<Rightarrow> bsend_state \<Rightarrow> (mpi_err + nat) \<Rightarrow> nat list \<Rightarrow> bool" where
  "isend_outcome P msg kind st st' r L \<longleftrightarrow>
     (case r of
        Inl e \<Rightarrow> e = new_error MPI_ERR_BUFFER ''**bufbsend''
          \<and> (\<exists>A T. bsend_inv P st' A L T \<and> (\<forall>x \<in> set A. bs_size st' x < packsize msg))
      | Inr q \<Rightarrow> q = isend_request msg
          \<and> (if q = 0 then \<exists>A T. bsend_inv P st' A L T
             else \<exists>p A T. p \<notin> set L \<and> bsend_inv P st' A (p # L) T \<and> message_stored P msg kind st st' p L))"

lemma start_outcome:
  assumes P: "platform_ok P" and inv: "bsend_inv P st1 A L T"
    and p: "MPIR_Bsend_find_buffer st1 (packsize msg) = Some p" "p \<noteq> 0"
    and m: "0 \<le> packed msg" "packed msg \<le> packsize msg"
    and keep: "keeps_segments st st1 L" and run: "bsend_start P msg kind p st1 = (st', r)"
  shows "isend_outcome P msg kind st st' (Inr r) L"
proof -
  note pa = find_enough[OF inv p]
  have pL: "p \<notin> set L" using bsend_invD(5)[OF inv] pa by (auto simp: region_def)
  have t: "message_stored P msg kind st1 st' p L \<Longrightarrow> message_stored P msg kind st st' p L"
    using keep by (simp add: message_stored_def keeps_segments_def same_buffer_def)
  from bsend_start_spec[OF P inv _ _ m run] pa
  have s: "r = isend_request msg" "if r = 0 then bsend_inv P st' A L T
       else \<exists>A' T'. bsend_inv P st' A' (p # L) T' \<and> message_stored P msg kind st1 st' p L" by auto
  show ?thesis
  proof (cases "r = 0")
    case True
    with s show ?thesis unfolding isend_outcome_def by (auto intro: exI[of _ A] exI[of _ T])
  next
    case False
    with s t obtain A' T' where "bsend_inv P st' A' (p # L) T'" "message_stored P msg kind st st' p L" by auto
    with False s(1) pL show ?thesis unfolding isend_outcome_def by (auto intro!: exI[of _ p])
  qed
qed

lemma isend_spec:
  assumes P: "platform_ok P" and inv: "bsend_inv P st A L T"
    and m: "0 \<le> packed msg" "packed msg \<le> packsize msg"
  shows "\<exists>st' r. MPIR_Bsend_isend P msg kind g1 g2 st = Some (st', r)
    \<and> (isend_outcome P msg kind st st' r (filter (\<lambda>p. \<not> bsend_done g1 st p) L)
       \<or> isend_outcome P msg kind st st' r (filter (\<lambda>p. \<not> bsend_done g2 st p) (filter (\<lambda>p. \<not> bsend_done g1 st p) L)))"
proof -
  let ?L1 = "filter (\<lambda>p. \<not> bsend_done g1 st p) L"
  let ?L2 = "filter (\<lambda>p. \<not> bsend_done g2 st p) ?L1"
  from check_active_spec[OF inv, of g1] obtain st1 A1 T1 where
    c1: "MPIR_Bsend_check_active P g1 st = Some st1" "bsend_inv P st1 A1 ?L1 T1" "keeps_segments st st1 ?L1" by blast
  from find_buffer_spec[OF c1(2)] obtain p where p: "MPIR_Bsend_find_buffer st1 (packsize msg) = Some p" by blast
  show ?thesis
  proof (cases "p = 0")
    case False
    obtain st' r where s: "bsend_start P msg kind p st1 = (st', r)" by fastforce
    have "MPIR_Bsend_isend P msg kind g1 g2 st = Some (st', Inr r)"
      using c1(1) p False s by (simp add: MPIR_Bsend_isend_def)
    with start_outcome[OF P c1(2) p False m c1(3) s] show ?thesis by blast
  next
    case True
    from check_active_spec[OF c1(2), of g2] obtain st2 A2 T2 where
      c2: "MPIR_Bsend_check_active P g2 st1 = Some st2"
        "bsend_inv P st2 A2 (filter (\<lambda>p. \<not> bsend_done g2 st1 p) ?L1) T2"
        "keeps_segments st1 st2 (filter (\<lambda>p. \<not> bsend_done g2 st1 p) ?L1)" by blast
    have d: "bsend_done g2 st1 = bsend_done g2 st"
      using c1(3) keeps_segments_done by (simp add: keeps_segments_def)
    note c2 = c2[unfolded d]
    have k: "keeps_segments st st2 ?L2"
      using c1(3) c2(3) same_buffer_trans unfolding keeps_segments_def by auto
    from find_buffer_spec[OF c2(2)] obtain q where q: "MPIR_Bsend_find_buffer st2 (packsize msg) = Some q" by blast
    note run = c1(1) c2(1) p q True pending_empty[OF c2(2)]
    show ?thesis
    proof (cases "q = 0")
      case False
      obtain st' r where s: "bsend_start P msg kind q st2 = (st', r)" by fastforce
      have "MPIR_Bsend_isend P msg kind g1 g2 st = Some (st', Inr r)"
        using run False s by (simp add: MPIR_Bsend_isend_def)
      with start_outcome[OF P c2(2) q False m k s] show ?thesis by blast
    next
      case True
      have "MPIR_Bsend_isend P msg kind g1 g2 st = Some (st2, Inl (new_error MPI_ERR_BUFFER ''**bufbsend''))"
        using run True by (simp add: MPIR_Bsend_isend_def)
      moreover have "isend_outcome P msg kind st st2 (Inl (new_error MPI_ERR_BUFFER ''**bufbsend'')) ?L2"
        using c2(2) find_none[OF c2(2)] q True unfolding isend_outcome_def by auto
      ultimately show ?thesis by blast
    qed
  qed
qed

text \<open>Attaching an aligned buffer gives one free segment, the whole of it.\<close>

lemma attach_spec:
  assumes P: "platform_ok P" and det: "bb_buffer st = 0" and b: "buf \<noteq> 0" "buf mod PTR P = 0" "OVERHEAD P \<le> n"
    and run: "MPIR_Bsend_attach P buf n st = (st', r)"
  shows "r = Inr () \<and> bsend_inv P st' [buf] [] [buf] \<and> bb_buffer st' = buf \<and> bb_buffer_size st' = n
    \<and> bb_origbuffer st' = buf \<and> bb_origbuffer_size st' = n"
proof -
  have n: "int (HDR P) \<le> n" "0 < n" using P b(3) by (auto simp: platform_ok_def)
  show ?thesis
    using run det b n by (auto simp: MPIR_Bsend_attach_def Let_def bsend_inv_region region_def seg_ok_def)
qed

section \<open>Runs\<close>

inductive bsend_reachable :: "platform \<Rightarrow> bsend_state \<Rightarrow> bool" for P where
  attached: "bb_buffer st = 0 \<Longrightarrow> buf \<noteq> 0 \<Longrightarrow> buf mod PTR P = 0 \<Longrightarrow> MPIR_Bsend_attach P buf n st = (st', Inr ())
    \<Longrightarrow> bsend_reachable P st'"
| sent: "bsend_reachable P st \<Longrightarrow> 0 \<le> packed msg \<Longrightarrow> packed msg \<le> packsize msg
    \<Longrightarrow> MPIR_Bsend_isend P msg kind g1 g2 st = Some (st', r) \<Longrightarrow> bsend_reachable P st'"
| checked: "bsend_reachable P st \<Longrightarrow> MPIR_Bsend_check_active P g st = Some st' \<Longrightarrow> bsend_reachable P st'"

lemma isend_outcome_inv: "isend_outcome P msg kind st st' r L \<Longrightarrow> \<exists>A L T. bsend_inv P st' A L T"
  unfolding isend_outcome_def by (auto split: sum.splits if_splits)

lemma bsend_reachable_inv:
  assumes "bsend_reachable P st" "platform_ok P"
  shows "\<exists>A L T. bsend_inv P st A L T"
  using assms(1)
proof (induction rule: bsend_reachable.induct)
  case (attached st buf n st')
  then have "OVERHEAD P \<le> n" by (auto simp: MPIR_Bsend_attach_def split: if_splits)
  from attach_spec[OF assms(2) attached(1-3) this attached(4)] show ?case by blast
next
  case (sent st msg kind g1 g2 st' r)
  then obtain A L T where "bsend_inv P st A L T" by blast
  from isend_spec[OF assms(2) this sent(2,3), of kind g1 g2] sent(4) isend_outcome_inv show ?case by fastforce
next
  case (checked st g st')
  then obtain A L T where "bsend_inv P st A L T" by blast
  from check_active_spec[OF this, of g] checked(2) show ?case by auto
qed


lemma detach_wait_spec:
  "hlist nx p L \<Longrightarrow> detach_wait nx req waited p = Some (waited @ map req L)"
proof (induction L arbitrary: waited p)
  case Nil
  then show ?case by (subst detach_wait.simps) simp
next
  case (Cons x L)
  then show ?case using Cons.IH[of "nx x" "waited @ [req x]"] by (subst detach_wait.simps) simp
qed

text \<open>Free segments that tile a region and are not adjacent: there is one.\<close>

lemma one_free_segment:
  assumes "bsend_inv P st A [] T" "0 < bb_buffer_size st"
  shows "A = [bb_buffer st]" "T = [bb_buffer st]" "bs_total st (bb_buffer st) = bb_buffer_size st"
proof -
  note i = bsend_invD[OF assms(1)]
  note r = i(5)[unfolded region_def]
  from r assms(2) obtain x Y where T: "T = x # Y" by (cases T) auto
  with r have x: "int x = int (bb_buffer st)" by simp
  have "Y = []"
  proof (rule ccontr)
    assume "Y \<noteq> []"
    then obtain y Z where Y: "Y = y # Z" by (cases Y) auto
    with r T have "int x + bs_total st x = int y" by simp
    moreover have "x \<in> set A" "y \<in> set A" using r T Y by auto
    ultimately show False using i(7) by blast
  qed
  with T x show t: "T = [bb_buffer st]" by simp
  with r have "set A = {bb_buffer st}" "distinct A" by auto
  then show "A = [bb_buffer st]" by (cases A; cases "tl A") auto
  from r t show "bs_total st (bb_buffer st) = bb_buffer_size st" by simp
qed

section \<open>Properties\<close>

text \<open>A platform with 8-byte pointers, and a state with no buffer.\<close>

definition lp64 :: platform where
  "lp64 = \<lparr>HDR = 80, OVERHEAD = 88, PTR = 8\<rparr>"

definition no_buffer :: bsend_state where
  "no_buffer = \<lparr>bs_size = (\<lambda>_. 0), bs_total = (\<lambda>_. 0), bs_next = (\<lambda>_. 0), bs_prev = (\<lambda>_. 0),
     bs_kind = (\<lambda>_. BSEND), bs_request = (\<lambda>_. 0), bs_msgbuf = (\<lambda>_. 0), bs_count = (\<lambda>_. 0),
     bb_buffer = 0, bb_buffer_size = 0, bb_origbuffer = 0, bb_origbuffer_size = 0, bb_avail = 0,
     bb_pending = 0, bb_active = 0, bb_initialized = False\<rparr>"

definition sample_bsend :: bsend_state where
  "sample_bsend = fst (MPIR_Bsend_attach lp64 1000 600 no_buffer)"

lemma lp64_ok: "platform_ok lp64"
  by (simp add: platform_ok_def lp64_def)

lemma sample_attach: "MPIR_Bsend_attach lp64 1000 600 no_buffer = (sample_bsend, Inr ())"
  by (simp add: sample_bsend_def MPIR_Bsend_attach_def no_buffer_def lp64_def Let_def)

lemma sample_bsend_spec: "bsend_inv lp64 sample_bsend [1000] [] [1000]" "bb_buffer sample_bsend = 1000"
  "bb_buffer_size sample_bsend = 600" "bsend_reachable lp64 sample_bsend"
proof -
  have p: "bb_buffer no_buffer = 0" "(1000 :: nat) mod PTR lp64 = 0" "OVERHEAD lp64 \<le> 600"
    by (simp_all add: no_buffer_def lp64_def)
  from attach_spec[OF lp64_ok p(1) _ p(2,3) sample_attach]
  show "bsend_inv lp64 sample_bsend [1000] [] [1000]" "bb_buffer sample_bsend = 1000" "bb_buffer_size sample_bsend = 600"
    by simp_all
  show "bsend_reachable lp64 sample_bsend" by (rule attached[OF p(1) _ p(2) sample_attach]) simp
qed

text \<open>
  C27: in every state that attaching a buffer aligned for pointers, sending and checking for completion
  can reach (the code takes other buffers too, whose first segment is too long), the free segments and those being sent tile the buffer: they lie inside it, no two
  overlap, the lists that the pointers describe are intact, the sizes in the headers are right,
  and no two free segments are adjacent.
\<close>

theorem bsend_segments_tile_buffer:
  assumes "bsend_reachable P st" "platform_ok P"
  shows "\<exists>A L T. bsend_inv P st A L T
    \<and> (\<forall>x \<in> set (A @ L). bb_buffer st \<le> x \<and> int x + bs_total st x \<le> int (bb_buffer st) + bb_buffer_size st)
    \<and> (\<forall>x \<in> set (A @ L). \<forall>y \<in> set (A @ L). x < y \<longrightarrow> int x + bs_total st x \<le> int y)
    \<and> (\<Sum>x \<leftarrow> T. bs_total st x) = bb_buffer_size st"
proof -
  from bsend_reachable_inv[OF assms] obtain A L T where inv: "bsend_inv P st A L T" by blast
  have t: "tiles (bs_total st) (int (bb_buffer st)) T (int (bb_buffer st) + bb_buffer_size st)"
    and s: "set (A @ L) = set T"
    using bsend_invD(5)[OF inv] by (auto simp: region_def)
  have "\<forall>x \<in> set (A @ L). bb_buffer st \<le> x \<and> int x + bs_total st x \<le> int (bb_buffer st) + bb_buffer_size st"
    "\<forall>x \<in> set (A @ L). \<forall>y \<in> set (A @ L). x < y \<longrightarrow> int x + bs_total st x \<le> int y"
    "(\<Sum>x \<leftarrow> T. bs_total st x) = bb_buffer_size st"
    unfolding s using tiles_range[OF t] tiles_disjoint[OF t] tiles_sum[OF t] by auto
  with inv show ?thesis by blast
qed

theorem bsend_segments_tile_buffer_witness:
  "\<exists>A L T. bsend_inv lp64 sample_bsend A L T \<and> (\<Sum>x \<leftarrow> T. bs_total sample_bsend x) = 600"
  using bsend_segments_tile_buffer[OF sample_bsend_spec(4) lp64_ok] sample_bsend_spec(3) by auto

text \<open>
  C28: \<open>MPIR_Bsend_isend\<close> always returns. Either it stores the message in a segment with room
  for the packed data, at the head of the active list, and leaves the segments of unfinished
  sends as they were; or the message could not be started and the lists keep their form; or it
  reports \<open>MPI_ERR_BUFFER\<close> with no free segment large enough. In between only finished sends
  are released.
\<close>

theorem MPIR_Bsend_isend_correct:
  assumes "platform_ok P" "bsend_inv P st A L T" "0 \<le> packed msg" "packed msg \<le> packsize msg"
  shows "\<exists>st' r. MPIR_Bsend_isend P msg kind g1 g2 st = Some (st', r)
    \<and> (isend_outcome P msg kind st st' r (filter (\<lambda>p. \<not> bsend_done g1 st p) L)
       \<or> isend_outcome P msg kind st st' r (filter (\<lambda>p. \<not> bsend_done g2 st p) (filter (\<lambda>p. \<not> bsend_done g1 st p) L)))"
  by (rule isend_spec[OF assms])

theorem MPIR_Bsend_isend_correct_witness:
  "\<exists>st' p A T. MPIR_Bsend_isend lp64 \<lparr>packsize = 50, packed = 42, isend_request = 7\<rparr> IBSEND
      \<lparr>completes = (\<lambda>_. False), released = (\<lambda>_. False)\<rparr> \<lparr>completes = (\<lambda>_. False), released = (\<lambda>_. False)\<rparr> sample_bsend
      = Some (st', Inr 7)
    \<and> bsend_inv lp64 st' A [p] T \<and> 42 \<le> bs_size st' p \<and> bs_request st' p = 7"
proof -
  let ?msg = "\<lparr>packsize = 50, packed = 42, isend_request = 7\<rparr>"
  let ?g = "\<lparr>completes = (\<lambda>_. False), released = (\<lambda>_. False)\<rparr>"
  from MPIR_Bsend_isend_correct[OF lp64_ok sample_bsend_spec(1), of ?msg IBSEND ?g ?g] obtain st' r where
    run: "MPIR_Bsend_isend lp64 ?msg IBSEND ?g ?g sample_bsend = Some (st', r)"
    and o: "isend_outcome lp64 ?msg IBSEND sample_bsend st' r []" by auto
  have "bs_size sample_bsend 1000 = 520" "bb_avail sample_bsend = 1000" "bb_active sample_bsend = 0"
    by (simp_all add: sample_bsend_def MPIR_Bsend_attach_def no_buffer_def lp64_def Let_def)
  then have "\<exists>q. r = Inr q"
    using run by (auto simp: MPIR_Bsend_isend_def MPIR_Bsend_check_active_def MPIR_Bsend_find_buffer_def
        check_active_loop.simps bsend_find.simps split: prod.splits)
  with o have r: "r = Inr 7" by (auto simp: isend_outcome_def)
  with o obtain p A T where "bsend_inv lp64 st' A [p] T" "message_stored lp64 ?msg IBSEND sample_bsend st' p []"
    by (auto simp: isend_outcome_def)
  with run r show ?thesis
    by (intro exI[of _ st'] exI[of _ p] exI[of _ A] exI[of _ T]) (simp add: message_stored_def)
qed

text \<open>
  C29: nothing leaks. When every send in progress has completed, one call of
  \<open>MPIR_Bsend_check_active\<close> returns all segments and merges them: a single free segment with
  the size of the buffer is left and the active list is empty.
\<close>

theorem MPIR_Bsend_check_active_reclaims:
  assumes "bsend_inv P st A L T" "0 < bb_buffer_size st" "\<forall>p \<in> set L. bsend_done g st p"
  shows "\<exists>st'. MPIR_Bsend_check_active P g st = Some st'
    \<and> bsend_inv P st' [bb_buffer st] [] [bb_buffer st] \<and> bb_active st' = 0 \<and> bb_avail st' = bb_buffer st
    \<and> bs_total st' (bb_buffer st) = bb_buffer_size st \<and> bs_size st' (bb_buffer st) = bb_buffer_size st - int (HDR P)"
proof -
  from check_active_spec[OF assms(1), of g] obtain st' A' T' where
    c: "MPIR_Bsend_check_active P g st = Some st'" "bsend_inv P st' A' (filter (\<lambda>p. \<not> bsend_done g st p) L) T'"
      "keeps_segments st st' (filter (\<lambda>p. \<not> bsend_done g st p) L)" by blast
  have f: "filter (\<lambda>p. \<not> bsend_done g st p) L = []" using assms(3) by simp
  have b: "bb_buffer st' = bb_buffer st" "bb_buffer_size st' = bb_buffer_size st"
    using c(3) by (simp_all add: keeps_segments_def same_buffer_def)
  have inv: "bsend_inv P st' A' [] T'" using c(2) f by simp
  note o = one_free_segment[OF inv, unfolded b, OF assms(2)]
  note i = bsend_invD[OF inv[unfolded o(1,2)]]
  show ?thesis
    by (intro exI[of _ st']) (use c(1) inv o i in \<open>auto simp: seg_ok_def\<close>)
qed

declare bsend_find.simps [code] check_active_loop.simps [code] MPIR_Bsend_retry_pending.simps [code] bsend_place.simps [code]

text \<open>Two messages in the buffer, both under way; then both are complete.\<close>

definition waiting :: progress where "waiting = \<lparr>completes = (\<lambda>_. False), released = (\<lambda>_. False)\<rparr>"
definition finished :: progress where "finished = \<lparr>completes = (\<lambda>_. True), released = (\<lambda>_. True)\<rparr>"

definition bsend_msg :: "nat \<Rightarrow> message" where "bsend_msg r = \<lparr>packsize = 50, packed = 42, isend_request = r\<rparr>"

lemma two_sends:
  "\<exists>st1 st2 x y A T. MPIR_Bsend_isend lp64 (bsend_msg 7) IBSEND waiting waiting sample_bsend = Some (st1, Inr 7)
     \<and> MPIR_Bsend_isend lp64 (bsend_msg 8) BSEND waiting waiting st1 = Some (st2, Inr 8)
     \<and> bsend_inv lp64 st2 A [y, x] T \<and> bb_buffer st2 = 1000 \<and> bb_buffer_size st2 = 600"
proof -
  have m: "0 \<le> packed (bsend_msg r)" "packed (bsend_msg r) \<le> packsize (bsend_msg r)" for r by (simp_all add: bsend_msg_def)
  have none: "filter (\<lambda>p. \<not> bsend_done waiting st p) L = L" for st L by (simp add: bsend_done_def waiting_def)
  have "case MPIR_Bsend_isend lp64 (bsend_msg 7) IBSEND waiting waiting sample_bsend of
      Some (st1, Inr r) \<Rightarrow> r = 7 \<and> (case MPIR_Bsend_isend lp64 (bsend_msg 8) BSEND waiting waiting st1 of
        Some (st2, Inr r) \<Rightarrow> r = 8 \<and> bb_buffer st2 = 1000 \<and> bb_buffer_size st2 = 600 | _ \<Rightarrow> False) | _ \<Rightarrow> False"
    by code_simp
  then obtain st1 st2 where r: "MPIR_Bsend_isend lp64 (bsend_msg 7) IBSEND waiting waiting sample_bsend = Some (st1, Inr 7)"
    "MPIR_Bsend_isend lp64 (bsend_msg 8) BSEND waiting waiting st1 = Some (st2, Inr 8)" "bb_buffer st2 = 1000" "bb_buffer_size st2 = 600"
    by (auto split: option.splits prod.splits sum.splits)
  have "isend_outcome lp64 (bsend_msg 7) IBSEND sample_bsend st1 (Inr 7) []"
    using isend_spec[OF lp64_ok sample_bsend_spec(1) m, of 7 IBSEND waiting waiting] r(1) by simp
  then obtain x A1 T1 where 1: "bsend_inv lp64 st1 A1 [x] T1" by (auto simp: isend_outcome_def)
  have "isend_outcome lp64 (bsend_msg 8) BSEND st1 st2 (Inr 8) [x]"
    using isend_spec[OF lp64_ok 1 m, of 8 BSEND waiting waiting, unfolded none] r(2) by simp
  then obtain y A T where "bsend_inv lp64 st2 A [y, x] T" by (auto simp: isend_outcome_def)
  then show ?thesis using r by blast
qed

theorem MPIR_Bsend_check_active_reclaims_witness:
  "\<exists>st1 st2 st' x y. MPIR_Bsend_isend lp64 (bsend_msg 7) IBSEND waiting waiting sample_bsend = Some (st1, Inr 7)
    \<and> MPIR_Bsend_isend lp64 (bsend_msg 8) BSEND waiting waiting st1 = Some (st2, Inr 8) \<and> bb_active st2 = y
    \<and> bs_next st2 y = x \<and> x \<noteq> 0 \<and> y \<noteq> 0
    \<and> MPIR_Bsend_check_active lp64 finished st2 = Some st' \<and> bb_active st' = 0 \<and> bs_total st' 1000 = 600"
proof -
  obtain st1 st2 x y A T where r: "MPIR_Bsend_isend lp64 (bsend_msg 7) IBSEND waiting waiting sample_bsend = Some (st1, Inr 7)"
    "MPIR_Bsend_isend lp64 (bsend_msg 8) BSEND waiting waiting st1 = Some (st2, Inr 8)"
    "bsend_inv lp64 st2 A [y, x] T" "bb_buffer st2 = 1000" "bb_buffer_size st2 = 600"
    using two_sends by blast
  have "\<forall>p \<in> set [y, x]. bsend_done finished st2 p" by (simp add: bsend_done_def finished_def)
  from MPIR_Bsend_check_active_reclaims[OF r(3) _ this] r(4,5) obtain st' where
    "MPIR_Bsend_check_active lp64 finished st2 = Some st'" "bb_active st' = 0" "bs_total st' 1000 = 600" by auto
  moreover have "dll (bs_next st2) (bs_prev st2) (bb_active st2) [y, x]" by (rule bsend_invD(2)[OF r(3)])
  ultimately show ?thesis using r(1,2)
    by (intro exI[of _ st1] exI[of _ st2] exI[of _ st'] exI[of _ x] exI[of _ y]) simp
qed

text \<open>
  C30: a buffer that is not aligned for pointers is moved up to the next aligned address, but the
  first segment keeps the size of the whole buffer: it reaches past the end of the memory that
  the user attached, by the number of bytes skipped.
\<close>

theorem MPIR_Bsend_attach_misaligned_overrun:
  assumes "bb_buffer st = 0" "OVERHEAD P \<le> n" "0 < PTR P" "buf mod PTR P \<noteq> 0"
  shows "\<exists>st' skip. MPIR_Bsend_attach P buf n st = (st', Inr ()) \<and> 0 < skip
    \<and> bb_avail st' = buf + skip \<and> (buf + skip) mod PTR P = 0
    \<and> int (bb_avail st') + bs_total st' (bb_avail st') = int buf + n + int skip
    \<and> int (bs_msgbuf st' (bb_avail st')) + bs_size st' (bb_avail st') = int buf + n + int skip"
proof -
  define skip where "skip = PTR P - buf mod PTR P"
  have s: "0 < skip" "skip \<le> PTR P" using assms(3) by (simp_all add: skip_def)
  have "(buf + skip) mod PTR P = 0"
  proof -
    have "buf + skip = PTR P * (buf div PTR P) + PTR P"
      using assms(3) mult_div_mod_eq[of "PTR P" buf] mod_less_divisor[OF assms(3), of buf] unfolding skip_def by linarith
    then show ?thesis by simp
  qed
  with s show ?thesis
    using assms by (intro exI[of _ "fst (MPIR_Bsend_attach P buf n st)"] exI[of _ skip])
      (simp add: MPIR_Bsend_attach_def Let_def skip_def[symmetric])
qed

theorem MPIR_Bsend_attach_misaligned_overrun_witness:
  "\<exists>st' skip. MPIR_Bsend_attach lp64 1001 600 no_buffer = (st', Inr ()) \<and> 0 < skip
    \<and> int (bb_avail st') + bs_total st' (bb_avail st') = 1001 + 600 + int skip"
  using MPIR_Bsend_attach_misaligned_overrun[of no_buffer lp64 600 1001]
  by (auto simp: no_buffer_def lp64_def)

text \<open>
  \<open>MPIR_Bsend_detach\<close> waits for each request of the active list once, in its order, gives
  back the buffer and the size that the user attached, and leaves no buffer behind, so that the
  next \<open>MPIR_Bsend_attach\<close> of a large enough buffer is accepted.
\<close>

theorem MPIR_Bsend_detach_correct:
  assumes "bsend_inv P st A L T" "OVERHEAD P \<le> n"
  shows "\<exists>st' st''. MPIR_Bsend_detach st = Some (st', Inr (bb_origbuffer st, bb_origbuffer_size st, map (bs_request st) L))
    \<and> bb_buffer st' = 0 \<and> bb_avail st' = 0 \<and> bb_active st' = 0
    \<and> MPIR_Bsend_attach P buf n st' = (st'', Inr ())"
proof -
  note i = bsend_invD[OF assms(1)]
  note w = detach_wait_spec[OF dlseg_hlist[OF i(2)], of "bs_request st" "[]"]
  show ?thesis using w i(3) assms(2) by (simp add: MPIR_Bsend_detach_def MPIR_Bsend_attach_def Let_def)
qed

theorem MPIR_Bsend_detach_correct_witness:
  "\<exists>st' st''. MPIR_Bsend_detach sample_bsend = Some (st', Inr (1000, 600, []))
    \<and> MPIR_Bsend_attach lp64 5000 100 st' = (st'', Inr ())"
proof -
  have "OVERHEAD lp64 \<le> 100" by (simp add: lp64_def)
  from MPIR_Bsend_detach_correct[OF sample_bsend_spec(1) this, of 5000] show ?thesis
    by (auto simp: sample_bsend_def MPIR_Bsend_attach_def no_buffer_def lp64_def Let_def)
qed

end
