(* ===== verification/GroupSort.thy ===== *)
theory GroupSort
  imports Prelude
begin

text \<open>
  The order of a group's processes by local process id: the merge sort of
  src/src/mpi/group/grouputil.c, which threads a list through the \<open>next_lpid\<close> fields of the
  array \<open>lrank_to_lpid\<close>, and the walk along two such lists that the set operations of
  src/src/mpi/group share.
\<close>

section \<open>The sort\<close>

text \<open>
  \<open>MPIR_Mergesort_lpidarray(maparray + b, n)\<close>: \<open>lp\<close> and \<open>nx\<close> are the fields \<open>lpid\<close> and
  \<open>next_lpid\<close> of the whole array; indices are relative to \<open>b\<close>. The loop that merges:
\<close>

partial_function (option) merge_loop :: "(nat \<Rightarrow> int) \<Rightarrow> nat \<Rightarrow> nat \<Rightarrow> (nat \<Rightarrow> int) \<Rightarrow> int \<Rightarrow> int \<Rightarrow> int
    \<Rightarrow> ((nat \<Rightarrow> int) \<times> int \<times> int \<times> int) option" where
  "merge_loop lp b off nx cur_idx idx1 idx2 =
     (if idx1 \<ge> 0 \<and> idx2 \<ge> 0 then
        (if lp (b + nat idx1) > lp (b + nat idx2) then
           (let next_lpid = nx (b + nat idx2);
                next_lpid = (if next_lpid \<ge> 0 then next_lpid + int off else next_lpid) in
            merge_loop lp b off (nx(b + nat cur_idx := idx2)) idx2 idx1 next_lpid)
         else
           (let next_lpid = nx (b + nat idx1) in
            merge_loop lp b off (nx(b + nat cur_idx := idx1)) idx1 next_lpid idx2))
      else Some (nx, cur_idx, idx1, idx2))"

text \<open>The loop that converts the rest of the second list.\<close>

partial_function (option) convert_loop :: "nat \<Rightarrow> nat \<Rightarrow> (nat \<Rightarrow> int) \<Rightarrow> int \<Rightarrow> (nat \<Rightarrow> int) option" where
  "convert_loop b off nx idx2 =
     (if idx2 \<ge> 0 then
        (let next_lpid = nx (b + nat idx2) in
         if next_lpid \<ge> 0 then
           convert_loop b off (nx(b + nat idx2 := next_lpid + int off)) (next_lpid + int off)
         else convert_loop b off nx next_lpid)
      else Some nx)"

definition merge_lists :: "(nat \<Rightarrow> int) \<Rightarrow> nat \<Rightarrow> nat \<Rightarrow> (nat \<Rightarrow> int) \<Rightarrow> int \<Rightarrow> int
    \<Rightarrow> ((nat \<Rightarrow> int) \<times> int) option" where
  "merge_lists lp b off nx idx1 idx2 =
     (let (first_idx, idx1, idx2) =
        (if lp (b + nat idx1) > lp (b + nat idx2) then (idx2, idx1, nx (b + nat idx2) + int off)
         else (idx1, nx (b + nat idx1), idx2)) in
      case merge_loop lp b off nx first_idx idx1 idx2 of
        None \<Rightarrow> None
      | Some (nx, cur_idx, idx1, idx2) \<Rightarrow>
          if idx1 \<ge> 0 then Some (nx(b + nat cur_idx := idx1), first_idx)
          else
            (case convert_loop b off (nx(b + nat cur_idx := idx2)) idx2 of
               None \<Rightarrow> None | Some nx \<Rightarrow> Some (nx, first_idx)))"

fun MPIR_Mergesort_lpidarray :: "(nat \<Rightarrow> int) \<Rightarrow> nat \<Rightarrow> nat \<Rightarrow> (nat \<Rightarrow> int) \<Rightarrow> ((nat \<Rightarrow> int) \<times> int) option" where
  "MPIR_Mergesort_lpidarray lp b n nx =
     (if n = 2 then
        (if lp b > lp (b + 1) then Some (nx(b := - 1, b + 1 := 0), 1)
         else Some (nx(b := 1, b + 1 := - 1), 0))
      else if n = 1 then Some (nx(b := - 1), 0)
      else if n = 0 then Some (nx, - 1)
      else
        (case MPIR_Mergesort_lpidarray lp b (n div 2) nx of
           None \<Rightarrow> None
         | Some (nx1, idx1) \<Rightarrow>
        (case MPIR_Mergesort_lpidarray lp (b + n div 2) (n - n div 2) nx1 of
           None \<Rightarrow> None
         | Some (nx2, idx2) \<Rightarrow> merge_lists lp b (n div 2) nx2 idx1 (idx2 + int (n div 2)))))"

declare MPIR_Mergesort_lpidarray.simps [simp del]

section \<open>Index lists\<close>

text \<open>From index \<open>i\<close> the fields visit \<open>xs\<close> and arrive at \<open>j\<close>.\<close>

fun iseg :: "(nat \<Rightarrow> int) \<Rightarrow> int \<Rightarrow> nat list \<Rightarrow> int \<Rightarrow> bool" where
  "iseg N i [] j = (i = j)"
| "iseg N i (x # xs) j = (i = int x \<and> iseg N (N x) xs j)"

lemma iseg_append: "iseg N i (xs @ ys) j \<longleftrightarrow> (\<exists>k. iseg N i xs k \<and> iseg N k ys j)"
  by (induction xs arbitrary: i) auto

lemma iseg_cong: "(\<And>x. x \<in> set xs \<Longrightarrow> N x = M x) \<Longrightarrow> iseg N i xs j = iseg M i xs j"
  by (induction xs arbitrary: i) auto

lemma chain_iseg: "chain N i xs \<longleftrightarrow> (\<exists>j < 0. iseg N i xs j)"
  by (induction xs arbitrary: i) auto

lemma iseg_chain: "iseg N i xs j \<Longrightarrow> chain N j ys \<Longrightarrow> chain N i (xs @ ys)"
  by (induction xs arbitrary: i) auto

lemma chain_nth: "chain N i xs \<Longrightarrow> xs \<noteq> [] \<Longrightarrow> i = int (hd xs)"
  by (cases xs) auto

lemma chain_functional: "chain N i xs \<Longrightarrow> chain N i ys \<Longrightarrow> xs = ys"
proof (induction xs arbitrary: i ys)
  case Nil
  then show ?case by simp
next
  case (Cons x xs)
  then show ?case by (cases ys) auto
qed

lemma chain_tl: "chain N i (x # xs) \<Longrightarrow> chain N (N x) xs"
  by simp

text \<open>The merge of two lists by the key, elements of the first list first among equal keys.\<close>

fun lmerge :: "(nat \<Rightarrow> int) \<Rightarrow> nat list \<Rightarrow> nat list \<Rightarrow> nat list" where
  "lmerge k [] ys = ys"
| "lmerge k (x # xs) [] = x # xs"
| "lmerge k (x # xs) (y # ys) =
     (if k x > k y then y # lmerge k (x # xs) ys else x # lmerge k xs (y # ys))"

lemma set_lmerge [simp]: "set (lmerge k xs ys) = set xs \<union> set ys"
  by (induction k xs ys rule: lmerge.induct) auto

lemma length_lmerge [simp]: "length (lmerge k xs ys) = length xs + length ys"
  by (induction k xs ys rule: lmerge.induct) auto

lemma distinct_lmerge:
  "distinct xs \<Longrightarrow> distinct ys \<Longrightarrow> set xs \<inter> set ys = {} \<Longrightarrow> distinct (lmerge k xs ys)"
  by (induction k xs ys rule: lmerge.induct) auto

lemma sorted_lmerge:
  "sorted (map k xs) \<Longrightarrow> sorted (map k ys) \<Longrightarrow> sorted (map k (lmerge k xs ys))"
  by (induction k xs ys rule: lmerge.induct) auto

lemma lmerge_Nil2 [simp]: "lmerge k xs [] = xs"
  by (cases xs) auto


section \<open>The sort is correct\<close>

text \<open>The view of an array from offset \<open>b\<close>, and links relative to the second half.\<close>

definition arr :: "nat \<Rightarrow> (nat \<Rightarrow> int) \<Rightarrow> nat \<Rightarrow> int" where
  "arr b nx x = nx (b + x)"

definition shifted :: "nat \<Rightarrow> (nat \<Rightarrow> int) \<Rightarrow> nat \<Rightarrow> int" where
  "shifted off N x = (if N x \<ge> 0 then N x + int off else N x)"

lemma arr_upd [simp]: "arr b (nx(b + x := v)) = (arr b nx)(x := v)"
  by (auto simp: arr_def fun_eq_iff)

lemma shifted_upd: "y \<noteq> x \<Longrightarrow> shifted off (N(x := v)) y = shifted off N y"
  by (simp add: shifted_def)

definition outside_same :: "nat \<Rightarrow> nat set \<Rightarrow> (nat \<Rightarrow> int) \<Rightarrow> (nat \<Rightarrow> int) \<Rightarrow> bool" where
  "outside_same b X nx nx' \<longleftrightarrow> (\<forall>a. (\<forall>x \<in> X. a \<noteq> b + x) \<longrightarrow> nx' a = nx a)"

lemma outside_same_refl [simp]: "outside_same b X nx nx"
  by (simp add: outside_same_def)

lemma outside_same_upd: "outside_same b X (nx(b + x := v)) nx' \<Longrightarrow> x \<in> X \<Longrightarrow> outside_same b X nx nx'"
  by (auto simp: outside_same_def)

lemma outside_same_mono: "outside_same b X nx nx' \<Longrightarrow> X \<subseteq> Y \<Longrightarrow> outside_same b Y nx nx'"
  unfolding outside_same_def by blast

lemma outside_same_trans: "outside_same b X nx nx1 \<Longrightarrow> outside_same b X nx1 nx2 \<Longrightarrow> outside_same b X nx nx2"
  unfolding outside_same_def by simp

lemma outside_same_from: "outside_same b X nx nx' \<Longrightarrow> x \<notin> X \<Longrightarrow> arr b nx' x = arr b nx x"
  unfolding outside_same_def arr_def by (metis add_left_cancel)

lemma chain_upd: "x \<notin> set xs \<Longrightarrow> chain (N(x := v)) i xs = chain N i xs"
  by (rule chain_cong) auto

lemma chain_shifted_upd: "x \<notin> set xs \<Longrightarrow> chain (shifted off (N(x := v))) i xs = chain (shifted off N) i xs"
  by (rule chain_cong, rule shifted_upd) auto

lemma convert_loop_spec:
  assumes "chain (shifted off (arr b nx)) i ys" "distinct ys"
  shows "\<exists>nx'. convert_loop b off nx i = Some nx' \<and> chain (arr b nx') i ys \<and> outside_same b (set ys) nx nx'"
  using assms
proof (induction ys arbitrary: i nx)
  case Nil
  then show ?case by (subst convert_loop.simps) simp
next
  case (Cons y ys)
  then have i: "i = int y" and rest: "chain (shifted off (arr b nx)) (shifted off (arr b nx) y) ys" by simp_all
  show ?case
  proof (cases "nx (b + y) \<ge> 0")
    case True
    let ?v = "nx (b + y) + int off"
    have v: "shifted off (arr b nx) y = ?v" using True by (simp add: shifted_def arr_def)
    have "chain (shifted off (arr b (nx(b + y := ?v)))) ?v ys"
      using rest Cons.prems(2) v by (simp add: chain_shifted_upd)
    moreover have "distinct ys" using Cons.prems(2) by simp
    ultimately obtain nx' where
      r: "convert_loop b off (nx(b + y := ?v)) ?v = Some nx'" "chain (arr b nx') ?v ys"
        "outside_same b (set ys) (nx(b + y := ?v)) nx'" using Cons.IH by blast
    have "arr b nx' y = ?v" using outside_same_from[OF r(3)] Cons.prems(2) by simp
    moreover have "convert_loop b off nx i = Some nx'"
      using r(1) True i by (subst convert_loop.simps) (simp add: Let_def)
    moreover have "outside_same b (set (y # ys)) nx nx'"
      by (rule outside_same_upd[of _ _ _ y ?v], rule outside_same_mono[OF r(3)]) auto
    ultimately show ?thesis using r(2) i by (intro exI[of _ nx']) simp
  next
    case False
    then have "ys = []" using rest by (simp add: shifted_def arr_def)
    moreover have "convert_loop b off nx i = Some nx"
      using False i by (subst convert_loop.simps, subst convert_loop.simps) (simp add: Let_def)
    ultimately show ?thesis using False i by (intro exI[of _ nx]) (simp add: arr_def)
  qed
qed

text \<open>
  The merge loop has built the list up to the current element; what is left of one list is
  still to be linked behind it.
\<close>

definition merge_state :: "nat \<Rightarrow> nat \<Rightarrow> (nat \<Rightarrow> int) \<Rightarrow> nat \<Rightarrow> nat list \<Rightarrow> nat \<Rightarrow> int \<Rightarrow> int \<Rightarrow> nat list \<Rightarrow> bool" where
  "merge_state b off nx c ws c' i1 i2 rest \<longleftrightarrow> iseg (arr b nx) (int c) ws (int c')
     \<and> (if i1 \<ge> 0 then chain (arr b nx) i1 rest else chain (shifted off (arr b nx)) i2 rest)"

lemma merge_loop_step:
  assumes "distinct (c # d # zs)" "merge_state b off nx' d ws c' j1 j2 rest" "d # zs = ws @ [c'] @ rest"
    "outside_same b (set (d # zs)) (nx(b + c := int d)) nx'"
  shows "merge_state b off nx' c (c # ws) c' j1 j2 rest" "outside_same b (set (c # d # zs)) nx nx'"
proof -
  have "arr b nx' c = int d" using outside_same_from[OF assms(4), of c] assms(1) by auto
  with assms(2) show "merge_state b off nx' c (c # ws) c' j1 j2 rest" by (auto simp: merge_state_def)
  show "outside_same b (set (c # d # zs)) nx nx'"
    by (rule outside_same_upd[of _ _ _ c "int d"], rule outside_same_mono[OF assms(4)]) auto
qed

lemma merge_loop_spec:
  assumes "chain (arr b nx) i1 xs" "chain (shifted off (arr b nx)) i2 ys" "distinct (c # xs @ ys)"
  shows "\<exists>nx' ws c' j1 j2 rest. merge_loop lp b off nx (int c) i1 i2 = Some (nx', int c', j1, j2)
    \<and> merge_state b off nx' c ws c' j1 j2 rest \<and> c # lmerge (arr b lp) xs ys = ws @ [c'] @ rest
    \<and> outside_same b (set (c # xs @ ys)) nx nx'"
  using assms
proof (induction "arr b lp" xs ys arbitrary: nx c i1 i2 rule: lmerge.induct)
  case (1 ys)
  then have "i1 < 0" by simp
  then have "merge_loop lp b off nx (int c) i1 i2 = Some (nx, int c, i1, i2)" by (subst merge_loop.simps) simp
  moreover have "merge_state b off nx c [] c i1 i2 ys" using 1 \<open>i1 < 0\<close> by (simp add: merge_state_def)
  moreover have "c # lmerge (arr b lp) [] ys = [] @ [c] @ ys" by simp
  ultimately show ?case using outside_same_refl by blast
next
  case (2 x xs)
  then have i: "i2 < 0" "i1 \<ge> 0" by simp_all
  then have "merge_loop lp b off nx (int c) i1 i2 = Some (nx, int c, i1, i2)" by (subst merge_loop.simps) simp
  moreover have "merge_state b off nx c [] c i1 i2 (x # xs)" using 2 i by (simp add: merge_state_def)
  moreover have "c # lmerge (arr b lp) (x # xs) [] = [] @ [c] @ x # xs" by simp
  ultimately show ?case using outside_same_refl by blast
next
  case (3 x xs y ys)
  have i: "i1 = int x" "i2 = int y" using "3.prems" by simp_all
  show ?case
  proof (cases "arr b lp x > arr b lp y")
    case True
    let ?nx = "nx(b + c := int y)"
    have "chain (arr b ?nx) i1 (x # xs)" "chain (shifted off (arr b ?nx)) (shifted off (arr b nx) y) ys"
      "distinct (y # (x # xs) @ ys)" using "3.prems" chain_upd[of c "x # xs"] chain_shifted_upd[of c ys] by auto
    from "3.hyps"(1)[OF True this] obtain nx' ws c' j1 j2 rest where
      r: "merge_loop lp b off ?nx (int y) i1 (shifted off (arr b nx) y) = Some (nx', int c', j1, j2)"
        "merge_state b off nx' y ws c' j1 j2 rest" "y # lmerge (arr b lp) (x # xs) ys = ws @ [c'] @ rest"
        "outside_same b (set (y # (x # xs) @ ys)) ?nx nx'" by blast
    have d: "distinct (c # y # lmerge (arr b lp) (x # xs) ys)"
      using "3.prems"(3) distinct_lmerge[of "x # xs" ys "arr b lp"] by auto
    have o: "outside_same b (set (y # lmerge (arr b lp) (x # xs) ys)) ?nx nx'" using r(4) by simp
    note st = merge_loop_step[OF d r(2,3) o]
    have "merge_loop lp b off nx (int c) i1 i2 = Some (nx', int c', j1, j2)"
      using r(1) True i unfolding shifted_def arr_def by (subst merge_loop.simps) (auto simp: Let_def)
    moreover have "c # lmerge (arr b lp) (x # xs) (y # ys) = (c # ws) @ [c'] @ rest" using True r(3) by simp
    moreover have "outside_same b (set (c # (x # xs) @ y # ys)) nx nx'" using st(2) by (rule outside_same_mono) auto
    ultimately show ?thesis using st(1) by blast
  next
    case False
    let ?nx = "nx(b + c := int x)"
    have "chain (arr b ?nx) (arr b nx x) xs" "chain (shifted off (arr b ?nx)) i2 (y # ys)"
      "distinct (x # xs @ y # ys)"
      using "3.prems" chain_upd[of c xs] chain_shifted_upd[of c ys] shifted_upd[of y c off "arr b nx" "int x"] by auto
    from "3.hyps"(2)[OF False this] obtain nx' ws c' j1 j2 rest where
      r: "merge_loop lp b off ?nx (int x) (arr b nx x) i2 = Some (nx', int c', j1, j2)"
        "merge_state b off nx' x ws c' j1 j2 rest" "x # lmerge (arr b lp) xs (y # ys) = ws @ [c'] @ rest"
        "outside_same b (set (x # xs @ y # ys)) ?nx nx'" by blast
    have d: "distinct (c # x # lmerge (arr b lp) xs (y # ys))"
      using "3.prems"(3) distinct_lmerge[of xs "y # ys" "arr b lp"] by auto
    have o: "outside_same b (set (x # lmerge (arr b lp) xs (y # ys))) ?nx nx'" using r(4) by simp
    note st = merge_loop_step[OF d r(2,3) o]
    have "merge_loop lp b off nx (int c) i1 i2 = Some (nx', int c', j1, j2)"
      using r(1) False i by (subst merge_loop.simps) (simp add: Let_def arr_def)
    moreover have "c # lmerge (arr b lp) (x # xs) (y # ys) = (c # ws) @ [c'] @ rest" using False r(3) by simp
    moreover have "outside_same b (set (c # (x # xs) @ y # ys)) nx nx'" using st(2) by (rule outside_same_mono) auto
    ultimately show ?thesis using st(1) by blast
  qed
qed


text \<open>What the code does once a list is exhausted.\<close>

lemma finish_first:
  assumes "merge_state b off nx c ws c' j1 j2 rest" "j1 \<ge> 0" "distinct (ws @ [c'] @ rest)"
  shows "chain (arr b (nx(b + c' := j1))) (int c) (ws @ [c'] @ rest)"
proof -
  have "iseg ((arr b nx)(c' := j1)) (int c) ws (int c') = iseg (arr b nx) (int c) ws (int c')"
    by (rule iseg_cong) (use assms(3) in auto)
  moreover have "chain ((arr b nx)(c' := j1)) j1 rest"
    using assms chain_upd[of c' rest] by (simp add: merge_state_def)
  ultimately show ?thesis
    using assms(1) iseg_chain[of "(arr b nx)(c' := j1)" "int c" ws "int c'" "[c'] @ rest"]
    by (simp add: merge_state_def)
qed

lemma finish_second:
  assumes "merge_state b off nx c ws c' j1 j2 rest" "j1 < 0" "distinct (ws @ [c'] @ rest)"
  shows "\<exists>nx'. convert_loop b off (nx(b + c' := j2)) j2 = Some nx'
    \<and> chain (arr b nx') (int c) (ws @ [c'] @ rest) \<and> outside_same b (set (c' # rest)) nx nx'"
proof -
  let ?nx = "nx(b + c' := j2)"
  have "chain (shifted off (arr b ?nx)) j2 rest"
    using assms chain_shifted_upd[of c' rest] by (simp add: merge_state_def)
  moreover have "distinct rest" using assms(3) by simp
  ultimately obtain nx' where r: "convert_loop b off ?nx j2 = Some nx'" "chain (arr b nx') j2 rest"
      "outside_same b (set rest) ?nx nx'" using convert_loop_spec by blast
  have "arr b nx' c' = j2" using outside_same_from[OF r(3), of c'] assms(3) by simp
  moreover have "iseg (arr b nx') (int c) ws (int c') = iseg (arr b nx) (int c) ws (int c')"
  proof (rule iseg_cong)
    fix x assume "x \<in> set ws"
    with assms(3) have "x \<notin> set rest" "x \<noteq> c'" by auto
    then show "arr b nx' x = arr b nx x" using outside_same_from[OF r(3), of x] by simp
  qed
  ultimately have "chain (arr b nx') (int c) (ws @ [c'] @ rest)"
    using assms(1) r(2) iseg_chain[of "arr b nx'" "int c" ws "int c'" "[c'] @ rest"] by (simp add: merge_state_def)
  moreover have "outside_same b (set (c' # rest)) nx nx'"
    by (rule outside_same_upd[of _ _ _ c' j2], rule outside_same_mono[OF r(3)]) auto
  ultimately show ?thesis using r(1) by blast
qed

lemma merge_tail:
  assumes "chain (arr b nx) i1 xs" "chain (shifted off (arr b nx)) i2 ys" "distinct (c # xs @ ys)"
  shows "\<exists>nx'. (case merge_loop lp b off nx (int c) i1 i2 of
        None \<Rightarrow> None
      | Some (nx, cur_idx, idx1, idx2) \<Rightarrow>
          if idx1 \<ge> 0 then Some (nx(b + nat cur_idx := idx1), int c)
          else (case convert_loop b off (nx(b + nat cur_idx := idx2)) idx2 of
               None \<Rightarrow> None | Some nx \<Rightarrow> Some (nx, int c))) = Some (nx', int c)
    \<and> chain (arr b nx') (int c) (c # lmerge (arr b lp) xs ys) \<and> outside_same b (set (c # xs @ ys)) nx nx'"
proof -
  from merge_loop_spec[OF assms, of lp] obtain nx1 ws c' j1 j2 rest where
    r: "merge_loop lp b off nx (int c) i1 i2 = Some (nx1, int c', j1, j2)" "merge_state b off nx1 c ws c' j1 j2 rest"
      "c # lmerge (arr b lp) xs ys = ws @ [c'] @ rest" "outside_same b (set (c # xs @ ys)) nx nx1" by blast
  have d: "distinct (ws @ [c'] @ rest)" unfolding r(3)[symmetric] using assms(3) distinct_lmerge[of xs ys "arr b lp"] by auto
  have s: "set (c # xs @ ys) = set (ws @ [c'] @ rest)" unfolding r(3)[symmetric] by simp
  show ?thesis
  proof (cases "j1 \<ge> 0")
    case True
    have "outside_same b (set (c # xs @ ys)) nx1 (nx1(b + c' := j1))"
      unfolding s by (auto simp: outside_same_def)
    with r(4) have "outside_same b (set (c # xs @ ys)) nx (nx1(b + c' := j1))" by (rule outside_same_trans)
    with finish_first[OF r(2) True d] r(1,3) True show ?thesis by simp
  next
    case False
    with finish_second[OF r(2) _ d] obtain nx' where
      f: "convert_loop b off (nx1(b + c' := j2)) j2 = Some nx'" "chain (arr b nx') (int c) (ws @ [c'] @ rest)"
        "outside_same b (set (c' # rest)) nx1 nx'" by auto
    have "outside_same b (set (c # xs @ ys)) nx1 nx'" unfolding s by (rule outside_same_mono[OF f(3)]) auto
    with r(4) have "outside_same b (set (c # xs @ ys)) nx nx'" by (rule outside_same_trans)
    with f r(1,3) False show ?thesis by simp
  qed
qed

lemma merge_lists_spec:
  assumes "chain (arr b nx) i1 xs" "chain (shifted off (arr b nx)) i2 ys" "distinct (xs @ ys)"
    "xs \<noteq> []" "2 \<le> length ys"
  shows "\<exists>nx' i. merge_lists lp b off nx i1 i2 = Some (nx', i)
    \<and> chain (arr b nx') i (lmerge (arr b lp) xs ys) \<and> outside_same b (set (xs @ ys)) nx nx'"
proof -
  obtain x xs' where xs: "xs = x # xs'" using assms(4) by (cases xs) auto
  obtain y ys' where ys: "ys = y # ys'" "ys' \<noteq> []" using assms(5) by (cases ys; cases "tl ys") auto
  have i: "i1 = int x" "i2 = int y" using assms(1,2) xs ys by simp_all
  show ?thesis
  proof (cases "arr b lp x > arr b lp y")
    case True
    have c: "chain (shifted off (arr b nx)) (shifted off (arr b nx) y) ys'" using assms(2) ys by simp
    then have "0 \<le> shifted off (arr b nx) y" using chain_nonneg_iff ys(2) by blast
    then have nn: "0 \<le> nx (b + y)" by (simp add: shifted_def arr_def split: if_splits)
    then have sh: "shifted off (arr b nx) y = nx (b + y) + int off" by (simp add: shifted_def arr_def)
    have d: "distinct (y # xs @ ys')" using assms(3) ys by auto
    from merge_tail[OF assms(1) c[unfolded sh] d, of lp] obtain nx' where
      "merge_lists lp b off nx i1 i2 = Some (nx', int y)" "chain (arr b nx') (int y) (y # lmerge (arr b lp) xs ys')"
      "outside_same b (set (y # xs @ ys')) nx nx'"
      using True i by (auto simp: merge_lists_def arr_def[of b lp] Let_def simp del: chain.simps)
    with True xs ys show ?thesis by (intro exI[of _ nx'] exI[of _ "int y"]) (auto simp: insert_commute)
  next
    case False
    have c: "chain (arr b nx) (nx (b + x)) xs'" using assms(1) xs by (simp add: arr_def[of b nx x])
    have d: "distinct (x # xs' @ ys)" using assms(3) xs by auto
    from merge_tail[OF c assms(2) d, of lp] obtain nx' where
      "merge_lists lp b off nx i1 i2 = Some (nx', int x)" "chain (arr b nx') (int x) (x # lmerge (arr b lp) xs' ys)"
      "outside_same b (set (x # xs' @ ys)) nx nx'"
      using False i by (auto simp: merge_lists_def arr_def[of b lp] Let_def simp del: chain.simps)
    with False xs ys show ?thesis by (intro exI[of _ nx'] exI[of _ "int x"]) auto
  qed
qed

text \<open>The sorted list of an array part: all its indices, in the order of the key.\<close>

definition sorted_chain :: "(nat \<Rightarrow> int) \<Rightarrow> (nat \<Rightarrow> int) \<Rightarrow> int \<Rightarrow> nat \<Rightarrow> nat list \<Rightarrow> bool" where
  "sorted_chain K N i n xs \<longleftrightarrow> chain N i xs \<and> sorted (map K xs) \<and> set xs = {..<n} \<and> distinct xs"

lemma chain_second_half:
  "chain (arr (b + off) nx) i ys \<Longrightarrow>
    chain (shifted off (arr b nx)) (if i \<ge> 0 then i + int off else i) (map ((+) off) ys)"
proof (induction ys arbitrary: i)
  case Nil
  then show ?case by simp
next
  case (Cons y ys)
  from Cons.prems have c: "chain (arr (b + off) nx) (arr (b + off) nx y) ys" "i = int y" by simp_all
  have "shifted off (arr b nx) (off + y) =
      (if arr (b + off) nx y \<ge> 0 then arr (b + off) nx y + int off else arr (b + off) nx y)"
    by (simp add: shifted_def arr_def add.assoc)
  with Cons.IH[OF c(1)] c(2) show ?case by simp
qed

lemma mergesort_spec:
  "\<exists>nx' i xs. MPIR_Mergesort_lpidarray lp b n nx = Some (nx', i)
    \<and> sorted_chain (arr b lp) (arr b nx') i n xs \<and> outside_same b {..<n} nx nx'"
proof (induction n arbitrary: b nx rule: less_induct)
  case (less n)
  consider "n = 0" | "n = 1" | "n = 2" | "n \<ge> 3" by linarith
  then show ?case
  proof cases
    case 1
    then show ?thesis
      by (subst MPIR_Mergesort_lpidarray.simps)
        (auto simp: sorted_chain_def intro!: exI[of _ "[]"])
  next
    case 2
    have "sorted_chain (arr b lp) (arr b (nx(b := - 1))) 0 1 [0]" by (auto simp: sorted_chain_def arr_def)
    moreover have "outside_same b {..<1} nx (nx(b := - 1))" by (auto simp: outside_same_def)
    ultimately show ?thesis using 2 by (subst MPIR_Mergesort_lpidarray.simps) auto
  next
    case 3
    show ?thesis
    proof (cases "lp b > lp (b + 1)")
      case True
      have "sorted_chain (arr b lp) (arr b (nx(b := - 1, b + 1 := 0))) 1 2 [1, 0]"
        using True by (auto simp: sorted_chain_def arr_def)
      moreover have "outside_same b {..<2} nx (nx(b := - 1, b + 1 := 0))" by (auto simp: outside_same_def)
      ultimately show ?thesis using 3 True by (subst MPIR_Mergesort_lpidarray.simps) auto
    next
      case False
      have "sorted_chain (arr b lp) (arr b (nx(b := 1, b + 1 := - 1))) 0 2 [0, 1]"
        using False by (auto simp: sorted_chain_def arr_def)
      moreover have "outside_same b {..<2} nx (nx(b := 1, b + 1 := - 1))" by (auto simp: outside_same_def)
      ultimately show ?thesis using 3 False by (subst MPIR_Mergesort_lpidarray.simps) auto
    qed
  next
    case 4
    let ?k = "n div 2"
    have k: "?k < n" "n - ?k < n" "1 \<le> ?k" "2 \<le> n - ?k" "?k + (n - ?k) = n" using 4 by auto
    from less.IH[OF k(1), of b nx] obtain nx1 i1 xs where
      f: "MPIR_Mergesort_lpidarray lp b ?k nx = Some (nx1, i1)" "sorted_chain (arr b lp) (arr b nx1) i1 ?k xs"
        "outside_same b {..<?k} nx nx1" by blast
    from less.IH[OF k(2), of "b + ?k" nx1] obtain nx2 i2 ys where
      g: "MPIR_Mergesort_lpidarray lp (b + ?k) (n - ?k) nx1 = Some (nx2, i2)"
        "sorted_chain (arr (b + ?k) lp) (arr (b + ?k) nx2) i2 (n - ?k) ys"
        "outside_same (b + ?k) {..<n - ?k} nx1 nx2" by blast
    let ?ys = "map ((+) ?k) ys"
    have ys: "set ?ys = {?k..<n}" "distinct ?ys" "sorted (map (arr b lp) ?ys)" "length ?ys = n - ?k"
    proof -
      have "set ?ys = (+) ?k ` {0..<n - ?k}" using g(2) by (simp add: sorted_chain_def lessThan_atLeast0)
      also have "\<dots> = {?k..<n}" using k(5) by (subst image_add_atLeastLessThan) simp
      finally show "set ?ys = {?k..<n}" .
      show "distinct ?ys" using g(2) by (simp add: sorted_chain_def distinct_map)
      have e: "map (arr b lp) ?ys = map (arr (b + ?k) lp) ys" by (simp add: arr_def add.assoc)
      show "sorted (map (arr b lp) ?ys)" unfolding e using g(2) by (simp only: sorted_chain_def)
      have "card (set ys) = length ys" using g(2) distinct_card unfolding sorted_chain_def by blast
      then show "length ?ys = n - ?k" using g(2) by (simp add: sorted_chain_def)
    qed
    from f(2) have xs: "set xs = {..<?k}" "distinct xs" "sorted (map (arr b lp) xs)"
      unfolding sorted_chain_def by blast+
    have "0 \<in> set xs" using xs(1) k(3) by simp
    then have "xs \<noteq> []" by auto
    note xs = xs this
    have "chain (arr b nx2) i1 xs"
    proof -
      have "chain (arr b nx2) i1 xs = chain (arr b nx1) i1 xs"
      proof (rule chain_cong)
        fix x assume "x \<in> set xs"
        then have "\<forall>z \<in> {..<n - ?k}. b + x \<noteq> b + ?k + z" using xs(1) by auto
        then show "arr b nx2 x = arr b nx1 x" using g(3) by (simp add: outside_same_def arr_def)
      qed
      with f(2) show ?thesis by (simp add: sorted_chain_def)
    qed
    moreover have "ys \<noteq> []" using ys(4) k(4) by auto
    then have "0 \<le> i2" using g(2) chain_nonneg_iff unfolding sorted_chain_def by blast
    then have "chain (shifted ?k (arr b nx2)) (i2 + int ?k) ?ys"
      using chain_second_half[of b ?k nx2 i2 ys] g(2) by (simp add: sorted_chain_def)
    moreover have dd: "distinct (xs @ ?ys)" using xs ys by auto
    moreover have "2 \<le> length ?ys" using ys(4) k(4) by simp
    ultimately obtain nx3 i where
      h: "merge_lists lp b ?k nx2 i1 (i2 + int ?k) = Some (nx3, i)" "chain (arr b nx3) i (lmerge (arr b lp) xs ?ys)"
        "outside_same b (set (xs @ ?ys)) nx2 nx3" using merge_lists_spec[of b nx2 i1 xs ?k _ ?ys lp] xs(4) by blast
    have un: "set (xs @ ?ys) = {..<n}" using xs(1) ys(1) k by auto
    have "sorted_chain (arr b lp) (arr b nx3) i n (lmerge (arr b lp) xs ?ys)"
      unfolding sorted_chain_def using h(2) sorted_lmerge[OF xs(3) ys(3)] distinct_lmerge[of xs ?ys] dd un by auto
    moreover have "outside_same b {..<n} nx1 nx2"
      unfolding outside_same_def
    proof (intro allI impI)
      fix a assume a: "\<forall>x \<in> {..<n}. a \<noteq> b + x"
      have "a \<noteq> b + ?k + x" if "x < n - ?k" for x
        using a[rule_format, of "?k + x"] that k by simp
      with g(3) show "nx2 a = nx1 a" by (auto simp: outside_same_def)
    qed
    then have "outside_same b {..<n} nx nx3"
      using h(3)[unfolded un] outside_same_mono[OF f(3), of "{..<n}"] k(1) outside_same_trans by (metis lessThan_subset_iff less_imp_le)
    moreover have "MPIR_Mergesort_lpidarray lp b n nx = Some (nx3, i)"
      using 4 f(1) g(1) h(1) by (subst MPIR_Mergesort_lpidarray.simps) simp
    ultimately show ?thesis by blast
  qed
qed

section \<open>The contract of the sort\<close>

text \<open>
  What the routines on groups rely on: the sort returns, and threads all indices in the order
  of the key. Local process ids are distinct, so that the order is strict.
\<close>

abbreviation strict :: "(nat \<Rightarrow> int) \<Rightarrow> nat list \<Rightarrow> bool" where
  "strict k xs \<equiv> sorted_wrt (\<lambda>a b. k a < k b) xs"

lemma strict_sorted: "sorted (map k xs) \<Longrightarrow> distinct (map k xs) \<Longrightarrow> strict k xs"
  by (induction xs) (auto simp: less_le)

lemma strict_distinct: "strict k xs \<Longrightarrow> distinct xs"
  by (induction xs) auto

locale lpid_order =
  fixes order :: "(nat \<Rightarrow> int) \<Rightarrow> nat \<Rightarrow> (nat \<Rightarrow> int) \<Rightarrow> ((nat \<Rightarrow> int) \<times> int) option"
  assumes order_spec: "\<exists>nx' i xs. order lp n nx = Some (nx', i) \<and> sorted_chain lp nx' i n xs"
begin

lemma order_total: "\<exists>nx' i. order lp n nx = Some (nx', i)"
  using order_spec by blast

lemma order_strict:
  assumes "order lp n nx = Some (nx', i)" "inj_on lp {..<n}"
  shows "\<exists>xs. chain nx' i xs \<and> strict lp xs \<and> set xs = {..<n}"
proof -
  from order_spec[of lp n nx] assms(1) obtain xs where x: "sorted_chain lp nx' i n xs" by auto
  then have "distinct (map lp xs)" using assms(2) by (simp add: sorted_chain_def distinct_map)
  with x show ?thesis using strict_sorted unfolding sorted_chain_def by blast
qed

lemma order_empty: "order lp n nx = Some (nx', i) \<Longrightarrow> i < 0 \<longleftrightarrow> n = 0"
proof -
  assume "order lp n nx = Some (nx', i)"
  with order_spec[of lp n nx] obtain xs where x: "chain nx' i xs" "set xs = {..<n}"
    unfolding sorted_chain_def by (metis option.inject prod.inject)
  have "0 \<le> i \<longleftrightarrow> xs \<noteq> []" using chain_nonneg_iff[OF x(1)] .
  moreover have "xs = [] \<longleftrightarrow> set xs = {}" by simp
  moreover have "{..<n} = {} \<longleftrightarrow> n = 0" by (simp add: lessThan_empty_iff)
  ultimately show "i < 0 \<longleftrightarrow> n = 0" unfolding x(2) by linarith
qed

end

lemma arr_0 [simp]: "arr 0 nx = nx"
  by (simp add: arr_def fun_eq_iff)

interpretation ls: lpid_order "\<lambda>lp n nx. MPIR_Mergesort_lpidarray lp 0 n nx"
  by unfold_locales (use mergesort_spec[of _ 0] in \<open>unfold arr_0, blast\<close>)

section \<open>Properties\<close>

text \<open>
  C26: the merge sort returns for every array part: the links it leaves visit every index of the
  part once, in the order of the process ids, and nothing outside the part is changed.
\<close>

theorem MPIR_Mergesort_lpidarray_sorts:
  "\<exists>nx' i xs. MPIR_Mergesort_lpidarray lp b n nx = Some (nx', i)
     \<and> chain (\<lambda>x. nx' (b + x)) i xs \<and> sorted (map (\<lambda>x. lp (b + x)) xs)
     \<and> set xs = {..<n} \<and> distinct xs \<and> {a. nx' a \<noteq> nx a} \<subseteq> {b..<b + n}"
proof -
  from mergesort_spec[of lp b n nx] obtain nx' i xs where
    m: "MPIR_Mergesort_lpidarray lp b n nx = Some (nx', i)" "sorted_chain (arr b lp) (arr b nx') i n xs"
      "outside_same b {..<n} nx nx'" by blast
  have "{a. nx' a \<noteq> nx a} \<subseteq> {b..<b + n}"
  proof
    fix a assume "a \<in> {a. nx' a \<noteq> nx a}"
    with m(3) obtain x where "x < n" "a = b + x" unfolding outside_same_def by auto
    then show "a \<in> {b..<b + n}" by simp
  qed
  moreover have "arr b lp = (\<lambda>x. lp (b + x))" "arr b nx' = (\<lambda>x. nx' (b + x))" by (simp_all add: arr_def fun_eq_iff)
  ultimately show ?thesis using m(1,2) unfolding sorted_chain_def by metis
qed

end
