(* ===== verification/MpiGroup.thy ===== *)
theory MpiGroup
  imports HandleMem GroupSort
begin

text \<open>
  The group objects of src/src/mpi/group: \<open>MPID_Group\<close> with its array \<open>lrank_to_lpid\<close>, the
  argument checks and the MPI_Group routines, on the handle pool \<open>MPID_Group_mem\<close> and the
  static object behind \<open>MPI_GROUP_EMPTY\<close>. This theory holds the definitions.
\<close>

section \<open>State\<close>

text \<open>
  The fields of \<open>MPID_Group\<close> per address. The array \<open>lrank_to_lpid\<close> is allocated with its group
  and reached through it alone, so that its fields are indexed by the group's address and the
  index. The contents of a new array are whatever the functions hold there.
\<close>

record group_heap = handle_heap +
  g_ref :: "nat \<Rightarrow> int"
  g_size :: "nat \<Rightarrow> int"
  g_rank :: "nat \<Rightarrow> int"
  g_first :: "nat \<Rightarrow> int"
  pm_lrank :: "nat \<Rightarrow> nat \<Rightarrow> int"
  pm_lpid :: "nat \<Rightarrow> nat \<Rightarrow> int"
  pm_next :: "nat \<Rightarrow> nat \<Rightarrow> int"
  pm_flag :: "nat \<Rightarrow> nat \<Rightarrow> int"

record group_state =
  gheap :: group_heap
  MPID_Group_mem :: MPIU_Object_alloc_t
  MPID_Group_builtin :: nat

text \<open>What the storage layer answers: the allocator's memory and \<open>MPIU_Malloc\<close> of the array.\<close>

record group_env =
  ge_calloc :: calloc_env
  ge_malloc :: bool

abbreviation MPID_GROUP :: handle where "MPID_GROUP \<equiv> 2"
abbreviation MPI_GROUP_NULL :: handle where "MPI_GROUP_NULL \<equiv> 0x08000000"
abbreviation MPI_GROUP_EMPTY :: handle where "MPI_GROUP_EMPTY \<equiv> 0x48000000"
abbreviation MPI_UNDEFINED :: int where "MPI_UNDEFINED \<equiv> - 32766"
abbreviation MPI_PROC_NULL :: int where "MPI_PROC_NULL \<equiv> - 1"

datatype compare_result = MPI_IDENT | MPI_SIMILAR | MPI_UNEQUAL

definition int_ok :: "int \<Rightarrow> bool" where
  "int_ok x \<longleftrightarrow> - (2 ^ 31) \<le> x \<and> x < 2 ^ 31"

section \<open>Handles\<close>

definition errtest_group :: "handle \<Rightarrow> mpi_err option" where
  "errtest_group g =
     (if g = MPI_GROUP_NULL then Some (new_error MPI_ERR_GROUP ''**groupnull'')
      else if HANDLE_GET_MPI_KIND g \<noteq> MPID_GROUP \<or> HANDLE_GET_KIND g = HANDLE_KIND_INVALID
      then Some (new_error MPI_ERR_GROUP ''**group'') else None)"

text \<open>\<open>MPID_Getb_ptr\<close> of src/src/include/mpiimpl.h.\<close>

definition MPID_Group_get_ptr :: "group_state \<Rightarrow> handle \<Rightarrow> nat" where
  "MPID_Group_get_ptr st g =
     (if HANDLE_GET_KIND g = HANDLE_KIND_BUILTIN
      then MPID_Group_builtin st + unat (HANDLE_INDEX g) * om_size (MPID_Group_mem st)
      else MPID_Get_ptr (MPID_Group_mem st) g)"

definition get_group :: "group_state \<Rightarrow> handle \<Rightarrow> mpi_err + nat" where
  "get_group st g =
     (case errtest_group g of
        Some e \<Rightarrow> Inl e
      | None \<Rightarrow> (let p = MPID_Group_get_ptr st g in
          if p = 0 then Inl (new_error MPI_ERR_GROUP ''**nullptrtype'') else Inr p))"

text \<open>
  The routines on two groups test both handles before they convert them; the second pointer
  test overwrites the code of the first with the same one.
\<close>

definition get_groups :: "group_state \<Rightarrow> handle \<Rightarrow> handle \<Rightarrow> mpi_err + nat \<times> nat" where
  "get_groups st g1 g2 =
     (case errtest_group g1 of
        Some e \<Rightarrow> Inl e
      | None \<Rightarrow>
     (case errtest_group g2 of
        Some e \<Rightarrow> Inl e
      | None \<Rightarrow>
         (let p1 = MPID_Group_get_ptr st g1; p2 = MPID_Group_get_ptr st g2 in
          case last_error [(p1 = 0, new_error MPI_ERR_GROUP ''**nullptrtype''),
                           (p2 = 0, new_error MPI_ERR_GROUP ''**nullptrtype'')] of
            Some e \<Rightarrow> Inl e | None \<Rightarrow> Inr (p1, p2))))"

section \<open>Creation and release\<close>

definition MPIR_Group_create :: "group_env \<Rightarrow> group_state \<Rightarrow> int \<Rightarrow> group_state \<times> (mpi_err + nat)" where
  "MPIR_Group_create e st nproc =
     (case MPIU_Handle_obj_alloc (ge_calloc e) (gheap st) (MPID_Group_mem st) of (h, om, q) \<Rightarrow>
        if q = 0 then (st\<lparr>gheap := h, MPID_Group_mem := om\<rparr>, Inl (new_error MPI_ERR_OTHER ''**nomem''))
        else
          (let h1 = h\<lparr>g_ref := (g_ref h)(q := 1)\<rparr> in
           if \<not> ge_malloc e then
             (case MPIU_Handle_obj_free h1 om q of (h2, om2) \<Rightarrow>
                (st\<lparr>gheap := h2, MPID_Group_mem := om2\<rparr>, Inl (new_error MPI_ERR_OTHER ''**nomem2'')))
           else
             (st\<lparr>gheap := h1\<lparr>g_size := (g_size h1)(q := nproc), g_first := (g_first h1)(q := - 1)\<rparr>,
                 MPID_Group_mem := om\<rparr>, Inr q)))"

definition MPIR_Group_release :: "group_state \<Rightarrow> nat \<Rightarrow> group_state" where
  "MPIR_Group_release st p =
     (let h = gheap st; h1 = h\<lparr>g_ref := (g_ref h)(p := g_ref h p - 1)\<rparr> in
      if g_ref h1 p = 0 then
        (case MPIU_Handle_obj_free h1 (MPID_Group_mem st) p of (h2, om) \<Rightarrow>
           st\<lparr>gheap := h2, MPID_Group_mem := om\<rparr>)
      else st\<lparr>gheap := h1\<rparr>)"

definition MPI_Group_free :: "group_state \<Rightarrow> handle \<Rightarrow> group_state \<times> (mpi_err + handle)" where
  "MPI_Group_free st g =
     (case errtest_group g of
        Some e \<Rightarrow> (st, Inl (fn_fail ''**mpi_group_free'' e))
      | None \<Rightarrow>
         (let p = MPID_Group_get_ptr st g in
          case last_error [(p = 0, new_error MPI_ERR_GROUP ''**nullptrtype''),
              (HANDLE_GET_KIND g = HANDLE_KIND_BUILTIN \<and> g \<noteq> MPI_GROUP_EMPTY,
               new_error MPI_ERR_GROUP ''**groupperm'')] of
            Some e \<Rightarrow> (st, Inl (fn_fail ''**mpi_group_free'' e))
          | None \<Rightarrow>
              (if g \<noteq> MPI_GROUP_EMPTY then MPIR_Group_release st p else st, Inr MPI_GROUP_NULL)))"

definition MPI_Group_rank :: "group_state \<Rightarrow> handle \<Rightarrow> mpi_err + int" where
  "MPI_Group_rank st g =
     (case get_group st g of
        Inl e \<Rightarrow> Inl (fn_fail ''**mpi_group_rank'' e) | Inr p \<Rightarrow> Inr (g_rank (gheap st) p))"

definition MPI_Group_size :: "group_state \<Rightarrow> handle \<Rightarrow> mpi_err + int" where
  "MPI_Group_size st g =
     (case get_group st g of
        Inl e \<Rightarrow> Inl (fn_fail ''**mpi_group_size'' e) | Inr p \<Rightarrow> Inr (g_size (gheap st) p))"

section \<open>Arrays\<close>

text \<open>The flag of one member, and the loop that clears the flags of a group.\<close>

definition set_flag :: "group_heap \<Rightarrow> nat \<Rightarrow> nat \<Rightarrow> int \<Rightarrow> group_heap" where
  "set_flag h p i v = h\<lparr>pm_flag := (pm_flag h)(p := (pm_flag h p)(i := v))\<rparr>"

definition clear_flags :: "group_heap \<Rightarrow> nat \<Rightarrow> group_heap" where
  "clear_flags h p = fold (\<lambda>i h. set_flag h p i 0) [0..<nat (g_size h p)] h"

text \<open>Member \<open>k\<close> of a new group, with local process id \<open>l\<close>, and its rank field.\<close>

definition put_member :: "group_heap \<Rightarrow> nat \<Rightarrow> nat \<Rightarrow> int \<Rightarrow> group_heap" where
  "put_member h q k l = h\<lparr>pm_lrank := (pm_lrank h)(q := (pm_lrank h q)(k := int k)),
     pm_lpid := (pm_lpid h)(q := (pm_lpid h q)(k := l))\<rparr>"

definition set_rank :: "group_heap \<Rightarrow> nat \<Rightarrow> int \<Rightarrow> group_heap" where
  "set_rank h q r = h\<lparr>g_rank := (g_rank h)(q := r)\<rparr>"

text \<open>
  The two loops that fill a new group \<open>q\<close> from the group \<open>p\<close>: over the ranks \<open>js\<close>, in order; and
  over all indices, taking those whose flag passes the test.
\<close>

fun take_ranks :: "nat \<Rightarrow> nat \<Rightarrow> int list \<Rightarrow> nat \<Rightarrow> group_heap \<Rightarrow> group_heap" where
  "take_ranks p q [] k h = h"
| "take_ranks p q (j # js) k h =
     (let h = put_member h q k (pm_lpid h p (nat j));
          h = (if j = g_rank h p then set_rank h q (int k) else h) in
      take_ranks p q js (k + 1) h)"

fun take_flagged :: "(int \<Rightarrow> bool) \<Rightarrow> nat \<Rightarrow> nat \<Rightarrow> nat list \<Rightarrow> nat \<Rightarrow> group_heap \<Rightarrow> group_heap" where
  "take_flagged P p q [] k h = h"
| "take_flagged P p q (i # is) k h =
     (if P (pm_flag h p i) then
        (let h = put_member h q k (pm_lpid h p i);
             h = (if int i = g_rank h p then set_rank h q (int k) else h) in
         take_flagged P p q is (k + 1) h)
      else take_flagged P p q is k h)"

section \<open>Lists by process id\<close>

definition MPIR_Group_setup_lpid_list :: "group_heap \<Rightarrow> nat \<Rightarrow> group_heap option" where
  "MPIR_Group_setup_lpid_list h p =
     (if g_first h p = - 1 then
        (case MPIR_Mergesort_lpidarray (pm_lpid h p) 0 (nat (g_size h p)) (pm_next h p) of
           None \<Rightarrow> None
         | Some (nx, i) \<Rightarrow> Some (h\<lparr>pm_next := (pm_next h)(p := nx), g_first := (g_first h)(p := i)\<rparr>))
      else Some h)"

definition MPIR_Group_setup_lpid_pairs :: "group_heap \<Rightarrow> nat \<Rightarrow> nat \<Rightarrow> group_heap option" where
  "MPIR_Group_setup_lpid_pairs h p1 p2 =
     (case (if g_first h p1 < 0 then MPIR_Group_setup_lpid_list h p1 else Some h) of
        None \<Rightarrow> None
      | Some h \<Rightarrow> (if g_first h p2 < 0 then MPIR_Group_setup_lpid_list h p2 else Some h))"

text \<open>
  The walk of intersection and difference along both lists: the common members are flagged in
  the first group and counted, \<open>nnew++\<close> in one, \<open>nnew--\<close> in the other.
\<close>

partial_function (option) common_walk :: "int \<Rightarrow> nat \<Rightarrow> nat \<Rightarrow> group_heap \<Rightarrow> int \<Rightarrow> int \<Rightarrow> int
    \<Rightarrow> (group_heap \<times> int) option" where
  "common_walk d p1 p2 h g1_idx g2_idx nnew =
     (if g1_idx \<ge> 0 \<and> g2_idx \<ge> 0 then
        (let l1_pid = pm_lpid h p1 (nat g1_idx); l2_pid = pm_lpid h p2 (nat g2_idx) in
         if l1_pid < l2_pid then common_walk d p1 p2 h (pm_next h p1 (nat g1_idx)) g2_idx nnew
         else if l1_pid > l2_pid then common_walk d p1 p2 h g1_idx (pm_next h p2 (nat g2_idx)) nnew
         else
           (let h = set_flag h p1 (nat g1_idx) 1 in
            common_walk d p1 p2 h (pm_next h p1 (nat g1_idx)) (pm_next h p2 (nat g2_idx)) (nnew + d)))
      else Some (h, nnew))"

text \<open>The walk of union: the members of the second group that the first lacks are flagged.\<close>

partial_function (option) union_walk :: "nat \<Rightarrow> nat \<Rightarrow> group_heap \<Rightarrow> int \<Rightarrow> int \<Rightarrow> int
    \<Rightarrow> (group_heap \<times> int \<times> int) option" where
  "union_walk p1 p2 h g1_idx g2_idx nnew =
     (if g1_idx \<ge> 0 \<and> g2_idx \<ge> 0 then
        (let l1_pid = pm_lpid h p1 (nat g1_idx); l2_pid = pm_lpid h p2 (nat g2_idx) in
         if l1_pid > l2_pid then
           (let h = set_flag h p2 (nat g2_idx) 1 in
            union_walk p1 p2 h g1_idx (pm_next h p2 (nat g2_idx)) (nnew + 1))
         else if l1_pid = l2_pid then
           union_walk p1 p2 h (pm_next h p1 (nat g1_idx)) (pm_next h p2 (nat g2_idx)) nnew
         else union_walk p1 p2 h (pm_next h p1 (nat g1_idx)) g2_idx nnew)
      else Some (h, g2_idx, nnew))"

partial_function (option) union_rest :: "nat \<Rightarrow> group_heap \<Rightarrow> int \<Rightarrow> int \<Rightarrow> (group_heap \<times> int) option" where
  "union_rest p2 h g2_idx nnew =
     (if g2_idx \<ge> 0 then
        (let h = set_flag h p2 (nat g2_idx) 1 in union_rest p2 h (pm_next h p2 (nat g2_idx)) (nnew + 1))
      else Some (h, nnew))"

text \<open>The walk of compare: whether a difference was met.\<close>

partial_function (option) compare_walk :: "group_heap \<Rightarrow> nat \<Rightarrow> nat \<Rightarrow> int \<Rightarrow> int \<Rightarrow> bool option" where
  "compare_walk h p1 p2 g1_idx g2_idx =
     (if g1_idx \<ge> 0 \<and> g2_idx \<ge> 0 then
        (if pm_lpid h p1 (nat g1_idx) \<noteq> pm_lpid h p2 (nat g2_idx) then Some True
         else compare_walk h p1 p2 (pm_next h p1 (nat g1_idx)) (pm_next h p2 (nat g2_idx)))
      else Some False)"

section \<open>Checks of ranks and ranges\<close>

fun check_rank_loop :: "nat \<Rightarrow> group_heap \<Rightarrow> int list \<Rightarrow> nat \<Rightarrow> group_heap \<times> mpi_err option" where
  "check_rank_loop p h [] i = (h, None)"
| "check_rank_loop p h (r # rs) i =
     (if r < 0 \<or> r \<ge> g_size h p then (h, Some (new_error MPI_ERR_RANK ''**rankarray''))
      else if pm_flag h p (nat r) \<noteq> 0 then (h, Some (new_error MPI_ERR_RANK ''**rankdup''))
      else check_rank_loop p (set_flag h p (nat r) (int i + 1)) rs (i + 1))"

definition MPIR_Group_check_valid_ranks :: "group_heap \<Rightarrow> nat \<Rightarrow> int list \<Rightarrow> group_heap \<times> mpi_err option" where
  "MPIR_Group_check_valid_ranks h p ranks = check_rank_loop p (clear_flags h p) ranks 0"

text \<open>
  The values \<open>j\<close> takes in the loops over a range, and the loop of the check. Signed overflow of
  an \<open>int\<close> is undefined in C: \<open>None\<close>.
\<close>

definition in_range :: "int \<Rightarrow> int \<Rightarrow> int \<Rightarrow> bool" where
  "in_range j lst stride = (if stride > 0 then j \<le> lst else j \<ge> lst)"

partial_function (option) range_loop :: "int \<Rightarrow> int \<Rightarrow> int \<Rightarrow> int list option" where
  "range_loop j lst stride =
     (if in_range j lst stride then
        (if int_ok (j + stride) then
           Option.bind (range_loop (j + stride) lst stride) (\<lambda>js. Some (j # js))
         else None)
      else Some [])"

partial_function (option) mark_range :: "nat \<Rightarrow> int \<Rightarrow> int \<Rightarrow> int \<Rightarrow> group_heap \<Rightarrow> int
    \<Rightarrow> (group_heap \<times> mpi_err option) option" where
  "mark_range p v lst stride h j =
     (if in_range j lst stride then
        (if pm_flag h p (nat j) \<noteq> 0 then Some (h, Some (new_error MPI_ERR_ARG ''**rangedup''))
         else if int_ok (j + stride) then mark_range p v lst stride (set_flag h p (nat j) v) (j + stride)
         else None)
      else Some (h, None))"

text \<open>\<open>(last - first) / stride\<close> truncates towards zero.\<close>

definition range_check :: "int \<Rightarrow> int \<times> int \<times> int \<Rightarrow> (mpi_err option) option" where
  "range_check gsize = (\<lambda>(first, lst, stride).
     (if first < 0 \<or> first \<ge> gsize then Some (Some (new_error MPI_ERR_ARG ''**rangestartinvalid''))
      else if stride = 0 then Some (Some (new_error MPI_ERR_ARG ''**stridezero''))
      else if \<not> int_ok (lst - first) \<or> \<not> int_ok ((lst - first) sdiv stride) then None
      else
        (let act_last = first + stride * ((lst - first) sdiv stride) in
         if lst < 0 \<or> act_last \<ge> gsize then Some (Some (new_error MPI_ERR_ARG ''**rangeendinvalid''))
         else if stride > 0 \<and> first > lst \<or> stride < 0 \<and> first < lst
         then Some (Some (new_error MPI_ERR_ARG ''**stride'')) else Some None)))"

fun check_range_loop :: "nat \<Rightarrow> group_heap \<Rightarrow> (int \<times> int \<times> int) list \<Rightarrow> nat
    \<Rightarrow> (group_heap \<times> mpi_err option) option" where
  "check_range_loop p h [] i = Some (h, None)"
| "check_range_loop p h ((first, lst, stride) # rs) i =
     (case range_check (g_size h p) (first, lst, stride) of
        None \<Rightarrow> None
      | Some (Some e) \<Rightarrow> Some (h, Some e)
      | Some None \<Rightarrow>
          (case mark_range p (if stride > 0 then 1 else int i + 1) lst stride h first of
             None \<Rightarrow> None
           | Some (h, Some e) \<Rightarrow> Some (h, Some e)
           | Some (h, None) \<Rightarrow> check_range_loop p h rs (i + 1)))"

text \<open>The caller's array holds \<open>n\<close> ranges, or \<open>n\<close> is negative.\<close>

definition MPIR_Group_check_valid_ranges :: "group_heap \<Rightarrow> nat \<Rightarrow> (int \<times> int \<times> int) list \<Rightarrow> int
    \<Rightarrow> (group_heap \<times> mpi_err option) option" where
  "MPIR_Group_check_valid_ranges h p ranges n =
     (if n < 0 then Some (h, Some (new_error MPI_ERR_ARG ''**argneg''))
      else check_range_loop p (clear_flags h p) (take (nat n) ranges) 0)"

section \<open>The routines\<close>

definition range_count :: "(int \<times> int \<times> int) list \<Rightarrow> int" where
  "range_count rs = sum_list (map (\<lambda>(first, lst, stride). 1 + (lst - first) sdiv stride) rs)"

text \<open>The loops over all ranges, as the list of ranks they visit.\<close>

fun ranges_loop :: "(int \<times> int \<times> int) list \<Rightarrow> int list option" where
  "ranges_loop [] = Some []"
| "ranges_loop ((first, lst, stride) # rs) =
     (case range_loop first lst stride of
        None \<Rightarrow> None
      | Some js \<Rightarrow> (case ranges_loop rs of None \<Rightarrow> None | Some js' \<Rightarrow> Some (js @ js')))"

definition MPI_Group_incl :: "group_env \<Rightarrow> group_state \<Rightarrow> handle \<Rightarrow> int \<Rightarrow> int list
    \<Rightarrow> group_state \<times> (mpi_err + handle)" where
  "MPI_Group_incl e st g n ranks =
     (case errtest_group g of
        Some er \<Rightarrow> (st, Inl (fn_fail ''**mpi_group_incl'' er))
      | None \<Rightarrow>
      if n < 0 then (st, Inl (fn_fail ''**mpi_group_incl'' (new_error MPI_ERR_ARG ''**argneg'')))
      else
     (case get_group st g of
        Inl er \<Rightarrow> (st, Inl (fn_fail ''**mpi_group_incl'' er))
      | Inr p \<Rightarrow>
     (case MPIR_Group_check_valid_ranks (gheap st) p (take (nat n) ranks) of
        (h, Some er) \<Rightarrow> (st\<lparr>gheap := h\<rparr>, Inl (fn_fail ''**mpi_group_incl'' er))
      | (h, None) \<Rightarrow>
      if n = 0 then (st\<lparr>gheap := h\<rparr>, Inr MPI_GROUP_EMPTY)
      else
     (case MPIR_Group_create e (st\<lparr>gheap := h\<rparr>) n of
        (st, Inl er) \<Rightarrow> (st, Inl (fn_fail ''**mpi_group_incl'' er))
      | (st, Inr q) \<Rightarrow>
          (let h = take_ranks p q (take (nat n) ranks) 0 (set_rank (gheap st) q MPI_UNDEFINED) in
           (st\<lparr>gheap := h\<lparr>g_size := (g_size h)(q := n), g_first := (g_first h)(q := - 1)\<rparr>\<rparr>,
            Inr (handle_of h q)))))))"

definition MPI_Group_excl :: "group_env \<Rightarrow> group_state \<Rightarrow> handle \<Rightarrow> int \<Rightarrow> int list
    \<Rightarrow> group_state \<times> (mpi_err + handle)" where
  "MPI_Group_excl e st g n ranks =
     (case errtest_group g of
        Some er \<Rightarrow> (st, Inl (fn_fail ''**mpi_group_excl'' er))
      | None \<Rightarrow>
      if n < 0 then (st, Inl (fn_fail ''**mpi_group_excl'' (new_error MPI_ERR_ARG ''**argneg'')))
      else
     (case get_group st g of
        Inl er \<Rightarrow> (st, Inl (fn_fail ''**mpi_group_excl'' er))
      | Inr p \<Rightarrow>
     (case MPIR_Group_check_valid_ranks (gheap st) p (take (nat n) ranks) of
        (h, Some er) \<Rightarrow> (st\<lparr>gheap := h\<rparr>, Inl (fn_fail ''**mpi_group_excl'' er))
      | (h, None) \<Rightarrow>
      if g_size h p = n then (st\<lparr>gheap := h\<rparr>, Inr MPI_GROUP_EMPTY)
      else
     (case MPIR_Group_create e (st\<lparr>gheap := h\<rparr>) (g_size h p - n) of
        (st, Inl er) \<Rightarrow> (st, Inl (fn_fail ''**mpi_group_excl'' er))
      | (st, Inr q) \<Rightarrow>
          (let h = set_rank (gheap st) q MPI_UNDEFINED;
               h = fold (\<lambda>r h. set_flag h p (nat r) 1) (take (nat n) ranks) (clear_flags h p);
               h = take_flagged (\<lambda>f. f = 0) p q [0..<nat (g_size h p)] 0 h in
           (st\<lparr>gheap := h\<lparr>g_size := (g_size h)(q := g_size h p - n), g_first := (g_first h)(q := - 1)\<rparr>\<rparr>,
            Inr (handle_of h q)))))))"

definition MPI_Group_range_incl :: "group_env \<Rightarrow> group_state \<Rightarrow> handle \<Rightarrow> int \<Rightarrow> (int \<times> int \<times> int) list
    \<Rightarrow> (group_state \<times> (mpi_err + handle)) option" where
  "MPI_Group_range_incl e st g n ranges =
     (case get_group st g of
        Inl er \<Rightarrow> Some (st, Inl (fn_fail ''**mpi_group_range_incl'' er))
      | Inr p \<Rightarrow>
     (case MPIR_Group_check_valid_ranges (gheap st) p ranges n of
        None \<Rightarrow> None
      | Some (h, Some er) \<Rightarrow> Some (st\<lparr>gheap := h\<rparr>, Inl (fn_fail ''**mpi_group_range_incl'' er))
      | Some (h, None) \<Rightarrow>
         (let nnew = range_count (take (nat n) ranges) in
          if nnew = 0 then Some (st\<lparr>gheap := h\<rparr>, Inr MPI_GROUP_EMPTY)
          else
         (case MPIR_Group_create e (st\<lparr>gheap := h\<rparr>) nnew of
            (st, Inl er) \<Rightarrow> Some (st, Inl (fn_fail ''**mpi_group_range_incl'' er))
          | (st, Inr q) \<Rightarrow>
         (case ranges_loop (take (nat n) ranges) of
            None \<Rightarrow> None
          | Some js \<Rightarrow>
              (let h = take_ranks p q js 0 (set_rank (gheap st) q MPI_UNDEFINED) in
               Some (st\<lparr>gheap := h\<rparr>, Inr (handle_of h q))))))))"

definition MPI_Group_range_excl :: "group_env \<Rightarrow> group_state \<Rightarrow> handle \<Rightarrow> int \<Rightarrow> (int \<times> int \<times> int) list
    \<Rightarrow> (group_state \<times> (mpi_err + handle)) option" where
  "MPI_Group_range_excl e st g n ranges =
     (case get_group st g of
        Inl er \<Rightarrow> Some (st, Inl (fn_fail ''**mpi_group_range_excl'' er))
      | Inr p \<Rightarrow>
     (case MPIR_Group_check_valid_ranges (gheap st) p ranges n of
        None \<Rightarrow> None
      | Some (h, Some er) \<Rightarrow> Some (st\<lparr>gheap := h\<rparr>, Inl (fn_fail ''**mpi_group_range_excl'' er))
      | Some (h, None) \<Rightarrow>
         (let nnew = g_size h p - range_count (take (nat n) ranges) in
          if nnew = 0 then Some (st\<lparr>gheap := h\<rparr>, Inr MPI_GROUP_EMPTY)
          else
         (case MPIR_Group_create e (st\<lparr>gheap := h\<rparr>) nnew of
            (st, Inl er) \<Rightarrow> Some (st, Inl (fn_fail ''**mpi_group_range_excl'' er))
          | (st, Inr q) \<Rightarrow>
         (case ranges_loop (take (nat n) ranges) of
            None \<Rightarrow> None
          | Some js \<Rightarrow>
              (let h = clear_flags (set_rank (gheap st) q MPI_UNDEFINED) p;
                   h = fold (\<lambda>j h. set_flag h p (nat j) 1) js h;
                   h = take_flagged (\<lambda>f. f = 0) p q [0..<nat (g_size h p)] 0 h in
               Some (st\<lparr>gheap := h\<rparr>, Inr (handle_of h q))))))))"

text \<open>The group that intersection and difference make of the flagged members.\<close>

definition group_of_flags :: "group_env \<Rightarrow> group_state \<Rightarrow> string \<Rightarrow> (int \<Rightarrow> bool) \<Rightarrow> nat \<Rightarrow> int
    \<Rightarrow> group_state \<times> (mpi_err + handle)" where
  "group_of_flags e st msg P p1 nnew =
     (if nnew = 0 then (st, Inr MPI_GROUP_EMPTY)
      else
     (case MPIR_Group_create e st nnew of
        (st, Inl er) \<Rightarrow> (st, Inl (fn_fail msg er))
      | (st, Inr q) \<Rightarrow>
          (let h = take_flagged P p1 q [0..<nat (g_size (gheap st) p1)] 0 (set_rank (gheap st) q MPI_UNDEFINED) in
           (st\<lparr>gheap := h\<rparr>, Inr (handle_of h q)))))"

definition MPI_Group_intersection :: "group_env \<Rightarrow> group_state \<Rightarrow> handle \<Rightarrow> handle
    \<Rightarrow> (group_state \<times> (mpi_err + handle)) option" where
  "MPI_Group_intersection e st group1 group2 =
     (case get_groups st group1 group2 of
        Inl er \<Rightarrow> Some (st, Inl (fn_fail ''**mpi_group_intersection'' er))
      | Inr (p1, p2) \<Rightarrow>
     (case MPIR_Group_setup_lpid_pairs (gheap st) p1 p2 of
        None \<Rightarrow> None
      | Some h \<Rightarrow>
     (case common_walk 1 p1 p2 (clear_flags h p1) (g_first h p1) (g_first h p2) 0 of
        None \<Rightarrow> None
      | Some (h, nnew) \<Rightarrow>
          Some (group_of_flags e (st\<lparr>gheap := h\<rparr>) ''**mpi_group_intersection'' (\<lambda>f. f \<noteq> 0) p1 nnew))))"

definition MPI_Group_difference :: "group_env \<Rightarrow> group_state \<Rightarrow> handle \<Rightarrow> handle
    \<Rightarrow> (group_state \<times> (mpi_err + handle)) option" where
  "MPI_Group_difference e st group1 group2 =
     (case get_groups st group1 group2 of
        Inl er \<Rightarrow> Some (st, Inl (fn_fail ''**mpi_group_difference'' er))
      | Inr (p1, p2) \<Rightarrow>
     (case MPIR_Group_setup_lpid_pairs (gheap st) p1 p2 of
        None \<Rightarrow> None
      | Some h \<Rightarrow>
     (case common_walk (- 1) p1 p2 (clear_flags h p1) (g_first h p1) (g_first h p2) (g_size h p1) of
        None \<Rightarrow> None
      | Some (h, nnew) \<Rightarrow>
          Some (group_of_flags e (st\<lparr>gheap := h\<rparr>) ''**mpi_group_difference'' (\<lambda>f. f = 0) p1 nnew))))"

text \<open>Union: the loop over the flagged members of the second group looks for \<open>mylpid\<close>.\<close>

fun union_take :: "int \<Rightarrow> nat \<Rightarrow> nat \<Rightarrow> nat list \<Rightarrow> nat \<Rightarrow> group_heap \<Rightarrow> group_heap" where
  "union_take mylpid p2 q [] k h = h"
| "union_take mylpid p2 q (i # is) k h =
     (if pm_flag h p2 i \<noteq> 0 then
        (let h = put_member h q k (pm_lpid h p2 i);
             h = (if g_rank h q = MPI_UNDEFINED \<and> pm_lpid h p2 i = mylpid then set_rank h q (int k) else h) in
         union_take mylpid p2 q is (k + 1) h)
      else union_take mylpid p2 q is k h)"

definition union_fill :: "nat \<Rightarrow> nat \<Rightarrow> nat \<Rightarrow> group_heap \<Rightarrow> group_heap" where
  "union_fill p1 p2 q h =
     (let h = set_rank h q (g_rank h p1);
          h = fold (\<lambda>i h. put_member h q i (pm_lpid h p1 i)) [0..<nat (g_size h p1)] h;
          mylpid = (if g_rank h p1 = MPI_UNDEFINED \<and> g_rank h p2 \<ge> 0
                    then pm_lpid h p2 (nat (g_rank h p2)) else - 2) in
      union_take mylpid p2 q [0..<nat (g_size h p2)] (nat (g_size h p1)) h)"

definition MPI_Group_union :: "group_env \<Rightarrow> group_state \<Rightarrow> handle \<Rightarrow> handle
    \<Rightarrow> (group_state \<times> (mpi_err + handle)) option" where
  "MPI_Group_union e st group1 group2 =
     (case get_groups st group1 group2 of
        Inl er \<Rightarrow> Some (st, Inl (fn_fail ''**mpi_group_union'' er))
      | Inr (p1, p2) \<Rightarrow>
     (case MPIR_Group_setup_lpid_pairs (gheap st) p1 p2 of
        None \<Rightarrow> None
      | Some h \<Rightarrow>
     (case union_walk p1 p2 (clear_flags h p2) (g_first h p1) (g_first h p2) (g_size h p1) of
        None \<Rightarrow> None
      | Some (h, g2_idx, nnew) \<Rightarrow>
     (case union_rest p2 h g2_idx nnew of
        None \<Rightarrow> None
      | Some (h, nnew) \<Rightarrow>
     (case MPIR_Group_create e (st\<lparr>gheap := h\<rparr>) nnew of
        (st, Inl er) \<Rightarrow> Some (st, Inl (fn_fail ''**mpi_group_union'' er))
      | (st, Inr q) \<Rightarrow>
          (let h = union_fill p1 p2 q (gheap st) in Some (st\<lparr>gheap := h\<rparr>, Inr (handle_of h q))))))))"

definition MPI_Group_compare :: "group_state \<Rightarrow> handle \<Rightarrow> handle
    \<Rightarrow> (group_state \<times> (mpi_err + compare_result)) option" where
  "MPI_Group_compare st group1 group2 =
     (case get_groups st group1 group2 of
        Inl er \<Rightarrow> Some (st, Inl (fn_fail ''**mpi_group_compare'' er))
      | Inr (p1, p2) \<Rightarrow>
          if g_size (gheap st) p1 \<noteq> g_size (gheap st) p2 then Some (st, Inr MPI_UNEQUAL)
          else
     (case MPIR_Group_setup_lpid_pairs (gheap st) p1 p2 of
        None \<Rightarrow> None
      | Some h \<Rightarrow>
     (case compare_walk h p1 p2 (g_first h p1) (g_first h p2) of
        None \<Rightarrow> None
      | Some True \<Rightarrow> Some (st\<lparr>gheap := h\<rparr>, Inr MPI_UNEQUAL)
      | Some False \<Rightarrow>
          Some (st\<lparr>gheap := h\<rparr>,
            Inr (if list_ex (\<lambda>i. pm_lpid h p1 i \<noteq> pm_lpid h p2 i) [0..<nat (g_size h p1)]
                 then MPI_SIMILAR else MPI_IDENT)))))"

section \<open>Translating ranks\<close>

text \<open>The search \<open>while (g2_idx >= 0 && l1_pid > l2_pid)\<close>.\<close>

partial_function (option) lpid_search :: "group_heap \<Rightarrow> nat \<Rightarrow> int \<Rightarrow> int \<Rightarrow> int \<Rightarrow> (int \<times> int) option" where
  "lpid_search h p2 l1_pid g2_idx l2_pid =
     (if g2_idx \<ge> 0 \<and> l1_pid > l2_pid then
        (let g2_idx = pm_next h p2 (nat g2_idx);
             l2_pid = (if g2_idx \<ge> 0 then pm_lpid h p2 (nat g2_idx) else - 1) in
         lpid_search h p2 l1_pid g2_idx l2_pid)
      else Some (g2_idx, l2_pid))"

text \<open>The loop over \<open>ranks1\<close>: the entries of \<open>ranks2\<close>, \<open>MPI_UNDEFINED\<close> where nothing is stored.\<close>

fun translate_loop :: "group_heap \<Rightarrow> nat \<Rightarrow> nat \<Rightarrow> int list \<Rightarrow> int \<Rightarrow> int \<Rightarrow> int list option" where
  "translate_loop h p1 p2 [] g2_idx l2_pid = Some []"
| "translate_loop h p1 p2 (r # rs) g2_idx l2_pid =
     (if r = MPI_PROC_NULL then
        (case translate_loop h p1 p2 rs g2_idx l2_pid of None \<Rightarrow> None | Some os \<Rightarrow> Some (MPI_PROC_NULL # os))
      else
        (let l1_pid = pm_lpid h p1 (nat r);
             (g2_idx, l2_pid) = (if l1_pid < l2_pid \<or> g2_idx < 0
                then (g_first h p2, pm_lpid h p2 (nat (g_first h p2))) else (g2_idx, l2_pid)) in
         case lpid_search h p2 l1_pid g2_idx l2_pid of
           None \<Rightarrow> None
         | Some (g2_idx, l2_pid) \<Rightarrow>
             (case translate_loop h p1 p2 rs g2_idx l2_pid of
                None \<Rightarrow> None
              | Some os \<Rightarrow>
                  Some ((if l1_pid = l2_pid then pm_lrank h p2 (nat g2_idx) else MPI_UNDEFINED) # os))))"

definition check_ranks1 :: "int \<Rightarrow> int list \<Rightarrow> bool" where
  "check_ranks1 size1 ranks1 \<longleftrightarrow> list_ex (\<lambda>r. r < 0 \<and> r \<noteq> MPI_PROC_NULL \<or> r \<ge> size1) ranks1"

definition MPI_Group_translate_ranks :: "group_state \<Rightarrow> handle \<Rightarrow> int \<Rightarrow> int list \<Rightarrow> handle
    \<Rightarrow> (group_state \<times> (mpi_err + int list)) option" where
  "MPI_Group_translate_ranks st group1 n ranks1 group2 =
     (case errtest_group group1 of
        Some er \<Rightarrow> Some (st, Inl (fn_fail ''**mpi_group_translate_ranks'' er))
      | None \<Rightarrow>
     (case errtest_group group2 of
        Some er \<Rightarrow> Some (st, Inl (fn_fail ''**mpi_group_translate_ranks'' er))
      | None \<Rightarrow>
         (let p1 = MPID_Group_get_ptr st group1; p2 = MPID_Group_get_ptr st group2;
              ranks1 = take (nat n) ranks1 in
          case last_error [(p1 = 0, new_error MPI_ERR_GROUP ''**nullptrtype''),
                           (p2 = 0, new_error MPI_ERR_GROUP ''**nullptrtype''),
                           (n < 0, new_error MPI_ERR_ARG ''**argneg''),
                           (p1 \<noteq> 0 \<and> check_ranks1 (g_size (gheap st) p1) ranks1, new_error MPI_ERR_RANK ''**rank'')] of
            Some er \<Rightarrow> Some (st, Inl (fn_fail ''**mpi_group_translate_ranks'' er))
          | None \<Rightarrow>
         (case (if g_first (gheap st) p2 < 0 then MPIR_Group_setup_lpid_list (gheap st) p2 else Some (gheap st)) of
            None \<Rightarrow> None
          | Some h \<Rightarrow>
              if g_first h p2 \<ge> 0 then
                (case translate_loop h p1 p2 ranks1 (g_first h p2) (pm_lpid h p2 (nat (g_first h p2))) of
                   None \<Rightarrow> None | Some os \<Rightarrow> Some (st\<lparr>gheap := h\<rparr>, Inr os))
              else Some (st\<lparr>gheap := h\<rparr>, Inr (map (\<lambda>_. MPI_UNDEFINED) ranks1))))))"

end
