(* ===== verification/MpiGroupSpec.thy ===== *)
theory MpiGroupSpec
  imports MpiGroup
begin

text \<open>
  What the group routines of \<open>MpiGroup\<close> compute: a group is the list of its members' local
  process ids in rank order, and each routine is an operation on such lists. The rank of the
  calling process is its position in the list.
\<close>

section \<open>Walks along two sorted lists\<close>

fun common :: "(nat \<Rightarrow> int) \<Rightarrow> (nat \<Rightarrow> int) \<Rightarrow> nat list \<Rightarrow> nat list \<Rightarrow> nat list" where
  "common k1 k2 [] ys = []"
| "common k1 k2 (x # xs) [] = []"
| "common k1 k2 (x # xs) (y # ys) =
     (if k1 x < k2 y then common k1 k2 xs (y # ys)
      else if k1 x > k2 y then common k1 k2 (x # xs) ys else x # common k1 k2 xs ys)"

fun lacking :: "(nat \<Rightarrow> int) \<Rightarrow> (nat \<Rightarrow> int) \<Rightarrow> nat list \<Rightarrow> nat list \<Rightarrow> nat list" where
  "lacking k1 k2 [] ys = ys"
| "lacking k1 k2 (x # xs) [] = []"
| "lacking k1 k2 (x # xs) (y # ys) =
     (if k1 x > k2 y then y # lacking k1 k2 (x # xs) ys
      else if k1 x = k2 y then lacking k1 k2 xs ys else lacking k1 k2 xs (y # ys))"

lemma set_common:
  "strict k1 xs \<Longrightarrow> strict k2 ys \<Longrightarrow> set (common k1 k2 xs ys) = {x \<in> set xs. k1 x \<in> k2 ` set ys}"
proof (induction k1 k2 xs ys rule: common.induct)
  case (3 k1 k2 x xs y ys)
  consider "k1 x < k2 y" | "k1 x > k2 y" | "k1 x = k2 y" by linarith
  then show ?case using 3 by cases force+
qed simp_all

lemma set_lacking:
  "strict k1 xs \<Longrightarrow> strict k2 ys \<Longrightarrow> set (lacking k1 k2 xs ys) = {y \<in> set ys. k2 y \<notin> k1 ` set xs}"
proof (induction k1 k2 xs ys rule: lacking.induct)
  case (3 k1 k2 x xs y ys)
  consider "k1 x < k2 y" | "k1 x > k2 y" | "k1 x = k2 y" by linarith
  then show ?case using 3 by cases force+
qed simp_all

lemma distinct_common: "distinct xs \<Longrightarrow> distinct (common k1 k2 xs ys) \<and> set (common k1 k2 xs ys) \<subseteq> set xs"
  by (induction k1 k2 xs ys rule: common.induct) auto

lemma distinct_lacking: "distinct ys \<Longrightarrow> distinct (lacking k1 k2 xs ys) \<and> set (lacking k1 k2 xs ys) \<subseteq> set ys"
  by (induction k1 k2 xs ys rule: lacking.induct) auto

section \<open>Flags\<close>

definition with_flags :: "group_heap \<Rightarrow> nat \<Rightarrow> (nat \<Rightarrow> int) \<Rightarrow> group_heap" where
  "with_flags h p f = h\<lparr>pm_flag := (pm_flag h)(p := f)\<rparr>"

definition marked :: "group_heap \<Rightarrow> nat \<Rightarrow> nat set \<Rightarrow> int \<Rightarrow> group_heap" where
  "marked h p X v = with_flags h p (\<lambda>i. if i \<in> X then v else pm_flag h p i)"

lemma with_flags_fields [simp]:
  "handle_of (with_flags h p f) = handle_of h" "next_of (with_flags h p f) = next_of h"
  "g_ref (with_flags h p f) = g_ref h" "g_size (with_flags h p f) = g_size h"
  "g_rank (with_flags h p f) = g_rank h" "g_first (with_flags h p f) = g_first h"
  "pm_lrank (with_flags h p f) = pm_lrank h" "pm_lpid (with_flags h p f) = pm_lpid h"
  "pm_next (with_flags h p f) = pm_next h" "pm_flag (with_flags h p f) p = f"
  by (simp_all add: with_flags_def)

lemma marked_fields [simp]:
  "handle_of (marked h p X v) = handle_of h" "next_of (marked h p X v) = next_of h"
  "g_ref (marked h p X v) = g_ref h" "g_size (marked h p X v) = g_size h"
  "g_rank (marked h p X v) = g_rank h" "g_first (marked h p X v) = g_first h"
  "pm_lrank (marked h p X v) = pm_lrank h" "pm_lpid (marked h p X v) = pm_lpid h"
  "pm_next (marked h p X v) = pm_next h" "pm_flag (marked h p X v) p = (\<lambda>i. if i \<in> X then v else pm_flag h p i)"
  by (simp_all add: marked_def)

lemma set_flag_marked: "set_flag h p i v = marked h p {i} v"
  by (auto simp: set_flag_def marked_def with_flags_def fun_eq_iff intro!: group_heap.equality)

lemma marked_marked: "marked (marked h p X v) p Y v = marked h p (X \<union> Y) v"
  by (auto simp: marked_def with_flags_def fun_eq_iff intro!: group_heap.equality)

lemma marked_empty [simp]: "marked h p {} v = h"
  by (simp add: marked_def with_flags_def)

lemma marked_insert: "marked (marked h p {x} v) p X v = marked h p (insert x X) v"
  by (simp add: marked_marked)

lemma fold_set_flag: "fold (\<lambda>i h. set_flag h p (f i) v) is h = marked h p (f ` set is) v"
  by (induction "is" arbitrary: h) (simp_all add: set_flag_marked marked_marked)

lemma clear_flags_marked: "clear_flags h p = marked h p {..<nat (g_size h p)} 0"
  using fold_set_flag[of p "\<lambda>i. i" 0] by (simp add: clear_flags_def lessThan_atLeast0)

section \<open>The walks of the code\<close>

lemma common_walk_spec:
  "chain (pm_next h p1) i xs \<Longrightarrow> chain (pm_next h p2) j ys \<Longrightarrow>
   common_walk d p1 p2 h i j n =
     Some (marked h p1 (set (common (pm_lpid h p1) (pm_lpid h p2) xs ys)) 1,
           n + d * int (length (common (pm_lpid h p1) (pm_lpid h p2) xs ys)))"
proof (induction "pm_lpid h p1" "pm_lpid h p2" xs ys arbitrary: h i j n rule: common.induct)
  case (1 ys)
  then show ?case by (subst common_walk.simps) simp
next
  case (2 x xs)
  then show ?case by (subst common_walk.simps) simp
next
  case (3 x xs y ys)
  then have i: "i = int x" "j = int y" by simp_all
  have c: "chain (pm_next h p1) (pm_next h p1 x) xs" "chain (pm_next h p2) (pm_next h p2 y) ys"
    using "3.prems" by simp_all
  consider (lt) "pm_lpid h p1 x < pm_lpid h p2 y" | (gt) "pm_lpid h p1 x > pm_lpid h p2 y"
    | (eq) "pm_lpid h p1 x = pm_lpid h p2 y" by linarith
  then show ?case
  proof cases
    case lt
    then show ?thesis using "3.hyps"(1)[OF _ refl refl c(1) "3.prems"(2)] i
      by (subst common_walk.simps) simp
  next
    case gt
    then show ?thesis using "3.hyps"(2)[OF _ _ refl refl "3.prems"(1) c(2)] i
      by (subst common_walk.simps) simp
  next
    case eq
    let ?h = "marked h p1 {x} 1"
    have "common_walk d p1 p2 ?h (pm_next h p1 x) (pm_next h p2 y) (n + d) =
        Some (marked ?h p1 (set (common (pm_lpid ?h p1) (pm_lpid ?h p2) xs ys)) 1,
          n + d + d * int (length (common (pm_lpid ?h p1) (pm_lpid ?h p2) xs ys)))"
      by (rule "3.hyps"(3)) (simp_all add: eq c)
    then show ?thesis using eq i
      by (subst common_walk.simps) (simp add: Let_def set_flag_marked marked_insert algebra_simps)
  qed
qed

lemma union_rest_spec:
  "chain (pm_next h p2) j ys \<Longrightarrow> union_rest p2 h j n = Some (marked h p2 (set ys) 1, n + int (length ys))"
proof (induction ys arbitrary: h j n)
  case Nil
  then show ?case by (subst union_rest.simps) simp
next
  case (Cons y ys)
  then show ?case using Cons.IH[of "marked h p2 {y} 1"]
    by (subst union_rest.simps) (simp add: Let_def set_flag_marked marked_insert)
qed

lemma union_walk_spec:
  "chain (pm_next h p1) i xs \<Longrightarrow> chain (pm_next h p2) j ys \<Longrightarrow>
   (case union_walk p1 p2 h i j n of None \<Rightarrow> None | Some (h, j, n) \<Rightarrow> union_rest p2 h j n) =
     Some (marked h p2 (set (lacking (pm_lpid h p1) (pm_lpid h p2) xs ys)) 1,
           n + int (length (lacking (pm_lpid h p1) (pm_lpid h p2) xs ys)))"
proof (induction "pm_lpid h p1" "pm_lpid h p2" xs ys arbitrary: h i j n rule: lacking.induct)
  case (1 ys)
  then have "union_walk p1 p2 h i j n = Some (h, j, n)" by (subst union_walk.simps) simp
  with 1 union_rest_spec[of h p2 j ys n] show ?case by simp
next
  case (2 x xs)
  then have "union_walk p1 p2 h i j n = Some (h, j, n)" by (subst union_walk.simps) simp
  with 2 union_rest_spec[of h p2 j "[]" n] show ?case by simp
next
  case (3 x xs y ys)
  then have i: "i = int x" "j = int y" by simp_all
  have c: "chain (pm_next h p1) (pm_next h p1 x) xs" "chain (pm_next h p2) (pm_next h p2 y) ys"
    using "3.prems" by simp_all
  consider (lt) "pm_lpid h p1 x < pm_lpid h p2 y" | (gt) "pm_lpid h p1 x > pm_lpid h p2 y"
    | (eq) "pm_lpid h p1 x = pm_lpid h p2 y" by linarith
  then show ?case
  proof cases
    case lt
    then show ?thesis using "3.hyps"(3)[OF _ _ refl refl c(1) "3.prems"(2)] i
      by (subst union_walk.simps) simp
  next
    case gt
    let ?h = "marked h p2 {y} 1"
    have "(case union_walk p1 p2 ?h i (pm_next h p2 y) (n + 1) of None \<Rightarrow> None | Some (h, j, n) \<Rightarrow> union_rest p2 h j n) =
        Some (marked ?h p2 (set (lacking (pm_lpid ?h p1) (pm_lpid ?h p2) (x # xs) ys)) 1,
          n + 1 + int (length (lacking (pm_lpid ?h p1) (pm_lpid ?h p2) (x # xs) ys)))"
      by (rule "3.hyps"(1)) (use gt c(2) "3.prems"(1) in simp_all)
    then show ?thesis using gt i
      by (subst union_walk.simps) (simp add: Let_def set_flag_marked marked_insert)
  next
    case eq
    then show ?thesis using "3.hyps"(2)[OF _ _ refl refl c] i by (subst union_walk.simps) simp
  qed
qed

lemma compare_walk_spec:
  "chain (pm_next h p1) i xs \<Longrightarrow> chain (pm_next h p2) j ys \<Longrightarrow> length xs = length ys \<Longrightarrow>
   compare_walk h p1 p2 i j = Some (map (pm_lpid h p1) xs \<noteq> map (pm_lpid h p2) ys)"
proof (induction xs ys arbitrary: i j rule: list_induct2')
  case (4 x xs y ys)
  then have "compare_walk h p1 p2 (pm_next h p1 x) (pm_next h p2 y)
      = Some (map (pm_lpid h p1) xs \<noteq> map (pm_lpid h p2) ys)" "i = int x" "j = int y" by simp_all
  then show ?case by (subst compare_walk.simps) simp
qed (subst compare_walk.simps, simp)+

section \<open>The rank of the calling process\<close>

definition rank_in :: "int \<Rightarrow> int list \<Rightarrow> int" where
  "rank_in me l = (if me \<in> set l then int (length (takeWhile (\<lambda>x. x \<noteq> me) l)) else MPI_UNDEFINED)"

lemma rank_in_simps [simp]:
  "rank_in me [] = MPI_UNDEFINED" "rank_in me l = MPI_UNDEFINED \<longleftrightarrow> me \<notin> set l"
  "0 \<le> rank_in me l \<longleftrightarrow> me \<in> set l"
  by (auto simp: rank_in_def)

lemma rank_in_Cons: "rank_in me (x # l) = (if x = me then 0 else if me \<in> set l then rank_in me l + 1 else MPI_UNDEFINED)"
  by (simp add: rank_in_def)

lemma rank_in_nth: "me \<in> set l \<Longrightarrow> nat (rank_in me l) < length l \<and> l ! nat (rank_in me l) = me"
proof (induction l)
  case (Cons x l)
  show ?case
  proof (cases "x = me")
    case False
    then have "me \<in> set l" using Cons.prems by simp
    moreover from this have "nat (rank_in me l + 1) = Suc (nat (rank_in me l))"
      using rank_in_simps(3)[of me l] by linarith
    ultimately show ?thesis using False Cons.IH by (simp add: rank_in_Cons)
  qed (simp add: rank_in_Cons)
qed simp

lemma rank_in_eq_iff: "distinct l \<Longrightarrow> j < length l \<Longrightarrow> l ! j = me \<longleftrightarrow> int j = rank_in me l"
proof -
  assume d: "distinct l" "j < length l"
  have "int j = rank_in me l" if "l ! j = me"
  proof -
    have m: "me \<in> set l" using that d(2) nth_mem by blast
    note r = rank_in_nth[OF m]
    have "j = nat (rank_in me l)" using nth_eq_iff_index_eq[OF d(1,2)] r that by metis
    then show ?thesis using rank_in_simps(3)[of me l] m by simp
  qed
  moreover have "int j = rank_in me l \<Longrightarrow> l ! j = me"
  proof -
    assume e: "int j = rank_in me l"
    then have "me \<in> set l" using rank_in_simps(3)[of me l] by linarith
    with rank_in_nth[of me l] e show "l ! j = me" by (metis nat_int)
  qed
  ultimately show ?thesis by blast
qed

lemma rank_in_map:
  assumes "distinct l" "\<And>j. j \<in> set js \<Longrightarrow> 0 \<le> j \<and> nat j < length l"
  shows "rank_in (rank_in me l) js = rank_in me (map (\<lambda>j. l ! nat j) js)"
  using assms(2)
proof (induction js)
  case (Cons j js)
  then have "0 \<le> j" "nat j < length l" by auto
  then have e: "l ! nat j = me \<longleftrightarrow> j = rank_in me l" using rank_in_eq_iff[OF assms(1), of "nat j" me] by simp
  have "rank_in me l \<in> set js \<longleftrightarrow> me \<in> set (map (\<lambda>j. l ! nat j) js)"
  proof
    assume "rank_in me l \<in> set js"
    moreover from this have "0 \<le> rank_in me l" using Cons.prems[of "rank_in me l"] by simp
    then have "me \<in> set l" by (simp only: rank_in_simps(3))
    ultimately show "me \<in> set (map (\<lambda>j. l ! nat j) js)" using rank_in_nth[of me l] by (force simp: image_iff)
  next
    assume "me \<in> set (map (\<lambda>j. l ! nat j) js)"
    then obtain i where "i \<in> set js" "l ! nat i = me" by auto
    with Cons.prems rank_in_eq_iff[OF assms(1), of "nat i" me] show "rank_in me l \<in> set js" by auto
  qed
  with Cons e show ?case by (simp add: rank_in_Cons)
qed simp

lemma rank_in_append: "rank_in me (l1 @ l2) =
    (if me \<in> set l1 then rank_in me l1 else if me \<in> set l2 then int (length l1) + rank_in me l2 else MPI_UNDEFINED)"
  by (induction l1) (auto simp: rank_in_Cons)

section \<open>Filling a new group\<close>

text \<open>Members \<open>ls\<close> from index \<open>k\<close> on, and the rank field \<open>r\<close>: the loops differ in nothing else.\<close>

fun put_all :: "nat \<Rightarrow> int list \<Rightarrow> nat \<Rightarrow> group_heap \<Rightarrow> group_heap" where
  "put_all q [] k h = h"
| "put_all q (l # ls) k h = put_all q ls (k + 1) (put_member h q k l)"

fun pick_rank :: "int \<Rightarrow> int list \<Rightarrow> nat \<Rightarrow> int \<Rightarrow> int" where
  "pick_rank r [] k c = c"
| "pick_rank r (j # js) k c = pick_rank r js (k + 1) (if j = r then int k else c)"

lemma put_member_fields [simp]:
  "handle_of (put_member h q k l) = handle_of h" "next_of (put_member h q k l) = next_of h"
  "g_ref (put_member h q k l) = g_ref h" "g_size (put_member h q k l) = g_size h"
  "g_rank (put_member h q k l) = g_rank h" "g_first (put_member h q k l) = g_first h"
  "pm_next (put_member h q k l) = pm_next h" "pm_flag (put_member h q k l) = pm_flag h"
  "p \<noteq> q \<Longrightarrow> pm_lpid (put_member h q k l) p = pm_lpid h p"
  "p \<noteq> q \<Longrightarrow> pm_lrank (put_member h q k l) p = pm_lrank h p"
  by (simp_all add: put_member_def)

lemma set_rank_fields [simp]:
  "handle_of (set_rank h q r) = handle_of h" "next_of (set_rank h q r) = next_of h"
  "g_ref (set_rank h q r) = g_ref h" "g_size (set_rank h q r) = g_size h"
  "g_first (set_rank h q r) = g_first h" "pm_lrank (set_rank h q r) = pm_lrank h"
  "pm_lpid (set_rank h q r) = pm_lpid h" "pm_next (set_rank h q r) = pm_next h"
  "pm_flag (set_rank h q r) = pm_flag h" "g_rank (set_rank h q r) = (g_rank h)(q := r)"
  by (simp_all add: set_rank_def)

lemma put_all_fields [simp]:
  "handle_of (put_all q ls k h) = handle_of h" "next_of (put_all q ls k h) = next_of h"
  "g_ref (put_all q ls k h) = g_ref h" "g_size (put_all q ls k h) = g_size h"
  "g_rank (put_all q ls k h) = g_rank h" "g_first (put_all q ls k h) = g_first h"
  "pm_next (put_all q ls k h) = pm_next h" "pm_flag (put_all q ls k h) = pm_flag h"
  "p \<noteq> q \<Longrightarrow> pm_lpid (put_all q ls k h) p = pm_lpid h p"
  "p \<noteq> q \<Longrightarrow> pm_lrank (put_all q ls k h) p = pm_lrank h p"
  by (induction ls arbitrary: k h) simp_all

lemma set_rank_put: "set_rank (put_member h q k l) q r = put_member (set_rank h q r) q k l"
  by (simp add: set_rank_def put_member_def)

lemma set_rank_idem: "set_rank (set_rank h q r) q s = set_rank h q s" "set_rank h q (g_rank h q) = h"
  by (simp_all add: set_rank_def)

lemma put_all_old:
  "i < k \<Longrightarrow> pm_lpid (put_all q ls k h) q i = pm_lpid h q i \<and> pm_lrank (put_all q ls k h) q i = pm_lrank h q i"
  by (induction ls arbitrary: k h) (simp_all add: put_member_def)

lemma put_all_new:
  "i < length ls \<Longrightarrow> pm_lpid (put_all q ls k h) q (k + i) = ls ! i \<and> pm_lrank (put_all q ls k h) q (k + i) = int (k + i)"
proof (induction ls arbitrary: k h i)
  case (Cons l ls)
  show ?case
  proof (cases i)
    case 0
    then show ?thesis using put_all_old[of k "k + 1" q ls "put_member h q k l"] by (simp add: put_member_def)
  next
    case (Suc j)
    then show ?thesis using Cons.IH[of j "k + 1" "put_member h q k l"] Cons.prems by simp
  qed
qed simp

lemma take_ranks_put_all:
  "p \<noteq> q \<Longrightarrow> take_ranks p q js k h =
     put_all q (map (\<lambda>j. pm_lpid h p (nat j)) js) k (set_rank h q (pick_rank (g_rank h p) js k (g_rank h q)))"
proof (induction js arbitrary: k h)
  case Nil
  then show ?case by (simp add: set_rank_idem)
next
  case (Cons j js)
  let ?h = "if j = g_rank h p then set_rank (put_member h q k (pm_lpid h p (nat j))) q (int k)
    else put_member h q k (pm_lpid h p (nat j))"
  have "pm_lpid ?h p = pm_lpid h p" "g_rank ?h p = g_rank h p"
    "g_rank ?h q = (if j = g_rank h p then int k else g_rank h q)" using Cons.prems by simp_all
  then show ?case using Cons.IH[OF Cons.prems, of "k + 1" ?h]
    by (simp add: Let_def set_rank_put set_rank_idem)
qed

lemma take_flagged_take_ranks:
  "p \<noteq> q \<Longrightarrow> take_flagged P p q is k h = take_ranks p q (map int (filter (\<lambda>i. P (pm_flag h p i)) is)) k h"
proof (induction "is" arbitrary: k h)
  case (Cons i "is")
  then show ?case by (simp add: Let_def)
qed simp

lemma pick_rank_distinct:
  "distinct js \<Longrightarrow> pick_rank r js k c = (if r \<in> set js then int k + rank_in r js else c)"
proof (induction js arbitrary: k c)
  case (Cons j js)
  then show ?case by (auto simp: rank_in_Cons)
qed simp

lemma fold_put_member: "fold (\<lambda>i h. put_member h q i (f i)) [k..<k + n] h = put_all q (map f [k..<k + n]) k h"
proof (induction n arbitrary: k h)
  case (Suc n)
  have "[k..<k + Suc n] = k # [Suc k..<Suc k + n]" by (simp add: upt_conv_Cons)
  with Suc[of "Suc k"] show ?case by simp
qed simp



section \<open>Groups as lists\<close>

definition lpids_ok :: "int list \<Rightarrow> bool" where
  "lpids_ok l \<longleftrightarrow> distinct l \<and> (\<forall>x \<in> set l. 0 \<le> x)"

definition lpid_ordered :: "group_heap \<Rightarrow> nat \<Rightarrow> bool" where
  "lpid_ordered h p \<longleftrightarrow> (\<exists>xs. chain (pm_next h p) (g_first h p) xs \<and> strict (pm_lpid h p) xs
     \<and> set xs = {..<nat (g_size h p)})"

definition group_rep :: "int \<Rightarrow> group_heap \<Rightarrow> nat \<Rightarrow> int list \<Rightarrow> bool" where
  "group_rep me h p l \<longleftrightarrow> g_size h p = int (length l)
     \<and> (\<forall>i < length l. pm_lpid h p i = l ! i \<and> pm_lrank h p i = int i)
     \<and> lpids_ok l \<and> g_rank h p = rank_in me l \<and> (g_first h p = - 1 \<or> lpid_ordered h p)"

lemma group_rep_lpids: "group_rep me h p l \<Longrightarrow> map (pm_lpid h p) [0..<length l] = l"
  by (auto simp: group_rep_def intro: nth_equalityI)

lemma group_rep_cong:
  assumes "g_size h' p = g_size h p" "g_rank h' p = g_rank h p" "g_first h' p = g_first h p"
    "pm_lrank h' p = pm_lrank h p" "pm_lpid h' p = pm_lpid h p" "pm_next h' p = pm_next h p"
  shows "group_rep me h' p l = group_rep me h p l" "lpid_ordered h' p = lpid_ordered h p"
  using assms by (simp_all add: group_rep_def lpid_ordered_def)

lemma group_rep_marked [simp]:
  "group_rep me (marked h q X v) p l = group_rep me h p l" "lpid_ordered (marked h q X v) p = lpid_ordered h p"
  by (rule group_rep_cong; simp)+

text \<open>Lists by process id may be added, nothing else changes.\<close>

definition relisted :: "int \<Rightarrow> group_heap \<Rightarrow> group_heap \<Rightarrow> bool" where
  "relisted me h h' \<longleftrightarrow> handle_of h' = handle_of h \<and> next_of h' = next_of h \<and> g_ref h' = g_ref h
     \<and> g_size h' = g_size h \<and> g_rank h' = g_rank h \<and> pm_lrank h' = pm_lrank h \<and> pm_lpid h' = pm_lpid h
     \<and> (\<forall>q l. group_rep me h q l \<longrightarrow> group_rep me h' q l)"

lemma setup_list_spec:
  assumes "group_rep me h p l"
  shows "\<exists>h'. MPIR_Group_setup_lpid_list h p = Some h' \<and> relisted me h h' \<and> lpid_ordered h' p
    \<and> (\<forall>q. q \<noteq> p \<longrightarrow> lpid_ordered h q \<longrightarrow> lpid_ordered h' q)"
proof (cases "g_first h p = - 1")
  case True
  obtain nx i where s: "MPIR_Mergesort_lpidarray (pm_lpid h p) 0 (nat (g_size h p)) (pm_next h p) = Some (nx, i)"
    using ls.order_total by blast
  let ?h = "h\<lparr>pm_next := (pm_next h)(p := nx), g_first := (g_first h)(p := i)\<rparr>"
  have "inj_on (pm_lpid h p) {..<nat (g_size h p)}"
    using assms by (auto simp: group_rep_def lpids_ok_def inj_on_def nth_eq_iff_index_eq)
  from ls.order_strict[OF s this] have o: "lpid_ordered ?h p" by (simp add: lpid_ordered_def)
  have oq: "lpid_ordered ?h q = lpid_ordered h q" "group_rep me ?h q l' = group_rep me h q l'" if "q \<noteq> p" for q l'
    using that by (simp_all add: group_rep_def lpid_ordered_def)
  have "group_rep me ?h q l'" if "group_rep me h q l'" for q l'
    using that oq[of q] o by (cases "q = p") (auto simp: group_rep_def)
  then have "relisted me h ?h" by (simp add: relisted_def)
  moreover have "MPIR_Group_setup_lpid_list h p = Some ?h" using True s by (simp add: MPIR_Group_setup_lpid_list_def)
  ultimately show ?thesis using o oq(1) by blast
next
  case False
  then have "MPIR_Group_setup_lpid_list h p = Some h" by (simp add: MPIR_Group_setup_lpid_list_def)
  moreover have "lpid_ordered h p" using assms False by (auto simp: group_rep_def)
  ultimately show ?thesis by (auto simp: relisted_def)
qed

lemma maybe_setup_spec:
  assumes "group_rep me h p l"
  shows "\<exists>h'. (if g_first h p < 0 then MPIR_Group_setup_lpid_list h p else Some h) = Some h'
    \<and> relisted me h h' \<and> lpid_ordered h' p \<and> (\<forall>q. q \<noteq> p \<longrightarrow> lpid_ordered h q \<longrightarrow> lpid_ordered h' q)"
proof (cases "g_first h p < 0")
  case True
  then show ?thesis using setup_list_spec[OF assms] by simp
next
  case False
  then show ?thesis using assms by (auto simp: relisted_def group_rep_def)
qed

lemma setup_pairs_spec:
  assumes "group_rep me h p1 l1" "group_rep me h p2 l2"
  shows "\<exists>h'. MPIR_Group_setup_lpid_pairs h p1 p2 = Some h' \<and> relisted me h h' \<and> lpid_ordered h' p1 \<and> lpid_ordered h' p2"
proof -
  from maybe_setup_spec[OF assms(1)] obtain h1 where
    h1: "(if g_first h p1 < 0 then MPIR_Group_setup_lpid_list h p1 else Some h) = Some h1"
      "relisted me h h1" "lpid_ordered h1 p1" by blast
  have "group_rep me h1 p2 l2" using assms(2) h1(2) by (simp add: relisted_def)
  from maybe_setup_spec[OF this] obtain h2 where
    h2: "(if g_first h1 p2 < 0 then MPIR_Group_setup_lpid_list h1 p2 else Some h1) = Some h2"
      "relisted me h1 h2" "lpid_ordered h2 p2" "p1 \<noteq> p2 \<Longrightarrow> lpid_ordered h2 p1" using h1(3) by blast
  have "relisted me h h2" using h1(2) h2(2) by (simp add: relisted_def)
  moreover have "MPIR_Group_setup_lpid_pairs h p1 p2 = Some h2"
    unfolding MPIR_Group_setup_lpid_pairs_def h1(1) using h2(1) by simp
  ultimately show ?thesis using h2(3,4) by metis
qed

section \<open>The groups in use\<close>

text \<open>
  The abstract state \<open>A\<close> gives the list of each group; \<open>MPI_GROUP_EMPTY\<close> is always one of
  them. \<open>me\<close> is the local process id of the calling process.
\<close>

definition gpool :: "group_state \<Rightarrow> group_heap \<times> MPIU_Object_alloc_t" where
  "gpool st = (gheap st, MPID_Group_mem st)"

definition group_rel :: "int \<Rightarrow> group_state \<Rightarrow> (nat \<rightharpoonup> int list) \<Rightarrow> bool" where
  "group_rel me st A \<longleftrightarrow> pool_ok (gpool st) \<and> om_kind (MPID_Group_mem st) = MPID_GROUP
     \<and> MPID_Group_builtin st \<noteq> 0 \<and> MPID_Group_builtin st \<notin> set (all_objs (MPID_Group_mem st))
     \<and> handle_of (gheap st) (MPID_Group_builtin st) = MPI_GROUP_EMPTY \<and> A (MPID_Group_builtin st) = Some []
     \<and> (\<forall>p l. A p = Some l \<longrightarrow> group_rep me (gheap st) p l
          \<and> (p \<noteq> MPID_Group_builtin st \<longrightarrow> p \<in> pool_live (gpool st) \<and> 1 \<le> g_ref (gheap st) p))"

definition group_env_ok :: "group_env \<Rightarrow> group_state \<Rightarrow> bool" where
  "group_env_ok e st \<longleftrightarrow> calloc_fresh (ge_calloc e) (MPID_Group_mem st)
     \<and> (new_block (ge_calloc e) = 0 \<or> MPID_Group_builtin st \<notin>
          set (block_objs (new_block (ge_calloc e)) (om_size (MPID_Group_mem st)) HANDLE_BLOCK_SIZE))"

definition create_fails :: "group_env \<Rightarrow> group_state \<Rightarrow> bool" where
  "create_fails e st \<longleftrightarrow> \<not> ge_malloc e \<or> snd (pool_alloc (ge_calloc e) (gpool st)) = 0"

lemma group_pool_cong:
  fixes h h' :: group_heap
  assumes "handle_of h' = handle_of h" "next_of h' = next_of h"
  shows "pool_ok (h', om) = pool_ok (h, om)" "pool_live (h', om) = pool_live (h, om)"
  using assms by (simp_all add: pool_ok_def pool_inv_def handles_ok_def pool_live_def)

lemma group_rel_rep: "group_rel me st A \<Longrightarrow> A p = Some l \<Longrightarrow> group_rep me (gheap st) p l"
  by (simp add: group_rel_def)

lemma live_not_builtin:
  assumes "group_rel me st A" "p \<in> pool_live (gpool st)"
  shows "p \<noteq> MPID_Group_builtin st"
  using assms pool_objs_all[of "MPID_Group_mem st"] by (auto simp: group_rel_def pool_live_def gpool_def)

lemma empty_handle: "HANDLE_GET_KIND MPI_GROUP_EMPTY = HANDLE_KIND_BUILTIN" "HANDLE_INDEX MPI_GROUP_EMPTY = 0"
  "errtest_group MPI_GROUP_EMPTY = None" "HANDLE_GET_KIND MPI_GROUP_NULL = HANDLE_KIND_INVALID"
  by code_simp+

lemma pool_handle:
  assumes "pool_ok (h, om)" "p \<in> pool_live (h, om)" "om_kind om = MPID_GROUP"
  shows "errtest_group (handle_of h p) = None" "MPID_Get_ptr om (handle_of h p) = p"
    "HANDLE_GET_KIND (handle_of h p) \<noteq> HANDLE_KIND_BUILTIN" "p \<noteq> 0" "handle_of h p \<noteq> MPI_GROUP_EMPTY"
proof -
  from assms(1) obtain fs where inv: "pool_inv h om fs" by (auto simp: pool_ok_def)
  from assms(2) have "p \<in> set (pool_objs om)" by (simp add: pool_live_def)
  note g = get_ptr_handle[OF inv this]
  show n: "p \<noteq> 0" using hm.null_not_live[OF assms(1)] assms(2) by metis
  show k: "HANDLE_GET_KIND (handle_of h p) \<noteq> HANDLE_KIND_BUILTIN" using g n by (auto simp: MPID_Get_ptr_def)
  then show "handle_of h p \<noteq> MPI_GROUP_EMPTY" using empty_handle(1) by metis
  show "MPID_Get_ptr om (handle_of h p) = p" using g by simp
  have "handle_of h p \<noteq> MPI_GROUP_NULL" using g empty_handle(4) by metis
  then show "errtest_group (handle_of h p) = None" using g assms(3) by (simp add: errtest_group_def)
qed

lemma group_handle:
  assumes "group_rel me st A" "A p = Some l"
  shows "errtest_group (handle_of (gheap st) p) = None" "MPID_Group_get_ptr st (handle_of (gheap st) p) = p" "p \<noteq> 0"
    "get_group st (handle_of (gheap st) p) = Inr p"
proof -
  have *: "errtest_group (handle_of (gheap st) p) = None \<and> MPID_Group_get_ptr st (handle_of (gheap st) p) = p \<and> p \<noteq> 0"
  proof (cases "p = MPID_Group_builtin st")
    case True
    then show ?thesis using assms(1) empty_handle by (simp add: group_rel_def MPID_Group_get_ptr_def)
  next
    case False
    then have "p \<in> pool_live (gpool st)" using assms by (simp add: group_rel_def)
    then show ?thesis using assms(1) pool_handle[of "gheap st" "MPID_Group_mem st" p]
      by (simp add: group_rel_def gpool_def MPID_Group_get_ptr_def)
  qed
  then show "errtest_group (handle_of (gheap st) p) = None"
    "MPID_Group_get_ptr st (handle_of (gheap st) p) = p" "p \<noteq> 0"
    "get_group st (handle_of (gheap st) p) = Inr p" by (simp_all add: get_group_def)
qed

lemma groups_handles:
  assumes "group_rel me st A" "A p1 = Some l1" "A p2 = Some l2"
  shows "get_groups st (handle_of (gheap st) p1) (handle_of (gheap st) p2) = Inr (p1, p2)"
  using group_handle[OF assms(1,2)] group_handle[OF assms(1,3)] by (simp add: get_groups_def)

lemma group_rel_heap:
  assumes "group_rel me st A" "handle_of h = handle_of (gheap st)" "next_of h = next_of (gheap st)"
    "g_ref h = g_ref (gheap st)" "\<And>p l. A p = Some l \<Longrightarrow> group_rep me (gheap st) p l \<Longrightarrow> group_rep me h p l"
  shows "group_rel me (st\<lparr>gheap := h\<rparr>) A"
  using assms(1,4,5) group_pool_cong[OF assms(2,3)] by (simp add: group_rel_def gpool_def assms(2))

lemma group_rel_relisted: "group_rel me st A \<Longrightarrow> relisted me (gheap st) h \<Longrightarrow> group_rel me (st\<lparr>gheap := h\<rparr>) A"
  by (rule group_rel_heap) (simp_all add: relisted_def)

lemma group_rel_marked: "group_rel me st A \<Longrightarrow> group_rel me (st\<lparr>gheap := marked (gheap st) p X v\<rparr>) A"
  by (rule group_rel_heap) simp_all

text \<open>A new group of which only its own fields were written.\<close>

lemma group_rel_add:
  assumes "group_rel me st A" "q \<notin> dom A" "q \<in> pool_live (gpool st)" "g_ref (gheap st) q = 1"
    "handle_of h = handle_of (gheap st)" "next_of h = next_of (gheap st)" "g_ref h = g_ref (gheap st)"
    "\<And>p. p \<noteq> q \<Longrightarrow> g_size h p = g_size (gheap st) p \<and> g_rank h p = g_rank (gheap st) p
       \<and> g_first h p = g_first (gheap st) p \<and> pm_lrank h p = pm_lrank (gheap st) p
       \<and> pm_lpid h p = pm_lpid (gheap st) p \<and> pm_next h p = pm_next (gheap st) p"
    "group_rep me h q l"
  shows "group_rel me (st\<lparr>gheap := h\<rparr>) (A(q \<mapsto> l))"
proof -
  have "group_rep me h p l' = group_rep me (gheap st) p l'" if "p \<noteq> q" for p l'
    by (rule group_rep_cong) (use assms(8)[OF that] in simp_all)
  then show ?thesis
    using assms live_not_builtin[OF assms(1,3)] group_pool_cong[OF assms(5,6)]
    by (simp add: group_rel_def gpool_def)
qed

section \<open>Creation\<close>

text \<open>The allocator gets memory and writes handles only in its own objects and in a new block.\<close>

abbreviation block_of :: "calloc_env \<Rightarrow> MPIU_Object_alloc_t \<Rightarrow> nat set" where
  "block_of e om \<equiv> (if new_block e = 0 then {} else set (block_objs (new_block e) (om_size om) HANDLE_BLOCK_SIZE))"

lemma indirect_init_outside:
  assumes "pool_wf om" "MPIU_Handle_indirect_init e h (om_indirect om) (om_indirect_size om) HANDLE_BLOCK_INDEX_SIZE
      HANDLE_BLOCK_SIZE (om_size om) (om_kind om) = (h', ind, isize, ptr)"
  shows "set (all_objs (om\<lparr>om_indirect := ind, om_indirect_size := isize\<rparr>)) \<subseteq> set (all_objs om) \<union> block_of e om
    \<and> (x \<notin> block_of e om \<longrightarrow> handle_of h' x = handle_of h x)"
proof -
  have "set (blocks (om\<lparr>om_indirect := ind, om_indirect_size := isize\<rparr>))
      \<subseteq> set (blocks om) \<union> (if new_block e = 0 then {} else {new_block e})"
  proof (cases "om_indirect om")
    case None
    have "take (Suc 0) (xs[0 := b]) = [b]" if "xs \<noteq> []" for xs and b :: nat
      using that by (cases xs) simp_all
    with None show ?thesis using assms
      by (auto simp: MPIU_Handle_indirect_init_def blocks_def pool_wf_def split: if_splits prod.splits)
  next
    case (Some t)
    then have "take (Suc (om_indirect_size om)) (t[om_indirect_size om := new_block e])
        = take (om_indirect_size om) t @ [new_block e]"
      using assms(1) by (simp add: pool_wf_def take_Suc_conv_app_nth)
    then show ?thesis using assms(2)[unfolded MPIU_Handle_indirect_init_def Some]
      by (auto simp: blocks_def Some split: if_splits prod.splits)
  qed
  moreover have "handle_of h' x = handle_of h x" if "x \<notin> block_of e om"
    using assms(2) that
    by (auto simp: MPIU_Handle_indirect_init_def split: option.splits if_splits prod.splits dest!: link_block_frame[where x = x])
  ultimately show ?thesis by (auto simp: all_objs_def split: if_splits)
qed

lemma alloc_outside:
  assumes "pool_wf om" "MPIU_Handle_obj_alloc e h om = (h', om', q)"
  shows "set (all_objs om') \<subseteq> set (all_objs om) \<union> block_of e om
    \<and> (x \<notin> set (all_objs om) \<union> block_of e om \<longrightarrow> handle_of h' x = handle_of h x)"
proof -
  have init: "all_objs (om\<lparr>om_initialized := True, om_avail := y\<rparr>) = all_objs om"
    "all_objs (om\<lparr>om_initialized := True\<rparr>) = all_objs om" for y
    by (simp_all add: all_objs_def blocks_def cong: option.case_cong)
  consider "om_avail om \<noteq> 0" | "om_avail om = 0" "\<not> om_initialized om" | "om_avail om = 0" "om_initialized om" by blast
  then show ?thesis
  proof cases
    case 1
    then show ?thesis using assms(2) by (auto simp: MPIU_Handle_obj_alloc_def)
  next
    case 2
    obtain h2 ptr where d: "MPIU_Handle_direct_init h (om_direct om) (om_direct_size om) (om_size om) (om_kind om) = (h2, ptr)"
      by fastforce
    have "handle_of h2 x = handle_of h x" if "x \<notin> set (all_objs om)"
      using d that by (auto simp: MPIU_Handle_direct_init_def all_objs_def split: prod.splits dest!: link_block_frame[where x = x])
    then show ?thesis using assms(2) 2 d init by (auto simp: MPIU_Handle_obj_alloc_def Let_def split: if_splits)
  next
    case 3
    obtain h2 ind isize ptr where i: "MPIU_Handle_indirect_init e h (om_indirect om) (om_indirect_size om)
        HANDLE_BLOCK_INDEX_SIZE HANDLE_BLOCK_SIZE (om_size om) (om_kind om) = (h2, ind, isize, ptr)"
      by (metis prod_cases4)
    have "all_objs om' = all_objs (om\<lparr>om_indirect := ind, om_indirect_size := isize\<rparr>)" "h' = h2"
      using assms(2) 3 i by (auto simp: MPIU_Handle_obj_alloc_def Let_def)
    then show ?thesis using indirect_init_outside[OF assms(1) i, of x] by auto
  qed
qed

lemma create_spec:
  assumes "group_rel me st A" "group_env_ok e st"
  obtains (nomem) st' er where "MPIR_Group_create e st n = (st', Inl er)" "group_rel me st' A"
      "err_class er = MPI_ERR_OTHER" "create_fails e st"
      "\<forall>p \<in> dom A. handle_of (gheap st') p = handle_of (gheap st) p"
  | (new) st' q where "MPIR_Group_create e st n = (st', Inr q)" "group_rel me st' A" "q \<notin> dom A"
      "q \<in> pool_live (gpool st')" "\<not> create_fails e st" "MPID_Group_builtin st' = MPID_Group_builtin st"
      "g_ref (gheap st') q = 1" "g_size (gheap st') = (g_size (gheap st))(q := n)" "g_first (gheap st') q = - 1"
      "g_rank (gheap st') = g_rank (gheap st)" "pm_lpid (gheap st') = pm_lpid (gheap st)"
      "pm_flag (gheap st') = pm_flag (gheap st)" "\<forall>p \<in> dom A. handle_of (gheap st') p = handle_of (gheap st) p"
proof -
  obtain h om q where al: "MPIU_Handle_obj_alloc (ge_calloc e) (gheap st) (MPID_Group_mem st) = (h, om, q)"
    by (metis prod_cases3)
  then have pal: "pool_alloc (ge_calloc e) (gpool st) = ((h, om), q)" by (simp add: pool_alloc_def gpool_def)
  have ok: "pool_ok (gpool st)" "calloc_fresh (ge_calloc e) (snd (gpool st))"
    using assms by (simp_all add: group_rel_def group_env_ok_def gpool_def)
  note ok' = hm.alloc_inv[OF ok pal] and fr = hm.alloc_frame[OF ok pal] and rest = hm.alloc_rest[OF ok pal]
  have more: "handle_heap.more h = handle_heap.more (gheap st)" and kind: "om_kind om = om_kind (MPID_Group_mem st)"
    using rest by (simp_all add: pool_rest_def gpool_def)
  have flds: "g_ref h = g_ref (gheap st)" "g_size h = g_size (gheap st)" "g_rank h = g_rank (gheap st)"
    "g_first h = g_first (gheap st)" "pm_lrank h = pm_lrank (gheap st)" "pm_lpid h = pm_lpid (gheap st)"
    "pm_next h = pm_next (gheap st)" "pm_flag h = pm_flag (gheap st)"
    using more by (cases h; cases "gheap st"; simp)+
  let ?b = "MPID_Group_builtin st" and ?om = "MPID_Group_mem st"
  have wf: "pool_wf ?om" using ok(1) by (auto simp: pool_ok_def pool_inv_def gpool_def)
  have "?b \<notin> set (all_objs ?om) \<union> block_of (ge_calloc e) ?om"
    using assms by (auto simp: group_rel_def group_env_ok_def split: if_splits)
  with alloc_outside[OF wf al, of ?b] have b: "?b \<notin> set (all_objs om)" "handle_of h ?b = handle_of (gheap st) ?b" by auto
  have live: "p \<in> pool_live (gpool st)" if "p \<in> dom A" "p \<noteq> ?b" for p
    using that assms(1) by (auto simp: group_rel_def)
  have hd: "handle_of h p = handle_of (gheap st) p" if "p \<in> dom A" for p
    using live[OF that] b(2) fr[of p] by (cases "p = ?b") (simp_all add: gpool_def)
  note rel = assms(1)[unfolded group_rel_def gpool_def]
  show thesis
  proof (cases "q = 0")
    case True
    have "pool_live (h, om) = pool_live (gpool st)" using hm.alloc_null[OF ok] pal True by metis
    then have "group_rel me (st\<lparr>gheap := h, MPID_Group_mem := om\<rparr>) A"
      using rel ok' b kind flds by (simp add: group_rel_def gpool_def group_rep_cong[of h _ "gheap st"])
    moreover have "create_fails e st" using True pal by (simp add: create_fails_def)
    ultimately show thesis using nomem al True hd by (simp add: MPIR_Group_create_def)
  next
    case False
    note lv = hm.alloc_live[OF ok pal False]
    have qA: "q \<notin> dom A" using live[of q] lv b(1) pool_objs_all[of om] by (auto simp: pool_live_def)
    let ?h1 = "h\<lparr>g_ref := (g_ref h)(q := 1)\<rparr>"
    have h1: "pool_ok (?h1, om)" "pool_live (?h1, om) = insert q (pool_live (gpool st))"
      using ok' lv group_pool_cong[of ?h1 h om] by simp_all
    show thesis
    proof (cases "ge_malloc e")
      case False
      let ?h2 = "?h1\<lparr>next_of := (next_of ?h1)(q := om_avail om)\<rparr>" and ?om2 = "om\<lparr>om_avail := q\<rparr>"
      have fr: "pool_free q (?h1, om) = (?h2, ?om2)" by (simp add: pool_free_def MPIU_Handle_obj_free_def)
      have "pool_ok (?h2, ?om2)" "pool_live (?h2, ?om2) = pool_live (gpool st)"
        using hm.free_inv[OF h1(1), of q] hm.free_live[OF h1(1), of q] lv h1(2) unfolding fr by auto
      moreover have "group_rep me ?h2 p l = group_rep me (gheap st) p l" for p l
        by (rule group_rep_cong) (simp_all add: flds)
      moreover have "1 \<le> g_ref ?h2 p" if "A p = Some l" "p \<noteq> ?b" for p l using rel that qA by (auto simp: flds)
      ultimately have "group_rel me (st\<lparr>gheap := ?h2, MPID_Group_mem := ?om2\<rparr>) A"
        using rel b kind by (auto simp: group_rel_def gpool_def)
      moreover have "create_fails e st" using False by (simp add: create_fails_def)
      ultimately show thesis using nomem al False \<open>q \<noteq> 0\<close> hd
        by (simp add: MPIR_Group_create_def MPIU_Handle_obj_free_def)
    next
      case True
      let ?h2 = "?h1\<lparr>g_size := (g_size h)(q := n), g_first := (g_first h)(q := - 1)\<rparr>"
      let ?st = "st\<lparr>gheap := ?h2, MPID_Group_mem := om\<rparr>"
      have h2: "pool_ok (?h2, om)" "pool_live (?h2, om) = insert q (pool_live (gpool st))"
        using h1 group_pool_cong[of ?h2 ?h1 om] by simp_all
      have "group_rep me ?h2 p l = group_rep me (gheap st) p l" if "p \<noteq> q" for p l
        by (rule group_rep_cong) (use that in \<open>simp_all add: flds\<close>)
      then have "group_rep me ?h2 p l" if "A p = Some l" for p l using rel that qA by (cases "p = q") auto
      moreover have "1 \<le> g_ref ?h2 p" if "A p = Some l" "p \<noteq> ?b" for p l using rel that qA by (auto simp: flds)
      ultimately have "group_rel me ?st A" using rel b kind h2 by (auto simp: group_rel_def gpool_def)
      moreover have "q \<in> pool_live (gpool ?st)" using h2(2) by (simp add: gpool_def)
      moreover have "\<not> create_fails e st" using True pal \<open>q \<noteq> 0\<close> by (simp add: create_fails_def)
      moreover have "MPIR_Group_create e st n = (?st, Inr q)"
        using al True \<open>q \<noteq> 0\<close> by (simp add: MPIR_Group_create_def Let_def)
      ultimately show thesis using new qA hd by (simp add: flds)
    qed
  qed
qed


section \<open>New groups\<close>

lemma alloc_pointer: "snd (pool_alloc e (h, om)) = snd (pool_alloc e (h', om))"
  by (auto simp: pool_alloc_def MPIU_Handle_obj_alloc_def MPIU_Handle_direct_init_def
      MPIU_Handle_indirect_init_def Let_def split: prod.splits option.splits)

lemma env_heap [simp]: "create_fails e (st\<lparr>gheap := h\<rparr>) = create_fails e st"
  "group_env_ok e (st\<lparr>gheap := h\<rparr>) = group_env_ok e st"
  using alloc_pointer[of "ge_calloc e" h "MPID_Group_mem st" "gheap st"]
  by (simp_all add: create_fails_def group_env_ok_def gpool_def)

text \<open>
  The result of a routine that makes a group: no memory and nothing changed, or the group of the
  list \<open>l\<close>, a new object or \<open>MPI_GROUP_EMPTY\<close>, and all others as before.
\<close>

definition gives_group :: "int \<Rightarrow> group_env \<Rightarrow> group_state \<Rightarrow> (nat \<rightharpoonup> int list) \<Rightarrow> int list
    \<Rightarrow> group_state \<times> (mpi_err + handle) \<Rightarrow> bool" where
  "gives_group me e st A l = (\<lambda>(st', r).
     (\<forall>p \<in> dom A. handle_of (gheap st') p = handle_of (gheap st) p)
     \<and> (case r of
          Inl er \<Rightarrow> group_rel me st' A \<and> err_class er = MPI_ERR_OTHER \<and> create_fails e st
        | Inr g \<Rightarrow> (\<exists>q. group_rel me st' (A(q \<mapsto> l)) \<and> g = handle_of (gheap st') q
            \<and> (q \<notin> dom A \<and> \<not> create_fails e st \<or> l = [] \<and> g = MPI_GROUP_EMPTY))))"

lemma gives_empty:
  assumes "group_rel me st A"
  shows "gives_group me e st A [] (st, Inr MPI_GROUP_EMPTY)"
proof -
  let ?b = "MPID_Group_builtin st"
  have "A(?b \<mapsto> []) = A" "handle_of (gheap st) ?b = MPI_GROUP_EMPTY"
    using assms by (auto simp: group_rel_def)
  then have "group_rel me st (A(?b \<mapsto> [])) \<and> MPI_GROUP_EMPTY = handle_of (gheap st) ?b" using assms by simp
  then show ?thesis unfolding gives_group_def by (simp del: fun_upd_apply) blast
qed

lemma gives_relisted:
  "gives_group me e (st\<lparr>gheap := h\<rparr>) A l sr \<Longrightarrow> handle_of h = handle_of (gheap st) \<Longrightarrow> gives_group me e st A l sr"
  by (simp add: gives_group_def split: prod.splits sum.splits)

lemma filled_rel:
  assumes "group_rel me st A" "q \<notin> dom A" "q \<in> pool_live (gpool st)" "g_ref (gheap st) q = 1"
    "g_size (gheap st) q = int (length l)" "g_first (gheap st) q = - 1" "lpids_ok l"
  shows "group_rel me (st\<lparr>gheap := put_all q l 0 (set_rank (gheap st) q (rank_in me l))\<rparr>) (A(q \<mapsto> l))"
proof (rule group_rel_add[OF assms(1-4)])
  let ?h = "put_all q l 0 (set_rank (gheap st) q (rank_in me l))"
  show "group_rep me ?h q l"
    using assms(5-7) put_all_new[of _ l q 0 "set_rank (gheap st) q (rank_in me l)"] by (simp add: group_rep_def)
qed simp_all

lemma put_all_same:
  "g_size h q = n \<Longrightarrow> g_first h q = f \<Longrightarrow> h\<lparr>g_size := (g_size h)(q := n), g_first := (g_first h)(q := f)\<rparr> = h"
  by (simp add: fun_upd_idem)

text \<open>The rank loops build the list of the members they visit.\<close>

lemma take_ranks_rep:
  assumes "group_rep me h p l" "distinct js" "\<And>j. j \<in> set js \<Longrightarrow> 0 \<le> j \<and> nat j < length l" "p \<noteq> q"
  shows "take_ranks p q js 0 (set_rank h q MPI_UNDEFINED) =
      put_all q (map (\<lambda>j. l ! nat j) js) 0 (set_rank h q (rank_in me (map (\<lambda>j. l ! nat j) js)))"
    "lpids_ok (map (\<lambda>j. l ! nat j) js)"
proof -
  have d: "distinct l" using assms(1) by (simp add: group_rep_def lpids_ok_def)
  have m: "map (\<lambda>j. pm_lpid h p (nat j)) js = map (\<lambda>j. l ! nat j) js"
    using assms(1,3) by (simp add: group_rep_def)
  have "pick_rank (g_rank h p) js 0 MPI_UNDEFINED = rank_in me (map (\<lambda>j. l ! nat j) js)"
  proof -
    have "pick_rank (g_rank h p) js 0 MPI_UNDEFINED = rank_in (g_rank h p) js"
      using pick_rank_distinct[OF assms(2)] rank_in_simps(2)[of "g_rank h p" js] by simp
    also have "\<dots> = rank_in (rank_in me l) js" using assms(1) by (simp add: group_rep_def)
    finally show ?thesis using rank_in_map[OF d assms(3)] by simp
  qed
  then show "take_ranks p q js 0 (set_rank h q MPI_UNDEFINED) =
      put_all q (map (\<lambda>j. l ! nat j) js) 0 (set_rank h q (rank_in me (map (\<lambda>j. l ! nat j) js)))"
    unfolding m[symmetric]
    using take_ranks_put_all[OF assms(4), of js 0 "set_rank h q MPI_UNDEFINED"] assms(4) by (simp add: set_rank_idem)
  have "inj_on (\<lambda>j. l ! nat j) (set js)"
  proof (rule inj_onI)
    fix i j assume "i \<in> set js" "j \<in> set js" "l ! nat i = l ! nat j"
    with assms(3)[of i] assms(3)[of j] d show "i = j" by (simp add: nth_eq_iff_index_eq eq_nat_nat_iff)
  qed
  then show "lpids_ok (map (\<lambda>j. l ! nat j) js)"
    using assms(1-3) by (auto simp: group_rep_def lpids_ok_def distinct_map)
qed

lemma map_nth_filter: "map (\<lambda>j. l ! nat j) (map int (filter (\<lambda>i. P (l ! i)) [0..<length l])) = filter P l"
  by (simp add: comp_def filter_eq_nths_idx[of P l])

text \<open>The flagged members, when the flags say which elements satisfy \<open>Q\<close>.\<close>

lemma take_flagged_rep:
  assumes "group_rep me h p l" "p \<noteq> q" "\<And>i. i < length l \<Longrightarrow> P (pm_flag h p i) = Q (l ! i)"
  shows "take_flagged P p q [0..<nat (g_size h p)] 0 (set_rank h q MPI_UNDEFINED) =
      put_all q (filter Q l) 0 (set_rank h q (rank_in me (filter Q l)))"
    "lpids_ok (filter Q l)"
proof -
  let ?js = "map int (filter (\<lambda>i. Q (l ! i)) [0..<length l])"
  have "filter (\<lambda>i. P (pm_flag h p i)) [0..<length l] = filter (\<lambda>i. Q (l ! i)) [0..<length l]"
    by (rule filter_cong) (use assms(3) in simp_all)
  moreover have "nat (g_size h p) = length l" using assms(1) by (simp add: group_rep_def)
  ultimately have "take_flagged P p q [0..<nat (g_size h p)] 0 (set_rank h q MPI_UNDEFINED) =
      take_ranks p q ?js 0 (set_rank h q MPI_UNDEFINED)"
    using take_flagged_take_ranks[OF assms(2)] by simp
  moreover have "distinct ?js" "\<And>j. j \<in> set ?js \<Longrightarrow> 0 \<le> j \<and> nat j < length l"
    by (auto simp: distinct_map)
  note t = take_ranks_rep[OF assms(1) this assms(2)]
  ultimately show "take_flagged P p q [0..<nat (g_size h p)] 0 (set_rank h q MPI_UNDEFINED) =
      put_all q (filter Q l) 0 (set_rank h q (rank_in me (filter Q l)))"
    by (simp only: map_nth_filter)
  show "lpids_ok (filter Q l)" using t(2) by (simp only: map_nth_filter)
qed

text \<open>
  The end of every routine that makes a group: create it, and fill it with the list \<open>l\<close>; the
  flags of the old group may be used on the way.
\<close>

lemma with_flags_same [simp]: "with_flags h p (pm_flag h p) = h"
  by (simp add: with_flags_def)

lemma group_rel_flags: "group_rel me st A \<Longrightarrow> group_rel me (st\<lparr>gheap := with_flags (gheap st) p f\<rparr>) A"
  by (rule group_rel_heap) (auto simp: group_rep_cong[of "with_flags (gheap st) p f" _ "gheap st"])

lemma create_fill:
  assumes "group_rel me st A" "group_env_ok e st" "lpids_ok l"
    "\<And>st' q. group_rel me st' A \<Longrightarrow> q \<notin> dom A \<Longrightarrow> pm_flag (gheap st') = pm_flag (gheap st)
       \<Longrightarrow> g_size (gheap st') q = int (length l) \<Longrightarrow> g_first (gheap st') q = - 1
       \<Longrightarrow> \<exists>x f. build st' q = put_all q l 0 (set_rank (with_flags (gheap st') x f) q (rank_in me l))"
  shows "gives_group me e st A l
    (case MPIR_Group_create e st (int (length l)) of
       (st', Inl er) \<Rightarrow> (st', Inl (fn_fail msg er))
     | (st', Inr q) \<Rightarrow> (st'\<lparr>gheap := build st' q\<rparr>, Inr (handle_of (build st' q) q)))"
  using assms(1,2)
proof (cases rule: create_spec[where n = "int (length l)"])
  case (nomem st' er)
  then show ?thesis by (simp add: gives_group_def)
next
  case (new st' q)
  have sz: "g_size (gheap st') q = int (length l)" using new(8) by simp
  from assms(4)[OF new(2,3,12) sz new(9)] obtain x f where
    b: "build st' q = put_all q l 0 (set_rank (with_flags (gheap st') x f) q (rank_in me l))" by blast
  have "group_rel me (st'\<lparr>gheap := with_flags (gheap st') x f\<rparr>) A" by (rule group_rel_flags[OF new(2)])
  from filled_rel[OF this new(3)] have "group_rel me (st'\<lparr>gheap := build st' q\<rparr>) (A(q \<mapsto> l))"
    unfolding b using new(4,7,9) sz assms(3) group_pool_cong[of "with_flags (gheap st') x f" "gheap st'"]
    by (simp add: gpool_def)
  moreover have "handle_of (build st' q) = handle_of (gheap st')" by (simp add: b)
  ultimately show ?thesis using new(1,3,5,13) unfolding gives_group_def
    by (simp del: fun_upd_apply) blast
qed

lemma group_of_flags_gives:
  assumes "group_rel me st A" "A p = Some l" "group_env_ok e st"
    "\<And>i. i < length l \<Longrightarrow> P (pm_flag (gheap st) p i) = Q (l ! i)" "n = int (length (filter Q l))"
  shows "gives_group me e st A (filter Q l) (group_of_flags e st msg P p n)"
proof (cases "n = 0")
  case True
  then have "filter Q l = []" using assms(5) by (simp del: filter_empty_conv)
  then show ?thesis using gives_empty[OF assms(1)] True by (simp add: group_of_flags_def)
next
  case False
  have "distinct l" "lpids_ok l" using group_rel_rep[OF assms(1,2)] by (simp_all add: group_rep_def lpids_ok_def)
  then have "lpids_ok (filter Q l)" by (simp add: lpids_ok_def)
  then have "gives_group me e st A (filter Q l)
      (case MPIR_Group_create e st n of (st', Inl er) \<Rightarrow> (st', Inl (fn_fail msg er))
       | (st', Inr q) \<Rightarrow> (st'\<lparr>gheap := take_flagged P p q [0..<nat (g_size (gheap st') p)] 0 (set_rank (gheap st') q MPI_UNDEFINED)\<rparr>,
           Inr (handle_of (take_flagged P p q [0..<nat (g_size (gheap st') p)] 0 (set_rank (gheap st') q MPI_UNDEFINED)) q)))"
    unfolding assms(5)
  proof (rule create_fill[OF assms(1,3)])
    fix st' q assume n: "group_rel me st' A" "q \<notin> dom A" "pm_flag (gheap st') = pm_flag (gheap st)"
    then have "p \<noteq> q" using assms(2) by auto
    moreover have "\<And>i. i < length l \<Longrightarrow> P (pm_flag (gheap st') p i) = Q (l ! i)" using assms(4) n(3) by simp
    ultimately have "take_flagged P p q [0..<nat (g_size (gheap st') p)] 0 (set_rank (gheap st') q MPI_UNDEFINED)
        = put_all q (filter Q l) 0 (set_rank (with_flags (gheap st') p (pm_flag (gheap st') p)) q (rank_in me (filter Q l)))"
      using take_flagged_rep(1)[where P = P and Q = Q, OF group_rel_rep[OF n(1) assms(2)], of q] by simp
    then show "\<exists>x f. take_flagged P p q [0..<nat (g_size (gheap st') p)] 0 (set_rank (gheap st') q MPI_UNDEFINED)
        = put_all q (filter Q l) 0 (set_rank (with_flags (gheap st') x f) q (rank_in me (filter Q l)))" by blast
  qed
  then show ?thesis using False by (simp add: group_of_flags_def Let_def)
qed

section \<open>The set operations\<close>

lemma card_idx: "length (filter Q l) = card {i. i < length l \<and> Q (l ! i)}"
  by (simp add: length_filter_conv_card)

lemma common_idx:
  assumes "group_rep me h p1 l1" "group_rep me h p2 l2" "lpid_ordered h p1" "lpid_ordered h p2"
  obtains xs ys where "chain (pm_next h p1) (g_first h p1) xs" "chain (pm_next h p2) (g_first h p2) ys"
    "set (common (pm_lpid h p1) (pm_lpid h p2) xs ys) = {i. i < length l1 \<and> l1 ! i \<in> set l2}"
    "length (common (pm_lpid h p1) (pm_lpid h p2) xs ys) = length (filter (\<lambda>x. x \<in> set l2) l1)"
    "set (lacking (pm_lpid h p1) (pm_lpid h p2) xs ys) = {i. i < length l2 \<and> l2 ! i \<notin> set l1}"
    "length (lacking (pm_lpid h p1) (pm_lpid h p2) xs ys) = length (filter (\<lambda>x. x \<notin> set l1) l2)"
proof -
  from assms(3,4) obtain xs ys where
    x: "chain (pm_next h p1) (g_first h p1) xs" "strict (pm_lpid h p1) xs" "set xs = {..<nat (g_size h p1)}"
    and y: "chain (pm_next h p2) (g_first h p2) ys" "strict (pm_lpid h p2) ys" "set ys = {..<nat (g_size h p2)}"
    unfolding lpid_ordered_def by blast
  have n: "nat (g_size h p1) = length l1" "nat (g_size h p2) = length l2"
    using assms(1,2) by (simp_all add: group_rep_def)
  have im: "pm_lpid h p1 ` set xs = set l1" "pm_lpid h p2 ` set ys = set l2"
    using x(3) y(3) n group_rep_lpids[OF assms(1)] group_rep_lpids[OF assms(2)]
    by (metis atLeast_upt set_map)+
  have l: "i < length l1 \<Longrightarrow> pm_lpid h p1 i = l1 ! i" "i < length l2 \<Longrightarrow> pm_lpid h p2 i = l2 ! i" for i
    using assms(1,2) by (simp_all add: group_rep_def)
  have c: "set (common (pm_lpid h p1) (pm_lpid h p2) xs ys) = {i. i < length l1 \<and> l1 ! i \<in> set l2}"
    unfolding set_common[OF x(2) y(2)] im x(3) n using l(1) by auto
  have k: "set (lacking (pm_lpid h p1) (pm_lpid h p2) xs ys) = {i. i < length l2 \<and> l2 ! i \<notin> set l1}"
    unfolding set_lacking[OF x(2) y(2)] im y(3) n using l(2) by auto
  have "length (common (pm_lpid h p1) (pm_lpid h p2) xs ys) = card {i. i < length l1 \<and> l1 ! i \<in> set l2}"
    unfolding c[symmetric] using distinct_common[OF strict_distinct[OF x(2)]] distinct_card by metis
  moreover have "length (lacking (pm_lpid h p1) (pm_lpid h p2) xs ys) = card {i. i < length l2 \<and> l2 ! i \<notin> set l1}"
    unfolding k[symmetric] using distinct_lacking[OF strict_distinct[OF y(2)]] distinct_card by metis
  ultimately show thesis using that[OF x(1) y(1) c _ k] by (simp add: card_idx)
qed

text \<open>Both routines up to the new group: the members of the first group that are in the second are flagged.\<close>

lemma common_flags:
  assumes "group_rel me st A" "A p1 = Some l1" "A p2 = Some l2"
  obtains h h' where "MPIR_Group_setup_lpid_pairs (gheap st) p1 p2 = Some h"
    "common_walk d p1 p2 (clear_flags h p1) (g_first h p1) (g_first h p2) n =
       Some (h', n + d * int (length (filter (\<lambda>x. x \<in> set l2) l1)))"
    "group_rel me (st\<lparr>gheap := h'\<rparr>) A" "handle_of h' = handle_of (gheap st)"
    "\<And>i. i < length l1 \<Longrightarrow> pm_flag h' p1 i = (if l1 ! i \<in> set l2 then 1 else 0)" "g_size h p1 = int (length l1)"
proof -
  note r = group_rel_rep[OF assms(1,2)] group_rel_rep[OF assms(1,3)]
  from setup_pairs_spec[OF r] obtain h where
    h: "MPIR_Group_setup_lpid_pairs (gheap st) p1 p2 = Some h" "relisted me (gheap st) h" "lpid_ordered h p1" "lpid_ordered h p2"
    by blast
  have r1: "group_rep me h p1 l1" "group_rep me h p2 l2" using r h(2) by (simp_all add: relisted_def)
  let ?h = "clear_flags h p1"
  let ?c = "marked ?h p1 {i. i < length l1 \<and> l1 ! i \<in> set l2} 1"
  from r1 h(3,4) obtain xs ys where xy: "chain (pm_next h p1) (g_first h p1) xs" "chain (pm_next h p2) (g_first h p2) ys"
    "set (common (pm_lpid h p1) (pm_lpid h p2) xs ys) = {i. i < length l1 \<and> l1 ! i \<in> set l2}"
    "length (common (pm_lpid h p1) (pm_lpid h p2) xs ys) = length (filter (\<lambda>x. x \<in> set l2) l1)"
    by (rule common_idx)
  have "common_walk d p1 p2 ?h (g_first h p1) (g_first h p2) n =
      Some (?c, n + d * int (length (filter (\<lambda>x. x \<in> set l2) l1)))"
    using common_walk_spec[of ?h p1 _ xs p2 _ ys d n] xy by (simp add: clear_flags_marked)
  moreover have "group_rel me (st\<lparr>gheap := ?c\<rparr>) A"
    using group_rel_marked[OF group_rel_marked[OF group_rel_relisted[OF assms(1) h(2)]]] by (simp add: clear_flags_marked)
  moreover have "nat (g_size h p1) = length l1" "g_size h p1 = int (length l1)" using r1 by (simp_all add: group_rep_def)
  ultimately show thesis using that[of h ?c] h(1,2) by (simp add: clear_flags_marked relisted_def)
qed

end
