(* ===== verification/MpiGroupOps.thy ===== *)
theory MpiGroupOps
  imports MpiGroupSpec
begin

text \<open>
  The other group routines: union, inclusion and exclusion of ranks and of ranges, comparison,
  translation of ranks, and the life of a group object.
\<close>

section \<open>Intersection and difference\<close>

text \<open>
  C22: \<open>MPI_Group_intersection\<close> gives the members of the first group that are in the second, and
  \<open>MPI_Group_difference\<close> those that are not, both in the order of the first group and with the
  caller's rank in the new group; an empty result is \<open>MPI_GROUP_EMPTY\<close>. Both return, also when the
  two handles are the same, and fail only for lack of memory.
\<close>

theorem MPI_Group_intersection_difference:
  assumes "group_rel me st A" "A p1 = Some l1" "A p2 = Some l2" "group_env_ok e st"
  shows "\<exists>ri rd. MPI_Group_intersection e st (handle_of (gheap st) p1) (handle_of (gheap st) p2) = Some ri
      \<and> gives_group me e st A (filter (\<lambda>x. x \<in> set l2) l1) ri
      \<and> MPI_Group_difference e st (handle_of (gheap st) p1) (handle_of (gheap st) p2) = Some rd
      \<and> gives_group me e st A (filter (\<lambda>x. x \<notin> set l2) l1) rd"
proof -
  note g = groups_handles[OF assms(1-3)]
  have "length (filter (\<lambda>x. x \<in> set l2) l1) + length (filter (\<lambda>x. x \<notin> set l2) l1) = length l1"
    by (rule sum_length_filter_compl)
  then have n: "int (length l1) + - 1 * int (length (filter (\<lambda>x. x \<in> set l2) l1)) = int (length (filter (\<lambda>x. x \<notin> set l2) l1))"
    by simp
  have i: "\<exists>ri. MPI_Group_intersection e st (handle_of (gheap st) p1) (handle_of (gheap st) p2) = Some ri
      \<and> gives_group me e st A (filter (\<lambda>x. x \<in> set l2) l1) ri"
  proof (rule common_flags[OF assms(1-3), of 1 0])
    fix h h' assume w: "MPIR_Group_setup_lpid_pairs (gheap st) p1 p2 = Some h"
      "common_walk 1 p1 p2 (clear_flags h p1) (g_first h p1) (g_first h p2) 0 =
         Some (h', 0 + 1 * int (length (filter (\<lambda>x. x \<in> set l2) l1)))"
      "group_rel me (st\<lparr>gheap := h'\<rparr>) A" "handle_of h' = handle_of (gheap st)"
      "\<And>i. i < length l1 \<Longrightarrow> pm_flag h' p1 i = (if l1 ! i \<in> set l2 then 1 else 0)"
    have "gives_group me e (st\<lparr>gheap := h'\<rparr>) A (filter (\<lambda>x. x \<in> set l2) l1)
        (group_of_flags e (st\<lparr>gheap := h'\<rparr>) ''**mpi_group_intersection'' (\<lambda>f. f \<noteq> 0) p1
          (int (length (filter (\<lambda>x. x \<in> set l2) l1))))"
      by (rule group_of_flags_gives[OF w(3) assms(2)]) (use assms(4) w(5) in simp_all)
    with gives_relisted[OF this w(4)] show ?thesis using g w(1,2) by (simp add: MPI_Group_intersection_def)
  qed
  have d: "\<exists>rd. MPI_Group_difference e st (handle_of (gheap st) p1) (handle_of (gheap st) p2) = Some rd
      \<and> gives_group me e st A (filter (\<lambda>x. x \<notin> set l2) l1) rd"
  proof (rule common_flags[OF assms(1-3), of "- 1" "int (length l1)"])
    fix h h' assume w: "MPIR_Group_setup_lpid_pairs (gheap st) p1 p2 = Some h"
      "common_walk (- 1) p1 p2 (clear_flags h p1) (g_first h p1) (g_first h p2) (int (length l1)) =
         Some (h', int (length l1) + - 1 * int (length (filter (\<lambda>x. x \<in> set l2) l1)))"
      "group_rel me (st\<lparr>gheap := h'\<rparr>) A" "handle_of h' = handle_of (gheap st)"
      "\<And>i. i < length l1 \<Longrightarrow> pm_flag h' p1 i = (if l1 ! i \<in> set l2 then 1 else 0)" "g_size h p1 = int (length l1)"
    have "gives_group me e (st\<lparr>gheap := h'\<rparr>) A (filter (\<lambda>x. x \<notin> set l2) l1)
        (group_of_flags e (st\<lparr>gheap := h'\<rparr>) ''**mpi_group_difference'' (\<lambda>f. f = 0) p1
          (int (length (filter (\<lambda>x. x \<notin> set l2) l1))))"
      by (rule group_of_flags_gives[OF w(3) assms(2)]) (use assms(4) w(5) in simp_all)
    with gives_relisted[OF this w(4)] show ?thesis using g w(1,2,6) n by (simp add: MPI_Group_difference_def)
  qed
  from i d show ?thesis by blast
qed

section \<open>Union\<close>

lemma put_all_append: "put_all q (ls @ ms) k h = put_all q ms (k + length ls) (put_all q ls k h)"
  by (induction ls arbitrary: k h) simp_all

lemma set_rank_put_all: "set_rank (put_all q ls k h) q r = put_all q ls k (set_rank h q r)"
  by (induction ls arbitrary: k h) (simp_all add: set_rank_put)

lemma fold_put_from:
  "p \<noteq> q \<Longrightarrow> fold (\<lambda>i h. put_member h q i (pm_lpid h p i)) is h = fold (\<lambda>i h'. put_member h' q i (pm_lpid h p i)) is h"
  by (induction "is" arbitrary: h) simp_all

definition union_rank :: "int \<Rightarrow> int list \<Rightarrow> nat \<Rightarrow> int \<Rightarrow> int" where
  "union_rank my ls k c = (if c = MPI_UNDEFINED \<and> my \<in> set ls then int k + rank_in my ls else c)"

lemma union_take_put_all:
  "p2 \<noteq> q \<Longrightarrow> union_take my p2 q is k h =
     put_all q (map (pm_lpid h p2) (filter (\<lambda>i. pm_flag h p2 i \<noteq> 0) is)) k
       (set_rank h q (union_rank my (map (pm_lpid h p2) (filter (\<lambda>i. pm_flag h p2 i \<noteq> 0) is)) k (g_rank h q)))"
proof (induction "is" arbitrary: k h)
  case Nil
  then show ?case by (simp add: union_rank_def set_rank_idem)
next
  case (Cons i "is")
  show ?case
  proof (cases "pm_flag h p2 i \<noteq> 0")
    case True
    let ?h = "if g_rank h q = MPI_UNDEFINED \<and> pm_lpid h p2 i = my then set_rank (put_member h q k (pm_lpid h p2 i)) q (int k)
      else put_member h q k (pm_lpid h p2 i)"
    let ?ms = "map (pm_lpid h p2) (filter (\<lambda>i. pm_flag h p2 i \<noteq> 0) is)"
    have f: "pm_lpid ?h p2 = pm_lpid h p2" "pm_flag ?h = pm_flag h"
      "g_rank ?h q = (if g_rank h q = MPI_UNDEFINED \<and> pm_lpid h p2 i = my then int k else g_rank h q)"
      using Cons.prems by simp_all
    have "union_take my p2 q (i # is) k h = union_take my p2 q is (k + 1) ?h"
      using True Cons.prems by (simp add: Let_def)
    also have "\<dots> = put_all q ?ms (k + 1) (set_rank ?h q (union_rank my ?ms (k + 1) (g_rank ?h q)))"
      using Cons.IH[OF Cons.prems, of "k + 1" ?h] unfolding f(1,2) .
    also have "union_rank my ?ms (k + 1) (g_rank ?h q) = union_rank my (pm_lpid h p2 i # ?ms) k (g_rank h q)"
      unfolding f(3) by (auto simp: union_rank_def rank_in_Cons)
    also have "set_rank ?h q r = put_member (set_rank h q r) q k (pm_lpid h p2 i)" for r
      by (simp add: set_rank_put set_rank_idem)
    finally show ?thesis using True by simp
  next
    case False
    then show ?thesis using Cons.IH[OF Cons.prems] by simp
  qed
qed

lemma union_rank_append:
  assumes "lpids_ok l2" "set ms \<subseteq> set l2" "\<And>x. x \<in> set l2 \<Longrightarrow> x \<notin> set l1 \<Longrightarrow> x \<in> set ms"
  shows "union_rank (if me \<notin> set l1 \<and> me \<in> set l2 then me else - 2) ms (length l1) (rank_in me l1) = rank_in me (l1 @ ms)"
proof -
  have "- 2 \<notin> set ms" using assms(1,2) unfolding lpids_ok_def by fastforce
  then show ?thesis using assms(2,3) by (auto simp: union_rank_def rank_in_append)
qed

lemma union_fill_rep:
  assumes "group_rep me h p1 l1" "group_rep me h p2 l2" "p1 \<noteq> q" "p2 \<noteq> q"
    "\<And>i. i < length l2 \<Longrightarrow> pm_flag h p2 i \<noteq> 0 \<longleftrightarrow> l2 ! i \<notin> set l1"
  shows "union_fill p1 p2 q h = put_all q (l1 @ filter (\<lambda>x. x \<notin> set l1) l2) 0
      (set_rank h q (rank_in me (l1 @ filter (\<lambda>x. x \<notin> set l1) l2)))"
proof -
  let ?ms = "filter (\<lambda>x. x \<notin> set l1) l2"
  let ?h0 = "set_rank h q (g_rank h p1)"
  have sz: "nat (g_size h p1) = length l1" "nat (g_size h p2) = length l2"
    and rk: "g_rank h p1 = rank_in me l1" "g_rank h p2 = rank_in me l2" and ok: "lpids_ok l2"
    and lp: "\<And>i. i < length l2 \<Longrightarrow> pm_lpid h p2 i = l2 ! i"
    using assms(1,2) by (simp_all add: group_rep_def)
  have "fold (\<lambda>i h. put_member h q i (pm_lpid h p1 i)) [0..<length l1] ?h0
      = put_all q (map (pm_lpid h p1) [0..<length l1]) 0 ?h0"
    using fold_put_from[OF assms(3), of "[0..<length l1]" ?h0] fold_put_member[of q "pm_lpid h p1" 0 "length l1" ?h0] by simp
  then have 1: "fold (\<lambda>i h. put_member h q i (pm_lpid h p1 i)) [0..<length l1] ?h0 = put_all q l1 0 ?h0"
    using group_rep_lpids[OF assms(1)] by simp
  let ?h1 = "put_all q l1 0 ?h0"
  have f1: "pm_lpid ?h1 p2 = pm_lpid h p2" "pm_flag ?h1 = pm_flag h" "g_rank ?h1 q = rank_in me l1" "g_rank ?h1 p1 = rank_in me l1"
    "g_rank ?h1 p2 = rank_in me l2" "g_size ?h1 = g_size h"
    using assms(3,4) rk by simp_all
  have "filter (\<lambda>i. pm_flag h p2 i \<noteq> 0) [0..<length l2] = filter (\<lambda>i. l2 ! i \<notin> set l1) [0..<length l2]"
    by (rule filter_cong) (use assms(5) in simp_all)
  then have 2: "map (pm_lpid h p2) (filter (\<lambda>i. pm_flag h p2 i \<noteq> 0) [0..<length l2]) = ?ms"
    using lp filter_eq_nths_idx[of "\<lambda>x. x \<notin> set l1" l2] by (simp cong: map_cong)
  let ?my = "if me \<notin> set l1 \<and> me \<in> set l2 then me else - 2"
  have my: "pm_lpid h p2 (nat (rank_in me l2)) = me" if "me \<in> set l2"
    using rank_in_nth[OF that] lp by simp
  have "union_fill p1 p2 q h = union_take ?my p2 q [0..<length l2] (length l1) ?h1"
    unfolding union_fill_def Let_def using 1 f1 sz by (simp add: rk my)
  also have "\<dots> = put_all q ?ms (length l1) (set_rank ?h1 q (union_rank ?my ?ms (length l1) (rank_in me l1)))"
    using union_take_put_all[OF assms(4), of ?my "[0..<length l2]" "length l1" ?h1] unfolding f1 2 .
  also have "union_rank ?my ?ms (length l1) (rank_in me l1) = rank_in me (l1 @ ?ms)"
    by (rule union_rank_append[OF ok]) auto
  finally show ?thesis by (simp add: put_all_append set_rank_put_all set_rank_idem)
qed

text \<open>Up to the new group: the members of the second group that the first lacks are flagged and counted.\<close>

lemma union_flags:
  assumes "group_rel me st A" "A p1 = Some l1" "A p2 = Some l2"
  obtains h h2 j n c where "MPIR_Group_setup_lpid_pairs (gheap st) p1 p2 = Some h"
    "union_walk p1 p2 (clear_flags h p2) (g_first h p1) (g_first h p2) (g_size h p1) = Some (h2, j, n)"
    "union_rest p2 h2 j n = Some (c, int (length (l1 @ filter (\<lambda>x. x \<notin> set l1) l2)))"
    "group_rel me (st\<lparr>gheap := c\<rparr>) A" "handle_of c = handle_of (gheap st)"
    "\<And>i. i < length l2 \<Longrightarrow> pm_flag c p2 i \<noteq> 0 \<longleftrightarrow> l2 ! i \<notin> set l1"
proof -
  note r = group_rel_rep[OF assms(1,2)] group_rel_rep[OF assms(1,3)]
  from setup_pairs_spec[OF r] obtain h where
    h: "MPIR_Group_setup_lpid_pairs (gheap st) p1 p2 = Some h" "relisted me (gheap st) h" "lpid_ordered h p1" "lpid_ordered h p2"
    by blast
  have r1: "group_rep me h p1 l1" "group_rep me h p2 l2" using r h(2) by (simp_all add: relisted_def)
  let ?h = "clear_flags h p2"
  let ?c = "marked ?h p2 {i. i < length l2 \<and> l2 ! i \<notin> set l1} 1"
  from r1 h(3,4) obtain xs ys where xy: "chain (pm_next h p1) (g_first h p1) xs" "chain (pm_next h p2) (g_first h p2) ys"
    "set (lacking (pm_lpid h p1) (pm_lpid h p2) xs ys) = {i. i < length l2 \<and> l2 ! i \<notin> set l1}"
    "length (lacking (pm_lpid h p1) (pm_lpid h p2) xs ys) = length (filter (\<lambda>x. x \<notin> set l1) l2)"
    by (rule common_idx)
  have w: "(case union_walk p1 p2 ?h (g_first h p1) (g_first h p2) (g_size h p1) of
        None \<Rightarrow> None | Some (h, j, n) \<Rightarrow> union_rest p2 h j n) = Some (?c, int (length (l1 @ filter (\<lambda>x. x \<notin> set l1) l2)))"
    using union_walk_spec[of ?h p1 _ xs p2 _ ys "g_size h p1"] xy r1(1) by (simp add: clear_flags_marked group_rep_def)
  have rel: "group_rel me (st\<lparr>gheap := ?c\<rparr>) A"
    using group_rel_marked[OF group_rel_marked[OF group_rel_relisted[OF assms(1) h(2)]]] by (simp add: clear_flags_marked)
  have hd: "handle_of ?c = handle_of (gheap st)" using h(2) by (simp add: clear_flags_marked relisted_def)
  have fl: "pm_flag ?c p2 i \<noteq> 0 \<longleftrightarrow> l2 ! i \<notin> set l1" if "i < length l2" for i
    using that r1(2) by (simp add: clear_flags_marked group_rep_def)
  from w obtain h2 j n where "union_walk p1 p2 ?h (g_first h p1) (g_first h p2) (g_size h p1) = Some (h2, j, n)"
    "union_rest p2 h2 j n = Some (?c, int (length (l1 @ filter (\<lambda>x. x \<notin> set l1) l2)))" by (auto split: option.splits)
  then show thesis by (rule that[OF h(1) _ _ rel hd fl])
qed

text \<open>
  C21: \<open>MPI_Group_union\<close> gives the members of the first group followed by those of the second that
  the first lacks, in their order, with the caller's rank in it. It always returns and fails only
  for lack of memory. The union of two empty groups is a new group of size 0.
\<close>

theorem MPI_Group_union_correct:
  assumes "group_rel me st A" "A p1 = Some l1" "A p2 = Some l2" "group_env_ok e st"
  shows "\<exists>r. MPI_Group_union e st (handle_of (gheap st) p1) (handle_of (gheap st) p2) = Some r
      \<and> gives_group me e st A (l1 @ filter (\<lambda>x. x \<notin> set l1) l2) r"
proof (rule union_flags[OF assms(1-3)])
  let ?l = "l1 @ filter (\<lambda>x. x \<notin> set l1) l2"
  fix h h2 j n c assume u: "MPIR_Group_setup_lpid_pairs (gheap st) p1 p2 = Some h"
    "union_walk p1 p2 (clear_flags h p2) (g_first h p1) (g_first h p2) (g_size h p1) = Some (h2, j, n)"
    "union_rest p2 h2 j n = Some (c, int (length ?l))"
    "group_rel me (st\<lparr>gheap := c\<rparr>) A" "handle_of c = handle_of (gheap st)"
    "\<And>i. i < length l2 \<Longrightarrow> pm_flag c p2 i \<noteq> 0 \<longleftrightarrow> l2 ! i \<notin> set l1"
  have ok: "lpids_ok ?l"
    using group_rel_rep[OF assms(1,2)] group_rel_rep[OF assms(1,3)] by (auto simp: group_rep_def lpids_ok_def)
  have env: "group_env_ok e (st\<lparr>gheap := c\<rparr>)" using assms(4) by simp
  have "gives_group me e (st\<lparr>gheap := c\<rparr>) A ?l
      (case MPIR_Group_create e (st\<lparr>gheap := c\<rparr>) (int (length ?l)) of
        (st, Inl er) \<Rightarrow> (st, Inl (fn_fail ''**mpi_group_union'' er))
      | (st, Inr q) \<Rightarrow> (st\<lparr>gheap := union_fill p1 p2 q (gheap st)\<rparr>, Inr (handle_of (union_fill p1 p2 q (gheap st)) q)))"
  proof (rule create_fill[OF u(4) env ok])
    fix st' q assume n: "group_rel me st' A" "q \<notin> dom A" "pm_flag (gheap st') = pm_flag (gheap (st\<lparr>gheap := c\<rparr>))"
    then have "p1 \<noteq> q" "p2 \<noteq> q" using assms(2,3) by auto
    note f = union_fill_rep[OF group_rel_rep[OF n(1) assms(2)] group_rel_rep[OF n(1) assms(3)] this]
    have "pm_flag (gheap st') p2 i \<noteq> 0 \<longleftrightarrow> l2 ! i \<notin> set l1" if "i < length l2" for i
      using u(6)[OF that] n(3) by simp
    then have "union_fill p1 p2 q (gheap st') = put_all q ?l 0
        (set_rank (with_flags (gheap st') p1 (pm_flag (gheap st') p1)) q (rank_in me ?l))"
      using f by simp
    then show "\<exists>x f. union_fill p1 p2 q (gheap st') = put_all q ?l 0
        (set_rank (with_flags (gheap st') x f) q (rank_in me ?l))" by blast
  qed
  note gv = gives_relisted[OF this u(5)]
  obtain st' r where "MPIR_Group_create e (st\<lparr>gheap := c\<rparr>) (int (length ?l)) = (st', r)" by fastforce
  then show ?thesis using gv groups_handles[OF assms(1-3)] u(1-3)
    by (cases r) (simp_all add: MPI_Group_union_def Let_def)
qed

section \<open>Inclusion and exclusion\<close>

definition valid_ranks :: "int list \<Rightarrow> int list \<Rightarrow> bool" where
  "valid_ranks l ranks \<longleftrightarrow> distinct ranks \<and> (\<forall>r \<in> set ranks. 0 \<le> r \<and> nat r < length l)"

lemma ranks_lpids_ok:
  assumes "lpids_ok l" "valid_ranks l js"
  shows "lpids_ok (map (\<lambda>j. l ! nat j) js)"
proof -
  have "inj_on (\<lambda>j. l ! nat j) (set js)"
  proof (rule inj_onI)
    fix i j assume "i \<in> set js" "j \<in> set js" "l ! nat i = l ! nat j"
    with assms show "i = j" by (simp add: valid_ranks_def lpids_ok_def nth_eq_iff_index_eq eq_nat_nat_iff)
  qed
  then show ?thesis using assms by (auto simp: lpids_ok_def valid_ranks_def distinct_map)
qed

text \<open>Exactly the members in \<open>S\<close> are flagged.\<close>

definition flagged :: "group_heap \<Rightarrow> nat \<Rightarrow> int set \<Rightarrow> bool" where
  "flagged h p S \<longleftrightarrow> (\<forall>i. int i < g_size h p \<longrightarrow> (pm_flag h p i \<noteq> 0 \<longleftrightarrow> int i \<in> S))"

lemma flagged_clear: "flagged (clear_flags h p) p {}"
  by (simp add: flagged_def clear_flags_marked zless_nat_eq_int_zless)

lemma flagged_set: "flagged h p S \<Longrightarrow> v \<noteq> 0 \<Longrightarrow> 0 \<le> j \<Longrightarrow> flagged (set_flag h p (nat j) v) p (insert j S)"
  by (auto simp: flagged_def set_flag_marked)

lemma set_flag_with: "set_flag h p i v = with_flags h p ((pm_flag h p)(i := v))"
  by (simp add: set_flag_def with_flags_def)

lemma with_flags_with [simp]: "with_flags (with_flags h p f) p g = with_flags h p g"
  by (simp add: with_flags_def)

lemma clear_flags_with: "\<exists>f. clear_flags h p = with_flags h p f"
  by (simp add: clear_flags_marked marked_def) blast

lemma check_rank_loop_spec:
  "flagged h p S \<Longrightarrow> \<exists>f er. check_rank_loop p h rs k = (with_flags h p f, er)
     \<and> (er = None \<longleftrightarrow> distinct rs \<and> set rs \<inter> S = {} \<and> (\<forall>r \<in> set rs. 0 \<le> r \<and> r < g_size h p))
     \<and> (\<forall>e. er = Some e \<longrightarrow> err_class e = MPI_ERR_RANK)"
proof (induction rs arbitrary: h S k)
  case Nil
  have "check_rank_loop p h [] k = (with_flags h p (pm_flag h p), None)" by simp
  then show ?case by fastforce
next
  case (Cons r rs)
  have stop: ?case if "check_rank_loop p h (r # rs) k = (h, Some e)" "err_class e = MPI_ERR_RANK"
    "\<not> (distinct (r # rs) \<and> set (r # rs) \<inter> S = {} \<and> (\<forall>r \<in> set (r # rs). 0 \<le> r \<and> r < g_size h p))" for e
    using that with_flags_same[of h p] by (intro exI[of _ "pm_flag h p"] exI[of _ "Some e"]) simp
  consider (range) "r < 0 \<or> r \<ge> g_size h p" | (dup) "0 \<le> r" "r < g_size h p" "pm_flag h p (nat r) \<noteq> 0"
    | (ok) "0 \<le> r" "r < g_size h p" "pm_flag h p (nat r) = 0" by linarith
  then show ?case
  proof cases
    case range
    show ?thesis by (rule stop[of "new_error MPI_ERR_RANK ''**rankarray''"]) (use range in auto)
  next
    case dup
    then have "r \<in> S" using Cons.prems unfolding flagged_def by (metis int_nat_eq)
    with dup show ?thesis by (intro stop[of "new_error MPI_ERR_RANK ''**rankdup''"]) auto
  next
    case ok
    have S: "r \<notin> S" using ok Cons.prems unfolding flagged_def by (metis int_nat_eq)
    let ?h = "set_flag h p (nat r) (int k + 1)"
    have "flagged ?h p (insert r S)" by (rule flagged_set[OF Cons.prems]) (use ok in simp_all)
    from Cons.IH[OF this, of "k + 1"] obtain f er where
      c: "check_rank_loop p ?h rs (k + 1) = (with_flags ?h p f, er)"
        "er = None \<longleftrightarrow> distinct rs \<and> set rs \<inter> insert r S = {} \<and> (\<forall>r \<in> set rs. 0 \<le> r \<and> r < g_size ?h p)"
        "\<forall>e. er = Some e \<longrightarrow> err_class e = MPI_ERR_RANK" by blast
    have "check_rank_loop p h (r # rs) k = (with_flags h p f, er)" using ok c(1) by (simp add: set_flag_with)
    moreover have "er = None \<longleftrightarrow> distinct (r # rs) \<and> set (r # rs) \<inter> S = {} \<and> (\<forall>r \<in> set (r # rs). 0 \<le> r \<and> r < g_size h p)"
      using c(2) S ok by (auto simp: set_flag_with)
    ultimately show ?thesis using c(3) by blast
  qed
qed

lemma check_valid_ranks_spec:
  assumes "group_rep me h p l"
  obtains f er where "MPIR_Group_check_valid_ranks h p rs = (with_flags h p f, er)" "er = None \<longleftrightarrow> valid_ranks l rs"
    "\<And>e. er = Some e \<Longrightarrow> err_class e = MPI_ERR_RANK"
proof -
  obtain f0 where f0: "clear_flags h p = with_flags h p f0" using clear_flags_with by blast
  have sz: "g_size h p = int (length l)" using assms by (simp add: group_rep_def)
  from check_rank_loop_spec[OF flagged_clear[of h p], of rs 0] obtain f er where
    c: "check_rank_loop p (clear_flags h p) rs 0 = (with_flags h p f, er)"
      "er = None \<longleftrightarrow> distinct rs \<and> (\<forall>r \<in> set rs. 0 \<le> r \<and> r < g_size h p)"
      "\<forall>e. er = Some e \<longrightarrow> err_class e = MPI_ERR_RANK" unfolding f0 by auto
  have "er = None \<longleftrightarrow> valid_ranks l rs"
    unfolding c(2) valid_ranks_def sz using nat_less_iff by blast
  then show thesis using that[of f er] c by (simp add: MPIR_Group_check_valid_ranks_def)
qed

definition rank_error :: "int \<Rightarrow> mpi_class \<Rightarrow> (nat \<rightharpoonup> int list) \<Rightarrow> group_state \<times> (mpi_err + handle) \<Rightarrow> bool" where
  "rank_error me cls A = (\<lambda>(st', r). group_rel me st' A \<and> (\<exists>er. r = Inl er \<and> err_class er = cls))"

text \<open>The members that are not excluded.\<close>

definition excluded :: "int list \<Rightarrow> int list \<Rightarrow> int list" where
  "excluded l ranks = map ((!) l) (filter (\<lambda>i. int i \<notin> set ranks) [0..<length l])"

lemma take_unflagged:
  assumes "group_rep me h p l" "p \<noteq> q" "\<And>i. i < length l \<Longrightarrow> pm_flag h p i = 0 \<longleftrightarrow> int i \<notin> set ranks"
  shows "take_flagged (\<lambda>f. f = 0) p q [0..<nat (g_size h p)] 0 (set_rank h q MPI_UNDEFINED) =
    put_all q (excluded l ranks) 0 (set_rank h q (rank_in me (excluded l ranks)))"
proof -
  let ?is = "filter (\<lambda>i. int i \<notin> set ranks) [0..<length l]"
  have "filter (\<lambda>i. pm_flag h p i = 0) [0..<length l] = ?is"
    by (rule filter_cong) (use assms(3) in simp_all)
  moreover have "nat (g_size h p) = length l" using assms(1) by (simp add: group_rep_def)
  ultimately have e: "take_flagged (\<lambda>f. f = 0) p q [0..<nat (g_size h p)] 0 (set_rank h q MPI_UNDEFINED) =
      take_ranks p q (map int ?is) 0 (set_rank h q MPI_UNDEFINED)"
    using take_flagged_take_ranks[OF assms(2)] by simp
  have js: "distinct (map int ?is)" "\<And>j. j \<in> set (map int ?is) \<Longrightarrow> 0 \<le> j \<and> nat j < length l"
    by (auto simp: distinct_map)
  have m: "map (\<lambda>j. l ! nat j) (map int ?is) = excluded l ranks" by (simp add: excluded_def)
  note t = take_ranks_rep[OF assms(1) js assms(2), unfolded m]
  show "take_flagged (\<lambda>f. f = 0) p q [0..<nat (g_size h p)] 0 (set_rank h q MPI_UNDEFINED) =
    put_all q (excluded l ranks) 0 (set_rank h q (rank_in me (excluded l ranks)))" using e t(1) by simp
qed

lemma length_excluded:
  assumes "valid_ranks l ranks"
  shows "int (length (excluded l ranks)) = int (length l) - int (length ranks)"
proof -
  have b: "nat ` set ranks \<subseteq> {..<length l}" "inj_on nat (set ranks)"
    using assms by (auto simp: valid_ranks_def inj_on_def eq_nat_nat_iff)
  have "{i. i < length l \<and> int i \<notin> set ranks} = {..<length l} - nat ` set ranks"
    using assms by (force simp: valid_ranks_def image_iff)
  moreover have "card (nat ` set ranks) = length ranks"
    using card_image[OF b(2)] assms distinct_card by (auto simp: valid_ranks_def)
  ultimately have "card {i. i < length l \<and> int i \<notin> set ranks} = length l - length ranks"
    using card_Diff_subset[OF _ b(1)] by simp
  moreover have "length ranks \<le> length l"
    using card_mono[OF _ b(1)] \<open>card (nat ` set ranks) = length ranks\<close> by simp
  moreover have "length (excluded l ranks) = card {i. i < length l \<and> int i \<notin> set ranks}"
    by (simp add: excluded_def length_filter_conv_card) (rule arg_cong[where f = card], auto)
  ultimately show ?thesis by simp
qed

lemma excluded_empty: "valid_ranks l ranks \<Longrightarrow> length ranks = length l \<Longrightarrow> excluded l ranks = []"
  using length_excluded by force

lemma pm_flag_marked_fold: "fold (\<lambda>r h. set_flag h p (nat r) 1) rs h = marked h p (nat ` set rs) 1"
  by (rule fold_set_flag)

text \<open>The two ways to fill the new group once the ranks are known to be valid.\<close>

lemma fill_ranks:
  assumes "group_rel me st A" "A p = Some l" "group_env_ok e st" "valid_ranks l js"
  shows "gives_group me e st A (map (\<lambda>j. l ! nat j) js)
    (case MPIR_Group_create e st (int (length js)) of
       (st', Inl er) \<Rightarrow> (st', Inl (fn_fail msg er))
     | (st', Inr q) \<Rightarrow> (st'\<lparr>gheap := take_ranks p q js 0 (set_rank (gheap st') q MPI_UNDEFINED)\<rparr>,
         Inr (handle_of (take_ranks p q js 0 (set_rank (gheap st') q MPI_UNDEFINED)) q)))"
proof -
  let ?l = "map (\<lambda>j. l ! nat j) js"
  have js: "distinct js" "\<And>j. j \<in> set js \<Longrightarrow> 0 \<le> j \<and> nat j < length l"
    using assms(4) by (simp_all add: valid_ranks_def)
  have ok: "lpids_ok ?l"
    by (rule ranks_lpids_ok[OF _ assms(4)]) (use group_rel_rep[OF assms(1,2)] in \<open>simp add: group_rep_def\<close>)
  have len: "int (length js) = int (length ?l)" by simp
  show ?thesis unfolding len
  proof (rule create_fill[OF assms(1,3) ok])
    fix st' q assume n: "group_rel me st' A" "q \<notin> dom A"
    then have pq: "p \<noteq> q" using assms(2) by auto
    have "take_ranks p q js 0 (set_rank (gheap st') q MPI_UNDEFINED)
        = put_all q ?l 0 (set_rank (with_flags (gheap st') p (pm_flag (gheap st') p)) q (rank_in me ?l))"
      using take_ranks_rep(1)[OF group_rel_rep[OF n(1) assms(2)] js pq] by simp
    then show "\<exists>x f. take_ranks p q js 0 (set_rank (gheap st') q MPI_UNDEFINED)
        = put_all q ?l 0 (set_rank (with_flags (gheap st') x f) q (rank_in me ?l))" by blast
  qed
qed

definition fill_excluded :: "nat \<Rightarrow> int list \<Rightarrow> group_heap \<Rightarrow> nat \<Rightarrow> group_heap" where
  "fill_excluded p js h q =
     (let h = fold (\<lambda>j h. set_flag h p (nat j) 1) js (clear_flags (set_rank h q MPI_UNDEFINED) p) in
      take_flagged (\<lambda>f. f = 0) p q [0..<nat (g_size h p)] 0 h)"

lemma set_rank_with: "set_rank (with_flags h p f) q r = with_flags (set_rank h q r) p f"
  by (simp add: set_rank_def with_flags_def)

lemma fill_excluded_rep:
  assumes "group_rep me h p l" "valid_ranks l js" "p \<noteq> q"
  shows "\<exists>f. fill_excluded p js h q =
    put_all q (excluded l js) 0 (set_rank (with_flags h p f) q (rank_in me (excluded l js)))"
proof -
  obtain f0 where f0: "marked (marked h p {..<nat (g_size h p)} 0) p (nat ` set js) 1 = with_flags h p f0"
    by (simp add: marked_def)
  have "marked (clear_flags (set_rank h q MPI_UNDEFINED) p) p (nat ` set js) 1
      = set_rank (marked (marked h p {..<nat (g_size h p)} 0) p (nat ` set js) 1) q MPI_UNDEFINED"
    by (simp add: clear_flags_marked marked_def set_rank_with cong: if_cong)
  then have "fold (\<lambda>j h. set_flag h p (nat j) 1) js (clear_flags (set_rank h q MPI_UNDEFINED) p)
      = set_rank (with_flags h p f0) q MPI_UNDEFINED" unfolding pm_flag_marked_fold f0 .
  moreover have rep: "group_rep me (with_flags h p f0) p l"
    using assms(1) group_rep_cong(1)[of "with_flags h p f0" p h] by simp
  moreover have "pm_flag (with_flags h p f0) p i = 0 \<longleftrightarrow> int i \<notin> set js" if "i < length l" for i
  proof -
    have "i < nat (g_size h p)" using assms(1) that by (simp add: group_rep_def)
    then have "pm_flag (with_flags h p f0) p i = (if i \<in> nat ` set js then 1 else 0)"
      unfolding f0[symmetric] by simp
    moreover have "i \<in> nat ` set js \<longleftrightarrow> int i \<in> set js" using assms(2) by (force simp: valid_ranks_def image_iff)
    ultimately show ?thesis by simp
  qed
  note t = take_unflagged(1)[OF rep assms(3) this]
  ultimately have "fill_excluded p js h q =
      put_all q (excluded l js) 0 (set_rank (with_flags h p f0) q (rank_in me (excluded l js)))"
    unfolding fill_excluded_def Let_def using t by simp
  then show ?thesis by blast
qed

lemma fill_excl:
  assumes "group_rel me st A" "A p = Some l" "group_env_ok e st" "valid_ranks l js" "n = int (length l) - int (length js)"
  shows "gives_group me e st A (excluded l js)
    (case MPIR_Group_create e st n of
       (st', Inl er) \<Rightarrow> (st', Inl (fn_fail msg er))
     | (st', Inr q) \<Rightarrow> (st'\<lparr>gheap := fill_excluded p js (gheap st') q\<rparr>, Inr (handle_of (fill_excluded p js (gheap st') q) q)))"
proof -
  have len: "n = int (length (excluded l js))" using length_excluded[OF assms(4)] assms(5) by simp
  have "distinct (map int (filter (\<lambda>i. int i \<notin> set js) [0..<length l]))" by (simp add: distinct_map)
  then have "valid_ranks l (map int (filter (\<lambda>i. int i \<notin> set js) [0..<length l]))" by (auto simp: valid_ranks_def)
  moreover have "lpids_ok l" using group_rel_rep[OF assms(1,2)] by (simp add: group_rep_def)
  ultimately have ok: "lpids_ok (excluded l js)"
    using ranks_lpids_ok[of l "map int (filter (\<lambda>i. int i \<notin> set js) [0..<length l])"]
    by (simp add: excluded_def comp_def)
  show ?thesis unfolding len
  proof (rule create_fill[OF assms(1,3) ok])
    fix st' q assume n: "group_rel me st' A" "q \<notin> dom A"
    then have "p \<noteq> q" using assms(2) by auto
    from fill_excluded_rep[OF group_rel_rep[OF n(1) assms(2)] assms(4) this]
    show "\<exists>x f. fill_excluded p js (gheap st') q
        = put_all q (excluded l js) 0 (set_rank (with_flags (gheap st') x f) q (rank_in me (excluded l js)))" by blast
  qed
qed


lemma create_new:
  assumes "group_rel me st A" "group_env_ok e st" "MPIR_Group_create e st n = (st', Inr q)"
  shows "q \<notin> dom A" "g_size (gheap st') = (g_size (gheap st))(q := n)" "g_first (gheap st') q = - 1"
  using assms(1,2) by (cases rule: create_spec[where n = n]; use assms(3) in simp)+

lemma take_ranks_size [simp]:
  "g_size (take_ranks p q js k h) = g_size h" "g_first (take_ranks p q js k h) = g_first h"
  by (induction js arbitrary: k h) (simp_all add: Let_def)

lemma take_flagged_size [simp]:
  "g_size (take_flagged P p q is k h) = g_size h" "g_first (take_flagged P p q is k h) = g_first h"
  by (induction "is" arbitrary: k h) (simp_all add: Let_def)

lemma fill_excluded_size [simp]:
  "g_size (fill_excluded p js h q) = g_size h" "g_first (fill_excluded p js h q) = g_first h"
  by (simp_all add: fill_excluded_def Let_def pm_flag_marked_fold clear_flags_marked)

text \<open>The two routines after a check that succeeded and left the flags \<open>f\<close>.\<close>

lemma incl_valid:
  assumes "group_rel me st A" "A p = Some l" "group_env_ok e st" "valid_ranks l ranks"
    "MPIR_Group_check_valid_ranks (gheap st) p ranks = (with_flags (gheap st) p f, None)"
  shows "gives_group me e st A (map (\<lambda>r. l ! nat r) ranks)
    (MPI_Group_incl e st (handle_of (gheap st) p) (int (length ranks)) ranks)"
proof (rule gives_relisted)
  let ?st = "st\<lparr>gheap := with_flags (gheap st) p f\<rparr>"
  note g = group_handle[OF assms(1,2)]
  have rel: "group_rel me ?st A" by (rule group_rel_flags[OF assms(1)])
  have env: "group_env_ok e ?st" using assms(3) by simp
  show "gives_group me e ?st A (map (\<lambda>r. l ! nat r) ranks)
      (MPI_Group_incl e st (handle_of (gheap st) p) (int (length ranks)) ranks)"
  proof (cases "ranks = []")
    case True
    then show ?thesis using gives_empty[OF rel] g(1,4) assms(5) by (simp add: MPI_Group_incl_def)
  next
    case False
    note fill = fill_ranks[OF rel assms(2) env assms(4), of "''**mpi_group_incl''"]
    obtain st' r where cr: "MPIR_Group_create e ?st (int (length ranks)) = (st', r)" by fastforce
    show ?thesis
    proof (cases r)
      case (Inl er)
      then show ?thesis using fill g(1,4) assms(5) False unfolding MPI_Group_incl_def by (simp add: cr)
    next
      case (Inr q)
      let ?h = "take_ranks p q ranks 0 (set_rank (gheap st') q MPI_UNDEFINED)"
      have "?h\<lparr>g_size := (g_size ?h)(q := int (length ranks)), g_first := (g_first ?h)(q := - 1)\<rparr> = ?h"
        using create_new(2,3)[OF rel env cr[unfolded Inr]] by (simp add: fun_upd_idem)
      then show ?thesis using fill g(1,4) assms(5) False unfolding MPI_Group_incl_def by (simp add: cr Inr Let_def)
    qed
  qed
qed simp

lemma excl_valid:
  assumes "group_rel me st A" "A p = Some l" "group_env_ok e st" "valid_ranks l ranks"
    "MPIR_Group_check_valid_ranks (gheap st) p ranks = (with_flags (gheap st) p f, None)"
  shows "gives_group me e st A (excluded l ranks)
    (MPI_Group_excl e st (handle_of (gheap st) p) (int (length ranks)) ranks)"
proof (rule gives_relisted)
  let ?st = "st\<lparr>gheap := with_flags (gheap st) p f\<rparr>"
  note g = group_handle[OF assms(1,2)]
  have rel: "group_rel me ?st A" by (rule group_rel_flags[OF assms(1)])
  have env: "group_env_ok e ?st" using assms(3) by simp
  have sz: "g_size (gheap st) p = int (length l)" using group_rel_rep[OF assms(1,2)] by (simp add: group_rep_def)
  show "gives_group me e ?st A (excluded l ranks)
      (MPI_Group_excl e st (handle_of (gheap st) p) (int (length ranks)) ranks)"
  proof (cases "length ranks = length l")
    case True
    then show ?thesis using gives_empty[OF rel] g(1,4) assms(5) sz excluded_empty[OF assms(4)]
      by (simp add: MPI_Group_excl_def)
  next
    case False
    note fill = fill_excl[OF rel assms(2) env assms(4) refl, of "''**mpi_group_excl''"]
    obtain st' r where cr: "MPIR_Group_create e ?st (int (length l) - int (length ranks)) = (st', r)" by fastforce
    show ?thesis
    proof (cases r)
      case (Inl er)
      then show ?thesis using fill g(1,4) assms(5) False sz unfolding MPI_Group_excl_def by (simp add: cr)
    next
      case (Inr q)
      note n = create_new[OF rel env cr[unfolded Inr]]
      let ?h = "fill_excluded p ranks (gheap st') q"
      have "p \<noteq> q" using n(1) assms(2) by auto
      then have "?h\<lparr>g_size := (g_size ?h)(q := g_size ?h p - int (length ranks)), g_first := (g_first ?h)(q := - 1)\<rparr> = ?h"
        using n(2,3) sz by (simp add: fun_upd_idem)
      then show ?thesis using fill g(1,4) assms(5) False sz
        unfolding MPI_Group_excl_def by (simp add: cr Inr Let_def fill_excluded_def)
    qed
  qed
qed simp

text \<open>
  C23: for ranks that are in range and distinct, \<open>MPI_Group_incl\<close> gives the group of those members
  in the order of the ranks, and \<open>MPI_Group_excl\<close> the group of all others in their old order, both
  with the caller's rank; an empty result is \<open>MPI_GROUP_EMPTY\<close>. Any other array of ranks is
  refused with \<open>MPI_ERR_RANK\<close> and no group is made.
\<close>

theorem MPI_Group_incl_excl:
  assumes "group_rel me st A" "A p = Some l" "group_env_ok e st"
  shows "if valid_ranks l ranks then
      gives_group me e st A (map (\<lambda>r. l ! nat r) ranks)
        (MPI_Group_incl e st (handle_of (gheap st) p) (int (length ranks)) ranks)
      \<and> gives_group me e st A (excluded l ranks)
        (MPI_Group_excl e st (handle_of (gheap st) p) (int (length ranks)) ranks)
    else rank_error me MPI_ERR_RANK A (MPI_Group_incl e st (handle_of (gheap st) p) (int (length ranks)) ranks)
      \<and> rank_error me MPI_ERR_RANK A (MPI_Group_excl e st (handle_of (gheap st) p) (int (length ranks)) ranks)"
proof -
  note g = group_handle[OF assms(1,2)]
  obtain f er where c: "MPIR_Group_check_valid_ranks (gheap st) p ranks = (with_flags (gheap st) p f, er)"
    "er = None \<longleftrightarrow> valid_ranks l ranks" "\<And>e. er = Some e \<Longrightarrow> err_class e = MPI_ERR_RANK"
    using check_valid_ranks_spec[OF group_rel_rep[OF assms(1,2)], where rs = ranks] by blast
  show ?thesis
  proof (cases er)
    case (Some x)
    then show ?thesis using g(1,4) c group_rel_flags[OF assms(1)]
      by (simp add: MPI_Group_incl_def MPI_Group_excl_def rank_error_def)
  next
    case None
    then have "valid_ranks l ranks" using c(2) by simp
    with incl_valid[OF assms this] excl_valid[OF assms this] c(1) None show ?thesis by simp
  qed
qed

section \<open>Comparison\<close>

lemma group_rep_nth:
  assumes "group_rep me h p l" "i < length l"
  shows "pm_lpid h p i = l ! i" "pm_lrank h p i = int i" "0 \<le> l ! i"
  using assms by (auto simp: group_rep_def lpids_ok_def)

lemma group_rep_size: "group_rep me h p l \<Longrightarrow> g_size h p = int (length l)" "group_rep me h p l \<Longrightarrow> distinct l"
  by (simp_all add: group_rep_def lpids_ok_def)

lemma lpid_ordered_sorted:
  assumes "group_rep me h p l" "lpid_ordered h p"
  obtains xs where "chain (pm_next h p) (g_first h p) xs" "strict (pm_lpid h p) xs" "set xs = {..<length l}"
    "map (pm_lpid h p) xs = sorted_list_of_set (set l)" "length xs = length l"
proof -
  from assms(2) obtain xs where x: "chain (pm_next h p) (g_first h p) xs" "strict (pm_lpid h p) xs"
    "set xs = {..<nat (g_size h p)}" by (auto simp: lpid_ordered_def)
  have n: "nat (g_size h p) = length l" using assms(1) by (simp add: group_rep_def)
  have s: "set (map (pm_lpid h p) xs) = set l"
    using x(3) n group_rep_lpids[OF assms(1)] by (metis atLeast_upt set_map)
  have "sorted_wrt (<) (map (pm_lpid h p) xs)" using x(2) by (simp add: sorted_wrt_map)
  then have "map (pm_lpid h p) xs = sorted_list_of_set (set l)"
    using s sorted_list_of_set.idem_if_sorted_distinct[of "map (pm_lpid h p) xs"] strict_sorted_iff by metis
  moreover have "length xs = length l"
    using x(3) n distinct_card[OF strict_distinct[OF x(2)]] by simp
  ultimately show thesis using that x n by simp
qed

text \<open>
  \<open>MPI_Group_compare\<close> returns and says \<open>MPI_IDENT\<close> exactly for equal lists of members,
  \<open>MPI_SIMILAR\<close> for the same members in another order, and \<open>MPI_UNEQUAL\<close> otherwise; the groups stay.
\<close>

theorem MPI_Group_compare_correct:
  assumes "group_rel me st A" "A p1 = Some l1" "A p2 = Some l2"
  shows "\<exists>h. MPI_Group_compare st (handle_of (gheap st) p1) (handle_of (gheap st) p2) = Some (st\<lparr>gheap := h\<rparr>,
        Inr (if l1 = l2 then MPI_IDENT else if set l1 = set l2 then MPI_SIMILAR else MPI_UNEQUAL))
      \<and> group_rel me (st\<lparr>gheap := h\<rparr>) A"
proof -
  note g = groups_handles[OF assms]
  note r = group_rel_rep[OF assms(1,2)] group_rel_rep[OF assms(1,3)]
  have sz: "g_size (gheap st) p1 = int (length l1)" "g_size (gheap st) p2 = int (length l2)"
    and dis: "distinct l1" "distinct l2" using r by (simp_all add: group_rep_def lpids_ok_def)
  show ?thesis
  proof (cases "length l1 = length l2")
    case False
    then have "set l1 \<noteq> set l2" using dis distinct_card by metis
    then have "MPI_Group_compare st (handle_of (gheap st) p1) (handle_of (gheap st) p2) = Some (st\<lparr>gheap := gheap st\<rparr>, Inr MPI_UNEQUAL)"
      using g sz False by (simp add: MPI_Group_compare_def)
    moreover have "l1 \<noteq> l2" using False by auto
    ultimately show ?thesis using assms(1) \<open>set l1 \<noteq> set l2\<close> by (intro exI[of _ "gheap st"]) simp
  next
    case True
    from setup_pairs_spec[OF r] obtain h where
      h: "MPIR_Group_setup_lpid_pairs (gheap st) p1 p2 = Some h" "relisted me (gheap st) h" "lpid_ordered h p1" "lpid_ordered h p2"
      by blast
    have r1: "group_rep me h p1 l1" "group_rep me h p2 l2" using r h(2) by (simp_all add: relisted_def)
    from r1(1) h(3) obtain xs where xs: "chain (pm_next h p1) (g_first h p1) xs"
      "map (pm_lpid h p1) xs = sorted_list_of_set (set l1)" "length xs = length l1" by (rule lpid_ordered_sorted)
    from r1(2) h(4) obtain ys where ys: "chain (pm_next h p2) (g_first h p2) ys"
      "map (pm_lpid h p2) ys = sorted_list_of_set (set l2)" "length ys = length l2" by (rule lpid_ordered_sorted)
    have w: "compare_walk h p1 p2 (g_first h p1) (g_first h p2) = Some (set l1 \<noteq> set l2)"
      using compare_walk_spec[OF xs(1) ys(1)] xs(2,3) ys(2,3) True sorted_list_of_set_inject[of "set l1" "set l2"] by auto
    have "list_ex (\<lambda>i. pm_lpid h p1 i \<noteq> pm_lpid h p2 i) [0..<nat (g_size h p1)] \<longleftrightarrow> (\<exists>i < length l1. l1 ! i \<noteq> l2 ! i)"
      using group_rep_nth(1)[OF r1(1)] group_rep_nth(1)[OF r1(2)] group_rep_size(1)[OF r1(1)] True
      unfolding list_ex_iff by auto
    also have "\<dots> \<longleftrightarrow> l1 \<noteq> l2" using True list_eq_iff_nth_eq[of l1 l2] by blast
    finally have "list_ex (\<lambda>i. pm_lpid h p1 i \<noteq> pm_lpid h p2 i) [0..<nat (g_size h p1)] \<longleftrightarrow> l1 \<noteq> l2" .
    with w have "MPI_Group_compare st (handle_of (gheap st) p1) (handle_of (gheap st) p2) = Some (st\<lparr>gheap := h\<rparr>,
        Inr (if l1 = l2 then MPI_IDENT else if set l1 = set l2 then MPI_SIMILAR else MPI_UNEQUAL))"
      using g h(1) sz True by (cases "set l1 = set l2") (auto simp: MPI_Group_compare_def)
    then show ?thesis using group_rel_relisted[OF assms(1) h(2)] by blast
  qed
qed

section \<open>Translation of ranks\<close>

text \<open>Where the search stands: past the end, or at a member of the second group.\<close>

definition search_at :: "group_heap \<Rightarrow> nat \<Rightarrow> nat list \<Rightarrow> int \<Rightarrow> int \<Rightarrow> bool" where
  "search_at h p vs g l2 \<longleftrightarrow> chain (pm_next h p) g vs \<and> l2 = (if vs = [] then - 1 else pm_lpid h p (hd vs))"

lemma lpid_search_spec:
  "search_at h p vs g l2 \<Longrightarrow> \<exists>g' l2'. lpid_search h p l1 g l2 = Some (g', l2')
     \<and> search_at h p (dropWhile (\<lambda>x. pm_lpid h p x < l1) vs) g' l2'"
proof (induction vs arbitrary: g l2)
  case Nil
  then show ?case by (subst lpid_search.simps) (simp add: search_at_def)
next
  case (Cons v vs)
  then have g: "g = int v" "l2 = pm_lpid h p v" and c: "chain (pm_next h p) (pm_next h p v) vs"
    by (simp_all add: search_at_def)
  show ?case
  proof (cases "pm_lpid h p v < l1")
    case True
    let ?g = "pm_next h p v" and ?l = "if pm_next h p v \<ge> 0 then pm_lpid h p (nat (pm_next h p v)) else - 1"
    have "search_at h p vs ?g ?l" using c by (cases vs) (auto simp: search_at_def)
    from Cons.IH[OF this] show ?thesis using True g by (subst lpid_search.simps) (simp add: Let_def)
  next
    case False
    then show ?thesis using Cons.prems g by (subst lpid_search.simps) simp
  qed
qed

lemma dropWhile_strict:
  "strict k (us @ vs) \<Longrightarrow> (\<And>v. vs \<noteq> [] \<Longrightarrow> k (hd vs) \<le> l) \<Longrightarrow> vs \<noteq> []
    \<Longrightarrow> dropWhile (\<lambda>x. k x < l) (us @ vs) = dropWhile (\<lambda>x. k x < l) vs"
  by (rule dropWhile_append2) (fastforce simp: sorted_wrt_append dest: hd_in_set)

lemma dropWhile_hit:
  assumes "strict k xs" "x \<in> set xs"
  shows "\<exists>vs. dropWhile (\<lambda>y. k y < k x) xs = x # vs"
  using assms
proof (induction xs)
  case (Cons y ys)
  then show ?case by (cases "y = x") auto
qed simp

lemma translate_loop_spec:
  assumes "group_rep me h p1 l1" "group_rep me h p2 l2" "l2 \<noteq> []"
    "chain (pm_next h p2) (g_first h p2) xs" "strict (pm_lpid h p2) xs" "set xs = {..<length l2}"
    "\<forall>r \<in> set rs. r = MPI_PROC_NULL \<or> 0 \<le> r \<and> nat r < length l1"
    "search_at h p2 vs g l" "\<exists>us. xs = us @ vs"
  shows "translate_loop h p1 p2 rs g l =
    Some (map (\<lambda>r. if r = MPI_PROC_NULL then MPI_PROC_NULL else rank_in (l1 ! nat r) l2) rs)"
  using assms(7-)
proof (induction rs arbitrary: vs g l)
  case (Cons r rs)
  show ?case
  proof (cases "r = MPI_PROC_NULL")
    case True
    then show ?thesis using Cons.IH[OF _ Cons.prems(2,3)] Cons.prems(1) by simp
  next
    case False
    then have rr: "0 \<le> r" "nat r < length l1" using Cons.prems(1) by auto
    let ?l1 = "pm_lpid h p1 (nat r)" and ?k = "pm_lpid h p2"
    have l1: "?l1 = l1 ! nat r" "0 \<le> ?l1"
      using group_rep_nth[OF assms(1) rr(2)] by simp_all
    have dis: "distinct l2" by (rule group_rep_size(2)[OF assms(2)])
    have "0 \<in> set xs" using assms(3,6) by simp
    then have "xs \<noteq> []" by auto
    then have start: "search_at h p2 xs (g_first h p2) (?k (nat (g_first h p2)))"
      using assms(4) by (cases xs) (auto simp: search_at_def)
    let ?s = "if ?l1 < l \<or> g < 0 then (g_first h p2, ?k (nat (g_first h p2))) else (g, l)"
    have "\<exists>ws. search_at h p2 ws (fst ?s) (snd ?s) \<and> dropWhile (\<lambda>x. ?k x < ?l1) ws = dropWhile (\<lambda>x. ?k x < ?l1) xs"
    proof (cases "?l1 < l \<or> g < 0")
      case True
      then show ?thesis using start by (intro exI[of _ xs]) simp
    next
      case False
      then have "vs \<noteq> []" using Cons.prems(2) chain_nonneg_iff unfolding search_at_def by (metis linorder_not_less)
      moreover from this have "l = ?k (hd vs)" using Cons.prems(2) by (simp add: search_at_def)
      ultimately show ?thesis
        using False Cons.prems(2,3) assms(5) dropWhile_strict[of ?k _ vs ?l1] by (intro exI[of _ vs]) auto
    qed
    then obtain ws where ws: "search_at h p2 ws (fst ?s) (snd ?s)"
      "dropWhile (\<lambda>x. ?k x < ?l1) ws = dropWhile (\<lambda>x. ?k x < ?l1) xs" by blast
    let ?ds = "dropWhile (\<lambda>x. ?k x < ?l1) xs"
    from lpid_search_spec[OF ws(1), of ?l1] obtain g' l' where
      s: "lpid_search h p2 ?l1 (fst ?s) (snd ?s) = Some (g', l')" "search_at h p2 ?ds g' l'" unfolding ws(2) by blast
    have "\<exists>us. xs = us @ ?ds" using takeWhile_dropWhile_id by metis
    note ih = Cons.IH[OF _ s(2) this]
    have out: "(if ?l1 = l' then pm_lrank h p2 (nat g') else MPI_UNDEFINED) = rank_in (l1 ! nat r) l2"
    proof (cases "l1 ! nat r \<in> set l2")
      case True
      then obtain x where x: "x < length l2" "l2 ! x = l1 ! nat r" by (auto simp: in_set_conv_nth)
      then have kx: "?k x = ?l1" "x \<in> set xs" using group_rep_nth(1)[OF assms(2) x(1)] assms(6) l1(1) by simp_all
      from dropWhile_hit[OF assms(5) kx(2)] kx(1) obtain vs' where "?ds = x # vs'" by auto
      then have "g' = int x" "l' = ?l1" using s(2) kx(1) by (simp_all add: search_at_def)
      moreover have "int x = rank_in (l1 ! nat r) l2" using rank_in_eq_iff[OF dis x(1)] x(2) by blast
      ultimately show ?thesis using group_rep_nth(2)[OF assms(2) x(1)] by (metis nat_int)
    next
      case False
      have "l' \<noteq> ?l1"
      proof (cases ?ds)
        case Nil
        then show ?thesis using s(2) l1(2) by (simp add: search_at_def)
      next
        case (Cons x vs')
        then have "x \<in> set xs" using set_dropWhileD[of x _ xs] by (metis list.set_intros(1))
        then have "x < length l2" using assms(6) by auto
        then have "?k x \<in> set l2" using group_rep_nth(1)[OF assms(2)] by simp
        then show ?thesis using Cons s(2) l1(1) False by (auto simp: search_at_def)
      qed
      then show ?thesis using False by (simp add: rank_in_def)
    qed
    have "translate_loop h p1 p2 (r # rs) g l = (case lpid_search h p2 ?l1 (fst ?s) (snd ?s) of None \<Rightarrow> None
        | Some (g', l') \<Rightarrow> (case translate_loop h p1 p2 rs g' l' of None \<Rightarrow> None
           | Some os \<Rightarrow> Some ((if ?l1 = l' then pm_lrank h p2 (nat g') else MPI_UNDEFINED) # os)))"
      using False by (simp add: Let_def)
    then show ?thesis using False s(1) ih Cons.prems(1) out by simp
  qed
qed simp

lemma check_ranks1_iff:
  "check_ranks1 (int n) ranks \<longleftrightarrow> \<not> (\<forall>r \<in> set ranks. r = MPI_PROC_NULL \<or> 0 \<le> r \<and> nat r < n)"
proof -
  have one: "(r < 0 \<and> r \<noteq> MPI_PROC_NULL \<or> r \<ge> int n) \<longleftrightarrow> \<not> (r = MPI_PROC_NULL \<or> 0 \<le> r \<and> nat r < n)" for r
    by linarith
  show ?thesis unfolding check_ranks1_def list_ex_iff one by blast
qed

text \<open>
  C25: \<open>MPI_Group_translate_ranks\<close> returns, for ranks of the first group, the rank of the same
  process in the second or \<open>MPI_UNDEFINED\<close>, and \<open>MPI_PROC_NULL\<close> for \<open>MPI_PROC_NULL\<close>; for an empty
  second group it gives \<open>MPI_UNDEFINED\<close> for \<open>MPI_PROC_NULL\<close> too. Other ranks are refused with
  \<open>MPI_ERR_RANK\<close>.
\<close>

theorem MPI_Group_translate_ranks_correct:
  assumes "group_rel me st A" "A p1 = Some l1" "A p2 = Some l2"
  shows "\<exists>h r. MPI_Group_translate_ranks st (handle_of (gheap st) p1) (int (length ranks)) ranks (handle_of (gheap st) p2)
        = Some (st\<lparr>gheap := h\<rparr>, r) \<and> group_rel me (st\<lparr>gheap := h\<rparr>) A
      \<and> (if \<forall>r \<in> set ranks. r = MPI_PROC_NULL \<or> 0 \<le> r \<and> nat r < length l1
         then r = Inr (map (\<lambda>r. if r = MPI_PROC_NULL \<and> l2 \<noteq> [] then MPI_PROC_NULL
           else if r = MPI_PROC_NULL then MPI_UNDEFINED else rank_in (l1 ! nat r) l2) ranks)
         else (\<exists>e. r = Inl e \<and> err_class e = MPI_ERR_RANK))"
proof -
  note g1 = group_handle[OF assms(1,2)] and g2 = group_handle[OF assms(1,3)]
  note r = group_rel_rep[OF assms(1,2)] group_rel_rep[OF assms(1,3)]
  have sz: "g_size (gheap st) p1 = int (length l1)" using r by (simp add: group_rep_def)
  note valid = check_ranks1_iff[of "length l1" ranks]
  show ?thesis
  proof (cases "check_ranks1 (int (length l1)) ranks")
    case True
    then show ?thesis using g1 g2 sz assms(1) valid
      by (intro exI[of _ "gheap st"]) (simp add: MPI_Group_translate_ranks_def)
  next
    case False
    from maybe_setup_spec[OF r(2)] obtain h where
      h: "(if g_first (gheap st) p2 < 0 then MPIR_Group_setup_lpid_list (gheap st) p2 else Some (gheap st)) = Some h"
        "relisted me (gheap st) h" "lpid_ordered h p2" by blast
    have r1: "group_rep me h p1 l1" "group_rep me h p2 l2" using r h(2) by (simp_all add: relisted_def)
    from r1(2) h(3) obtain xs where xs: "chain (pm_next h p2) (g_first h p2) xs" "strict (pm_lpid h p2) xs"
      "set xs = {..<length l2}" "length xs = length l2" by (rule lpid_ordered_sorted)
    have call: "MPI_Group_translate_ranks st (handle_of (gheap st) p1) (int (length ranks)) ranks (handle_of (gheap st) p2) =
        (if g_first h p2 \<ge> 0 then
           (case translate_loop h p1 p2 ranks (g_first h p2) (pm_lpid h p2 (nat (g_first h p2))) of
              None \<Rightarrow> None | Some os \<Rightarrow> Some (st\<lparr>gheap := h\<rparr>, Inr os))
         else Some (st\<lparr>gheap := h\<rparr>, Inr (map (\<lambda>_. MPI_UNDEFINED) ranks)))"
      using g1 g2 False sz h(1) by (simp add: MPI_Group_translate_ranks_def)
    note rel = group_rel_relisted[OF assms(1) h(2)]
    show ?thesis
    proof (cases "l2 = []")
      case True
      then have "g_first h p2 < 0" using xs(1,4) chain_nonneg_iff by (metis length_0_conv linorder_not_less)
      then show ?thesis using call rel valid False True by (intro exI[of _ h]) simp
    next
      case False
      then have "xs \<noteq> []" using xs(4) by auto
      then have s: "search_at h p2 xs (g_first h p2) (pm_lpid h p2 (nat (g_first h p2)))" "g_first h p2 \<ge> 0"
        using xs(1) by (cases xs; auto simp: search_at_def)+
      have v: "\<forall>r \<in> set ranks. r = MPI_PROC_NULL \<or> 0 \<le> r \<and> nat r < length l1" using valid \<open>\<not> check_ranks1 _ _\<close> by blast
      have "translate_loop h p1 p2 ranks (g_first h p2) (pm_lpid h p2 (nat (g_first h p2))) =
          Some (map (\<lambda>r. if r = MPI_PROC_NULL then MPI_PROC_NULL else rank_in (l1 ! nat r) l2) ranks)"
        by (rule translate_loop_spec[OF r1 False xs(1-3) v s(1)]) simp
      then show ?thesis using call rel v False s(2) by (intro exI[of _ h]) simp
    qed
  qed
qed


section \<open>Release\<close>

lemma release_spec:
  assumes "group_rel me st A" "A p = Some l" "p \<noteq> MPID_Group_builtin st"
  shows "if g_ref (gheap st) p = 1
    then group_rel me (MPIR_Group_release st p) (A(p := None))
      \<and> pool_live (gpool (MPIR_Group_release st p)) = pool_live (gpool st) - {p}
    else group_rel me (MPIR_Group_release st p) A
      \<and> g_ref (gheap (MPIR_Group_release st p)) = (g_ref (gheap st))(p := g_ref (gheap st) p - 1)"
proof -
  note rel = assms(1)[unfolded group_rel_def]
  let ?h1 = "(gheap st)\<lparr>g_ref := (g_ref (gheap st))(p := g_ref (gheap st) p - 1)\<rparr>"
  have reps: "group_rep me (?h1\<lparr>next_of := N\<rparr>) x l' = group_rep me (gheap st) x l'"
    "group_rep me ?h1 x l' = group_rep me (gheap st) x l'" for x l' N
    by (rule group_rep_cong; simp)+
  have live: "p \<in> pool_live (gpool st)" and ref: "1 \<le> g_ref (gheap st) p" using rel assms(2,3) by simp_all
  show ?thesis
  proof (cases "g_ref (gheap st) p = 1")
    case True
    let ?h2 = "?h1\<lparr>next_of := (next_of ?h1)(p := om_avail (MPID_Group_mem st))\<rparr>" and ?om = "MPID_Group_mem st\<lparr>om_avail := p\<rparr>"
    have pf: "pool_free p (?h1, MPID_Group_mem st) = (?h2, ?om)" by (simp add: pool_free_def MPIU_Handle_obj_free_def)
    have ok: "pool_ok (?h1, MPID_Group_mem st)" "p \<in> pool_live (?h1, MPID_Group_mem st)"
      using rel live group_pool_cong[of ?h1 "gheap st"] by (simp_all add: gpool_def)
    have f: "pool_ok (?h2, ?om)" "pool_live (?h2, ?om) = pool_live (gpool st) - {p}"
      using hm.free_inv[OF ok] hm.free_live[OF ok] group_pool_cong[of ?h1 "gheap st"] unfolding pf gpool_def by simp_all
    have "MPIR_Group_release st p = st\<lparr>gheap := ?h2, MPID_Group_mem := ?om\<rparr>"
      using True by (simp add: MPIR_Group_release_def MPIU_Handle_obj_free_def Let_def)
    moreover have "group_rel me (st\<lparr>gheap := ?h2, MPID_Group_mem := ?om\<rparr>) (A(p := None))"
      using rel f assms(3) reps by (simp add: group_rel_def gpool_def)
    ultimately show ?thesis using True f by (simp add: gpool_def)
  next
    case nz: False
    have "1 \<le> g_ref ?h1 x" if "A x = Some l'" "x \<noteq> MPID_Group_builtin st" for x l'
      using rel that ref nz by auto
    then have "group_rel me (st\<lparr>gheap := ?h1\<rparr>) A"
      using rel reps group_pool_cong[of ?h1 "gheap st"] by (simp add: group_rel_def gpool_def)
    moreover have "MPIR_Group_release st p = st\<lparr>gheap := ?h1\<rparr>" using nz by (simp add: MPIR_Group_release_def Let_def)
    ultimately show ?thesis using nz by simp
  qed
qed

text \<open>
  \<open>MPI_Group_size\<close> and \<open>MPI_Group_rank\<close> give the length of the list and the caller's position
  in it. \<open>MPI_Group_free\<close> sets the handle to \<open>MPI_GROUP_NULL\<close>; it drops one reference, the last
  one returns the object to the pool, and \<open>MPI_GROUP_EMPTY\<close> is kept. No other group changes.
\<close>

theorem MPI_Group_free_correct:
  assumes "group_rel me st A" "A p = Some l"
  shows "MPI_Group_size st (handle_of (gheap st) p) = Inr (int (length l))
    \<and> MPI_Group_rank st (handle_of (gheap st) p) = Inr (rank_in me l)
    \<and> (case MPI_Group_free st (handle_of (gheap st) p) of (st', r) \<Rightarrow> r = Inr MPI_GROUP_NULL
        \<and> (if p = MPID_Group_builtin st then st' = st
           else if g_ref (gheap st) p = 1
           then group_rel me st' (A(p := None)) \<and> pool_live (gpool st') = pool_live (gpool st) - {p}
           else group_rel me st' A \<and> g_ref (gheap st') = (g_ref (gheap st))(p := g_ref (gheap st) p - 1)))"
proof -
  note g = group_handle[OF assms] and rel = assms(1)[unfolded group_rel_def]
  have 1: "MPI_Group_size st (handle_of (gheap st) p) = Inr (int (length l))"
    "MPI_Group_rank st (handle_of (gheap st) p) = Inr (rank_in me l)"
    using g group_rel_rep[OF assms] by (simp_all add: MPI_Group_size_def MPI_Group_rank_def group_rep_def)
  show ?thesis
  proof (cases "p = MPID_Group_builtin st")
    case True
    then have "handle_of (gheap st) p = MPI_GROUP_EMPTY" using rel by simp
    then show ?thesis using 1 g True by (simp add: MPI_Group_free_def)
  next
    case False
    then have live: "p \<in> pool_live (gpool st)" using rel assms(2) by simp
    have "HANDLE_GET_KIND (handle_of (gheap st) p) \<noteq> HANDLE_KIND_BUILTIN" "handle_of (gheap st) p \<noteq> MPI_GROUP_EMPTY"
      using pool_handle[of "gheap st" "MPID_Group_mem st" p] live rel by (simp_all add: gpool_def)
    then have "MPI_Group_free st (handle_of (gheap st) p) = (MPIR_Group_release st p, Inr MPI_GROUP_NULL)"
      using g by (simp add: MPI_Group_free_def)
    then show ?thesis using 1 False release_spec[OF assms False] by simp
  qed
qed

section \<open>A concrete state\<close>

text \<open>
  Three groups: \<open>MPI_GROUP_EMPTY\<close> at 500, and the processes 5, 2, 9 and 2, 7 in the first two
  of four direct objects; the calling process is 2.
\<close>

definition sample_groups :: group_state where
  "sample_groups = \<lparr>gheap = \<lparr>handle_of = (\<lambda>_. 0)(500 := MPI_GROUP_EMPTY, 1000 := direct_handle MPID_GROUP 0,
       1040 := direct_handle MPID_GROUP 1, 1080 := direct_handle MPID_GROUP 2, 1120 := direct_handle MPID_GROUP 3),
     next_of = (\<lambda>_. 0)(1080 := 1120), g_ref = (\<lambda>_. 1), g_size = (\<lambda>_. 0)(1000 := 3, 1040 := 2),
     g_rank = (\<lambda>_. MPI_UNDEFINED)(1000 := 1, 1040 := 0), g_first = (\<lambda>_. - 1), pm_lrank = (\<lambda>_ i. int i),
     pm_lpid = (\<lambda>_ _. 0)(1000 := (\<lambda>_. 0)(0 := 5, 1 := 2, 2 := 9), 1040 := (\<lambda>_. 0)(0 := 2, 1 := 7)),
     pm_next = (\<lambda>_ _. 0), pm_flag = (\<lambda>_ _. 0)\<rparr>,
     MPID_Group_mem = \<lparr>om_avail = 1080, om_initialized = True, om_indirect = None, om_indirect_size = 0,
       om_kind = MPID_GROUP, om_size = 40, om_direct = 1000, om_direct_size = 4\<rparr>,
     MPID_Group_builtin = 500\<rparr>"

abbreviation sample_lists :: "nat \<rightharpoonup> int list" where
  "sample_lists \<equiv> [500 \<mapsto> [], 1000 \<mapsto> [5, 2, 9], 1040 \<mapsto> [2, 7]]"

abbreviation sample_env :: group_env where
  "sample_env \<equiv> \<lparr>ge_calloc = \<lparr>table_ok = False, new_block = 0\<rparr>, ge_malloc = True\<rparr>"

lemma less_3_4: "(i::nat) < 3 \<Longrightarrow> i = 0 \<or> i = 1 \<or> i = 2" "(i::nat) < 4 \<Longrightarrow> i = 0 \<or> i = 1 \<or> i = 2 \<or> i = 3"
  by auto

lemma upt_4: "[0..<4] = [0, 1, 2, 3 :: nat]"
  by code_simp

lemma group_rep_map:
  assumes "g_size h p = int (length l)" "map (pm_lpid h p) [0..<length l] = l" "pm_lrank h p = int" "lpids_ok l"
    "g_rank h p = rank_in me l" "g_first h p = - 1"
  shows "group_rep me h p l"
proof -
  have "pm_lpid h p i = l ! i" if "i < length l" for i
    using arg_cong[OF assms(2), of "\<lambda>xs. xs ! i"] that by simp
  then show ?thesis using assms by (simp add: group_rep_def)
qed

lemma sample_groups_rel: "group_rel 2 sample_groups sample_lists"
proof -
  let ?om = "MPID_Group_mem sample_groups" let ?h = "gheap sample_groups"
  have objs: "pool_objs ?om = [1000, 1040, 1080, 1120]" "all_objs ?om = [1000, 1040, 1080, 1120]" "blocks ?om = []"
    by (simp_all add: sample_groups_def pool_objs_def all_objs_def blocks_def block_objs_def upt_4)
  have inv: "pool_inv ?h ?om [1080, 1120]"
    using objs by (auto simp: pool_inv_def pool_wf_def handles_ok_def) (auto simp: sample_groups_def dest!: less_3_4(2))
  have "pool_live (gpool sample_groups) = {1000, 1040}"
    unfolding gpool_def pool_live_eq[OF inv] objs by auto
  moreover have "pool_ok (gpool sample_groups)" using inv by (auto simp: pool_ok_def gpool_def)
  moreover have "group_rep 2 ?h 500 []" "group_rep 2 ?h 1000 [5, 2, 9]" "group_rep 2 ?h 1040 [2, 7]"
    by (rule group_rep_map; simp add: lpids_ok_def sample_groups_def rank_in_def upt_rec fun_eq_iff)+
  ultimately show ?thesis using objs by (auto simp: group_rel_def sample_groups_def split: if_splits)
qed

lemma sample_groups_facts:
  "group_env_ok sample_env sample_groups" "handle_of (gheap sample_groups) 1000 = direct_handle MPID_GROUP 0"
  "handle_of (gheap sample_groups) 1040 = direct_handle MPID_GROUP 1"
  by (simp_all add: group_env_ok_def calloc_fresh_def sample_groups_def)

lemma sample_fields: "MPID_Group_builtin sample_groups = 500" "g_ref (gheap sample_groups) p = 1"
  by (simp_all add: sample_groups_def)

lemmas sample = sample_groups_rel sample_groups_facts

theorem MPI_Group_union_correct_witness:
  "\<exists>r. MPI_Group_union sample_env sample_groups (direct_handle MPID_GROUP 0) (direct_handle MPID_GROUP 1) = Some r
     \<and> gives_group 2 sample_env sample_groups sample_lists [5, 2, 9, 7] r"
  using MPI_Group_union_correct[OF sample(1), of 1000 "[5, 2, 9]" 1040 "[2, 7]" sample_env] sample(2-4) by simp

theorem MPI_Group_incl_excl_witness:
  "gives_group 2 sample_env sample_groups sample_lists [9, 5]
      (MPI_Group_incl sample_env sample_groups (direct_handle MPID_GROUP 0) 2 [2, 0])
   \<and> gives_group 2 sample_env sample_groups sample_lists [2]
      (MPI_Group_excl sample_env sample_groups (direct_handle MPID_GROUP 0) 2 [2, 0])"
  using MPI_Group_incl_excl[OF sample(1), of 1000 "[5, 2, 9]" sample_env "[2, 0]"] sample(2-4)
  by (simp add: valid_ranks_def excluded_def upt_rec)

theorem MPI_Group_compare_correct_witness:
  "\<exists>h. MPI_Group_compare sample_groups (direct_handle MPID_GROUP 0) (direct_handle MPID_GROUP 1)
     = Some (sample_groups\<lparr>gheap := h\<rparr>, Inr MPI_UNEQUAL)"
proof -
  have m: "sample_lists 1000 = Some [5, 2, 9]" "sample_lists 1040 = Some [2, 7]" by simp_all
  have "5 \<in> set [5, 2, 9 :: int]" "5 \<notin> set [2, 7 :: int]" by simp_all
  then have "set [5, 2, 9 :: int] \<noteq> set [2, 7]" by metis
  moreover from this have "[5, 2, 9 :: int] \<noteq> [2, 7]" by metis
  ultimately have "(if [5, 2, 9 :: int] = [2, 7] then MPI_IDENT else if set [5, 2, 9 :: int] = set [2, 7]
      then MPI_SIMILAR else MPI_UNEQUAL) = MPI_UNEQUAL" by (simp only: if_False)
  then show ?thesis using MPI_Group_compare_correct[OF sample(1) m] unfolding sample(3,4) by (elim exE conjE) (rule exI, simp only:)
qed

theorem MPI_Group_translate_ranks_correct_witness:
  "\<exists>h. MPI_Group_translate_ranks sample_groups (direct_handle MPID_GROUP 0) 3 [1, - 1, 2] (direct_handle MPID_GROUP 1)
     = Some (sample_groups\<lparr>gheap := h\<rparr>, Inr [0, - 1, MPI_UNDEFINED])"
proof -
  have m: "sample_lists 1000 = Some [5, 2, 9]" "sample_lists 1040 = Some [2, 7]" by simp_all
  have v: "\<forall>r \<in> set [1, - 1, 2]. r = MPI_PROC_NULL \<or> 0 \<le> r \<and> nat r < length [5, 2, 9 :: int]" by simp
  have o: "map (\<lambda>r. if r = MPI_PROC_NULL \<and> [2, 7 :: int] \<noteq> [] then MPI_PROC_NULL
      else if r = MPI_PROC_NULL then MPI_UNDEFINED else rank_in ([5, 2, 9] ! nat r) [2, 7]) [1, - 1, 2] = [0, - 1, MPI_UNDEFINED]"
    by (simp add: rank_in_def)
  from MPI_Group_translate_ranks_correct[OF sample(1) m, of "[1, - 1, 2]"]
  show ?thesis unfolding sample(3,4) if_P[OF v] o by auto
qed

theorem MPI_Group_free_correct_witness:
  "\<exists>st'. MPI_Group_free sample_groups (direct_handle MPID_GROUP 1) = (st', Inr MPI_GROUP_NULL)
     \<and> group_rel 2 st' [500 \<mapsto> [], 1000 \<mapsto> [5, 2, 9]]"
proof -
  have "sample_lists(1040 := None) = [500 \<mapsto> [], 1000 \<mapsto> [5, 2, 9]]" by (auto simp: fun_eq_iff)
  then show ?thesis
    using MPI_Group_free_correct[OF sample(1), of 1040 "[2, 7]"] sample(4)
    by (cases "MPI_Group_free sample_groups (direct_handle MPID_GROUP 1)") (simp add: sample_fields)
qed

theorem MPI_Group_intersection_difference_witness:
  "\<exists>r. MPI_Group_intersection sample_env sample_groups (direct_handle MPID_GROUP 0) (direct_handle MPID_GROUP 1) = Some r
     \<and> gives_group 2 sample_env sample_groups sample_lists [2] r"
  using MPI_Group_intersection_difference[OF sample(1), of 1000 "[5, 2, 9]" 1040 "[2, 7]" sample_env] sample(2-4) by auto


end
