(* ===== verification/MpiGroupRanges.thy ===== *)
theory MpiGroupRanges
  imports MpiGroupOps
begin

text \<open>
  \<open>MPI_Group_range_incl\<close> and \<open>MPI_Group_range_excl\<close>: a range (first, last, stride) stands for the
  ranks first, first + stride, and so on as far as last; the routines then do what
  \<open>MPI_Group_incl\<close> and \<open>MPI_Group_excl\<close> do for the list of all these ranks.
\<close>

section \<open>The ranks of a range\<close>

definition range_len :: "int \<times> int \<times> int \<Rightarrow> nat" where
  "range_len = (\<lambda>(first, lst, stride). nat (1 + (lst - first) sdiv stride))"

definition range_elem :: "int \<times> int \<times> int \<Rightarrow> nat \<Rightarrow> int" where
  "range_elem = (\<lambda>(first, lst, stride) k. first + int k * stride)"

definition range_elems :: "int \<times> int \<times> int \<Rightarrow> int list" where
  "range_elems r = map (range_elem r) [0..<range_len r]"

definition good_range :: "int \<Rightarrow> int \<times> int \<times> int \<Rightarrow> bool" where
  "good_range n = (\<lambda>(first, lst, stride). 0 \<le> first \<and> first < n \<and> stride \<noteq> 0 \<and> 0 \<le> lst
     \<and> (stride > 0 \<longrightarrow> first \<le> lst) \<and> (stride < 0 \<longrightarrow> lst \<le> first)
     \<and> first + stride * ((lst - first) sdiv stride) < n)"

text \<open>No \<open>int\<close> of the loops overflows: the difference, the quotient, and the step past the end.\<close>

definition no_overflow :: "int \<times> int \<times> int \<Rightarrow> bool" where
  "no_overflow = (\<lambda>(first, lst, stride). int_ok (lst - first) \<and> int_ok ((lst - first) sdiv stride)
     \<and> int_ok first \<and> int_ok (range_elem (first, lst, stride) (range_len (first, lst, stride))))"

lemma sdiv_neg: "a \<le> 0 \<Longrightarrow> b < 0 \<Longrightarrow> a sdiv b = (- a) div (- b :: int)"
  by (cases "a = 0") (simp_all add: signed_divide_int_def)

lemma mult_le_div: "0 < b \<Longrightarrow> k * b \<le> a \<longleftrightarrow> k \<le> a div (b :: int)"
proof
  assume b: "0 < b"
  show "k \<le> a div b" if "k * b \<le> a" using zdiv_mono1[OF that b] b by simp
  assume "k \<le> a div b"
  then have "k * b \<le> (a div b) * b" using b by simp
  also have "\<dots> \<le> a" using b minus_mod_eq_div_mult[of a b] pos_mod_sign[OF b, of a] by linarith
  finally show "k * b \<le> a" .
qed

lemma range_in:
  assumes "good_range n (f, l, s)"
  shows "in_range (range_elem (f, l, s) k) l s \<longleftrightarrow> k < range_len (f, l, s)"
proof (cases "s > 0")
  case True
  then have q: "(l - f) sdiv s = (l - f) div s" "0 \<le> (l - f) div s"
    using assms by (simp_all add: good_range_def sdiv_pos pos_imp_zdiv_nonneg_iff)
  have "f + int k * s \<le> l \<longleftrightarrow> int k * s \<le> l - f" by linarith
  also have "\<dots> \<longleftrightarrow> int k \<le> (l - f) div s" using True by (rule mult_le_div)
  also have "\<dots> \<longleftrightarrow> k < range_len (f, l, s)" using q by (simp add: range_len_def) linarith
  finally show ?thesis using True by (simp add: in_range_def range_elem_def)
next
  case False
  then have s: "s < 0" using assms by (auto simp: good_range_def)
  then have q: "(l - f) sdiv s = (f - l) div (- s)" "0 \<le> (f - l) div (- s)"
    using assms by (simp_all add: good_range_def sdiv_neg pos_imp_zdiv_nonneg_iff)
  have "f + int k * s \<ge> l \<longleftrightarrow> int k * (- s) \<le> f - l" by (simp add: algebra_simps)
  also have "\<dots> \<longleftrightarrow> int k \<le> (f - l) div (- s)" by (rule mult_le_div) (use s in simp)
  also have "\<dots> \<longleftrightarrow> k < range_len (f, l, s)" using q by (simp add: range_len_def) linarith
  finally show ?thesis using s by (simp add: in_range_def range_elem_def)
qed

lemma range_elem_bounds:
  assumes "good_range n (f, l, s)" "k < range_len (f, l, s)"
  shows "0 \<le> range_elem (f, l, s) k \<and> range_elem (f, l, s) k < n"
proof (cases "s > 0")
  case True
  have "int k \<le> (l - f) sdiv s" using assms(2) unfolding range_len_def prod.case by linarith
  then have "s * int k \<le> s * ((l - f) sdiv s)" using True by simp
  moreover have "0 \<le> s * int k" "int k * s = s * int k" using True by simp_all
  moreover have "0 \<le> f" "f + s * ((l - f) sdiv s) < n" using assms(1) by (simp_all add: good_range_def)
  ultimately show ?thesis unfolding range_elem_def prod.case by linarith
next
  case False
  then have s: "s < 0" using assms(1) by (auto simp: good_range_def)
  then have "l \<le> range_elem (f, l, s) k" using range_in[OF assms(1), of k] assms(2) by (simp add: in_range_def)
  moreover have "int k * s \<le> 0" using s by (simp add: mult_nonneg_nonpos)
  ultimately show ?thesis using assms(1) by (simp add: good_range_def range_elem_def)
qed

lemma range_elem_ok:
  assumes "no_overflow (f, l, s)" "k \<le> range_len (f, l, s)"
  shows "int_ok (range_elem (f, l, s) k)"
proof -
  let ?n = "int (range_len (f, l, s))"
  have "int k * s \<le> ?n * s \<and> 0 \<le> int k * s \<or> ?n * s \<le> int k * s \<and> int k * s \<le> 0"
    using assms(2) by (cases "0 \<le> s") (simp_all add: mult_right_mono mult_right_mono_neg mult_nonneg_nonpos)
  then show ?thesis using assms(1) by (auto simp: no_overflow_def range_elem_def int_ok_def)
qed

lemma map_shift: "map f [0..<Suc c] = f 0 # map (\<lambda>k. f (Suc k)) [0..<c]"
  by (simp add: upt_conv_Cons map_Suc_upt[symmetric] del: upt_Suc)

lemma range_loop_spec:
  assumes "\<forall>k \<le> c. in_range (j + int k * s) l s \<longleftrightarrow> k < c" "\<forall>k \<le> c. int_ok (j + int k * s)"
  shows "range_loop j l s = Some (map (\<lambda>k. j + int k * s) [0..<c])"
  using assms
proof (induction c arbitrary: j)
  case 0
  then show ?case by (subst range_loop.simps) simp
next
  case (Suc c)
  have i: "in_range j l s" using Suc.prems(1) by (auto dest: spec[of _ 0])
  have o: "int_ok (j + s)" using Suc.prems(2)[rule_format, of 1] by simp
  have e: "j + s + int k * s = j + int (Suc k) * s" for k by (simp add: algebra_simps)
  have "range_loop (j + s) l s = Some (map (\<lambda>k. j + s + int k * s) [0..<c])"
    by (rule Suc.IH) (use Suc.prems in \<open>unfold e, auto\<close>)
  then show ?case using i o by (subst range_loop.simps) (simp add: map_shift e del: upt_Suc)
qed

lemma range_loop_elems:
  assumes "good_range n r" "no_overflow r"
  shows "(case r of (f, l, s) \<Rightarrow> range_loop f l s) = Some (range_elems r)"
proof -
  obtain f l s where r: "r = (f, l, s)" by (cases r) blast
  show ?thesis
    using range_loop_spec[of "range_len r" f s l] range_in[OF assms(1)[unfolded r]] range_elem_ok[OF assms(2)[unfolded r]]
    by (simp add: r range_elems_def range_elem_def)
qed

lemma mark_range_spec:
  assumes "\<forall>k \<le> c. in_range (j + int k * s) l s \<longleftrightarrow> k < c" "\<forall>k \<le> c. int_ok (j + int k * s)"
    "\<forall>k < c. 0 \<le> j + int k * s \<and> j + int k * s < g_size h p" "flagged h p S" "v \<noteq> 0" "s \<noteq> 0"
  shows "\<exists>f er. mark_range p v l s h j = Some (with_flags h p f, er)
    \<and> (er = None \<longrightarrow> (\<lambda>k. j + int k * s) ` {..<c} \<inter> S = {} \<and> flagged (with_flags h p f) p (S \<union> (\<lambda>k. j + int k * s) ` {..<c}))
    \<and> (\<forall>e. er = Some e \<longrightarrow> (\<lambda>k. j + int k * s) ` {..<c} \<inter> S \<noteq> {} \<and> err_class e = MPI_ERR_ARG)"
  using assms
proof (induction c arbitrary: j h S)
  case 0
  have "mark_range p v l s h j = Some (with_flags h p (pm_flag h p), None)"
    using 0 by (subst mark_range.simps) simp
  then show ?case using 0 by (intro exI[of _ "pm_flag h p"] exI[of _ None]) simp
next
  case (Suc c)
  have i: "in_range j l s" using Suc.prems(1) by (auto dest: spec[of _ 0])
  have o: "int_ok (j + s)" using Suc.prems(2)[rule_format, of 1] by simp
  have j: "0 \<le> j" "j < g_size h p" using Suc.prems(3) by (auto dest: spec[of _ 0])
  have jS: "pm_flag h p (nat j) \<noteq> 0 \<longleftrightarrow> j \<in> S"
    using Suc.prems(4) j unfolding flagged_def by (metis int_nat_eq)
  let ?E = "\<lambda>j c. (\<lambda>k. j + int k * s) ` {..<c}"
  have e: "j + s + int k * s = j + int (Suc k) * s" for k by (simp add: algebra_simps)
  have E: "?E j (Suc c) = insert j (?E (j + s) c)" unfolding e lessThan_Suc_eq_insert_0 by (auto simp: image_image)
  have "j \<noteq> j + s + int k * s" for k
  proof -
    have "(1 + int k) * s \<noteq> 0" using Suc.prems(6) by simp
    then show ?thesis by (simp add: algebra_simps)
  qed
  then have jE: "j \<notin> ?E (j + s) c" by auto
  show ?case
  proof (cases "j \<in> S")
    case True
    then have "mark_range p v l s h j = Some (with_flags h p (pm_flag h p), Some (new_error MPI_ERR_ARG ''**rangedup''))"
      using i jS by (subst mark_range.simps) simp
    then show ?thesis using True E by (intro exI[of _ "pm_flag h p"] exI[of _ "Some (new_error MPI_ERR_ARG ''**rangedup'')"]) auto
  next
    case False
    let ?h = "set_flag h p (nat j) v"
    have fl: "flagged ?h p (insert j S)" by (rule flagged_set[OF Suc.prems(4,5) j(1)])
    have "\<exists>f er. mark_range p v l s ?h (j + s) = Some (with_flags ?h p f, er)
      \<and> (er = None \<longrightarrow> ?E (j + s) c \<inter> insert j S = {} \<and> flagged (with_flags ?h p f) p (insert j S \<union> ?E (j + s) c))
      \<and> (\<forall>e. er = Some e \<longrightarrow> ?E (j + s) c \<inter> insert j S \<noteq> {} \<and> err_class e = MPI_ERR_ARG)"
      by (rule Suc.IH) (use Suc.prems fl in \<open>unfold e, auto simp: set_flag_with\<close>)
    then obtain f er where m: "mark_range p v l s ?h (j + s) = Some (with_flags h p f, er)"
      "er = None \<longrightarrow> ?E (j + s) c \<inter> insert j S = {} \<and> flagged (with_flags h p f) p (insert j S \<union> ?E (j + s) c)"
      "\<forall>e. er = Some e \<longrightarrow> ?E (j + s) c \<inter> insert j S \<noteq> {} \<and> err_class e = MPI_ERR_ARG" by (auto simp: set_flag_with)
    have "mark_range p v l s h j = Some (with_flags h p f, er)"
      using i o jS False m(1) by (subst mark_range.simps) simp
    moreover have "?E (j + s) c \<inter> insert j S = {} \<longleftrightarrow> ?E j (Suc c) \<inter> S = {}" using E jE False by auto
    moreover have "insert j S \<union> ?E (j + s) c = S \<union> ?E j (Suc c)" using E by auto
    ultimately show ?thesis using m(2,3) by (intro exI[of _ f] exI[of _ er]) simp
  qed
qed


section \<open>The check\<close>

lemma range_check_good:
  assumes "no_overflow r"
  shows "\<exists>er. range_check n r = Some er \<and> (er = None \<longleftrightarrow> good_range n r) \<and> (\<forall>e. er = Some e \<longrightarrow> err_class e = MPI_ERR_ARG)"
proof -
  obtain f l s where r: "r = (f, l, s)" by (cases r) blast
  have "int_ok (l - f)" "int_ok ((l - f) sdiv s)" using assms by (simp_all add: r no_overflow_def)
  then show ?thesis by (auto simp: r range_check_def good_range_def Let_def)
qed

lemma set_range_elems: "set (range_elems (f, l, s)) = (\<lambda>k. f + int k * s) ` {..<range_len (f, l, s)}"
  by (simp add: range_elems_def range_elem_def lessThan_atLeast0)

lemma distinct_range_elems: "good_range n r \<Longrightarrow> distinct (range_elems r)"
  by (cases r) (auto simp: range_elems_def range_elem_def good_range_def distinct_map inj_on_def)

abbreviation all_elems :: "(int \<times> int \<times> int) list \<Rightarrow> int list" where
  "all_elems rs \<equiv> concat (map range_elems rs)"

lemma mark_range_elems:
  assumes "good_range (g_size h p) (f, l, s)" "no_overflow (f, l, s)" "flagged h p S" "v \<noteq> 0"
  shows "\<exists>fl er. mark_range p v l s h f = Some (with_flags h p fl, er)
    \<and> (er = None \<longrightarrow> set (range_elems (f, l, s)) \<inter> S = {} \<and> flagged (with_flags h p fl) p (S \<union> set (range_elems (f, l, s))))
    \<and> (\<forall>e. er = Some e \<longrightarrow> set (range_elems (f, l, s)) \<inter> S \<noteq> {} \<and> err_class e = MPI_ERR_ARG)"
  unfolding set_range_elems
  by (rule mark_range_spec)
    (use assms range_in[OF assms(1)] range_elem_ok[OF assms(2)] range_elem_bounds[OF assms(1)]
      in \<open>auto simp: range_elem_def good_range_def\<close>)

lemma check_range_loop_spec:
  "flagged h p S \<Longrightarrow> \<forall>r \<in> set rs. no_overflow r \<Longrightarrow> \<exists>fl er. check_range_loop p h rs k = Some (with_flags h p fl, er)
     \<and> (er = None \<longleftrightarrow> (\<forall>r \<in> set rs. good_range (g_size h p) r) \<and> distinct (all_elems rs) \<and> set (all_elems rs) \<inter> S = {})
     \<and> (\<forall>e. er = Some e \<longrightarrow> err_class e = MPI_ERR_ARG)"
proof (induction rs arbitrary: h S k)
  case Nil
  have "check_range_loop p h [] k = Some (with_flags h p (pm_flag h p), None)" by simp
  then show ?case by fastforce
next
  case (Cons r rs)
  obtain f l s where r: "r = (f, l, s)" by (cases r) blast
  have o: "no_overflow (f, l, s)" and os: "\<forall>r \<in> set rs. no_overflow r" using Cons.prems(2) r by simp_all
  have stop: ?case if "check_range_loop p h (r # rs) k = Some (with_flags h p fl, Some e)" "err_class e = MPI_ERR_ARG"
    "\<not> (good_range (g_size h p) r \<and> set (range_elems r) \<inter> S = {})" for fl e
    using that by (intro exI[of _ fl] exI[of _ "Some e"]) auto
  from range_check_good[OF o] obtain er where c: "range_check (g_size h p) (f, l, s) = Some er"
    "er = None \<longleftrightarrow> good_range (g_size h p) (f, l, s)" "\<And>e. er = Some e \<Longrightarrow> err_class e = MPI_ERR_ARG" by blast
  show ?case
  proof (cases er)
    case (Some e)
    show ?thesis by (rule stop[of "pm_flag h p" e]) (use c Some r in auto)
  next
    case None
    then have good: "good_range (g_size h p) (f, l, s)" using c(2) by simp
    let ?v = "if s > 0 then 1 else int k + 1"
    have v: "?v \<noteq> 0" by simp
    from mark_range_elems[OF good o Cons.prems(1) v] obtain fl er1 where
      m: "mark_range p ?v l s h f = Some (with_flags h p fl, er1)"
        "er1 = None \<longrightarrow> set (range_elems r) \<inter> S = {} \<and> flagged (with_flags h p fl) p (S \<union> set (range_elems r))"
        "\<forall>e. er1 = Some e \<longrightarrow> set (range_elems r) \<inter> S \<noteq> {} \<and> err_class e = MPI_ERR_ARG" unfolding r by blast
    show ?thesis
    proof (cases er1)
      case (Some e)
      show ?thesis by (rule stop[of fl e]) (use c None m Some r in auto)
    next
      case er1: None
      then have S: "set (range_elems r) \<inter> S = {}" and fl: "flagged (with_flags h p fl) p (S \<union> set (range_elems r))"
        using m(2) by simp_all
      from Cons.IH[OF fl os, of "k + 1"] obtain fl2 er2 where
        i: "check_range_loop p (with_flags h p fl) rs (k + 1) = Some (with_flags h p fl2, er2)"
          "er2 = None \<longleftrightarrow> (\<forall>r \<in> set rs. good_range (g_size h p) r) \<and> distinct (all_elems rs)
             \<and> set (all_elems rs) \<inter> (S \<union> set (range_elems r)) = {}"
          "\<forall>e. er2 = Some e \<longrightarrow> err_class e = MPI_ERR_ARG" unfolding with_flags_fields with_flags_with by blast
      have "check_range_loop p h (r # rs) k = Some (with_flags h p fl2, er2)"
        using c(1) None m(1) er1 i(1) by (simp add: r)
      moreover have "er2 = None \<longleftrightarrow> (\<forall>r \<in> set (r # rs). good_range (g_size h p) r) \<and> distinct (all_elems (r # rs))
          \<and> set (all_elems (r # rs)) \<inter> S = {}"
        unfolding i(2) using good S distinct_range_elems[OF good] by (auto simp: r)
      ultimately show ?thesis using i(3) by blast
    qed
  qed
qed

lemma ranges_loop_elems:
  "\<forall>r \<in> set rs. good_range n r \<and> no_overflow r \<Longrightarrow> ranges_loop rs = Some (all_elems rs)"
proof (induction rs)
  case (Cons r rs)
  then show ?case using range_loop_elems[of n r] by (cases r) simp
qed simp

lemma range_count_elems:
  "\<forall>r \<in> set rs. good_range n r \<Longrightarrow> range_count rs = int (length (all_elems rs))"
proof (induction rs)
  case (Cons r rs)
  obtain f l s where r: "r = (f, l, s)" by (cases r) blast
  have "0 < range_len (f, l, s)" using range_in[of n f l s 0] Cons.prems r
    by (auto simp: in_range_def range_elem_def good_range_def)
  then have "int (range_len r) = 1 + (l - f) sdiv s" by (simp add: range_len_def r)
  then show ?case using Cons by (simp add: range_count_def r range_elems_def)
qed (simp add: range_count_def)

lemma all_elems_valid:
  assumes "\<forall>r \<in> set rs. good_range (int (length l)) r" "distinct (all_elems rs)"
  shows "valid_ranks l (all_elems rs)"
proof -
  have "0 \<le> j \<and> nat j < length l" if "j \<in> set (all_elems rs)" for j
  proof -
    from that obtain r where r: "r \<in> set rs" "j \<in> set (range_elems r)" by auto
    then obtain k where "k < range_len r" "j = range_elem r k" by (auto simp: range_elems_def)
    with r(1) assms(1) range_elem_bounds[of "int (length l)" "fst r" "fst (snd r)" "snd (snd r)" k] show ?thesis by auto
  qed
  then show ?thesis using assms(2) by (simp add: valid_ranks_def)
qed

text \<open>The two routines after a check that succeeded and left the flags \<open>f\<close>.\<close>

lemma range_incl_valid:
  assumes "group_rel me st A" "A p = Some l" "group_env_ok e st" "valid_ranks l js" "ranges_loop ranges = Some js"
    "range_count ranges = int (length js)"
    "MPIR_Group_check_valid_ranges (gheap st) p ranges (int (length ranges)) = Some (with_flags (gheap st) p f, None)"
  shows "\<exists>ri. MPI_Group_range_incl e st (handle_of (gheap st) p) (int (length ranges)) ranges = Some ri
    \<and> gives_group me e (st\<lparr>gheap := with_flags (gheap st) p f\<rparr>) A (map (\<lambda>r. l ! nat r) js) ri"
proof -
  let ?st = "st\<lparr>gheap := with_flags (gheap st) p f\<rparr>"
  note g = group_handle(4)[OF assms(1,2)]
  have rel: "group_rel me ?st A" by (rule group_rel_flags[OF assms(1)])
  have env: "group_env_ok e ?st" using assms(3) by simp
  show ?thesis
  proof (cases "js = []")
    case True
    then have "range_count ranges = 0" using assms(6) by simp
    then show ?thesis unfolding True list.map using gives_empty[OF rel] g assms(7)
      by (simp add: MPI_Group_range_incl_def)
  next
    case False
    obtain st' r where cr: "MPIR_Group_create e ?st (int (length js)) = (st', r)" by fastforce
    show ?thesis
      using fill_ranks[OF rel assms(2) env assms(4), of "''**mpi_group_range_incl''"] g False assms(5-7)
      unfolding MPI_Group_range_incl_def by (cases r) (simp_all add: cr Let_def)
  qed
qed

lemma range_excl_valid:
  assumes "group_rel me st A" "A p = Some l" "group_env_ok e st" "valid_ranks l js" "ranges_loop ranges = Some js"
    "range_count ranges = int (length js)"
    "MPIR_Group_check_valid_ranges (gheap st) p ranges (int (length ranges)) = Some (with_flags (gheap st) p f, None)"
  shows "\<exists>rx. MPI_Group_range_excl e st (handle_of (gheap st) p) (int (length ranges)) ranges = Some rx
    \<and> gives_group me e (st\<lparr>gheap := with_flags (gheap st) p f\<rparr>) A (excluded l js) rx"
proof -
  let ?st = "st\<lparr>gheap := with_flags (gheap st) p f\<rparr>"
  note g = group_handle(4)[OF assms(1,2)] and sz = group_rep_size(1)[OF group_rel_rep[OF assms(1,2)]]
  have rel: "group_rel me ?st A" by (rule group_rel_flags[OF assms(1)])
  have env: "group_env_ok e ?st" using assms(3) by simp
  show ?thesis
  proof (cases "length js = length l")
    case True
    then show ?thesis using gives_empty[OF rel] g assms(6,7) sz excluded_empty[OF assms(4) True]
      by (simp add: MPI_Group_range_excl_def)
  next
    case False
    obtain st' r where cr: "MPIR_Group_create e ?st (int (length l) - int (length js)) = (st', r)" by fastforce
    show ?thesis
      using fill_excl[OF rel assms(2) env assms(4) refl, of "''**mpi_group_range_excl''"] g False assms(5-7) sz
      unfolding MPI_Group_range_excl_def by (cases r) (simp_all add: cr Let_def fill_excluded_def)
  qed
qed

lemma check_ranges_spec:
  assumes "group_rep me h p l" "\<forall>r \<in> set ranges. no_overflow r"
  obtains f er where "MPIR_Group_check_valid_ranges h p ranges (int (length ranges)) = Some (with_flags h p f, er)"
    "er = None \<longleftrightarrow> (\<forall>r \<in> set ranges. good_range (int (length l)) r) \<and> distinct (all_elems ranges)"
    "\<And>e. er = Some e \<Longrightarrow> err_class e = MPI_ERR_ARG"
proof -
  obtain f0 where f0: "clear_flags h p = with_flags h p f0" using clear_flags_with by blast
  from check_range_loop_spec[OF flagged_clear[of h p] assms(2), of 0] show thesis
    using that group_rep_size(1)[OF assms(1)] unfolding f0
    by (auto simp: MPIR_Group_check_valid_ranges_def f0)
qed

text \<open>
  C24: for ranges inside the group whose ranks are distinct, \<open>MPI_Group_range_incl\<close> and
  \<open>MPI_Group_range_excl\<close> give the groups that \<open>MPI_Group_incl\<close> and \<open>MPI_Group_excl\<close> give for the list
  of all their ranks; any other ranges are refused with \<open>MPI_ERR_ARG\<close>. The hypothesis says that the
  loops stay inside \<open>int\<close>.
\<close>

theorem MPI_Group_range_incl_excl:
  assumes "group_rel me st A" "A p = Some l" "group_env_ok e st" "\<forall>r \<in> set ranges. no_overflow r"
  shows "\<exists>ri rx. MPI_Group_range_incl e st (handle_of (gheap st) p) (int (length ranges)) ranges = Some ri
    \<and> MPI_Group_range_excl e st (handle_of (gheap st) p) (int (length ranges)) ranges = Some rx
    \<and> (if (\<forall>r \<in> set ranges. good_range (int (length l)) r) \<and> distinct (all_elems ranges)
       then gives_group me e st A (map (\<lambda>r. l ! nat r) (all_elems ranges)) ri
          \<and> gives_group me e st A (excluded l (all_elems ranges)) rx
       else rank_error me MPI_ERR_ARG A ri \<and> rank_error me MPI_ERR_ARG A rx)"
proof -
  obtain f er where
    c: "MPIR_Group_check_valid_ranges (gheap st) p ranges (int (length ranges)) = Some (with_flags (gheap st) p f, er)"
      "er = None \<longleftrightarrow> (\<forall>r \<in> set ranges. good_range (int (length l)) r) \<and> distinct (all_elems ranges)"
      "\<And>e. er = Some e \<Longrightarrow> err_class e = MPI_ERR_ARG"
    using check_ranges_spec[OF group_rel_rep[OF assms(1,2)] assms(4)] by metis
  show ?thesis
  proof (cases er)
    case (Some x)
    then have bad: "\<not> ((\<forall>r \<in> set ranges. good_range (int (length l)) r) \<and> distinct (all_elems ranges))" using c(2) by simp
    have "rank_error me MPI_ERR_ARG A (st\<lparr>gheap := with_flags (gheap st) p f\<rparr>, Inl (fn_fail msg x))" for msg
      using group_rel_flags[OF assms(1)] c(3)[OF Some] by (simp add: rank_error_def)
    then show ?thesis unfolding if_not_P[OF bad] using group_handle(4)[OF assms(1,2)] c(1) Some
      by (simp add: MPI_Group_range_incl_def MPI_Group_range_excl_def)
  next
    case None
    then have good: "(\<forall>r \<in> set ranges. good_range (int (length l)) r) \<and> distinct (all_elems ranges)" using c(2) by simp
    have valid: "valid_ranks l (all_elems ranges)" using all_elems_valid good by blast
    have loop: "ranges_loop ranges = Some (all_elems ranges)" using ranges_loop_elems good assms(4) by blast
    have cnt: "range_count ranges = int (length (all_elems ranges))" using range_count_elems good by blast
    note v = assms(1-3) valid loop cnt c(1)[unfolded None]
    have hd: "handle_of (with_flags (gheap st) p f) = handle_of (gheap st)" by simp
    from range_incl_valid[OF v] range_excl_valid[OF v] good show ?thesis using gives_relisted[OF _ hd] by metis
  qed
qed

theorem MPI_Group_range_incl_excl_witness:
  "\<exists>ri. MPI_Group_range_incl sample_env sample_groups (direct_handle MPID_GROUP 0) 1 [(2, 0, - 2)] = Some ri
     \<and> gives_group 2 sample_env sample_groups sample_lists [9, 5] ri"
proof -
  have o: "\<forall>r \<in> set [(2, 0, - 2)]. no_overflow r"
    by (simp add: no_overflow_def int_ok_def range_elem_def range_len_def signed_divide_int_def)
  have "range_elems (2, 0, - 2) = [2, 0]"
    by (simp add: range_elems_def range_len_def range_elem_def signed_divide_int_def upt_rec)
  moreover have "good_range 3 (2, 0, - 2)" by (simp add: good_range_def signed_divide_int_def)
  ultimately show ?thesis
    using MPI_Group_range_incl_excl[OF sample(1) _ sample(2) o, of 1000 "[5, 2, 9]"] unfolding sample(3)
    by auto
qed

text \<open>
  A step past the end of the range that leaves \<open>int\<close>: the check has no defined result although
  the one rank of the range is in the group.
\<close>

lemma check_range_overflow:
  assumes "g_size h p = 2"
  shows "MPIR_Group_check_valid_ranges h p [(1, 2147483646, 2147483647)] 1 = None"
proof -
  have "range_check 2 (1, 2147483646, 2147483647) = Some None"
    by (simp add: range_check_def int_ok_def signed_divide_int_def)
  moreover have "mark_range p 1 2147483646 2147483647 (clear_flags h p) 1 = None"
    using assms by (subst mark_range.simps) (simp add: in_range_def int_ok_def clear_flags_marked)
  ultimately show ?thesis using assms
    by (simp add: MPIR_Group_check_valid_ranges_def clear_flags_marked)
qed


end
