(* ===== verification/ContextId.thy ===== *)
theory ContextId
  imports Prelude
begin

unbundle bit_operations_syntax

text \<open>
  The context ids of communicators, src/src/mpi/comm/commutil.c: each process keeps a mask of the
  ids it has free, an id is taken collectively as a bit free in every process of a communicator,
  and freeing sets the bit again. This theory holds the build with one thread; a context id is
  four times its bit number, so that the three ids after it belong to the communicator too.
\<close>

section \<open>The mask\<close>

text \<open>The static variables of the file; a static array starts at zero.\<close>

record contextid_state =
  context_mask :: "32 word list"
  initialize_context_mask :: bool

abbreviation (input) MAX_CONTEXT_MASK :: nat where "MAX_CONTEXT_MASK \<equiv> 32"

definition start_contextid :: contextid_state where
  "start_contextid = \<lparr>context_mask = replicate MAX_CONTEXT_MASK 0, initialize_context_mask = True\<rparr>"

definition MPIR_Init_contextid :: "contextid_state \<Rightarrow> contextid_state" where
  "MPIR_Init_contextid st =
     st\<lparr>context_mask := 0xFFFFFFF8 # replicate (MAX_CONTEXT_MASK - 1) 0xFFFFFFFF,
        initialize_context_mask := False\<rparr>"

text \<open>
  The search for the highest set bit of a word: each step keeps the upper halves of its blocks when
  one of them has a bit, and adds the size of a half to the position.
\<close>

definition upper_half :: "32 word \<Rightarrow> nat \<Rightarrow> 32 word \<times> nat \<Rightarrow> 32 word \<times> nat" where
  "upper_half m n = (\<lambda>(val, j). let nval = val AND m in if nval \<noteq> 0 then (nval, j + n) else (val, j))"

definition context_bit :: "32 word \<Rightarrow> nat" where
  "context_bit v =
     (let (val, j) = upper_half 0xFFFF0000 16 (v, 0);
          (val, j) = upper_half 0xFF00FF00 8 (val, j);
          (val, j) = upper_half 0xF0F0F0F0 4 (val, j);
          (val, j) = upper_half 0xCCCCCCCC 2 (val, j) in
      if val AND 0xAAAAAAAA \<noteq> 0 then j + 1 else j)"

text \<open>
  \<open>MPIR_Find_context_bit\<close> with the mask of the process beside the one it searches: the new mask
  and the id, 0 when there is none. The bit is a word, so that the C expression \<open>1<<j\<close> for \<open>j = 31\<close>, a shift into the
  sign of an \<open>int\<close>, is the word with that bit, as compilers make it.
\<close>

fun find_context_loop :: "32 word list \<Rightarrow> nat \<Rightarrow> 32 word list \<Rightarrow> 32 word list \<times> int" where
  "find_context_loop [] i cm = (cm, 0)"
| "find_context_loop (w # ws) i cm =
     (if w \<noteq> 0 then
        (let j = context_bit w in
         (cm[i := cm ! i AND NOT (push_bit j 1)], 4 * (32 * int i + int j)))
      else find_context_loop ws (i + 1) cm)"

definition MPIR_Find_context_bit :: "32 word list \<Rightarrow> contextid_state \<Rightarrow> contextid_state \<times> int" where
  "MPIR_Find_context_bit local_mask st =
     (case find_context_loop local_mask 0 (context_mask st) of (cm, context_id) \<Rightarrow>
        (st\<lparr>context_mask := cm\<rparr>, context_id))"

text \<open>
  \<open>MPIR_Get_contextid\<close> of a build with one thread. The answer of the collective \<open>MPI_Allreduce\<close>
  with \<open>MPI_BAND\<close> is an argument: \<open>None\<close> is an error.
\<close>

definition init_if_needed :: "contextid_state \<Rightarrow> contextid_state" where
  "init_if_needed st = (if initialize_context_mask st then MPIR_Init_contextid st else st)"

definition MPIR_Get_contextid :: "(32 word list \<Rightarrow> 32 word list option) \<Rightarrow> contextid_state
    \<Rightarrow> contextid_state \<times> int" where
  "MPIR_Get_contextid allreduce st =
     (let st = init_if_needed st in
      case allreduce (context_mask st) of
        None \<Rightarrow> (st, 0)
      | Some local_mask \<Rightarrow> MPIR_Find_context_bit local_mask st)"

text \<open>
  \<open>MPIR_Free_contextid\<close>: \<open>None\<close> is the abort of an index out of range, or the shift by a negative
  amount, which C leaves undefined.
\<close>

definition MPIR_Free_contextid :: "int \<Rightarrow> contextid_state \<Rightarrow> contextid_state option" where
  "MPIR_Free_contextid context_id st =
     (let context_id = drop_bit 2 context_id;
          idx = context_id sdiv 32;
          bitpos = context_id smod 32 in
      if idx < 0 \<or> idx \<ge> int MAX_CONTEXT_MASK then None
      else if bitpos < 0 then None
      else Some (st\<lparr>context_mask :=
        (context_mask st)[nat idx := context_mask st ! nat idx OR push_bit (nat bitpos) 1]\<rparr>))"

section \<open>The highest bit\<close>

text \<open>
  After a step the value holds the bits of the word in one block of \<open>n\<close> positions, the last one
  that has any, and \<open>j\<close> is where it starts.
\<close>

definition in_block :: "32 word \<Rightarrow> nat \<Rightarrow> 32 word \<times> nat \<Rightarrow> bool" where
  "in_block v n = (\<lambda>(val, j). val \<noteq> 0 \<and> n dvd j
     \<and> (\<forall>k. bit val k \<longleftrightarrow> bit v k \<and> j \<le> k \<and> k < j + n) \<and> (\<forall>k \<ge> j + n. \<not> bit v k))"

lemma word32_bit_less: "bit (v :: 32 word) k \<Longrightarrow> k < 32"
  by (drule bit_imp_le_length) simp

lemma div_eq_block: "0 < n \<Longrightarrow> (k :: nat) div n = c \<longleftrightarrow> n * c \<le> k \<and> k < n * c + n"
  using dividend_less_times_div[of n k] by (auto intro: div_nat_eqI)

lemma upper_half_in_block:
  assumes m: "\<And>k. bit m k \<longleftrightarrow> k < 32 \<and> odd (k div n)" and n: "0 < n" and b: "in_block v (2 * n) (val, j)"
  shows "in_block v n (upper_half m n (val, j))"
proof -
  from b have "2 * n dvd j" by (simp add: in_block_def)
  then obtain q where j: "j = 2 * n * q" by (rule dvdE)
  have q: "k div n = 2 * q \<longleftrightarrow> j \<le> k \<and> k < j + n" "k div n = 2 * q + 1 \<longleftrightarrow> j + n \<le> k \<and> k < j + 2 * n" for k
    using n by (auto simp: j div_eq_block algebra_simps)
  have up: "bit (val AND m) k \<longleftrightarrow> bit v k \<and> j + n \<le> k \<and> k < j + 2 * n" for k
  proof -
    have "k div n = 2 * q \<or> k div n = 2 * q + 1" if "j \<le> k" "k < j + 2 * n"
      using that q[of k] by linarith
    then show ?thesis using b m[of k] q[of k] word32_bit_less[of v k]
      by (auto simp: in_block_def bit_and_iff)
  qed
  show ?thesis
  proof (cases "val AND m = 0")
    case True
    then have no: "\<not> (bit v k \<and> j + n \<le> k \<and> k < j + 2 * n)" for k using up[of k] by simp
    have "bit v k \<and> j \<le> k \<and> k < j + 2 * n \<longleftrightarrow> bit v k \<and> j \<le> k \<and> k < j + n" for k
      using no[of k] by linarith
    moreover have "\<not> bit v k" if "k \<ge> j + n" for k
      using that no[of k] b by (cases "k < j + 2 * n") (auto simp: in_block_def)
    moreover have "n dvd j" by (simp add: j)
    ultimately show ?thesis using b True by (simp add: upper_half_def in_block_def)
  next
    case False
    moreover have "n dvd j + n" by (simp add: j)
    ultimately show ?thesis using b up by (auto simp: upper_half_def in_block_def Let_def)
  qed
qed

lemma half_masks:
  "bit (0xFFFF0000 :: 32 word) k \<longleftrightarrow> k < 32 \<and> odd (k div 16)"
  "bit (0xFF00FF00 :: 32 word) k \<longleftrightarrow> k < 32 \<and> odd (k div 8)"
  "bit (0xF0F0F0F0 :: 32 word) k \<longleftrightarrow> k < 32 \<and> odd (k div 4)"
  "bit (0xCCCCCCCC :: 32 word) k \<longleftrightarrow> k < 32 \<and> odd (k div 2)"
  "bit (0xAAAAAAAA :: 32 word) k \<longleftrightarrow> k < 32 \<and> odd (k div 1)"
proof -
  have "list_all (\<lambda>k. bit (0xFFFF0000 :: 32 word) k = odd (k div 16) \<and> bit (0xFF00FF00 :: 32 word) k = odd (k div 8)
      \<and> bit (0xF0F0F0F0 :: 32 word) k = odd (k div 4) \<and> bit (0xCCCCCCCC :: 32 word) k = odd (k div 2)
      \<and> bit (0xAAAAAAAA :: 32 word) k = odd (k div 1)) [0..<32]"
    by code_simp
  then have below: "k < 32 \<Longrightarrow> bit (0xFFFF0000 :: 32 word) k = odd (k div 16) \<and> bit (0xFF00FF00 :: 32 word) k = odd (k div 8)
      \<and> bit (0xF0F0F0F0 :: 32 word) k = odd (k div 4) \<and> bit (0xCCCCCCCC :: 32 word) k = odd (k div 2)
      \<and> bit (0xAAAAAAAA :: 32 word) k = odd (k div 1)" for k
    by (simp add: list_all_iff)
  show "bit (0xFFFF0000 :: 32 word) k \<longleftrightarrow> k < 32 \<and> odd (k div 16)" using below word32_bit_less by blast
  show "bit (0xFF00FF00 :: 32 word) k \<longleftrightarrow> k < 32 \<and> odd (k div 8)" using below word32_bit_less by blast
  show "bit (0xF0F0F0F0 :: 32 word) k \<longleftrightarrow> k < 32 \<and> odd (k div 4)" using below word32_bit_less by blast
  show "bit (0xCCCCCCCC :: 32 word) k \<longleftrightarrow> k < 32 \<and> odd (k div 2)" using below word32_bit_less by blast
  show "bit (0xAAAAAAAA :: 32 word) k \<longleftrightarrow> k < 32 \<and> odd (k div 1)" using below word32_bit_less by blast
qed

lemma snd_upper_half: "snd (upper_half m n vj) = (if fst vj AND m \<noteq> 0 then snd vj + n else snd vj)"
  by (simp add: upper_half_def Let_def split: prod.split)

lemma context_bit_halves:
  "context_bit v = snd (upper_half 0xAAAAAAAA 1 (upper_half 0xCCCCCCCC 2 (upper_half 0xF0F0F0F0 4
     (upper_half 0xFF00FF00 8 (upper_half 0xFFFF0000 16 (v, 0))))))"
  by (simp add: context_bit_def Let_def case_prod_beta snd_upper_half[of "0xAAAAAAAA"])

lemma context_bit_highest:
  assumes "v \<noteq> 0"
  shows "bit v (context_bit v)" "context_bit v < k \<Longrightarrow> \<not> bit v k"
proof -
  have step: "in_block v n' vj \<Longrightarrow> n' = 2 * n \<Longrightarrow> (\<And>k. bit m k \<longleftrightarrow> k < 32 \<and> odd (k div n)) \<Longrightarrow> 0 < n
      \<Longrightarrow> in_block v n (upper_half m n vj)" for n n' m vj
    by (cases vj) (simp add: upper_half_in_block)
  have "\<not> bit v k" if "k \<ge> 32" for k using word32_bit_less[of v k] that by auto
  then have "in_block v 32 (v, 0)" using assms by (auto simp: in_block_def intro: word32_bit_less)
  then have "in_block v 1 (upper_half 0xAAAAAAAA 1 (upper_half 0xCCCCCCCC 2 (upper_half 0xF0F0F0F0 4
      (upper_half 0xFF00FF00 8 (upper_half 0xFFFF0000 16 (v, 0))))))"
    by (intro step[where n = 1 and n' = 2] step[where n = 2 and n' = 4] step[where n = 4 and n' = 8]
        step[where n = 8 and n' = 16] step[where n = 16 and n' = 32]) (rule half_masks | simp)+
  moreover obtain val j where vj: "upper_half 0xAAAAAAAA 1 (upper_half 0xCCCCCCCC 2 (upper_half 0xF0F0F0F0 4
      (upper_half 0xFF00FF00 8 (upper_half 0xFFFF0000 16 (v, 0))))) = (val, j)" by fastforce
  ultimately have b: "val \<noteq> 0" "\<And>k. bit val k \<longleftrightarrow> bit v k \<and> j \<le> k \<and> k < j + 1" "\<And>k. j + 1 \<le> k \<Longrightarrow> \<not> bit v k"
    by (auto simp: in_block_def)
  have j: "context_bit v = j" using vj by (simp add: context_bit_halves)
  from b(1) obtain i where "bit val i" by (metis bit_eq_iff bit_0_eq bot_apply bot_bool_def)
  with b(2)[of i] have "i = j" "bit v i" by auto
  then have "bit v j" by simp
  with j show "bit v (context_bit v)" by simp
  show "context_bit v < k \<Longrightarrow> \<not> bit v k" using b(3)[of k] j by simp
qed

section \<open>The ids of a mask\<close>

text \<open>The numbers of the bits set in a mask, and the mask of all processes of a communicator.\<close>

definition mask_ids :: "32 word list \<Rightarrow> nat set" where
  "mask_ids ws = {k. k < 32 * length ws \<and> bit (ws ! (k div 32)) (k mod 32)}"

lemma mask_ids_below: "k \<in> mask_ids ws \<Longrightarrow> k < 32 * length ws"
  by (simp add: mask_ids_def)

lemma mask_ids_update:
  assumes "\<And>k. bit w k \<longleftrightarrow> bit (ws ! i) k \<and> k \<noteq> j" "i < length ws" "j < 32"
  shows "mask_ids (ws[i := w]) = mask_ids ws - {32 * i + j}"
proof -
  have "k = 32 * i + j" if "k div 32 = i" "k mod 32 = j" for k
    using div_mult_mod_eq[of k 32] that by simp
  then show ?thesis using assms by (auto simp: mask_ids_def nth_list_update)
qed

lemma mask_ids_insert:
  assumes "\<And>k. bit w k \<longleftrightarrow> bit (ws ! i) k \<or> k = j" "i < length ws" "j < 32"
  shows "mask_ids (ws[i := w]) = insert (32 * i + j) (mask_ids ws)"
proof -
  have "k = 32 * i + j" if "k div 32 = i" "k mod 32 = j" for k
    using div_mult_mod_eq[of k 32] that by simp
  then show ?thesis using assms by (auto simp: mask_ids_def nth_list_update)
qed

lemma mask_ids_Cons:
  "mask_ids (w # ws) = {k. k < 32 \<and> bit w k} \<union> (\<lambda>k. k + 32) ` mask_ids ws"
proof -
  have "k \<in> mask_ids (w # ws) \<longleftrightarrow> k < 32 \<and> bit w k \<or> k \<in> (\<lambda>k. k + 32) ` mask_ids ws" for k
  proof (cases "k < 32")
    case False
    then obtain k' where "k = k' + 32" by (metis add.commute le_add_diff_inverse not_less)
    moreover have "(k' + 32) div 32 = Suc (k' div 32)" by simp
    ultimately show ?thesis by (auto simp: mask_ids_def image_iff)
  qed (auto simp: mask_ids_def)
  then show ?thesis by blast
qed

text \<open>
  The search takes one of the ids of the mask it is given out of the mask of the process: the
  highest of the first word that has any.
\<close>

lemma find_context_loop_spec:
  assumes "i + length ws \<le> length cm"
  shows "(case find_context_loop ws i cm of (cm', context_id) \<Rightarrow>
      if mask_ids ws = {} then cm' = cm \<and> context_id = 0
      else \<exists>k \<in> mask_ids ws. context_id = 4 * (32 * int i + int k) \<and> length cm' = length cm
        \<and> mask_ids cm' = mask_ids cm - {32 * i + k})"
  using assms
proof (induction ws arbitrary: i)
  case Nil
  then show ?case by (simp add: mask_ids_def)
next
  case (Cons w ws)
  show ?case
  proof (cases "w = 0")
    case True
    have m: "mask_ids (0 # ws) = (\<lambda>k. k + 32) ` mask_ids ws" by (simp add: mask_ids_Cons)
    show ?thesis using Cons.IH[of "i + 1"] Cons.prems True
      by (auto simp: m algebra_simps split: prod.splits if_splits)
  next
    case False
    let ?j = "context_bit w"
    have j: "bit w ?j" "?j < 32" using context_bit_highest(1)[OF False] by (auto intro: word32_bit_less)
    have "mask_ids (cm[i := cm ! i AND NOT (push_bit ?j 1)]) = mask_ids cm - {32 * i + ?j}"
      using Cons.prems j by (intro mask_ids_update) (auto simp: bit_simps dest: word32_bit_less)
    moreover have "?j \<in> mask_ids (w # ws)" using j by (simp add: mask_ids_Cons)
    ultimately show ?thesis using False by (auto simp: Let_def)
  qed
qed

text \<open>The mask of a set of processes: the \<open>MPI_BAND\<close> of their masks.\<close>

definition band_masks :: "32 word list list \<Rightarrow> 32 word list" where
  "band_masks ms = foldr (map2 (AND)) ms (replicate MAX_CONTEXT_MASK (- 1))"

lemma band_masks_length: "\<forall>m \<in> set ms. length m = 32 \<Longrightarrow> length (band_masks ms) = 32"
  by (induction ms) (simp_all add: band_masks_def)

lemma mask_ids_map2:
  "length a = length b \<Longrightarrow> mask_ids (map2 (AND) a b) = mask_ids a \<inter> mask_ids b"
  by (auto simp: mask_ids_def bit_and_iff less_mult_imp_div_less mult.commute)

lemma mask_ids_all: "mask_ids (replicate n (- 1)) = {k. k < 32 * n}"
  by (auto simp: mask_ids_def less_mult_imp_div_less mult.commute)

lemma mask_ids_band:
  "\<forall>m \<in> set ms. length m = 32 \<Longrightarrow> mask_ids (band_masks ms) = {k. k < 1024 \<and> (\<forall>m \<in> set ms. k \<in> mask_ids m)}"
proof (induction ms)
  case Nil
  then show ?case by (simp add: band_masks_def mask_ids_all)
next
  case (Cons m ms)
  then have "mask_ids (map2 (AND) m (band_masks ms)) = mask_ids m \<inter> mask_ids (band_masks ms)"
    by (intro mask_ids_map2) (simp add: band_masks_length)
  then show ?case using Cons by (auto simp: band_masks_def)
qed

lemma find_context_spec:
  assumes "length m = 32" "length (context_mask st) = 32"
  obtains "mask_ids m = {}" "MPIR_Find_context_bit m st = (st, 0)"
  | cm k where "k \<in> mask_ids m" "MPIR_Find_context_bit m st = (st\<lparr>context_mask := cm\<rparr>, 4 * int k)"
      "length cm = 32" "mask_ids cm = mask_ids (context_mask st) - {k}"
  using find_context_loop_spec[of 0 m "context_mask st"] assms
  by (auto simp: MPIR_Find_context_bit_def split: prod.splits if_splits)

text \<open>The id found depends only on the mask searched.\<close>

lemma find_context_loop_same: "snd (find_context_loop ws i cm) = snd (find_context_loop ws i cm')"
  by (induction ws i cm rule: find_context_loop.induct) (auto simp: Let_def)

lemma find_context_same: "snd (MPIR_Find_context_bit m st) = snd (MPIR_Find_context_bit m st')"
  using find_context_loop_same[of m 0 "context_mask st" "context_mask st'"]
  by (simp add: MPIR_Find_context_bit_def case_prod_beta)

lemma free_context_spec:
  assumes "k < 1024" "length (context_mask st) = 32"
  obtains cm where "MPIR_Free_contextid (4 * int k) st = Some (st\<lparr>context_mask := cm\<rparr>)"
    "length cm = 32" "mask_ids cm = insert k (mask_ids (context_mask st))"
proof -
  let ?m = "context_mask st"
  let ?cm = "?m[k div 32 := ?m ! (k div 32) OR push_bit (k mod 32) 1]"
  have c: "drop_bit 2 (4 * int k) = int k" by (simp add: drop_bit_eq_div)
  have d: "int k sdiv 32 = int (k div 32)" "int k smod 32 = int (k mod 32)"
    by (simp_all add: signed_divide_int_def signed_modulo_int_def zdiv_int zmod_int sgn_if)
  have i: "k div 32 < 32" "k mod 32 < 32" using assms(1) by auto
  then have "MPIR_Free_contextid (4 * int k) st = Some (st\<lparr>context_mask := ?cm\<rparr>)"
    by (simp add: MPIR_Free_contextid_def c d Let_def)
  moreover have "mask_ids ?cm = insert (32 * (k div 32) + k mod 32) (mask_ids ?m)"
    using i assms(2) by (intro mask_ids_insert) (auto simp: bit_simps dest: word32_bit_less)
  ultimately show thesis using that[of ?cm] assms(2) by simp
qed

text \<open>A fresh process has every id but those of the three builtin communicators.\<close>

lemma mask_ids_init: "mask_ids (context_mask (MPIR_Init_contextid st)) = {3..<1024}"
proof -
  have "list_all (\<lambda>k. bit (0xFFFFFFF8 :: 32 word) k = (3 \<le> k)) [0..<32]" by code_simp
  then have w: "k < 32 \<Longrightarrow> bit (0xFFFFFFF8 :: 32 word) k = (3 \<le> k)" for k by (simp add: list_all_iff)
  have i: "context_mask (MPIR_Init_contextid st) = 0xFFFFFFF8 # replicate 31 (- 1)"
    by (simp add: MPIR_Init_contextid_def)
  have "mask_ids (context_mask (MPIR_Init_contextid st))
      = {k. k < 32 \<and> bit (0xFFFFFFF8 :: 32 word) k} \<union> (\<lambda>k. k + 32) ` {k. k < 32 * 31}"
    unfolding i mask_ids_Cons mask_ids_all ..
  also have "\<dots> = {3..<32} \<union> {32..<1024}"
  proof (intro arg_cong2[where f = "(\<union>)"])
    show "{k. k < 32 \<and> bit (0xFFFFFFF8 :: 32 word) k} = {3..<32}" using w by auto
    have "{k :: nat. k < 32 * 31} = {0..<992}" by auto
    then show "(\<lambda>k. k + 32) ` {k :: nat. k < 32 * 31} = {32..<1024}"
      by (simp only: image_add_atLeastLessThan') simp
  qed
  also have "\<dots> = {3..<1024}" by (rule ivl_disj_un_two(3)) simp_all
  finally show ?thesis .
qed

section \<open>The ids in use\<close>

text \<open>
  The processes of a job, each with its mask and the ids of its communicators. Getting an id is
  collective over the processes \<open>ps\<close> of a communicator, whose \<open>MPI_Allreduce\<close> answers the
  \<open>MPI_BAND\<close> of their masks; a process frees the id of a communicator it releases.
\<close>

record id_world =
  id_state :: "nat \<Rightarrow> contextid_state"
  id_used :: "nat \<Rightarrow> int set"

definition common_mask :: "nat list \<Rightarrow> (nat \<Rightarrow> contextid_state) \<Rightarrow> 32 word list" where
  "common_mask ps sts = band_masks (map (\<lambda>q. context_mask (init_if_needed (sts q))) ps)"

definition get_contextid_on :: "nat list \<Rightarrow> (nat \<Rightarrow> contextid_state) \<Rightarrow> nat \<Rightarrow> contextid_state \<times> int" where
  "get_contextid_on ps sts p = MPIR_Get_contextid (\<lambda>_. Some (common_mask ps sts)) (sts p)"

definition start_ids :: id_world where
  "start_ids = \<lparr>id_state = (\<lambda>_. start_contextid), id_used = (\<lambda>_. {})\<rparr>"

inductive id_step :: "id_world \<Rightarrow> id_world \<Rightarrow> bool" where
  get: "id_step s (s\<lparr>
      id_state := (\<lambda>p. if p \<in> set ps then fst (get_contextid_on ps (id_state s) p) else id_state s p),
      id_used := (\<lambda>p. if p \<in> set ps \<and> snd (get_contextid_on ps (id_state s) p) \<noteq> 0
        then insert (snd (get_contextid_on ps (id_state s) p)) (id_used s p) else id_used s p)\<rparr>)"
| free: "c \<in> id_used s p \<Longrightarrow> MPIR_Free_contextid c (id_state s p) = Some st \<Longrightarrow>
    id_step s (s\<lparr>id_state := (id_state s)(p := st), id_used := (id_used s)(p := id_used s p - {c})\<rparr>)"

inductive ids_reachable :: "id_world \<Rightarrow> bool" where
  start: "ids_reachable start_ids"
| step: "ids_reachable s \<Longrightarrow> id_step s s' \<Longrightarrow> ids_reachable s'"

text \<open>The free bits and the used ids of a process split the ids that there are.\<close>

definition ids_split :: "contextid_state \<Rightarrow> int set \<Rightarrow> bool" where
  "ids_split st used \<longleftrightarrow> length (context_mask (init_if_needed st)) = 32
     \<and> mask_ids (context_mask (init_if_needed st)) = {k. 3 \<le> k \<and> k < 1024 \<and> 4 * int k \<notin> used}
     \<and> (\<forall>c \<in> used. \<exists>k. c = 4 * int k \<and> 3 \<le> k \<and> k < 1024)
     \<and> (initialize_context_mask st \<longrightarrow> used = {})"

lemma ids_split_start: "ids_split start_contextid {}"
proof -
  have "mask_ids (context_mask (MPIR_Init_contextid start_contextid)) = {k. 3 \<le> k \<and> k < 1024}"
    unfolding mask_ids_init by auto
  moreover have "length (context_mask (MPIR_Init_contextid start_contextid)) = 32"
    by (simp add: MPIR_Init_contextid_def)
  ultimately show ?thesis by (simp add: ids_split_def init_if_needed_def start_contextid_def)
qed

lemma init_if_needed_more [simp]: "\<not> initialize_context_mask (init_if_needed st)"
  by (simp add: init_if_needed_def MPIR_Init_contextid_def)

lemma init_if_needed_id: "\<not> initialize_context_mask st \<Longrightarrow> init_if_needed st = st"
  by (simp add: init_if_needed_def)

lemma ids_split_take:
  assumes "ids_split st used" "length m = 32" "mask_ids m \<subseteq> mask_ids (context_mask (init_if_needed st))"
    "MPIR_Find_context_bit m (init_if_needed st) = (st', c)"
  shows "if mask_ids m = {} then c = 0 \<and> ids_split st' used
     else (\<exists>k. c = 4 * int k \<and> k \<in> mask_ids m) \<and> c \<notin> used \<and> ids_split st' (insert c used)"
proof (rule find_context_spec[OF assms(2), of "init_if_needed st"])
  show "length (context_mask (init_if_needed st)) = 32" using assms(1) by (simp add: ids_split_def)
next
  assume "mask_ids m = {}" "MPIR_Find_context_bit m (init_if_needed st) = (init_if_needed st, 0)"
  then show ?thesis using assms by (simp add: ids_split_def init_if_needed_id)
next
  fix cm k assume k: "k \<in> mask_ids m" "length cm = 32"
    "MPIR_Find_context_bit m (init_if_needed st) = ((init_if_needed st)\<lparr>context_mask := cm\<rparr>, 4 * int k)"
    "mask_ids cm = mask_ids (context_mask (init_if_needed st)) - {k}"
  then have st': "st' = (init_if_needed st)\<lparr>context_mask := cm\<rparr>" "c = 4 * int k" using assms(4) by simp_all
  moreover have "init_if_needed st' = st'" unfolding st' by (rule init_if_needed_id) simp
  moreover have "k \<in> {k. 3 \<le> k \<and> k < 1024 \<and> 4 * int k \<notin> used}" using k(1) assms(1,3) by (auto simp: ids_split_def)
  ultimately show ?thesis using assms(1) k by (auto simp: ids_split_def)
qed

lemma ids_split_free:
  assumes "ids_split st used" "c \<in> used"
  obtains st' where "MPIR_Free_contextid c st = Some st'" "ids_split st' (used - {c})"
proof -
  from assms obtain k where k: "c = 4 * int k" "3 \<le> k" "k < 1024" and i: "\<not> initialize_context_mask st"
    unfolding ids_split_def by blast
  have l: "length (context_mask st) = 32"
    and m: "mask_ids (context_mask st) = {k. 3 \<le> k \<and> k < 1024 \<and> 4 * int k \<notin> used}"
    using assms(1) by (simp_all add: ids_split_def init_if_needed_id[OF i])
  show thesis
  proof (rule free_context_spec[OF k(3) l])
    fix cm assume "MPIR_Free_contextid (4 * int k) st = Some (st\<lparr>context_mask := cm\<rparr>)" "length cm = 32"
      "mask_ids cm = insert k (mask_ids (context_mask st))"
    moreover from this i have "ids_split (st\<lparr>context_mask := cm\<rparr>) (used - {c})"
      using assms(1) k m by (auto simp: ids_split_def init_if_needed_def)
    ultimately show thesis using k(1) by (intro that) simp_all
  qed
qed

lemma common_mask_ids:
  assumes "\<And>p. ids_split (sts p) (used p)"
  shows "length (common_mask ps sts) = 32"
    "mask_ids (common_mask ps sts) = {k. k < 1024 \<and> (\<forall>p \<in> set ps. 3 \<le> k \<and> 4 * int k \<notin> used p)}"
proof -
  have "\<forall>m \<in> set (map (\<lambda>q. context_mask (init_if_needed (sts q))) ps). length m = 32"
    using assms by (auto simp: ids_split_def)
  note band_masks_length[OF this] mask_ids_band[OF this]
  then show "length (common_mask ps sts) = 32"
    "mask_ids (common_mask ps sts) = {k. k < 1024 \<and> (\<forall>p \<in> set ps. 3 \<le> k \<and> 4 * int k \<notin> used p)}"
    using assms by (auto simp: common_mask_def ids_split_def)
qed

lemma get_contextid_on_eq:
  "get_contextid_on ps sts p = MPIR_Find_context_bit (common_mask ps sts) (init_if_needed (sts p))"
  by (simp add: get_contextid_on_def MPIR_Get_contextid_def Let_def)

lemma get_contextid_on_split:
  assumes "\<And>p. ids_split (sts p) (used p)" "p \<in> set ps" "get_contextid_on ps sts p = (st', c)"
  shows "if mask_ids (common_mask ps sts) = {} then c = 0 \<and> ids_split st' (used p)
     else (\<exists>k. c = 4 * int k \<and> k \<in> mask_ids (common_mask ps sts)) \<and> c \<notin> used p \<and> ids_split st' (insert c (used p))"
proof (rule ids_split_take[OF assms(1)])
  have "ids_split (sts p) (used p)" by (rule assms(1))
  then have m: "mask_ids (context_mask (init_if_needed (sts p))) = {k. 3 \<le> k \<and> k < 1024 \<and> 4 * int k \<notin> used p}"
    by (simp add: ids_split_def)
  show "mask_ids (common_mask ps sts) \<subseteq> mask_ids (context_mask (init_if_needed (sts p)))"
    unfolding m common_mask_ids(2)[OF assms(1)] using assms(2) by blast
qed (use assms(3) common_mask_ids(1)[OF assms(1)] in \<open>simp_all add: get_contextid_on_eq\<close>)

lemma id_step_split:
  assumes "id_step s s'" "\<And>p. ids_split (id_state s p) (id_used s p)"
  shows "ids_split (id_state s' p) (id_used s' p)"
  using assms(1)
proof cases
  case (get ps)
  show ?thesis
  proof (cases "p \<in> set ps")
    case True
    let ?g = "get_contextid_on ps (id_state s) p"
    have "if mask_ids (common_mask ps (id_state s)) = {} then snd ?g = 0 \<and> ids_split (fst ?g) (id_used s p)
       else (\<exists>k. snd ?g = 4 * int k \<and> k \<in> mask_ids (common_mask ps (id_state s)))
         \<and> snd ?g \<notin> id_used s p \<and> ids_split (fst ?g) (insert (snd ?g) (id_used s p))"
      by (rule get_contextid_on_split[OF assms(2) True]) simp
    moreover have "\<exists>k. snd ?g = 4 * int k \<and> k \<in> mask_ids (common_mask ps (id_state s)) \<Longrightarrow> snd ?g \<noteq> 0"
      using common_mask_ids(2)[OF assms(2), of ps] True by auto
    ultimately show ?thesis using True get by (auto split: if_splits)
  next
    case False
    then show ?thesis using get assms(2) by simp
  qed
next
  case (free c q st)
  obtain st' where "MPIR_Free_contextid c (id_state s q) = Some st'" "ids_split st' (id_used s q - {c})"
    by (rule ids_split_free[OF assms(2) free(2)])
  then show ?thesis using free assms(2) by simp
qed

lemma ids_reachable_split: "ids_reachable s \<Longrightarrow> ids_split (id_state s p) (id_used s p)"
proof (induction arbitrary: p rule: ids_reachable.induct)
  case start
  show ?case by (simp add: start_ids_def ids_split_start)
next
  case (step s s')
  show ?case by (rule id_step_split[OF step(2) step(3)])
qed

section \<open>Getting an id\<close>

text \<open>
  C16: Whatever ids were taken and freed before, in whatever order and by whatever groups of
  processes: the processes that get an id together all get the same one; it is 0 exactly when no id
  is free in all of them, and otherwise it is a multiple of 4 that none of them is using.
\<close>

theorem MPIR_Get_contextid_fresh:
  assumes "ids_reachable s" "p \<in> set ps"
  defines "c \<equiv> snd (get_contextid_on ps (id_state s) p)"
  shows "(\<forall>q \<in> set ps. snd (get_contextid_on ps (id_state s) q) = c)
    \<and> (c = 0 \<longleftrightarrow> (\<forall>k \<in> {3..<1024}. \<exists>q \<in> set ps. 4 * int k \<in> id_used s q))
    \<and> (c \<noteq> 0 \<longrightarrow> 4 dvd c \<and> 12 \<le> c \<and> c < 4096 \<and> (\<forall>q \<in> set ps. c \<notin> id_used s q))"
proof -
  have inv: "\<And>p. ids_split (id_state s p) (id_used s p)" by (rule ids_reachable_split[OF assms(1)])
  have ids: "mask_ids (common_mask ps (id_state s)) = {k \<in> {3..<1024}. \<forall>q \<in> set ps. 4 * int k \<notin> id_used s q}"
    using common_mask_ids(2)[where sts = "id_state s" and used = "id_used s", OF inv, of ps] assms(2) by auto
  have same: "\<forall>q \<in> set ps. snd (get_contextid_on ps (id_state s) q) = c"
    unfolding c_def get_contextid_on_eq by (intro ballI find_context_same)
  have "if mask_ids (common_mask ps (id_state s)) = {} then c = 0
      else \<exists>k. c = 4 * int k \<and> k \<in> mask_ids (common_mask ps (id_state s))"
    using get_contextid_on_split[where sts = "id_state s" and used = "id_used s", OF inv assms(2),
        where st' = "fst (get_contextid_on ps (id_state s) p)" and c = c]
    by (auto simp: c_def split: if_splits)
  moreover have "mask_ids (common_mask ps (id_state s)) = {} \<longleftrightarrow> (\<forall>k \<in> {3..<1024}. \<exists>q \<in> set ps. 4 * int k \<in> id_used s q)"
    unfolding ids by auto
  ultimately show ?thesis using same assms(2) by (auto simp: ids split: if_splits)
qed

text \<open>The first id two processes get: bit 31 of the first word.\<close>

lemma MPIR_Get_contextid_fresh_witness:
  "ids_reachable start_ids \<and> snd (get_contextid_on [0, 1] (id_state start_ids) 0) = 124
     \<and> snd (get_contextid_on [0, 1] (id_state start_ids) 1) = 124 \<and> 124 \<notin> id_used start_ids 1"
proof -
  have "snd (get_contextid_on [0, 1] (id_state start_ids) 0) = 124"
    by (simp add: start_ids_def) code_simp
  then show ?thesis using MPIR_Get_contextid_fresh[OF ids_reachable.start, of 0 "[0, 1]"] ids_reachable.start by simp
qed

end
