(* ===== verification/ContextIdThreads.thy ===== *)
theory ContextIdThreads
  imports ContextId
begin

text \<open>
  \<open>MPIR_Get_contextid\<close> of src/src/mpi/comm/commutil.c in a build with threads: several threads of
  a process get context ids at a time, each on its own communicator. Only one of them has the mask,
  the others join their \<open>MPI_Allreduce\<close> with a mask of zero and try again.
\<close>

section \<open>The routine, cut where another thread can run\<close>

text \<open>
  A process's static variables. A communicator is its context id, which the routine compares.
\<close>

record thread_ids =
  tid_mask :: contextid_state
  mask_in_use :: bool
  lowestContextId :: int

abbreviation MPIR_MAXID :: int where "MPIR_MAXID \<equiv> 2 ^ 30"

definition start_thread_ids :: thread_ids where
  "start_thread_ids = \<lparr>tid_mask = start_contextid, mask_in_use = False, lowestContextId = MPIR_MAXID\<rparr>"

text \<open>The head of the loop, up to the \<open>MPI_Allreduce\<close>: whether this thread owns the mask, and its \<open>local_mask\<close>.\<close>

definition contextid_enter :: "int \<Rightarrow> thread_ids \<Rightarrow> thread_ids \<times> bool \<times> 32 word list" where
  "contextid_enter context_id st =
     (let st = st\<lparr>tid_mask := init_if_needed (tid_mask st)\<rparr> in
      if mask_in_use st \<or> context_id > lowestContextId st then
        (if context_id < lowestContextId st then st\<lparr>lowestContextId := context_id\<rparr> else st,
         False, replicate MAX_CONTEXT_MASK 0)
      else (st\<lparr>mask_in_use := True, lowestContextId := context_id\<rparr>, True, context_mask (tid_mask st)))"

text \<open>
  After the \<open>MPI_Allreduce\<close> a thread that owns the mask looks for an id. When it finds one it gives
  up the mask in the same critical section; when not, it lets the others run first.
\<close>

definition contextid_found :: "int \<Rightarrow> 32 word list \<Rightarrow> thread_ids \<Rightarrow> thread_ids \<times> int" where
  "contextid_found context_id local_mask st =
     (case MPIR_Find_context_bit local_mask (tid_mask st) of (m, new_id) \<Rightarrow>
        (let st = st\<lparr>tid_mask := m\<rparr> in
         if new_id > 0 then
           (let st = (if lowestContextId st = context_id then st\<lparr>lowestContextId := MPIR_MAXID\<rparr> else st) in
            (st\<lparr>mask_in_use := False\<rparr>, new_id))
         else (st, new_id)))"

text \<open>
  Where a thread is: not in the routine; at the head of the loop; in the \<open>MPI_Allreduce\<close>; behind it,
  with its answer; giving way to the others before it gives up the mask; returned with an id, or
  with 0 because the \<open>MPI_Allreduce\<close> failed, which leaves \<open>mask_in_use\<close> set.
\<close>

datatype phase =
    Idle
  | Loop
  | Waiting (own_mask: bool) (local_mask: "32 word list")
  | Reduced (own_mask: bool) (local_mask: "32 word list")
  | Releasing
  | Done int
  | Failed

text \<open>
  The processes of the job, the thread of each that works on a communicator, and the ids in use.
  Whoever is in a communicator is an argument.
\<close>

record tid_world =
  tid_proc :: "nat \<Rightarrow> thread_ids"
  tid_phase :: "nat \<Rightarrow> int \<Rightarrow> phase"
  tid_used :: "nat \<Rightarrow> int set"

definition start_tids :: tid_world where
  "start_tids = \<lparr>tid_proc = (\<lambda>_. start_thread_ids), tid_phase = (\<lambda>_ _. Idle), tid_used = (\<lambda>_. {})\<rparr>"

definition set_phase :: "nat \<Rightarrow> int \<Rightarrow> phase \<Rightarrow> tid_world \<Rightarrow> tid_world" where
  "set_phase p c ph s = s\<lparr>tid_phase := (tid_phase s)(p := (tid_phase s p)(c := ph))\<rparr>"

definition set_proc :: "nat \<Rightarrow> thread_ids \<Rightarrow> tid_world \<Rightarrow> tid_world" where
  "set_proc p st s = s\<lparr>tid_proc := (tid_proc s)(p := st)\<rparr>"

datatype action = Call nat int | Run nat int | Allreduce int | Fail nat int | Free nat int

fun phase_step :: "nat \<Rightarrow> int \<Rightarrow> phase \<Rightarrow> tid_world \<Rightarrow> tid_world option" where
  "phase_step p c Loop s =
     (case contextid_enter c (tid_proc s p) of (st, own, m) \<Rightarrow> Some (set_phase p c (Waiting own m) (set_proc p st s)))"
| "phase_step p c (Reduced own m) s =
     (if own then
        (case contextid_found c m (tid_proc s p) of (st, new_id) \<Rightarrow>
           if new_id > 0 then
             Some ((set_phase p c (Done new_id) (set_proc p st s))
                     \<lparr>tid_used := (tid_used s)(p := insert new_id (tid_used s p))\<rparr>)
           else Some (set_phase p c Releasing (set_proc p st s)))
      else Some (set_phase p c Loop s))"
| "phase_step p c Releasing s =
     Some (set_phase p c Loop (set_proc p ((tid_proc s p)\<lparr>mask_in_use := False\<rparr>) s))"
| "phase_step p c _ s = None"

text \<open>
  The steps: a process of the communicator calls the routine; its thread runs; an \<open>MPI_Allreduce\<close>
  all of whose processes have joined answers the \<open>MPI_BAND\<close> of their masks; or fails in a process; a
  process frees an id.
\<close>

fun tid_do :: "(int \<Rightarrow> nat list) \<Rightarrow> action \<Rightarrow> tid_world \<Rightarrow> tid_world option" where
  "tid_do members (Call p c) s =
     (if p \<in> set (members c) then
        (case tid_phase s p c of
           Idle \<Rightarrow> Some (set_phase p c Loop s)
         | Done _ \<Rightarrow> Some (set_phase p c Loop s)
         | Failed \<Rightarrow> Some (set_phase p c Loop s)
         | _ \<Rightarrow> None)
      else None)"
| "tid_do members (Run p c) s = phase_step p c (tid_phase s p c) s"
| "tid_do members (Allreduce c) s =
     (if list_all (\<lambda>p. is_Waiting (tid_phase s p c)) (members c) then
        (let m = band_masks (map (\<lambda>p. local_mask (tid_phase s p c)) (members c)) in
         Some (s\<lparr>tid_phase := (\<lambda>p c'. if c' = c \<and> p \<in> set (members c)
           then Reduced (own_mask (tid_phase s p c)) m else tid_phase s p c')\<rparr>))
      else None)"
| "tid_do members (Fail p c) s =
     (if is_Waiting (tid_phase s p c) then Some (set_phase p c Failed s) else None)"
| "tid_do members (Free p i) s =
     (if i \<in> tid_used s p then
        (case MPIR_Free_contextid i (tid_mask (tid_proc s p)) of
           None \<Rightarrow> None
         | Some m \<Rightarrow> Some ((set_proc p ((tid_proc s p)\<lparr>tid_mask := m\<rparr>) s)
                        \<lparr>tid_used := (tid_used s)(p := tid_used s p - {i})\<rparr>))
      else None)"

inductive tids_reachable :: "(int \<Rightarrow> nat list) \<Rightarrow> tid_world \<Rightarrow> bool" for members where
  start: "tids_reachable members start_tids"
| step: "tids_reachable members s \<Longrightarrow> tid_do members a s = Some s' \<Longrightarrow> tids_reachable members s'"

section \<open>The invariant\<close>

text \<open>
  A thread owns the mask of its process until it gives it up; the mask it brought to the
  \<open>MPI_Allreduce\<close>, and what comes back, then lies within the process's own, and is empty otherwise.
\<close>

fun owns :: "phase \<Rightarrow> bool" where
  "owns (Waiting own m) = own"
| "owns (Reduced own m) = own"
| "owns Releasing = True"
| "owns _ = False"

fun phase_ok :: "contextid_state \<Rightarrow> phase \<Rightarrow> bool" where
  "phase_ok st (Waiting own m) \<longleftrightarrow> length m = 32 \<and> mask_ids m \<subseteq> (if own then mask_ids (context_mask st) else {})"
| "phase_ok st (Reduced own m) \<longleftrightarrow> length m = 32 \<and> mask_ids m \<subseteq> (if own then mask_ids (context_mask st) else {})"
| "phase_ok st _ = True"

text \<open>The id a mask leads to, and what the threads on one communicator agree on.\<close>

definition found_id :: "32 word list \<Rightarrow> int" where
  "found_id m = snd (MPIR_Find_context_bit m start_contextid)"

fun agree :: "phase \<Rightarrow> phase \<Rightarrow> bool" where
  "agree (Reduced _ m) (Reduced _ m') = (m = m')"
| "agree (Reduced _ m) (Done i) = (i = found_id m \<and> i > 0)"
| "agree (Done i) (Reduced _ m) = (i = found_id m \<and> i > 0)"
| "agree (Done i) (Done j) = (i = j)"
| "agree _ _ = True"

definition tid_inv :: "(int \<Rightarrow> nat list) \<Rightarrow> tid_world \<Rightarrow> bool" where
  "tid_inv members s \<longleftrightarrow>
     (\<forall>p. ids_split (tid_mask (tid_proc s p)) (tid_used s p))
   \<and> (\<forall>p c. phase_ok (tid_mask (tid_proc s p)) (tid_phase s p c))
   \<and> (\<forall>p c. owns (tid_phase s p c) \<longrightarrow> mask_in_use (tid_proc s p)
        \<and> \<not> initialize_context_mask (tid_mask (tid_proc s p)))
   \<and> (\<forall>p c c'. owns (tid_phase s p c) \<longrightarrow> owns (tid_phase s p c') \<longrightarrow> c = c')
   \<and> (\<forall>p c. tid_phase s p c \<noteq> Idle \<longrightarrow> p \<in> set (members c))
   \<and> (\<forall>p q c. p \<noteq> q \<longrightarrow> agree (tid_phase s p c) (tid_phase s q c))"

lemma tid_invD:
  assumes "tid_inv members s"
  shows "ids_split (tid_mask (tid_proc s p)) (tid_used s p)"
    "phase_ok (tid_mask (tid_proc s p)) (tid_phase s p c)"
    "owns (tid_phase s p c) \<Longrightarrow> mask_in_use (tid_proc s p)"
    "owns (tid_phase s p c) \<Longrightarrow> \<not> initialize_context_mask (tid_mask (tid_proc s p))"
    "owns (tid_phase s p c) \<Longrightarrow> owns (tid_phase s p c') \<Longrightarrow> c = c'"
    "tid_phase s p c \<noteq> Idle \<Longrightarrow> p \<in> set (members c)"
    "p \<noteq> q \<Longrightarrow> agree (tid_phase s p c) (tid_phase s q c)"
  using assms unfolding tid_inv_def by blast+

lemma agree_sym: "agree a b \<longleftrightarrow> agree b a"
  by (cases a; cases b) auto

lemma phase_ok_mono:
  "phase_ok st ph \<Longrightarrow> (owns ph \<Longrightarrow> mask_ids (context_mask st) \<subseteq> mask_ids (context_mask st')) \<Longrightarrow> phase_ok st' ph"
  by (cases ph) (simp_all split: if_splits, blast+)

lemma tid_inv_start: "tid_inv members start_tids"
  by (simp add: tid_inv_def start_tids_def start_thread_ids_def ids_split_start)

text \<open>A step of one process: what has to be shown of its thread, the other threads and the other processes.\<close>

definition move :: "nat \<Rightarrow> int \<Rightarrow> phase \<Rightarrow> thread_ids \<Rightarrow> int set \<Rightarrow> tid_world \<Rightarrow> tid_world" where
  "move p c ph st u s = s\<lparr>tid_proc := (tid_proc s)(p := st),
     tid_phase := (tid_phase s)(p := (tid_phase s p)(c := ph)), tid_used := (tid_used s)(p := u)\<rparr>"

lemma move_simps:
  "tid_proc (move p c ph st u s) q = (if q = p then st else tid_proc s q)"
  "tid_phase (move p c ph st u s) q d = (if q = p \<and> d = c then ph else tid_phase s q d)"
  "tid_used (move p c ph st u s) q = (if q = p then u else tid_used s q)"
  by (simp_all add: move_def)

lemma tid_inv_move:
  assumes inv: "tid_inv members s"
    and split: "ids_split (tid_mask st) u"
    and ok: "phase_ok (tid_mask st) ph"
    and own: "owns ph \<Longrightarrow> mask_in_use st \<and> \<not> initialize_context_mask (tid_mask st) \<and> (\<forall>d. d \<noteq> c \<longrightarrow> \<not> owns (tid_phase s p d))"
    and other: "\<And>d. d \<noteq> c \<Longrightarrow> owns (tid_phase s p d) \<Longrightarrow> mask_in_use st \<and> \<not> initialize_context_mask (tid_mask st)
      \<and> mask_ids (context_mask (tid_mask (tid_proc s p))) \<subseteq> mask_ids (context_mask (tid_mask st))"
    and mem: "ph \<noteq> Idle \<Longrightarrow> p \<in> set (members c)"
    and agr: "\<And>q. q \<noteq> p \<Longrightarrow> agree ph (tid_phase s q c)"
  shows "tid_inv members (move p c ph st u s)"
proof -
  let ?s = "move p c ph st u s"
  have "ids_split (tid_mask (tid_proc ?s q)) (tid_used ?s q)" for q
    using split tid_invD(1)[OF inv] by (simp add: move_simps)
  moreover have "phase_ok (tid_mask (tid_proc ?s q)) (tid_phase ?s q d)" for q d
  proof (cases "q = p \<and> d \<noteq> c")
    case True
    then show ?thesis using phase_ok_mono[OF tid_invD(2)[OF inv, of p d]] other[of d] by (simp add: move_simps)
  next
    case False
    then show ?thesis using ok tid_invD(2)[OF inv] by (auto simp: move_simps)
  qed
  moreover have "owns (tid_phase ?s q d) \<Longrightarrow> mask_in_use (tid_proc ?s q)
      \<and> \<not> initialize_context_mask (tid_mask (tid_proc ?s q))" for q d
    using own other[of d] tid_invD(3,4)[OF inv, of q d] by (auto simp: move_simps split: if_splits)
  moreover have "owns (tid_phase ?s q d) \<Longrightarrow> owns (tid_phase ?s q d') \<Longrightarrow> d = d'" for q d d'
    using own tid_invD(5)[OF inv, of q d d'] by (auto simp: move_simps split: if_splits)
  moreover have "tid_phase ?s q d \<noteq> Idle \<Longrightarrow> q \<in> set (members d)" for q d
    using mem tid_invD(6)[OF inv, of q d] by (auto simp: move_simps split: if_splits)
  moreover have "q \<noteq> q' \<Longrightarrow> agree (tid_phase ?s q d) (tid_phase ?s q' d)" for q q' d
    using agr tid_invD(7)[OF inv, of q q' d] agree_sym[of ph] by (auto simp: move_simps)
  ultimately show ?thesis unfolding tid_inv_def by blast
qed

lemma set_phase_move: "set_phase p c ph s = move p c ph (tid_proc s p) (tid_used s p) s"
  by (simp add: set_phase_def move_def)

lemma set_phase_proc_move: "set_phase p c ph (set_proc p st s) = move p c ph st (tid_used s p) s"
  by (simp add: set_phase_def set_proc_def move_def)

lemma found_move:
  "(move p c ph st u' s)\<lparr>tid_used := (tid_used s)(p := u)\<rparr> = move p c ph st u s"
  by (simp add: move_def)

lemma ids_split_init: "ids_split st u \<Longrightarrow> ids_split (init_if_needed st) u"
  by (simp add: ids_split_def init_if_needed_id)

text \<open>A thread that neither has the mask nor takes it.\<close>

lemma tid_inv_set_phase:
  assumes "tid_inv members s" "\<not> owns ph" "phase_ok (tid_mask (tid_proc s p)) ph" "p \<in> set (members c)"
    "\<And>q. q \<noteq> p \<Longrightarrow> agree ph (tid_phase s q c)"
  shows "tid_inv members (set_phase p c ph s)"
  unfolding set_phase_move
  by (rule tid_inv_move[OF assms(1)]) (use assms tid_invD[OF assms(1)] in auto)

lemma tid_inv_enter:
  assumes inv: "tid_inv members s" and ph: "tid_phase s p c = Loop"
    and e: "contextid_enter c (tid_proc s p) = (st, own, m)"
  shows "tid_inv members (set_phase p c (Waiting own m) (set_proc p st s))"
  unfolding set_phase_proc_move
proof (rule tid_inv_move[OF inv])
  let ?st = "tid_proc s p"
  have st: "tid_mask st = init_if_needed (tid_mask ?st)"
    using e by (auto simp: contextid_enter_def Let_def split: if_splits)
  have own: "own \<Longrightarrow> mask_in_use st \<and> \<not> mask_in_use ?st \<and> m = context_mask (tid_mask st)"
    "\<not> own \<Longrightarrow> mask_in_use st = mask_in_use ?st \<and> m = replicate 32 0"
    using e by (auto simp: contextid_enter_def Let_def split: if_splits)
  show split: "ids_split (tid_mask st) (tid_used s p)"
    unfolding st by (rule ids_split_init[OF tid_invD(1)[OF inv]])
  have "length (context_mask (tid_mask st)) = 32" using split by (simp add: st ids_split_def init_if_needed_id)
  moreover have "mask_ids (replicate 32 0) = {}" by (auto simp: mask_ids_def less_mult_imp_div_less mult.commute)
  ultimately show "phase_ok (tid_mask st) (Waiting own m)" using own by auto
  show "mask_in_use st \<and> \<not> initialize_context_mask (tid_mask st) \<and> (\<forall>d. d \<noteq> c \<longrightarrow> \<not> owns (tid_phase s p d))"
    if "owns (Waiting own m)"
    using that own(1) tid_invD(3)[OF inv] by (auto simp: st)
  show "mask_in_use st \<and> \<not> initialize_context_mask (tid_mask st)
      \<and> mask_ids (context_mask (tid_mask ?st)) \<subseteq> mask_ids (context_mask (tid_mask st))"
    if "owns (tid_phase s p d)" for d
    using tid_invD(3,4)[OF inv that] own by (auto simp: st init_if_needed_id)
  show "p \<in> set (members c)" using tid_invD(6)[OF inv, of p c] ph by simp
  show "agree (Waiting own m) (tid_phase s q c)" for q by (cases "tid_phase s q c") simp_all
qed

lemma find_found_id: "MPIR_Find_context_bit m st = (st', i) \<Longrightarrow> i = found_id m"
  using find_context_same[of m st start_contextid] by (simp add: found_id_def)

text \<open>What a thread with the mask finds: an id free here, as long as the mask it got has any.\<close>

lemma contextid_found_spec:
  assumes inv: "tid_inv members s" and ph: "tid_phase s p c = Reduced True m"
    and f: "contextid_found c m (tid_proc s p) = (st, i)"
  shows "i = found_id m" "if mask_ids m = {} then i = 0 else i > 0 \<and> i \<notin> tid_used s p"
    "ids_split (tid_mask st) (if i > 0 then insert i (tid_used s p) else tid_used s p)"
    "i = 0 \<Longrightarrow> st = tid_proc s p" "i > 0 \<Longrightarrow> \<not> mask_in_use st" "\<not> initialize_context_mask (tid_mask st)"
proof -
  let ?st = "tid_proc s p"
  have m: "length m = 32" "mask_ids m \<subseteq> mask_ids (context_mask (tid_mask ?st))"
    using tid_invD(2)[OF inv, of p c] ph by simp_all
  have n: "\<not> initialize_context_mask (tid_mask ?st)" using tid_invD(4)[OF inv, of p c] ph by simp
  obtain x where x: "MPIR_Find_context_bit m (tid_mask ?st) = (x, i)" "tid_mask st = x"
    using f by (auto simp: contextid_found_def Let_def split: prod.splits if_splits)
  show i: "i = found_id m" by (rule find_found_id[OF x(1)])
  have "if mask_ids m = {} then i = 0 \<and> ids_split x (tid_used s p)
      else (\<exists>k. i = 4 * int k \<and> k \<in> mask_ids m) \<and> i \<notin> tid_used s p \<and> ids_split x (insert i (tid_used s p))"
    by (rule ids_split_take[OF tid_invD(1)[OF inv]]) (use m n x in \<open>simp_all add: init_if_needed_id\<close>)
  moreover have "k > 0" if "k \<in> mask_ids m" for k
    using that m(2) tid_invD(1)[OF inv, of p] by (auto simp: ids_split_def init_if_needed_id[OF n])
  ultimately show r: "if mask_ids m = {} then i = 0 else i > 0 \<and> i \<notin> tid_used s p"
    "ids_split (tid_mask st) (if i > 0 then insert i (tid_used s p) else tid_used s p)"
    using x(2) by (auto split: if_splits)
  show "i > 0 \<Longrightarrow> \<not> mask_in_use st"
    using f by (auto simp: contextid_found_def Let_def split: prod.splits if_splits)
  have x': "x = (tid_mask ?st)\<lparr>context_mask := context_mask x\<rparr>"
    using x(1) by (auto simp: MPIR_Find_context_bit_def split: prod.splits)
  then have "initialize_context_mask x = initialize_context_mask (tid_mask ?st)"
    by (metis contextid_state.select_convs(2) contextid_state.surjective contextid_state.update_convs(1))
  then show "\<not> initialize_context_mask (tid_mask st)" using n x(2) by simp
  show "st = ?st" if "i = 0"
  proof -
    have "mask_ids m = {}" using r(1) that by (auto split: if_splits)
    then have "x = tid_mask ?st"
      using find_context_spec[OF m(1), of "tid_mask ?st"] x(1) tid_invD(1)[OF inv, of p]
      by (auto simp: ids_split_def init_if_needed_id[OF n])
    then show ?thesis using f x(1) that by (auto simp: contextid_found_def Let_def split: if_splits)
  qed
qed

lemma agree_Reduced_Done: "agree (Reduced own m) ph \<Longrightarrow> found_id m > 0 \<Longrightarrow> agree (Done (found_id m)) ph"
  by (cases ph) simp_all

lemma agree_plain: "ph \<in> {Idle, Loop, Releasing, Failed} \<Longrightarrow> agree ph ph'"
  by (cases ph') auto

lemma tid_inv_found:
  assumes inv: "tid_inv members s" and ph: "tid_phase s p c = Reduced True m"
    and f: "contextid_found c m (tid_proc s p) = (st, i)"
  shows "tid_inv members (move p c (if i > 0 then Done i else Releasing) st
    (if i > 0 then insert i (tid_used s p) else tid_used s p) s)"
proof (rule tid_inv_move[OF inv])
  note spec = contextid_found_spec[OF assms]
  have o: "\<not> owns (tid_phase s p d)" if "d \<noteq> c" for d
    using tid_invD(5)[OF inv, of p d c] ph that by auto
  have z: "i = 0 \<or> i > 0" using spec(2) by (auto split: if_splits)
  show "ids_split (tid_mask st) (if i > 0 then insert i (tid_used s p) else tid_used s p)" by (rule spec(3))
  show "phase_ok (tid_mask st) (if i > 0 then Done i else Releasing)" by simp
  show "mask_in_use st \<and> \<not> initialize_context_mask (tid_mask st) \<and> (\<forall>d. d \<noteq> c \<longrightarrow> \<not> owns (tid_phase s p d))"
    if "owns (if i > 0 then Done i else Releasing)"
    using that z o spec(4,6) tid_invD(3)[OF inv, of p c] ph by (auto split: if_splits)
  show "mask_in_use st \<and> \<not> initialize_context_mask (tid_mask st)
      \<and> mask_ids (context_mask (tid_mask (tid_proc s p))) \<subseteq> mask_ids (context_mask (tid_mask st))"
    if "d \<noteq> c" "owns (tid_phase s p d)" for d using o that by simp
  show "p \<in> set (members c)" using tid_invD(6)[OF inv, of p c] ph by simp
  show "agree (if i > 0 then Done i else Releasing) (tid_phase s q c)" if "q \<noteq> p" for q
    using tid_invD(7)[OF inv, of p q c] that ph spec(1) by (auto simp: agree_Reduced_Done agree_plain)
qed

lemma tid_inv_release:
  assumes inv: "tid_inv members s" and ph: "tid_phase s p c = Releasing"
  shows "tid_inv members (move p c Loop ((tid_proc s p)\<lparr>mask_in_use := False\<rparr>) (tid_used s p) s)"
proof (rule tid_inv_move[OF inv])
  have "\<not> owns (tid_phase s p d)" if "d \<noteq> c" for d
    using tid_invD(5)[OF inv, of p d c] ph that by auto
  then show "mask_in_use ((tid_proc s p)\<lparr>mask_in_use := False\<rparr>)
      \<and> \<not> initialize_context_mask (tid_mask ((tid_proc s p)\<lparr>mask_in_use := False\<rparr>))
      \<and> mask_ids (context_mask (tid_mask (tid_proc s p)))
        \<subseteq> mask_ids (context_mask (tid_mask ((tid_proc s p)\<lparr>mask_in_use := False\<rparr>)))"
    if "d \<noteq> c" "owns (tid_phase s p d)" for d using that by blast
  show "p \<in> set (members c)" using tid_invD(6)[OF inv, of p c] ph by simp
qed (use tid_invD(1)[OF inv] in \<open>simp_all add: agree_plain\<close>)

lemma tid_inv_run:
  assumes inv: "tid_inv members s" and r: "phase_step p c (tid_phase s p c) s = Some s'"
  shows "tid_inv members s'"
proof (cases "tid_phase s p c")
  case Loop
  then show ?thesis using r tid_inv_enter[OF inv Loop] by (auto split: prod.splits)
next
  case (Reduced own m)
  show ?thesis
  proof (cases own)
    case True
    obtain st i where f: "contextid_found c m (tid_proc s p) = (st, i)" by fastforce
    then show ?thesis using r Reduced True tid_inv_found[OF inv _ f]
      by (auto simp: set_phase_proc_move found_move split: if_splits)
  next
    case False
    have "p \<in> set (members c)" using tid_invD(6)[OF inv, of p c] Reduced by simp
    then show ?thesis using r Reduced False tid_inv_set_phase[OF inv, of Loop p c] by (simp add: agree_plain)
  qed
next
  case Releasing
  then show ?thesis using r tid_inv_release[OF inv Releasing] by (simp add: set_phase_proc_move)
qed (use r in simp_all)

lemma tid_inv_allreduce:
  assumes inv: "tid_inv members s" and w: "list_all (\<lambda>p. is_Waiting (tid_phase s p c)) (members c)"
    and m: "m = band_masks (map (\<lambda>p. local_mask (tid_phase s p c)) (members c))"
  shows "tid_inv members (s\<lparr>tid_phase := (\<lambda>p c'. if c' = c \<and> p \<in> set (members c)
     then Reduced (own_mask (tid_phase s p c)) m else tid_phase s p c')\<rparr>)" (is "tid_inv members ?s")
proof -
  have wait: "tid_phase s p c = Waiting (own_mask (tid_phase s p c)) (local_mask (tid_phase s p c))"
    if "p \<in> set (members c)" for p using that w by (cases "tid_phase s p c") (auto simp: list_all_iff)
  have ok: "length (local_mask (tid_phase s p c)) = 32"
    "mask_ids (local_mask (tid_phase s p c))
       \<subseteq> (if own_mask (tid_phase s p c) then mask_ids (context_mask (tid_mask (tid_proc s p))) else {})"
    if "p \<in> set (members c)" for p
    using tid_invD(2)[OF inv, of p c] wait[OF that] by (metis phase_ok.simps(1))+
  then have len: "\<forall>m \<in> set (map (\<lambda>p. local_mask (tid_phase s p c)) (members c)). length m = 32" by simp
  have sub: "mask_ids m \<subseteq> mask_ids (local_mask (tid_phase s p c))" if "p \<in> set (members c)" for p
    using that by (auto simp: m mask_ids_band[OF len])
  have "own_mask (tid_phase s p c) = owns (tid_phase s p c)" if "p \<in> set (members c)" for p
    using wait[OF that] by (metis owns.simps(1))
  then have own: "owns (tid_phase ?s p d) = owns (tid_phase s p d)" for p d by simp
  have "phase_ok (tid_mask (tid_proc ?s p)) (tid_phase ?s p d)" for p d
  proof (cases "d = c \<and> p \<in> set (members c)")
    case True
    then show ?thesis using ok(2)[of p] sub[of p] band_masks_length[OF len] by (auto simp: m)
  next
    case False
    then show ?thesis using tid_invD(2)[OF inv, of p d] by auto
  qed
  moreover have "tid_phase ?s p d \<noteq> Idle \<Longrightarrow> p \<in> set (members d)" for p d
    using tid_invD(6)[OF inv, of p d] by (auto split: if_splits)
  moreover have "p \<noteq> q \<Longrightarrow> agree (tid_phase ?s p d) (tid_phase ?s q d)" for p q d
  proof -
    assume "p \<noteq> q"
    have "tid_phase s p' c = Idle" if "p' \<notin> set (members c)" for p' using tid_invD(6)[OF inv] that by blast
    moreover have "agree (Reduced b m) Idle" for b by simp
    ultimately show ?thesis using tid_invD(7)[OF inv \<open>p \<noteq> q\<close>, of d] by (simp add: agree_sym[of Idle])
  qed
  moreover have "ids_split (tid_mask (tid_proc ?s p)) (tid_used ?s p)" for p using tid_invD(1)[OF inv] by simp
  moreover have "owns (tid_phase ?s p d) \<Longrightarrow> mask_in_use (tid_proc ?s p)
      \<and> \<not> initialize_context_mask (tid_mask (tid_proc ?s p))" for p d
    unfolding own using tid_invD(3,4)[OF inv] by simp
  moreover have "owns (tid_phase ?s p d) \<Longrightarrow> owns (tid_phase ?s p d') \<Longrightarrow> d = d'" for p d d'
    unfolding own by (rule tid_invD(5)[OF inv])
  ultimately show ?thesis unfolding tid_inv_def by blast
qed

lemma tid_inv_free:
  assumes inv: "tid_inv members s" and i: "i \<in> tid_used s p"
    and f: "MPIR_Free_contextid i (tid_mask (tid_proc s p)) = Some m"
  shows "tid_inv members (move p c (tid_phase s p c) ((tid_proc s p)\<lparr>tid_mask := m\<rparr>) (tid_used s p - {i}) s)"
proof (rule tid_inv_move[OF inv])
  let ?st = "tid_proc s p"
  note split = tid_invD(1)[OF inv, of p]
  obtain k where k: "i = 4 * int k" "k < 1024" "\<not> initialize_context_mask (tid_mask ?st)"
    using split i unfolding ids_split_def by blast
  then have "length (context_mask (tid_mask ?st)) = 32" using split by (simp add: ids_split_def init_if_needed_id)
  then obtain cm where cm: "m = (tid_mask ?st)\<lparr>context_mask := cm\<rparr>"
      "mask_ids cm = insert k (mask_ids (context_mask (tid_mask ?st)))"
    using free_context_spec[OF k(2), of "tid_mask ?st"] f k(1) by auto
  have s: "ids_split m (tid_used s p - {i})" using ids_split_free[OF split i] f by auto
  then show "ids_split (tid_mask (?st\<lparr>tid_mask := m\<rparr>)) (tid_used s p - {i})" by simp
  show "phase_ok (tid_mask (?st\<lparr>tid_mask := m\<rparr>)) (tid_phase s p c)"
    using phase_ok_mono[OF tid_invD(2)[OF inv, of p c], of m] cm by auto
  show "mask_in_use (?st\<lparr>tid_mask := m\<rparr>) \<and> \<not> initialize_context_mask (tid_mask (?st\<lparr>tid_mask := m\<rparr>))
      \<and> mask_ids (context_mask (tid_mask (tid_proc s p)))
        \<subseteq> mask_ids (context_mask (tid_mask (?st\<lparr>tid_mask := m\<rparr>)))" if "owns (tid_phase s p d)" for d
    using tid_invD(3)[OF inv that] k(3) cm by auto
  show "mask_in_use (?st\<lparr>tid_mask := m\<rparr>) \<and> \<not> initialize_context_mask (tid_mask (?st\<lparr>tid_mask := m\<rparr>))
      \<and> (\<forall>d. d \<noteq> c \<longrightarrow> \<not> owns (tid_phase s p d))" if "owns (tid_phase s p c)"
    using tid_invD(3)[OF inv that] tid_invD(5)[OF inv that] k(3) cm by auto
qed (use tid_invD(6,7)[OF inv] in auto)

lemma free_move:
  "(set_proc p st s)\<lparr>tid_used := (tid_used s)(p := u)\<rparr> = move p c (tid_phase s p c) st u s"
  by (simp add: set_proc_def move_def)

lemma tid_inv_step:
  assumes inv: "tid_inv members s" and d: "tid_do members a s = Some s'"
  shows "tid_inv members s'"
proof (cases a)
  case (Call p c)
  have "agree Loop (tid_phase s q c)" for q by (simp add: agree_plain)
  then show ?thesis using d Call tid_inv_set_phase[OF inv, of Loop p c]
    by (auto split: if_splits phase.splits)
next
  case (Run p c)
  then show ?thesis using d tid_inv_run[OF inv] by simp
next
  case (Allreduce c)
  then show ?thesis using d tid_inv_allreduce[OF inv] by (auto simp: Let_def split: if_splits)
next
  case (Fail p c)
  have "agree Failed (tid_phase s q c)" for q by (simp add: agree_plain)
  moreover have "is_Waiting (tid_phase s p c) \<Longrightarrow> p \<in> set (members c)" using tid_invD(6)[OF inv, of p c] by auto
  ultimately show ?thesis using d Fail tid_inv_set_phase[OF inv, of Failed p c] by (auto split: if_splits)
next
  case (Free p i)
  then show ?thesis using d tid_inv_free[OF inv] free_move[where c = 0]
    by (auto split: if_splits option.splits)
qed

lemma tids_reachable_inv: "tids_reachable members s \<Longrightarrow> tid_inv members s"
  by (induction rule: tids_reachable.induct) (auto intro: tid_inv_start tid_inv_step)

section \<open>What the threads get\<close>

text \<open>An answer that leads to an id is one for a thread with the mask of a process that does not use the id.\<close>

lemma answer_with_id:
  assumes inv: "tid_inv members s" and ph: "tid_phase s p c = Reduced own m" and "found_id m > 0"
  shows "own" "found_id m \<notin> tid_used s p"
proof -
  have m: "length m = 32" "mask_ids m \<subseteq> (if own then mask_ids (context_mask (tid_mask (tid_proc s p))) else {})"
    using tid_invD(2)[OF inv, of p c] ph by simp_all
  let ?x = "init_if_needed (tid_mask (tid_proc s p))"
  have "length (context_mask ?x) = 32" using tid_invD(1)[OF inv, of p] by (simp add: ids_split_def)
  from find_context_spec[OF m(1) this] have "mask_ids m = {} \<Longrightarrow> snd (MPIR_Find_context_bit m ?x) = 0"
    by (metis empty_iff snd_conv)
  then have "found_id m = 0" if "mask_ids m = {}" using that find_context_same[of m ?x start_contextid] by (simp add: found_id_def)
  then show own using m(2) assms(3) by (cases own) auto
  then have ph': "tid_phase s p c = Reduced True m" using ph by simp
  obtain st i where "contextid_found c m (tid_proc s p) = (st, i)" by fastforce
  note spec = contextid_found_spec[OF inv ph' this]
  show "found_id m \<notin> tid_used s p" using spec(1,2) assms(3) by (auto split: if_splits)
qed

text \<open>
  C17: However the threads of all processes interleave: the threads of one communicator that have
  returned with an id have returned with the same one, and at most one thread of a process has its mask.
  An \<open>MPI_Allreduce\<close> whose answer leads to an id is one in which the thread of every process had the mask
  of its process, and the id is used in none of them. When a thread returns with an id, no communicator
  of its process uses it, and every other thread of the communicator has returned with it, or will: it
  has the same answer and the mask of a process that does not use the id.
\<close>

theorem threads_agree_on_fresh_id:
  assumes "tids_reachable members s"
  shows "(tid_phase s p c = Done i \<and> tid_phase s q c = Done j \<longrightarrow> i = j)
    \<and> (owns (tid_phase s p c) \<and> owns (tid_phase s p d) \<longrightarrow> c = d)
    \<and> (tid_do members (Run p c) s = Some s' \<and> tid_phase s' p c = Done i \<longrightarrow>
        i > 0 \<and> i \<notin> tid_used s p \<and> tid_used s' p = insert i (tid_used s p)
        \<and> (\<forall>q m own. (tid_phase s q c = Done j \<longrightarrow> j = i)
            \<and> (tid_phase s q c = Reduced own m \<longrightarrow> own \<and> found_id m = i \<and> i \<notin> tid_used s q)))
    \<and> (tid_do members (Allreduce c) s = Some s' \<and> p \<in> set (members c) \<and> tid_phase s' p c = Reduced own' m' \<and> found_id m' > 0 \<longrightarrow>
        (\<forall>q \<in> set (members c). tid_phase s' q c = Reduced True m' \<and> found_id m' \<notin> tid_used s' q))"
proof (intro conjI impI)
  note inv = tids_reachable_inv[OF assms]
  show "i = j" if "tid_phase s p c = Done i \<and> tid_phase s q c = Done j"
    using that tid_invD(7)[OF inv, of p q c] by (cases "p = q") auto
  show "c = d" if "owns (tid_phase s p c) \<and> owns (tid_phase s p d)"
    using that tid_invD(5)[OF inv] by blast
  assume r: "tid_do members (Run p c) s = Some s' \<and> tid_phase s' p c = Done i"
  then obtain m where m: "tid_phase s p c = Reduced True m"
    by (cases "tid_phase s p c") (auto simp: set_phase_proc_move set_phase_move move_simps split: prod.splits if_splits)
  obtain st i' where f: "contextid_found c m (tid_proc s p) = (st, i')" by fastforce
  with r m have s': "i' > 0" "s' = move p c (Done i') st (insert i' (tid_used s p)) s"
    by (auto simp: set_phase_proc_move found_move move_simps split: if_splits)
  with r have "i' = i" by (simp add: move_simps)
  note spec = contextid_found_spec[OF inv m f, unfolded this]
  show "i > 0" "i \<notin> tid_used s p" using spec(2) s'(1) \<open>i' = i\<close> by (auto split: if_splits)
  show "tid_used s' p = insert i (tid_used s p)" using s'(2) \<open>i' = i\<close> by (simp add: move_simps)
  show "\<forall>q m own. (tid_phase s q c = Done j \<longrightarrow> j = i)
      \<and> (tid_phase s q c = Reduced own m \<longrightarrow> own \<and> found_id m = i \<and> i \<notin> tid_used s q)"
  proof (intro allI conjI impI)
    fix q m' own
    show "tid_phase s q c = Done j \<Longrightarrow> j = i" using tid_invD(7)[OF inv, of p q c] m spec(1) by (cases "p = q"; auto)
    show f: "found_id m' = i" if "tid_phase s q c = Reduced own m'" for m'
      using that tid_invD(7)[OF inv, of p q c] m spec(1) by (cases "p = q"; auto)
    show "own" "i \<notin> tid_used s q" if "tid_phase s q c = Reduced own m'"
      using answer_with_id[OF inv that] f[OF that] s'(1) \<open>i' = i\<close> by simp_all
  qed
next
  note inv = tids_reachable_inv[OF assms]
  assume r: "tid_do members (Allreduce c) s = Some s' \<and> p \<in> set (members c) \<and> tid_phase s' p c = Reduced own' m' \<and> found_id m' > 0"
  have inv': "tid_inv members s'" by (rule tid_inv_step[OF inv]) (use r in blast)
  show "\<forall>q \<in> set (members c). tid_phase s' q c = Reduced True m' \<and> found_id m' \<notin> tid_used s' q"
  proof
    fix q assume q: "q \<in> set (members c)"
    let ?m = "band_masks (map (\<lambda>p. local_mask (tid_phase s p c)) (members c))"
    have s': "s' = s\<lparr>tid_phase := (\<lambda>p c'. if c' = c \<and> p \<in> set (members c)
        then Reduced (own_mask (tid_phase s p c)) ?m else tid_phase s p c')\<rparr>"
      using conjunct1[OF r] by (simp add: Let_def split: if_splits)
    have ph': "tid_phase s' x c = Reduced (own_mask (tid_phase s x c)) ?m" if "x \<in> set (members c)" for x
      using that by (simp add: s')
    have "m' = ?m" using ph'[of p] r by simp
    then have ph: "tid_phase s' q c = Reduced (own_mask (tid_phase s q c)) m'" using ph'[OF q] by simp
    with answer_with_id[OF inv' ph] r show "tid_phase s' q c = Reduced True m' \<and> found_id m' \<notin> tid_used s' q" by simp
  qed
qed

fun tid_run :: "(int \<Rightarrow> nat list) \<Rightarrow> action list \<Rightarrow> tid_world \<Rightarrow> tid_world option" where
  "tid_run members [] s = Some s"
| "tid_run members (a # as) s = (case tid_do members a s of None \<Rightarrow> None | Some s' \<Rightarrow> tid_run members as s')"

lemma tid_run_reachable: "tids_reachable members s \<Longrightarrow> tid_run members as s = Some s' \<Longrightarrow> tids_reachable members s'"
  by (induction as arbitrary: s) (auto split: option.splits intro: tids_reachable.step)

text \<open>Two processes with a thread each on one communicator; in the second another thread gets in between.\<close>

definition sample_members :: "int \<Rightarrow> nat list" where
  "sample_members c = (if c = 0 then [0, 1] else [1])"

definition sample_schedule :: "action list" where
  "sample_schedule = [Call 0 0, Call 1 0, Call 1 4, Run 0 0, Run 1 0, Run 1 4, Allreduce 0, Run 0 0]"

lemma threads_agree_on_fresh_id_witness:
  "\<exists>s s'. tids_reachable sample_members s \<and> tid_phase s 0 0 = Done 124
     \<and> tid_do sample_members (Run 1 0) s = Some s' \<and> tid_phase s' 1 0 = Done 124 \<and> 124 \<notin> tid_used s 1"
proof -
  have "case tid_run sample_members sample_schedule start_tids of None \<Rightarrow> False | Some s \<Rightarrow>
      tid_phase s 0 0 = Done 124
      \<and> (case tid_do sample_members (Run 1 0) s of None \<Rightarrow> False | Some s' \<Rightarrow> tid_phase s' 1 0 = Done 124)"
    by code_simp
  then obtain s s' where s: "tid_run sample_members sample_schedule start_tids = Some s"
    "tid_phase s 0 0 = Done 124" "tid_do sample_members (Run 1 0) s = Some s'" "tid_phase s' 1 0 = Done 124"
    by (auto split: option.splits)
  have r: "tids_reachable sample_members s" by (rule tid_run_reachable[OF tids_reachable.start s(1)])
  have "124 \<notin> tid_used s 1" using threads_agree_on_fresh_id[OF r, of 1 0 124] s(3,4) by blast
  then show ?thesis using r s by blast
qed

section \<open>No id left\<close>

text \<open>The threads of a process with no id left, and the moves that do not give one back.\<close>

definition exhausted :: "tid_world \<Rightarrow> nat \<Rightarrow> bool" where
  "exhausted s p \<longleftrightarrow> mask_ids (context_mask (init_if_needed (tid_mask (tid_proc s p)))) = {}"

fun running :: "phase \<Rightarrow> bool" where
  "running Loop = True"
| "running (Waiting _ _) = True"
| "running (Reduced _ _) = True"
| "running Releasing = True"
| "running _ = False"

lemma running_enter: "contextid_enter c st = (st', own, m) \<Longrightarrow> tid_mask st' = init_if_needed (tid_mask st)"
  by (auto simp: contextid_enter_def Let_def split: if_splits)

lemma init_if_needed_idem [simp]: "init_if_needed (init_if_needed st) = init_if_needed st"
  by (simp add: init_if_needed_id)

lemma exhausted_run:
  assumes inv: "tid_inv members s" and e: "exhausted s p" and r: "phase_step q d (tid_phase s q d) s = Some s'"
    and run: "running (tid_phase s p c)"
  shows "exhausted s' p \<and> running (tid_phase s' p c)"
proof (cases "tid_phase s q d")
  case Loop
  obtain st own m where x: "contextid_enter d (tid_proc s q) = (st, own, m)" by (metis prod_cases3)
  with Loop r have "s' = move q d (Waiting own m) st (tid_used s q) s" by (simp add: set_phase_proc_move)
  then show ?thesis using running_enter[OF x] e run by (auto simp: exhausted_def move_simps)
next
  case (Reduced own m)
  show ?thesis
  proof (cases own)
    case True
    obtain st i where f: "contextid_found d m (tid_proc s q) = (st, i)" by fastforce
    note ph = Reduced[unfolded True[THEN eqTrueI]]
    note spec = contextid_found_spec[OF inv ph f]
    have "i = 0" if "q = p"
    proof -
      have "mask_ids m \<subseteq> mask_ids (context_mask (tid_mask (tid_proc s p)))"
        "\<not> initialize_context_mask (tid_mask (tid_proc s p))"
        using tid_invD(2)[OF inv, of q d] tid_invD(4)[OF inv, of q d] ph that by simp_all
      then have "mask_ids m = {}" using e by (simp add: exhausted_def init_if_needed_id)
      then show ?thesis using spec(2) by simp
    qed
    then show ?thesis using r ph f e run spec(4)
      by (cases "q = p") (auto simp: exhausted_def set_phase_proc_move found_move move_simps split: if_splits)
  next
    case False
    then show ?thesis using r Reduced e run
      by (cases "q = p") (auto simp: exhausted_def set_phase_move move_simps)
  qed
next
  case Releasing
  then show ?thesis using r e run by (cases "q = p") (auto simp: exhausted_def set_phase_proc_move move_simps)
qed (use r in simp_all)

lemma exhausted_step:
  assumes inv: "tid_inv members s" and e: "exhausted s p" and d: "tid_do members a s = Some s'"
    and a: "\<forall>i. a \<noteq> Free p i" "a \<noteq> Fail p c" and run: "running (tid_phase s p c)"
  shows "exhausted s' p \<and> running (tid_phase s' p c)"
proof (cases a)
  case (Call q d)
  then show ?thesis using d e run
    by (auto simp: exhausted_def set_phase_move move_simps split: if_splits phase.splits)
next
  case (Run q d)
  then show ?thesis using d exhausted_run[OF inv e _ run] by simp
next
  case (Allreduce d)
  then show ?thesis using d e run by (auto simp: exhausted_def Let_def split: if_splits)
next
  case (Fail q d)
  then show ?thesis using d e run a(2) by (auto simp: exhausted_def set_phase_move move_simps split: if_splits)
next
  case (Free q i)
  then show ?thesis using d e run a(1)
    by (auto simp: exhausted_def set_proc_def split: if_splits option.splits)
qed

lemma exhausted_get:
  assumes "length (context_mask (init_if_needed st)) = 32" "mask_ids (context_mask (init_if_needed st)) = {}"
  shows "snd (MPIR_Get_contextid Some st) = 0"
  using assms(2) by (rule_tac find_context_spec[OF assms(1) assms(1)]) (simp_all add: MPIR_Get_contextid_def Let_def)

text \<open>
  C19: A thread whose process has no id left never returns, whatever the threads do, until an id of its
  process is freed: it goes round its loop, so the caller's test for the id 0 is never reached. The
  build without threads returns 0 from the same mask.
\<close>

theorem threads_spin_when_exhausted:
  assumes "tid_inv members s" "exhausted s p" "running (tid_phase s p c)"
    "tid_run members as s = Some s'" "\<forall>a \<in> set as. a \<noteq> Fail p c \<and> (\<forall>i. a \<noteq> Free p i)"
  shows "running (tid_phase s' p c)
    \<and> snd (MPIR_Get_contextid Some (tid_mask (tid_proc s' p))) = 0"
proof -
  have "tid_inv members s' \<and> exhausted s' p \<and> running (tid_phase s' p c)"
    using assms
  proof (induction as arbitrary: s)
    case (Cons a as)
    then obtain t where t: "tid_do members a s = Some t" "tid_run members as t = Some s'"
      by (auto split: option.splits)
    show ?case
      by (rule Cons.IH[OF tid_inv_step[OF Cons.prems(1) t(1)] _ _ t(2)])
        (use exhausted_step[OF Cons.prems(1,2) t(1) _ _ Cons.prems(3)] Cons.prems(5) in auto)
  qed simp
  moreover from this have "length (context_mask (init_if_needed (tid_mask (tid_proc s' p)))) = 32"
    using tid_invD(1)[of members s' p] by (simp add: ids_split_def)
  ultimately show ?thesis using exhausted_get[of "tid_mask (tid_proc s' p)"] by (simp add: exhausted_def)
qed

text \<open>All ids of a process in use, and a thread that wants one more.\<close>

definition sample_exhausted :: tid_world where
  "sample_exhausted = \<lparr>
     tid_proc = (\<lambda>_. \<lparr>tid_mask = \<lparr>context_mask = replicate 32 0, initialize_context_mask = False\<rparr>,
       mask_in_use = False, lowestContextId = MPIR_MAXID\<rparr>),
     tid_phase = (\<lambda>p c. if p < 2 \<and> c = 0 then Loop else Idle),
     tid_used = (\<lambda>_. (\<lambda>k. 4 * int k) ` {3..<1024})\<rparr>"

lemma mask_ids_zero: "mask_ids (replicate n 0) = {}"
  by (auto simp: mask_ids_def less_mult_imp_div_less mult.commute)

lemma sample_exhausted_inv: "tid_inv sample_members sample_exhausted"
proof -
  have "{k :: nat. 3 \<le> k \<and> k < 1024 \<and> 4 * int k \<notin> (\<lambda>k. 4 * int k) ` {3..<1024}} = {}" by auto
  then have "ids_split \<lparr>context_mask = replicate 32 0, initialize_context_mask = False\<rparr> ((\<lambda>k. 4 * int k) ` {3..<1024})"
    by (auto simp: ids_split_def init_if_needed_def mask_ids_zero)
  then show ?thesis by (auto simp: tid_inv_def sample_exhausted_def sample_members_def)
qed

lemma find_zero: "find_context_loop (replicate n 0) i cm = (cm, 0)"
  by (induction n arbitrary: i) simp_all

lemma band_zero: "band_masks [replicate 32 0, replicate 32 0] = replicate 32 0"
  by code_simp

lemma threads_spin_when_exhausted_witness:
  "\<exists>s. tid_run sample_members [Run 0 0, Run 1 0, Allreduce 0, Run 0 0, Run 0 0, Run 0 0] sample_exhausted = Some s
     \<and> running (tid_phase s 0 0)"
proof -
  have "exhausted sample_exhausted 0"
    by (simp add: exhausted_def sample_exhausted_def init_if_needed_def mask_ids_zero)
  moreover have "running (tid_phase sample_exhausted 0 0)" by (simp add: sample_exhausted_def)
  moreover have "case tid_run sample_members [Run 0 0, Run 1 0, Allreduce 0, Run 0 0, Run 0 0, Run 0 0] sample_exhausted of
      None \<Rightarrow> False | Some s \<Rightarrow> True"
    by (simp add: sample_exhausted_def sample_members_def contextid_enter_def contextid_found_def set_phase_def
        set_proc_def init_if_needed_def MPIR_Find_context_bit_def Let_def band_zero find_zero)
  then obtain s where s: "tid_run sample_members [Run 0 0, Run 1 0, Allreduce 0, Run 0 0, Run 0 0, Run 0 0] sample_exhausted
      = Some s" by (auto split: option.splits)
  ultimately show ?thesis using threads_spin_when_exhausted[OF sample_exhausted_inv _ _ s] by auto
qed

section \<open>A round without contention\<close>

definition one_round :: "nat list \<Rightarrow> int \<Rightarrow> action list" where
  "one_round ps c = map (\<lambda>p. Run p c) ps @ [Allreduce c] @ map (\<lambda>p. Run p c) ps"

text \<open>The mask of a process of the communicator can be taken.\<close>

definition uncontended :: "tid_world \<Rightarrow> nat \<Rightarrow> int \<Rightarrow> bool" where
  "uncontended s p c \<longleftrightarrow> tid_phase s p c = Loop \<and> \<not> mask_in_use (tid_proc s p) \<and> c \<le> lowestContextId (tid_proc s p)"

definition mask_of :: "tid_world \<Rightarrow> nat \<Rightarrow> 32 word list" where
  "mask_of s p = context_mask (init_if_needed (tid_mask (tid_proc s p)))"

lemma tid_run_append:
  "tid_run members (as @ bs) s = (case tid_run members as s of None \<Rightarrow> None | Some s' \<Rightarrow> tid_run members bs s')"
  by (induction as arbitrary: s) (simp_all split: option.splits)

lemma round_enter:
  assumes "distinct ps" "\<forall>p \<in> set ps. uncontended s p c"
  shows "\<exists>s'. tid_run members (map (\<lambda>p. Run p c) ps) s = Some s'
    \<and> (\<forall>p. tid_phase s' p c = (if p \<in> set ps then Waiting True (mask_of s p) else tid_phase s p c))"
  using assms
proof (induction ps arbitrary: s)
  case (Cons p ps)
  then have p: "uncontended s p c" by simp
  obtain st where st: "contextid_enter c (tid_proc s p) = (st, True, mask_of s p)"
    using p by (auto simp: contextid_enter_def uncontended_def mask_of_def Let_def)
  let ?s = "move p c (Waiting True (mask_of s p)) st (tid_used s p) s"
  have do: "tid_do members (Run p c) s = Some ?s"
    using p st by (simp add: uncontended_def set_phase_proc_move)
  have "\<forall>q \<in> set ps. uncontended ?s q c \<and> mask_of ?s q = mask_of s q"
    using Cons.prems by (auto simp: uncontended_def mask_of_def move_simps)
  with Cons.IH[of ?s] Cons.prems(1) obtain s' where "tid_run members (map (\<lambda>p. Run p c) ps) ?s = Some s'"
    "\<forall>q. tid_phase s' q c = (if q \<in> set ps then Waiting True (mask_of s q) else tid_phase ?s q c)" by auto
  then show ?case using do Cons.prems(1) by (intro exI[of _ s']) (auto simp: move_simps)
qed simp

lemma round_found:
  assumes "tid_inv members s" "distinct ps" "\<forall>p \<in> set ps. tid_phase s p c = Reduced True m" "mask_ids m \<noteq> {}"
  shows "\<exists>s'. tid_run members (map (\<lambda>p. Run p c) ps) s = Some s' \<and> (\<forall>p \<in> set ps. tid_phase s' p c = Done (found_id m))
    \<and> (\<forall>p. p \<notin> set ps \<longrightarrow> tid_phase s' p c = tid_phase s p c)"
  using assms
proof (induction ps arbitrary: s)
  case (Cons p ps)
  then have ph: "tid_phase s p c = Reduced True m" by simp
  obtain st i where f: "contextid_found c m (tid_proc s p) = (st, i)" by fastforce
  note spec = contextid_found_spec[OF Cons.prems(1) ph f]
  have i: "i > 0" using spec(2) Cons.prems(4) by simp
  let ?s = "move p c (Done i) st (insert i (tid_used s p)) s"
  have do: "tid_do members (Run p c) s = Some ?s"
    using ph f i by (simp add: set_phase_proc_move found_move)
  have "\<forall>q \<in> set ps. tid_phase ?s q c = Reduced True m" using Cons.prems by (auto simp: move_simps)
  with Cons.IH[OF tid_inv_step[OF Cons.prems(1) do]] Cons.prems(2,4) obtain s' where
    "tid_run members (map (\<lambda>p. Run p c) ps) ?s = Some s'" "\<forall>q \<in> set ps. tid_phase s' q c = Done (found_id m)"
    "\<forall>q. q \<notin> set ps \<longrightarrow> tid_phase s' q c = tid_phase ?s q c" by auto
  then show ?case using do Cons.prems(2) spec(1) by (intro exI[of _ s']) (auto simp: move_simps)
qed simp

lemma tid_inv_run_list: "tid_inv members s \<Longrightarrow> tid_run members as s = Some s' \<Longrightarrow> tid_inv members s'"
  by (induction as arbitrary: s) (auto split: option.splits intro: tid_inv_step)

text \<open>
  C18: When no other thread has or claims the mask in any process of a communicator, and some id is
  free in all of them, one trip round the loop is enough: every thread returns, with the same id.
\<close>

theorem uncontended_round_returns:
  assumes "tid_inv members s" "distinct (members c)" "\<forall>p \<in> set (members c). uncontended s p c"
    "k < 1024" "\<forall>p \<in> set (members c). k \<in> mask_ids (mask_of s p)"
  shows "\<exists>s' i. tid_run members (one_round (members c) c) s = Some s' \<and> i > 0
    \<and> (\<forall>p \<in> set (members c). tid_phase s' p c = Done i)"
proof -
  let ?ps = "members c"
  obtain s1 where s1: "tid_run members (map (\<lambda>p. Run p c) ?ps) s = Some s1"
    "\<And>p. p \<in> set ?ps \<Longrightarrow> tid_phase s1 p c = Waiting True (mask_of s p)"
    using round_enter[where members = members, OF assms(2,3)] by auto
  have len: "length (mask_of s p) = 32" for p
    using tid_invD(1)[OF assms(1), of p] by (simp add: mask_of_def ids_split_def)
  define m where "m = band_masks (map (\<lambda>p. local_mask (tid_phase s1 p c)) ?ps)"
  have m: "m = band_masks (map (mask_of s) ?ps)" unfolding m_def by (simp add: s1(2) cong: map_cong)
  have k: "k \<in> mask_ids m" unfolding m using assms(4,5) len by (subst mask_ids_band) auto
  obtain s2 where s2: "tid_do members (Allreduce c) s1 = Some s2" "\<And>p. p \<in> set ?ps \<Longrightarrow> tid_phase s2 p c = Reduced True m"
    using s1(2) by (auto simp: list_all_iff Let_def m_def)
  have "tid_inv members s2"
    by (rule tid_inv_step[OF tid_inv_run_list[OF assms(1) s1(1)] s2(1)])
  from round_found[OF this assms(2)] s2(2) k obtain s3 where
    s3: "tid_run members (map (\<lambda>p. Run p c) ?ps) s2 = Some s3" "\<forall>p \<in> set ?ps. tid_phase s3 p c = Done (found_id m)"
    by blast
  have "length m = 32" unfolding m using len by (intro band_masks_length) auto
  then have "found_id m > 0 \<or> ?ps = []"
    using s3(2) \<open>tid_inv members s2\<close> s2(2) contextid_found_spec(1,2)[of members s2 _ c m] k
    by (metis empty_iff list.set_intros(1) neq_Nil_conv prod.exhaust)
  moreover have "tid_run members (one_round ?ps c) s = Some s3"
    using s1(1) s2(1) s3(1) by (simp add: one_round_def tid_run_append)
  ultimately show ?thesis using s3(2) by (metis empty_iff empty_set zero_less_one)
qed

lemma uncontended_round_returns_witness:
  "\<exists>s s' i. tids_reachable sample_members s \<and> tid_run sample_members (one_round [0, 1] 0) s = Some s' \<and> i > 0
    \<and> tid_phase s' 0 0 = Done i \<and> tid_phase s' 1 0 = Done i"
proof -
  let ?s = "set_phase 1 0 Loop (set_phase 0 0 Loop start_tids)"
  have "tid_run sample_members [Call 0 0, Call 1 0] start_tids = Some ?s"
    by (simp add: sample_members_def set_phase_def start_tids_def)
  then have r: "tids_reachable sample_members ?s" by (rule tid_run_reachable[OF tids_reachable.start])
  have "3 \<in> mask_ids (context_mask (MPIR_Init_contextid start_contextid))" unfolding mask_ids_init by simp
  then have "\<exists>s' i. tid_run sample_members (one_round (sample_members 0) 0) ?s = Some s' \<and> i > 0
      \<and> (\<forall>p \<in> set (sample_members 0). tid_phase s' p 0 = Done i)"
    by (intro uncontended_round_returns[OF tids_reachable_inv[OF r], of 0 3])
      (auto simp: sample_members_def uncontended_def mask_of_def set_phase_def start_tids_def start_thread_ids_def
        init_if_needed_def start_contextid_def MPIR_Init_contextid_def)
  then show ?thesis using r by (auto simp: sample_members_def)
qed

end
