(* ===== verification/ExchangeSort.thy ===== *)
theory ExchangeSort
  imports Prelude "HOL-Library.Multiset"
begin

text \<open>
  The exchange sort that comm_split.c and dims_create.c write out over their arrays: for each index
  \<open>i\<close> in turn the entries behind it are compared with it, and exchanged when they are out of order.
  What it needs of the comparison, and what it gives, is stated as a locale.
\<close>

definition swap_at :: "nat \<Rightarrow> nat \<Rightarrow> 'a list \<Rightarrow> 'a list" where
  "swap_at i j xs = xs[i := xs ! j, j := xs ! i]"

text \<open>The loop over \<open>j\<close> for one \<open>i\<close>, and the two loops; \<open>bad x y\<close> says that \<open>x\<close> must not stand before \<open>y\<close>.\<close>

definition exchange_pass :: "('a \<Rightarrow> 'a \<Rightarrow> bool) \<Rightarrow> nat \<Rightarrow> nat \<Rightarrow> 'a list \<Rightarrow> 'a list" where
  "exchange_pass bad i n xs = fold (\<lambda>j xs. if bad (xs ! i) (xs ! j) then swap_at i j xs else xs) [i + 1..<n] xs"

definition exchange_sort :: "('a \<Rightarrow> 'a \<Rightarrow> bool) \<Rightarrow> nat \<Rightarrow> nat \<Rightarrow> 'a list \<Rightarrow> 'a list" where
  "exchange_sort bad m n xs = fold (\<lambda>i xs. exchange_pass bad i n xs) [0..<m] xs"

lemma length_swap_at [simp]: "length (swap_at i j xs) = length xs"
  by (simp add: swap_at_def)

lemma mset_swap_at: "i < length xs \<Longrightarrow> j < length xs \<Longrightarrow> mset (swap_at i j xs) = mset xs"
  unfolding swap_at_def by (rule mset_swap)

lemma swap_at_nth:
  "i < length xs \<Longrightarrow> j < length xs \<Longrightarrow> k < length xs
    \<Longrightarrow> swap_at i j xs ! k = (if k = j then xs ! i else if k = i then xs ! j else xs ! k)"
  by (simp add: swap_at_def nth_list_update)

locale exchange_order =
  fixes bad :: "'a \<Rightarrow> 'a \<Rightarrow> bool"
  assumes bad_asym: "bad x y \<Longrightarrow> \<not> bad y x"
    and bad_neg_trans: "\<not> bad x y \<Longrightarrow> \<not> bad y z \<Longrightarrow> \<not> bad x z"
begin

text \<open>After the loop up to \<open>n\<close> the entry at \<open>i\<close> may stand before all entries seen, and what was in front is still there.\<close>

lemma pass_spec:
  assumes "i < length xs" "n \<le> length xs"
  shows "length (exchange_pass bad i n xs) = length xs \<and> mset (exchange_pass bad i n xs) = mset xs
    \<and> (\<forall>k < i. exchange_pass bad i n xs ! k = xs ! k)
    \<and> (\<forall>k. i < k \<and> k < n \<longrightarrow> \<not> bad (exchange_pass bad i n xs ! i) (exchange_pass bad i n xs ! k))
    \<and> (\<forall>k. n \<le> k \<and> i < k \<and> k < length xs \<longrightarrow> exchange_pass bad i n xs ! k = xs ! k)"
  using assms(2)
proof (induction n)
  case 0
  then show ?case by (simp add: exchange_pass_def)
next
  case (Suc n)
  show ?case
  proof (cases "n \<le> i")
    case True
    then show ?thesis by (auto simp: exchange_pass_def)
  next
    case False
    let ?ys = "exchange_pass bad i n xs"
    have ys: "length ?ys = length xs" "mset ?ys = mset xs" "\<forall>k < i. ?ys ! k = xs ! k"
      "\<forall>k. i < k \<and> k < n \<longrightarrow> \<not> bad (?ys ! i) (?ys ! k)" "\<forall>k. n \<le> k \<and> i < k \<and> k < length xs \<longrightarrow> ?ys ! k = xs ! k"
      using Suc.IH Suc.prems by auto
    have step: "exchange_pass bad i (Suc n) xs = (if bad (?ys ! i) (?ys ! n) then swap_at i n ?ys else ?ys)"
      using False by (simp add: exchange_pass_def)
    show ?thesis
    proof (cases "bad (?ys ! i) (?ys ! n)")
      case True
      have "\<not> bad (?ys ! n) (?ys ! k)" if "i < k" "k < n" for k
        using bad_neg_trans[OF bad_asym[OF True]] ys(4) that by blast
      then show ?thesis unfolding step
        using True False ys assms(1) Suc.prems bad_asym[OF True]
        by (auto simp: mset_swap_at swap_at_nth less_Suc_eq)
    next
      case ok: False
      then show ?thesis unfolding step using False ys by (auto simp: less_Suc_eq)
    qed
  qed
qed

text \<open>The sort: the entries in order, none lost.\<close>

lemma sort_spec:
  assumes "m \<le> length xs"
  shows "length (exchange_sort bad m (length xs) xs) = length xs \<and> mset (exchange_sort bad m (length xs) xs) = mset xs
    \<and> (\<forall>i k. i < m \<and> i < k \<and> k < length xs
        \<longrightarrow> \<not> bad (exchange_sort bad m (length xs) xs ! i) (exchange_sort bad m (length xs) xs ! k))"
  using assms
proof (induction m)
  case 0
  then show ?case by (simp add: exchange_sort_def)
next
  case (Suc m)
  let ?ys = "exchange_sort bad m (length xs) xs" and ?zs = "exchange_sort bad (Suc m) (length xs) xs"
  have ys: "length ?ys = length xs" "mset ?ys = mset xs"
    "\<And>i k. i < m \<Longrightarrow> i < k \<Longrightarrow> k < length xs \<Longrightarrow> \<not> bad (?ys ! i) (?ys ! k)"
    using Suc.IH Suc.prems by auto
  have z: "?zs = exchange_pass bad m (length xs) ?ys" by (simp add: exchange_sort_def)
  have zs: "length ?zs = length xs" "mset ?zs = mset ?ys" "\<And>k. k < m \<Longrightarrow> ?zs ! k = ?ys ! k"
    "\<And>k. m < k \<Longrightarrow> k < length xs \<Longrightarrow> \<not> bad (?zs ! m) (?zs ! k)"
    using pass_spec[of m ?ys "length xs"] ys(1) Suc.prems unfolding z by auto
  have "\<not> bad (?zs ! i) (?zs ! k)" if "i < m" "i < k" "k < length xs" for i k
  proof (cases "k < m")
    case True
    then show ?thesis using zs(3) ys(3) that by simp
  next
    case False
    have "?zs ! k \<in> set (drop m ?ys)"
    proof -
      have "mset (take m ?zs) = mset (take m ?ys)"
        by (rule arg_cong[where f = mset], rule nth_equalityI) (use zs ys(1) in auto)
      then have "mset (drop m ?zs) = mset (drop m ?ys)"
        using zs(2) by (metis append_take_drop_id mset_append add_left_cancel)
      moreover have "?zs ! k \<in> set (drop m ?zs)"
        using False that zs(1) by (auto simp: in_set_conv_nth intro!: exI[of _ "k - m"])
      ultimately show ?thesis by (metis set_mset_mset)
    qed
    then obtain j where "j < length (drop m ?ys)" "drop m ?ys ! j = ?zs ! k" by (auto simp: in_set_conv_nth)
    then have "m \<le> m + j" "m + j < length xs" "?zs ! k = ?ys ! (m + j)" using ys(1) by auto
    then obtain j where "m \<le> j" "j < length xs" "?zs ! k = ?ys ! j" by blast
    then show ?thesis using that zs(3) ys(3)[of i j] by simp
  qed
  then show ?case using ys zs by (auto simp: less_Suc_eq)
qed

lemma sorted_after:
  assumes "length xs \<le> m + 1" "m \<le> length xs"
  shows "sorted_wrt (\<lambda>x y. \<not> bad x y) (exchange_sort bad m (length xs) xs)"
  using sort_spec[OF assms(2)] assms(1) by (auto simp: sorted_wrt_iff_nth_less)

end

end
