(* ===== verification/Dims.thy ===== *)
theory Dims
  imports ExchangeSort
begin

text \<open>
  \<open>MPI_Dims_create\<close>, src/src/mpi/topo/dims_create.c: the number of nodes left after the dimensions
  the caller gives is factored over a table of primes, and the factors are dealt out to the
  dimensions the caller leaves open. Values inside are never negative and are natural numbers; the
  caller's are C integers. \<open>None\<close> stands for a run that does not end, or that C leaves undefined.
\<close>

section \<open>Factors\<close>

text \<open>An entry of \<open>Factors\<close> is a value and its multiplicity.\<close>

type_synonym factors = "(nat \<times> nat) list"

definition primes :: "nat list" where
  "primes = [2, 3, 5, 7, 11, 13, 17, 19, 23, 29, 31, 37, 41, 43, 47, 53, 59, 61, 67, 71,
     73, 79, 83, 89, 97, 101, 103, 107, 109, 113, 127, 131, 137, 139, 149, 151, 157, 163, 167, 173,
     179, 181, 191, 193, 197, 199, 211, 223, 227, 229, 233, 239, 241, 251, 257, 263, 269, 271, 277, 281,
     283, 293, 307, 311, 313, 317, 331, 337, 347, 349, 353, 359, 367, 373, 379, 383, 389, 397, 401, 409,
     419, 421, 431, 433, 439, 443, 449, 457, 461, 463, 467, 479, 487, 491, 499, 503, 509, 521, 523, 541,
     547, 557, 563, 569, 571, 577, 587, 593, 599, 601, 607, 613, 617, 619, 631, 641, 643, 647, 653, 659,
     661, 673, 677, 683, 691, 701, 709, 719, 727, 733, 739, 743, 751, 757, 761, 769, 773, 787, 797, 809,
     811, 821, 823, 827, 829, 839, 853, 857, 859, 863, 877, 881, 883, 887, 907, 911, 919, 929, 937, 941,
     947, 953, 967, 971, 977, 983, 991, 997]"

abbreviation (input) NUM_PRIMES :: nat where "NUM_PRIMES \<equiv> 168"
abbreviation (input) MAX_FACTORS :: nat where "MAX_FACTORS \<equiv> 10"
abbreviation (input) MAX_DIMS :: nat where "MAX_DIMS \<equiv> 20"

text \<open>The loop that counts the bits of \<open>n\<close>, and the approximate root made of it.\<close>

fun bit_count :: "nat \<Rightarrow> nat" where
  "bit_count n_tmp = (if n_tmp = 0 then 0 else Suc (bit_count (n_tmp div 2)))"

declare bit_count.simps [simp del]

definition approx_root :: "nat \<Rightarrow> nat" where
  "approx_root n = 2 ^ (bit_count n div 2)"

text \<open>The index at which the search of the table stops: past its end when every prime is small enough.\<close>

definition first_above :: "nat \<Rightarrow> nat" where
  "first_above n_root = length (takeWhile (\<lambda>p. \<not> p > n_root) primes)"

text \<open>Dividing a prime out; 0 can be divided for ever.\<close>

partial_function (option) divide_out :: "nat \<Rightarrow> nat \<Rightarrow> nat \<Rightarrow> (nat \<times> nat) option" where
  "divide_out p n cnt = (if n mod p = 0 then divide_out p (n div p) (cnt + 1) else Some (n, cnt))"

declare divide_out.simps [code]

text \<open>
  The loop down the table: the rest of \<open>n\<close>, the factors and their number. The first component of the
  result says that the array of factors is full, which ends the routine at once.
\<close>

fun factor_loop :: "nat list \<Rightarrow> nat \<Rightarrow> factors \<Rightarrow> nat \<Rightarrow> (bool \<times> nat \<times> factors \<times> nat) option" where
  "factor_loop [] n fs nall = Some (False, n, fs, nall)"
| "factor_loop (p # ps) n fs nall =
     (case divide_out p n 0 of
        None \<Rightarrow> None
      | Some (n, cnt) \<Rightarrow>
          if cnt > 0 then
            if length fs + 1 = MAX_FACTORS then Some (True, n, fs, nall)
            else factor_loop ps n (fs @ [(p, cnt)]) (nall + cnt)
          else factor_loop ps n fs nall)"

text \<open>
  \<open>MPIR_Factor\<close>: the factors and \<open>ndivisors\<close>, which stays as the caller set it when the array is
  full. The loop starts at the index where the search stopped; reading the table there is undefined
  when that is its end.
\<close>

definition MPIR_Factor :: "nat \<Rightarrow> nat \<Rightarrow> (factors \<times> nat) option" where
  "MPIR_Factor n ndivisors =
     (let i = first_above (approx_root n) in
      if i \<ge> NUM_PRIMES then None
      else
     (case factor_loop (rev (take (i + 1) primes)) n [] 0 of
        None \<Rightarrow> None
      | Some (full, n, fs, nall) \<Rightarrow>
          if full then Some (fs, ndivisors)
          else if fs = [] then Some ([(n, 1)], 1)
          else if n > 1 then Some (fs @ [(n, 1)], nall + 1)
          else Some (fs, nall)))"

section \<open>Choosing the dimensions\<close>

text \<open>
  One factor goes to the entry \<open>i\<close> whose turn it is, or to the smallest; the test compares the entry
  with the index of the smallest one.
\<close>

definition min_index :: "nat list \<Rightarrow> nat" where
  "min_index chosen =
     snd (fold (\<lambda>ii (cMin, iMin). if chosen ! ii < cMin then (chosen ! ii, ii) else (cMin, iMin))
            [1..<length chosen] (chosen ! 0, 0))"

definition choose_step :: "nat \<Rightarrow> nat list \<times> nat \<Rightarrow> nat list \<times> nat" where
  "choose_step val = (\<lambda>(chosen, i).
     (let iMin = min_index chosen;
          i = (if chosen ! i > iMin then iMin else i);
          chosen = chosen[i := chosen ! i * val];
          i = i + 1 in
      (chosen, if i \<ge> length chosen then 0 else i)))"

definition MPIR_ChooseFactors :: "factors \<Rightarrow> nat \<Rightarrow> nat list" where
  "MPIR_ChooseFactors fs needed =
     (let (chosen, i) = fold (\<lambda>(val, cnt). choose_step val ^^ cnt) fs (replicate needed 1, 0) in
      exchange_sort (<) (needed - 1) needed chosen)"

section \<open>The routine\<close>

text \<open>The first loop: the error of a negative entry, or how many entries are open and the product of the others.\<close>

fun dims_scan :: "int list \<Rightarrow> nat \<Rightarrow> int \<Rightarrow> (mpi_err + nat \<times> int) option" where
  "dims_scan [] dims_needed dims_product = Some (Inr (dims_needed, dims_product))"
| "dims_scan (d # ds) dims_needed dims_product =
     (if d < 0 then Some (Inl (new_error MPI_ERR_DIMS ''**argarrayneg''))
      else if d = 0 then dims_scan ds (dims_needed + 1) dims_product
      else if dims_product * d < 2 ^ 31 then dims_scan ds dims_needed (dims_product * d)
      else None)"

text \<open>The open entries take the chosen values in turn.\<close>

fun fill_chosen :: "int list \<Rightarrow> nat list \<Rightarrow> int list" where
  "fill_chosen [] vs = []"
| "fill_chosen (d # ds) vs = (if d = 0 then int (hd vs) # fill_chosen ds (tl vs) else d # fill_chosen ds vs)"

text \<open>The open entries when there is one distinct factor: \<open>cnteach\<close> copies each as long as they last.\<close>

fun fill_power :: "nat \<Rightarrow> nat \<Rightarrow> int list \<Rightarrow> nat \<Rightarrow> int list" where
  "fill_power factor cnteach [] cnt = []"
| "fill_power factor cnteach (d # ds) cnt =
     (if d = 0 then
        if cnt > cnteach then int (factor ^ cnteach) # fill_power factor cnteach ds (cnt - cnteach)
        else if cnt > 0 then int (factor ^ cnt) # fill_power factor cnteach ds 0
        else 1 # fill_power factor cnteach ds 0
      else d # fill_power factor cnteach ds cnt)"

definition MPIR_Dims_create :: "int \<Rightarrow> int list \<Rightarrow> (mpi_err + int list) option" where
  "MPIR_Dims_create nnodes dims =
     (case dims_scan dims 0 1 of
        None \<Rightarrow> None
      | Some (Inl e) \<Rightarrow> Some (Inl e)
      | Some (Inr (dims_needed, dims_product)) \<Rightarrow>
          if (nnodes div dims_product) * dims_product \<noteq> nnodes
          then Some (Inl (new_error MPI_ERR_DIMS ''**dimspartition''))
          else if dims_needed = 0 then Some (Inr dims)
          else if dims_needed > MAX_DIMS then Some (Inl (new_error MPI_ERR_DIMS ''**dimsmany''))
          else
         (case MPIR_Factor (nat (nnodes div dims_product)) 0 of
            None \<Rightarrow> None
          | Some (fs, ndivisors) \<Rightarrow>
              if ndivisors \<le> dims_needed then Some (Inr (fill_chosen dims (MPIR_ChooseFactors fs dims_needed)))
              else if length fs = 1 then
                (let (factor, cnt) = fs ! 0 in
                 Some (Inr (fill_power factor ((cnt + dims_needed - 1) div dims_needed) dims cnt)))
              else Some (Inr (fill_chosen dims (MPIR_ChooseFactors fs dims_needed)))))"

text \<open>
  \<open>MPI_Dims_create\<close>; the device may bring a routine of its own. The array has \<open>ndims\<close> entries, or
  \<open>ndims\<close> is negative; the new contents of the array are the result.
\<close>

definition MPI_Dims_create :: "(int \<Rightarrow> int list \<Rightarrow> (mpi_err + int list) option) option \<Rightarrow> int \<Rightarrow> int \<Rightarrow> int list
    \<Rightarrow> (mpi_err + int list) option" where
  "MPI_Dims_create dimsCreate nnodes ndims dims =
     (case last_error [(nnodes < 0, new_error MPI_ERR_ARG ''**argneg''),
                       (ndims < 0, new_error MPI_ERR_ARG ''**argneg'')] of
        Some e \<Rightarrow> Some (Inl (fn_fail ''**mpi_dims_create'' e))
      | None \<Rightarrow>
          (case dimsCreate of
             Some f \<Rightarrow> f nnodes (take (nat ndims) dims)
           | None \<Rightarrow> MPIR_Dims_create nnodes (take (nat ndims) dims)))"

section \<open>Factoring\<close>

text \<open>The number a list of factors stands for, and how many factors that are.\<close>

definition factors_prod :: "factors \<Rightarrow> nat" where
  "factors_prod fs = prod_list (map (\<lambda>(v, c). v ^ c) fs)"

definition factors_count :: "factors \<Rightarrow> nat" where
  "factors_count fs = sum_list (map snd fs)"

lemma factors_simps [simp]:
  "factors_prod [] = 1" "factors_prod ((v, c) # fs) = v ^ c * factors_prod fs"
  "factors_prod (fs @ gs) = factors_prod fs * factors_prod gs"
  "factors_count [] = 0" "factors_count ((v, c) # fs) = c + factors_count fs"
  "factors_count (fs @ gs) = factors_count fs + factors_count gs"
  by (simp_all add: factors_prod_def factors_count_def)

lemma divide_out_spec:
  assumes "2 \<le> p" "0 < n"
  shows "\<exists>n' k. divide_out p n c = Some (n', c + k) \<and> n = n' * p ^ k \<and> \<not> p dvd n'"
  using assms(2)
proof (induction n arbitrary: c rule: less_induct)
  case (less n)
  show ?case
  proof (cases "p dvd n")
    case True
    then obtain m where m: "n = p * m" by (rule dvdE)
    with less.prems assms(1) have "m < n" "0 < m" by auto
    with less.IH obtain n' k where "divide_out p m (c + 1) = Some (n', c + 1 + k)" "m = n' * p ^ k" "\<not> p dvd n'"
      by blast
    moreover have "divide_out p n c = divide_out p m (c + 1)"
      using True m assms(1) by (subst divide_out.simps) (simp add: dvd_eq_mod_eq_0)
    ultimately show ?thesis using m by (intro exI[of _ n'] exI[of _ "Suc k"]) simp
  next
    case False
    then show ?thesis by (subst divide_out.simps) (auto simp: dvd_eq_mod_eq_0 intro!: exI[of _ n] exI[of _ 0])
  qed
qed

text \<open>Nothing ends the loop that divides 0.\<close>

lemma divide_out_zero: "divide_out p 0 c = None"
proof -
  have "n \<noteq> 0" if "divide_out p n c = Some r" for n c r
  proof (rule divide_out.raw_induct[of "\<lambda>p n c r. n \<noteq> 0", OF _ that])
    fix rec and p n c :: nat and r
    assume IH: "\<And>p n c r. rec p n c = Some r \<Longrightarrow> n \<noteq> 0"
      and e: "(if n mod p = 0 then rec p (n div p) (c + 1) else Some (n, c)) = Some r"
    show "n \<noteq> 0"
    proof
      assume "n = 0"
      with e have "rec p 0 (c + 1) = Some r" by simp
      from IH[OF this] show False by simp
    qed
  qed
  then show ?thesis by (cases "divide_out p 0 c") auto
qed

text \<open>
  The table runs out of room only with ten distinct factors, whose product is at least 11!.
\<close>

lemma descending_prod:
  "sorted_wrt (>) ps \<Longrightarrow> \<forall>p \<in> set ps. (2 :: nat) \<le> p \<Longrightarrow> (\<forall>p \<in> set ps. length ps + 1 \<le> hd ps)
    \<and> fact (length ps + 1) \<le> prod_list ps"
proof (induction ps)
  case (Cons p ps)
  then have IH: "\<forall>q \<in> set ps. length ps + 1 \<le> hd ps" "fact (length ps + 1) \<le> prod_list ps" by auto
  have "length ps + 2 \<le> p"
  proof (cases ps)
    case (Cons q qs)
    with IH(1) Cons.prems show ?thesis by auto
  qed (use Cons.prems in simp)
  then have "(length ps + 2) * fact (length ps + 1) \<le> p * prod_list ps" using IH(2) by (rule mult_le_mono)
  with \<open>length ps + 2 \<le> p\<close> show ?case by simp
qed simp

lemma factors_prod_ge: "\<forall>(v, c) \<in> set fs. 2 \<le> v \<and> 0 < c \<Longrightarrow> prod_list (map fst fs) \<le> factors_prod fs"
proof (induction fs)
  case (Cons vc fs)
  obtain v c where vc: "vc = (v, c)" by fastforce
  then have "v ^ 1 \<le> v ^ c" using Cons.prems by (intro power_increasing) auto
  then show ?case using Cons vc by (simp add: mult_le_mono)
qed simp

lemma factor_loop_spec:
  assumes "0 < n" "\<forall>p \<in> set (map fst fs @ ps). 2 \<le> p" "sorted_wrt (>) (map fst fs @ ps)" "\<forall>(v, c) \<in> set fs. 0 < c"
    "factors_prod fs * n < fact 11" "length fs < 10"
  shows "\<exists>n' gs. factor_loop ps n fs nall = Some (False, n', fs @ gs, nall + factors_count gs) \<and> 0 < n'
    \<and> n = factors_prod gs * n' \<and> (\<forall>(v, c) \<in> set gs. v \<in> set ps \<and> 0 < c) \<and> (\<forall>p \<in> set ps. \<not> p dvd n')"
  using assms
proof (induction ps arbitrary: n fs nall)
  case Nil
  then show ?case by (auto intro!: exI[of _ "[]"])
next
  case (Cons p ps)
  obtain m k where m: "divide_out p n 0 = Some (m, k)" "n = m * p ^ k" "\<not> p dvd m"
    using divide_out_spec[of p n 0] Cons.prems(1,2) by auto
  then have "0 < m" using Cons.prems(1) by (cases m) auto
  show ?case
  proof (cases "k = 0")
    case True
    obtain n' gs where "factor_loop ps m fs nall = Some (False, n', fs @ gs, nall + factors_count gs)" "0 < n'"
      "m = factors_prod gs * n'" "\<forall>(v, c) \<in> set gs. v \<in> set ps \<and> 0 < c" "\<forall>q \<in> set ps. \<not> q dvd n'"
      using Cons.IH[of m fs nall] Cons.prems m True by (auto simp: sorted_wrt_append)
    with m True show ?thesis by (intro exI[of _ n'] exI[of _ gs]) auto
  next
    case False
    let ?fs = "fs @ [(p, k)]"
    have fs: "sorted_wrt (>) (map fst ?fs @ ps)" "\<forall>(v, c) \<in> set ?fs. 2 \<le> v \<and> 0 < c"
      "factors_prod ?fs * m = factors_prod fs * n"
      using Cons.prems(2-4) False m(2) by (auto simp: sorted_wrt_append)
    have "sorted_wrt (>) (map fst ?fs)" "\<forall>q \<in> set (map fst ?fs). 2 \<le> q"
      using fs(1,2) by (auto simp: sorted_wrt_append)
    then have "fact (length ?fs + 1) \<le> prod_list (map fst ?fs)" using descending_prod[of "map fst ?fs"] by simp
    also have "\<dots> \<le> factors_prod ?fs" by (rule factors_prod_ge[OF fs(2)])
    also have "\<dots> \<le> factors_prod ?fs * m" using \<open>0 < m\<close> by simp
    also have "\<dots> < fact 11" unfolding fs(3) by (rule Cons.prems(5))
    finally have "length ?fs + 1 < 11" by (metis fact_mono_nat not_less)
    then have room: "length ?fs < 10" by simp
    obtain n' gs where "factor_loop ps m ?fs (nall + k) = Some (False, n', ?fs @ gs, nall + k + factors_count gs)"
      "0 < n'" "m = factors_prod gs * n'" "\<forall>(v, c) \<in> set gs. v \<in> set ps \<and> 0 < c" "\<forall>q \<in> set ps. \<not> q dvd n'"
      using Cons.IH[of m ?fs "nall + k"] Cons.prems fs room \<open>0 < m\<close> by auto
    with m False room show ?thesis
      by (intro exI[of _ n'] exI[of _ "(p, k) # gs"]) auto
  qed
qed

lemma bit_count_le: "bit_count n \<le> k \<longleftrightarrow> n < 2 ^ k"
proof (induction k arbitrary: n)
  case 0
  then show ?case by (subst bit_count.simps) simp
next
  case (Suc k)
  have "bit_count n \<le> Suc k \<longleftrightarrow> n div 2 < 2 ^ k" if "n \<noteq> 0"
    using that Suc.IH[of "n div 2"] by (subst bit_count.simps) simp
  then show ?case by (cases "n = 0") (auto simp: bit_count.simps[of 0])
qed

text \<open>The table is long enough up to the root 512, and not for 1024.\<close>

lemma primes_facts:
  "length primes = 168" "521 \<in> set primes" "\<forall>p \<in> set primes. 2 \<le> p \<and> p \<le> 1024" "sorted_wrt (<) primes"
proof -
  show "length primes = 168" "521 \<in> set primes" "\<forall>p \<in> set primes. 2 \<le> p \<and> p \<le> 1024"
    by (simp_all add: primes_def)
  show "sorted_wrt (<) primes"
    unfolding primes_def by (simp add: sorted_wrt2_simps del: sorted_wrt.simps)
qed

lemma length_takeWhile_less: "x \<in> set xs \<Longrightarrow> \<not> P x \<Longrightarrow> length (takeWhile P xs) < length xs"
  by (induction xs) auto

lemma first_above_small: "n < 2 ^ 19 \<Longrightarrow> first_above (approx_root n) < 168"
proof -
  assume "n < 2 ^ 19"
  then have "bit_count n div 2 \<le> 9" using bit_count_le[of n 19] by simp
  then have "approx_root n \<le> 2 ^ 9" unfolding approx_root_def by (intro power_increasing) simp_all
  then have "length (takeWhile (\<lambda>p. \<not> p > approx_root n) primes) < length primes"
    by (intro length_takeWhile_less[OF primes_facts(2)]) simp
  then show ?thesis unfolding first_above_def by (simp only: primes_facts(1))
qed

lemma first_above_large: "2 ^ 19 \<le> n \<Longrightarrow> first_above (approx_root n) = 168"
proof -
  assume "2 ^ 19 \<le> n"
  then have "10 \<le> bit_count n div 2" using bit_count_le[of n 19] by simp
  then have "2 ^ 10 \<le> approx_root n" unfolding approx_root_def by (intro power_increasing) simp_all
  then have "takeWhile (\<lambda>p. \<not> p > approx_root n) primes = primes"
    using primes_facts(3) by (simp add: takeWhile_eq_all_conv) fastforce
  then show ?thesis unfolding first_above_def by (simp only: primes_facts(1))
qed

lemma MPIR_Factor_spec:
  assumes "0 < n" "n < 2 ^ 19"
  obtains fs where "MPIR_Factor n d = Some (fs, factors_count fs)" "factors_prod fs = n" "fs \<noteq> []"
    "\<forall>(v, c) \<in> set fs. 0 < v \<and> 0 < c"
proof -
  define ps where "ps = rev (take (first_above (approx_root n) + 1) primes)"
  have i: "first_above (approx_root n) < 168" by (rule first_above_small[OF assms(2)])
  have ps: "\<forall>p \<in> set ps. 2 \<le> p" using primes_facts(3) by (auto simp: ps_def dest: in_set_takeD)
  have s: "sorted_wrt (>) ps" using primes_facts(4) by (simp add: ps_def sorted_wrt_rev sorted_wrt_take)
  have "(2 :: nat) ^ 19 \<le> fact 11" by (simp add: fact_numeral)
  with assms(2) have "n < fact 11" by (rule less_le_trans)
  then have "\<exists>n' gs. factor_loop ps n [] 0 = Some (False, n', [] @ gs, 0 + factors_count gs) \<and> 0 < n'
    \<and> n = factors_prod gs * n' \<and> (\<forall>(v, c) \<in> set gs. v \<in> set ps \<and> 0 < c) \<and> (\<forall>p \<in> set ps. \<not> p dvd n')"
    by (intro factor_loop_spec) (use assms(1) ps s in auto)
  then obtain n' gs where f: "factor_loop ps n [] 0 = Some (False, n', gs, factors_count gs)" "0 < n'"
    "n = factors_prod gs * n'" "\<forall>(v, c) \<in> set gs. v \<in> set ps \<and> 0 < c"
    by auto
  have F: "MPIR_Factor n d = (if gs = [] then Some ([(n', 1)], 1)
      else if n' > 1 then Some (gs @ [(n', 1)], factors_count gs + 1) else Some (gs, factors_count gs))"
    unfolding MPIR_Factor_def Let_def ps_def[symmetric] f(1) using i by simp
  have gs: "\<forall>(v, c) \<in> set gs. 0 < v \<and> 0 < c" using f(4) ps by fastforce
  consider "gs = []" | "gs \<noteq> []" "n' = 1" | "gs \<noteq> []" "n' > 1" using f(2) by linarith
  then show thesis
  proof cases
    case 1
    show thesis
    proof (rule that[of "[(n', 1)]"])
      show "MPIR_Factor n d = Some ([(n', 1)], factors_count [(n', 1)])" unfolding F using 1 by simp
      show "factors_prod [(n', 1)] = n" using f(3) 1 by simp
    qed (use f(2) in auto)
  next
    case 2
    show thesis
    proof (rule that[of gs])
      show "MPIR_Factor n d = Some (gs, factors_count gs)" unfolding F using 2 by simp
      show "factors_prod gs = n" using f(3) 2 by simp
    qed (use 2 gs in auto)
  next
    case 3
    show thesis
    proof (rule that[of "gs @ [(n', 1)]"])
      show "MPIR_Factor n d = Some (gs @ [(n', 1)], factors_count (gs @ [(n', 1)]))" unfolding F using 3 by simp
      show "factors_prod (gs @ [(n', 1)]) = n" using f(3) by simp
    qed (use 3 gs in auto)
  qed
qed

text \<open>A large number makes the routine read past the table, and 0 is divided for ever.\<close>

lemma MPIR_Factor_large: "2 ^ 19 \<le> n \<Longrightarrow> MPIR_Factor n d = None"
  by (simp add: MPIR_Factor_def first_above_large)

lemma factor_loop_zero: "ps \<noteq> [] \<Longrightarrow> factor_loop ps 0 fs nall = None"
  by (cases ps) (simp_all add: divide_out_zero)

lemma MPIR_Factor_zero: "MPIR_Factor 0 d = None"
proof -
  have "take (first_above (approx_root 0) + 1) primes \<noteq> []" using primes_facts(1) by auto
  then show ?thesis by (simp add: MPIR_Factor_def factor_loop_zero Let_def)
qed

section \<open>Choosing\<close>

lemma min_index_less: "chosen \<noteq> [] \<Longrightarrow> min_index chosen < length chosen"
proof -
  assume ne: "chosen \<noteq> []"
  have "snd s < length chosen \<Longrightarrow> (\<forall>i \<in> set is. i < length chosen)
      \<Longrightarrow> snd (fold (\<lambda>ii (cMin, iMin). if chosen ! ii < cMin then (chosen ! ii, ii) else (cMin, iMin)) is s)
        < length chosen" for "is" s
    by (induction "is" arbitrary: s) (auto split: prod.splits)
  then show ?thesis using ne by (simp add: min_index_def)
qed

lemma prod_list_update:
  "i < length xs \<Longrightarrow> prod_list (xs[i := xs ! i * v]) = prod_list xs * (v :: nat)"
  by (induction xs arbitrary: i) (auto split: nat.splits)

text \<open>The entries, all positive, and the index of the one whose turn it is.\<close>

definition choice_ok :: "nat \<Rightarrow> nat \<Rightarrow> nat list \<times> nat \<Rightarrow> bool" where
  "choice_ok needed n = (\<lambda>(chosen, i). length chosen = needed \<and> i < needed \<and> prod_list chosen = n \<and> (\<forall>c \<in> set chosen. 0 < c))"

lemma choose_step_ok:
  assumes "choice_ok needed n ci" "0 < v"
  shows "choice_ok needed (n * v) (choose_step v ci)"
proof -
  obtain chosen i where ci: "ci = (chosen, i)" by fastforce
  let ?i = "if chosen ! i > min_index chosen then min_index chosen else i"
  have l: "length chosen = needed" "i < needed" "prod_list chosen = n" "\<forall>c \<in> set chosen. 0 < c"
    using assms(1) ci by (auto simp: choice_ok_def)
  then have "chosen \<noteq> []" by auto
  then have i: "?i < length chosen" using min_index_less[of chosen] l(1,2) by simp
  then have "\<forall>c \<in> set (chosen[?i := chosen ! ?i * v]). 0 < c"
    using l(4) assms(2) nth_mem[OF i] by (metis in_set_conv_nth length_list_update nat_0_less_mult_iff nth_list_update)
  then show ?thesis using l i prod_list_update[OF i, of v] by (auto simp: ci choice_ok_def choose_step_def Let_def)
qed

lemma choose_power_ok:
  "choice_ok needed n ci \<Longrightarrow> 0 < v \<Longrightarrow> choice_ok needed (n * v ^ c) ((choose_step v ^^ c) ci)"
proof (induction c)
  case (Suc c)
  then have "choice_ok needed (n * v ^ c * v) (choose_step v ((choose_step v ^^ c) ci))"
    by (intro choose_step_ok) auto
  then show ?case by (simp add: ac_simps)
qed simp

lemma choose_fold_ok:
  "choice_ok needed n ci \<Longrightarrow> \<forall>(v, c) \<in> set fs. 0 < v \<Longrightarrow>
   choice_ok needed (n * factors_prod fs) (fold (\<lambda>(v, c). choose_step v ^^ c) fs ci)"
proof (induction fs arbitrary: n ci)
  case (Cons vc fs)
  obtain v c where "vc = (v, c)" by fastforce
  then show ?case
    using Cons.IH[of "n * v ^ c"] choose_power_ok[OF Cons.prems(1), of v c] Cons.prems(2) by (simp add: mult.assoc)
qed simp

interpretation dims_order: exchange_order "(<) :: nat \<Rightarrow> nat \<Rightarrow> bool"
  by unfold_locales auto

text \<open>The chosen values: as many as are needed, in decreasing order, with the product of the factors.\<close>

lemma MPIR_ChooseFactors_spec:
  assumes "0 < needed" "\<forall>(v, c) \<in> set fs. 0 < v"
  shows "length (MPIR_ChooseFactors fs needed) = needed" "prod_list (MPIR_ChooseFactors fs needed) = factors_prod fs"
    "sorted_wrt (\<ge>) (MPIR_ChooseFactors fs needed)" "\<forall>c \<in> set (MPIR_ChooseFactors fs needed). 0 < c"
proof -
  obtain chosen i where ci: "fold (\<lambda>(val, cnt). choose_step val ^^ cnt) fs (replicate needed 1, 0) = (chosen, i)"
    by fastforce
  have "choice_ok needed 1 (replicate needed 1, 0)"
    using assms(1) by (auto simp: choice_ok_def prod_list_replicate)
  from choose_fold_ok[OF this assms(2), unfolded ci] have c: "length chosen = needed" "prod_list chosen = factors_prod fs"
    "\<forall>c \<in> set chosen. 0 < c" by (auto simp: choice_ok_def)
  have m: "MPIR_ChooseFactors fs needed = exchange_sort (<) (needed - 1) (length chosen) chosen"
    using ci c(1) by (simp add: MPIR_ChooseFactors_def)
  have s: "length (exchange_sort (<) (needed - 1) (length chosen) chosen) = length chosen"
    "mset (exchange_sort (<) (needed - 1) (length chosen) chosen) = mset chosen"
    "sorted_wrt (\<lambda>x y. \<not> x < y) (exchange_sort (<) (needed - 1) (length chosen) chosen)"
    using dims_order.sort_spec[of "needed - 1" chosen] dims_order.sorted_after[of chosen "needed - 1"] c(1) assms(1)
    by auto
  show "length (MPIR_ChooseFactors fs needed) = needed" using m s(1) c(1) by simp
  show "prod_list (MPIR_ChooseFactors fs needed) = factors_prod fs"
    using m s(2) c(2) by (metis prod_mset_prod_list)
  show "sorted_wrt (\<ge>) (MPIR_ChooseFactors fs needed)" using m s(3) by (simp add: not_less)
  show "\<forall>c \<in> set (MPIR_ChooseFactors fs needed). 0 < c" using m s(2) c(3) by (metis set_mset_mset)
qed

section \<open>Filling the open entries\<close>

definition open_values :: "int list \<Rightarrow> int list \<Rightarrow> int list" where
  "open_values dims dims' = map snd (filter (\<lambda>(d, d'). d = 0) (zip dims dims'))"

abbreviation open_count :: "int list \<Rightarrow> nat" where
  "open_count dims \<equiv> length (filter (\<lambda>d. d = 0) dims)"

abbreviation given_prod :: "int list \<Rightarrow> int" where
  "given_prod dims \<equiv> prod_list (filter (\<lambda>d. d \<noteq> 0) dims)"

text \<open>
  What the routine promises: the entries given are kept, the open ones are positive and in decreasing
  order, and all together make the number of nodes.
\<close>

definition dims_ok :: "int \<Rightarrow> int list \<Rightarrow> int list \<Rightarrow> bool" where
  "dims_ok nnodes dims dims' \<longleftrightarrow> list_all2 (\<lambda>d d'. d \<noteq> 0 \<longrightarrow> d' = d) dims dims' \<and> prod_list dims' = nnodes
     \<and> sorted_wrt (\<ge>) (open_values dims dims') \<and> (\<forall>v \<in> set (open_values dims dims'). 0 < v)"

lemma open_values_simps [simp]:
  "open_values [] [] = []"
  "open_values (d # ds) (d' # ds') = (if d = 0 then d' # open_values ds ds' else open_values ds ds')"
  by (simp_all add: open_values_def)

lemma fill_chosen_spec:
  "length vs = open_count dims \<Longrightarrow> list_all2 (\<lambda>d d'. d \<noteq> 0 \<longrightarrow> d' = d) dims (fill_chosen dims vs)
    \<and> prod_list (fill_chosen dims vs) = given_prod dims * int (prod_list vs)
    \<and> open_values dims (fill_chosen dims vs) = map int vs"
proof (induction dims arbitrary: vs)
  case (Cons d ds)
  show ?case
  proof (cases "d = 0")
    case True
    with Cons.prems obtain v vs' where "vs = v # vs'" by (cases vs) auto
    then show ?thesis using True Cons by auto
  next
    case False
    then show ?thesis using Cons by auto
  qed
qed simp

text \<open>The powers dealt out when there is one factor.\<close>

fun powers :: "nat \<Rightarrow> nat \<Rightarrow> nat \<Rightarrow> nat \<Rightarrow> nat list" where
  "powers factor each 0 cnt = []"
| "powers factor each (Suc m) cnt =
     (if cnt > each then factor ^ each # powers factor each m (cnt - each)
      else factor ^ cnt # powers factor each m 0)"

lemma fill_power_chosen:
  "fill_power factor each dims cnt = fill_chosen dims (powers factor each (open_count dims) cnt)"
  by (induction factor each dims cnt rule: fill_power.induct) auto

lemma powers_spec:
  assumes "0 < factor" "cnt \<le> m * each"
  shows "length (powers factor each m cnt) = m \<and> prod_list (powers factor each m cnt) = factor ^ cnt
    \<and> (\<forall>v \<in> set (powers factor each m cnt). 0 < v \<and> v \<le> factor ^ min cnt each)
    \<and> sorted_wrt (\<ge>) (powers factor each m cnt)"
  using assms
proof (induction m arbitrary: cnt)
  case (Suc m)
  show ?case
  proof (cases "cnt > each")
    case True
    have IH: "length (powers factor each m (cnt - each)) = m"
      "prod_list (powers factor each m (cnt - each)) = factor ^ (cnt - each)"
      "\<forall>v \<in> set (powers factor each m (cnt - each)). 0 < v \<and> v \<le> factor ^ min (cnt - each) each"
      "sorted_wrt (\<ge>) (powers factor each m (cnt - each))"
      using Suc.IH[of "cnt - each"] Suc.prems by auto
    have "factor ^ min (cnt - each) each \<le> factor ^ each" using Suc.prems(1) by (intro power_increasing) auto
    with IH(3) have "\<forall>v \<in> set (powers factor each m (cnt - each)). 0 < v \<and> v \<le> factor ^ each" by fastforce
    moreover have "factor ^ each * factor ^ (cnt - each) = factor ^ cnt"
      using True by (simp flip: power_add)
    ultimately show ?thesis using True IH Suc.prems(1) by auto
  next
    case False
    have IH: "length (powers factor each m 0) = m" "prod_list (powers factor each m 0) = 1"
      "\<forall>v \<in> set (powers factor each m 0). 0 < v \<and> v \<le> 1" "sorted_wrt (\<ge>) (powers factor each m 0)"
      using Suc.IH[of 0] Suc.prems(1) by auto
    have "1 \<le> factor ^ cnt" using Suc.prems(1) by simp
    then have "\<forall>v \<in> set (powers factor each m 0). v \<le> factor ^ cnt" using IH(3) by fastforce
    then show ?thesis using False IH Suc.prems(1) by auto
  qed
qed simp

lemma dims_ok_fill:
  assumes "length vs = open_count dims" "sorted_wrt (\<ge>) vs" "\<forall>v \<in> set vs. 0 < v"
    "given_prod dims * int (prod_list vs) = nnodes"
  shows "dims_ok nnodes dims (fill_chosen dims vs)"
  using fill_chosen_spec[OF assms(1)] assms(2-4) by (auto simp: dims_ok_def sorted_wrt_map)

section \<open>The routine\<close>

lemma given_prod_pos: "\<forall>d \<in> set ds. 0 \<le> d \<Longrightarrow> 0 < given_prod ds"
  by (induction ds) auto

lemma dims_scan_ok:
  assumes "\<forall>d \<in> set ds. 0 \<le> d" "0 < a" "a * given_prod ds < 2 ^ 31"
  shows "dims_scan ds m a = Some (Inr (m + open_count ds, a * given_prod ds))"
  using assms
proof (induction ds arbitrary: m a)
  case (Cons d ds)
  show ?case
  proof (cases "d = 0")
    case True
    then show ?thesis using Cons by simp
  next
    case False
    then have d: "0 < d" "0 < given_prod ds" using Cons.prems(1) given_prod_pos[of ds] by auto
    have "a * d * 1 \<le> a * d * given_prod ds" using d Cons.prems(2) by (intro mult_left_mono) auto
    then have "a * d < 2 ^ 31" "a * d * given_prod ds < 2 ^ 31" using Cons.prems(3) False by (simp_all add: mult.assoc)
    then show ?thesis using Cons.IH[of "a * d" m] Cons.prems(1,2) d False by (simp add: mult.assoc)
  qed
qed simp

lemma dims_scan_negative:
  assumes "\<forall>d \<in> set ds. 0 \<le> d" "0 < a" "a * given_prod ds < 2 ^ 31" "d < 0"
  shows "dims_scan (ds @ d # ds') m a = Some (Inl (new_error MPI_ERR_DIMS ''**argarrayneg''))"
  using assms
proof (induction ds arbitrary: m a)
  case (Cons x ds)
  show ?case
  proof (cases "x = 0")
    case True
    then show ?thesis using Cons by simp
  next
    case False
    then have x: "0 < x" "0 < given_prod ds" using Cons.prems(1) given_prod_pos[of ds] by auto
    have "a * x * 1 \<le> a * x * given_prod ds" using x Cons.prems(2) by (intro mult_left_mono) auto
    then have "a * x < 2 ^ 31" "a * x * given_prod ds < 2 ^ 31" using Cons.prems(3) False by (simp_all add: mult.assoc)
    then show ?thesis using Cons.IH[of "a * x" m] Cons.prems(1,2,4) x False by simp
  qed
qed simp

text \<open>The part of the routine behind its checks.\<close>

lemma MPIR_Dims_create_fill:
  assumes "0 < n" "n < 2 ^ 19" "0 < open_count ds"
  shows "\<exists>fs vs. MPIR_Factor n 0 = Some (fs, factors_count fs) \<and> length vs = open_count ds \<and> sorted_wrt (\<ge>) vs
    \<and> (\<forall>v \<in> set vs. 0 < v) \<and> prod_list vs = n
    \<and> fill_chosen ds vs =
        (if factors_count fs \<le> open_count ds then fill_chosen ds (MPIR_ChooseFactors fs (open_count ds))
         else if length fs = 1 then
           (let (factor, cnt) = fs ! 0 in
            fill_power factor ((cnt + open_count ds - 1) div open_count ds) ds cnt)
         else fill_chosen ds (MPIR_ChooseFactors fs (open_count ds)))"
proof (rule MPIR_Factor_spec[OF assms(1,2), of 0])
  fix fs assume f: "MPIR_Factor n 0 = Some (fs, factors_count fs)" "factors_prod fs = n"
    "\<forall>(v, c) \<in> set fs. 0 < v \<and> 0 < c"
  show ?thesis
  proof (cases "factors_count fs > open_count ds \<and> length fs = 1")
    case True
    then obtain v c where fs: "fs = [(v, c)]" by (cases fs) auto
    let ?m = "open_count ds" and ?each = "(c + open_count ds - 1) div open_count ds"
    have vc: "0 < v" "0 < c" "v ^ c = n" using f fs by auto
    have "c \<le> ?m * ?each"
    proof -
      have "c + ?m - 1 < ?m * ?each + ?m" using dividend_less_times_div[of ?m "c + ?m - 1"] assms(3) by simp
      then show ?thesis by simp
    qed
    from powers_spec[OF vc(1) this] show ?thesis using f True fs vc(3)
      by (intro exI[of _ fs] exI[of _ "powers v ?each ?m c"]) (auto simp: fill_power_chosen)
  next
    case False
    have "\<forall>(v, c) \<in> set fs. 0 < v" using f(3) by auto
    note c = MPIR_ChooseFactors_spec[OF assms(3) this]
    show ?thesis using f(1,2) c False
      by (intro exI[of _ fs] exI[of _ "MPIR_ChooseFactors fs (open_count ds)"]) auto
  qed
qed

text \<open>The routine on arguments that are not negative.\<close>

lemma dims_create_step:
  fixes dims :: "int list" and ndims :: int
  defines "ds \<equiv> take (nat ndims) dims"
  assumes "0 \<le> nnodes" "0 \<le> ndims" "\<forall>d \<in> set ds. 0 \<le> d" "given_prod ds < 2 ^ 31"
  shows "if \<not> given_prod ds dvd nnodes
      then MPI_Dims_create None nnodes ndims dims = Some (Inl (new_error MPI_ERR_DIMS ''**dimspartition''))
    else if open_count ds = 0 then MPI_Dims_create None nnodes ndims dims = Some (Inr ds)
    else if open_count ds > 20
      then MPI_Dims_create None nnodes ndims dims = Some (Inl (new_error MPI_ERR_DIMS ''**dimsmany''))
    else if nnodes = 0 \<or> nnodes div given_prod ds \<ge> 2 ^ 19 then MPI_Dims_create None nnodes ndims dims = None
    else \<exists>ds'. MPI_Dims_create None nnodes ndims dims = Some (Inr ds') \<and> dims_ok nnodes ds ds'"
proof -
  let ?P = "given_prod ds" and ?r = "MPI_Dims_create None nnodes ndims dims"
  have P: "0 < ?P" by (rule given_prod_pos[OF assms(4)])
  have r: "?r = MPIR_Dims_create nnodes ds" using assms(2,3) by (simp add: MPI_Dims_create_def ds_def)
  have scan: "dims_scan ds 0 1 = Some (Inr (open_count ds, ?P))"
    using dims_scan_ok[OF assms(4), of 1 0] assms(5) by simp
  have dvd: "(nnodes div ?P) * ?P = nnodes \<longleftrightarrow> ?P dvd nnodes" by (metis dvd_div_mult_self dvd_triv_right)
  note step = r MPIR_Dims_create_def scan
  consider "\<not> ?P dvd nnodes \<or> open_count ds = 0 \<or> open_count ds > 20"
    | "?P dvd nnodes" "0 < open_count ds" "open_count ds \<le> 20" "nnodes = 0 \<or> nnodes div ?P \<ge> 2 ^ 19"
    | "?P dvd nnodes" "0 < open_count ds" "open_count ds \<le> 20" "nnodes \<noteq> 0" "nnodes div ?P < 2 ^ 19"
    by linarith
  then show ?thesis
  proof cases
    case 1
    then show ?thesis by (auto simp: step dvd)
  next
    case 2
    from 2(4) have f: "MPIR_Factor (nat (nnodes div ?P)) 0 = None"
      by (elim disjE) (auto simp: MPIR_Factor_zero MPIR_Factor_large)
    have "MPIR_Dims_create nnodes ds = None"
      unfolding MPIR_Dims_create_def scan using 2(1-3) dvd f by simp
    then show ?thesis unfolding r using 2 by auto
  next
    case 3
    let ?n = "nat (nnodes div ?P)"
    have n: "0 < nnodes div ?P" using 3(1,4) assms(2) P by (auto elim!: dvdE simp: zero_le_mult_iff)
    then have "0 < ?n" "?n < 2 ^ 19" using 3(5) by auto
    from MPIR_Dims_create_fill[OF this 3(2)] obtain fs vs where v: "MPIR_Factor ?n 0 = Some (fs, factors_count fs)"
      "length vs = open_count ds" "sorted_wrt (\<ge>) vs" "\<forall>v \<in> set vs. 0 < v" "prod_list vs = ?n"
      "fill_chosen ds vs =
        (if factors_count fs \<le> open_count ds then fill_chosen ds (MPIR_ChooseFactors fs (open_count ds))
         else if length fs = 1 then
           (let (factor, cnt) = fs ! 0 in
            fill_power factor ((cnt + open_count ds - 1) div open_count ds) ds cnt)
         else fill_chosen ds (MPIR_ChooseFactors fs (open_count ds)))" by blast
    have "?r = Some (Inr (fill_chosen ds vs))"
      unfolding step using 3 v(1) dvd by (simp add: v(6) Let_def split: prod.split)
    moreover have "dims_ok nnodes ds (fill_chosen ds vs)"
      by (rule dims_ok_fill[OF v(2-4)]) (use v(5) n 3(1) in simp)
    ultimately show ?thesis using 3 by auto
  qed
qed

text \<open>
  C20: \<open>MPI_Dims_create\<close> on any arguments whose given dimensions have a product that fits an integer. It refuses
  negative counts of nodes and of dimensions, negative dimensions, dimensions that do not divide the nodes, and
  more than 20 open dimensions, each with its own error. Otherwise it keeps the dimensions given and sets the
  open ones to positive values in decreasing order so that the product of all is the number of nodes; except
  that for 0 nodes it never returns, and for \<open>2^19\<close> nodes or more to distribute it reads past its table of
  primes.
\<close>

theorem MPI_Dims_create_correct:
  fixes dims :: "int list" and ndims :: int
  defines "ds \<equiv> take (nat ndims) dims"
  assumes "given_prod (takeWhile (\<lambda>d. 0 \<le> d) ds) < 2 ^ 31"
  shows "if nnodes < 0 \<or> ndims < 0
      then MPI_Dims_create None nnodes ndims dims = Some (Inl (Err MPI_ERR_ARG [''**mpi_dims_create'', ''**argneg'']))
    else if \<exists>d \<in> set ds. d < 0
      then MPI_Dims_create None nnodes ndims dims = Some (Inl (new_error MPI_ERR_DIMS ''**argarrayneg''))
    else if \<not> given_prod ds dvd nnodes
      then MPI_Dims_create None nnodes ndims dims = Some (Inl (new_error MPI_ERR_DIMS ''**dimspartition''))
    else if open_count ds = 0 then MPI_Dims_create None nnodes ndims dims = Some (Inr ds)
    else if open_count ds > 20
      then MPI_Dims_create None nnodes ndims dims = Some (Inl (new_error MPI_ERR_DIMS ''**dimsmany''))
    else if nnodes = 0 \<or> nnodes div given_prod ds \<ge> 2 ^ 19 then MPI_Dims_create None nnodes ndims dims = None
    else \<exists>ds'. MPI_Dims_create None nnodes ndims dims = Some (Inr ds') \<and> dims_ok nnodes ds ds'"
proof (cases "nnodes < 0 \<or> ndims < 0 \<or> (\<exists>d \<in> set ds. d < 0)")
  case True
  then show ?thesis
  proof (cases "nnodes < 0 \<or> ndims < 0")
    case False
    then have neg: "\<exists>d \<in> set ds. d < 0" using True by blast
    obtain d ds' where d: "ds = takeWhile (\<lambda>d. 0 \<le> d) ds @ d # ds'" "d < 0"
      using neg by (metis hd_dropWhile list.collapse not_le dropWhile_eq_Nil_conv takeWhile_dropWhile_id)
    have "dims_scan ds 0 1 = Some (Inl (new_error MPI_ERR_DIMS ''**argarrayneg''))"
      by (subst d(1), rule dims_scan_negative) (use assms(2) d(2) set_takeWhileD[of _ "\<lambda>d. 0 \<le> d" ds] in auto)
    then show ?thesis using False neg by (simp add: MPI_Dims_create_def MPIR_Dims_create_def ds_def)
  qed (auto simp: MPI_Dims_create_def fn_fail_def create_code_def)
next
  case False
  then have pos: "\<forall>d \<in> set ds. 0 \<le> d" "0 \<le> nnodes" "0 \<le> ndims" by auto
  then have all: "takeWhile (\<lambda>d. 0 \<le> d) ds = ds" by (simp add: takeWhile_eq_all_conv)
  have "given_prod ds < 2 ^ 31" using assms(2) unfolding all .
  from dims_create_step[OF pos(2,3) pos(1)[unfolded ds_def] this[unfolded ds_def]] show ?thesis
    using False unfolding ds_def[symmetric] by simp
qed

text \<open>What the routine answers on concrete input; nothing is promised of how even the dimensions are.\<close>

lemma dims_examples:
  "MPI_Dims_create None 32 4 [0, 0, 0, 0] = Some (Inr [4, 4, 2, 1])"
  "MPI_Dims_create None 361 2 [0, 0] = Some (Inr [361, 1])"
  "MPI_Dims_create None 108 4 [0, 0, 0, 0] = Some (Inr [6, 3, 3, 2])"
  by code_simp+

text \<open>The routine applied: six nodes left for two open dimensions, and none at all.\<close>

lemma MPI_Dims_create_correct_witness:
  "(\<exists>ds'. MPI_Dims_create None 12 3 [0, 2, 0] = Some (Inr ds') \<and> dims_ok 12 [0, 2, 0] ds')
    \<and> MPI_Dims_create None 12 2 [0, - 2] = Some (Inl (new_error MPI_ERR_DIMS ''**argarrayneg''))
    \<and> MPI_Dims_create None 0 1 [0] = None \<and> MPI_Dims_create None 524288 1 [0] = None"
  using MPI_Dims_create_correct[of 3 "[0, 2, 0]" 12] MPI_Dims_create_correct[of 2 "[0, - 2]" 12]
    MPI_Dims_create_correct[of 1 "[0]" 0] MPI_Dims_create_correct[of 1 "[0]" 524288] by simp

end
