(* ===== verification/CommSplit.thy ===== *)
theory CommSplit
  imports ExchangeSort
begin

text \<open>
  The tables of \<open>MPI_Comm_split\<close>, src/src/mpi/comm/comm_split.c: the colors and keys of all
  processes, the chain of those with the caller's color through the table, and the sort of their
  keys. Everything here is a function of the table, which is the same in all processes.
\<close>

record splittype =
  sp_color :: int
  sp_key :: int

text \<open>\<open>MPIU_Sort_inttable\<close>.\<close>

definition MPIU_Sort_inttable :: "splittype list \<Rightarrow> splittype list" where
  "MPIU_Sort_inttable keytable =
     exchange_sort (\<lambda>x y. sp_key x > sp_key y) (length keytable) (length keytable) keytable"

text \<open>
  Step 2: the color of each process of our color is replaced by the index of the next one.
  \<open>last_ptr\<close> is the address of \<open>first_entry\<close> (\<open>None\<close>) or of the color of an entry of the table.
\<close>

fun mark_loop :: "int \<Rightarrow> nat list \<Rightarrow> splittype list \<Rightarrow> nat option \<Rightarrow> int \<Rightarrow> nat
    \<Rightarrow> splittype list \<times> int \<times> nat" where
  "mark_loop color [] table last_ptr first_entry new_size = (table, first_entry, new_size)"
| "mark_loop color (i # is) table last_ptr first_entry new_size =
     (if sp_color (table ! i) = color then
        (case last_ptr of
           None \<Rightarrow> mark_loop color is table (Some i) (int i) (new_size + 1)
         | Some l \<Rightarrow> mark_loop color is (table[l := (table ! l)\<lparr>sp_color := int i\<rparr>]) (Some i) first_entry (new_size + 1))
      else mark_loop color is table last_ptr first_entry new_size)"

text \<open>Step 4: the chain is copied to the table of keys, whose color is the rank in the old communicator.\<close>

fun extract_loop :: "nat \<Rightarrow> splittype list \<Rightarrow> int \<Rightarrow> splittype list" where
  "extract_loop 0 table first_entry = []"
| "extract_loop (Suc n) table first_entry =
     \<lparr>sp_color = first_entry, sp_key = sp_key (table ! nat first_entry)\<rparr>
       # extract_loop n table (sp_color (table ! nat first_entry))"

section \<open>The chain\<close>

text \<open>The processes of a color, as the table of keys lists them before the sort.\<close>

definition of_color :: "splittype list \<Rightarrow> int \<Rightarrow> nat list" where
  "of_color table color = filter (\<lambda>i. sp_color (table ! i) = color) [0..<length table]"

definition key_entries :: "splittype list \<Rightarrow> nat list \<Rightarrow> splittype list" where
  "key_entries table is = map (\<lambda>i. \<lparr>sp_color = int i, sp_key = sp_key (table ! i)\<rparr>) is"

fun linked :: "splittype list \<Rightarrow> nat list \<Rightarrow> bool" where
  "linked table (i # j # is) \<longleftrightarrow> sp_color (table ! i) = int j \<and> linked table (j # is)"
| "linked table _ \<longleftrightarrow> True"

lemma linked_cong:
  "linked t is \<Longrightarrow> \<forall>i \<in> set (butlast is). sp_color (t' ! i) = sp_color (t ! i) \<Longrightarrow> linked t' is"
  by (induction t "is" rule: linked.induct) (auto split: if_splits)

lemma extract_linked:
  "linked t (i # is) \<Longrightarrow> extract_loop (length (i # is)) t (int i) = key_entries t (i # is)"
  by (induction "is" arbitrary: i) (auto simp: key_entries_def)

text \<open>
  From an entry \<open>l\<close> of the color on, all later ones of the color are chained behind it, and no key
  changes.
\<close>

lemma mark_loop_some:
  assumes "sorted_wrt (<) (l # is)" "\<forall>i \<in> set (l # is). i < length t"
  shows "\<exists>t'. mark_loop color is t (Some l) f n = (t', f, n + length (filter (\<lambda>i. sp_color (t ! i) = color) is))
    \<and> linked t' (l # filter (\<lambda>i. sp_color (t ! i) = color) is) \<and> map sp_key t' = map sp_key t
    \<and> (\<forall>j. j < l \<longrightarrow> t' ! j = t ! j)"
  using assms
proof (induction "is" arbitrary: l t n)
  case (Cons i "is")
  show ?case
  proof (cases "sp_color (t ! i) = color")
    case True
    let ?t = "t[l := (t ! l)\<lparr>sp_color := int i\<rparr>]"
    have same: "filter (\<lambda>j. sp_color (?t ! j) = color) is = filter (\<lambda>j. sp_color (t ! j) = color) is"
      using Cons.prems by (auto intro!: filter_cong)
    obtain t' where t': "mark_loop color is ?t (Some i) f (n + 1)
        = (t', f, n + 1 + length (filter (\<lambda>j. sp_color (t ! j) = color) is))"
      "linked t' (i # filter (\<lambda>j. sp_color (t ! j) = color) is)" "map sp_key t' = map sp_key ?t"
      "\<forall>j. j < i \<longrightarrow> t' ! j = ?t ! j"
      using Cons.IH[of i ?t "n + 1"] Cons.prems unfolding same by auto
    have "map sp_key ?t = map sp_key t" using Cons.prems(2) by (simp add: map_update list_update_same_conv)
    then show ?thesis using True t' Cons.prems by auto
  next
    case False
    then show ?thesis using Cons.IH[of l t n] Cons.prems by auto
  qed
qed simp

lemma mark_loop_none:
  assumes "sorted_wrt (<) is" "\<forall>i \<in> set is. i < length t"
  shows "\<exists>t' f'. mark_loop color is t None f n = (t', f', n + length (filter (\<lambda>i. sp_color (t ! i) = color) is))
    \<and> map sp_key t' = map sp_key t
    \<and> (\<forall>i is'. filter (\<lambda>i. sp_color (t ! i) = color) is = i # is' \<longrightarrow> f' = int i \<and> linked t' (i # is'))"
  using assms
proof (induction "is")
  case (Cons i "is")
  show ?case
  proof (cases "sp_color (t ! i) = color")
    case True
    then show ?thesis using mark_loop_some[OF Cons.prems, of color "int i" "n + 1"] by auto
  next
    case False
    then show ?thesis using Cons by auto
  qed
qed simp

text \<open>The table of keys before the sort: the processes of the color in the order of their ranks.\<close>

definition split_entries :: "splittype list \<Rightarrow> int \<Rightarrow> splittype list" where
  "split_entries table color =
     (case mark_loop color [0..<length table] table None 0 0 of (table, first_entry, new_size) \<Rightarrow>
        extract_loop new_size table first_entry)"

lemma split_entries_eq: "split_entries table color = key_entries table (of_color table color)"
proof -
  obtain t' f' where m: "mark_loop color [0..<length table] table None 0 0 = (t', f', length (of_color table color))"
    "map sp_key t' = map sp_key table"
    "\<And>i is. of_color table color = i # is \<Longrightarrow> f' = int i \<and> linked t' (i # is)"
    using mark_loop_none[of "[0..<length table]" table color 0 0] by (auto simp: of_color_def)
  have len: "length t' = length table" using m(2) by (metis length_map)
  have keys: "sp_key (t' ! i) = sp_key (table ! i)" if "i \<in> set (of_color table color)" for i
    using that m(2) len by (auto simp: of_color_def) (metis nth_map)
  show ?thesis
  proof (cases "of_color table color")
    case Nil
    then show ?thesis using m(1) by (simp add: split_entries_def key_entries_def)
  next
    case (Cons i "is")
    then have "split_entries table color = key_entries t' (i # is)"
      using m extract_linked[of t' i "is"] by (simp add: split_entries_def)
    then show ?thesis using Cons keys by (simp add: key_entries_def)
  qed
qed

section \<open>The order\<close>

interpretation inttable_order: exchange_order "\<lambda>x y. sp_key x > sp_key y"
  by unfold_locales auto

text \<open>The ranks of the new communicator in the order the routine makes, each as its rank in the old one.\<close>

definition split_order :: "splittype list \<Rightarrow> int \<Rightarrow> nat list" where
  "split_order table color = map (\<lambda>e. nat (sp_color e)) (MPIU_Sort_inttable (split_entries table color))"

lemma set_of_color: "set (of_color table color) = {i. i < length table \<and> sp_color (table ! i) = color}"
  by (auto simp: of_color_def)

lemma distinct_of_color: "distinct (of_color table color)"
  by (simp add: of_color_def)

lemma sorted_entries:
  "mset (MPIU_Sort_inttable t) = mset t" "sorted_wrt (\<lambda>x y. sp_key x \<le> sp_key y) (MPIU_Sort_inttable t)"
proof -
  show "mset (MPIU_Sort_inttable t) = mset t"
    using inttable_order.sort_spec[of "length t" t] by (simp add: MPIU_Sort_inttable_def)
  have "sorted_wrt (\<lambda>x y. \<not> sp_key y < sp_key x) (MPIU_Sort_inttable t)"
    using inttable_order.sorted_after[of t "length t"] by (simp add: MPIU_Sort_inttable_def)
  then show "sorted_wrt (\<lambda>x y. sp_key x \<le> sp_key y) (MPIU_Sort_inttable t)" by (simp add: not_less)
qed

lemma sorted_entries_map:
  "MPIU_Sort_inttable (split_entries table color) = key_entries table (split_order table color)"
proof (rule nth_equalityI)
  let ?s = "MPIU_Sort_inttable (split_entries table color)"
  show "length ?s = length (key_entries table (split_order table color))"
    by (simp add: key_entries_def split_order_def)
  fix i assume "i < length ?s"
  then have "?s ! i \<in> set (key_entries table (of_color table color))"
    using sorted_entries(1)[of "split_entries table color"] by (metis nth_mem set_mset_mset split_entries_eq)
  then show "?s ! i = key_entries table (split_order table color) ! i"
    using \<open>i < length ?s\<close> by (auto simp: key_entries_def split_order_def)
qed

lemma mset_split_order: "mset (split_order table color) = mset (of_color table color)"
proof -
  have "mset (split_order table color) = image_mset (\<lambda>e. nat (sp_color e)) (mset (split_entries table color))"
    by (simp add: split_order_def sorted_entries(1))
  also have "\<dots> = mset (of_color table color)"
    by (simp add: split_entries_eq key_entries_def multiset.map_comp o_def)
  finally show ?thesis .
qed

lemma split_order_facts:
  "set (split_order table color) = {i. i < length table \<and> sp_color (table ! i) = color}"
  "distinct (split_order table color)" "length (split_order table color) = length (of_color table color)"
  using mset_split_order[of table color] set_of_color[of table color] distinct_of_color[of table color]
  by (metis set_mset_mset, metis mset_eq_imp_distinct_iff, metis size_mset)

lemma split_order_sorted: "sorted (map (\<lambda>i. sp_key (table ! i)) (split_order table color))"
proof -
  have "sorted_wrt (\<lambda>x y. sp_key x \<le> sp_key y) (key_entries table (split_order table color))"
    using sorted_entries(2) by (metis sorted_entries_map)
  then show ?thesis by (simp add: key_entries_def sorted_wrt_map)
qed

text \<open>
  What an order of the processes of a color has to be: all of them, each once, by increasing key. Equal keys can
  stand in any order.
\<close>

definition color_order :: "splittype list \<Rightarrow> int \<Rightarrow> nat list \<Rightarrow> bool" where
  "color_order table color order \<longleftrightarrow> set order = {i. i < length table \<and> sp_color (table ! i) = color} \<and> distinct order
     \<and> sorted (map (\<lambda>i. sp_key (table ! i)) order)"

lemma split_order_ok: "color_order table color (split_order table color)"
  by (simp add: color_order_def split_order_facts split_order_sorted)

lemma filter_single: "distinct xs \<Longrightarrow> k \<in> set xs \<Longrightarrow> filter (\<lambda>x. x = k) xs = [k]"
  by (induction xs) (auto simp: filter_empty_conv)

text \<open>With one key for each process of a color the order is the one by key; equal keys can change places.\<close>

lemma split_order_distinct_keys:
  assumes "inj_on (\<lambda>i. sp_key (table ! i)) (set (of_color table color))"
  shows "split_order table color = sort_key (\<lambda>i. sp_key (table ! i)) (of_color table color)"
proof (rule sym, rule properties_for_sort_key)
  show "mset (split_order table color) = mset (of_color table color)" by (rule mset_split_order)
  show "sorted (map (\<lambda>i. sp_key (table ! i)) (split_order table color))" by (rule split_order_sorted)
  show "filter (\<lambda>x. sp_key (table ! k) = sp_key (table ! x)) (split_order table color)
      = filter (\<lambda>x. sp_key (table ! k) = sp_key (table ! x)) (of_color table color)"
    if "k \<in> set (split_order table color)" for k
  proof -
    have "k \<in> set (of_color table color)" using that by (simp add: split_order_facts(1) set_of_color)
    then have one: "filter (\<lambda>x. sp_key (table ! k) = sp_key (table ! x)) xs = [k]"
      if "distinct xs" "set xs = set (of_color table color)" for xs
    proof -
      have "filter (\<lambda>x. sp_key (table ! k) = sp_key (table ! x)) xs = filter (\<lambda>x. x = k) xs"
        using assms that(2) \<open>k \<in> set (of_color table color)\<close> by (intro filter_cong) (auto dest: inj_onD)
      also have "\<dots> = [k]"
        using that \<open>k \<in> set (of_color table color)\<close> by (intro filter_single) simp_all
      finally show ?thesis .
    qed
    show ?thesis using one[of "split_order table color"] one[of "of_color table color"]
      by (simp add: split_order_facts distinct_of_color set_of_color)
  qed
qed

text \<open>
  Three processes of one color with the keys 2, 2 and 1: the first two, with equal keys, come out in
  the opposite order of their ranks.
\<close>

lemma split_order_not_stable:
  "split_order [\<lparr>sp_color = 0, sp_key = 2\<rparr>, \<lparr>sp_color = 0, sp_key = 2\<rparr>, \<lparr>sp_color = 0, sp_key = 1\<rparr>] 0 = [2, 1, 0]"
  by code_simp

end
