(* ===== verification/MpiComm.thy ===== *)
theory MpiComm
  imports MpiGroup CommSplit ContextId
begin

text \<open>
  Communicator objects, src/src/mpi/comm: \<open>MPID_Comm\<close> on the handle pool \<open>MPID_Comm_mem\<close> and the
  static array of builtin ones, their creation, copy and split, with the context ids they take. A
  table of virtual connections is the list of its connections; the reference counts the device keeps
  of connections and tables are its own, and the answers of the collective operations the routines
  call are an argument.
\<close>

section \<open>State\<close>

datatype comm_kind = MPID_INTRACOMM | MPID_INTERCOMM

record comm_body =
  cm_ref_count :: int
  cm_context_id :: int
  cm_recvcontext_id :: int
  cm_rank :: int
  cm_local_size :: int
  cm_remote_size :: int
  cm_kind :: comm_kind
  cm_vcr :: "nat list"
  cm_local_vcr :: "nat list"
  cm_attributes :: nat
  cm_local_group :: nat
  cm_remote_group :: nat
  cm_errhandler :: nat
  cm_local_comm :: nat
  cm_coll_fns :: nat
  cm_topo_fns :: nat
  cm_is_low_group :: bool
  cm_name :: string

record comm_heap = handle_heap +
  comm_of :: "nat \<Rightarrow> comm_body"

record comm_state =
  cheap :: comm_heap
  MPID_Comm_mem :: MPIU_Object_alloc_t
  MPID_Comm_builtin :: nat
  comm_ids :: contextid_state
  errhandler_ref :: "nat \<Rightarrow> int"

text \<open>
  What a routine gets from outside: the allocator's memory, the answer of the \<open>MPI_Allreduce\<close> behind a
  context id, the tables the two \<open>MPI_Allgather\<close> leave, and the context id of the other group of an
  intercommunicator, which the leaders exchange and broadcast, or the error
  of the exchange; \<open>ce_malloc\<close> says which of the local tables could be allocated.
\<close>

record comm_env =
  ce_calloc :: calloc_env
  ce_allreduce :: "32 word list \<Rightarrow> 32 word list option"
  ce_table :: "splittype list"
  ce_remote_table :: "splittype list"
  ce_remote_id :: int
  ce_exchange_error :: "mpi_err option"
  ce_malloc :: "string \<Rightarrow> bool"

abbreviation MPID_COMM :: handle where "MPID_COMM \<equiv> 1"
abbreviation MPI_COMM_NULL :: handle where "MPI_COMM_NULL \<equiv> 0x04000000"

abbreviation body :: "comm_state \<Rightarrow> nat \<Rightarrow> comm_body" where
  "body st \<equiv> comm_of (cheap st)"

definition set_body :: "nat \<Rightarrow> comm_body \<Rightarrow> comm_state \<Rightarrow> comm_state" where
  "set_body p b st = st\<lparr>cheap := (cheap st)\<lparr>comm_of := (comm_of (cheap st))(p := b)\<rparr>\<rparr>"

section \<open>Handles\<close>

definition errtest_comm :: "handle \<Rightarrow> mpi_err option" where
  "errtest_comm c =
     (if c = MPI_COMM_NULL then Some (new_error MPI_ERR_COMM ''**commnull'')
      else if HANDLE_GET_MPI_KIND c \<noteq> MPID_COMM \<or> HANDLE_GET_KIND c = HANDLE_KIND_INVALID
      then Some (new_error MPI_ERR_COMM ''**comm'') else None)"

definition MPID_Comm_get_ptr :: "comm_state \<Rightarrow> handle \<Rightarrow> nat" where
  "MPID_Comm_get_ptr st c =
     (if HANDLE_GET_KIND c = HANDLE_KIND_BUILTIN
      then MPID_Comm_builtin st + unat (HANDLE_INDEX c) * om_size (MPID_Comm_mem st)
      else MPID_Get_ptr (MPID_Comm_mem st) c)"

definition MPID_Comm_valid_ptr :: "comm_state \<Rightarrow> nat \<Rightarrow> mpi_err option" where
  "MPID_Comm_valid_ptr st p =
     (if p = 0 then Some (new_error MPI_ERR_COMM ''**nullptrtype'')
      else if cm_ref_count (body st p) = 0 then Some (new_error MPI_ERR_COMM ''**comm'') else None)"

definition get_comm :: "comm_state \<Rightarrow> handle \<Rightarrow> mpi_err + nat" where
  "get_comm st c =
     (case errtest_comm c of
        Some e \<Rightarrow> Inl e
      | None \<Rightarrow> (let p = MPID_Comm_get_ptr st c in
          case MPID_Comm_valid_ptr st p of Some e \<Rightarrow> Inl e | None \<Rightarrow> Inr p))"

definition MPI_Comm_rank :: "comm_state \<Rightarrow> handle \<Rightarrow> mpi_err + int" where
  "MPI_Comm_rank st comm =
     (case get_comm st comm of Inl e \<Rightarrow> Inl (fn_fail ''**mpi_comm_rank'' e) | Inr p \<Rightarrow> Inr (cm_rank (body st p)))"

definition MPI_Comm_size :: "comm_state \<Rightarrow> handle \<Rightarrow> mpi_err + int" where
  "MPI_Comm_size st comm =
     (case get_comm st comm of Inl e \<Rightarrow> Inl (fn_fail ''**mpi_comm_size'' e) | Inr p \<Rightarrow> Inr (cm_local_size (body st p)))"

section \<open>Creation\<close>

definition MPIR_Comm_create :: "calloc_env \<Rightarrow> comm_state \<Rightarrow> comm_state \<times> (mpi_err + nat)" where
  "MPIR_Comm_create e st =
     (case MPIU_Handle_obj_alloc e (cheap st) (MPID_Comm_mem st) of (h, om, newptr) \<Rightarrow>
        (let st = st\<lparr>cheap := h, MPID_Comm_mem := om\<rparr> in
         if newptr = 0 then (st, Inl (new_error MPI_ERR_OTHER ''**nomem''))
         else (set_body newptr ((body st newptr)\<lparr>cm_ref_count := 1, cm_errhandler := 0, cm_attributes := 0,
                  cm_remote_group := 0, cm_local_group := 0, cm_coll_fns := 0, cm_topo_fns := 0, cm_name := []\<rparr>) st,
               Inr newptr)))"

definition MPIR_Setup_intercomm_localcomm :: "calloc_env \<Rightarrow> comm_state \<Rightarrow> nat \<Rightarrow> comm_state \<times> mpi_err option" where
  "MPIR_Setup_intercomm_localcomm e st intercomm =
     (case MPIU_Handle_obj_alloc e (cheap st) (MPID_Comm_mem st) of (h, om, q) \<Rightarrow>
        (let st = st\<lparr>cheap := h, MPID_Comm_mem := om\<rparr> in
         if q = 0 then (st, Some (new_error MPI_ERR_OTHER ''**nomem''))
         else
           (let b = body st intercomm;
                st = set_body q ((body st q)\<lparr>cm_ref_count := 1, cm_context_id := cm_recvcontext_id b + 1,
                  cm_recvcontext_id := cm_recvcontext_id b + 1, cm_vcr := cm_local_vcr b, cm_kind := MPID_INTRACOMM,
                  cm_remote_size := cm_local_size b, cm_local_size := cm_local_size b, cm_rank := cm_rank b,
                  cm_local_group := 0, cm_remote_group := 0, cm_errhandler := 0, cm_coll_fns := 0, cm_topo_fns := 0,
                  cm_name := [], cm_attributes := 0\<rparr>) st in
            (set_body intercomm ((body st intercomm)\<lparr>cm_local_comm := q\<rparr>) st, None))))"

definition get_contextid :: "comm_env \<Rightarrow> comm_state \<Rightarrow> comm_state \<times> int" where
  "get_contextid e st =
     (case MPIR_Get_contextid (ce_allreduce e) (comm_ids st) of (ids, context_id) \<Rightarrow>
        (st\<lparr>comm_ids := ids\<rparr>, context_id))"

text \<open>
  \<open>MPIR_Get_intercomm_contextid\<close>. When no id is free it leaves its two outputs unset and returns
  success: the inner \<open>None\<close>. The outer one is the use of a local communicator that could not be made.
\<close>

definition MPIR_Get_intercomm_contextid :: "comm_env \<Rightarrow> comm_state \<Rightarrow> nat \<Rightarrow> (comm_state \<times> (int \<times> int) option) option" where
  "MPIR_Get_intercomm_contextid e st p =
     (let st = (if cm_local_comm (body st p) = 0 then fst (MPIR_Setup_intercomm_localcomm (ce_calloc e) st p) else st) in
      if cm_local_comm (body st p) = 0 then None
      else
     (case get_contextid e st of (st, mycontext_id) \<Rightarrow>
        if mycontext_id = 0 then Some (st, None)
        else Some (st, Some (ce_remote_id e, mycontext_id))))"

definition add_errhandler_ref :: "nat \<Rightarrow> comm_state \<Rightarrow> comm_state" where
  "add_errhandler_ref eh st =
     (if eh \<noteq> 0 then st\<lparr>errhandler_ref := (errhandler_ref st)(eh := errhandler_ref st eh + 1)\<rparr> else st)"

text \<open>
  \<open>MPIR_Comm_copy\<close>; the pointer is 0 in a process that is not in the copy. \<open>None\<close> is the use of a local
  communicator that is not there, or of context ids that were not set.
\<close>

definition copy_body :: "comm_body \<Rightarrow> int \<Rightarrow> int \<Rightarrow> int \<Rightarrow> comm_body \<Rightarrow> comm_body" where
  "copy_body c csize new_context_id new_recvcontext_id b =
     b\<lparr>cm_context_id := new_context_id, cm_recvcontext_id := new_recvcontext_id, cm_kind := cm_kind c,
       cm_local_comm := 0,
       cm_vcr := (if csize = cm_local_size c then cm_vcr c else map (\<lambda>i. cm_vcr c ! i) [0..<nat csize]),
       cm_local_vcr := (if cm_kind c = MPID_INTERCOMM then cm_local_vcr c else cm_local_vcr b),
       cm_rank := cm_rank c,
       cm_local_size := (if cm_kind c = MPID_INTERCOMM then cm_local_size c else csize),
       cm_remote_size := (if cm_kind c = MPID_INTERCOMM then cm_remote_size c else csize),
       cm_errhandler := cm_errhandler c, cm_attributes := 0\<rparr>"

definition comm_copy_ids :: "comm_env \<Rightarrow> comm_state \<Rightarrow> nat \<Rightarrow> (comm_state \<times> int \<times> int) option" where
  "comm_copy_ids e st p =
     (if cm_kind (body st p) = MPID_INTERCOMM then
        (case MPIR_Get_intercomm_contextid e st p of
           None \<Rightarrow> None
         | Some (st, None) \<Rightarrow> None
         | Some (st, Some (new_context_id, new_recvcontext_id)) \<Rightarrow> Some (st, new_context_id, new_recvcontext_id))
      else (case get_contextid e st of (st, new_context_id) \<Rightarrow> Some (st, new_context_id, new_context_id)))"

definition MPIR_Comm_copy :: "comm_env \<Rightarrow> comm_state \<Rightarrow> nat \<Rightarrow> int \<Rightarrow> (comm_state \<times> (mpi_err + nat)) option" where
  "MPIR_Comm_copy e st p csize =
     (case comm_copy_ids e st p of
        None \<Rightarrow> None
      | Some (st, new_context_id, new_recvcontext_id) \<Rightarrow>
          if new_context_id = 0 then Some (st, Inl (new_error MPI_ERR_OTHER ''**toomanycomm''))
          else if cm_rank (body st p) \<ge> csize then Some (st, Inr 0)
          else
         (case MPIR_Comm_create (ce_calloc e) st of
            (st, Inl er) \<Rightarrow> Some (st, Inl er)
          | (st, Inr q) \<Rightarrow>
              (let c = body st p;
                   st = set_body q (copy_body c csize new_context_id new_recvcontext_id (body st q)) st in
               Some (add_errhandler_ref (cm_errhandler c) st, Inr q))))"

section \<open>Split\<close>

text \<open>The rank of the caller is set where its entry is met.\<close>

definition rank_loop :: "splittype list \<Rightarrow> int \<Rightarrow> int \<Rightarrow> int" where
  "rank_loop keytable rank r0 =
     fold (\<lambda>i r. if sp_color (keytable ! i) = rank then int i else r) [0..<length keytable] r0"

definition split_common :: "comm_body \<Rightarrow> int \<Rightarrow> int \<Rightarrow> comm_body \<Rightarrow> comm_body" where
  "split_common c new_context_id new_size b =
     b\<lparr>cm_context_id := new_context_id, cm_local_size := new_size, cm_kind := cm_kind c\<rparr>"

definition split_body :: "comm_env \<Rightarrow> comm_body \<Rightarrow> int \<Rightarrow> splittype list \<Rightarrow> splittype list \<Rightarrow> comm_body \<Rightarrow> comm_body" where
  "split_body e c new_context_id keytable remotekeytable b =
     (let b = (split_common c new_context_id (int (length keytable)) b)
            \<lparr>cm_rank := rank_loop keytable (cm_rank c) (cm_rank b)\<rparr>;
          vcs = (\<lambda>vcr t. map (\<lambda>en. vcr ! nat (sp_color en)) t);
          b = (if cm_kind c = MPID_INTERCOMM then
                 b\<lparr>cm_local_vcr := vcs (cm_local_vcr c) keytable, cm_vcr := vcs (cm_vcr c) remotekeytable,
                   cm_recvcontext_id := ce_remote_id e, cm_remote_size := int (length remotekeytable),
                   cm_local_comm := 0, cm_is_low_group := False\<rparr>
               else b\<lparr>cm_recvcontext_id := new_context_id, cm_remote_size := int (length keytable),
                   cm_vcr := vcs (cm_vcr c) keytable\<rparr>) in
      b\<lparr>cm_errhandler := cm_errhandler c\<rparr>)"

text \<open>
  What happens once the context id is there: the new communicator, or none, when the color is
  undefined or the other group has nobody of the color; then the context id is given back.
\<close>

definition split_finish :: "comm_env \<Rightarrow> comm_state \<Rightarrow> nat \<Rightarrow> int \<Rightarrow> int \<Rightarrow> (comm_state \<times> (mpi_err + handle)) option" where
  "split_finish e st p color new_context_id =
     (let entries = (if color \<noteq> MPI_UNDEFINED then split_entries (ce_table e) color else []);
          inter = (cm_kind (body st p) = MPID_INTERCOMM);
          remote_entries = (if inter then split_entries (ce_remote_table e) color else entries) in
      if color \<noteq> MPI_UNDEFINED \<and> length remote_entries > 0 then
        (case MPIR_Comm_create (ce_calloc e) st of
           (st, Inl er) \<Rightarrow> Some (st, Inl (fn_fail ''**mpi_comm_split'' er))
         | (st, Inr q) \<Rightarrow>
             if \<not> ce_malloc e ''keytable'' \<or> inter \<and> \<not> ce_malloc e ''remote keytable'' then
               Some (set_body q (split_common (body st p) new_context_id (int (length entries)) (body st q)) st,
                     Inl (fn_fail ''**mpi_comm_split'' (new_error MPI_ERR_OTHER ''**nomem2'')))
             else
             (let c = body st p;
                  st = set_body q (split_body e c new_context_id (MPIU_Sort_inttable entries)
                         (MPIU_Sort_inttable remote_entries) (body st q)) st in
              Some (add_errhandler_ref (cm_errhandler c) st, Inr (handle_of (cheap st) q))))
      else
        (case MPIR_Free_contextid new_context_id (comm_ids st) of
           None \<Rightarrow> None
         | Some ids \<Rightarrow> Some (st\<lparr>comm_ids := ids\<rparr>, Inr MPI_COMM_NULL)))"

definition MPI_Comm_split :: "comm_env \<Rightarrow> comm_state \<Rightarrow> handle \<Rightarrow> int \<Rightarrow> int \<Rightarrow> (comm_state \<times> (mpi_err + handle)) option" where
  "MPI_Comm_split e st comm color key =
     (case get_comm st comm of
        Inl er \<Rightarrow> Some (st, Inl (fn_fail ''**mpi_comm_split'' er))
      | Inr p \<Rightarrow>
         if \<not> ce_malloc e ''table'' then Some (st, Inl (fn_fail ''**mpi_comm_split'' (new_error MPI_ERR_OTHER ''**nomem2'')))
         else
         (let inter = (cm_kind (body st p) = MPID_INTERCOMM);
              st = (if inter \<and> cm_local_comm (body st p) = 0
                    then fst (MPIR_Setup_intercomm_localcomm (ce_calloc e) st p) else st) in
          if inter \<and> cm_local_comm (body st p) = 0 then None
          else if inter \<and> \<not> ce_malloc e ''remotetable''
          then Some (st, Inl (fn_fail ''**mpi_comm_split'' (new_error MPI_ERR_OTHER ''**nomem2'')))
          else
         (case get_contextid e st of (st, new_context_id) \<Rightarrow>
            if new_context_id = 0
            then Some (st, Inl (fn_fail ''**mpi_comm_split'' (new_error MPI_ERR_OTHER ''**toomanycomm'')))
            else
           (case (if inter \<and> cm_rank (body st p) = 0 then ce_exchange_error e else None) of
              Some er \<Rightarrow> Some (st, Inl (fn_fail ''**mpi_comm_split'' (create_code (Some er) MPI_ERR_OTHER ''**fail'')))
            | None \<Rightarrow> split_finish e st p color new_context_id))))"

end
