(* ===== verification/Attr.thy ===== *)
theory Attr
  imports MpiComm
begin

unbundle bit_operations_syntax

text \<open>
  Attributes, src/src/mpi/attr: keyvals, which name a kind of attribute and the user's functions that
  copy and delete its values, and the lists of attributes that hang on communicators. Both are objects
  of pools. The user's functions are arguments, which may change a state of the user's own.
\<close>

section \<open>State\<close>

datatype lang = MPID_LANG_C | MPID_LANG_FORTRAN | MPID_LANG_FORTRAN90 | MPID_LANG_CXX

record keyval_body =
  kv_ref_count :: int
  kv_language :: lang
  kv_kind :: handle
  kv_extra_state :: int
  kv_copyfn :: nat
  kv_delfn :: nat

record keyval_heap = handle_heap +
  keyval_of :: "nat \<Rightarrow> keyval_body"

record attr_body =
  at_keyval :: nat
  at_next :: nat
  at_pre_sentinal :: int
  at_value :: int
  at_post_sentinal :: int

record attr_heap = handle_heap +
  attr_of :: "nat \<Rightarrow> attr_body"

text \<open>\<open>attr_dup_set\<close>: the functions for lists are registered in \<open>MPIR_Process\<close>, which the first keyval does.\<close>

record 'u attr_state =
  aheap :: attr_heap
  MPID_Attr_mem :: MPIU_Object_alloc_t
  kheap :: keyval_heap
  MPID_Keyval_mem :: MPIU_Object_alloc_t
  attr_dup_set :: bool
  user :: 'u

text \<open>
  The user's functions, by address, with the language, the handles of the object and of the keyval, the
  extra state and the value. A delete function answers an error code; a copy function an error code, the
  new value and the flag.
\<close>

record 'u attr_env =
  ae_delete :: "lang \<Rightarrow> nat \<Rightarrow> handle \<Rightarrow> handle \<Rightarrow> int \<Rightarrow> int \<Rightarrow> 'u \<Rightarrow> int \<times> 'u"
  ae_copy :: "lang \<Rightarrow> nat \<Rightarrow> handle \<Rightarrow> handle \<Rightarrow> int \<Rightarrow> int \<Rightarrow> 'u \<Rightarrow> int \<times> int \<times> bool \<times> 'u"

abbreviation MPID_DATATYPE :: handle where "MPID_DATATYPE \<equiv> 3"
abbreviation MPID_WIN :: handle where "MPID_WIN \<equiv> 8"
abbreviation MPID_KEYVAL :: handle where "MPID_KEYVAL \<equiv> 9"
abbreviation MPID_ATTR :: handle where "MPID_ATTR \<equiv> 10"
abbreviation MPI_KEYVAL_INVALID :: handle where "MPI_KEYVAL_INVALID \<equiv> 0x24000000"

abbreviation attr :: "'u attr_state \<Rightarrow> nat \<Rightarrow> attr_body" where "attr st \<equiv> attr_of (aheap st)"
abbreviation keyval :: "'u attr_state \<Rightarrow> nat \<Rightarrow> keyval_body" where "keyval st \<equiv> keyval_of (kheap st)"

definition set_attr :: "nat \<Rightarrow> attr_body \<Rightarrow> 'u attr_state \<Rightarrow> 'u attr_state" where
  "set_attr p a st = st\<lparr>aheap := (aheap st)\<lparr>attr_of := (attr_of (aheap st))(p := a)\<rparr>\<rparr>"

definition set_keyval :: "nat \<Rightarrow> keyval_body \<Rightarrow> 'u attr_state \<Rightarrow> 'u attr_state" where
  "set_keyval p k st = st\<lparr>kheap := (kheap st)\<lparr>keyval_of := (keyval_of (kheap st))(p := k)\<rparr>\<rparr>"

section \<open>Keyvals\<close>

definition errtest_keyval :: "handle \<Rightarrow> handle \<Rightarrow> mpi_err option" where
  "errtest_keyval kv obj =
     (if kv = MPI_KEYVAL_INVALID then Some (new_error MPI_ERR_KEYVAL ''**keyvalinvalid'')
      else if HANDLE_GET_MPI_KIND kv \<noteq> MPID_KEYVAL then Some (new_error MPI_ERR_KEYVAL ''**keyval'')
      else if drop_bit 22 (kv AND 0x03c00000) \<noteq> obj then Some (new_error MPI_ERR_KEYVAL ''**keyvalobj'')
      else None)"

definition errtest_keyval_perm :: "handle \<Rightarrow> mpi_err option" where
  "errtest_keyval_perm kv =
     (if HANDLE_GET_MPI_KIND kv = MPID_KEYVAL \<and> HANDLE_GET_KIND kv = HANDLE_KIND_BUILTIN
      then Some (new_error MPI_ERR_KEYVAL ''**permattr'') else None)"

text \<open>The kind of object takes four bits of the index, or of the block number.\<close>

definition MPID_Keyval_get_ptr :: "'u attr_state \<Rightarrow> handle \<Rightarrow> nat" where
  "MPID_Keyval_get_ptr st a =
     (let om = MPID_Keyval_mem st in
      if HANDLE_GET_KIND a = HANDLE_KIND_DIRECT then om_direct om + unat (a AND 0x3fffff) * om_size om
      else if HANDLE_GET_KIND a = HANDLE_KIND_INDIRECT then MPIU_Handle_get_ptr_indirect (a AND 0xfc3fffff) om
      else 0)"

definition keyval_handle :: "handle \<Rightarrow> handle \<Rightarrow> handle" where
  "keyval_handle h obj = (h AND NOT 0x03c00000) OR push_bit 22 obj"

text \<open>The keyval routines of communicators, datatypes and windows differ in the kind and the message.\<close>

definition create_keyval :: "handle \<Rightarrow> string \<Rightarrow> calloc_env \<Rightarrow> 'u attr_state \<Rightarrow> nat \<Rightarrow> nat \<Rightarrow> int
    \<Rightarrow> 'u attr_state \<times> (mpi_err + handle)" where
  "create_keyval obj msg e st copy_attr_fn delete_attr_fn extra_state =
     (case MPIU_Handle_obj_alloc e (kheap st) (MPID_Keyval_mem st) of (h, om, q) \<Rightarrow>
        (let st = st\<lparr>kheap := h, MPID_Keyval_mem := om\<rparr> in
         if q = 0 then (st, Inl (fn_fail msg (new_error MPI_ERR_OTHER ''**nomem'')))
         else
           (let kh = keyval_handle (handle_of h q) obj;
                st = st\<lparr>kheap := h\<lparr>handle_of := (handle_of h)(q := kh)\<rparr>, attr_dup_set := True\<rparr>;
                st = set_keyval q \<lparr>kv_ref_count = 1, kv_language = MPID_LANG_C, kv_kind = obj,
                       kv_extra_state = extra_state, kv_copyfn = copy_attr_fn, kv_delfn = delete_attr_fn\<rparr> st in
            (st, Inr kh))))"

definition MPI_Comm_create_keyval :: "calloc_env \<Rightarrow> 'u attr_state \<Rightarrow> nat \<Rightarrow> nat \<Rightarrow> int
    \<Rightarrow> 'u attr_state \<times> (mpi_err + handle)" where
  "MPI_Comm_create_keyval = create_keyval MPID_COMM ''**mpi_comm_create_keyval''"

definition MPI_Type_create_keyval :: "calloc_env \<Rightarrow> 'u attr_state \<Rightarrow> nat \<Rightarrow> nat \<Rightarrow> int
    \<Rightarrow> 'u attr_state \<times> (mpi_err + handle)" where
  "MPI_Type_create_keyval = create_keyval MPID_DATATYPE ''**mpi_type_create_keyval''"

definition MPI_Win_create_keyval :: "calloc_env \<Rightarrow> 'u attr_state \<Rightarrow> nat \<Rightarrow> nat \<Rightarrow> int
    \<Rightarrow> 'u attr_state \<times> (mpi_err + handle)" where
  "MPI_Win_create_keyval = create_keyval MPID_WIN ''**mpi_win_create_keyval''"

text \<open>
  The bindings change the language afterwards. The routine for C++ does not test its pointer: \<open>None\<close> is the
  null pointer; the functions it registers for the whole process are arguments here.
\<close>

definition set_language :: "lang \<Rightarrow> nat \<Rightarrow> 'u attr_state \<Rightarrow> 'u attr_state" where
  "set_language l kp st = set_keyval kp ((keyval st kp)\<lparr>kv_language := l\<rparr>) st"

definition MPIR_Keyval_set_fortran :: "'u attr_state \<Rightarrow> handle \<Rightarrow> 'u attr_state" where
  "MPIR_Keyval_set_fortran st kv =
     (let kp = MPID_Keyval_get_ptr st kv in if kp \<noteq> 0 then set_language MPID_LANG_FORTRAN kp st else st)"

definition MPIR_Keyval_set_fortran90 :: "'u attr_state \<Rightarrow> handle \<Rightarrow> 'u attr_state" where
  "MPIR_Keyval_set_fortran90 st kv =
     (let kp = MPID_Keyval_get_ptr st kv in if kp \<noteq> 0 then set_language MPID_LANG_FORTRAN90 kp st else st)"

definition MPIR_Keyval_set_cxx :: "'u attr_state \<Rightarrow> handle \<Rightarrow> 'u attr_state option" where
  "MPIR_Keyval_set_cxx st kv =
     (let kp = MPID_Keyval_get_ptr st kv in if kp \<noteq> 0 then Some (set_language MPID_LANG_CXX kp st) else None)"

definition keyval_add_ref :: "nat \<Rightarrow> 'u attr_state \<Rightarrow> 'u attr_state" where
  "keyval_add_ref kp st = set_keyval kp ((keyval st kp)\<lparr>kv_ref_count := kv_ref_count (keyval st kp) + 1\<rparr>) st"

text \<open>One reference less; the last one returns the object to its pool.\<close>

definition keyval_release :: "nat \<Rightarrow> 'u attr_state \<Rightarrow> 'u attr_state" where
  "keyval_release kp st =
     (let in_use = kv_ref_count (keyval st kp) - 1;
          st = set_keyval kp ((keyval st kp)\<lparr>kv_ref_count := in_use\<rparr>) st in
      if in_use \<noteq> 0 then st
      else (case MPIU_Handle_obj_free (kheap st) (MPID_Keyval_mem st) kp of (h, om) \<Rightarrow>
              st\<lparr>kheap := h, MPID_Keyval_mem := om\<rparr>))"

definition keyval_valid_ptr :: "nat \<Rightarrow> mpi_err option" where
  "keyval_valid_ptr kp = (if kp = 0 then Some (new_error MPI_ERR_KEYVAL ''**nullptrtype'') else None)"

definition free_keyval :: "handle \<Rightarrow> string \<Rightarrow> 'u attr_state \<Rightarrow> handle \<Rightarrow> 'u attr_state \<times> (mpi_err + handle)" where
  "free_keyval obj msg st kv =
     (case last_of [errtest_keyval kv obj, errtest_keyval_perm kv] of
        Some er \<Rightarrow> (st, Inl (fn_fail msg er))
      | None \<Rightarrow>
         (let kp = MPID_Keyval_get_ptr st kv in
          case keyval_valid_ptr kp of
            Some er \<Rightarrow> (st, Inl (fn_fail msg er))
          | None \<Rightarrow> (keyval_release kp st, Inr MPI_KEYVAL_INVALID)))"

definition MPI_Comm_free_keyval :: "'u attr_state \<Rightarrow> handle \<Rightarrow> 'u attr_state \<times> (mpi_err + handle)" where
  "MPI_Comm_free_keyval = free_keyval MPID_COMM ''**mpi_comm_free_keyval''"

definition MPI_Type_free_keyval :: "'u attr_state \<Rightarrow> handle \<Rightarrow> 'u attr_state \<times> (mpi_err + handle)" where
  "MPI_Type_free_keyval = free_keyval MPID_DATATYPE ''**mpi_type_free_keyval''"

text \<open>The test for a null pointer is on the keyval itself here, and comes first.\<close>

definition MPI_Win_free_keyval :: "'u attr_state \<Rightarrow> handle \<Rightarrow> 'u attr_state \<times> (mpi_err + handle)" where
  "MPI_Win_free_keyval st kv =
     (if kv = 0 then (st, Inl (fn_fail ''**mpi_win_free_keyval'' (new_error MPI_ERR_ARG ''**nullptr'')))
      else free_keyval MPID_WIN ''**mpi_win_free_keyval'' st kv)"

section \<open>One attribute\<close>

text \<open>A Fortran 77 function gets an integer of 32 bits for the value, and gives one.\<close>

definition lang_value :: "lang \<Rightarrow> int \<Rightarrow> int" where
  "lang_value l v = (if l = MPID_LANG_FORTRAN then signed_take_bit 31 v else v)"

definition MPIR_Call_attr_delete :: "'u attr_env \<Rightarrow> handle \<Rightarrow> nat \<Rightarrow> 'u attr_state \<Rightarrow> 'u attr_state \<times> mpi_err option" where
  "MPIR_Call_attr_delete e obj p st =
     (let kp = at_keyval (attr st p); k = keyval st kp; l = kv_language k in
      if kv_delfn k = 0 then (st, None)
      else
        (case ae_delete e l (kv_delfn k) obj (handle_of (kheap st) kp) (kv_extra_state k) (lang_value l (at_value (attr st p)))
                (user st) of
           (er, u) \<Rightarrow> (st\<lparr>user := u\<rparr>, if er \<noteq> 0 then Some (new_error MPI_ERR_OTHER ''**user'') else None)))"

definition MPID_Attr_free :: "nat \<Rightarrow> 'u attr_state \<Rightarrow> 'u attr_state" where
  "MPID_Attr_free p st =
     (case MPIU_Handle_obj_free (aheap st) (MPID_Attr_mem st) p of (h, om) \<Rightarrow> st\<lparr>aheap := h, MPID_Attr_mem := om\<rparr>)"

text \<open>A new attribute with its place in a list; the pointer is 0 when there is no memory.\<close>

definition new_attr :: "calloc_env \<Rightarrow> nat \<Rightarrow> int \<Rightarrow> nat \<Rightarrow> 'u attr_state \<Rightarrow> 'u attr_state \<times> nat" where
  "new_attr e kp v nxt st =
     (case MPIU_Handle_obj_alloc e (aheap st) (MPID_Attr_mem st) of (h, om, q) \<Rightarrow>
        (let st = st\<lparr>aheap := h, MPID_Attr_mem := om\<rparr> in
         if q = 0 then (st, 0)
         else (keyval_add_ref kp (set_attr q \<lparr>at_keyval = kp, at_next = nxt, at_pre_sentinal = 0, at_value = v,
                 at_post_sentinal = 0\<rparr> st), q)))"

text \<open>
  \<open>*old_p = v\<close>, where \<open>old_p\<close> is the address of the head of the list (here 0) or of the field
  \<open>next\<close> of an attribute; the head is a part of the result.
\<close>

definition link_attr :: "nat \<Rightarrow> nat \<Rightarrow> 'u attr_state \<times> nat \<Rightarrow> 'u attr_state \<times> nat" where
  "link_attr old v = (\<lambda>(st, head). if old = 0 then (st, v) else (set_attr old ((attr st old)\<lparr>at_next := v\<rparr>) st, head))"

section \<open>Setting, finding, deleting\<close>

datatype attr_place = AtKey nat | AtLarger nat | AtEnd nat

text \<open>The search of \<open>MPI_Comm_set_attr\<close>: the entry of the key, the first one with a larger key, or the end.\<close>

partial_function (option) set_search :: "'u attr_state \<Rightarrow> handle \<Rightarrow> nat \<Rightarrow> nat \<Rightarrow> attr_place option" where
  "set_search st kh p old =
     (if p = 0 then Some (AtEnd old)
      else if handle_of (kheap st) (at_keyval (attr st p)) = kh then Some (AtKey p)
      else if sint (handle_of (kheap st) (at_keyval (attr st p))) > sint kh then Some (AtLarger p)
      else set_search st kh (at_next (attr st p)) p)"

declare set_search.simps [code]

definition attr_set :: "'u attr_env \<Rightarrow> calloc_env \<Rightarrow> handle \<Rightarrow> nat \<Rightarrow> int \<Rightarrow> nat \<Rightarrow> 'u attr_state
    \<Rightarrow> ('u attr_state \<times> nat \<times> mpi_err option) option" where
  "attr_set e ce obj kp v head st =
     (case set_search st (handle_of (kheap st) kp) head 0 of
        None \<Rightarrow> None
      | Some (AtKey p) \<Rightarrow>
          (case MPIR_Call_attr_delete e obj p st of
             (st, Some er) \<Rightarrow> Some (st, head, Some er)
           | (st, None) \<Rightarrow> Some (set_attr p ((attr st p)\<lparr>at_value := v\<rparr>) st, head, None))
      | Some (AtLarger p) \<Rightarrow>
          (case new_attr ce kp v (at_next (attr st p)) st of (st, q) \<Rightarrow>
             if q = 0 then Some (st, head, Some (new_error MPI_ERR_OTHER ''**nomem''))
             else Some (set_attr p ((attr st p)\<lparr>at_next := q\<rparr>) st, head, None))
      | Some (AtEnd old) \<Rightarrow>
          (case new_attr ce kp v 0 st of (st, q) \<Rightarrow>
             if q = 0 then Some (st, head, Some (new_error MPI_ERR_OTHER ''**nomem''))
             else (case link_attr old q (st, head) of (st, head) \<Rightarrow> Some (st, head, None))))"

text \<open>The search by key alone: the entry, 0 when there is none, and the one before it.\<close>

partial_function (option) attr_find :: "'u attr_state \<Rightarrow> handle \<Rightarrow> nat \<Rightarrow> nat \<Rightarrow> (nat \<times> nat) option" where
  "attr_find st kh p old =
     (if p = 0 then Some (0, old)
      else if handle_of (kheap st) (at_keyval (attr st p)) = kh then Some (p, old)
      else attr_find st kh (at_next (attr st p)) p)"

declare attr_find.simps [code]

definition attr_get :: "'u attr_state \<Rightarrow> handle \<Rightarrow> nat \<Rightarrow> int option option" where
  "attr_get st kh head =
     (case attr_find st kh head 0 of
        None \<Rightarrow> None
      | Some (p, old) \<Rightarrow> Some (if p = 0 then None else Some (at_value (attr st p))))"

definition attr_delete :: "'u attr_env \<Rightarrow> handle \<Rightarrow> nat \<Rightarrow> nat \<Rightarrow> 'u attr_state
    \<Rightarrow> ('u attr_state \<times> nat \<times> mpi_err option) option" where
  "attr_delete e obj kp head st =
     (case attr_find st (handle_of (kheap st) kp) head 0 of
        None \<Rightarrow> None
      | Some (p, old) \<Rightarrow>
          if p = 0 then Some (st, head, None)
          else
         (case MPIR_Call_attr_delete e obj p st of
            (st, Some er) \<Rightarrow> Some (st, head, Some er)
          | (st, None) \<Rightarrow>
              (case link_attr old (at_next (attr st p)) (st, head) of (st, head) \<Rightarrow>
                 Some (MPID_Attr_free p (keyval_release (at_keyval (attr st p)) st), head, None))))"

section \<open>Lists\<close>

text \<open>
  \<open>MPIR_Attr_dup_list\<close>: the head of the new list, which is there also when an error ends the loop. The
  allocator answers \<open>ces n om\<close> the \<open>n\<close>-th time; \<open>lst\<close> is the last attribute of the new list.
\<close>

partial_function (option) dup_list_loop :: "'u attr_env \<Rightarrow> (nat \<Rightarrow> MPIU_Object_alloc_t \<Rightarrow> calloc_env) \<Rightarrow> handle
    \<Rightarrow> nat \<Rightarrow> nat \<Rightarrow> nat \<Rightarrow> nat \<Rightarrow> 'u attr_state \<Rightarrow> ('u attr_state \<times> nat \<times> mpi_err option) option" where
  "dup_list_loop e ces obj n p head lst st =
     (if p = 0 then Some (st, head, None)
      else
        (let kp = at_keyval (attr st p); k = keyval st kp; l = kv_language k in
         case (if kv_copyfn k = 0 then (0, 0, False, user st)
               else ae_copy e l (kv_copyfn k) obj (handle_of (kheap st) kp) (kv_extra_state k)
                      (lang_value l (at_value (attr st p))) (user st)) of
           (er, new_value, flag, u) \<Rightarrow>
             (let st = st\<lparr>user := u\<rparr> in
              if er \<noteq> 0 then Some (st, head, Some (new_error MPI_ERR_OTHER ''**user''))
              else if flag then
                (case new_attr (ces n (MPID_Attr_mem st)) kp (lang_value l new_value) 0 st of (st, q) \<Rightarrow>
                   if q = 0 then Some (st, head, Some (new_error MPI_ERR_OTHER ''**nomem''))
                   else (case link_attr lst q (st, head) of (st, head) \<Rightarrow>
                     dup_list_loop e ces obj (n + 1) (at_next (attr st p)) head q st))
              else dup_list_loop e ces obj n (at_next (attr st p)) head lst st)))"

declare dup_list_loop.simps [code]

definition MPIR_Attr_dup_list :: "'u attr_env \<Rightarrow> (nat \<Rightarrow> MPIU_Object_alloc_t \<Rightarrow> calloc_env) \<Rightarrow> handle
    \<Rightarrow> nat \<Rightarrow> 'u attr_state \<Rightarrow> ('u attr_state \<times> nat \<times> mpi_err option) option" where
  "MPIR_Attr_dup_list e ces obj old_attrs st = dup_list_loop e ces obj 0 old_attrs 0 0 st"

text \<open>\<open>MPIR_Attr_delete_list\<close>: only the last error is returned.\<close>

partial_function (option) delete_list_loop :: "'u attr_env \<Rightarrow> handle \<Rightarrow> nat \<Rightarrow> mpi_err option \<Rightarrow> 'u attr_state
    \<Rightarrow> ('u attr_state \<times> mpi_err option) option" where
  "delete_list_loop e obj p mpi_errno st =
     (if p = 0 then Some (st, mpi_errno)
      else if at_pre_sentinal (attr st p) \<noteq> 0 \<or> at_post_sentinal (attr st p) \<noteq> 0
      then Some (st, Some (new_error MPI_ERR_OTHER ''**attrsentinal''))
      else
        (let new_p = at_next (attr st p) in
         case MPIR_Call_attr_delete e obj p st of (st, mpi_errno) \<Rightarrow>
           delete_list_loop e obj new_p mpi_errno (MPID_Attr_free p st)))"

declare delete_list_loop.simps [code]

definition MPIR_Attr_delete_list :: "'u attr_env \<Rightarrow> handle \<Rightarrow> nat \<Rightarrow> 'u attr_state \<Rightarrow> ('u attr_state \<times> mpi_err option) option" where
  "MPIR_Attr_delete_list e obj p st = delete_list_loop e obj p None st"

end
