(* ===== verification/MpiAttr.thy ===== *)
theory MpiAttr
  imports Attr MpiGroup
begin

text \<open>
  The interface routines on attributes, src/src/mpi/attr, and the routines that copy and free a
  communicator with its attributes, src/src/mpi/comm. They work on the state of a whole process.
\<close>

section \<open>A process\<close>

text \<open>\<open>MPIR_Process\<close>: the predefined attributes and the communicator to the parent are here.\<close>

record PreDefined_attrs =
  pd_appnum :: int
  pd_host :: int
  pd_io :: int
  pd_lastusedcode :: int
  pd_tag_ub :: int
  pd_universe :: int
  pd_wtime_is_global :: int

record 'u process =
  comms :: comm_state
  groups :: group_state
  attrs :: "'u attr_state"
  comm_parent :: nat
  predef :: PreDefined_attrs

text \<open>
  The world outside: the user's functions, the memory of the attribute and the keyval pool (the
  \<open>n\<close>-th answer of a call), what communicators get, the universe size of the device and what it
  answers to the release of a table of connections.
\<close>

record 'u process_env =
  pe_attr :: "'u attr_env"
  pe_calloc :: "nat \<Rightarrow> MPIU_Object_alloc_t \<Rightarrow> calloc_env"
  pe_comm :: comm_env
  pe_universe :: "mpi_err + int"
  pe_vcrt :: "nat list \<Rightarrow> bool \<Rightarrow> mpi_err option"

definition upd_comm :: "nat \<Rightarrow> (comm_body \<Rightarrow> comm_body) \<Rightarrow> 'u process \<Rightarrow> 'u process" where
  "upd_comm p f P = P\<lparr>comms := set_body p (f (body (comms P) p)) (comms P)\<rparr>"

definition set_attributes :: "nat \<Rightarrow> nat \<Rightarrow> 'u process \<Rightarrow> 'u process" where
  "set_attributes p head = upd_comm p (\<lambda>b. b\<lparr>cm_attributes := head\<rparr>)"

section \<open>Setting, getting, deleting\<close>

text \<open>
  The checks of a communicator and a keyval: a null communicator is noted and the next check may
  overwrite it, a handle of another kind ends the checks at once.
\<close>

definition handle_checks :: "handle \<Rightarrow> mpi_err option list \<Rightarrow> mpi_err option" where
  "handle_checks comm checks =
     (if comm \<noteq> MPI_COMM_NULL \<and> errtest_comm comm \<noteq> None then errtest_comm comm
      else last_of (errtest_comm comm # checks))"

definition get_comm_keyval :: "'u process \<Rightarrow> handle \<Rightarrow> handle \<Rightarrow> mpi_err + nat \<times> nat" where
  "get_comm_keyval P comm kv =
     (case handle_checks comm [errtest_keyval kv MPID_COMM, errtest_keyval_perm kv] of
        Some er \<Rightarrow> Inl er
      | None \<Rightarrow>
         (let p = MPID_Comm_get_ptr (comms P) comm; kp = MPID_Keyval_get_ptr (attrs P) kv in
          case last_of [MPID_Comm_valid_ptr (comms P) p, keyval_valid_ptr kp] of
            Some er \<Rightarrow> Inl er
          | None \<Rightarrow> Inr (p, kp)))"

text \<open>The error of a routine, \<open>None\<close> for success.\<close>

definition MPI_Comm_set_attr :: "'u process_env \<Rightarrow> 'u process \<Rightarrow> handle \<Rightarrow> handle \<Rightarrow> int
    \<Rightarrow> ('u process \<times> mpi_err option) option" where
  "MPI_Comm_set_attr e P comm kv v =
     (case get_comm_keyval P comm kv of
        Inl er \<Rightarrow> Some (P, Some (fn_fail ''**mpi_comm_set_attr'' er))
      | Inr (p, kp) \<Rightarrow>
         (case attr_set (pe_attr e) (pe_calloc e 0 (MPID_Attr_mem (attrs P))) comm kp v
                 (cm_attributes (body (comms P) p)) (attrs P) of
            None \<Rightarrow> None
          | Some (st, head, er) \<Rightarrow>
              Some (set_attributes p head (P\<lparr>attrs := st\<rparr>), map_option (fn_fail ''**mpi_comm_set_attr'') er)))"

definition MPI_Comm_delete_attr :: "'u process_env \<Rightarrow> 'u process \<Rightarrow> handle \<Rightarrow> handle
    \<Rightarrow> ('u process \<times> mpi_err option) option" where
  "MPI_Comm_delete_attr e P comm kv =
     (case get_comm_keyval P comm kv of
        Inl er \<Rightarrow> Some (P, Some (fn_fail ''**mpi_comm_delete_attr'' er))
      | Inr (p, kp) \<Rightarrow>
         (case attr_delete (pe_attr e) comm kp (cm_attributes (body (comms P) p)) (attrs P) of
            None \<Rightarrow> None
          | Some (st, head, er) \<Rightarrow>
              Some (set_attributes p head (P\<lparr>attrs := st\<rparr>), map_option (fn_fail ''**mpi_comm_delete_attr'') er)))"

text \<open>
  What a lookup gives: flag 0; flag 1 with the value, with the address of a copy of a predefined
  value, or with nothing written.
\<close>

datatype got = NoAttr | Value int | CopyOf int | Unwritten

text \<open>The universe size is asked from the device in every call: the answer goes to the copy.\<close>

definition universe_attr :: "mpi_err + int \<Rightarrow> int \<Rightarrow> mpi_err + int option" where
  "universe_attr device universe =
     (if universe \<ge> 0 then Inr (Some universe)
      else if universe = - 2 then Inr None
      else (case device of Inl er \<Rightarrow> Inl er | Inr n \<Rightarrow> Inr (if n \<ge> 0 then Some n else None)))"

definition builtin_attr :: "mpi_err + int \<Rightarrow> PreDefined_attrs \<Rightarrow> nat \<Rightarrow> mpi_err + got" where
  "builtin_attr device a idx =
     (let wrap = (if odd idx then CopyOf else Value) in
      if idx = 1 \<or> idx = 2 then Inr (wrap (pd_tag_ub a))
      else if idx = 3 \<or> idx = 4 then Inr (wrap (pd_host a))
      else if idx = 5 \<or> idx = 6 then Inr (wrap (pd_io a))
      else if idx = 7 \<or> idx = 8 then Inr (wrap (pd_wtime_is_global a))
      else if idx = 9 \<or> idx = 10 then
        (case universe_attr device (pd_universe a) of
           Inl er \<Rightarrow> Inl er | Inr None \<Rightarrow> Inr NoAttr | Inr (Some n) \<Rightarrow> Inr (wrap n))
      else if idx = 11 \<or> idx = 12 then Inr (wrap (pd_lastusedcode a))
      else if idx = 13 \<or> idx = 14 then Inr (if pd_appnum a < 0 then NoAttr else wrap (pd_appnum a))
      else Inr Unwritten)"

definition MPI_Comm_get_attr :: "'u process_env \<Rightarrow> 'u process \<Rightarrow> handle \<Rightarrow> handle \<Rightarrow> (mpi_err + got) option" where
  "MPI_Comm_get_attr e P comm kv =
     (case handle_checks comm [errtest_keyval kv MPID_COMM] of
        Some er \<Rightarrow> Some (Inl (fn_fail ''**mpi_comm_get_attr'' er))
      | None \<Rightarrow>
         (let p = MPID_Comm_get_ptr (comms P) comm in
          case MPID_Comm_valid_ptr (comms P) p of
            Some er \<Rightarrow> Some (Inl (fn_fail ''**mpi_comm_get_attr'' er))
          | None \<Rightarrow>
              if HANDLE_GET_KIND kv = HANDLE_KIND_BUILTIN
              then Some (wrap_fail ''**mpi_comm_get_attr'' (builtin_attr (pe_universe e) (predef P) (unat (kv AND 0xf))))
              else
             (case attr_get (attrs P) kv (cm_attributes (body (comms P) p)) of
                None \<Rightarrow> None
              | Some None \<Rightarrow> Some (Inr NoAttr)
              | Some (Some v) \<Rightarrow> Some (Inr (Value v)))))"

text \<open>The deprecated names check the communicator once more and call the new ones.\<close>

definition MPI_Attr_put :: "'u process_env \<Rightarrow> 'u process \<Rightarrow> handle \<Rightarrow> handle \<Rightarrow> int
    \<Rightarrow> ('u process \<times> mpi_err option) option" where
  "MPI_Attr_put e P comm kv v =
     (case get_comm (comms P) comm of
        Inl er \<Rightarrow> Some (P, Some (fn_fail ''**mpi_attr_put'' er))
      | Inr p \<Rightarrow>
         (case MPI_Comm_set_attr e P comm kv v of
            None \<Rightarrow> None | Some (P, er) \<Rightarrow> Some (P, map_option (fn_fail ''**mpi_attr_put'') er)))"

definition MPI_Attr_get :: "'u process_env \<Rightarrow> 'u process \<Rightarrow> handle \<Rightarrow> handle \<Rightarrow> (mpi_err + got) option" where
  "MPI_Attr_get e P comm kv =
     (case get_comm (comms P) comm of
        Inl er \<Rightarrow> Some (Inl (fn_fail ''**mpi_attr_get'' er))
      | Inr p \<Rightarrow> map_option (wrap_fail ''**mpi_attr_get'') (MPI_Comm_get_attr e P comm kv))"

definition MPI_Attr_delete :: "'u process_env \<Rightarrow> 'u process \<Rightarrow> handle \<Rightarrow> handle
    \<Rightarrow> ('u process \<times> mpi_err option) option" where
  "MPI_Attr_delete e P comm kv =
     (case get_comm (comms P) comm of
        Inl er \<Rightarrow> Some (P, Some (fn_fail ''**mpi_attr_delete'' er))
      | Inr p \<Rightarrow>
         (case MPI_Comm_delete_attr e P comm kv of
            None \<Rightarrow> None | Some (P, er) \<Rightarrow> Some (P, map_option (fn_fail ''**mpi_attr_delete'') er)))"

definition MPI_Keyval_create :: "calloc_env \<Rightarrow> 'u attr_state \<Rightarrow> nat \<Rightarrow> nat \<Rightarrow> int \<Rightarrow> 'u attr_state \<times> (mpi_err + handle)" where
  "MPI_Keyval_create e st copy_fn delete_fn extra_state =
     (case MPI_Comm_create_keyval e st copy_fn delete_fn extra_state of
        (st, r) \<Rightarrow> (st, wrap_fail ''**mpi_keyval_create'' r))"

definition MPI_Keyval_free :: "'u attr_state \<Rightarrow> handle \<Rightarrow> 'u attr_state \<times> (mpi_err + handle)" where
  "MPI_Keyval_free st kv =
     (case MPI_Comm_free_keyval st kv of (st, r) \<Rightarrow> (st, wrap_fail ''**mpi_keyval_free'' r))"

text \<open>\<open>MPI_DUP_FN\<close>, as a copy function: success, the value, flag 1.\<close>

definition MPIR_Dup_fn :: "int \<Rightarrow> 'u \<Rightarrow> int \<times> int \<times> bool \<times> 'u" where
  "MPIR_Dup_fn attr_in u = (0, attr_in, True, u)"

section \<open>Copying a communicator\<close>

text \<open>
  \<open>None\<close> is also the use of the null pointer \<open>MPIR_Comm_copy\<close> leaves in a process with a rank out of range. When
  it fails, the attributes that were copied already are on no list.
\<close>

definition MPI_Comm_dup :: "'u process_env \<Rightarrow> 'u process \<Rightarrow> handle \<Rightarrow> ('u process \<times> (mpi_err + handle)) option" where
  "MPI_Comm_dup e P comm =
     (case get_comm (comms P) comm of
        Inl er \<Rightarrow> Some (P, Inl (fn_fail ''**mpi_comm_dup'' er))
      | Inr p \<Rightarrow>
         (let b = body (comms P) p in
          case (if attr_dup_set (attrs P)
                then MPIR_Attr_dup_list (pe_attr e) (pe_calloc e) (handle_of (cheap (comms P)) p) (cm_attributes b) (attrs P)
                else Some (attrs P, 0, None)) of
            None \<Rightarrow> None
          | Some (st, new_attributes, Some er) \<Rightarrow> Some (P\<lparr>attrs := st\<rparr>, Inl (fn_fail ''**mpi_comm_dup'' er))
          | Some (st, new_attributes, None) \<Rightarrow>
             (case MPIR_Comm_copy (pe_comm e) (comms P) p (cm_local_size b) of
                None \<Rightarrow> None
              | Some (cs, Inl er) \<Rightarrow> Some (P\<lparr>attrs := st, comms := cs\<rparr>, Inl (fn_fail ''**mpi_comm_dup'' er))
              | Some (cs, Inr q) \<Rightarrow>
                  if q = 0 then None
                  else Some (set_attributes q new_attributes (P\<lparr>attrs := st, comms := cs\<rparr>), Inr (handle_of (cheap cs) q)))))"

section \<open>Freeing a communicator\<close>

definition comm_release_attrs :: "'u process_env \<Rightarrow> nat \<Rightarrow> 'u process \<Rightarrow> ('u process \<times> mpi_err option) option" where
  "comm_release_attrs e p P =
     (let head = cm_attributes (body (comms P) p) in
      if attr_dup_set (attrs P) \<and> head \<noteq> 0 then
        (case MPIR_Attr_delete_list (pe_attr e) (handle_of (cheap (comms P)) p) head (attrs P) of
           None \<Rightarrow> None
         | Some (st, er) \<Rightarrow> Some (P\<lparr>attrs := st\<rparr>, er))
      else Some (P, None))"

text \<open>The context id, the groups and the object itself.\<close>

definition comm_release_rest :: "nat \<Rightarrow> 'u process \<Rightarrow> ('u process \<times> mpi_err option) option" where
  "comm_release_rest p P =
     (let b = body (comms P) p in
      case MPIR_Free_contextid (cm_recvcontext_id b) (comm_ids (comms P)) of
        None \<Rightarrow> None
      | Some ids \<Rightarrow>
         (let gs = groups P;
              gs = (if cm_local_group b \<noteq> 0 then MPIR_Group_release gs (cm_local_group b) else gs);
              gs = (if cm_remote_group b \<noteq> 0 then MPIR_Group_release gs (cm_remote_group b) else gs) in
          case MPIU_Handle_obj_free (cheap (comms P)) (MPID_Comm_mem (comms P)) p of
            (h, om) \<Rightarrow> Some (P\<lparr>comms := (comms P)\<lparr>comm_ids := ids, cheap := h, MPID_Comm_mem := om\<rparr>, groups := gs\<rparr>, None)))"

text \<open>An error of the user's functions keeps the communicator, an error of the device loses it.\<close>

partial_function (option) MPIR_Comm_release :: "'u process_env \<Rightarrow> bool \<Rightarrow> nat \<Rightarrow> 'u process
    \<Rightarrow> ('u process \<times> mpi_err option) option" where
  "MPIR_Comm_release e isDisconnect p P =
     (let P = upd_comm p (\<lambda>b. b\<lparr>cm_ref_count := cm_ref_count b - 1\<rparr>) P in
      if cm_ref_count (body (comms P) p) \<noteq> 0 then Some (P, None)
      else
     (case comm_release_attrs e p P of
        None \<Rightarrow> None
      | Some (P, Some er) \<Rightarrow> Some (upd_comm p (\<lambda>b. b\<lparr>cm_ref_count := cm_ref_count b + 1\<rparr>) P, Some er)
      | Some (P, None) \<Rightarrow>
         (let P = (if comm_parent P = p then P\<lparr>comm_parent := 0\<rparr> else P); b = body (comms P) p in
          case pe_vcrt e (cm_vcr b) isDisconnect of
            Some er \<Rightarrow> Some (P, Some (create_code (Some er) MPI_ERR_OTHER ''**fail''))
          | None \<Rightarrow>
              if cm_kind b \<noteq> MPID_INTERCOMM then comm_release_rest p P
              else
             (case pe_vcrt e (cm_local_vcr b) isDisconnect of
                Some er \<Rightarrow> Some (P, Some (create_code (Some er) MPI_ERR_OTHER ''**fail''))
              | None \<Rightarrow>
                  if cm_local_comm b = 0 then comm_release_rest p P
                  else Option.bind (MPIR_Comm_release e isDisconnect (cm_local_comm b) P)
                         (\<lambda>(P, er). comm_release_rest p P)))))"

declare MPIR_Comm_release.simps [code]

text \<open>\<open>None\<close> is also the name of a null pointer in the message about a builtin communicator.\<close>

definition MPI_Comm_free :: "'u process_env \<Rightarrow> 'u process \<Rightarrow> handle \<Rightarrow> ('u process \<times> (mpi_err + handle)) option" where
  "MPI_Comm_free e P comm =
     (case errtest_comm comm of
        Some er \<Rightarrow> Some (P, Inl (fn_fail ''**mpi_comm_free'' er))
      | None \<Rightarrow>
         (let p = MPID_Comm_get_ptr (comms P) comm; builtin = (HANDLE_GET_KIND comm = HANDLE_KIND_BUILTIN) in
          case MPID_Comm_valid_ptr (comms P) p of
            Some er \<Rightarrow> if builtin then None else Some (P, Inl (fn_fail ''**mpi_comm_free'' er))
          | None \<Rightarrow>
              if builtin then Some (P, Inl (fn_fail ''**mpi_comm_free'' (new_error MPI_ERR_COMM ''**commperm'')))
              else
             (case MPIR_Comm_release e False p P of
                None \<Rightarrow> None
              | Some (P, Some er) \<Rightarrow> Some (P, Inl (fn_fail ''**mpi_comm_free'' er))
              | Some (P, None) \<Rightarrow> Some (P, Inr MPI_COMM_NULL))))"

end
