(* ===== verification/Topo.thy ===== *)
theory Topo
  imports MpiAttr
begin

text \<open>
  Topologies, src/src/mpi/topo/topoutil.c: the structure that describes the grid or the graph of a
  communicator is the value of an attribute, with a keyval the library keeps to itself, whose copy and
  delete functions copy and free the structure.
\<close>

section \<open>State\<close>

text \<open>The arrays have as many elements as the counts say. A logical of C, which is zero or not, is a \<open>bool\<close>.\<close>

record MPIR_Graph_topology =
  gr_nnodes :: int
  gr_nedges :: int
  gr_index :: "int list"
  gr_edges :: "int list"

record MPIR_Cart_topology =
  ct_nnodes :: int
  ct_ndims :: int
  ct_dims :: "int list"
  ct_periodic :: "bool list"
  ct_position :: "int list"

datatype MPIR_Topology = MPI_GRAPH MPIR_Graph_topology | MPI_CART MPIR_Cart_topology

text \<open>
  The state the functions on attributes work on: the structures by address, the keyval, and the state of
  the user's own functions. An address with no structure stands for memory of no known kind.
\<close>

record 'v topo_user =
  topologies :: "nat \<rightharpoonup> MPIR_Topology"
  MPIR_Topology_keyval :: handle
  other :: 'v

text \<open>What \<open>MPIU_Malloc\<close> answers: the address of a structure, 0 for none, and whether there is memory for an array.\<close>

record topo_mem =
  tm_topology :: "(nat \<rightharpoonup> MPIR_Topology) \<Rightarrow> nat"
  tm_array :: "string \<Rightarrow> bool"

definition upd_topologies :: "((nat \<rightharpoonup> MPIR_Topology) \<Rightarrow> nat \<rightharpoonup> MPIR_Topology) \<Rightarrow> 'v topo_user process \<Rightarrow> 'v topo_user process" where
  "upd_topologies f P = P\<lparr>attrs := (attrs P)\<lparr>user := (user (attrs P))\<lparr>topologies := f (topologies (user (attrs P)))\<rparr>\<rparr>\<rparr>"

section \<open>The functions of the keyval\<close>

definition MPIR_Copy_array :: "bool \<Rightarrow> int \<Rightarrow> 'a list \<Rightarrow> int \<Rightarrow> 'a list \<times> int" where
  "MPIR_Copy_array malloc n a err = (if malloc then (take (nat n) a, err) else ([], 15))"

definition MPIR_Topology_copy_fn :: "topo_mem \<Rightarrow> int \<Rightarrow> 'v topo_user \<Rightarrow> int \<times> int \<times> bool \<times> 'v topo_user" where
  "MPIR_Topology_copy_fn m attr_in u =
     (let p = tm_topology m (topologies u) in
      if p = 0 then (15, 0, False, u)
      else
     (case topologies u (nat attr_in) of
        Some (MPI_CART c) \<Rightarrow>
          (case MPIR_Copy_array (tm_array m ''dims'') (ct_ndims c) (ct_dims c) 0 of (dims, err) \<Rightarrow>
           case MPIR_Copy_array (tm_array m ''periodic'') (ct_ndims c) (ct_periodic c) err of (periodic, err) \<Rightarrow>
           case MPIR_Copy_array (tm_array m ''position'') (ct_ndims c) (ct_position c) err of (position, err) \<Rightarrow>
             (err, int p, True, u\<lparr>topologies := (topologies u)(p \<mapsto>
                MPI_CART \<lparr>ct_nnodes = ct_nnodes c, ct_ndims = ct_ndims c, ct_dims = dims, ct_periodic = periodic,
                  ct_position = position\<rparr>)\<rparr>))
      | Some (MPI_GRAPH g) \<Rightarrow>
          (case MPIR_Copy_array (tm_array m ''index'') (gr_nnodes g) (gr_index g) 0 of (index, err) \<Rightarrow>
           case MPIR_Copy_array (tm_array m ''edges'') (gr_nedges g) (gr_edges g) err of (edges, err) \<Rightarrow>
             (err, int p, True, u\<lparr>topologies := (topologies u)(p \<mapsto>
                MPI_GRAPH \<lparr>gr_nnodes = gr_nnodes g, gr_nedges = gr_nedges g, gr_index = index, gr_edges = edges\<rparr>)\<rparr>))
      | None \<Rightarrow> (10, 0, False, u)))"

definition MPIR_Topology_delete_fn :: "int \<Rightarrow> 'v topo_user \<Rightarrow> int \<times> 'v topo_user" where
  "MPIR_Topology_delete_fn attr_val u =
     (case topologies u (nat attr_val) of
        Some t \<Rightarrow> (0, u\<lparr>topologies := (topologies u)(nat attr_val := None)\<rparr>)
      | None \<Rightarrow> (10, u))"

text \<open>Both functions have the address 1, a number no function of the user has.\<close>

abbreviation (input) TOPO_FN :: nat where "TOPO_FN \<equiv> 1"

definition topo_attr_env :: "topo_mem \<Rightarrow> 'v attr_env \<Rightarrow> 'v topo_user attr_env" where
  "topo_attr_env m e =
     \<lparr>ae_delete = (\<lambda>l fn obj kv extra v u.
        if fn = TOPO_FN then MPIR_Topology_delete_fn v u
        else (case ae_delete e l fn obj kv extra v (other u) of (er, w) \<Rightarrow> (er, u\<lparr>other := w\<rparr>))),
      ae_copy = (\<lambda>l fn obj kv extra v u.
        if fn = TOPO_FN then MPIR_Topology_copy_fn m v u
        else (case ae_copy e l fn obj kv extra v (other u) of (er, new, flag, w) \<Rightarrow> (er, new, flag, u\<lparr>other := w\<rparr>)))\<rparr>"

section \<open>The attribute\<close>

text \<open>
  The address of the structure, 0 without one. The error of \<open>MPI_Comm_get_attr\<close> is not looked at: the flag
  is not set then.
\<close>

definition MPIR_Topology_get :: "'v topo_user process_env \<Rightarrow> 'v topo_user process \<Rightarrow> nat \<Rightarrow> nat option" where
  "MPIR_Topology_get e P p =
     (let kv = MPIR_Topology_keyval (user (attrs P)) in
      if kv = MPI_KEYVAL_INVALID then Some 0
      else
     (case MPI_Comm_get_attr e P (handle_of (cheap (comms P)) p) kv of
        Some (Inr (Value v)) \<Rightarrow> Some (nat v)
      | Some (Inr NoAttr) \<Rightarrow> Some 0
      | _ \<Rightarrow> None))"

definition topology_keyval :: "'v topo_user process_env \<Rightarrow> 'v topo_user process \<Rightarrow> 'v topo_user process \<times> mpi_err option" where
  "topology_keyval e P =
     (if MPIR_Topology_keyval (user (attrs P)) \<noteq> MPI_KEYVAL_INVALID then (P, None)
      else
     (case MPI_Comm_create_keyval (pe_calloc e 0 (MPID_Keyval_mem (attrs P))) (attrs P) TOPO_FN TOPO_FN 0 of
        (st, Inl er) \<Rightarrow> (P\<lparr>attrs := st\<rparr>, Some er)
      | (st, Inr kv) \<Rightarrow> (P\<lparr>attrs := st\<lparr>user := (user st)\<lparr>MPIR_Topology_keyval := kv\<rparr>\<rparr>\<rparr>, None)))"

definition MPIR_Topology_put :: "'v topo_user process_env \<Rightarrow> 'v topo_user process \<Rightarrow> nat \<Rightarrow> nat
    \<Rightarrow> ('v topo_user process \<times> mpi_err option) option" where
  "MPIR_Topology_put e P p t =
     (case topology_keyval e P of
        (P, Some er) \<Rightarrow> Some (P, Some er)
      | (P, None) \<Rightarrow>
          MPI_Comm_set_attr e P (handle_of (cheap (comms P)) p) (MPIR_Topology_keyval (user (attrs P))) (int t))"

text \<open>A new structure is put on a communicator; when that fails it is freed again.\<close>

definition place_topology :: "'v topo_user process_env \<Rightarrow> 'v topo_user process \<Rightarrow> nat \<Rightarrow> nat \<Rightarrow> MPIR_Topology
    \<Rightarrow> ('v topo_user process \<times> (mpi_err + handle)) option" where
  "place_topology e P q t topo =
     (case MPIR_Topology_put e (upd_topologies (\<lambda>h. h(t \<mapsto> topo)) P) q t of
        None \<Rightarrow> None
      | Some (P, Some er) \<Rightarrow> Some (upd_topologies (\<lambda>h. h(t := None)) P, Inl er)
      | Some (P, None) \<Rightarrow> Some (P, Inr (handle_of (cheap (comms P)) q)))"

definition MPIR_Topology_finalize :: "'v topo_user process \<Rightarrow> 'v topo_user process" where
  "MPIR_Topology_finalize P =
     (let kv = MPIR_Topology_keyval (user (attrs P)) in
      if kv = MPI_KEYVAL_INVALID then P
      else
     (case MPI_Comm_free_keyval (attrs P) kv of
        (st, Inl er) \<Rightarrow> P\<lparr>attrs := st\<rparr>
      | (st, Inr kv) \<Rightarrow> P\<lparr>attrs := st\<lparr>user := (user st)\<lparr>MPIR_Topology_keyval := kv\<rparr>\<rparr>\<rparr>))"

text \<open>The structure of a communicator, \<open>None\<close> inside for none, or for a pointer to something else.\<close>

definition topology_of :: "'v topo_user process_env \<Rightarrow> 'v topo_user process \<Rightarrow> nat \<Rightarrow> MPIR_Topology option option" where
  "topology_of e P p =
     (case MPIR_Topology_get e P p of
        None \<Rightarrow> None
      | Some t \<Rightarrow> Some (if t = 0 then None else topologies (user (attrs P)) t))"

text \<open>\<open>MPI_Topo_test\<close>.\<close>

definition MPI_Topo_test :: "'v topo_user process_env \<Rightarrow> 'v topo_user process \<Rightarrow> handle \<Rightarrow> (mpi_err + int) option" where
  "MPI_Topo_test e P comm =
     (case get_comm (comms P) comm of
        Inl er \<Rightarrow> Some (Inl (fn_fail ''**mpi_topo_test'' er))
      | Inr p \<Rightarrow>
         (case topology_of e P p of
            None \<Rightarrow> None
          | Some None \<Rightarrow> Some (Inr MPI_UNDEFINED)
          | Some (Some (MPI_GRAPH g)) \<Rightarrow> Some (Inr 1)
          | Some (Some (MPI_CART c)) \<Rightarrow> Some (Inr 2)))"

end
