(* ===== verification/Graph.thy ===== *)
theory Graph
  imports Topo
begin

text \<open>
  Graph topologies, src/src/mpi/topo/graph*.c: node \<open>i\<close> of a graph has the neighbours that the array of edges
  holds from the index of node \<open>i - 1\<close> on up to its own. As for grids no device sets \<open>topo_fns\<close>.
\<close>

section \<open>Queries\<close>

definition comm_graph :: "string \<Rightarrow> 'v topo_user process_env \<Rightarrow> 'v topo_user process \<Rightarrow> handle
    \<Rightarrow> (mpi_err + MPIR_Graph_topology) option" where
  "comm_graph msg e P comm =
     (case get_comm (comms P) comm of
        Inl er \<Rightarrow> Some (Inl (fn_fail msg er))
      | Inr p \<Rightarrow>
         (case topology_of e P p of
            None \<Rightarrow> None
          | Some (Some (MPI_GRAPH g)) \<Rightarrow> Some (Inr g)
          | Some _ \<Rightarrow> Some (Inl (fn_fail msg (new_error MPI_ERR_TOPOLOGY ''**notgraphtopo'')))))"

definition MPI_Graphdims_get :: "'v topo_user process_env \<Rightarrow> 'v topo_user process \<Rightarrow> handle \<Rightarrow> (mpi_err + int \<times> int) option" where
  "MPI_Graphdims_get e P comm =
     map_option (\<lambda>r. case r of Inl er \<Rightarrow> Inl er | Inr g \<Rightarrow> Inr (gr_nnodes g, gr_nedges g)) (comm_graph ''**mpi_graphdims_get'' e P comm)"

text \<open>The arrays of the caller have \<open>maxindex\<close> and \<open>maxedges\<close> elements.\<close>

definition MPI_Graph_get :: "'v topo_user process_env \<Rightarrow> 'v topo_user process \<Rightarrow> handle \<Rightarrow> int \<Rightarrow> int
    \<Rightarrow> (mpi_err + int list \<times> int list) option" where
  "MPI_Graph_get e P comm maxindex maxedges =
     (case comm_graph ''**mpi_graph_get'' e P comm of
        None \<Rightarrow> None
      | Some (Inl er) \<Rightarrow> Some (Inl er)
      | Some (Inr g) \<Rightarrow>
          if gr_nnodes g > maxindex
          then Some (Inl (fn_fail ''**mpi_graph_get'' (new_error MPI_ERR_ARG ''**argrange'')))
          else if gr_nedges g > maxedges
          then Some (Inl (fn_fail ''**mpi_graph_get'' (new_error MPI_ERR_ARG ''**argrange'')))
          else Some (Inr (take (nat (gr_nnodes g)) (gr_index g), take (nat (gr_nedges g)) (gr_edges g))))"

definition MPI_Graph_neighbors_count :: "'v topo_user process_env \<Rightarrow> 'v topo_user process \<Rightarrow> handle \<Rightarrow> int \<Rightarrow> (mpi_err + int) option" where
  "MPI_Graph_neighbors_count e P comm rank =
     (case comm_graph ''**mpi_graph_neighbors_count'' e P comm of
        None \<Rightarrow> None
      | Some (Inl er) \<Rightarrow> Some (Inl er)
      | Some (Inr g) \<Rightarrow>
          if rank < 0 \<or> rank \<ge> gr_nnodes g
          then Some (Inl (fn_fail ''**mpi_graph_neighbors_count'' (new_error MPI_ERR_RANK ''**rank'')))
          else Some (Inr (if rank = 0 then gr_index g ! nat rank else gr_index g ! nat rank - gr_index g ! nat (rank - 1))))"

text \<open>
  The array of the caller has \<open>maxneighbors\<close> elements, a number the routine does not look at; \<open>None\<close> is an
  access outside it or outside the edges.
\<close>

definition MPI_Graph_neighbors :: "'v topo_user process_env \<Rightarrow> 'v topo_user process \<Rightarrow> handle \<Rightarrow> int \<Rightarrow> int
    \<Rightarrow> (mpi_err + int list) option" where
  "MPI_Graph_neighbors e P comm rank maxneighbors =
     (case comm_graph ''**mpi_graph_neighbors'' e P comm of
        None \<Rightarrow> None
      | Some (Inl er) \<Rightarrow> Some (Inl er)
      | Some (Inr g) \<Rightarrow>
          if rank < 0 \<or> rank \<ge> gr_nnodes g
          then Some (Inl (fn_fail ''**mpi_graph_neighbors'' (new_error MPI_ERR_RANK ''**rank'')))
          else
         (let i0 = (if rank = 0 then 0 else gr_index g ! nat (rank - 1)); i1 = gr_index g ! nat rank in
          if i0 < i1 \<and> (i0 < 0 \<or> i1 > int (length (gr_edges g)) \<or> i1 - i0 > maxneighbors) then None
          else Some (Inr (drop (nat i0) (take (nat i1) (gr_edges g))))))"

section \<open>Creation\<close>

definition MPIR_Graph_map :: "comm_body \<Rightarrow> int \<Rightarrow> int" where
  "MPIR_Graph_map b nnodes = (if cm_rank b < nnodes then cm_rank b else MPI_UNDEFINED)"

definition MPI_Graph_map :: "comm_state \<Rightarrow> handle \<Rightarrow> int \<Rightarrow> mpi_err + int" where
  "MPI_Graph_map st comm nnodes =
     (case errtest_comm comm of
        Some er \<Rightarrow> Inl (fn_fail ''**mpi_graph_map'' er)
      | None \<Rightarrow>
         (let p = MPID_Comm_get_ptr st comm in
          case last_of [MPID_Comm_valid_ptr st p, if nnodes \<le> 0 then Some (new_error MPI_ERR_ARG ''**argnonpos'') else None] of
            Some er \<Rightarrow> Inl (fn_fail ''**mpi_graph_map'' er)
          | None \<Rightarrow>
              if cm_local_size (body st p) < nnodes
              then Inl (fn_fail ''**mpi_graph_map'' (new_error MPI_ERR_ARG ''**graphnnodes''))
              else Inr (MPIR_Graph_map (body st p) nnodes)))"

text \<open>The communicator of the graph, a null pointer where the caller is not in it.\<close>

definition graph_comm :: "comm_env \<Rightarrow> comm_state \<Rightarrow> nat \<Rightarrow> int \<Rightarrow> bool \<Rightarrow> (comm_state \<times> (mpi_err + nat)) option" where
  "graph_comm e st p nnodes reorder =
     (if reorder then
        (case MPI_Graph_map st (handle_of (cheap st) p) nnodes of
           Inl er \<Rightarrow> Some (st, Inl er)
         | Inr nrank \<Rightarrow>
            (case MPI_Comm_split e st (handle_of (cheap st) p) (if nrank = MPI_UNDEFINED then MPI_UNDEFINED else 1) nrank of
               None \<Rightarrow> None
             | Some (st, Inl er) \<Rightarrow> Some (st, Inl er)
             | Some (st, Inr ncomm) \<Rightarrow> Some (st, Inr (MPID_Comm_get_ptr st ncomm))))
      else MPIR_Comm_copy e st p nnodes)"

definition place_graph :: "'v topo_user process_env \<Rightarrow> topo_mem \<Rightarrow> 'v topo_user process \<Rightarrow> nat \<Rightarrow> int \<Rightarrow> int list \<Rightarrow> int list
    \<Rightarrow> ('v topo_user process \<times> (mpi_err + handle)) option" where
  "place_graph e m P q nnodes index edges =
     (let t = tm_topology m (topologies (user (attrs P))); nedges = index ! nat (nnodes - 1) in
      if t = 0 \<or> \<not> tm_array m ''graph.index'' \<or> \<not> tm_array m ''graph.edges''
      then Some (P, Inl (new_error MPI_ERR_OTHER ''**nomem2''))
      else place_topology e P q t (MPI_GRAPH \<lparr>gr_nnodes = nnodes, gr_nedges = nedges, gr_index = take (nat nnodes) index,
             gr_edges = take (nat nedges) edges\<rparr>))"

definition MPIR_Graph_create :: "'v topo_user process_env \<Rightarrow> topo_mem \<Rightarrow> 'v topo_user process \<Rightarrow> nat \<Rightarrow> int \<Rightarrow> int list \<Rightarrow> int list
    \<Rightarrow> bool \<Rightarrow> ('v topo_user process \<times> (mpi_err + handle)) option" where
  "MPIR_Graph_create e m P p nnodes index edges reorder =
     (case graph_comm (pe_comm e) (comms P) p nnodes reorder of
        None \<Rightarrow> None
      | Some (st, Inl er) \<Rightarrow> Some (P\<lparr>comms := st\<rparr>, Inl (fn_fail ''**mpi_graph_create'' er))
      | Some (st, Inr q) \<Rightarrow>
          if q = 0 then Some (P\<lparr>comms := st\<rparr>, Inr MPI_COMM_NULL)
          else map_option (\<lambda>(P, r). (P, wrap_fail ''**mpi_graph_create'' r))
                 (place_graph e m (P\<lparr>comms := st\<rparr>) q nnodes index edges))"

text \<open>The checks of the arrays: each error replaces the one before.\<close>

definition index_errors :: "nat \<Rightarrow> int list \<Rightarrow> mpi_err option list" where
  "index_errors n index =
     concat (map (\<lambda>i. [if index ! i < 0 then Some (new_error MPI_ERR_ARG ''**indexneg'') else None,
                       if i + 1 < n \<and> index ! i > index ! (i + 1) then Some (new_error MPI_ERR_ARG ''**indexnonmonotone'') else None])
             [0..<n])"

definition edge_errors :: "int \<Rightarrow> int list \<Rightarrow> mpi_err option list" where
  "edge_errors comm_size edges =
     map (\<lambda>x. if x > comm_size \<or> x < 0 then Some (new_error MPI_ERR_ARG ''**edgeoutrange'') else None) edges"

text \<open>Whether a node has an edge to itself; \<open>j\<close> goes on from node to node.\<close>

fun null_edge_loop :: "int list \<Rightarrow> int \<Rightarrow> nat \<Rightarrow> int list \<Rightarrow> bool" where
  "null_edge_loop edges i j [] = False"
| "null_edge_loop edges i j (k # ks) =
     (if i \<in> set (drop j (take (nat k) edges)) then True else null_edge_loop edges (i + 1) (max j (nat k)) ks)"

text \<open>\<open>None\<close> is an array that is too short.\<close>

definition graph_checks :: "int \<Rightarrow> int \<Rightarrow> int list \<Rightarrow> int list \<Rightarrow> mpi_err option option" where
  "graph_checks comm_size nnodes index edges =
     (if nnodes > comm_size then Some (Some (new_error MPI_ERR_ARG ''**topotoolarge''))
      else if int (length index) < nnodes then None
      else
     (let n = nat nnodes; nedges = (if n > 0 then index ! (n - 1) else 0) in
      if int (length edges) < nedges then None
      else
     (case last_of (index_errors n index @ edge_errors comm_size (take (nat nedges) edges)) of
        Some er \<Rightarrow> Some (Some er)
      | None \<Rightarrow> Some (if null_edge_loop edges 0 0 (take n index) then Some (new_error MPI_ERR_ARG ''**nulledge'') else None))))"

definition MPI_Graph_create :: "'v topo_user process_env \<Rightarrow> topo_mem \<Rightarrow> 'v topo_user process \<Rightarrow> handle \<Rightarrow> int \<Rightarrow> int list \<Rightarrow> int list
    \<Rightarrow> bool \<Rightarrow> ('v topo_user process \<times> (mpi_err + handle)) option" where
  "MPI_Graph_create e m P comm nnodes index edges reorder =
     (case errtest_comm comm of
        Some er \<Rightarrow> Some (P, Inl (fn_fail ''**mpi_graph_create'' er))
      | None \<Rightarrow>
         (let p = MPID_Comm_get_ptr (comms P) comm; invalid = MPID_Comm_valid_ptr (comms P) p in
          case last_of [invalid,
                  if invalid = None \<and> cm_kind (body (comms P) p) \<noteq> MPID_INTRACOMM
                  then Some (new_error MPI_ERR_COMM ''**commnotintra'') else None,
                  if nnodes < 0 then Some (new_error MPI_ERR_ARG ''**argneg'') else None] of
            Some er \<Rightarrow> Some (P, Inl (fn_fail ''**mpi_graph_create'' er))
          | None \<Rightarrow>
             (case graph_checks (cm_remote_size (body (comms P) p)) nnodes index edges of
                None \<Rightarrow> None
              | Some (Some er) \<Rightarrow> Some (P, Inl (fn_fail ''**mpi_graph_create'' er))
              | Some None \<Rightarrow>
                  if nnodes = 0 then Some (P, Inr MPI_COMM_NULL)
                  else map_option (\<lambda>(P, r). (P, wrap_fail ''**mpi_graph_create'' r))
                         (MPIR_Graph_create e m P p nnodes index edges reorder))))"

end
