(* ===== verification/Cart.thy ===== *)
theory Cart
  imports Topo
begin

text \<open>
  Cartesian topologies, src/src/mpi/topo/cart_*.c. The devices of this library never set the table of
  functions \<open>topo_fns\<close>, which could replace the routines \<open>MPIR_Cart_create\<close> and \<open>MPIR_Cart_map\<close>.
\<close>

section \<open>Ranks and coordinates\<close>

text \<open>The product of the dimensions; \<open>None\<close> is the overflow of an \<open>int\<close>.\<close>

fun product_loop :: "int \<Rightarrow> int list \<Rightarrow> int option" where
  "product_loop n [] = Some n"
| "product_loop n (d # ds) = (if int_ok (n * d) then product_loop (n * d) ds else None)"

text \<open>The coordinates of a rank; \<open>None\<close> is a division by zero.\<close>

fun position_loop :: "int \<Rightarrow> int \<Rightarrow> int list \<Rightarrow> int list option" where
  "position_loop nranks rank [] = Some []"
| "position_loop nranks rank (d # ds) =
     (if d = 0 \<or> nranks sdiv d = 0 then None
      else map_option ((#) (rank sdiv (nranks sdiv d))) (position_loop (nranks sdiv d) (rank smod (nranks sdiv d)) ds))"

text \<open>The coordinates a periodic dimension takes to its range.\<close>

definition wrap_coord :: "bool \<Rightarrow> int \<Rightarrow> int \<Rightarrow> int" where
  "wrap_coord periodic dim coord =
     (if \<not> periodic then coord
      else if coord \<ge> dim then coord smod dim
      else if coord < 0 then (let c = coord smod dim in if c \<noteq> 0 then dim + c else c)
      else coord)"

text \<open>From the last dimension to the first.\<close>

fun cart_rank_loop :: "MPIR_Cart_topology \<Rightarrow> int list \<Rightarrow> nat \<Rightarrow> int \<Rightarrow> int \<Rightarrow> int" where
  "cart_rank_loop c coords 0 rank multiplier = rank"
| "cart_rank_loop c coords (Suc i) rank multiplier =
     cart_rank_loop c coords i
       (rank + multiplier * wrap_coord (ct_periodic c ! i) (ct_dims c ! i) (coords ! i)) (multiplier * ct_dims c ! i)"

definition coords_invalid :: "MPIR_Cart_topology \<Rightarrow> int list \<Rightarrow> bool" where
  "coords_invalid c coords \<longleftrightarrow>
     (\<exists>i < nat (ct_ndims c). \<not> ct_periodic c ! i \<and> (coords ! i < 0 \<or> coords ! i \<ge> ct_dims c ! i))"

section \<open>Queries\<close>

definition get_cart :: "string \<Rightarrow> 'v topo_user process_env \<Rightarrow> 'v topo_user process \<Rightarrow> nat
    \<Rightarrow> (mpi_err + MPIR_Cart_topology) option" where
  "get_cart msg e P p =
     (case topology_of e P p of
        None \<Rightarrow> None
      | Some (Some (MPI_CART c)) \<Rightarrow> Some (Inr c)
      | Some _ \<Rightarrow> Some (Inl (fn_fail msg (new_error MPI_ERR_TOPOLOGY ''**notcarttopo''))))"

definition comm_cart :: "string \<Rightarrow> 'v topo_user process_env \<Rightarrow> 'v topo_user process \<Rightarrow> handle
    \<Rightarrow> (mpi_err + nat \<times> MPIR_Cart_topology) option" where
  "comm_cart msg e P comm =
     (case get_comm (comms P) comm of
        Inl er \<Rightarrow> Some (Inl (fn_fail msg er))
      | Inr p \<Rightarrow>
         (case get_cart msg e P p of
            None \<Rightarrow> None | Some (Inl er) \<Rightarrow> Some (Inl er) | Some (Inr c) \<Rightarrow> Some (Inr (p, c))))"

text \<open>\<open>None\<close> is also an array of coordinates that is too short.\<close>

definition MPI_Cart_rank :: "'v topo_user process_env \<Rightarrow> 'v topo_user process \<Rightarrow> handle \<Rightarrow> int list \<Rightarrow> (mpi_err + int) option" where
  "MPI_Cart_rank e P comm coords =
     (case comm_cart ''**mpi_cart_rank'' e P comm of
        None \<Rightarrow> None
      | Some (Inl er) \<Rightarrow> Some (Inl er)
      | Some (Inr (p, c)) \<Rightarrow>
          if int (length coords) < ct_ndims c then None
          else if coords_invalid c coords
          then Some (Inl (fn_fail ''**mpi_cart_rank'' (new_error MPI_ERR_ARG ''**cartcoordinvalid'')))
          else Some (Inr (cart_rank_loop c coords (nat (ct_ndims c)) 0 1)))"

definition MPI_Cart_coords :: "'v topo_user process_env \<Rightarrow> 'v topo_user process \<Rightarrow> handle \<Rightarrow> int \<Rightarrow> int
    \<Rightarrow> (mpi_err + int list) option" where
  "MPI_Cart_coords e P comm rank maxdims =
     (case get_comm (comms P) comm of
        Inl er \<Rightarrow> Some (Inl (fn_fail ''**mpi_cart_coords'' er))
      | Inr p \<Rightarrow>
          if rank < 0 \<or> rank \<ge> cm_remote_size (body (comms P) p)
          then Some (Inl (fn_fail ''**mpi_cart_coords'' (new_error MPI_ERR_RANK ''**rank'')))
          else
         (case get_cart ''**mpi_cart_coords'' e P p of
            None \<Rightarrow> None
          | Some (Inl er) \<Rightarrow> Some (Inl er)
          | Some (Inr c) \<Rightarrow>
              if ct_ndims c > maxdims
              then Some (Inl (fn_fail ''**mpi_cart_coords'' (new_error MPI_ERR_ARG ''**dimsmany'')))
              else map_option Inr (position_loop (ct_nnodes c) rank (take (nat (ct_ndims c)) (ct_dims c)))))"

definition MPI_Cart_get :: "'v topo_user process_env \<Rightarrow> 'v topo_user process \<Rightarrow> handle \<Rightarrow> int
    \<Rightarrow> (mpi_err + int list \<times> bool list \<times> int list) option" where
  "MPI_Cart_get e P comm maxdims =
     (case comm_cart ''**mpi_cart_get'' e P comm of
        None \<Rightarrow> None
      | Some (Inl er) \<Rightarrow> Some (Inl er)
      | Some (Inr (p, c)) \<Rightarrow>
          if ct_ndims c > maxdims
          then Some (Inl (fn_fail ''**mpi_cart_get'' (new_error MPI_ERR_ARG ''**dimsmany'')))
          else (let n = nat (ct_ndims c) in
            Some (Inr (take n (ct_dims c), take n (ct_periodic c), take n (ct_position c)))))"

definition MPI_Cartdim_get :: "'v topo_user process_env \<Rightarrow> 'v topo_user process \<Rightarrow> handle \<Rightarrow> (mpi_err + int) option" where
  "MPI_Cartdim_get e P comm =
     (case comm_cart ''**mpi_cartdim_get'' e P comm of
        None \<Rightarrow> None
      | Some (Inl er) \<Rightarrow> Some (Inl er)
      | Some (Inr (p, c)) \<Rightarrow> Some (Inr (ct_ndims c)))"

text \<open>
  One end of a shift: off a dimension that is not periodic it is \<open>MPI_PROC_NULL\<close>, else what \<open>MPI_Cart_rank\<close>
  says, whose error leaves it unset. The position is kept in an array of \<open>MAX_CART_DIM\<close> integers.
\<close>

abbreviation MPI_PROC_NULL :: int where "MPI_PROC_NULL \<equiv> - 1"
abbreviation MAX_CART_DIM :: int where "MAX_CART_DIM \<equiv> 16"

definition shift_end :: "'v topo_user process_env \<Rightarrow> 'v topo_user process \<Rightarrow> handle \<Rightarrow> MPIR_Cart_topology \<Rightarrow> nat \<Rightarrow> int
    \<Rightarrow> int option" where
  "shift_end e P comm c dir displ =
     (let x = ct_position c ! dir + displ; pos = (take (nat (ct_ndims c)) (ct_position c))[dir := x] in
      if \<not> int_ok x then None
      else if \<not> ct_periodic c ! dir \<and> (x \<ge> ct_dims c ! dir \<or> x < 0) then Some MPI_PROC_NULL
      else (case MPI_Cart_rank e P comm pos of Some (Inr r) \<Rightarrow> Some r | _ \<Rightarrow> None))"

text \<open>The source and the destination.\<close>

definition MPI_Cart_shift :: "'v topo_user process_env \<Rightarrow> 'v topo_user process \<Rightarrow> handle \<Rightarrow> int \<Rightarrow> int
    \<Rightarrow> (mpi_err + int \<times> int) option" where
  "MPI_Cart_shift e P comm direction displ =
     (case errtest_comm comm of
        Some er \<Rightarrow> Some (Inl (fn_fail ''**mpi_cart_shift'' er))
      | None \<Rightarrow>
         (let p = MPID_Comm_get_ptr (comms P) comm in
          case last_of [MPID_Comm_valid_ptr (comms P) p,
                        if direction < 0 then Some (new_error MPI_ERR_ARG ''**argneg'') else None] of
            Some er \<Rightarrow> Some (Inl (fn_fail ''**mpi_cart_shift'' er))
          | None \<Rightarrow>
             (case get_cart ''**mpi_cart_shift'' e P p of
                None \<Rightarrow> None
              | Some (Inl er) \<Rightarrow> Some (Inl er)
              | Some (Inr c) \<Rightarrow>
                  if direction \<ge> ct_ndims c
                  then Some (Inl (fn_fail ''**mpi_cart_shift'' (new_error MPI_ERR_ARG ''**dimsmany'')))
                  else if displ = 0 then Some (Inr (cm_rank (body (comms P) p), cm_rank (body (comms P) p)))
                  else if ct_ndims c > MAX_CART_DIM then None
                  else
                 (case shift_end e P comm c (nat direction) displ of
                    None \<Rightarrow> None
                  | Some dest \<Rightarrow>
                      map_option (\<lambda>source. Inr (source, dest)) (shift_end e P comm c (nat direction) (- displ))))))"

section \<open>Creation\<close>

definition MPIR_Cart_map :: "comm_body \<Rightarrow> int list \<Rightarrow> (mpi_err + int) option" where
  "MPIR_Cart_map b dims =
     (case product_loop (hd dims) (tl dims) of
        None \<Rightarrow> None
      | Some nranks \<Rightarrow> Some
         (if cm_remote_size b < nranks then Inl (new_error MPI_ERR_DIMS ''**topotoolarge'')
          else Inr (if cm_rank b < nranks then cm_rank b else MPI_UNDEFINED)))"

definition MPI_Cart_map :: "comm_state \<Rightarrow> handle \<Rightarrow> int \<Rightarrow> int list \<Rightarrow> (mpi_err + int) option" where
  "MPI_Cart_map st comm ndims dims =
     (case errtest_comm comm of
        Some er \<Rightarrow> Some (Inl (fn_fail ''**mpi_cart_map'' er))
      | None \<Rightarrow>
         (let p = MPID_Comm_get_ptr st comm in
          case last_of [MPID_Comm_valid_ptr st p, if ndims < 1 then Some (new_error MPI_ERR_DIMS ''**dims'') else None] of
            Some er \<Rightarrow> Some (Inl (fn_fail ''**mpi_cart_map'' er))
          | None \<Rightarrow> if int (length dims) < ndims then None else MPIR_Cart_map (body st p) (take (nat ndims) dims)))"

text \<open>
  The communicator of the grid, here with the rank of the caller in it; a null pointer where the caller is
  not in it. With \<open>reorder\<close> it is split off, without it is a copy.
\<close>

definition cart_comm :: "comm_env \<Rightarrow> comm_state \<Rightarrow> nat \<Rightarrow> int list \<Rightarrow> bool \<Rightarrow> int
    \<Rightarrow> (comm_state \<times> (mpi_err + nat \<times> int)) option" where
  "cart_comm e st p dims reorder newsize =
     (if reorder then
        (case MPI_Cart_map st (handle_of (cheap st) p) (int (length dims)) dims of
           None \<Rightarrow> None
         | Some (Inl er) \<Rightarrow> Some (st, Inl er)
         | Some (Inr rank) \<Rightarrow>
            (case MPI_Comm_split e st (handle_of (cheap st) p) (if rank = MPI_UNDEFINED then MPI_UNDEFINED else 1) rank of
               None \<Rightarrow> None
             | Some (st, Inl er) \<Rightarrow> Some (st, Inl er)
             | Some (st, Inr ncomm) \<Rightarrow> Some (st, Inr (MPID_Comm_get_ptr st ncomm, rank))))
      else
        (case MPIR_Comm_copy e st p newsize of
           None \<Rightarrow> None
         | Some (st, Inl er) \<Rightarrow> Some (st, Inl er)
         | Some (st, Inr q) \<Rightarrow> Some (st, Inr (q, cm_rank (body st p)))))"

definition place_cart :: "'v topo_user process_env \<Rightarrow> topo_mem \<Rightarrow> 'v topo_user process \<Rightarrow> nat \<Rightarrow> int \<Rightarrow> int list \<Rightarrow> bool list
    \<Rightarrow> int \<Rightarrow> ('v topo_user process \<times> (mpi_err + handle)) option" where
  "place_cart e m P q newsize dims periods rank =
     (let t = tm_topology m (topologies (user (attrs P))) in
      if t = 0 \<or> \<not> tm_array m ''cart.dims'' \<or> \<not> tm_array m ''cart.periodic'' \<or> \<not> tm_array m ''cart.position''
      then Some (P, Inl (new_error MPI_ERR_OTHER ''**nomem2''))
      else
     (case position_loop newsize rank dims of
        None \<Rightarrow> None
      | Some position \<Rightarrow>
          if q = 0 then None
          else place_topology e P q t (MPI_CART \<lparr>ct_nnodes = newsize, ct_ndims = int (length dims), ct_dims = dims,
                  ct_periodic = periods, ct_position = position\<rparr>)))"

definition MPIR_Cart_create :: "'v topo_user process_env \<Rightarrow> topo_mem \<Rightarrow> 'v topo_user process \<Rightarrow> nat \<Rightarrow> int list \<Rightarrow> bool list
    \<Rightarrow> bool \<Rightarrow> ('v topo_user process \<times> (mpi_err + handle)) option" where
  "MPIR_Cart_create e m P p dims periods reorder =
     (case product_loop 1 dims of
        None \<Rightarrow> None
      | Some newsize \<Rightarrow>
          if newsize > cm_remote_size (body (comms P) p)
          then Some (P, Inl (fn_fail ''**mpi_cart_create'' (new_error MPI_ERR_ARG ''**cartdim'')))
          else
         (case cart_comm (pe_comm e) (comms P) p dims reorder newsize of
            None \<Rightarrow> None
          | Some (st, Inl er) \<Rightarrow> Some (P\<lparr>comms := st\<rparr>, Inl (fn_fail ''**mpi_cart_create'' er))
          | Some (st, Inr (q, rank)) \<Rightarrow>
              if rank \<ge> newsize \<or> rank = MPI_UNDEFINED then Some (P\<lparr>comms := st\<rparr>, Inr MPI_COMM_NULL)
              else map_option (\<lambda>(P, r). (P, wrap_fail ''**mpi_cart_create'' r))
                     (place_cart e m (P\<lparr>comms := st\<rparr>) q newsize dims periods rank)))"

definition MPI_Cart_create :: "'v topo_user process_env \<Rightarrow> topo_mem \<Rightarrow> 'v topo_user process \<Rightarrow> handle \<Rightarrow> int \<Rightarrow> int list
    \<Rightarrow> bool list \<Rightarrow> bool \<Rightarrow> ('v topo_user process \<times> (mpi_err + handle)) option" where
  "MPI_Cart_create e m P comm ndims dims periods reorder =
     (case errtest_comm comm of
        Some er \<Rightarrow> Some (P, Inl (fn_fail ''**mpi_cart_create'' er))
      | None \<Rightarrow>
         (let p = MPID_Comm_get_ptr (comms P) comm; invalid = MPID_Comm_valid_ptr (comms P) p in
          case last_of [invalid, if ndims \<le> 0 then Some (new_error MPI_ERR_DIMS ''**dims'') else None,
                  if ndims < 0 then Some (new_error MPI_ERR_ARG ''**argneg'') else None,
                  if invalid = None \<and> cm_kind (body (comms P) p) \<noteq> MPID_INTRACOMM
                  then Some (new_error MPI_ERR_COMM ''**commnotintra'') else None] of
            Some er \<Rightarrow> Some (P, Inl (fn_fail ''**mpi_cart_create'' er))
          | None \<Rightarrow>
              if int (length dims) < ndims \<or> int (length periods) < ndims then None
              else map_option (\<lambda>(P, r). (P, wrap_fail ''**mpi_cart_create'' r))
                     (MPIR_Cart_create e m P p (take (nat ndims) dims) (take (nat ndims) periods) reorder)))"

section \<open>Subgrids\<close>

text \<open>How many dimensions remain and the processes in them; the key and the color of the caller.\<close>

definition sub_size :: "(bool \<times> int) list \<Rightarrow> int \<times> int" where
  "sub_size rds = fold (\<lambda>(remain, d) (ndims, nnodes). if remain then (ndims + 1, nnodes * d) else (ndims, nnodes)) rds (0, 1)"

definition sub_key_color :: "(bool \<times> int \<times> int) list \<Rightarrow> int \<times> int" where
  "sub_key_color rdx =
     fold (\<lambda>(remain, d, x) (key, color). if remain then (key * d + x, color) else (key, color * d + x)) rdx (0, 0)"

definition kept :: "bool list \<Rightarrow> 'a list \<Rightarrow> 'a list" where
  "kept remain xs = map snd (filter fst (zip remain xs))"

definition place_sub :: "'v topo_user process_env \<Rightarrow> topo_mem \<Rightarrow> 'v topo_user process \<Rightarrow> nat \<Rightarrow> MPIR_Cart_topology \<Rightarrow> bool list
    \<Rightarrow> ('v topo_user process \<times> (mpi_err + handle)) option" where
  "place_sub e m P q c remain =
     (let t = tm_topology m (topologies (user (attrs P))); (ndims, nnodes) = sub_size (zip remain (ct_dims c)) in
      if t = 0 \<or> ndims \<noteq> 0 \<and> (\<not> tm_array m ''cart.dims'' \<or> \<not> tm_array m ''cart.periodic'' \<or> \<not> tm_array m ''cart.position'')
      then Some (P, Inl (new_error MPI_ERR_OTHER ''**nomem2''))
      else if q = 0 then None
      else
     (case position_loop nnodes (cm_rank (body (comms P) q)) (kept remain (ct_dims c)) of
        None \<Rightarrow> None
      | Some position \<Rightarrow>
          place_topology e P q t (MPI_CART \<lparr>ct_nnodes = nnodes, ct_ndims = ndims, ct_dims = kept remain (ct_dims c),
            ct_periodic = kept remain (ct_periodic c), ct_position = position\<rparr>)))"

text \<open>A communicator without topology, and one with a graph, are told apart.\<close>

definition MPI_Cart_sub :: "'v topo_user process_env \<Rightarrow> topo_mem \<Rightarrow> 'v topo_user process \<Rightarrow> handle \<Rightarrow> bool list
    \<Rightarrow> ('v topo_user process \<times> (mpi_err + handle)) option" where
  "MPI_Cart_sub e m P comm remain_dims =
     (case get_comm (comms P) comm of
        Inl er \<Rightarrow> Some (P, Inl (fn_fail ''**mpi_cart_sub'' er))
      | Inr p \<Rightarrow>
         (case topology_of e P p of
            None \<Rightarrow> None
          | Some None \<Rightarrow>
              Some (P, Inl (fn_fail ''**mpi_cart_sub'' (new_error MPI_ERR_TOPOLOGY
                (if MPIR_Topology_get e P p = Some 0 then ''**notopology'' else ''**notcarttopo''))))
          | Some (Some (MPI_GRAPH g)) \<Rightarrow>
              Some (P, Inl (fn_fail ''**mpi_cart_sub'' (new_error MPI_ERR_TOPOLOGY ''**notcarttopo'')))
          | Some (Some (MPI_CART c)) \<Rightarrow>
              if int (length remain_dims) < ct_ndims c then None
              else
             (let remain = take (nat (ct_ndims c)) remain_dims;
                  (key, color) = sub_key_color (zip remain (zip (ct_dims c) (ct_position c))) in
              case MPI_Comm_split (pe_comm e) (comms P) comm color key of
                None \<Rightarrow> None
              | Some (st, Inl er) \<Rightarrow> Some (P\<lparr>comms := st\<rparr>, Inl (fn_fail ''**mpi_cart_sub'' er))
              | Some (st, Inr ncomm) \<Rightarrow>
                  map_option (\<lambda>(P, r). (P, wrap_fail ''**mpi_cart_sub'' r))
                    (place_sub e m (P\<lparr>comms := st\<rparr>) (MPID_Comm_get_ptr st ncomm) c remain))))"

end
