(* ===== verification/AttrSpec.thy ===== *)
theory AttrSpec
  imports Attr MpiGroupSpec
begin

text \<open>
  What the attribute routines do to the lists: each is an association list, which setting, finding and
  deleting change as such, on nodes of the pool that belong to no other list; a keyval stays allocated
  as long as an attribute refers to it.
\<close>

section \<open>Association lists\<close>

text \<open>
  Setting puts a new pair behind the first one with a larger key. The first pair of a key is the one
  that counts.
\<close>

fun put_pair :: "handle \<Rightarrow> int \<Rightarrow> (handle \<times> int) list \<Rightarrow> (handle \<times> int) list" where
  "put_pair k v [] = [(k, v)]"
| "put_pair k v ((k', v') # xs) =
     (if k' = k then (k, v) # xs
      else if sint k' > sint k then (k', v') # (k, v) # xs
      else (k', v') # put_pair k v xs)"

fun del_pair :: "handle \<Rightarrow> (handle \<times> int) list \<Rightarrow> (handle \<times> int) list" where
  "del_pair k [] = []"
| "del_pair k ((k', v') # xs) = (if k' = k then xs else (k', v') # del_pair k xs)"

lemma map_of_put_pair: "map_of (put_pair k v xs) = (map_of xs)(k \<mapsto> v)"
  by (induction k v xs rule: put_pair.induct) (auto simp: fun_eq_iff)

lemma map_of_del_pair: "k' \<noteq> k \<Longrightarrow> map_of (del_pair k xs) k' = map_of xs k'"
  by (induction k xs rule: del_pair.induct) auto

lemma del_pair_distinct: "distinct (map fst xs) \<Longrightarrow> map_of (del_pair k xs) = (map_of xs)(k := None)"
  by (induction k xs rule: del_pair.induct) (auto simp: fun_eq_iff map_of_eq_None_iff)

text \<open>Setting twice below a larger key leaves two pairs, and deleting brings the older one back.\<close>

lemma put_del_pair_stale:
  "k \<notin> fst ` set xs \<Longrightarrow> \<exists>y \<in> set xs. sint (fst y) > sint k \<Longrightarrow>
   map_of (del_pair k (put_pair k w (put_pair k v xs))) k = Some v"
  by (induction k v xs rule: put_pair.induct) auto

section \<open>Allocation without the handles\<close>

text \<open>The allocator does not read the handles of objects; it writes the same ones whatever they were.\<close>

definition handles_step :: "(nat \<Rightarrow> handle) \<Rightarrow> (nat \<Rightarrow> handle) \<Rightarrow> (nat \<Rightarrow> handle) \<Rightarrow> (nat \<Rightarrow> handle) \<Rightarrow> bool" where
  "handles_step f g f' g' \<longleftrightarrow> (\<forall>x. f' x = g' x \<or> f' x = f x \<and> g' x = g x)"

lemma handles_step_refl [simp]: "handles_step f g f g"
  by (simp add: handles_step_def)

lemma block_handles:
  "link_block h ptr osize mk i n hptr = (h', r) \<Longrightarrow>
   \<exists>g'. link_block (h\<lparr>handle_of := g\<rparr>) ptr osize mk i n hptr = (h'\<lparr>handle_of := g'\<rparr>, r)
     \<and> handles_step (handle_of h) g (handle_of h') g'"
proof (induction n arbitrary: h g ptr i hptr)
  case 0
  then show ?case by (auto intro: exI[of _ g])
next
  case (Suc n)
  let ?h = "h\<lparr>next_of := (next_of h)(ptr := ptr + osize), handle_of := (handle_of h)(ptr := mk i)\<rparr>"
  have "link_block ?h (ptr + osize) osize mk (Suc i) n ptr = (h', r)" using Suc.prems by simp
  from Suc.IH[OF this, of "g(ptr := mk i)"] obtain g' where
    "link_block (?h\<lparr>handle_of := g(ptr := mk i)\<rparr>) (ptr + osize) osize mk (Suc i) n ptr = (h'\<lparr>handle_of := g'\<rparr>, r)"
    "handles_step ((handle_of h)(ptr := mk i)) (g(ptr := mk i)) (handle_of h') g'" by (auto simp del: fun_upd_apply)
  moreover from this(2) have "handles_step (handle_of h) g (handle_of h') g'"
    unfolding handles_step_def by (metis fun_upd_apply)
  ultimately show ?case by (intro exI[of _ g']) simp
qed

lemma indirect_init_handles:
  assumes "MPIU_Handle_indirect_init e h ind isize imax bsize osize k = (h', r)"
  shows "\<exists>g'. MPIU_Handle_indirect_init e (h\<lparr>handle_of := g\<rparr>) ind isize imax bsize osize k = (h'\<lparr>handle_of := g'\<rparr>, r)
    \<and> handles_step (handle_of h) g (handle_of h') g'"
proof -
  define x where "x = (case ind of Some t \<Rightarrow> Some (t, isize) | None \<Rightarrow> if table_ok e then Some (replicate imax 0, 0) else None)"
  note d = MPIU_Handle_indirect_init_def x_def[symmetric]
  consider "h' = h" "MPIU_Handle_indirect_init e (h\<lparr>handle_of := g\<rparr>) ind isize imax bsize osize k = (h\<lparr>handle_of := g\<rparr>, r)"
    | t s where "x = Some (t, s)" "\<not> int s \<ge> int imax - 1" "new_block e \<noteq> 0"
    using assms by (cases x) (auto simp: d split: if_splits)
  then show ?thesis
  proof cases
    case 1
    then show ?thesis by (intro exI[of _ g]) simp
  next
    case (2 t s)
    obtain h2 hptr where l: "link_block h (new_block e) osize (indirect_handle k s) 0 bsize 0 = (h2, hptr)" by fastforce
    from block_handles[OF this, of g] obtain g' where
      g': "link_block (h\<lparr>handle_of := g\<rparr>) (new_block e) osize (indirect_handle k s) 0 bsize 0 = (h2\<lparr>handle_of := g'\<rparr>, hptr)"
      "handles_step (handle_of h) g (handle_of h2) g'" by blast
    then show ?thesis using assms 2 l by (intro exI[of _ g']) (auto simp: d)
  qed
qed

lemma alloc_handles:
  assumes "MPIU_Handle_obj_alloc e h om = (h', om', q)"
  shows "\<exists>g'. MPIU_Handle_obj_alloc e (h\<lparr>handle_of := g\<rparr>) om = (h'\<lparr>handle_of := g'\<rparr>, om', q)
    \<and> handles_step (handle_of h) g (handle_of h') g'"
proof -
  consider "om_avail om \<noteq> 0" | "om_avail om = 0" "\<not> om_initialized om" | "om_avail om = 0" "om_initialized om" by blast
  then show ?thesis
  proof cases
    case 1
    then show ?thesis using assms by (intro exI[of _ g]) (auto simp: MPIU_Handle_obj_alloc_def)
  next
    case 2
    obtain h2 hptr where l: "link_block h (om_direct om) (om_size om) (direct_handle (om_kind om)) 0 (om_direct_size om) 0 = (h2, hptr)"
      by fastforce
    from block_handles[OF this, of g] obtain g' where
      "link_block (h\<lparr>handle_of := g\<rparr>) (om_direct om) (om_size om) (direct_handle (om_kind om)) 0 (om_direct_size om) 0
        = (h2\<lparr>handle_of := g'\<rparr>, hptr)" "handles_step (handle_of h) g (handle_of h2) g'" by blast
    then show ?thesis using assms 2 l
      by (intro exI[of _ g']) (auto simp: MPIU_Handle_obj_alloc_def MPIU_Handle_direct_init_def Let_def)
  next
    case 3
    obtain h2 ind isize ptr where i: "MPIU_Handle_indirect_init e h (om_indirect om) (om_indirect_size om)
        HANDLE_BLOCK_INDEX_SIZE HANDLE_BLOCK_SIZE (om_size om) (om_kind om) = (h2, ind, isize, ptr)" by (metis prod_cases4)
    from indirect_init_handles[OF this, of g] obtain g' where
      "MPIU_Handle_indirect_init e (h\<lparr>handle_of := g\<rparr>) (om_indirect om) (om_indirect_size om) HANDLE_BLOCK_INDEX_SIZE
        HANDLE_BLOCK_SIZE (om_size om) (om_kind om) = (h2\<lparr>handle_of := g'\<rparr>, ind, isize, ptr)"
      "handles_step (handle_of h) g (handle_of h2) g'" by blast
    then show ?thesis using assms 3 i
      by (intro exI[of _ g']) (auto simp: MPIU_Handle_obj_alloc_def Let_def)
  qed
qed

section \<open>The store\<close>

definition apool :: "'u attr_state \<Rightarrow> attr_heap \<times> MPIU_Object_alloc_t" where
  "apool st = (aheap st, MPID_Attr_mem st)"

definition klive :: "'u attr_state \<Rightarrow> nat set" where
  "klive st = pool_live (kheap st, MPID_Keyval_mem st)"

text \<open>
  The pool of keyvals is one but for the kind of object in the handles; \<open>g\<close> are the handles the
  allocator gave.
\<close>

definition unkind :: "handle \<Rightarrow> handle" where
  "unkind h = h AND NOT 0x03c00000"

definition kpool_of :: "'u attr_state \<Rightarrow> (nat \<Rightarrow> handle) \<Rightarrow> keyval_heap \<times> MPIU_Object_alloc_t" where
  "kpool_of st g = ((kheap st)\<lparr>handle_of := g\<rparr>, MPID_Keyval_mem st)"

definition keyvals_ok :: "'u attr_state \<Rightarrow> bool" where
  "keyvals_ok st \<longleftrightarrow> om_kind (MPID_Keyval_mem st) = MPID_KEYVAL
     \<and> (\<exists>g. pool_ok (kpool_of st g) \<and> (\<forall>x. unkind (handle_of (kheap st) x) = unkind (g x)))"

text \<open>
  \<open>N\<close> are the attributes on all the lists and \<open>K\<close> the keyvals whose handle somebody has. The count of a
  keyval covers both.
\<close>

definition attrs_ok :: "'u attr_state \<Rightarrow> nat set \<Rightarrow> nat set \<Rightarrow> bool" where
  "attrs_ok st N K \<longleftrightarrow> pool_ok (apool st) \<and> keyvals_ok st \<and> N \<subseteq> pool_live (apool st) \<and> K \<subseteq> klive st
     \<and> (\<forall>n \<in> N. at_pre_sentinal (attr st n) = 0 \<and> at_post_sentinal (attr st n) = 0 \<and> at_keyval (attr st n) \<in> klive st)
     \<and> (\<forall>k \<in> klive st. 1 \<le> kv_ref_count (keyval st k)
          \<and> int (card {n \<in> N. at_keyval (attr st n) = k}) + of_bool (k \<in> K) \<le> kv_ref_count (keyval st k))"

lemma klive_handles: "pool_live (kpool_of st g) = klive st"
  by (simp add: kpool_of_def klive_def pool_live_def)

lemma pool_live_finite: "finite (pool_live s)"
  by (simp add: pool_live_def)

definition akey :: "'u attr_state \<Rightarrow> nat \<Rightarrow> handle" where
  "akey st n = handle_of (kheap st) (at_keyval (attr st n))"

abbreviation anext :: "'u attr_state \<Rightarrow> nat \<Rightarrow> nat" where
  "anext st \<equiv> \<lambda>n. at_next (attr st n)"

definition pairs :: "'u attr_state \<Rightarrow> nat list \<Rightarrow> (handle \<times> int) list" where
  "pairs st ns = map (\<lambda>n. (akey st n, at_value (attr st n))) ns"

lemma set_attr_simps [simp]:
  "attr (set_attr p a st) = (attr st)(p := a)" "kheap (set_attr p a st) = kheap st"
  "MPID_Attr_mem (set_attr p a st) = MPID_Attr_mem st" "MPID_Keyval_mem (set_attr p a st) = MPID_Keyval_mem st"
  "next_of (aheap (set_attr p a st)) = next_of (aheap st)" "handle_of (aheap (set_attr p a st)) = handle_of (aheap st)"
  "user (set_attr p a st) = user st" "attr_dup_set (set_attr p a st) = attr_dup_set st"
  by (simp_all add: set_attr_def)

lemma set_keyval_simps [simp]:
  "keyval (set_keyval p k st) = (keyval st)(p := k)" "aheap (set_keyval p k st) = aheap st"
  "MPID_Attr_mem (set_keyval p k st) = MPID_Attr_mem st" "MPID_Keyval_mem (set_keyval p k st) = MPID_Keyval_mem st"
  "next_of (kheap (set_keyval p k st)) = next_of (kheap st)" "handle_of (kheap (set_keyval p k st)) = handle_of (kheap st)"
  "user (set_keyval p k st) = user st" "attr_dup_set (set_keyval p k st) = attr_dup_set st"
  by (simp_all add: set_keyval_def)

lemma live_cong: "next_of h = next_of h' \<Longrightarrow> pool_live (h, om) = pool_live (h', om)"
  by (simp add: pool_live_def)

lemma ok_cong: "next_of h = next_of h' \<Longrightarrow> handle_of h = handle_of h' \<Longrightarrow> pool_ok (h, om) = pool_ok (h', om)"
  by (simp add: pool_ok_def pool_inv_def handles_ok_def)

lemma attr_store_simps [simp]:
  "pool_live (apool (set_attr p a st)) = pool_live (apool st)" "pool_ok (apool (set_attr p a st)) = pool_ok (apool st)"
  "keyvals_ok (set_attr p a st) = keyvals_ok st" "klive (set_keyval p k st) = klive st"
  "keyvals_ok (set_keyval p k st) = keyvals_ok st" "klive (set_attr p a st) = klive st" "apool (set_keyval p k st) = apool st"
proof -
  show "klive (set_attr p a st) = klive st" "apool (set_keyval p k st) = apool st" by (simp_all add: klive_def apool_def)
  show "pool_live (apool (set_attr p a st)) = pool_live (apool st)"
    unfolding apool_def set_attr_simps by (rule live_cong) simp
  show "pool_ok (apool (set_attr p a st)) = pool_ok (apool st)" 
    unfolding apool_def set_attr_simps by (rule ok_cong) simp_all
  show "keyvals_ok (set_attr p a st) = keyvals_ok st" by (simp add: keyvals_ok_def kpool_of_def)
  show "klive (set_keyval p k st) = klive st" unfolding klive_def set_keyval_simps by (rule live_cong) simp
  have "pool_ok (kpool_of (set_keyval p k st) g) = pool_ok (kpool_of st g)" for g
    unfolding kpool_of_def set_keyval_simps by (rule ok_cong) simp_all
  then show "keyvals_ok (set_keyval p k st) = keyvals_ok st" by (simp add: keyvals_ok_def)
qed

lemma attrs_okD:
  assumes "attrs_ok st N K"
  shows "pool_ok (apool st)" "keyvals_ok st" "N \<subseteq> pool_live (apool st)" "K \<subseteq> klive st" "finite N" "0 \<notin> N"
    "n \<in> N \<Longrightarrow> at_pre_sentinal (attr st n) = 0 \<and> at_post_sentinal (attr st n) = 0 \<and> at_keyval (attr st n) \<in> klive st"
    "k \<in> klive st \<Longrightarrow> 1 \<le> kv_ref_count (keyval st k)"
    "k \<in> klive st \<Longrightarrow> int (card {n \<in> N. at_keyval (attr st n) = k}) + of_bool (k \<in> K) \<le> kv_ref_count (keyval st k)"
  using assms finite_subset[OF _ pool_live_finite, of N "apool st"] hm.null_not_live[of "apool st"] by (auto simp: attrs_ok_def)

text \<open>Changing the value or the link of an attribute is no matter for the store.\<close>

lemma attrs_ok_cong:
  assumes "attrs_ok st N K" "at_keyval a = at_keyval (attr st p)" "at_pre_sentinal a = at_pre_sentinal (attr st p)"
    "at_post_sentinal a = at_post_sentinal (attr st p)"
  shows "attrs_ok (set_attr p a st) N K"
proof -
  have c: "{n \<in> N. at_keyval (((attr st)(p := a)) n) = k} = {n \<in> N. at_keyval (attr st n) = k}" for k
    using assms(2) by auto
  have s: "at_pre_sentinal (((attr st)(p := a)) n) = at_pre_sentinal (attr st n)"
    "at_post_sentinal (((attr st)(p := a)) n) = at_post_sentinal (attr st n)"
    "at_keyval (((attr st)(p := a)) n) = at_keyval (attr st n)" for n using assms(2-4) by auto
  show ?thesis using assms(1) unfolding attrs_ok_def attr_store_simps unfolding set_attr_simps c s by simp
qed

lemma user_simps [simp]:
  "attrs_ok (st\<lparr>user := u\<rparr>) N K = attrs_ok st N K" "akey (st\<lparr>user := u\<rparr>) = akey st"
  "pairs (st\<lparr>user := u\<rparr>) ns = pairs st ns" "klive (st\<lparr>user := u\<rparr>) = klive st"
  by (simp_all add: attrs_ok_def apool_def klive_def keyvals_ok_def kpool_of_def akey_def pairs_def fun_eq_iff)

lemma akey_set_attr: "at_keyval a = at_keyval (attr st p) \<Longrightarrow> akey (set_attr p a st) = akey st"
  by (auto simp: akey_def fun_eq_iff)

text \<open>The pool of keyvals but for its free list.\<close>

definition kstatic :: "'u attr_state \<Rightarrow> MPIU_Object_alloc_t" where
  "kstatic st = (MPID_Keyval_mem st)\<lparr>om_avail := 0\<rparr>"

lemma kstatic_simps [simp]:
  "kstatic (set_attr p a st) = kstatic st" "kstatic (set_keyval p k st) = kstatic st" "kstatic (st\<lparr>user := u\<rparr>) = kstatic st"
  by (simp_all add: kstatic_def)

lemma new_attr_spec:
  assumes "attrs_ok st N K" "kp \<in> klive st" "calloc_fresh ce (MPID_Attr_mem st)" "new_attr ce kp v nxt st = (st', q)"
  shows "klive st' = klive st \<and> handle_of (kheap st') = handle_of (kheap st) \<and> user st' = user st
    \<and> attr_dup_set st' = attr_dup_set st \<and> kstatic st' = kstatic st \<and> MPID_Keyval_mem st' = MPID_Keyval_mem st
    \<and> (if q = 0 then attrs_ok st' N K \<and> attr st' = attr st \<and> kheap st' = kheap st
       else q \<notin> N \<and> q \<notin> pool_live (apool st) \<and> attrs_ok st' (insert q N) K
         \<and> attr st' = (attr st)(q := \<lparr>at_keyval = kp, at_next = nxt, at_pre_sentinal = 0, at_value = v, at_post_sentinal = 0\<rparr>))"
proof -
  note a = attrs_okD[OF assms(1)]
  obtain h om r where al: "MPIU_Handle_obj_alloc ce (aheap st) (MPID_Attr_mem st) = (h, om, r)" by (metis prod_cases3)
  then have pal: "pool_alloc ce (apool st) = ((h, om), r)" by (simp add: pool_alloc_def apool_def)
  have fr: "calloc_fresh ce (snd (apool st))" using assms(3) by (simp add: apool_def)
  note inv' = hm.alloc_inv[OF a(1) fr pal] and rest = hm.alloc_rest[OF a(1) fr pal]
  have same: "attr_of h = attr_of (aheap st)"
    using rest by (cases h; cases "aheap st"; simp add: pool_rest_def apool_def)
  let ?st = "st\<lparr>aheap := h, MPID_Attr_mem := om\<rparr>"
  have keys: "keyvals_ok ?st = keyvals_ok st" "attr ?st = attr st" "klive ?st = klive st" "apool ?st = (h, om)"
    "kstatic ?st = kstatic st"
    by (simp_all add: keyvals_ok_def kpool_of_def same klive_def apool_def kstatic_def)
  show ?thesis
  proof (cases "r = 0")
    case True
    then have "pool_live (h, om) = pool_live (apool st)" using hm.alloc_null[OF a(1) fr] pal by simp
    with assms(1) inv' keys have "attrs_ok ?st N K" by (simp add: attrs_ok_def)
    then show ?thesis using assms(4) al True same by (auto simp: new_attr_def keys)
  next
    case False
    note lv = hm.alloc_live[OF a(1) fr pal False]
    let ?b = "\<lparr>at_keyval = kp, at_next = nxt, at_pre_sentinal = 0, at_value = v, at_post_sentinal = 0\<rparr>"
    have st': "st' = keyval_add_ref kp (set_attr r ?b ?st)" "q = r" using assms(4) al False by (auto simp: new_attr_def Let_def)
    have q: "r \<notin> N" using lv a(3) by auto
    have c: "{n \<in> insert r N. at_keyval (((attr st)(r := ?b)) n) = k}
        = (if k = kp then insert r {n \<in> N. at_keyval (attr st n) = k} else {n \<in> N. at_keyval (attr st n) = k})" for k
      using q by auto
    have card: "card {n \<in> insert r N. at_keyval (((attr st)(r := ?b)) n) = k}
        = card {n \<in> N. at_keyval (attr st n) = k} + of_bool (k = kp)" for k
      unfolding c using q a(5) by simp
    have live: "klive (keyval_add_ref kp (set_attr r ?b ?st)) = klive st" by (simp add: keyval_add_ref_def keys)
    have "attrs_ok (keyval_add_ref kp (set_attr r ?b ?st)) (insert r N) K"
      unfolding attrs_ok_def live
    proof (intro conjI)
      show "pool_ok (apool (keyval_add_ref kp (set_attr r ?b ?st)))"
        using inv' by (simp add: keyval_add_ref_def keys)
      have "pool_live (apool (keyval_add_ref kp (set_attr r ?b ?st))) = pool_live (h, om)"
        by (simp add: keyval_add_ref_def keys)
      then show "insert r N \<subseteq> pool_live (apool (keyval_add_ref kp (set_attr r ?b ?st)))" using lv a(3) by auto
      show "keyvals_ok (keyval_add_ref kp (set_attr r ?b ?st))" using a(2) keys by (simp add: keyval_add_ref_def)
      show "K \<subseteq> klive st" by (rule a(4))
      show "\<forall>n \<in> insert r N. at_pre_sentinal (attr (keyval_add_ref kp (set_attr r ?b ?st)) n) = 0
          \<and> at_post_sentinal (attr (keyval_add_ref kp (set_attr r ?b ?st)) n) = 0
          \<and> at_keyval (attr (keyval_add_ref kp (set_attr r ?b ?st)) n) \<in> klive st"
        using a(7) assms(2) q by (auto simp: keyval_add_ref_def same)
      have at: "attr (keyval_add_ref kp (set_attr r ?b ?st)) = (attr st)(r := ?b)" by (simp add: keyval_add_ref_def same)
      show "\<forall>k \<in> klive st. 1 \<le> kv_ref_count (keyval (keyval_add_ref kp (set_attr r ?b ?st)) k)
          \<and> int (card {n \<in> insert r N. at_keyval (attr (keyval_add_ref kp (set_attr r ?b ?st)) n) = k}) + of_bool (k \<in> K)
            \<le> kv_ref_count (keyval (keyval_add_ref kp (set_attr r ?b ?st)) k)"
        unfolding at card using a(8,9) by (auto simp: keyval_add_ref_def) force+
    qed
    then show ?thesis using st' lv q live False same
      by (simp add: kstatic_def keyval_add_ref_def)
  qed
qed

section \<open>The place of a setting\<close>

text \<open>The place the search finds, on the list of nodes.\<close>

fun place_of :: "'u attr_state \<Rightarrow> handle \<Rightarrow> nat list \<Rightarrow> nat \<Rightarrow> attr_place" where
  "place_of st k [] old = AtEnd old"
| "place_of st k (n # ns) old =
     (if akey st n = k then AtKey n else if sint (akey st n) > sint k then AtLarger n else place_of st k ns n)"

lemma set_search_place: "hlist (anext st) p ns \<Longrightarrow> set_search st k p old = Some (place_of st k ns old)"
  by (induction ns arbitrary: p old) (auto simp: set_search.simps akey_def)

lemma place_cases:
  obtains (key) us n vs where "ns = us @ n # vs" "place_of st k ns old = AtKey n" "akey st n = k"
      "\<forall>u \<in> set us. akey st u \<noteq> k \<and> \<not> sint (akey st u) > sint k"
  | (larger) us n vs where "ns = us @ n # vs" "place_of st k ns old = AtLarger n" "akey st n \<noteq> k" "sint (akey st n) > sint k"
      "\<forall>u \<in> set us. akey st u \<noteq> k \<and> \<not> sint (akey st u) > sint k"
  | (tail) "place_of st k ns old = AtEnd (last (old # ns))" "\<forall>u \<in> set ns. akey st u \<noteq> k \<and> \<not> sint (akey st u) > sint k"
proof (induction ns arbitrary: old thesis)
  case Nil
  then show ?case by simp
next
  case (Cons n ns)
  show ?case
  proof (cases "akey st n = k \<or> sint (akey st n) > sint k")
    case True
    then show ?thesis using Cons.prems(1,2)[of "[]" n ns] by (auto split: if_splits)
  next
    case False
    then have p: "place_of st k (n # ns) old = place_of st k ns n" by simp
    show ?thesis
    proof (rule Cons.IH[of n])
      fix us m vs
      assume "ns = us @ m # vs" "place_of st k ns n = AtKey m" "akey st m = k"
        "\<forall>u \<in> set us. akey st u \<noteq> k \<and> \<not> sint (akey st u) > sint k"
      then show thesis using Cons.prems(1)[of "n # us" m vs] p False by simp
    next
      fix us m vs
      assume "ns = us @ m # vs" "place_of st k ns n = AtLarger m" "akey st m \<noteq> k" "sint (akey st m) > sint k"
        "\<forall>u \<in> set us. akey st u \<noteq> k \<and> \<not> sint (akey st u) > sint k"
      then show thesis using Cons.prems(2)[of "n # us" m vs] p False by simp
    next
      assume "place_of st k ns n = AtEnd (last (n # ns))" "\<forall>u \<in> set ns. akey st u \<noteq> k \<and> \<not> sint (akey st u) > sint k"
      then show thesis using Cons.prems(3) p False by simp
    qed
  qed
qed

lemma put_pair_skip:
  "\<forall>u \<in> set us. akey st u \<noteq> k \<and> \<not> sint (akey st u) > sint k \<Longrightarrow>
   put_pair k v (pairs st us @ xs) = pairs st us @ put_pair k v xs"
  by (induction us) (auto simp: pairs_def)

lemma pairs_append [simp]: "pairs st (us @ vs) = pairs st us @ pairs st vs"
  by (simp add: pairs_def)

lemma pairs_cong: "(\<And>n. n \<in> set ns \<Longrightarrow> akey st n = akey st' n \<and> at_value (attr st n) = at_value (attr st' n)) \<Longrightarrow> pairs st ns = pairs st' ns"
  by (simp add: pairs_def)

lemma hlist_insert_after:
  "hlist nx p (us @ x # vs) \<Longrightarrow> q \<notin> set (us @ x # vs) \<Longrightarrow> q \<noteq> 0 \<Longrightarrow> hlist (nx(q := nx x, x := q)) p (us @ x # q # vs)"
proof (induction us arbitrary: p)
  case Nil
  then have d: "distinct (x # vs)" by (metis append_Nil hlist_distinct)
  have "hlist (nx(q := nx x, x := q)) (nx x) vs = hlist nx (nx x) vs"
    by (rule hlist_cong) (use d Nil in auto)
  with Nil show ?case by (simp add: fun_upd_def)
next
  case (Cons y us)
  have d: "distinct ((y # us) @ x # vs)" by (rule hlist_distinct[OF Cons.prems(1)])
  from Cons.prems have "hlist nx (nx y) (us @ x # vs)" by simp
  from Cons.IH[OF this] d Cons.prems show ?case by auto
qed

text \<open>
  What a routine leaves alone: the keyvals and their handles, and the attributes outside a list.
\<close>

definition same_keys :: "'u attr_state \<Rightarrow> 'u attr_state \<Rightarrow> bool" where
  "same_keys st st' \<longleftrightarrow> handle_of (kheap st') = handle_of (kheap st) \<and> klive st' = klive st
     \<and> attr_dup_set st' = attr_dup_set st \<and> kstatic st' = kstatic st"

definition outside_same :: "nat set \<Rightarrow> 'u attr_state \<Rightarrow> 'u attr_state \<Rightarrow> bool" where
  "outside_same M st st' \<longleftrightarrow> (\<forall>n. n \<notin> M \<longrightarrow> attr st' n = attr st n)"

lemma call_delete_cases:
  obtains u er where "MPIR_Call_attr_delete e obj p st = (st\<lparr>user := u\<rparr>, er)"
    "er = None \<or> er = Some (new_error MPI_ERR_OTHER ''**user'')"
proof (cases "MPIR_Call_attr_delete e obj p st")
  case (Pair st' er)
  then have "st' = st\<lparr>user := user st'\<rparr>" "er = None \<or> er = Some (new_error MPI_ERR_OTHER ''**user'')"
    by (auto simp: MPIR_Call_attr_delete_def Let_def split: if_splits prod.splits)
  with Pair show thesis by (metis that)
qed

lemma hlist_attr_upd:
  "hlist nx p ns \<Longrightarrow> (\<And>n. n \<in> set ns \<Longrightarrow> at_next (f n) = nx n) \<Longrightarrow> hlist (\<lambda>n. at_next (f n)) p ns"
  using hlist_cong[of ns "\<lambda>n. at_next (f n)" nx p] by simp

section \<open>Calls of the delete functions\<close>

text \<open>
  An attribute as the user's functions see it: the keyval, its language, function and extra state, and the
  value. What the delete functions make of attributes: whether the last call failed, and the user's state.
\<close>


type_synonym entry = "handle \<times> lang \<times> nat \<times> int \<times> int"

fun delete_calls :: "'u attr_env \<Rightarrow> handle \<Rightarrow> entry list \<Rightarrow> bool \<Rightarrow> 'u \<Rightarrow> bool \<times> 'u" where
  "delete_calls e obj [] bad u = (bad, u)"
| "delete_calls e obj ((k, l, fn, extra, v) # xs) bad u =
     (if fn = 0 then delete_calls e obj xs False u
      else (case ae_delete e l fn obj k extra (lang_value l v) u of (er, u) \<Rightarrow> delete_calls e obj xs (er \<noteq> 0) u))"

definition del_entries :: "'u attr_state \<Rightarrow> nat list \<Rightarrow> entry list" where
  "del_entries st ns = map (\<lambda>n. let kv = keyval st (at_keyval (attr st n)) in
     (akey st n, kv_language kv, kv_delfn kv, kv_extra_state kv, at_value (attr st n))) ns"

lemma user_upd_eq: "st\<lparr>user := u\<rparr> = st\<lparr>user := w\<rparr> \<longleftrightarrow> u = w" "st = st\<lparr>user := u\<rparr> \<longleftrightarrow> u = user st"
  by (cases st; simp; blast)+

text \<open>
  The attribute whose value a setting replaces, none when the search meets a larger key first, and the one a
  deletion takes away.
\<close>

fun replaced :: "handle \<Rightarrow> entry list \<Rightarrow> entry list" where
  "replaced k [] = []"
| "replaced k ((k', x) # es) = (if k' = k then [(k', x)] else if sint k' > sint k then [] else replaced k es)"

fun first_of :: "handle \<Rightarrow> entry list \<Rightarrow> entry list" where
  "first_of k [] = []"
| "first_of k ((k', x) # es) = (if k' = k then [(k', x)] else first_of k es)"

lemma del_entries_simps [simp]:
  "del_entries st [] = []" "del_entries st (us @ vs) = del_entries st us @ del_entries st vs"
  by (simp_all add: del_entries_def)

lemma del_entries_Cons: "del_entries st (n # ns) = del_entries st [n] @ del_entries st ns"
  by (simp add: del_entries_def)

lemma replaced_skip:
  "\<forall>u \<in> set us. akey st u \<noteq> k \<and> \<not> sint (akey st u) > sint k \<Longrightarrow> replaced k (del_entries st us @ es) = replaced k es"
  by (induction us) (auto simp: del_entries_def Let_def)

lemma first_of_skip: "\<forall>u \<in> set us. akey st u \<noteq> k \<Longrightarrow> first_of k (del_entries st us @ es) = first_of k es"
  by (induction us) (auto simp: del_entries_def Let_def)

lemma entry_found:
  "akey st n = k \<Longrightarrow> replaced k (del_entries st [n] @ es) = del_entries st [n]"
  "akey st n = k \<Longrightarrow> first_of k (del_entries st [n] @ es) = del_entries st [n]"
  "akey st n \<noteq> k \<Longrightarrow> sint (akey st n) > sint k \<Longrightarrow> replaced k (del_entries st [n] @ es) = []"
  by (simp_all add: del_entries_def Let_def)

lemma call_delete_entry:
  assumes "MPIR_Call_attr_delete e obj n st = (st\<lparr>user := u\<rparr>, er)"
  shows "delete_calls e obj (del_entries st [n]) bad (user st) = (er \<noteq> None, u)"
  using assms
  by (auto simp: del_entries_def MPIR_Call_attr_delete_def Let_def akey_def user_upd_eq split: if_splits prod.splits)

section \<open>Setting\<close>

text \<open>The attribute object that the pool gives next, 0 when there is none.\<close>

definition next_attr :: "calloc_env \<Rightarrow> 'u attr_state \<Rightarrow> nat" where
  "next_attr ce st = snd (snd (MPIU_Handle_obj_alloc ce (aheap st) (MPID_Attr_mem st)))"

lemma new_attr_next: "new_attr ce kp v nxt st = (st', q) \<Longrightarrow> q = next_attr ce st"
  by (auto simp: new_attr_def next_attr_def Let_def split: prod.splits if_splits)

lemma attr_set_spec:
  assumes "attrs_ok st N K" "hlist (anext st) head ns" "set ns \<subseteq> N" "kp \<in> klive st" "calloc_fresh ce (MPID_Attr_mem st)"
  defines "k \<equiv> handle_of (kheap st) kp"
  obtains (refused) st' er where "attr_set e ce obj kp v head st = Some (st', head, Some er)" "attrs_ok st' N K"
      "attr st' = attr st" "same_keys st st'"
      "er = new_error MPI_ERR_OTHER ''**nomem'' \<and> next_attr ce st = 0 \<or> er = new_error MPI_ERR_OTHER ''**user''"
      "delete_calls e obj (replaced k (del_entries st ns)) False (user st) = (er = new_error MPI_ERR_OTHER ''**user'', user st')"
  | (put) st' head' ns' N' where "attr_set e ce obj kp v head st = Some (st', head', None)" "attrs_ok st' N' K"
      "hlist (anext st') head' ns'" "pairs st' ns' = put_pair k v (pairs st ns)" "same_keys st st'"
      "set ns \<subseteq> set ns'" "N' = N \<union> set ns'" "(set ns' - set ns) \<inter> N = {}" "outside_same (set ns') st st'"
      "delete_calls e obj (replaced k (del_entries st ns)) False (user st) = (False, user st')"
proof -
  have d: "distinct ns" by (rule hlist_distinct[OF assms(2)])
  have nz: "0 \<notin> set ns" by (rule hlist_nonzero[OF assms(2)])
  have s: "set_search st k head 0 = Some (place_of st k ns 0)" by (rule set_search_place[OF assms(2)])
  note set = attr_set_def k_def[symmetric] s
  show thesis
  proof (rule place_cases[of ns st k 0])
    fix us n vs
    assume p: "ns = us @ n # vs" "place_of st k ns 0 = AtKey n" "akey st n = k"
      "\<forall>u \<in> set us. akey st u \<noteq> k \<and> \<not> sint (akey st u) > sint k"
    obtain u er where c: "MPIR_Call_attr_delete e obj n st = (st\<lparr>user := u\<rparr>, er)"
      "er = None \<or> er = Some (new_error MPI_ERR_OTHER ''**user'')" by (rule call_delete_cases)
    have calls: "delete_calls e obj (replaced k (del_entries st ns)) False (user st) = (er \<noteq> None, u)"
      using call_delete_entry[OF c(1), of False] unfolding p(1) del_entries_simps(2) replaced_skip[OF p(4)]
      unfolding del_entries_Cons[of st n vs] entry_found(1)[OF p(3)] .
    show thesis
    proof (cases er)
      case (Some x)
      then show thesis using p c assms(1) calls by (intro refused[of "st\<lparr>user := u\<rparr>" x]) (auto simp: set same_keys_def klive_def)
    next
      case None
      let ?a = "(attr st n)\<lparr>at_value := v\<rparr>"
      let ?st = "set_attr n ?a (st\<lparr>user := u\<rparr>)"
      have r: "attr_set e ce obj kp v head st = Some (?st, head, None)" using p c None by (simp add: set)
      have ok: "attrs_ok ?st N K" using assms(1) by (intro attrs_ok_cong) simp_all
      have h: "hlist (anext ?st) head ns" using assms(2) by (rule hlist_attr_upd) auto
      have key: "akey ?st = akey st" by (subst akey_set_attr) simp_all
      have "n \<notin> set us" "n \<notin> set vs" using d p(1) by auto
      then have "pairs ?st us = pairs st us" "pairs ?st vs = pairs st vs"
        by (auto intro!: pairs_cong simp: key)
      moreover have "pairs ?st [n] = [(k, v)]" using p(3) by (simp add: pairs_def key)
      moreover have "put_pair k v (pairs st ns) = pairs st us @ (k, v) # pairs st vs"
        unfolding p(1) pairs_append put_pair_skip[OF p(4)] using p(3) by (simp add: pairs_def)
      ultimately have "pairs ?st ns = put_pair k v (pairs st ns)"
        unfolding p(1) by (simp add: pairs_def)
      then show thesis using r ok h assms(3) p(1) calls None
        by (intro put[of ?st head N ns]) (auto simp: same_keys_def klive_def outside_same_def)
    qed
  next
    fix us n vs
    assume p: "ns = us @ n # vs" "place_of st k ns 0 = AtLarger n" "akey st n \<noteq> k" "sint (akey st n) > sint k"
      "\<forall>u \<in> set us. akey st u \<noteq> k \<and> \<not> sint (akey st u) > sint k"
    obtain st1 q where na: "new_attr ce kp v (at_next (attr st n)) st = (st1, q)" by fastforce
    note n = new_attr_spec[OF assms(1,4,5) na] and nn = new_attr_next[OF na]
    have calls: "replaced k (del_entries st ns) = []"
      unfolding p(1) del_entries_simps(2) replaced_skip[OF p(5)]
      unfolding del_entries_Cons[of st n vs] using entry_found(3)[OF p(3,4)] .
    show thesis
    proof (cases "q = 0")
      case True
      then show thesis using p na n nn calls by (intro refused[of st1]) (auto simp: set same_keys_def create_code_def)
    next
      case False
      let ?b = "\<lparr>at_keyval = kp, at_next = at_next (attr st n), at_pre_sentinal = 0, at_value = v, at_post_sentinal = 0\<rparr>"
      let ?a = "(attr st1 n)\<lparr>at_next := q\<rparr>"
      let ?st = "set_attr n ?a st1" and ?ns = "us @ n # q # vs"
      from n False have q: "q \<notin> N" "attrs_ok st1 (insert q N) K" "attr st1 = (attr st)(q := ?b)" by auto
      have qn: "q \<noteq> n" "q \<notin> set ns" using q(1) assms(3) p(1) by auto
      have r: "attr_set e ce obj kp v head st = Some (?st, head, None)" using p na False by (simp add: set)
      have ok: "attrs_ok ?st (insert q N) K" using q(2) by (intro attrs_ok_cong) simp_all
      have "hlist ((anext st)(q := anext st n, n := q)) head ?ns"
        using hlist_insert_after[of "anext st" head us n vs q] assms(2) qn False p(1) by auto
      then have h: "hlist (anext ?st) head ?ns" by (rule hlist_attr_upd) (use qn q(3) in auto)
      have key: "akey ?st m = (if m = q then k else akey st m)" for m
        using n False qn by (auto simp: akey_def k_def)
      have val: "m \<noteq> q \<Longrightarrow> at_value (attr ?st m) = at_value (attr st m)" for m using q(3) qn by auto
      have vq: "at_value (attr ?st q) = v" using q(3) qn by simp
      have "pairs ?st ms = pairs st ms" if "q \<notin> set ms" for ms
        by (rule pairs_cong) (use that key val in metis)
      then have "pairs ?st us = pairs st us" "pairs ?st vs = pairs st vs" using qn p(1) by simp_all
      moreover have "pairs ?st [n, q] = [(akey st n, at_value (attr st n)), (k, v)]"
        using qn(1) key[of n] key[of q] val[of n] vq by (simp add: pairs_def del: set_attr_simps)
      moreover have "put_pair k v (pairs st ns) = pairs st us @ (akey st n, at_value (attr st n)) # (k, v) # pairs st vs"
        unfolding p(1) pairs_append put_pair_skip[OF p(5)] using p(3,4) by (simp add: pairs_def)
      ultimately have "pairs ?st ?ns = put_pair k v (pairs st ns)"
        by (simp add: pairs_def)
      then show thesis using r ok h assms(3) p(1) n q False calls
        by (intro put[of ?st head "insert q N" ?ns]) (auto simp: same_keys_def outside_same_def)
    qed
  next
    assume p: "place_of st k ns 0 = AtEnd (last (0 # ns))" "\<forall>u \<in> set ns. akey st u \<noteq> k \<and> \<not> sint (akey st u) > sint k"
    obtain st1 q where na: "new_attr ce kp v 0 st = (st1, q)" by fastforce
    note n = new_attr_spec[OF assms(1,4,5) na] and nn = new_attr_next[OF na]
    have calls: "replaced k (del_entries st ns) = []" using replaced_skip[OF p(2), of "[]"] by simp
    show thesis
    proof (cases "q = 0")
      case True
      then show thesis using p na n nn calls by (intro refused[of st1]) (auto simp: set same_keys_def create_code_def)
    next
      case False
      let ?b = "\<lparr>at_keyval = kp, at_next = 0, at_pre_sentinal = 0, at_value = v, at_post_sentinal = 0\<rparr>"
      from n False have q: "q \<notin> N" "attrs_ok st1 (insert q N) K" "attr st1 = (attr st)(q := ?b)" by auto
      have qn: "q \<notin> set ns" using q(1) assms(3) by auto
      have put_end: "put_pair k v (pairs st ns) = pairs st ns @ [(k, v)]"
        using put_pair_skip[OF p(2), of v "[]"] by simp
      show thesis
      proof (cases ns rule: rev_cases)
        case Nil
        have r: "attr_set e ce obj kp v head st = Some (st1, q, None)"
          using p na False Nil by (simp add: set link_attr_def)
        have h: "hlist (anext st1) q [q]" using q(3) False by simp
        have "pairs st1 [q] = put_pair k v (pairs st ns)"
          using put_end q(3) n Nil by (simp add: pairs_def akey_def k_def)
        then show thesis using r h q n Nil calls
          by (intro put[of st1 q "insert q N" "[q]"]) (simp_all add: same_keys_def outside_same_def)
      next
        case (snoc us x)
        let ?a = "(attr st1 x)\<lparr>at_next := q\<rparr>"
        let ?st = "set_attr x ?a st1"
        have x: "x \<noteq> 0" "x \<noteq> q" using nz qn snoc by auto
        have r: "attr_set e ce obj kp v head st = Some (?st, head, None)"
          using p na False x snoc by (simp add: set link_attr_def)
        have ok: "attrs_ok ?st (insert q N) K" using q(2) by (intro attrs_ok_cong) simp_all
        have "hlist ((anext st)(q := 0, x := q)) head (us @ [x, q])"
          using hlist_append_last[of "anext st" head us x q] assms(2) qn False snoc by auto
        then have "hlist (anext ?st) head (us @ [x, q])" by (rule hlist_attr_upd) (use x q(3) in auto)
        then have h: "hlist (anext ?st) head (ns @ [q])" by (simp add: snoc)
        have key: "akey ?st m = (if m = q then k else akey st m)" for m
          using n False x by (auto simp: akey_def k_def)
        have val: "m \<noteq> q \<Longrightarrow> at_value (attr ?st m) = at_value (attr st m)" "at_value (attr ?st q) = v" for m
          using q(3) x by auto
        have "pairs ?st ns = pairs st ns"
          by (rule pairs_cong) (use qn key val in metis)
        moreover have "pairs ?st [q] = [(k, v)]" by (simp add: pairs_def key val del: set_attr_simps)
        ultimately have "pairs ?st (ns @ [q]) = put_pair k v (pairs st ns)" by (simp add: put_end)
        then show thesis using r ok h assms(3) snoc n q False calls
          by (intro put[of ?st head "insert q N" "ns @ [q]"]) (auto simp: same_keys_def outside_same_def)
      qed
    qed
  qed
qed

section \<open>Finding\<close>

lemma attr_find_split:
  assumes "hlist (anext st) p ns"
  obtains (found) us n vs where "ns = us @ n # vs" "attr_find st k p old = Some (n, last (old # us))" "akey st n = k"
      "\<forall>u \<in> set us. akey st u \<noteq> k"
  | (none) "attr_find st k p old = Some (0, last (old # ns))" "\<forall>u \<in> set ns. akey st u \<noteq> k"
  using assms
proof (induction ns arbitrary: p old thesis)
  case Nil
  then show ?case by (simp add: attr_find.simps)
next
  case (Cons n ns)
  then have h: "hlist (anext st) (at_next (attr st n)) ns" "p = n" "n \<noteq> 0" by simp_all
  show ?case
  proof (cases "akey st n = k")
    case True
    then show ?thesis using Cons.prems(1)[of "[]" n ns] h by (simp add: attr_find.simps akey_def)
  next
    case False
    then have f: "attr_find st k p old = attr_find st k (at_next (attr st n)) n"
      using h by (subst attr_find.simps) (simp add: akey_def)
    show ?thesis
    proof (rule Cons.IH[OF _ _ h(1), of n])
      fix us m vs
      assume "ns = us @ m # vs" "attr_find st k (at_next (attr st n)) n = Some (m, last (n # us))" "akey st m = k"
        "\<forall>u \<in> set us. akey st u \<noteq> k"
      then show thesis using Cons.prems(1)[of "n # us" m vs] f False by simp
    next
      assume "attr_find st k (at_next (attr st n)) n = Some (0, last (n # ns))" "\<forall>u \<in> set ns. akey st u \<noteq> k"
      then show thesis using Cons.prems(2) f False by simp
    qed
  qed
qed

lemma map_of_pairs_skip: "\<forall>u \<in> set us. akey st u \<noteq> k \<Longrightarrow> map_of (pairs st us @ xs) k = map_of xs k"
  by (induction us) (auto simp: pairs_def)

lemma attr_get_spec:
  assumes "hlist (anext st) head ns"
  shows "attr_get st k head = Some (map_of (pairs st ns) k)"
proof (cases rule: attr_find_split[OF assms, of k 0])
  case (1 us n vs)
  moreover have "n \<noteq> 0" using hlist_nonzero[OF assms] 1(1) by auto
  moreover have "map_of (pairs st ns) k = Some (at_value (attr st n))"
    unfolding 1(1) pairs_append map_of_pairs_skip[OF 1(4)] using 1(3) by (simp add: pairs_def)
  ultimately show ?thesis by (simp add: attr_get_def)
next
  case 2
  then have "map_of (pairs st ns) k = None" using map_of_pairs_skip[of ns st k "[]"] by simp
  then show ?thesis using 2 by (simp add: attr_get_def)
qed

section \<open>Deleting\<close>

text \<open>A reference is given back when the count covers one more than the attributes and the owner of the handle.\<close>

definition spare_ref :: "'u attr_state \<Rightarrow> nat set \<Rightarrow> nat set \<Rightarrow> nat \<Rightarrow> bool" where
  "spare_ref st N K kp \<longleftrightarrow> kp \<in> klive st
     \<and> int (card {n \<in> N. at_keyval (attr st n) = kp}) + of_bool (kp \<in> K) + 1 \<le> kv_ref_count (keyval st kp)"

lemma keyval_release_spec:
  assumes "attrs_ok st N K" "spare_ref st N K kp"
  shows "attrs_ok (keyval_release kp st) N K \<and> attr (keyval_release kp st) = attr st
    \<and> handle_of (kheap (keyval_release kp st)) = handle_of (kheap st) \<and> apool (keyval_release kp st) = apool st
    \<and> attr_dup_set (keyval_release kp st) = attr_dup_set st
    \<and> MPID_Attr_mem (keyval_release kp st) = MPID_Attr_mem st \<and> kstatic (keyval_release kp st) = kstatic st
    \<and> klive (keyval_release kp st) = (if kv_ref_count (keyval st kp) = 1 then klive st - {kp} else klive st)"
proof -
  note a = attrs_okD[OF assms(1)]
  let ?k = "(keyval st kp)\<lparr>kv_ref_count := kv_ref_count (keyval st kp) - 1\<rparr>"
  let ?st = "set_keyval kp ?k st"
  have kp: "kp \<in> klive st" using assms(2) by (simp add: spare_ref_def)
  show ?thesis
  proof (cases "kv_ref_count (keyval st kp) = 1")
    case False
    then have r: "keyval_release kp st = ?st" by (simp add: keyval_release_def Let_def)
    have "1 \<le> kv_ref_count (keyval st kp)" by (rule a(8)[OF kp])
    then have "attrs_ok ?st N K" using assms False unfolding attrs_ok_def spare_ref_def by auto
    then show ?thesis using False by (simp add: r)
  next
    case True
    let ?h = "(kheap ?st)\<lparr>next_of := (next_of (kheap ?st))(kp := om_avail (MPID_Keyval_mem st))\<rparr>"
    let ?om = "(MPID_Keyval_mem st)\<lparr>om_avail := kp\<rparr>"
    let ?st' = "?st\<lparr>kheap := ?h, MPID_Keyval_mem := ?om\<rparr>"
    have r: "keyval_release kp st = ?st'" using True by (simp add: keyval_release_def MPIU_Handle_obj_free_def Let_def)
    obtain g where g: "pool_ok (kpool_of ?st g)" "\<forall>x. unkind (handle_of (kheap ?st) x) = unkind (g x)"
      "om_kind (MPID_Keyval_mem ?st) = MPID_KEYVAL"
      using a(2) attr_store_simps(5)[of kp ?k st] unfolding keyvals_ok_def by blast
    have f: "pool_free kp (kpool_of ?st g) = kpool_of ?st' g"
      by (simp add: pool_free_def kpool_of_def MPIU_Handle_obj_free_def)
    have lv: "kp \<in> pool_live (kpool_of ?st g)" using kp by (simp add: klive_handles)
    have live: "klive ?st' = klive st - {kp}"
      using hm.free_live[OF g(1) lv] unfolding f klive_handles by simp
    have ok: "keyvals_ok ?st'" using hm.free_inv[OF g(1) lv] g(2,3) unfolding f keyvals_ok_def by auto
    have none: "{n \<in> N. at_keyval (attr st n) = kp} = {}" "kp \<notin> K"
    proof -
      have "card {n \<in> N. at_keyval (attr st n) = kp} = 0 \<and> kp \<notin> K"
        using assms(2) True by (cases "kp \<in> K") (auto simp: spare_ref_def)
      moreover have "finite {n \<in> N. at_keyval (attr st n) = kp}" using a(5) by simp
      ultimately show "{n \<in> N. at_keyval (attr st n) = kp} = {}" "kp \<notin> K" by auto
    qed
    have same: "attr ?st' = attr st" "apool ?st' = apool st" by (simp_all add: apool_def)
    have "attrs_ok ?st' N K"
      unfolding attrs_ok_def live same
    proof (intro conjI)
      show "pool_ok (apool st)" "N \<subseteq> pool_live (apool st)" by (rule a(1), rule a(3))
      show "keyvals_ok ?st'" by (rule ok)
      show "K \<subseteq> klive st - {kp}" using a(4) none by auto
      show "\<forall>n \<in> N. at_pre_sentinal (attr st n) = 0 \<and> at_post_sentinal (attr st n) = 0 \<and> at_keyval (attr st n) \<in> klive st - {kp}"
        using a(7) none by auto
      show "\<forall>k \<in> klive st - {kp}. 1 \<le> kv_ref_count (keyval ?st' k)
          \<and> int (card {n \<in> N. at_keyval (attr st n) = k}) + of_bool (k \<in> K) \<le> kv_ref_count (keyval ?st' k)"
        using a(8,9) by simp
    qed
    moreover have "kstatic ?st' = kstatic st" by (simp add: kstatic_def)
    ultimately show ?thesis using True live same by (simp add: r)
  qed
qed

lemma attr_free_spec:
  assumes "attrs_ok st N K" "p \<in> pool_live (apool st)" "p \<notin> N"
  shows "attrs_ok (MPID_Attr_free p st) N K \<and> attr (MPID_Attr_free p st) = attr st
    \<and> kheap (MPID_Attr_free p st) = kheap st \<and> klive (MPID_Attr_free p st) = klive st
    \<and> attr_dup_set (MPID_Attr_free p st) = attr_dup_set st \<and> user (MPID_Attr_free p st) = user st
    \<and> kstatic (MPID_Attr_free p st) = kstatic st
    \<and> pool_live (apool (MPID_Attr_free p st)) = pool_live (apool st) - {p}"
proof -
  note a = attrs_okD[OF assms(1)]
  let ?st = "MPID_Attr_free p st"
  have f: "apool ?st = pool_free p (apool st)"
    by (simp add: MPID_Attr_free_def pool_free_def apool_def MPIU_Handle_obj_free_def)
  have same: "attr ?st = attr st" "kheap ?st = kheap st" "MPID_Keyval_mem ?st = MPID_Keyval_mem st" "klive ?st = klive st"
    "kstatic ?st = kstatic st"
    "attr_dup_set ?st = attr_dup_set st" "user ?st = user st"
    by (simp_all add: MPID_Attr_free_def MPIU_Handle_obj_free_def klive_def kstatic_def)
  have "keyvals_ok ?st = keyvals_ok st" by (simp add: keyvals_ok_def kpool_of_def same)
  then have "attrs_ok ?st N K"
    using assms hm.free_inv[OF a(1) assms(2)] hm.free_live[OF a(1) assms(2)]
    unfolding attrs_ok_def f same by auto
  then show ?thesis using same hm.free_live[OF a(1) assms(2)] by (simp add: f)
qed

lemma del_pair_skip: "\<forall>u \<in> set us. akey st u \<noteq> k \<Longrightarrow> del_pair k (pairs st us @ xs) = pairs st us @ del_pair k xs"
  by (induction us) (auto simp: pairs_def)

lemma attrs_ok_less:
  assumes "attrs_ok st N K" "M \<subseteq> N"
  shows "attrs_ok st M K"
proof -
  note b = attrs_okD[OF assms(1)]
  have mono: "int (card {m \<in> M. at_keyval (attr st m) = k}) \<le> int (card {m \<in> N. at_keyval (attr st m) = k})" for k
    using b(5) assms(2) by (intro of_nat_mono card_mono) auto
  have c: "int (card {m \<in> M. at_keyval (attr st m) = k}) + of_bool (k \<in> K) \<le> kv_ref_count (keyval st k)"
    if "k \<in> klive st" for k using b(9)[OF that] mono[of k] by linarith
  show ?thesis unfolding attrs_ok_def
  proof (intro conjI ballI)
    show "pool_ok (apool st)" "keyvals_ok st" "K \<subseteq> klive st" "M \<subseteq> pool_live (apool st)" using b(1-4) assms(2) by auto
  qed (use b(7,8) c assms(2) in auto)
qed

lemma attr_remove_spec:
  assumes "attrs_ok st N K" "set (us @ n # vs) \<subseteq> N" "hlist (anext st) head (us @ n # vs)"
    "link_attr (last (0 # us)) (at_next (attr st n)) (st, head) = (st1, head')"
  defines "st' \<equiv> MPID_Attr_free n (keyval_release (at_keyval (attr st1 n)) st1)"
  shows "attrs_ok st' (N - {n}) K \<and> hlist (anext st') head' (us @ vs) \<and> pairs st' (us @ vs) = pairs st (us @ vs)
    \<and> handle_of (kheap st') = handle_of (kheap st) \<and> klive st' \<subseteq> klive st \<and> attr_dup_set st' = attr_dup_set st
    \<and> outside_same (set us) st st' \<and> kstatic st' = kstatic st"
proof -
  note a = attrs_okD[OF assms(1)]
  have d: "distinct (us @ n # vs)" by (rule hlist_distinct[OF assms(3)])
  have nz: "0 \<notin> set (us @ n # vs)" by (rule hlist_nonzero[OF assms(3)])
  have n: "n \<in> N" using assms(2) by auto
  have l: "attrs_ok st1 N K \<and> hlist (anext st1) head' (us @ vs) \<and> kheap st1 = kheap st \<and> klive st1 = klive st
    \<and> attr_dup_set st1 = attr_dup_set st \<and> kstatic st1 = kstatic st \<and> outside_same (set us) st st1 \<and> pool_live (apool st1) = pool_live (apool st)
    \<and> (\<forall>m. at_keyval (attr st1 m) = at_keyval (attr st m) \<and> at_value (attr st1 m) = at_value (attr st m))"
  proof (cases us rule: rev_cases)
    case Nil
    then show ?thesis using assms(1,3,4) by (auto simp: link_attr_def outside_same_def)
  next
    case (snoc ws x)
    let ?a = "(attr st x)\<lparr>at_next := at_next (attr st n)\<rparr>"
    have "x \<noteq> 0" using nz snoc by auto
    then have s: "st1 = set_attr x ?a st" "head' = head" using assms(4) snoc by (simp_all add: link_attr_def)
    have "hlist ((anext st)(x := anext st n)) head (ws @ x # vs)"
      using hlist_unlink_inner[of "anext st" head ws x n vs] assms(3) snoc by simp
    then have "hlist (anext st1) head (ws @ x # vs)" unfolding s by (rule hlist_attr_upd) auto
    moreover have "attrs_ok st1 N K" unfolding s using assms(1) by (intro attrs_ok_cong) simp_all
    ultimately show ?thesis using snoc by (auto simp: s outside_same_def)
  qed
  let ?kp = "at_keyval (attr st1 n)"
  note b = attrs_okD[OF conjunct1[OF l]]
  have ok: "attrs_ok st1 (N - {n}) K" by (rule attrs_ok_less[OF conjunct1[OF l]]) blast
  have spare: "spare_ref st1 (N - {n}) K ?kp"
  proof -
    have "{m \<in> N. at_keyval (attr st1 m) = ?kp} = insert n {m \<in> N - {n}. at_keyval (attr st1 m) = ?kp}" using n by auto
    then have "card {m \<in> N. at_keyval (attr st1 m) = ?kp} = Suc (card {m \<in> N - {n}. at_keyval (attr st1 m) = ?kp})"
      using b(5) by (simp add: card_insert_if)
    then show ?thesis using b(7)[OF n] b(9)[of ?kp] by (simp add: spare_ref_def)
  qed
  note r = keyval_release_spec[OF ok spare]
  let ?st2 = "keyval_release ?kp st1"
  have "n \<in> pool_live (apool ?st2)" using r l a(3) n by auto
  then have f: "attrs_ok st' (N - {n}) K \<and> attr st' = attr ?st2 \<and> kheap st' = kheap ?st2 \<and> klive st' = klive ?st2
      \<and> attr_dup_set st' = attr_dup_set ?st2 \<and> kstatic st' = kstatic ?st2"
    unfolding st'_def using attr_free_spec[of ?st2 "N - {n}" K n] r by simp
  then have at: "attr st' = attr st1" "handle_of (kheap st') = handle_of (kheap st)" using r l by auto
  have "pairs st' (us @ vs) = pairs st (us @ vs)"
    by (rule pairs_cong) (use l at in \<open>simp add: akey_def\<close>)
  moreover have "klive st' \<subseteq> klive st" using f r l by auto
  ultimately show ?thesis using f at l r by (simp add: outside_same_def)
qed

lemma remove_user [simp]:
  "user (keyval_release kp st) = user st" "user (MPID_Attr_free p st) = user st"
  by (auto simp: keyval_release_def MPID_Attr_free_def set_keyval_def Let_def split: prod.splits)

lemma link_attr_user: "link_attr old q (st, head) = (st', head') \<Longrightarrow> user st' = user st"
  by (auto simp: link_attr_def set_attr_def split: if_splits)

lemma attr_delete_spec:
  fixes kp :: nat
  assumes "attrs_ok st N K" "hlist (anext st) head ns" "set ns \<subseteq> N"
  defines "k \<equiv> handle_of (kheap st) kp"
  obtains (refused) st' where "attr_delete e obj kp head st = Some (st', head, Some (new_error MPI_ERR_OTHER ''**user''))"
      "attrs_ok st' N K" "attr st' = attr st" "kheap st' = kheap st" "same_keys st st'"
      "delete_calls e obj (first_of k (del_entries st ns)) False (user st) = (True, user st')"
  | (gone) st' head' ns' where "attr_delete e obj kp head st = Some (st', head', None)"
      "attrs_ok st' (N - (set ns - set ns')) K" "hlist (anext st') head' ns'" "set ns' \<subseteq> set ns"
      "pairs st' ns' = del_pair k (pairs st ns)" "handle_of (kheap st') = handle_of (kheap st)" "klive st' \<subseteq> klive st"
      "outside_same (set ns) st st'" "attr_dup_set st' = attr_dup_set st" "kstatic st' = kstatic st"
      "delete_calls e obj (first_of k (del_entries st ns)) False (user st) = (False, user st')"
proof (cases rule: attr_find_split[OF assms(2), of k 0])
  case (1 us n vs)
  have d: "distinct ns" by (rule hlist_distinct[OF assms(2)])
  have nz: "n \<noteq> 0" using hlist_nonzero[OF assms(2)] 1(1) by auto
  obtain u er where c: "MPIR_Call_attr_delete e obj n st = (st\<lparr>user := u\<rparr>, er)"
    "er = None \<or> er = Some (new_error MPI_ERR_OTHER ''**user'')" by (rule call_delete_cases)
  have calls: "delete_calls e obj (first_of k (del_entries st ns)) False (user st) = (er \<noteq> None, u)"
    using call_delete_entry[OF c(1), of False] unfolding 1(1) del_entries_simps(2) first_of_skip[OF 1(4)]
    unfolding del_entries_Cons[of st n vs] entry_found(2)[OF 1(3)] .
  show thesis
  proof (cases er)
    case (Some x)
    then show thesis using 1 c nz assms(1) calls
      by (intro refused[of "st\<lparr>user := u\<rparr>"]) (auto simp: attr_delete_def k_def same_keys_def klive_def)
  next
    case None
    let ?st = "st\<lparr>user := u\<rparr>"
    obtain st1 head' where l: "link_attr (last (0 # us)) (at_next (attr ?st n)) (?st, head) = (st1, head')" by fastforce
    let ?st' = "MPID_Attr_free n (keyval_release (at_keyval (attr st1 n)) st1)"
    have r: "attr_delete e obj kp head st = Some (?st', head', None)"
      using 1 c nz None l by (simp add: attr_delete_def k_def)
    have "attrs_ok ?st N K" "set (us @ n # vs) \<subseteq> N" "hlist (anext ?st) head (us @ n # vs)" using assms(1-3) 1(1) by simp_all
    note rm = attr_remove_spec[OF this l]
    have "set ns - set (us @ vs) = {n}" using d 1(1) by auto
    moreover have "del_pair k (pairs st ns) = pairs st (us @ vs)"
      unfolding 1(1) pairs_append del_pair_skip[OF 1(4)] using 1(3) by (simp add: pairs_def)
    moreover have "user ?st' = u" using link_attr_user[OF l] by simp
    ultimately show thesis using r rm 1(1) calls None
      by (intro gone[of ?st' head' "us @ vs"]) (auto simp: klive_def outside_same_def)
  qed
next
  case 2
  then have "del_pair k (pairs st ns) = pairs st ns" using del_pair_skip[of ns st k "[]"] by simp
  moreover have "first_of k (del_entries st ns) = []" using first_of_skip[OF 2(2), of "[]"] by simp
  ultimately show thesis using 2 assms by (intro gone[of st head ns]) (auto simp: attr_delete_def k_def outside_same_def)
qed

section \<open>Deleting a list\<close>

definition user_err :: "bool \<Rightarrow> mpi_err option" where
  "user_err bad = (if bad then Some (new_error MPI_ERR_OTHER ''**user'') else None)"

lemma delete_list_loop_spec:
  "attrs_ok st N K \<Longrightarrow> hlist (anext st) p ns \<Longrightarrow> set ns \<subseteq> N \<Longrightarrow>
   \<exists>st' bad'. delete_list_loop e obj p (user_err bad) st = Some (st', user_err bad')
     \<and> delete_calls e obj (del_entries st ns) bad (user st) = (bad', user st')
     \<and> attrs_ok st' (N - set ns) K \<and> attr st' = attr st
     \<and> kheap st' = kheap st \<and> same_keys st st' \<and> pool_live (apool st') = pool_live (apool st) - set ns"
proof (induction ns arbitrary: st p N bad)
  case Nil
  then show ?case by (simp add: delete_list_loop.simps same_keys_def del_entries_def)
next
  case (Cons n ns)
  note a = attrs_okD[OF Cons.prems(1)]
  have p: "p = n" "n \<noteq> 0" "n \<in> N" "hlist (anext st) (at_next (attr st n)) ns" using Cons.prems(2,3) by auto
  obtain u er where c: "MPIR_Call_attr_delete e obj n st = (st\<lparr>user := u\<rparr>, er)"
    "er = None \<or> er = Some (new_error MPI_ERR_OTHER ''**user'')" by (rule call_delete_cases)
  define bad1 where "bad1 = (er \<noteq> None)"
  have er: "er = user_err bad1" using c(2) by (auto simp: user_err_def bad1_def)
  let ?st = "st\<lparr>user := u\<rparr>" and ?st1 = "MPID_Attr_free n (st\<lparr>user := u\<rparr>)"
  have "attrs_ok ?st (N - {n}) K" using attrs_ok_less[OF Cons.prems(1), of "N - {n}"] by auto
  moreover have "n \<in> pool_live (apool ?st)" using a(3) p(3) by (auto simp: apool_def)
  moreover have "apool ?st = apool st" by (simp add: apool_def)
  ultimately have f: "attrs_ok ?st1 (N - {n}) K" "attr ?st1 = attr st" "kheap ?st1 = kheap st" "same_keys st ?st1" "user ?st1 = u"
      "pool_live (apool ?st1) = pool_live (apool st) - {n}"
    using attr_free_spec[of ?st "N - {n}" K n] by (auto simp: same_keys_def klive_def kstatic_def)
  have d: "n \<notin> set ns" using hlist_distinct[OF Cons.prems(2)] by simp
  have "delete_calls e obj (del_entries st (n # ns)) bad (user st) = delete_calls e obj (del_entries st ns) bad1 u"
    using c(1) er
    by (auto simp: user_upd_eq del_entries_def MPIR_Call_attr_delete_def Let_def akey_def user_err_def split: if_splits prod.splits)
  moreover have "del_entries ?st1 ns = del_entries st ns" by (simp add: del_entries_def akey_def f)
  moreover have "delete_list_loop e obj p (user_err bad) st = delete_list_loop e obj (at_next (attr st n)) (user_err bad1) ?st1"
    using p a(7)[OF p(3)] c er by (subst delete_list_loop.simps) (simp add: Let_def)
  moreover obtain st' bad' where "delete_list_loop e obj (at_next (attr st n)) (user_err bad1) ?st1 = Some (st', user_err bad')"
    "delete_calls e obj (del_entries ?st1 ns) bad1 (user ?st1) = (bad', user st')"
    "attrs_ok st' (N - {n} - set ns) K" "attr st' = attr ?st1" "kheap st' = kheap ?st1" "same_keys ?st1 st'"
    "pool_live (apool st') = pool_live (apool ?st1) - set ns"
    using Cons.IH[OF f(1), of "at_next (attr st n)" bad1] p(4) Cons.prems(3) d unfolding f(2) by auto
  moreover have "N - set (n # ns) = N - {n} - set ns" by auto
  ultimately show ?case using f by (auto simp: same_keys_def)
qed

section \<open>Copying a list\<close>

text \<open>What the user's functions make of a list: the copies, whether one failed, and the user's state.\<close>

fun copy_pairs :: "'u attr_env \<Rightarrow> handle \<Rightarrow> entry list \<Rightarrow> 'u \<Rightarrow> (handle \<times> int) list \<times> bool \<times> 'u" where
  "copy_pairs e obj [] u = ([], False, u)"
| "copy_pairs e obj ((k, l, fn, extra, v) # xs) u =
     (case (if fn = 0 then (0, 0, False, u) else ae_copy e l fn obj k extra (lang_value l v) u) of
        (er, nv, flag, u) \<Rightarrow>
          if er \<noteq> 0 then ([], True, u)
          else (case copy_pairs e obj xs u of (ps, bad, u) \<Rightarrow> (if flag then (k, lang_value l nv) # ps else ps, bad, u)))"

definition entries :: "'u attr_state \<Rightarrow> nat list \<Rightarrow> entry list" where
  "entries st ns = map (\<lambda>n. let kv = keyval st (at_keyval (attr st n)) in
     (akey st n, kv_language kv, kv_copyfn kv, kv_extra_state kv, at_value (attr st n))) ns"

lemma new_attr_keyvals:
  assumes "new_attr ce kp v nxt st = (st', q)"
  shows "kv_language (keyval st' k) = kv_language (keyval st k) \<and> kv_copyfn (keyval st' k) = kv_copyfn (keyval st k)
    \<and> kv_extra_state (keyval st' k) = kv_extra_state (keyval st k)"
  using assms by (auto simp: new_attr_def keyval_add_ref_def Let_def split: prod.splits if_splits)

lemma link_attr_new:
  assumes "hlist (anext st) head ds" "q \<notin> set ds" "q \<noteq> 0" "at_next (attr st q) = 0"
    "link_attr (last (0 # ds)) q (st, head) = (st', head')"
  shows "hlist (anext st') head' (ds @ [q]) \<and> outside_same (set ds) st st' \<and> kheap st' = kheap st
    \<and> MPID_Keyval_mem st' = MPID_Keyval_mem st \<and> MPID_Attr_mem st' = MPID_Attr_mem st \<and> user st' = user st
    \<and> attr_dup_set st' = attr_dup_set st
    \<and> (\<forall>N K. attrs_ok st N K \<longrightarrow> attrs_ok st' N K)
    \<and> (\<forall>m. at_keyval (attr st' m) = at_keyval (attr st m) \<and> at_value (attr st' m) = at_value (attr st m))"
proof (cases ds rule: rev_cases)
  case Nil
  then show ?thesis using assms by (auto simp: link_attr_def outside_same_def)
next
  case (snoc ws x)
  let ?a = "(attr st x)\<lparr>at_next := q\<rparr>"
  have "x \<noteq> 0" using hlist_nonzero[OF assms(1)] snoc by auto
  then have s: "st' = set_attr x ?a st" "head' = head" using assms(5) snoc by (simp_all add: link_attr_def)
  have "hlist ((anext st)(q := 0, x := q)) head (ws @ [x, q])"
    using hlist_append_last[of "anext st" head ws x q] assms(1-3) snoc by simp
  then have "hlist (anext st') head (ws @ [x, q])" unfolding s by (rule hlist_attr_upd) (use assms(2,4) snoc in auto)
  moreover have "attrs_ok st' N K" if "attrs_ok st N K" for N K unfolding s using that by (intro attrs_ok_cong) simp_all
  ultimately show ?thesis using snoc by (auto simp: s outside_same_def)
qed

lemma attr_entries_cong:
  assumes "\<And>n. n \<in> set ns \<Longrightarrow> attr st' n = attr st n" "handle_of (kheap st') = handle_of (kheap st)"
    "\<And>k. kv_language (keyval st' k) = kv_language (keyval st k) \<and> kv_copyfn (keyval st' k) = kv_copyfn (keyval st k)
      \<and> kv_extra_state (keyval st' k) = kv_extra_state (keyval st k)"
  shows "entries st' ns = entries st ns"
  using assms by (simp add: entries_def akey_def Let_def)

lemma entries_user [simp]: "entries (st\<lparr>user := u\<rparr>) ns = entries st ns"
  by (rule attr_entries_cong) simp_all

text \<open>One attribute copied: allocated, and linked to the end of the new list.\<close>

lemma dup_one:
  assumes "attrs_ok st (N \<union> set ds) K" "hlist (anext st) head ds" "set ds \<inter> N = {}" "kp \<in> klive st"
    "calloc_fresh ce (MPID_Attr_mem st)" "new_attr ce kp v 0 st = (st1, q)" "q \<noteq> 0"
    "link_attr (last (0 # ds)) q (st1, head) = (st2, head2)"
  shows "attrs_ok st2 (N \<union> set (ds @ [q])) K \<and> hlist (anext st2) head2 (ds @ [q]) \<and> set (ds @ [q]) \<inter> N = {}
    \<and> q \<notin> set ds \<and> pairs st2 (ds @ [q]) = pairs st ds @ [(handle_of (kheap st) kp, v)] \<and> same_keys st st2 \<and> user st2 = user st
    \<and> (\<forall>n \<in> N. attr st2 n = attr st n)
    \<and> (\<forall>k. kv_language (keyval st2 k) = kv_language (keyval st k) \<and> kv_copyfn (keyval st2 k) = kv_copyfn (keyval st k)
      \<and> kv_extra_state (keyval st2 k) = kv_extra_state (keyval st k))"
proof -
  note n = new_attr_spec[OF assms(1,4,5,6)] and kv = new_attr_keyvals[OF assms(6)]
  from n assms(7) have q: "q \<notin> N" "q \<notin> set ds" "attrs_ok st1 (insert q (N \<union> set ds)) K"
    "attr st1 = (attr st)(q := \<lparr>at_keyval = kp, at_next = 0, at_pre_sentinal = 0, at_value = v, at_post_sentinal = 0\<rparr>)" by auto
  have "hlist (anext st1) head ds" using assms(2) by (rule hlist_attr_upd) (use q in auto)
  note l = link_attr_new[OF this q(2) assms(7) _ assms(8)]
  have l: "hlist (anext st2) head2 (ds @ [q])" "outside_same (set ds) st1 st2" "kheap st2 = kheap st1"
    "MPID_Keyval_mem st2 = MPID_Keyval_mem st1" "user st2 = user st1" "attr_dup_set st2 = attr_dup_set st1"
    "\<forall>N K. attrs_ok st1 N K \<longrightarrow> attrs_ok st2 N K"
    "\<And>m. at_keyval (attr st2 m) = at_keyval (attr st1 m) \<and> at_value (attr st2 m) = at_value (attr st1 m)"
    using l q by auto
  have "attrs_ok st2 (N \<union> set (ds @ [q])) K" using l(7) q(3) by simp
  moreover have key: "akey st2 m = (if m = q then handle_of (kheap st) kp else akey st m)" for m
    using n l(3,8) q(4) by (simp add: akey_def)
  have "pairs st2 ds = pairs st ds"
    by (rule pairs_cong) (use key l(8) q(2,4) in auto)
  then have "pairs st2 (ds @ [q]) = pairs st ds @ [(handle_of (kheap st) kp, v)]"
    using key[of q] l(8)[of q] q(4) by (simp add: pairs_def)
  moreover have "klive st2 = klive st1" "kstatic st2 = kstatic st1" using l(3,4) by (simp_all add: klive_def kstatic_def)
  then have "same_keys st st2" using n l(3,6) by (simp add: same_keys_def)
  moreover have "\<forall>n \<in> N. attr st2 n = attr st n" using l(2) q(1,4) assms(3) by (auto simp: outside_same_def)
  moreover have "user st2 = user st" "set (ds @ [q]) \<inter> N = {}" using l(5) conjunct1[OF conjunct2[OF conjunct2[OF n]]] q(1) assms(3) by auto
  moreover have "\<forall>k. kv_language (keyval st2 k) = kv_language (keyval st k) \<and> kv_copyfn (keyval st2 k) = kv_copyfn (keyval st k)
      \<and> kv_extra_state (keyval st2 k) = kv_extra_state (keyval st k)" using kv l(3) by simp
  ultimately show ?thesis using l(1) q(2) by blast
qed

lemma dup_list_loop_spec:
  assumes "\<And>n om. calloc_fresh (ces n om) om"
  shows "attrs_ok st (N \<union> set ds) K \<Longrightarrow> hlist (anext st) p ns \<Longrightarrow> set ns \<subseteq> N \<Longrightarrow> hlist (anext st) head ds \<Longrightarrow> set ds \<inter> N = {} \<Longrightarrow>
   \<exists>st' head' er qs. dup_list_loop e ces obj i p head (last (0 # ds)) st = Some (st', head', er)
     \<and> attrs_ok st' (N \<union> set (ds @ qs)) K \<and> hlist (anext st') head' (ds @ qs) \<and> set (ds @ qs) \<inter> N = {}
     \<and> same_keys st st' \<and> (\<forall>n \<in> N. attr st' n = attr st n)
     \<and> (\<exists>ps. pairs st' (ds @ qs) = pairs st ds @ ps
       \<and> (er = Some (new_error MPI_ERR_OTHER ''**nomem'')
          \<or> (case copy_pairs e obj (entries st ns) (user st) of (cs, bad, u) \<Rightarrow>
               ps = cs \<and> user st' = u \<and> er = (if bad then Some (new_error MPI_ERR_OTHER ''**user'') else None))))"
proof (induction ns arbitrary: st p head ds i)
  case Nil
  then show ?case by (intro exI[of _ st] exI[of _ head] exI[of _ None] exI[of _ "[]"])
      (simp add: dup_list_loop.simps entries_def same_keys_def)
next
  case (Cons n ns)
  note a = attrs_okD[OF Cons.prems(1)]
  have p: "p = n" "n \<noteq> 0" "n \<in> N" "hlist (anext st) (at_next (attr st n)) ns" using Cons.prems(2,3) by auto
  let ?kp = "at_keyval (attr st n)" let ?k = "keyval st ?kp"
  have kp: "?kp \<in> klive st" using a(7) p(3) by simp
  obtain er nv flag u where r: "(if kv_copyfn ?k = 0 then (0, 0, False, user st)
     else ae_copy e (kv_language ?k) (kv_copyfn ?k) obj (akey st n) (kv_extra_state ?k)
       (lang_value (kv_language ?k) (at_value (attr st n))) (user st)) = (er, nv, flag, u)" by (metis prod_cases4)
  let ?st = "st\<lparr>user := u\<rparr>" and ?v = "lang_value (kv_language ?k) nv"
  have cp: "copy_pairs e obj (entries st (n # ns)) (user st) = (if er \<noteq> 0 then ([], True, u)
      else (case copy_pairs e obj (entries st ns) u of (ps, bad, u) \<Rightarrow> (if flag then (akey st n, ?v) # ps else ps, bad, u)))"
    using r by (simp add: entries_def Let_def)
  have loop: "dup_list_loop e ces obj i p head (last (0 # ds)) st =
     (if er \<noteq> 0 then Some (?st, head, Some (new_error MPI_ERR_OTHER ''**user''))
      else if flag then
        (case new_attr (ces i (MPID_Attr_mem ?st)) ?kp ?v 0 ?st of (st1, q) \<Rightarrow>
           if q = 0 then Some (st1, head, Some (new_error MPI_ERR_OTHER ''**nomem''))
           else (case link_attr (last (0 # ds)) q (st1, head) of (st2, head2) \<Rightarrow>
              dup_list_loop e ces obj (i + 1) (at_next (attr st2 n)) head2 q st2))
      else dup_list_loop e ces obj i (at_next (attr st n)) head (last (0 # ds)) ?st)"
    using p(2) r unfolding p(1) dup_list_loop.simps[of e ces obj i n head "last (0 # ds)" st] akey_def
    by (cases "kv_copyfn ?k = 0") (simp_all add: Let_def del: last.simps)
  have u: "attrs_ok ?st (N \<union> set ds) K" "hlist (anext ?st) (at_next (attr st n)) ns" "set ns \<subseteq> N"
    "hlist (anext ?st) head ds" "?kp \<in> klive ?st" using Cons.prems p kp by (auto simp: klive_def)
  have k: "same_keys st ?st" by (simp add: same_keys_def klive_def)
  show ?case
  proof (cases "er = 0")
    case False
    then show ?thesis using Cons.prems u loop cp k
      by (intro exI[of _ ?st] exI[of _ head] exI[of _ "Some (new_error MPI_ERR_OTHER ''**user'')"] exI[of _ "[]"]) auto
  next
    case er: True
    show ?thesis
    proof (cases flag)
      case False
      then have "dup_list_loop e ces obj i p head (last (0 # ds)) st
        = dup_list_loop e ces obj i (at_next (attr st n)) head (last (0 # ds)) ?st" using loop er by simp
      moreover have "copy_pairs e obj (entries st (n # ns)) (user st) = copy_pairs e obj (entries st ns) u"
        using cp er False by (simp split: prod.splits)
      ultimately show ?thesis using Cons.IH[OF u(1-4) Cons.prems(5), of i] k by (simp add: same_keys_def)
    next
      case True
      obtain st1 q where na: "new_attr (ces i (MPID_Attr_mem ?st)) ?kp ?v 0 ?st = (st1, q)" by fastforce
      have fr: "calloc_fresh (ces i (MPID_Attr_mem ?st)) (MPID_Attr_mem ?st)" by (rule assms)
      show ?thesis
      proof (cases "q = 0")
        case q: True
        then have l: "dup_list_loop e ces obj i p head (last (0 # ds)) st
          = Some (st1, head, Some (new_error MPI_ERR_OTHER ''**nomem''))" using loop er True na by simp
        have n: "attrs_ok st1 (N \<union> set ds) K" "attr st1 = attr st" "kheap st1 = kheap st" "same_keys st st1"
          using new_attr_spec[OF u(1,5) fr na] q by (auto simp: same_keys_def klive_def)
        have "pairs st1 ds = pairs st ds" by (rule pairs_cong) (simp add: akey_def n)
        then show ?thesis using l n Cons.prems
          by (intro exI[of _ st1] exI[of _ head] exI[of _ "Some (new_error MPI_ERR_OTHER ''**nomem'')"] exI[of _ "[]"]) auto
      next
        case False
        obtain st2 head2 where lk: "link_attr (last (0 # ds)) q (st1, head) = (st2, head2)" by fastforce
        note o = dup_one[OF u(1,4) Cons.prems(5) u(5) fr na False lk]
        have same: "\<And>m. m \<in> N \<Longrightarrow> attr st2 m = attr st m" using o by simp
        have h: "hlist (anext st2) (at_next (attr st2 n)) ns"
          unfolding same[OF p(3)] using p(4) by (rule hlist_attr_upd) (use same u(3) in auto)
        have "dup_list_loop e ces obj i p head (last (0 # ds)) st
          = dup_list_loop e ces obj (i + 1) (at_next (attr st2 n)) head2 (last (0 # ds @ [q])) st2"
          using loop er True na lk False by simp
        moreover have "entries st2 ns = entries st ns"
          by (rule attr_entries_cong) (use o same u(3) in \<open>auto simp: same_keys_def\<close>)
        moreover have "user st2 = u" "pairs st2 (ds @ [q]) = pairs st ds @ [(akey st n, ?v)]"
          using o by (simp_all add: akey_def pairs_def del: pairs_append)
        moreover note Cons.IH[of st2 "ds @ [q]" "at_next (attr st2 n)" head2 "i + 1"]
        moreover have "copy_pairs e obj (entries st (n # ns)) (user st) = (case copy_pairs e obj (entries st ns) u of
            (ps, bad, u) \<Rightarrow> ((akey st n, ?v) # ps, bad, u))" using cp er True by simp
        ultimately obtain st' head' er' qs ps where
          w: "dup_list_loop e ces obj i p head (last (0 # ds)) st = Some (st', head', er')"
          "attrs_ok st' (N \<union> set ((ds @ [q]) @ qs)) K" "hlist (anext st') head' ((ds @ [q]) @ qs)" "set ((ds @ [q]) @ qs) \<inter> N = {}"
          "same_keys st2 st'" "\<forall>n \<in> N. attr st' n = attr st2 n"
          "pairs st' ((ds @ [q]) @ qs) = (pairs st ds @ [(akey st n, ?v)]) @ ps"
          "er' = Some (new_error MPI_ERR_OTHER ''**nomem'') \<or> (case copy_pairs e obj (entries st ns) u of (cs, bad, u) \<Rightarrow>
             ps = cs \<and> user st' = u \<and> er' = (if bad then Some (new_error MPI_ERR_OTHER ''**user'') else None))"
          using o h u(3) by (auto simp del: pairs_append)
        show ?thesis
          apply (intro exI[of _ st'] exI[of _ head'] exI[of _ er'] exI[of _ "q # qs"] conjI exI[of _ "(akey st n, ?v) # ps"])
          using w same o cp er True by (auto simp: same_keys_def simp del: pairs_append split: prod.splits)
      qed
    qed
  qed
qed

end
