(* ===== verification/KeyvalSpec.thy ===== *)
theory KeyvalSpec
  imports AttrSpec
begin

text \<open>
  Keyvals: a new one has a handle that finds it again, as long as the kind of object and the block
  number do not meet in the handle; releasing one keeps it while attributes refer to it.
\<close>

section \<open>Handles\<close>

lemma alloc_known_handles:
  assumes "pool_wf om" "calloc_fresh e om" "MPIU_Handle_obj_alloc e h om = (h', om', q)" "x \<in> set (pool_objs om)"
  shows "handle_of h' x = handle_of h x"
proof -
  consider "om_avail om \<noteq> 0" | "om_avail om = 0" "\<not> om_initialized om" | "om_avail om = 0" "om_initialized om" by blast
  then show ?thesis
  proof cases
    case 1
    then show ?thesis using assms(3) by (auto simp: MPIU_Handle_obj_alloc_def)
  next
    case 2
    then have "pool_objs om = []" using assms(1) by (simp add: pool_objs_def pool_wf_def blocks_def)
    then show ?thesis using assms(4) by simp
  next
    case 3
    have n: "x \<notin> set (block_objs (new_block e) (om_size om) HANDLE_BLOCK_SIZE)" if "new_block e \<noteq> 0"
      using assms(2,4) pool_objs_all[of om] that by (auto simp: calloc_fresh_def)
    then show ?thesis using assms(3) 3
      by (auto simp: MPIU_Handle_obj_alloc_def MPIU_Handle_indirect_init_def Let_def split: option.splits if_splits prod.splits
          dest!: link_block_frame[where x = x])
  qed
qed

lemma kind_mask: "NOT (0x03c00000 :: handle) = 0xfc3fffff"
  by simp

lemma unkind_fields:
  "HANDLE_GET_KIND (unkind a) = HANDLE_GET_KIND a" "HANDLE_GET_MPI_KIND (unkind a) = HANDLE_GET_MPI_KIND a"
  "unkind a AND 0x3fffff = a AND 0x3fffff" "a AND 0xfc3fffff = unkind a"
proof -
  show "a AND 0xfc3fffff = unkind a" unfolding unkind_def kind_mask ..
qed (simp_all add: unkind_def kind_mask HANDLE_GET_KIND_def HANDLE_GET_MPI_KIND_def and.assoc)

lemma keyval_get_ptr_unkind:
  assumes "unkind a = unkind b"
  shows "MPID_Keyval_get_ptr st a = MPID_Keyval_get_ptr st b"
proof -
  have "HANDLE_GET_KIND a = HANDLE_GET_KIND b" "a AND 0x3fffff = b AND 0x3fffff" "a AND 0xfc3fffff = b AND 0xfc3fffff"
    using assms unkind_fields(1)[of a] unkind_fields(1)[of b] unkind_fields(3)[of a] unkind_fields(3)[of b]
    by (simp_all add: unkind_fields(4))
  then show ?thesis by (simp add: MPID_Keyval_get_ptr_def Let_def cong: if_cong)
qed

lemma kind_bits: "(0x03c00000 :: handle) = push_bit 22 (mask 4)"
  by (simp add: mask_eq_exp_minus_1)

lemma keyval_handle_fields:
  assumes "unat obj < 2 ^ 4"
  shows "unkind (keyval_handle h obj) = unkind h" "drop_bit 22 (keyval_handle h obj AND 0x03c00000) = obj"
proof -
  note o = bit_small_word[OF assms]
  show "unkind (keyval_handle h obj) = unkind h"
    unfolding unkind_def keyval_handle_def kind_bits
    by (rule bit_word_eqI) (auto simp: bit_simps dest: o)
  show "drop_bit 22 (keyval_handle h obj AND 0x03c00000) = obj"
    unfolding keyval_handle_def kind_bits
    by (rule bit_word_eqI) (auto simp: bit_simps dest: o)
qed

lemma unkind_indirect:
  assumes "b < 2 ^ 6" "i < 2 ^ 16"
  shows "unkind (indirect_handle kind b i) = indirect_handle kind b i"
proof -
  have b: "6 \<le> n \<Longrightarrow> \<not> bit b n" and i: "16 \<le> n \<Longrightarrow> \<not> bit i n" for n
    using bit_small[OF assms(1), of n] bit_small[OF assms(2), of n] by auto
  show ?thesis unfolding unkind_def indirect_handle_def handle_kinds kind_bits
    by (rule bit_word_eqI) (auto simp: bit_simps b i)
qed

text \<open>Below 64 blocks and four million direct objects the index leaves the bits of the kind alone.\<close>

definition few_keyvals :: "'u attr_state \<Rightarrow> bool" where
  "few_keyvals st \<longleftrightarrow> om_direct_size (MPID_Keyval_mem st) \<le> 2 ^ 22 \<and> om_indirect_size (MPID_Keyval_mem st) \<le> 64"

lemma keyval_get_ptr:
  assumes "keyvals_ok st" "k \<in> klive st" "few_keyvals st"
  shows "MPID_Keyval_get_ptr st (handle_of (kheap st) k) = k"
proof -
  let ?om = "MPID_Keyval_mem st"
  obtain g where g: "pool_ok (kpool_of st g)" "\<forall>x. unkind (handle_of (kheap st) x) = unkind (g x)"
    and kind: "om_kind ?om = MPID_KEYVAL" using assms(1) by (auto simp: keyvals_ok_def)
  then obtain fs where inv: "pool_inv ((kheap st)\<lparr>handle_of := g\<rparr>) ?om fs" by (auto simp: pool_ok_def kpool_of_def)
  have wf: "pool_wf ?om" and hs: "handles_ok ((kheap st)\<lparr>handle_of := g\<rparr>) ?om" using inv by (auto simp: pool_inv_def)
  have lv: "k \<in> pool_live (kpool_of st g)" using assms(2) by (simp add: klive_handles)
  have k: "k \<in> set (pool_objs ?om)" using lv by (simp add: pool_live_def kpool_of_def)
  have ptr: "MPID_Get_ptr ?om (g k) = k" using hm.find_name[OF g(1) lv] by (simp add: kpool_of_def)
  have k9: "unat (9 :: handle) < 2 ^ 4" by simp
  have "MPID_Keyval_get_ptr st (g k) = k"
    using k
  proof (cases rule: pool_objs_cases)
    case (direct i)
    have i: "i < 2 ^ 22" "i < 2 ^ 26" using direct(2) assms(3) by (auto simp: few_keyvals_def)
    have e: "g k = direct_handle 9 i" using hs direct kind by (simp add: handles_ok_def)
    have "g k AND 0x3fffff = HANDLE_INDEX (g k) AND 0x3fffff" by (simp add: HANDLE_INDEX_def and.assoc)
    also have "\<dots> = of_nat i AND mask 22" using direct_handle_fields[OF k9 i(2)] e by (simp add: mask_eq_exp_minus_1)
    also have "\<dots> = of_nat i" using bit_small[OF i(1)] by (intro bit_word_eqI) (auto simp: bit_simps)
    finally have "unat (g k AND 0x3fffff) = i" using i by (simp add: unat_of_nat)
    then show ?thesis using direct_handle_fields[OF k9 i(2)] e direct(3) by (simp add: MPID_Keyval_get_ptr_def Let_def)
  next
    case (indirect b i)
    have b: "b < 2 ^ 6" "b < 2 ^ 10" using indirect(1) length_blocks[OF wf] assms(3) by (auto simp: few_keyvals_def)
    have i: "i < 2 ^ 16" using indirect(2) by simp
    have e: "g k = indirect_handle 9 b i" using hs indirect kind by (simp add: handles_ok_def)
    have "unkind (g k) = g k"
      unfolding e by (rule unkind_indirect[OF b(1) i])
    moreover have "HANDLE_GET_KIND (g k) = HANDLE_KIND_INDIRECT"
      using indirect_handle_fields[OF k9 b(2) i] e by simp
    ultimately show ?thesis using ptr unkind_fields(4)[of "g k"] by (simp add: MPID_Keyval_get_ptr_def MPID_Get_ptr_def Let_def)
  qed
  then show ?thesis using keyval_get_ptr_unkind g(2) by metis
qed

section \<open>Creation\<close>

lemma keyvals_ok_upd:
  assumes "pool_ok (h\<lparr>handle_of := g\<rparr>, om)" "om_kind om = MPID_KEYVAL" "\<And>x. unkind (handle_of h x) = unkind (g x)"
    "kheap st = h" "MPID_Keyval_mem st = om"
  shows "keyvals_ok st"
  using assms by (auto simp: keyvals_ok_def kpool_of_def)

definition new_keyval :: "handle \<Rightarrow> nat \<Rightarrow> nat \<Rightarrow> int \<Rightarrow> keyval_body" where
  "new_keyval obj copy_fn delete_fn extra = \<lparr>kv_ref_count = 1, kv_language = MPID_LANG_C, kv_kind = obj,
     kv_extra_state = extra, kv_copyfn = copy_fn, kv_delfn = delete_fn\<rparr>"

lemma create_keyval_spec:
  assumes "attrs_ok st N K" "calloc_fresh ce (MPID_Keyval_mem st)" "unat obj < 2 ^ 4"
  obtains (nomem) st' where "create_keyval obj msg ce st c d x = (st', Inl (fn_fail msg (new_error MPI_ERR_OTHER ''**nomem'')))"
      "attrs_ok st' N K" "attr st' = attr st" "klive st' = klive st" "keyval st' = keyval st"
      "\<forall>k \<in> klive st. handle_of (kheap st') k = handle_of (kheap st) k"
  | (new) st' q where "create_keyval obj msg ce st c d x = (st', Inr (handle_of (kheap st') q))"
      "attrs_ok st' N (insert q K)" "attr st' = attr st" "q \<notin> klive st" "klive st' = insert q (klive st)"
      "keyval st' = (keyval st)(q := new_keyval obj c d x)" "\<forall>k \<in> klive st. handle_of (kheap st') k = handle_of (kheap st) k"
      "drop_bit 22 (handle_of (kheap st') q AND 0x03c00000) = obj" "attr_dup_set st'"
proof -
  note a = attrs_okD[OF assms(1)]
  let ?om = "MPID_Keyval_mem st"
  obtain h om q where al: "MPIU_Handle_obj_alloc ce (kheap st) ?om = (h, om, q)" by (metis prod_cases3)
  obtain g where g: "pool_ok (kpool_of st g)" "\<And>y. unkind (handle_of (kheap st) y) = unkind (g y)" "om_kind ?om = MPID_KEYVAL"
    using a(2) by (auto simp: keyvals_ok_def)
  obtain g' where g': "MPIU_Handle_obj_alloc ce ((kheap st)\<lparr>handle_of := g\<rparr>) ?om = (h\<lparr>handle_of := g'\<rparr>, om, q)"
    "handles_step (handle_of (kheap st)) g (handle_of h) g'" using alloc_handles[OF al] by blast
  have pal: "pool_alloc ce (kpool_of st g) = ((h\<lparr>handle_of := g'\<rparr>, om), q)" using g'(1) by (simp add: pool_alloc_def kpool_of_def)
  have fr: "calloc_fresh ce (snd (kpool_of st g))" using assms(2) by (simp add: kpool_of_def)
  note inv' = hm.alloc_inv[OF g(1) fr pal] and rest = hm.alloc_rest[OF g(1) fr pal]
  have same: "keyval_of h = keyval_of (kheap st)" "om_kind om = MPID_KEYVAL"
    using rest g(3) by (cases h; cases "kheap st"; simp add: pool_rest_def kpool_of_def)+
  have uk: "unkind (handle_of h y) = unkind (g' y)" for y using g'(2) g(2) unfolding handles_step_def by metis
  have wf: "pool_wf ?om" using g(1) by (auto simp: pool_ok_def pool_inv_def kpool_of_def)
  have hd: "handle_of h k = handle_of (kheap st) k" if "k \<in> klive st" for k
    using alloc_known_handles[OF wf assms(2) al] that by (auto simp: klive_def pool_live_def)
  let ?st = "st\<lparr>kheap := h, MPID_Keyval_mem := om\<rparr>"
  have kl: "klive ?st = pool_live (h\<lparr>handle_of := g'\<rparr>, om)" by (simp add: klive_def pool_live_def)
  have st: "attr ?st = attr st" "apool ?st = apool st" "keyval ?st = keyval st" using same by (simp_all add: apool_def)
  show thesis
  proof (cases "q = 0")
    case True
    have live: "klive ?st = klive st" using hm.alloc_null[OF g(1) fr] pal True unfolding kl by (simp add: klive_handles)
    have "keyvals_ok ?st" by (rule keyvals_ok_upd[OF inv' same(2) uk]) simp_all
    then have "attrs_ok ?st N K" using assms(1) unfolding attrs_ok_def st live by simp
    then show thesis using al True st live hd by (intro nomem[of ?st]) (simp_all add: create_keyval_def)
  next
    case False
    note lv = hm.alloc_live[OF g(1) fr pal False, folded kl, unfolded klive_handles]
    let ?kh = "keyval_handle (handle_of h q) obj"
    let ?h = "h\<lparr>handle_of := (handle_of h)(q := ?kh)\<rparr>"
    let ?st1 = "?st\<lparr>kheap := ?h, attr_dup_set := True\<rparr>"
    let ?st' = "set_keyval q (new_keyval obj c d x) ?st1"
    note kh = keyval_handle_fields[OF assms(3), of "handle_of h q"]
    have ok1: "keyvals_ok ?st1"
      by (rule keyvals_ok_upd[where h = ?h and g = g' and om = om]) (use inv' same uk kh in auto)
    have live: "klive ?st' = insert q (klive st)" using lv by (simp add: klive_def pool_live_def)
    have st': "attr ?st' = attr st" "apool ?st' = apool st" "keyval ?st' = (keyval st)(q := new_keyval obj c d x)"
      using same by (simp_all add: apool_def)
    have "{n \<in> N. at_keyval (attr st n) = q} = {}" using a(7) lv by auto
    then have none: "card {n \<in> N. at_keyval (attr st n) = q} = 0" by (rule back_subst[of "\<lambda>A. card A = 0", OF card.empty sym])
    have "attrs_ok ?st' N (insert q K)"
      unfolding attrs_ok_def live st'
    proof (intro conjI ballI)
      show "pool_ok (apool st)" "N \<subseteq> pool_live (apool st)" by (rule a(1), rule a(3))
      show "keyvals_ok ?st'" using ok1 by simp
      show "insert q K \<subseteq> insert q (klive st)" using a(4) by auto
      show "at_pre_sentinal (attr st n) = 0" "at_post_sentinal (attr st n) = 0" "at_keyval (attr st n) \<in> insert q (klive st)"
        if "n \<in> N" for n using a(7)[OF that] by auto
      fix k assume k: "k \<in> insert q (klive st)"
      show "1 \<le> kv_ref_count (((keyval st)(q := new_keyval obj c d x)) k)"
        using k a(8) by (auto simp: new_keyval_def)
      show "int (card {n \<in> N. at_keyval (attr st n) = k}) + of_bool (k \<in> insert q K)
          \<le> kv_ref_count (((keyval st)(q := new_keyval obj c d x)) k)"
        using k a(9)[of k] by (cases "k = q") (auto simp: new_keyval_def none)
    qed
    moreover have "handle_of (kheap ?st') q = ?kh" by simp
    moreover have "create_keyval obj msg ce st c d x = (?st', Inr ?kh)"
      using al False by (simp add: create_keyval_def new_keyval_def Let_def)
    ultimately show thesis using st' live lv hd kh(2) by (intro new[of ?st' q]) auto
  qed
qed


section \<open>Use\<close>

text \<open>What the checks of the attribute routines want of a keyval for communicators.\<close>

definition live_keyval :: "'u attr_state \<Rightarrow> handle \<Rightarrow> nat \<Rightarrow> bool" where
  "live_keyval st kv kp \<longleftrightarrow> kp \<in> klive st \<and> handle_of (kheap st) kp = kv \<and> MPID_Keyval_get_ptr st kv = kp
     \<and> errtest_keyval kv MPID_COMM = None \<and> errtest_keyval_perm kv = None"

lemma comm_keyval_live:
  assumes "keyvals_ok st" "few_keyvals st" "k \<in> klive st" "drop_bit 22 (handle_of (kheap st) k AND 0x03c00000) = MPID_COMM"
  shows "live_keyval st (handle_of (kheap st) k) k"
proof -
  let ?kv = "handle_of (kheap st) k"
  obtain g where g: "pool_ok (kpool_of st g)" "\<And>y. unkind (handle_of (kheap st) y) = unkind (g y)"
    "om_kind (MPID_Keyval_mem st) = MPID_KEYVAL" using assms(1) by (auto simp: keyvals_ok_def)
  then obtain fs where inv: "pool_inv ((kheap st)\<lparr>handle_of := g\<rparr>) (MPID_Keyval_mem st) fs" by (auto simp: pool_ok_def kpool_of_def)
  have lv: "k \<in> pool_live (kpool_of st g)" using assms(3) by (simp add: klive_handles)
  then have "k \<in> set (pool_objs (MPID_Keyval_mem st))" by (simp add: pool_live_def kpool_of_def)
  note h = get_ptr_handle[OF inv this]
  have "k \<noteq> 0" using hm.null_not_live[OF g(1)] lv by metis
  then have "HANDLE_GET_KIND (g k) \<noteq> HANDLE_KIND_BUILTIN" "HANDLE_GET_MPI_KIND (g k) = MPID_KEYVAL" "HANDLE_GET_KIND (g k) \<noteq> HANDLE_KIND_INVALID"
    using h g(3) by (auto simp: MPID_Get_ptr_def)
  then have kd: "HANDLE_GET_KIND ?kv \<noteq> HANDLE_KIND_BUILTIN" "HANDLE_GET_MPI_KIND ?kv = MPID_KEYVAL"
    "HANDLE_GET_KIND ?kv \<noteq> HANDLE_KIND_INVALID"
    using unkind_fields(1,2)[of ?kv] unkind_fields(1,2)[of "g k"] g(2)[of k] by simp_all
  have "HANDLE_GET_KIND MPI_KEYVAL_INVALID = HANDLE_KIND_INVALID" by (simp add: HANDLE_GET_KIND_def)
  then have "?kv \<noteq> MPI_KEYVAL_INVALID" using kd by auto
  then show ?thesis using kd assms(3,4) keyval_get_ptr[OF assms(1,3,2)]
    by (simp add: live_keyval_def errtest_keyval_def errtest_keyval_perm_def)
qed

text \<open>Blocks with the same number modulo 64 give keyvals the same handles.\<close>

lemma keyval_handles_collide:
  assumes "b mod 2 ^ 6 = c mod 2 ^ 6" "b < 2 ^ 10" "c < 2 ^ 10"
  shows "keyval_handle (indirect_handle kind b i) obj = keyval_handle (indirect_handle kind c i) obj"
proof -
  have "take_bit 6 b = take_bit 6 c" using assms(1) by (simp add: take_bit_eq_mod)
  then have low: "n < 6 \<Longrightarrow> bit b n = bit c n" for n by (metis bit_take_bit_iff)
  have b: "10 \<le> n \<Longrightarrow> \<not> bit b n" and c: "10 \<le> n \<Longrightarrow> \<not> bit c n" for n
    using bit_small[OF assms(2), of n] bit_small[OF assms(3), of n] by auto
  have same: "bit b (n - 16) = bit c (n - 16)" if "16 \<le> n" "\<not> (22 \<le> n \<and> n - 22 < 4)" for n
  proof (cases "n < 22")
    case True
    then show ?thesis using low[of "n - 16"] that(1) by auto
  next
    case False
    then have "10 \<le> n - 16" using that by auto
    then show ?thesis using b c by simp
  qed
  show ?thesis unfolding keyval_handle_def indirect_handle_def kind_bits
  proof (rule bit_word_eqI)
    fix n assume "n < LENGTH(32)"
    show "bit ((push_bit 30 HANDLE_KIND_INDIRECT OR push_bit 26 kind OR push_bit 16 (of_nat b) OR of_nat i) AND
        NOT (push_bit 22 (mask 4)) OR push_bit 22 obj) n = bit ((push_bit 30 HANDLE_KIND_INDIRECT OR push_bit 26 kind OR
        push_bit 16 (of_nat c) OR of_nat i) AND NOT (push_bit 22 (mask 4)) OR push_bit 22 obj) n"
      using same[of n] by (cases "16 \<le> n \<and> \<not> (22 \<le> n \<and> n - 22 < 4)") (auto simp: bit_simps)
  qed
qed

lemma attrs_ok_fewer_handles:
  assumes "attrs_ok st N K" "L \<subseteq> K"
  shows "attrs_ok st N L"
proof -
  have le: "x + of_bool (k \<in> L) \<le> y" if "x + of_bool (k \<in> K) \<le> (y :: int)" for x y k
    using that assms(2) by (cases "k \<in> L"; cases "k \<in> K") auto
  show ?thesis using assms unfolding attrs_ok_def by (blast intro: le)
qed

lemma free_keyval_spec:
  assumes "attrs_ok st N K" "live_keyval st kv kp" "kp \<in> K"
  shows "\<exists>st'. MPI_Comm_free_keyval st kv = (st', Inr MPI_KEYVAL_INVALID) \<and> attrs_ok st' N (K - {kp}) \<and> attr st' = attr st
    \<and> handle_of (kheap st') = handle_of (kheap st) \<and> attr_dup_set st' = attr_dup_set st \<and> kstatic st' = kstatic st
    \<and> klive st' = (if kv_ref_count (keyval st kp) = 1 then klive st - {kp} else klive st)"
proof -
  note a = attrs_okD[OF assms(1)]
  have k: "kp \<in> klive st" using assms(2) by (simp add: live_keyval_def)
  have "attrs_ok st N (K - {kp})" by (rule attrs_ok_fewer_handles[OF assms(1)]) blast
  moreover have "spare_ref st N (K - {kp}) kp" using a(9)[OF k] k assms(3) by (simp add: spare_ref_def)
  ultimately have r: "attrs_ok (keyval_release kp st) N (K - {kp}) \<and> attr (keyval_release kp st) = attr st
    \<and> handle_of (kheap (keyval_release kp st)) = handle_of (kheap st) \<and> attr_dup_set (keyval_release kp st) = attr_dup_set st
    \<and> kstatic (keyval_release kp st) = kstatic st \<and> klive (keyval_release kp st) = (if kv_ref_count (keyval st kp) = 1 then klive st - {kp} else klive st)"
    using keyval_release_spec[of st N "K - {kp}" kp] by blast
  have "kp \<noteq> 0" 
  proof -
    obtain g where g: "pool_ok (kpool_of st g)" using a(2) by (auto simp: keyvals_ok_def)
    show ?thesis using hm.null_not_live[OF g] k by (metis klive_handles)
  qed
  then have "MPI_Comm_free_keyval st kv = (keyval_release kp st, Inr MPI_KEYVAL_INVALID)"
    using assms(2) by (simp add: MPI_Comm_free_keyval_def free_keyval_def live_keyval_def keyval_valid_ptr_def)
  then show ?thesis using r by blast
qed

end
