(* ===== verification/MpiCommSpec.thy ===== *)
theory MpiCommSpec
  imports MpiComm MpiGroupSpec
begin

text \<open>
  What the routines of \<open>MpiComm\<close> do: a new communicator is a new object with the members, the rank
  and the context id it should have, and the others stay as they are.
\<close>

section \<open>The pool\<close>

definition cpool :: "comm_state \<Rightarrow> comm_heap \<times> MPIU_Object_alloc_t" where
  "cpool st = (cheap st, MPID_Comm_mem st)"

definition comm_state_ok :: "comm_state \<Rightarrow> bool" where
  "comm_state_ok st \<longleftrightarrow> pool_ok (cpool st) \<and> om_kind (MPID_Comm_mem st) = MPID_COMM"

text \<open>A communicator in use: an object of the pool that is handed out, or one of the static array.\<close>

definition comm_known :: "calloc_env \<Rightarrow> comm_state \<Rightarrow> nat \<Rightarrow> bool" where
  "comm_known e st p \<longleftrightarrow> p \<in> pool_live (cpool st) \<or> p \<notin> set (all_objs (MPID_Comm_mem st)) \<union> block_of e (MPID_Comm_mem st)"

lemma cpool_set_body: "cpool (set_body p b st) = ((cheap st)\<lparr>comm_of := (comm_of (cheap st))(p := b)\<rparr>, MPID_Comm_mem st)"
  by (simp add: cpool_def set_body_def)

lemma comm_pool_cong:
  assumes "handle_of h = handle_of h'" "next_of h = next_of h'"
  shows "pool_ok (h, om) = pool_ok (h', om)" "pool_live (h, om) = pool_live (h', om)"
  using assms by (simp_all add: pool_ok_def pool_live_def pool_inv_def handles_ok_def)

lemma set_body_simps [simp]:
  "body (set_body p b st) = (body st)(p := b)" "comm_ids (set_body p b st) = comm_ids st"
  "handle_of (cheap (set_body p b st)) = handle_of (cheap st)" "MPID_Comm_mem (set_body p b st) = MPID_Comm_mem st"
  "errhandler_ref (set_body p b st) = errhandler_ref st" "MPID_Comm_builtin (set_body p b st) = MPID_Comm_builtin st"
  by (simp_all add: set_body_def)

lemma set_body_pool [simp]:
  "comm_state_ok (set_body p b st) = comm_state_ok st" "pool_live (cpool (set_body p b st)) = pool_live (cpool st)"
proof -
  let ?h = "(cheap st)\<lparr>comm_of := (comm_of (cheap st))(p := b)\<rparr>"
  note c = comm_pool_cong[of ?h "cheap st" "MPID_Comm_mem st"]
  show "comm_state_ok (set_body p b st) = comm_state_ok st" using c(1) by (simp add: comm_state_ok_def cpool_set_body) (simp add: cpool_def)
  show "pool_live (cpool (set_body p b st)) = pool_live (cpool st)" using c(2) by (simp add: cpool_set_body) (simp add: cpool_def)
qed

lemma ids_update_simps [simp]:
  "cheap (st\<lparr>comm_ids := ids\<rparr>) = cheap st" "cpool (st\<lparr>comm_ids := ids\<rparr>) = cpool st"
  "comm_state_ok (st\<lparr>comm_ids := ids\<rparr>) = comm_state_ok st" "comm_known e (st\<lparr>comm_ids := ids\<rparr>) p = comm_known e st p"
  by (simp_all add: cpool_def comm_state_ok_def comm_known_def)

lemma add_ref_simps [simp]:
  "cheap (add_errhandler_ref eh st) = cheap st" "cpool (add_errhandler_ref eh st) = cpool st"
  "comm_ids (add_errhandler_ref eh st) = comm_ids st" "comm_state_ok (add_errhandler_ref eh st) = comm_state_ok st"
  by (simp_all add: add_errhandler_ref_def cpool_def comm_state_ok_def)

section \<open>A new communicator\<close>

text \<open>The fields a new object has before its maker sets the rest.\<close>

definition cleared :: "comm_body \<Rightarrow> bool" where
  "cleared b \<longleftrightarrow> cm_ref_count b = 1 \<and> cm_errhandler b = 0 \<and> cm_attributes b = 0 \<and> cm_remote_group b = 0
     \<and> cm_local_group b = 0 \<and> cm_coll_fns b = 0 \<and> cm_topo_fns b = 0 \<and> cm_name b = []"

lemma MPIR_Comm_create_spec:
  assumes "comm_state_ok st" "calloc_fresh e (MPID_Comm_mem st)"
  obtains (nomem) st' where "MPIR_Comm_create e st = (st', Inl (new_error MPI_ERR_OTHER ''**nomem''))"
      "comm_state_ok st'" "body st' = body st" "comm_ids st' = comm_ids st"
      "pool_live (cpool st') = pool_live (cpool st)" "\<forall>p. comm_known e st p \<longrightarrow> handle_of (cheap st') p = handle_of (cheap st) p"
      "errhandler_ref st' = errhandler_ref st"
  | (new) st' q b where "MPIR_Comm_create e st = (st', Inr q)" "comm_state_ok st'" "q \<noteq> 0"
      "body st' = (body st)(q := b)" "cleared b" "comm_ids st' = comm_ids st"
      "pool_live (cpool st') = insert q (pool_live (cpool st))" "q \<notin> pool_live (cpool st)"
      "\<forall>p. comm_known e st p \<longrightarrow> p \<noteq> q \<and> handle_of (cheap st') p = handle_of (cheap st) p"
      "errhandler_ref st' = errhandler_ref st"
proof -
  obtain h om q where al: "MPIU_Handle_obj_alloc e (cheap st) (MPID_Comm_mem st) = (h, om, q)"
    by (metis prod_cases3)
  then have pal: "pool_alloc e (cpool st) = ((h, om), q)" by (simp add: pool_alloc_def cpool_def)
  have ok: "pool_ok (cpool st)" "calloc_fresh e (snd (cpool st))"
    using assms by (simp_all add: comm_state_ok_def cpool_def)
  note ok' = hm.alloc_inv[OF ok pal] and fr = hm.alloc_frame[OF ok pal] and rest = hm.alloc_rest[OF ok pal]
  have same: "comm_of h = comm_of (cheap st)" "om_kind om = om_kind (MPID_Comm_mem st)"
    using rest by (cases h; cases "cheap st"; simp add: pool_rest_def cpool_def)+
  have wf: "pool_wf (MPID_Comm_mem st)" using ok(1) by (auto simp: pool_ok_def pool_inv_def cpool_def)
  have out: "set (all_objs om) \<subseteq> set (all_objs (MPID_Comm_mem st)) \<union> block_of e (MPID_Comm_mem st)"
    using alloc_outside[OF wf al] by auto
  have hd: "handle_of h p = handle_of (cheap st) p" if "comm_known e st p" for p
    using that fr[of p] alloc_outside[OF wf al, of p] by (auto simp: comm_known_def cpool_def)
  let ?st = "st\<lparr>cheap := h, MPID_Comm_mem := om\<rparr>"
  have st: "comm_state_ok ?st" using ok' same(2) assms(1) by (simp add: comm_state_ok_def cpool_def)
  show thesis
  proof (cases "q = 0")
    case True
    then have "pool_live (cpool ?st) = pool_live (cpool st)" using hm.alloc_null[OF ok] pal by (simp add: cpool_def)
    then show thesis using nomem[of ?st] al True st same(1) hd by (simp add: MPIR_Comm_create_def)
  next
    case False
    note lv = hm.alloc_live[OF ok pal False]
    have "q \<in> set (all_objs om)" using lv pool_objs_all[of om] by (auto simp: pool_live_def)
    with out lv have "p \<noteq> q" if "comm_known e st p" for p using that by (auto simp: comm_known_def cpool_def)
    moreover have "pool_live (cpool ?st) = insert q (pool_live (cpool st))" using lv by (simp add: cpool_def)
    moreover define b where "b = (body ?st q)\<lparr>cm_ref_count := 1, cm_errhandler := 0, cm_attributes := 0,
        cm_remote_group := 0, cm_local_group := 0, cm_coll_fns := 0, cm_topo_fns := 0, cm_name := []\<rparr>"
    moreover have "MPIR_Comm_create e st = (set_body q b ?st, Inr q)"
      using al False by (simp add: MPIR_Comm_create_def b_def)
    moreover have "cleared b" by (simp add: cleared_def b_def)
    ultimately show thesis
      by (intro new[of "set_body q b ?st" q b]) (use False st same(1) hd lv in simp_all)
  qed
qed

section \<open>Context ids\<close>

text \<open>An answer of the collective: a mask with no id that is not free here.\<close>

definition reduced_mask :: "comm_env \<Rightarrow> comm_state \<Rightarrow> 32 word list \<Rightarrow> bool" where
  "reduced_mask e st m \<longleftrightarrow> ce_allreduce e (context_mask (init_if_needed (comm_ids st))) = Some m \<and> length m = 32
     \<and> mask_ids m \<subseteq> mask_ids (context_mask (init_if_needed (comm_ids st)))"

lemma get_contextid_spec:
  assumes "ids_split (comm_ids st) used" "reduced_mask e st m"
  obtains ids where "mask_ids m = {}" "get_contextid e st = (st\<lparr>comm_ids := ids\<rparr>, 0)" "ids_split ids used"
  | ids c where "mask_ids m \<noteq> {}" "get_contextid e st = (st\<lparr>comm_ids := ids\<rparr>, c)" "c > 0" "c \<notin> used"
      "ids_split ids (insert c used)"
proof -
  obtain ids c where f: "MPIR_Find_context_bit m (init_if_needed (comm_ids st)) = (ids, c)" by fastforce
  then have g: "get_contextid e st = (st\<lparr>comm_ids := ids\<rparr>, c)"
    using assms(2) by (simp add: get_contextid_def MPIR_Get_contextid_def reduced_mask_def Let_def)
  have t: "if mask_ids m = {} then c = 0 \<and> ids_split ids used
     else (\<exists>k. c = 4 * int k \<and> k \<in> mask_ids m) \<and> c \<notin> used \<and> ids_split ids (insert c used)"
    using ids_split_take[OF assms(1) _ _ f] assms(2) by (simp add: reduced_mask_def)
  have "k \<ge> 3" if "k \<in> mask_ids m" for k
    using that assms by (auto simp: reduced_mask_def ids_split_def)
  show thesis
  proof (cases "mask_ids m = {}")
    case True
    with t g show thesis by (intro that(1)[of ids]) simp_all
  next
    case False
    with t obtain k where "c = 4 * int k" "k \<in> mask_ids m" by auto
    with \<open>\<And>k. k \<in> mask_ids m \<Longrightarrow> k \<ge> 3\<close> have "c > 0" by fastforce
    with False t g show thesis by (intro that(2)[of ids c]) simp_all
  qed
qed

section \<open>Split\<close>

lemma rank_loop_eq:
  assumes "distinct order" "i < length order" "order ! i = r"
  shows "rank_loop (key_entries table order) (int r) r0 = int i"
proof -
  have "fold (\<lambda>j r'. if sp_color (key_entries table order ! j) = int r then int j else r') [0..<n] r0
      = (if i < n then int i else r0)" if "n \<le> length order" for n
    using that
  proof (induction n)
    case (Suc n)
    then have "sp_color (key_entries table order ! n) = int r \<longleftrightarrow> n = i"
      using assms by (auto simp: key_entries_def nth_eq_iff_index_eq)
    then show ?case using Suc by auto
  qed simp
  from this[of "length order"] show ?thesis using assms(2) by (simp add: rank_loop_def key_entries_def)
qed

text \<open>The communicator that a split makes in one process of an intracommunicator.\<close>

definition split_made :: "comm_body \<Rightarrow> nat list \<Rightarrow> nat \<Rightarrow> comm_body \<Rightarrow> bool" where
  "split_made c order r b \<longleftrightarrow> cm_kind b = MPID_INTRACOMM \<and> cm_vcr b = map (\<lambda>j. cm_vcr c ! j) order
     \<and> cm_local_size b = int (length order) \<and> cm_remote_size b = int (length order)
     \<and> 0 \<le> cm_rank b \<and> nat (cm_rank b) < length order \<and> order ! nat (cm_rank b) = r
     \<and> cm_recvcontext_id b = cm_context_id b \<and> cm_errhandler b = cm_errhandler c \<and> cm_ref_count b = 1 \<and> cm_attributes b = 0"

lemma split_body_made:
  assumes "cm_kind c = MPID_INTRACOMM" "cm_rank c = int r" "r \<in> set (split_order table color)" "cleared b"
  shows "split_made c (split_order table color) r
      (split_body e c i (MPIU_Sort_inttable (split_entries table color)) t b)"
    "cm_context_id (split_body e c i (MPIU_Sort_inttable (split_entries table color)) t b) = i"
proof -
  let ?o = "split_order table color"
  obtain k where k: "k < length ?o" "?o ! k = r" using assms(3) by (auto simp: in_set_conv_nth)
  have v: "map (\<lambda>en. cm_vcr c ! nat (sp_color en)) (key_entries table ?o) = map (\<lambda>j. cm_vcr c ! j) ?o"
    by (simp add: key_entries_def)
  show "split_made c ?o r (split_body e c i (MPIU_Sort_inttable (split_entries table color)) t b)"
    using assms(1,2,4) k v rank_loop_eq[OF split_order_facts(2) k]
    by (simp add: split_made_def split_body_def split_common_def Let_def sorted_entries_map cleared_def) (simp add: key_entries_def)
  show "cm_context_id (split_body e c i (MPIU_Sort_inttable (split_entries table color)) t b) = i"
    using assms(1) by (simp add: split_body_def split_common_def Let_def)
qed

lemma get_ptr_of_new:
  assumes "comm_state_ok st" "q \<in> pool_live (cpool st)"
  shows "MPID_Comm_get_ptr st (handle_of (cheap st) q) = q" "handle_of (cheap st) q \<noteq> MPI_COMM_NULL"
proof -
  have ok: "pool_ok (cpool st)" using assms(1) by (simp add: comm_state_ok_def)
  have n: "MPID_Get_ptr (MPID_Comm_mem st) (handle_of (cheap st) q) = q"
    using hm.find_name[OF ok assms(2)] by (simp add: cpool_def)
  have "q \<noteq> 0" using hm.null_not_live[OF ok] assms(2) by metis
  with n have k: "HANDLE_GET_KIND (handle_of (cheap st) q) \<in> {HANDLE_KIND_DIRECT, HANDLE_KIND_INDIRECT}"
    by (auto simp: MPID_Get_ptr_def split: if_splits)
  then show "MPID_Comm_get_ptr st (handle_of (cheap st) q) = q" using n by (auto simp: MPID_Comm_get_ptr_def)
  have "HANDLE_GET_KIND MPI_COMM_NULL = HANDLE_KIND_INVALID" by (simp add: HANDLE_GET_KIND_def)
  then show "handle_of (cheap st) q \<noteq> MPI_COMM_NULL" using k by auto
qed

lemma split_finish_spec:
  assumes "comm_state_ok st" "calloc_fresh (ce_calloc e) (MPID_Comm_mem st)" "comm_known (ce_calloc e) st p"
    "cm_kind (body st p) = MPID_INTRACOMM" "cm_rank (body st p) = int r" "r < length (ce_table e)"
    "sp_color (ce_table e ! r) = color" "ids_split (comm_ids st) (insert i used)" "i \<notin> used" "\<forall>n. ce_malloc e n"
  obtains (nomem) st' er where "split_finish e st p color i = Some (st', Inl er)" "color \<noteq> MPI_UNDEFINED"
      "er = fn_fail ''**mpi_comm_split'' (new_error MPI_ERR_OTHER ''**nomem'')" "body st' = body st"
  | (none) st' where "split_finish e st p color i = Some (st', Inr MPI_COMM_NULL)" "color = MPI_UNDEFINED"
      "body st' = body st" "ids_split (comm_ids st') used"
  | (made) st' q b where "split_finish e st p color i = Some (st', Inr (handle_of (cheap st') q))" "color \<noteq> MPI_UNDEFINED"
      "q \<notin> pool_live (cpool st)" "q \<noteq> p" "body st' = (body st)(q := b)" "split_made (body st p) (split_order (ce_table e) color) r b"
      "cm_context_id b = i" "ids_split (comm_ids st') (insert i used)" "MPID_Comm_get_ptr st' (handle_of (cheap st') q) = q"
      "handle_of (cheap st') q \<noteq> MPI_COMM_NULL" "comm_state_ok st'" "pool_live (cpool st') = insert q (pool_live (cpool st))"
      "\<forall>x. comm_known (ce_calloc e) st x \<longrightarrow> x \<noteq> q"
proof (cases "color = MPI_UNDEFINED")
  case True
  obtain ids where "MPIR_Free_contextid i (comm_ids st) = Some ids" "ids_split ids (insert i used - {i})"
    using ids_split_free[OF assms(8), of i] by auto
  then show thesis using True assms(9) by (intro none[of "st\<lparr>comm_ids := ids\<rparr>"]) (simp_all add: split_finish_def)
next
  case False
  let ?T = "ce_table e"
  let ?ent = "split_entries ?T color"
  have r: "r \<in> set (split_order ?T color)" using assms(6,7) by (simp add: split_order_facts(1))
  then have "length ?ent > 0"
    using split_order_facts(3)[of ?T color] by (auto simp: split_entries_eq key_entries_def)
  note fin = this False assms(4,10)
  show thesis
  proof (cases rule: MPIR_Comm_create_spec[OF assms(1,2)])
    case (1 st')
    then show thesis using fin by (intro nomem[of st']) (simp_all add: split_finish_def)
  next
    case (2 st' q b)
    let ?b = "split_body e (body st p) i (MPIU_Sort_inttable ?ent) (MPIU_Sort_inttable ?ent) b"
    let ?st = "add_errhandler_ref (cm_errhandler (body st p)) (set_body q ?b st')"
    have pq: "p \<noteq> q" using 2 assms(3) by blast
    note mk = split_body_made[OF assms(4,5) r 2(5)]
    have live: "q \<in> pool_live (cpool ?st)" using 2 by simp
    have ok: "comm_state_ok ?st" using 2 by simp
    have "split_finish e st p color i = Some (?st, Inr (handle_of (cheap ?st) q))"
      using fin 2(1,4) pq by (simp add: split_finish_def Let_def)
    then show thesis
      using mk get_ptr_of_new[OF ok live] ok 2 pq assms(8) False by (intro made[of ?st q ?b]) simp_all
  qed
qed

lemma MPI_Comm_split_spec:
  assumes "comm_state_ok st" "calloc_fresh (ce_calloc e) (MPID_Comm_mem st)" "get_comm st comm = Inr p"
    "comm_known (ce_calloc e) st p" "cm_kind (body st p) = MPID_INTRACOMM" "cm_rank (body st p) = int r"
    "r < length (ce_table e)" "ce_table e ! r = \<lparr>sp_color = color, sp_key = key\<rparr>"
    "ids_split (comm_ids st) used" "reduced_mask e st m" "\<forall>n. ce_malloc e n"
  obtains (failed) st' er where "MPI_Comm_split e st comm color key = Some (st', Inl er)" "body st' = body st"
      "mask_ids m = {} \<or> er = fn_fail ''**mpi_comm_split'' (new_error MPI_ERR_OTHER ''**nomem'')"
  | (none) st' where "MPI_Comm_split e st comm color key = Some (st', Inr MPI_COMM_NULL)" "color = MPI_UNDEFINED"
      "body st' = body st" "ids_split (comm_ids st') used"
  | (made) st' q b where "MPI_Comm_split e st comm color key = Some (st', Inr (handle_of (cheap st') q))" "color \<noteq> MPI_UNDEFINED"
      "q \<notin> pool_live (cpool st)" "q \<noteq> p" "body st' = (body st)(q := b)"
      "split_made (body st p) (split_order (ce_table e) color) r b"
      "cm_context_id b \<notin> used" "ids_split (comm_ids st') (insert (cm_context_id b) used)"
      "MPID_Comm_get_ptr st' (handle_of (cheap st') q) = q" "handle_of (cheap st') q \<noteq> MPI_COMM_NULL" "comm_state_ok st'"
      "pool_live (cpool st') = insert q (pool_live (cpool st))" "\<forall>x. comm_known (ce_calloc e) st x \<longrightarrow> x \<noteq> q"
proof (cases rule: get_contextid_spec[OF assms(9,10)])
  case (1 ids)
  then show thesis using assms(3,5,11) failed[of "st\<lparr>comm_ids := ids\<rparr>"] by (simp add: MPI_Comm_split_def)
next
  case (2 ids c)
  let ?st = "st\<lparr>comm_ids := ids\<rparr>"
  have s: "MPI_Comm_split e st comm color key = split_finish e ?st p color c"
    using 2 assms(3,5,11) by (simp add: MPI_Comm_split_def)
  have pre: "comm_state_ok ?st" "calloc_fresh (ce_calloc e) (MPID_Comm_mem ?st)" "comm_known (ce_calloc e) ?st p"
    "cm_kind (body ?st p) = MPID_INTRACOMM" "cm_rank (body ?st p) = int r" "sp_color (ce_table e ! r) = color"
    "ids_split (comm_ids ?st) (insert c used)"
    using assms 2 by simp_all
  show thesis
  proof (cases rule: split_finish_spec[OF pre(1-5) assms(7) pre(6,7) 2(4) assms(11)])
    case (1 st' er)
    then show thesis using s failed by simp
  next
    case (2 st')
    then show thesis using s none by simp
  next
    case (3 st' q b)
    show thesis by (rule made[of st' q b]) (use s 2 3 in simp_all)
  qed
qed

text \<open>
  C14: One process of \<open>MPI_Comm_split\<close> on an intracommunicator. It always returns. The tables it
  works on can be allocated. It fails only when there is no context id or no memory for an object, and
  changes no communicator then. Without a color it returns the null communicator and gives the context id
  back. Otherwise it returns the handle of a new object: its members are the processes of the color, each
  once and by increasing key, in an order \<open>split_order\<close> that depends on the table only and so is the same
  in all processes (equal keys can come in any order: the sort is not stable); the caller's rank is its
  place in it, the context id was not in use, and every other communicator is left as it was.
\<close>

theorem MPI_Comm_split_correct:
  assumes "comm_state_ok st" "calloc_fresh (ce_calloc e) (MPID_Comm_mem st)" "get_comm st comm = Inr p"
    "comm_known (ce_calloc e) st p" "cm_kind (body st p) = MPID_INTRACOMM" "cm_rank (body st p) = int r"
    "r < length (ce_table e)" "ce_table e ! r = \<lparr>sp_color = color, sp_key = key\<rparr>"
    "ids_split (comm_ids st) used" "reduced_mask e st m" "\<forall>n. ce_malloc e n"
  shows "\<exists>st' res. MPI_Comm_split e st comm color key = Some (st', res) \<and>
    (case res of
       Inl er \<Rightarrow> body st' = body st
         \<and> (mask_ids m = {} \<or> er = fn_fail ''**mpi_comm_split'' (new_error MPI_ERR_OTHER ''**nomem''))
     | Inr newcomm \<Rightarrow>
         (if color = MPI_UNDEFINED
          then newcomm = MPI_COMM_NULL \<and> body st' = body st \<and> ids_split (comm_ids st') used
          else (\<exists>q b. MPID_Comm_get_ptr st' newcomm = q \<and> newcomm \<noteq> MPI_COMM_NULL
            \<and> q \<notin> pool_live (cpool st) \<and> q \<noteq> p \<and> body st' = (body st)(q := b)
            \<and> split_made (body st p) (split_order (ce_table e) color) r b
            \<and> color_order (ce_table e) color (split_order (ce_table e) color)
            \<and> cm_context_id b \<notin> used \<and> ids_split (comm_ids st') (insert (cm_context_id b) used))))"
proof (cases rule: MPI_Comm_split_spec[OF assms])
  case (1 st' er)
  then show ?thesis by simp
next
  case (2 st')
  then show ?thesis by simp
next
  case (3 st' q b)
  then show ?thesis using split_order_ok by (intro exI[of _ st']) auto
qed

section \<open>Copy\<close>

definition copy_made :: "comm_body \<Rightarrow> nat \<Rightarrow> comm_body \<Rightarrow> bool" where
  "copy_made c n b \<longleftrightarrow> cm_kind b = MPID_INTRACOMM \<and> cm_vcr b = take n (cm_vcr c) \<and> cm_local_size b = int n
     \<and> cm_remote_size b = int n \<and> cm_rank b = cm_rank c \<and> cm_recvcontext_id b = cm_context_id b
     \<and> cm_errhandler b = cm_errhandler c \<and> cm_ref_count b = 1 \<and> cm_attributes b = 0"

lemma copy_body_made:
  assumes "cm_kind c = MPID_INTRACOMM" "cm_local_size c = int (length (cm_vcr c))" "n \<le> length (cm_vcr c)" "cleared b"
  shows "copy_made c n (copy_body c (int n) i i b)" "cm_context_id (copy_body c (int n) i i b) = i"
proof -
  have "map ((!) (cm_vcr c)) [0..<n] = take n (cm_vcr c)" using assms(3) by (intro nth_equalityI) simp_all
  then show "copy_made c n (copy_body c (int n) i i b)" "cm_context_id (copy_body c (int n) i i b) = i"
    using assms by (simp_all add: copy_made_def copy_body_def cleared_def)
qed

lemma MPIR_Comm_copy_spec:
  assumes "comm_state_ok st" "calloc_fresh (ce_calloc e) (MPID_Comm_mem st)" "comm_known (ce_calloc e) st p"
    "cm_kind (body st p) = MPID_INTRACOMM" "cm_local_size (body st p) = int (length (cm_vcr (body st p)))"
    "n \<le> length (cm_vcr (body st p))" "ids_split (comm_ids st) used" "reduced_mask e st m"
  obtains (failed) st' er where "MPIR_Comm_copy e st p (int n) = Some (st', Inl er)" "body st' = body st"
      "mask_ids m = {} \<or> er = new_error MPI_ERR_OTHER ''**nomem''"
  | (outside) st' c where "MPIR_Comm_copy e st p (int n) = Some (st', Inr 0)" "body st' = body st" "cm_rank (body st p) \<ge> int n"
      "c \<notin> used" "ids_split (comm_ids st') (insert c used)"
  | (made) st' q b where "MPIR_Comm_copy e st p (int n) = Some (st', Inr q)" "cm_rank (body st p) < int n"
      "q \<noteq> 0" "q \<notin> pool_live (cpool st)" "\<forall>x. comm_known (ce_calloc e) st x \<longrightarrow> x \<noteq> q" "comm_state_ok st'"
      "pool_live (cpool st') = insert q (pool_live (cpool st))"
      "body st' = (body st)(q := b)" "copy_made (body st p) n b" "cm_context_id b \<notin> used"
      "ids_split (comm_ids st') (insert (cm_context_id b) used)"
proof (cases rule: get_contextid_spec[OF assms(7,8)])
  case (1 ids)
  then show thesis using assms(4) failed[of "st\<lparr>comm_ids := ids\<rparr>"] by (simp add: MPIR_Comm_copy_def comm_copy_ids_def)
next
  case (2 ids c)
  let ?st = "st\<lparr>comm_ids := ids\<rparr>"
  note i = 2 assms(4)
  show thesis
  proof (cases "cm_rank (body st p) \<ge> int n")
    case True
    then show thesis using i outside[of ?st c] by (simp add: MPIR_Comm_copy_def comm_copy_ids_def)
  next
    case False
    have pre: "comm_state_ok ?st" "calloc_fresh (ce_calloc e) (MPID_Comm_mem ?st)" "comm_known (ce_calloc e) ?st p"
      using assms by simp_all
    show thesis
    proof (cases rule: MPIR_Comm_create_spec[OF pre(1,2)])
      case (1 st')
      then show thesis using i False failed[of st'] by (simp add: MPIR_Comm_copy_def comm_copy_ids_def)
    next
      case (2 st' q b)
      have pq: "p \<noteq> q" using 2 pre(3) by blast
      let ?b = "copy_body (body st p) (int n) c c b"
      let ?st' = "add_errhandler_ref (cm_errhandler (body st p)) (set_body q ?b st')"
      have "MPIR_Comm_copy e st p (int n) = Some (?st', Inr q)"
        using i False 2(1,4) pq by (simp add: MPIR_Comm_copy_def comm_copy_ids_def Let_def)
      then show thesis
        by (rule made[where b = ?b]) (use False 2 i copy_body_made[OF assms(4-6) 2(5), of c] in simp_all)
    qed
  qed
qed

text \<open>
  C15: One process of the copy of an intracommunicator to its first \<open>n\<close> members. It always returns. A
  process whose rank is \<open>n\<close> or more gets the null pointer, but the context id it took is left taken;
  the others get a new object with the first \<open>n\<close> members, their own rank, a context id that was not
  in use and no attributes.
\<close>

theorem MPIR_Comm_copy_correct:
  assumes "comm_state_ok st" "calloc_fresh (ce_calloc e) (MPID_Comm_mem st)" "comm_known (ce_calloc e) st p"
    "cm_kind (body st p) = MPID_INTRACOMM" "cm_local_size (body st p) = int (length (cm_vcr (body st p)))"
    "n \<le> length (cm_vcr (body st p))" "ids_split (comm_ids st) used" "reduced_mask e st m"
  shows "\<exists>st' res. MPIR_Comm_copy e st p (int n) = Some (st', res) \<and>
    (case res of
       Inl er \<Rightarrow> body st' = body st \<and> (mask_ids m = {} \<or> er = new_error MPI_ERR_OTHER ''**nomem'')
     | Inr q \<Rightarrow> (\<exists>c. c \<notin> used \<and> ids_split (comm_ids st') (insert c used) \<and>
         (if cm_rank (body st p) \<ge> int n then q = 0 \<and> body st' = body st
          else q \<noteq> 0 \<and> q \<notin> pool_live (cpool st) \<and> q \<noteq> p \<and> comm_state_ok st'
            \<and> (\<exists>b. body st' = (body st)(q := b) \<and> copy_made (body st p) n b \<and> cm_context_id b = c))))"
proof (cases rule: MPIR_Comm_copy_spec[OF assms])
  case (1 st' er)
  then show ?thesis by auto
next
  case (2 st' c)
  then show ?thesis by auto
next
  case (3 st' q b)
  moreover have "q \<noteq> p" using 3(5) assms(3) by blast
  ultimately show ?thesis by (intro exI[of _ st'] exI[of _ "Inr q"]) auto
qed

section \<open>An example\<close>

text \<open>
  Four processes; this one has rank 2. The pool is as the program starts with, and the only
  communicator is \<open>MPI_COMM_WORLD\<close>, in the static array.
\<close>

definition sample_comms :: comm_state where
  "sample_comms =
     \<lparr>cheap = \<lparr>handle_of = (\<lambda>_. 0)(500 := 0x44000000), next_of = (\<lambda>_. 0),
        comm_of = (\<lambda>_. \<lparr>cm_ref_count = 1, cm_context_id = 0, cm_recvcontext_id = 0, cm_rank = 2, cm_local_size = 4,
          cm_remote_size = 4, cm_kind = MPID_INTRACOMM, cm_vcr = [10, 11, 12, 13], cm_local_vcr = [], cm_attributes = 0,
          cm_local_group = 0, cm_remote_group = 0, cm_errhandler = 0, cm_local_comm = 0, cm_coll_fns = 0, cm_topo_fns = 0,
          cm_is_low_group = False, cm_name = []\<rparr>)\<rparr>,
      MPID_Comm_mem = new_pool MPID_COMM 40 1000 4, MPID_Comm_builtin = 500, comm_ids = start_contextid,
      errhandler_ref = (\<lambda>_. 0)\<rparr>"

abbreviation sample_comm_env :: comm_env where
  "sample_comm_env \<equiv> \<lparr>ce_calloc = \<lparr>table_ok = False, new_block = 0\<rparr>, ce_allreduce = Some,
     ce_table = [\<lparr>sp_color = 1, sp_key = 5\<rparr>, \<lparr>sp_color = 2, sp_key = 0\<rparr>, \<lparr>sp_color = 1, sp_key = 3\<rparr>,
       \<lparr>sp_color = MPI_UNDEFINED, sp_key = 0\<rparr>], ce_remote_table = [], ce_remote_id = 0, ce_exchange_error = None, ce_malloc = (\<lambda>_. True)\<rparr>"

lemma sample_comms_ok: "comm_state_ok sample_comms" "calloc_fresh (ce_calloc sample_comm_env) (MPID_Comm_mem sample_comms)"
  "comm_known (ce_calloc sample_comm_env) sample_comms 500"
proof -
  have o: "all_objs (new_pool MPID_COMM 40 1000 4) = [1000, 1040, 1080, 1120]"
    by (simp add: all_objs_def new_pool_def blocks_def) (simp add: block_objs_def upt_rec)
  have "pool_inv (cheap sample_comms) (MPID_Comm_mem sample_comms) []"
    using o by (simp add: sample_comms_def pool_inv_def new_pool_def pool_wf_def handles_ok_def all_objs_def blocks_def)
  then show "comm_state_ok sample_comms"
    by (auto simp: comm_state_ok_def pool_ok_def cpool_def) (simp add: sample_comms_def new_pool_def)
  show "calloc_fresh (ce_calloc sample_comm_env) (MPID_Comm_mem sample_comms)" by (simp add: calloc_fresh_def)
  show "comm_known (ce_calloc sample_comm_env) sample_comms 500"
    using o by (simp add: comm_known_def sample_comms_def)
qed

lemma sample_comms_ids:
  "ids_split (comm_ids sample_comms) {}"
  "reduced_mask sample_comm_env sample_comms (context_mask (MPIR_Init_contextid start_contextid))"
  "get_comm sample_comms 0x44000000 = Inr 500"
proof -
  show "ids_split (comm_ids sample_comms) {}" by (simp add: sample_comms_def ids_split_start)
  show "reduced_mask sample_comm_env sample_comms (context_mask (MPIR_Init_contextid start_contextid))"
    by (simp add: sample_comms_def reduced_mask_def start_contextid_def init_if_needed_def MPIR_Init_contextid_def)
  show "get_comm sample_comms 0x44000000 = Inr 500" by code_simp
qed

text \<open>Ranks 0 and 2 have the color 1, and rank 2 the smaller key.\<close>

lemma sample_split_runs:
  "case MPI_Comm_split sample_comm_env sample_comms 0x44000000 1 3 of
     Some (st', Inr newcomm) \<Rightarrow> newcomm = direct_handle MPID_COMM 0 | _ \<Rightarrow> False"
  "case MPIR_Comm_copy sample_comm_env sample_comms 500 3 of Some (st', Inr q) \<Rightarrow> q = 1000 | _ \<Rightarrow> False"
  by code_simp+

lemma MPI_Comm_split_correct_witness:
  "\<exists>st' newcomm b. MPI_Comm_split sample_comm_env sample_comms 0x44000000 1 3 = Some (st', Inr newcomm)
     \<and> body st' (MPID_Comm_get_ptr st' newcomm) = b \<and> cm_vcr b = [12, 10] \<and> cm_rank b = 0"
proof -
  have o: "split_order (ce_table sample_comm_env) 1 = [2, 0]" by code_simp
  have c: "cm_kind (body sample_comms 500) = MPID_INTRACOMM" "cm_rank (body sample_comms 500) = int 2"
    "cm_vcr (body sample_comms 500) = [10, 11, 12, 13]" by (simp_all add: sample_comms_def)
  have t: "2 < length (ce_table sample_comm_env)" "ce_table sample_comm_env ! 2 = \<lparr>sp_color = 1, sp_key = 3\<rparr>" by simp_all
  have r: "cm_rank b = 0 \<and> cm_vcr b = [12, 10]" if "split_made (body sample_comms 500) [2, 0] 2 b" for b
    using that c(3) by (auto simp: split_made_def nth_Cons' split: if_splits)
  show ?thesis
    using MPI_Comm_split_correct[OF sample_comms_ok(1,2) sample_comms_ids(3) sample_comms_ok(3) c(1,2) t sample_comms_ids(1,2)]
      sample_split_runs(1) r unfolding o by (fastforce split: sum.splits)
qed

lemma MPIR_Comm_copy_correct_witness:
  "\<exists>st' b. MPIR_Comm_copy sample_comm_env sample_comms 500 3 = Some (st', Inr 1000) \<and> body st' 1000 = b
     \<and> cm_vcr b = [10, 11, 12] \<and> cm_rank b = 2"
proof -
  have c: "cm_kind (body sample_comms 500) = MPID_INTRACOMM" "cm_rank (body sample_comms 500) = 2"
    "cm_local_size (body sample_comms 500) = int (length (cm_vcr (body sample_comms 500)))"
    "3 \<le> length (cm_vcr (body sample_comms 500))" "take 3 (cm_vcr (body sample_comms 500)) = [10, 11, 12]"
    by (simp_all add: sample_comms_def)
  show ?thesis
    using MPIR_Comm_copy_correct[OF sample_comms_ok c(1,3,4) sample_comms_ids(1,2)] sample_split_runs(2) c(2,5)
    by (fastforce simp: copy_made_def split: sum.splits)
qed

end
