(* ===== verification/MpiAttrSpec.thy ===== *)
theory MpiAttrSpec
  imports MpiAttr KeyvalSpec MpiCommSpec
begin

text \<open>
  The attributes of the communicators of a process as association lists, which the routines of
  \<open>MpiAttr\<close> change as such, and what copying and freeing a communicator does to them.
\<close>

section \<open>The lists of a process\<close>

definition nodes :: "(nat \<rightharpoonup> nat list) \<Rightarrow> nat set" where
  "nodes L = (\<Union>ns \<in> ran L. set ns)"

definition lists_ok :: "'u process \<Rightarrow> (nat \<rightharpoonup> nat list) \<Rightarrow> bool" where
  "lists_ok P L \<longleftrightarrow> (\<forall>p ns. L p = Some ns \<longrightarrow> hlist (anext (attrs P)) (cm_attributes (body (comms P) p)) ns)
     \<and> (\<forall>p q ns ms. L p = Some ns \<longrightarrow> L q = Some ms \<longrightarrow> p \<noteq> q \<longrightarrow> set ns \<inter> set ms = {})"

text \<open>
  \<open>L\<close> has the attributes of every communicator in use, \<open>H\<close> the keyvals that were created and not freed. The
  functions for lists are registered as soon as there is a keyval.
\<close>

definition process_rel :: "'u process \<Rightarrow> (nat \<rightharpoonup> nat list) \<Rightarrow> handle set \<Rightarrow> bool" where
  "process_rel P L H \<longleftrightarrow> lists_ok P L \<and> attrs_ok (attrs P) (nodes L) (MPID_Keyval_get_ptr (attrs P) ` H)
     \<and> (\<forall>kv \<in> H. live_keyval (attrs P) kv (MPID_Keyval_get_ptr (attrs P) kv))
     \<and> (klive (attrs P) = {} \<or> attr_dup_set (attrs P))"

definition attr_view :: "'u process \<Rightarrow> (nat \<rightharpoonup> nat list) \<Rightarrow> nat \<rightharpoonup> (handle \<times> int) list" where
  "attr_view P L = (\<lambda>p. map_option (pairs (attrs P)) (L p))"

text \<open>The communicators are the same but for the heads of their lists.\<close>

definition same_comms :: "'u process \<Rightarrow> 'u process \<Rightarrow> bool" where
  "same_comms P P' \<longleftrightarrow> get_comm (comms P') = get_comm (comms P)
     \<and> (\<forall>q. (body (comms P') q)\<lparr>cm_attributes := 0\<rparr> = (body (comms P) q)\<lparr>cm_attributes := 0\<rparr>)"

lemma nodes_upd: "nodes (L(p \<mapsto> ns)) = set ns \<union> nodes (L(p := None))"
  by (auto simp: nodes_def ran_def split: if_splits)

lemma nodes_split:
  assumes "lists_ok P L" "L p = Some ns"
  shows "nodes L = set ns \<union> nodes (L(p := None))" "set ns \<inter> nodes (L(p := None)) = {}"
proof -
  have "L = L(p \<mapsto> ns)" using assms(2) by (auto simp: fun_eq_iff)
  then show "nodes L = set ns \<union> nodes (L(p := None))" using nodes_upd[of L p ns] by simp
  show "set ns \<inter> nodes (L(p := None)) = {}" using assms by (fastforce simp: nodes_def lists_ok_def ran_def split: if_splits)
qed

lemma in_nodes: "L p = Some ns \<Longrightarrow> set ns \<subseteq> nodes L"
  by (auto simp: nodes_def ran_def)

lemma keyval_get_ptr_kstatic:
  assumes "kstatic st' = kstatic st"
  shows "MPID_Keyval_get_ptr st' = MPID_Keyval_get_ptr st"
proof -
  have f: "MPID_Keyval_get_ptr (s :: 'u attr_state) a
     = (if HANDLE_GET_KIND a = HANDLE_KIND_DIRECT then om_direct (kstatic s) + unat (a AND 0x3fffff) * om_size (kstatic s)
        else if HANDLE_GET_KIND a = HANDLE_KIND_INDIRECT then MPIU_Handle_get_ptr_indirect (a AND 0xfc3fffff) (kstatic s) else 0)" for s a
    by (simp add: MPID_Keyval_get_ptr_def Let_def kstatic_def MPIU_Handle_get_ptr_indirect_def)
  show ?thesis by (simp add: fun_eq_iff f assms)
qed

lemma set_attributes_simps [simp]:
  "attrs (set_attributes p head P) = attrs P"
  "body (comms (set_attributes p head P)) = (body (comms P))(p := (body (comms P) p)\<lparr>cm_attributes := head\<rparr>)"
  "groups (set_attributes p head P) = groups P"
  by (simp_all add: set_attributes_def upd_comm_def)

lemma upd_comm_simps [simp]:
  "attrs (upd_comm p f P) = attrs P" "groups (upd_comm p f P) = groups P" "comm_parent (upd_comm p f P) = comm_parent P"
  "body (comms (upd_comm p f P)) = (body (comms P))(p := f (body (comms P) p))"
  "comm_ids (comms (upd_comm p f P)) = comm_ids (comms P)" "MPID_Comm_mem (comms (upd_comm p f P)) = MPID_Comm_mem (comms P)"
  "handle_of (cheap (comms (upd_comm p f P))) = handle_of (cheap (comms P))"
  "comm_state_ok (comms (upd_comm p f P)) = comm_state_ok (comms P)"
  "pool_live (cpool (comms (upd_comm p f P))) = pool_live (cpool (comms P))"
  by (simp_all add: upd_comm_def)

lemma same_comms_set: "same_comms P (set_attributes p head (P\<lparr>attrs := st\<rparr>))"
proof -
  have b: "cm_ref_count (body (comms (set_attributes p head (P\<lparr>attrs := st\<rparr>))) q) = cm_ref_count (body (comms P) q)" for q by simp
  have g: "MPID_Comm_get_ptr (comms (set_attributes p head (P\<lparr>attrs := st\<rparr>))) = MPID_Comm_get_ptr (comms P)"
    by (auto simp: fun_eq_iff MPID_Comm_get_ptr_def set_attributes_def upd_comm_def)
  show ?thesis unfolding same_comms_def
    by (auto simp: fun_eq_iff get_comm_def MPID_Comm_valid_ptr_def g Let_def split: option.splits)
qed

text \<open>One list changes and the others stay.\<close>

lemma process_step:
  assumes "process_rel P L H" "L p = Some ns" "attrs_ok st' (nodes (L(p \<mapsto> ns'))) (MPID_Keyval_get_ptr (attrs P) ` H)"
    "hlist (anext st') head ns'" "outside_same M (attrs P) st'" "M \<inter> nodes (L(p := None)) = {}"
    "set ns' \<inter> nodes (L(p := None)) = {}" "handle_of (kheap st') = handle_of (kheap (attrs P))" "klive st' \<subseteq> klive (attrs P)"
    "attr_dup_set st' = attr_dup_set (attrs P)" "kstatic st' = kstatic (attrs P)"
  shows "process_rel (set_attributes p head (P\<lparr>attrs := st'\<rparr>)) (L(p \<mapsto> ns')) H"
    "attr_view (set_attributes p head (P\<lparr>attrs := st'\<rparr>)) (L(p \<mapsto> ns')) = (attr_view P L)(p \<mapsto> pairs st' ns')"
proof -
  let ?P = "set_attributes p head (P\<lparr>attrs := st'\<rparr>)"
  note ptr = keyval_get_ptr_kstatic[OF assms(11)]
  have ok: "lists_ok P L" and live: "\<And>kv. kv \<in> H \<Longrightarrow> live_keyval (attrs P) kv (MPID_Keyval_get_ptr (attrs P) kv)"
    using assms(1) by (auto simp: process_rel_def)
  have out: "attr st' n = attr (attrs P) n" if "L q = Some ms" "q \<noteq> p" "n \<in> set ms" for q ms n
  proof -
    have "n \<in> nodes (L(p := None))" using that by (auto simp: nodes_def ran_def)
    then show ?thesis using assms(5,6) by (auto simp: outside_same_def)
  qed
  have "hlist (anext st') (cm_attributes (body (comms P) q)) ms" if "L q = Some ms" "q \<noteq> p" for q ms
    using ok that out[OF that] hlist_attr_upd[of "anext (attrs P)" _ ms "attr st'"] by (simp add: lists_ok_def)
  moreover have "set ns' \<inter> set ms = {}" if "L q = Some ms" "q \<noteq> p" for q ms
    using assms(7) that by (auto simp: nodes_def ran_def split: if_splits)
  ultimately have "lists_ok ?P (L(p \<mapsto> ns'))"
    using ok assms(4) unfolding lists_ok_def by (auto split: if_splits) blast+
  moreover have "live_keyval st' kv (MPID_Keyval_get_ptr st' kv)" if "kv \<in> H" for kv
  proof -
    have "MPID_Keyval_get_ptr (attrs P) kv \<in> klive st'" using attrs_okD(4)[OF assms(3)] that by auto
    then show ?thesis using live[OF that] by (simp add: live_keyval_def ptr assms(8))
  qed
  moreover have "klive st' = {} \<or> attr_dup_set st'" using assms(1,9,10) by (auto simp: process_rel_def)
  ultimately show "process_rel ?P (L(p \<mapsto> ns')) H" using assms(3) by (simp add: process_rel_def ptr)
  have "pairs st' ms = pairs (attrs P) ms" if "L q = Some ms" "q \<noteq> p" for q ms
    by (rule pairs_cong) (use out[OF that] assms(8) in \<open>simp add: akey_def\<close>)
  then have "map_option (pairs st') (L q) = map_option (pairs (attrs P)) (L q)" if "q \<noteq> p" for q
    using that by (cases "L q") auto
  then show "attr_view ?P (L(p \<mapsto> ns')) = (attr_view P L)(p \<mapsto> pairs st' ns')"
    by (auto simp: attr_view_def fun_eq_iff)
qed


lemma process_relD:
  assumes "process_rel P L H"
  shows "lists_ok P L" "attrs_ok (attrs P) (nodes L) (MPID_Keyval_get_ptr (attrs P) ` H)"
    "kv \<in> H \<Longrightarrow> live_keyval (attrs P) kv (MPID_Keyval_get_ptr (attrs P) kv)"
    "L p = Some ns \<Longrightarrow> hlist (anext (attrs P)) (cm_attributes (body (comms P) p)) ns"
    "klive (attrs P) = {} \<or> attr_dup_set (attrs P)"
  using assms by (auto simp: process_rel_def lists_ok_def)

lemma checks_pass:
  assumes "get_comm (comms P) comm = Inr p" "live_keyval (attrs P) kv kp" "keyvals_ok (attrs P)"
  shows "get_comm_keyval P comm kv = Inr (p, kp)" "handle_checks comm [errtest_keyval kv MPID_COMM] = None"
proof -
  have c: "errtest_comm comm = None" "MPID_Comm_valid_ptr (comms P) p = None" "MPID_Comm_get_ptr (comms P) comm = p"
    using assms(1) by (auto simp: get_comm_def Let_def split: option.splits)
  obtain g where g: "pool_ok (kpool_of (attrs P) g)" using assms(3) by (auto simp: keyvals_ok_def)
  have "kp \<noteq> 0" using hm.null_not_live[OF g] assms(2) by (metis klive_handles live_keyval_def)
  then show "get_comm_keyval P comm kv = Inr (p, kp)" "handle_checks comm [errtest_keyval kv MPID_COMM] = None"
    using c assms(2) by (simp_all add: get_comm_keyval_def handle_checks_def live_keyval_def keyval_valid_ptr_def Let_def)
qed

section \<open>Setting, getting, deleting\<close>

lemma set_attr_step:
  assumes "process_rel P L H" "get_comm (comms P) comm = Inr p" "L p = Some ns" "kv \<in> H"
    "calloc_fresh (pe_calloc e 0 (MPID_Attr_mem (attrs P))) (MPID_Attr_mem (attrs P))"
  shows "\<exists>P' er ns'. MPI_Comm_set_attr e P comm kv v = Some (P', er) \<and> process_rel P' (L(p \<mapsto> ns')) H \<and> same_comms P P'
    \<and> (case er of
         None \<Rightarrow> attr_view P' (L(p \<mapsto> ns')) = (attr_view P L)(p \<mapsto> put_pair kv v (pairs (attrs P) ns))
       | Some x \<Rightarrow> ns' = ns \<and> attr_view P' L = attr_view P L
           \<and> (x = fn_fail ''**mpi_comm_set_attr'' (new_error MPI_ERR_OTHER ''**nomem'')
                \<and> next_attr (pe_calloc e 0 (MPID_Attr_mem (attrs P))) (attrs P) = 0
              \<or> x = fn_fail ''**mpi_comm_set_attr'' (new_error MPI_ERR_OTHER ''**user'')))
    \<and> delete_calls (pe_attr e) comm (replaced kv (del_entries (attrs P) ns)) False (user (attrs P))
        = (er = Some (fn_fail ''**mpi_comm_set_attr'' (new_error MPI_ERR_OTHER ''**user'')), user (attrs P'))"
proof -
  note r = process_relD[OF assms(1)]
  let ?kp = "MPID_Keyval_get_ptr (attrs P) kv" and ?head = "cm_attributes (body (comms P) p)"
  note kv = r(3)[OF assms(4)] and n = nodes_split[OF r(1) assms(3)]
  have kp: "?kp \<in> klive (attrs P)" "handle_of (kheap (attrs P)) ?kp = kv" using kv by (simp_all add: live_keyval_def)
  note set = MPI_Comm_set_attr_def checks_pass(1)[OF assms(2) kv attrs_okD(2)[OF r(2)]]
  have L: "L(p \<mapsto> ns) = L" using assms(3) by auto
  show ?thesis
  proof (cases rule: attr_set_spec[OF r(2) r(4)[OF assms(3)] in_nodes[of L p ns, OF assms(3)] kp(1) assms(5), of "pe_attr e" comm v])
    case (1 st' er)
    have step: "process_rel (set_attributes p ?head (P\<lparr>attrs := st'\<rparr>)) (L(p \<mapsto> ns)) H"
      "attr_view (set_attributes p ?head (P\<lparr>attrs := st'\<rparr>)) (L(p \<mapsto> ns)) = (attr_view P L)(p \<mapsto> pairs st' ns)"
      by (rule process_step[OF assms(1,3), where M = "{}"]; use 1 r(4)[OF assms(3)] n in \<open>simp add: L same_keys_def outside_same_def\<close>)+
    have "pairs st' ns = pairs (attrs P) ns" by (rule pairs_cong) (use 1 in \<open>simp add: akey_def same_keys_def\<close>)
    then have "attr_view (set_attributes p ?head (P\<lparr>attrs := st'\<rparr>)) L = attr_view P L"
      using step(2) assms(3) by (simp add: L attr_view_def fun_eq_iff)
    then show ?thesis using 1 step(1) same_comms_set[of P p ?head st'] L kp(2) by (auto simp: set fn_fail_def create_code_def)
  next
    case (2 st' head' ns' N')
    have new: "N' = nodes (L(p \<mapsto> ns'))" "set ns' \<inter> nodes (L(p := None)) = {}"
      using 2(6-8) n unfolding nodes_upd by auto
    have "process_rel (set_attributes p head' (P\<lparr>attrs := st'\<rparr>)) (L(p \<mapsto> ns')) H"
      "attr_view (set_attributes p head' (P\<lparr>attrs := st'\<rparr>)) (L(p \<mapsto> ns')) = (attr_view P L)(p \<mapsto> pairs st' ns')"
      by (rule process_step[OF assms(1,3), where M = "set ns'"]; use 2 new in \<open>simp add: same_keys_def\<close>)+
    then show ?thesis using 2 same_comms_set[of P p head' st'] kp(2) by (auto simp: set)
  qed
qed

text \<open>
  C11: \<open>MPI_Comm_set_attr\<close> with a keyval that was created. It always returns. When the search meets the keyval
  before a larger one, the user's delete function is called once with the value there, and the routine fails
  exactly when that function does; else no function is called and it fails only when the pool has no object.
  On success the list of the communicator has the new value as \<open>put_pair\<close> says; on failure no list changes.
  The other communicators keep theirs.
\<close>

theorem MPI_Comm_set_attr_correct:
  assumes "process_rel P L H" "get_comm (comms P) comm = Inr p" "L p = Some ns" "kv \<in> H"
    "calloc_fresh (pe_calloc e 0 (MPID_Attr_mem (attrs P))) (MPID_Attr_mem (attrs P))"
  shows "\<exists>P' er ns'. MPI_Comm_set_attr e P comm kv v = Some (P', er) \<and> process_rel P' (L(p \<mapsto> ns')) H \<and> same_comms P P'
    \<and> (case er of
         None \<Rightarrow> attr_view P' (L(p \<mapsto> ns')) = (attr_view P L)(p \<mapsto> put_pair kv v (pairs (attrs P) ns))
       | Some x \<Rightarrow> ns' = ns \<and> attr_view P' L = attr_view P L
           \<and> (x = fn_fail ''**mpi_comm_set_attr'' (new_error MPI_ERR_OTHER ''**nomem'')
                \<and> next_attr (pe_calloc e 0 (MPID_Attr_mem (attrs P))) (attrs P) = 0
              \<or> x = fn_fail ''**mpi_comm_set_attr'' (new_error MPI_ERR_OTHER ''**user'')))
    \<and> delete_calls (pe_attr e) comm (replaced kv (del_entries (attrs P) ns)) False (user (attrs P))
        = (er = Some (fn_fail ''**mpi_comm_set_attr'' (new_error MPI_ERR_OTHER ''**user'')), user (attrs P'))"
  by (rule set_attr_step[OF assms])

lemma get_attr_value:
  assumes "process_rel P L H" "get_comm (comms P) comm = Inr p" "L p = Some ns" "kv \<in> H"
  shows "MPI_Comm_get_attr e P comm kv
    = Some (Inr (case map_of (pairs (attrs P) ns) kv of None \<Rightarrow> NoAttr | Some v \<Rightarrow> Value v))"
proof -
  note r = process_relD[OF assms(1)]
  note kv = r(3)[OF assms(4)]
  have c: "MPID_Comm_get_ptr (comms P) comm = p" "MPID_Comm_valid_ptr (comms P) p = None"
    using assms(2) by (auto simp: get_comm_def Let_def split: option.splits)
  have b: "HANDLE_GET_KIND kv \<noteq> HANDLE_KIND_BUILTIN"
    using kv by (auto simp: live_keyval_def errtest_keyval_def errtest_keyval_perm_def split: if_splits)
  show ?thesis
    using checks_pass(2)[OF assms(2) kv attrs_okD(2)[OF r(2)]] c b attr_get_spec[OF r(4)[OF assms(3)]]
    by (simp add: MPI_Comm_get_attr_def split: option.splits)
qed

text \<open>
  \<open>MPI_Comm_get_attr\<close> finds the first value of the keyval on the communicator's list, or sets the flag to 0.
\<close>

theorem MPI_Comm_get_attr_correct:
  assumes "process_rel P L H" "get_comm (comms P) comm = Inr p" "L p = Some ns" "kv \<in> H"
  shows "MPI_Comm_get_attr e P comm kv
    = Some (Inr (case map_of (pairs (attrs P) ns) kv of None \<Rightarrow> NoAttr | Some v \<Rightarrow> Value v))"
  by (rule get_attr_value[OF assms])

lemma delete_attr_step:
  assumes "process_rel P L H" "get_comm (comms P) comm = Inr p" "L p = Some ns" "kv \<in> H"
  shows "\<exists>P' er ns'. MPI_Comm_delete_attr e P comm kv = Some (P', er) \<and> process_rel P' (L(p \<mapsto> ns')) H \<and> same_comms P P'
    \<and> (case er of
         None \<Rightarrow> attr_view P' (L(p \<mapsto> ns')) = (attr_view P L)(p \<mapsto> del_pair kv (pairs (attrs P) ns))
       | Some x \<Rightarrow> ns' = ns \<and> attr_view P' L = attr_view P L
           \<and> x = fn_fail ''**mpi_comm_delete_attr'' (new_error MPI_ERR_OTHER ''**user''))
    \<and> delete_calls (pe_attr e) comm (first_of kv (del_entries (attrs P) ns)) False (user (attrs P)) = (er \<noteq> None, user (attrs P'))"
proof -
  note r = process_relD[OF assms(1)]
  let ?kp = "MPID_Keyval_get_ptr (attrs P) kv" and ?head = "cm_attributes (body (comms P) p)"
  note kv = r(3)[OF assms(4)] and n = nodes_split[OF r(1) assms(3)]
  have kp: "handle_of (kheap (attrs P)) ?kp = kv" using kv by (simp add: live_keyval_def)
  note del = MPI_Comm_delete_attr_def checks_pass(1)[OF assms(2) kv attrs_okD(2)[OF r(2)]]
  have L: "L(p \<mapsto> ns) = L" using assms(3) by auto
  show ?thesis
  proof (cases rule: attr_delete_spec[OF r(2) r(4)[OF assms(3)] in_nodes[of L p ns, OF assms(3)], of "pe_attr e" comm ?kp])
    case (1 st')
    have step: "process_rel (set_attributes p ?head (P\<lparr>attrs := st'\<rparr>)) (L(p \<mapsto> ns)) H"
      "attr_view (set_attributes p ?head (P\<lparr>attrs := st'\<rparr>)) (L(p \<mapsto> ns)) = (attr_view P L)(p \<mapsto> pairs st' ns)"
      by (rule process_step[OF assms(1,3), where M = "{}"]; use 1 r(4)[OF assms(3)] n in \<open>simp add: L same_keys_def outside_same_def\<close>)+
    have "pairs st' ns = pairs (attrs P) ns" by (rule pairs_cong) (use 1 in \<open>simp add: akey_def same_keys_def\<close>)
    then have "attr_view (set_attributes p ?head (P\<lparr>attrs := st'\<rparr>)) L = attr_view P L"
      using step(2) assms(3) by (simp add: L attr_view_def fun_eq_iff)
    then show ?thesis using 1 step(1) same_comms_set[of P p ?head st'] L kp by (auto simp: del)
  next
    case (2 st' head' ns')
    have new: "nodes L - (set ns - set ns') = nodes (L(p \<mapsto> ns'))" "set ns' \<inter> nodes (L(p := None)) = {}"
      using 2(4) n unfolding nodes_upd by auto
    have "process_rel (set_attributes p head' (P\<lparr>attrs := st'\<rparr>)) (L(p \<mapsto> ns')) H"
      "attr_view (set_attributes p head' (P\<lparr>attrs := st'\<rparr>)) (L(p \<mapsto> ns')) = (attr_view P L)(p \<mapsto> pairs st' ns')"
      by (rule process_step[OF assms(1,3), where M = "set ns"]; use 2 new n in \<open>simp add: same_keys_def\<close>)+
    then show ?thesis using 2 same_comms_set[of P p head' st'] kp by (auto simp: del)
  qed
qed


text \<open>
  C12: \<open>MPI_Comm_delete_attr\<close> calls the user's delete function once, with the value of the first pair of the keyval on
  the communicator's list, if there is one. It fails exactly when that function does and no list changes then;
  otherwise it takes that pair off the list.
\<close>

theorem MPI_Comm_delete_attr_correct:
  assumes "process_rel P L H" "get_comm (comms P) comm = Inr p" "L p = Some ns" "kv \<in> H"
  shows "\<exists>P' er ns'. MPI_Comm_delete_attr e P comm kv = Some (P', er) \<and> process_rel P' (L(p \<mapsto> ns')) H \<and> same_comms P P'
    \<and> (case er of
         None \<Rightarrow> attr_view P' (L(p \<mapsto> ns')) = (attr_view P L)(p \<mapsto> del_pair kv (pairs (attrs P) ns))
       | Some x \<Rightarrow> ns' = ns \<and> attr_view P' L = attr_view P L
           \<and> x = fn_fail ''**mpi_comm_delete_attr'' (new_error MPI_ERR_OTHER ''**user''))
    \<and> delete_calls (pe_attr e) comm (first_of kv (del_entries (attrs P) ns)) False (user (attrs P)) = (er \<noteq> None, user (attrs P'))"
  by (rule delete_attr_step[OF assms])

text \<open>
  C13: Setting an attribute twice when a keyval with a larger handle is on the list, then deleting it, brings the first
  value back: the second setting does not find the first, which stands behind the larger key.
\<close>

theorem MPI_Comm_set_attr_stale:
  assumes "process_rel P L H" "get_comm (comms P) comm = Inr p" "L p = Some ns" "kv \<in> H"
    "kv \<notin> fst ` set (pairs (attrs P) ns)" "\<exists>y \<in> set (pairs (attrs P) ns). sint (fst y) > sint kv"
    "\<And>om. calloc_fresh (pe_calloc e 0 om) om"
    "MPI_Comm_set_attr e P comm kv v = Some (P1, None)" "MPI_Comm_set_attr e P1 comm kv w = Some (P2, None)"
    "MPI_Comm_delete_attr e P2 comm kv = Some (P3, None)"
  shows "MPI_Comm_get_attr e P3 comm kv = Some (Inr (Value v))"
proof -
  let ?xs = "pairs (attrs P) ns"
  obtain n1 where 1: "process_rel P1 (L(p \<mapsto> n1)) H" "same_comms P P1" "attr_view P1 (L(p \<mapsto> n1)) p = Some (put_pair kv v ?xs)"
    using set_attr_step[OF assms(1-4,7), of v] assms(8) by auto
  have p1: "get_comm (comms P1) comm = Inr p" "pairs (attrs P1) n1 = put_pair kv v ?xs"
    using 1(2,3) assms(2) by (simp_all add: same_comms_def attr_view_def)
  obtain n2 where 2: "process_rel P2 (L(p \<mapsto> n2)) H" "same_comms P1 P2"
    "attr_view P2 (L(p \<mapsto> n2)) p = Some (put_pair kv w (put_pair kv v ?xs))"
    using set_attr_step[OF 1(1) p1(1) _ assms(4,7), of n1 w] assms(9) p1(2) by auto
  have p2: "get_comm (comms P2) comm = Inr p" "pairs (attrs P2) n2 = put_pair kv w (put_pair kv v ?xs)"
    using 2(2,3) p1(1) by (simp_all add: same_comms_def attr_view_def)
  obtain n3 where 3: "process_rel P3 (L(p \<mapsto> n3)) H" "same_comms P2 P3"
    "attr_view P3 (L(p \<mapsto> n3)) p = Some (del_pair kv (put_pair kv w (put_pair kv v ?xs)))"
    using delete_attr_step[OF 2(1) p2(1) _ assms(4), of n2 e] assms(10) p2(2) by auto
  have "get_comm (comms P3) comm = Inr p" "pairs (attrs P3) n3 = del_pair kv (put_pair kv w (put_pair kv v ?xs))"
    using 3(2,3) p2(1) by (simp_all add: same_comms_def attr_view_def)
  then show ?thesis
    using get_attr_value[OF 3(1) _ _ assms(4), of comm p n3 e] put_del_pair_stale[OF assms(5,6)] by simp
qed

section \<open>Copying and freeing a communicator\<close>

lemma process_frame:
  assumes "process_rel P L H" "same_keys (attrs P) (attrs P')" "\<And>n. n \<in> nodes L \<Longrightarrow> attr (attrs P') n = attr (attrs P) n"
    "\<And>q. q \<in> dom L \<Longrightarrow> cm_attributes (body (comms P') q) = cm_attributes (body (comms P) q)"
    "attrs_ok (attrs P') N (MPID_Keyval_get_ptr (attrs P) ` H)" "nodes L \<subseteq> N"
  shows "process_rel P' L H" "attr_view P' L = attr_view P L"
proof -
  have k: "handle_of (kheap (attrs P')) = handle_of (kheap (attrs P))" "klive (attrs P') = klive (attrs P)"
    "attr_dup_set (attrs P') = attr_dup_set (attrs P)" "MPID_Keyval_get_ptr (attrs P') = MPID_Keyval_get_ptr (attrs P)"
    using assms(2) keyval_get_ptr_kstatic[of "attrs P'" "attrs P"] by (simp_all add: same_keys_def)
  note r = process_relD[OF assms(1)]
  have out: "attr (attrs P') n = attr (attrs P) n" if "L q = Some ms" "n \<in> set ms" for q ms n
    using assms(3) in_nodes[of L q ms, OF that(1)] that(2) by auto
  have "hlist (anext (attrs P')) (cm_attributes (body (comms P') q)) ms" if "L q = Some ms" for q ms
    using r(4)[OF that] out[OF that] assms(4)[of q] that hlist_attr_upd[of "anext (attrs P)" _ ms "attr (attrs P')"]
    by (simp add: domI)
  then have "lists_ok P' L" using r(1) by (simp add: lists_ok_def)
  then show "process_rel P' L H"
    using assms(1) attrs_ok_less[OF assms(5,6)] by (simp add: process_rel_def k live_keyval_def)
  have "pairs (attrs P') ms = pairs (attrs P) ms" if "L q = Some ms" for q ms
    by (rule pairs_cong) (use out[OF that] k in \<open>simp add: akey_def\<close>)
  then have "map_option (pairs (attrs P')) (L q) = map_option (pairs (attrs P)) (L q)" for q by (cases "L q") auto
  then show "attr_view P' L = attr_view P L" by (simp add: attr_view_def)
qed

lemma process_head:
  assumes "process_rel P L H" "L q = None"
  shows "process_rel (set_attributes q head P) L H \<and> attr_view (set_attributes q head P) L = attr_view P L"
proof -
  have b: "body (comms (set_attributes q head P)) x = body (comms P) x" if "x \<noteq> q" for x using that by simp
  have "lists_ok (set_attributes q head P) L"
    using process_relD(1)[OF assms(1)] assms(2) b unfolding lists_ok_def set_attributes_simps(1) by (metis option.distinct(1))
  then show ?thesis using assms(1) by (simp add: process_rel_def attr_view_def)
qed

lemma process_add:
  assumes "process_rel P L H" "L q = None" "attrs_ok (attrs P) (nodes L \<union> set qs) (MPID_Keyval_get_ptr (attrs P) ` H)"
    "set qs \<inter> nodes L = {}" "hlist (anext (attrs P)) (cm_attributes (body (comms P) q)) qs"
  shows "process_rel P (L(q \<mapsto> qs)) H" "attr_view P (L(q \<mapsto> qs)) = (attr_view P L)(q \<mapsto> pairs (attrs P) qs)"
proof -
  note r = process_relD[OF assms(1)]
  have L: "L(q := None) = L" using assms(2) by auto
  have "set qs \<inter> set ms = {}" if "L x = Some ms" for x ms using in_nodes[of L x ms, OF that] assms(4) by auto
  then have "lists_ok P (L(q \<mapsto> qs))" using r(1) assms(2,5) unfolding lists_ok_def by (auto split: if_splits)
  moreover have "nodes (L(q \<mapsto> qs)) = nodes L \<union> set qs" using nodes_upd[of L q qs] L by auto
  ultimately show "process_rel P (L(q \<mapsto> qs)) H" using assms(1,3) by (simp add: process_rel_def)
  show "attr_view P (L(q \<mapsto> qs)) = (attr_view P L)(q \<mapsto> pairs (attrs P) qs)" by (auto simp: attr_view_def)
qed

lemma process_remove:
  assumes "process_rel P L H"
  shows "process_rel P (L(p := None)) H" "attr_view P (L(p := None)) = (attr_view P L)(p := None)"
proof -
  have "nodes (L(p := None)) \<subseteq> nodes L" by (auto simp: nodes_def ran_def split: if_splits)
  moreover have "lists_ok P (L(p := None))" using assms unfolding process_rel_def lists_ok_def by (auto split: if_splits)
  ultimately show "process_rel P (L(p := None)) H"
    using assms attrs_ok_less unfolding process_rel_def by blast
  show "attr_view P (L(p := None)) = (attr_view P L)(p := None)" by (auto simp: attr_view_def)
qed

lemma no_keyvals_no_attributes:
  assumes "process_rel P L H" "L p = Some ns" "\<not> attr_dup_set (attrs P)"
  shows "ns = []"
proof (rule ccontr)
  note r = process_relD[OF assms(1)]
  assume "ns \<noteq> []"
  then have "hd ns \<in> nodes L" using in_nodes[of L p ns, OF assms(2)] by (metis list.set_sel(1) subsetD)
  then show False using attrs_okD(7)[OF r(2)] r(5) assms(3) by auto
qed

text \<open>The copy of the attributes in a duplicate, whether or not the functions are registered.\<close>

lemma dup_attributes:
  fixes obj :: handle
  assumes "process_rel P L H" "L p = Some ns" "\<And>n om. calloc_fresh (pe_calloc e n om) om"
  defines "r \<equiv> (if attr_dup_set (attrs P)
      then MPIR_Attr_dup_list (pe_attr e) (pe_calloc e) obj (cm_attributes (body (comms P) p)) (attrs P)
      else Some (attrs P, 0, None))"
  obtains st' head er qs where "r = Some (st', head, er)" "attrs_ok st' (nodes L \<union> set qs) (MPID_Keyval_get_ptr (attrs P) ` H)"
    "hlist (anext st') head qs" "set qs \<inter> nodes L = {}" "same_keys (attrs P) st'" "\<forall>n \<in> nodes L. attr st' n = attr (attrs P) n"
    "er = Some (new_error MPI_ERR_OTHER ''**nomem'')
     \<or> copy_pairs (pe_attr e) obj (entries (attrs P) ns) (user (attrs P)) = (pairs st' qs, er \<noteq> None, user st')
       \<and> (er = None \<or> er = Some (new_error MPI_ERR_OTHER ''**user''))"
proof (cases "attr_dup_set (attrs P)")
  case False
  then have "ns = []" by (rule no_keyvals_no_attributes[OF assms(1,2)])
  then show thesis using False process_relD(2)[OF assms(1)]
    by (intro that[of "attrs P" 0 None "[]"]) (simp_all add: r_def entries_def pairs_def same_keys_def)
next
  case True
  note rel = process_relD[OF assms(1)]
  have loop: "r = dup_list_loop (pe_attr e) (pe_calloc e) obj 0 (cm_attributes (body (comms P) p)) 0 (last (0 # [])) (attrs P)"
    using True by (simp add: r_def MPIR_Attr_dup_list_def)
  obtain st' head er qs ps where d: "r = Some (st', head, er)"
    "attrs_ok st' (nodes L \<union> set qs) (MPID_Keyval_get_ptr (attrs P) ` H)"
    "hlist (anext st') head qs" "set qs \<inter> nodes L = {}" "same_keys (attrs P) st'" "\<forall>n \<in> nodes L. attr st' n = attr (attrs P) n"
    "pairs st' qs = ps" "er = Some (new_error MPI_ERR_OTHER ''**nomem'')
     \<or> (case copy_pairs (pe_attr e) obj (entries (attrs P) ns) (user (attrs P)) of (cs, bad, u) \<Rightarrow>
          ps = cs \<and> user st' = u \<and> er = (if bad then Some (new_error MPI_ERR_OTHER ''**user'') else None))"
    using dup_list_loop_spec[of "pe_calloc e" "attrs P" "nodes L" "[]" "MPID_Keyval_get_ptr (attrs P) ` H"
        "cm_attributes (body (comms P) p)" ns 0 "pe_attr e" obj 0, OF assms(3)] rel(2) rel(4)[OF assms(2)]
      in_nodes[of L p ns, OF assms(2)]
    unfolding loop by (auto simp: pairs_def)
  show thesis by (rule that[OF d(1-6)]) (use d(7,8) in \<open>auto split: prod.splits if_splits\<close>)
qed

lemma comm_dup_step:
  assumes "process_rel P L H" "get_comm (comms P) comm = Inr p" "L p = Some ns" "\<And>n om. calloc_fresh (pe_calloc e n om) om"
    "comm_state_ok (comms P)" "calloc_fresh (ce_calloc (pe_comm e)) (MPID_Comm_mem (comms P))"
    "\<forall>q \<in> dom L. comm_known (ce_calloc (pe_comm e)) (comms P) q" "cm_kind (body (comms P) p) = MPID_INTRACOMM"
    "cm_local_size (body (comms P) p) = int (length (cm_vcr (body (comms P) p)))"
    "cm_rank (body (comms P) p) < cm_local_size (body (comms P) p)"
    "ids_split (comm_ids (comms P)) used" "reduced_mask (pe_comm e) (comms P) m"
  shows "\<exists>P' res. MPI_Comm_dup e P comm = Some (P', res) \<and>
    (let copied = copy_pairs (pe_attr e) (handle_of (cheap (comms P)) p) (entries (attrs P) ns) (user (attrs P)) in
     case res of
       Inl er \<Rightarrow> body (comms P') = body (comms P) \<and> process_rel P' L H \<and> attr_view P' L = attr_view P L
         \<and> (mask_ids m = {} \<or> er = fn_fail ''**mpi_comm_dup'' (new_error MPI_ERR_OTHER ''**nomem'') \<or> fst (snd copied))
     | Inr newcomm \<Rightarrow> \<exists>q qs b. MPID_Comm_get_ptr (comms P') newcomm = q \<and> L q = None \<and> q \<notin> pool_live (cpool (comms P))
         \<and> comm_state_ok (comms P') \<and> pool_live (cpool (comms P')) = insert q (pool_live (cpool (comms P)))
         \<and> body (comms P') = (body (comms P))(q := b)
         \<and> copy_made (body (comms P) p) (length (cm_vcr (body (comms P) p))) (b\<lparr>cm_attributes := 0\<rparr>)
         \<and> cm_context_id b \<notin> used \<and> ids_split (comm_ids (comms P')) (insert (cm_context_id b) used)
         \<and> process_rel P' (L(q \<mapsto> qs)) H \<and> attr_view P' (L(q \<mapsto> qs)) = (attr_view P L)(q \<mapsto> pairs (attrs P') qs)
         \<and> copied = (pairs (attrs P') qs, False, user (attrs P')))"
proof -
  let ?obj = "handle_of (cheap (comms P)) p" and ?n = "length (cm_vcr (body (comms P) p))"
  obtain st' head er qs where d: "(if attr_dup_set (attrs P)
      then MPIR_Attr_dup_list (pe_attr e) (pe_calloc e) ?obj (cm_attributes (body (comms P) p)) (attrs P)
      else Some (attrs P, 0, None)) = Some (st', head, er)"
    "attrs_ok st' (nodes L \<union> set qs) (MPID_Keyval_get_ptr (attrs P) ` H)"
    "hlist (anext st') head qs" "set qs \<inter> nodes L = {}" "same_keys (attrs P) st'" "\<forall>n \<in> nodes L. attr st' n = attr (attrs P) n"
    "er = Some (new_error MPI_ERR_OTHER ''**nomem'')
     \<or> copy_pairs (pe_attr e) ?obj (entries (attrs P) ns) (user (attrs P)) = (pairs st' qs, er \<noteq> None, user st')
       \<and> (er = None \<or> er = Some (new_error MPI_ERR_OTHER ''**user''))"
    by (rule dup_attributes[OF assms(1,3,4)])
  note dup = MPI_Comm_dup_def assms(2) d(1)
  have frame: "process_rel (P\<lparr>attrs := st', comms := cs\<rparr>) L H" "attr_view (P\<lparr>attrs := st', comms := cs\<rparr>) L = attr_view P L"
    if "\<And>x. x \<in> dom L \<Longrightarrow> cm_attributes (body cs x) = cm_attributes (body (comms P) x)" for cs
    by (rule process_frame[OF assms(1), where N = "nodes L \<union> set qs"]; use d(2,5,6) that in simp)+
  show ?thesis
  proof (cases er)
    case (Some x)
    then show ?thesis using frame[of "comms P"] d(7)
      by (auto simp: dup Let_def)
  next
    case None
    have ptr: "MPID_Keyval_get_ptr st' = MPID_Keyval_get_ptr (attrs P)"
      using d(5) keyval_get_ptr_kstatic[of st' "attrs P"] by (simp add: same_keys_def)
    show ?thesis
    proof (cases rule: MPIR_Comm_copy_spec[OF assms(5,6) _ assms(8,9) le_refl assms(11,12)])
      case 1
      then show ?case using assms(3,7) by blast
    next
      case (2 cs er)
      then show ?thesis using frame[of cs] None assms(9) by (auto simp: dup Let_def)
    next
      case (3 cs c)
      then show ?thesis using assms(9,10) by simp
    next
      case (4 cs q b)
      let ?P = "P\<lparr>attrs := st', comms := cs\<rparr>"
      let ?P' = "set_attributes q head ?P"
      have "q \<notin> dom L" using 4(5) assms(7) by blast
      then have Lq: "L q = None" by (simp add: domIff)
      have heads: "cm_attributes (body cs x) = cm_attributes (body (comms P) x)" if "x \<in> dom L" for x
        using 4(8) Lq that by auto
      note f = frame[OF heads]
      have rel: "process_rel ?P' L H" "attr_view ?P' L = attr_view P L"
        using process_head[OF f(1) Lq, of head] f(2) by simp_all
      have new: "process_rel ?P' (L(q \<mapsto> qs)) H" "attr_view ?P' (L(q \<mapsto> qs)) = (attr_view P L)(q \<mapsto> pairs st' qs)"
        using process_add[OF rel(1) Lq, of qs] d(2,3,4) rel(2) by (simp_all add: ptr)
      have "MPI_Comm_dup e P comm = Some (?P', Inr (handle_of (cheap cs) q))"
        using 4 None assms(9) by (simp add: dup Let_def)
      moreover have "MPID_Comm_get_ptr (comms ?P') = MPID_Comm_get_ptr cs"
        by (simp add: fun_eq_iff MPID_Comm_get_ptr_def set_attributes_def upd_comm_def)
      then have "MPID_Comm_get_ptr (comms ?P') (handle_of (cheap cs) q) = q"
        using get_ptr_of_new(1)[OF 4(6), of q] 4(7) by simp
      moreover have "comm_ids (comms ?P') = comm_ids cs" by (simp add: set_attributes_def upd_comm_def)
      moreover have "copy_made (body (comms P) p) ?n (b\<lparr>cm_attributes := 0\<rparr>)" using 4(9) by (simp add: copy_made_def)
      moreover have "body (comms ?P') = (body (comms P))(q := b\<lparr>cm_attributes := head\<rparr>)" using 4(8) by simp
      moreover have "copy_pairs (pe_attr e) ?obj (entries (attrs P) ns) (user (attrs P)) = (pairs st' qs, False, user st')"
        using d(7) None by simp
      moreover have "comm_state_ok (comms ?P')" "pool_live (cpool (comms ?P')) = insert q (pool_live (cpool (comms P)))"
        using 4(6,7) by (simp_all add: set_attributes_def)
      ultimately show ?thesis using 4(4,10,11) new Lq
        by (intro exI[of _ ?P'] exI[of _ "Inr (handle_of (cheap cs) q)"] conjI; simp del: fun_upd_apply)
          (rule exI[of _ qs]; simp del: fun_upd_apply; rule exI[of _ "b\<lparr>cm_attributes := head\<rparr>"]; simp)
    qed
  qed
qed


text \<open>
  C9: \<open>MPI_Comm_dup\<close> on an intracommunicator. It always returns. The duplicate is a new object with the same members,
  the caller's rank and a fresh context id; its attributes are the ones the copy functions of the keyvals ask for, in
  the order of the original, and every other list stays. It fails only when a copy function fails, no context id is
  free or the memory for an object is missing; no communicator changes then.
\<close>

theorem MPI_Comm_dup_correct:
  assumes "process_rel P L H" "get_comm (comms P) comm = Inr p" "L p = Some ns" "\<And>n om. calloc_fresh (pe_calloc e n om) om"
    "comm_state_ok (comms P)" "calloc_fresh (ce_calloc (pe_comm e)) (MPID_Comm_mem (comms P))"
    "\<forall>q \<in> dom L. comm_known (ce_calloc (pe_comm e)) (comms P) q" "cm_kind (body (comms P) p) = MPID_INTRACOMM"
    "cm_local_size (body (comms P) p) = int (length (cm_vcr (body (comms P) p)))"
    "cm_rank (body (comms P) p) < cm_local_size (body (comms P) p)"
    "ids_split (comm_ids (comms P)) used" "reduced_mask (pe_comm e) (comms P) m"
  shows "\<exists>P' res. MPI_Comm_dup e P comm = Some (P', res) \<and>
    (let copied = copy_pairs (pe_attr e) (handle_of (cheap (comms P)) p) (entries (attrs P) ns) (user (attrs P)) in
     case res of
       Inl er \<Rightarrow> body (comms P') = body (comms P) \<and> process_rel P' L H \<and> attr_view P' L = attr_view P L
         \<and> (mask_ids m = {} \<or> er = fn_fail ''**mpi_comm_dup'' (new_error MPI_ERR_OTHER ''**nomem'') \<or> fst (snd copied))
     | Inr newcomm \<Rightarrow> \<exists>q qs b. MPID_Comm_get_ptr (comms P') newcomm = q \<and> L q = None \<and> q \<notin> pool_live (cpool (comms P))
         \<and> comm_state_ok (comms P') \<and> pool_live (cpool (comms P')) = insert q (pool_live (cpool (comms P)))
         \<and> body (comms P') = (body (comms P))(q := b)
         \<and> copy_made (body (comms P) p) (length (cm_vcr (body (comms P) p))) (b\<lparr>cm_attributes := 0\<rparr>)
         \<and> cm_context_id b \<notin> used \<and> ids_split (comm_ids (comms P')) (insert (cm_context_id b) used)
         \<and> process_rel P' (L(q \<mapsto> qs)) H \<and> attr_view P' (L(q \<mapsto> qs)) = (attr_view P L)(q \<mapsto> pairs (attrs P') qs)
         \<and> copied = (pairs (attrs P') qs, False, user (attrs P')))"
  by (rule comm_dup_step[OF assms])

text \<open>The attributes of a communicator that goes: all are freed, whatever the user's functions say.\<close>

lemma release_attributes:
  assumes "process_rel P L H" "L p = Some ns"
    "delete_calls (pe_attr e) (handle_of (cheap (comms P)) p) (del_entries (attrs P) ns) False (user (attrs P)) = (bad, u)"
  obtains st' where "comm_release_attrs e p P = Some (P\<lparr>attrs := st'\<rparr>, user_err bad)"
    "process_rel (P\<lparr>attrs := st'\<rparr>) (L(p := None)) H" "attr_view (P\<lparr>attrs := st'\<rparr>) (L(p := None)) = (attr_view P L)(p := None)"
    "user st' = u" "set ns \<inter> pool_live (apool st') = {}"
proof -
  note r = process_relD[OF assms(1)]
  let ?b = "body (comms P) p"
  show thesis
  proof (cases "attr_dup_set (attrs P) \<and> cm_attributes ?b \<noteq> 0")
    case False
    then have "ns = []"
      using no_keyvals_no_attributes[OF assms(1,2)] r(4)[OF assms(2)] by auto
    then show thesis using False assms(3) process_remove[OF assms(1), of p]
      by (intro that[of "attrs P"]) (auto simp: comm_release_attrs_def del_entries_def user_err_def)
  next
    case True
    obtain st' where d: "delete_list_loop (pe_attr e) (handle_of (cheap (comms P)) p) (cm_attributes ?b) (user_err False) (attrs P)
        = Some (st', user_err bad)"
      "attrs_ok st' (nodes L - set ns) (MPID_Keyval_get_ptr (attrs P) ` H)" "attr st' = attr (attrs P)"
      "kheap st' = kheap (attrs P)" "same_keys (attrs P) st'" "pool_live (apool st') = pool_live (apool (attrs P)) - set ns" "user st' = u"
      using delete_list_loop_spec[OF r(2) r(4)[OF assms(2)] in_nodes[of L p ns, OF assms(2)], of "pe_attr e"
          "handle_of (cheap (comms P)) p" False] assms(3) by auto
    have rel: "comm_release_attrs e p P = Some (P\<lparr>attrs := st'\<rparr>, user_err bad)"
      using True d(1) by (simp add: comm_release_attrs_def MPIR_Attr_delete_list_def user_err_def Let_def)
    have sub: "nodes (L(p := None)) \<subseteq> nodes L - set ns" using nodes_split[OF r(1) assms(2)] by auto
    have "process_rel (P\<lparr>attrs := st'\<rparr>) (L(p := None)) H"
      "attr_view (P\<lparr>attrs := st'\<rparr>) (L(p := None)) = attr_view P (L(p := None))"
      by (rule process_frame[OF process_remove(1)[OF assms(1)], where N = "nodes L - set ns"]; use d sub in simp)+
    then show thesis using rel d process_remove(2)[OF assms(1), of p] by (intro that[of st']) auto
  qed
qed

lemma comm_get_ptr_handle:
  assumes "comm_state_ok st" "get_comm st comm = Inr p"
  shows "MPID_Comm_get_ptr st comm = p" "errtest_comm comm = None" "MPID_Comm_valid_ptr st p = None"
  using assms(2) by (auto simp: get_comm_def Let_def split: option.splits)

lemma process_rel_comms:
  assumes "process_rel P L H" "attrs P' = attrs P" "\<And>q. q \<in> dom L \<Longrightarrow> cm_attributes (body (comms P') q) = cm_attributes (body (comms P) q)"
  shows "process_rel P' L H" "attr_view P' L = attr_view P L"
proof -
  have "lists_ok P' L"
    using process_relD(1)[OF assms(1)] assms(3) unfolding lists_ok_def assms(2) by (auto simp: domI)
  then show "process_rel P' L H" "attr_view P' L = attr_view P L"
    using assms(1) by (simp_all add: process_rel_def attr_view_def assms(2))
qed

text \<open>
  C10: \<open>MPI_Comm_free\<close> by the last user of an intracommunicator. It always returns. The delete functions of all attributes
  are called and the attributes freed. Then the object goes back to the pool and its context id is free again, unless
  the last call of a delete function failed: the communicator then stays as it was and its head still points to the
  attributes, none of which is allocated any more.
\<close>

theorem MPI_Comm_free_correct:
  assumes "process_rel P L H" "get_comm (comms P) comm = Inr p" "L p = Some ns" "HANDLE_GET_KIND comm \<noteq> HANDLE_KIND_BUILTIN"
    "comm_state_ok (comms P)" "p \<in> pool_live (cpool (comms P))" "cm_ref_count (body (comms P) p) = 1"
    "cm_kind (body (comms P) p) = MPID_INTRACOMM" "\<forall>vcrt d. pe_vcrt e vcrt d = None"
    "ids_split (comm_ids (comms P)) used" "cm_recvcontext_id (body (comms P) p) \<in> used"
    "delete_calls (pe_attr e) (handle_of (cheap (comms P)) p) (del_entries (attrs P) ns) False (user (attrs P)) = (bad, u)"
  shows "\<exists>P'. MPI_Comm_free e P comm = Some (P', if bad
      then Inl (fn_fail ''**mpi_comm_free'' (new_error MPI_ERR_OTHER ''**user'')) else Inr MPI_COMM_NULL)
    \<and> process_rel P' (L(p := None)) H \<and> attr_view P' (L(p := None)) = (attr_view P L)(p := None)
    \<and> user (attrs P') = u \<and> set ns \<inter> pool_live (apool (attrs P')) = {} \<and> comm_state_ok (comms P')
    \<and> (if bad then body (comms P') = body (comms P) \<and> hlist (anext (attrs P)) (cm_attributes (body (comms P') p)) ns
       else pool_live (cpool (comms P')) = pool_live (cpool (comms P)) - {p}
         \<and> ids_split (comm_ids (comms P')) (used - {cm_recvcontext_id (body (comms P) p)})
         \<and> (\<forall>q. q \<noteq> p \<longrightarrow> body (comms P') q = body (comms P) q))"
proof -
  let ?b = "body (comms P) p"
  let ?P0 = "upd_comm p (\<lambda>b. b\<lparr>cm_ref_count := cm_ref_count b - 1\<rparr>) P"
  note c = comm_get_ptr_handle[OF assms(5,2)]
  have rel0: "process_rel ?P0 L H" "attr_view ?P0 L = attr_view P L"
    by (rule process_rel_comms[OF assms(1)]; simp)+
  have "delete_calls (pe_attr e) (handle_of (cheap (comms ?P0)) p) (del_entries (attrs ?P0) ns) False (user (attrs ?P0)) = (bad, u)"
    using assms(12) by simp
  then obtain st' where a: "comm_release_attrs e p ?P0 = Some (?P0\<lparr>attrs := st'\<rparr>, user_err bad)"
    "process_rel (?P0\<lparr>attrs := st'\<rparr>) (L(p := None)) H" "attr_view (?P0\<lparr>attrs := st'\<rparr>) (L(p := None)) = (attr_view ?P0 L)(p := None)"
    "user st' = u" "set ns \<inter> pool_live (apool st') = {}"
    by (rule release_attributes[OF rel0(1) assms(3)])
  have free: "MPI_Comm_free e P comm = (case MPIR_Comm_release e False p P of
      None \<Rightarrow> None | Some (P, Some er) \<Rightarrow> Some (P, Inl (fn_fail ''**mpi_comm_free'' er)) | Some (P, None) \<Rightarrow> Some (P, Inr MPI_COMM_NULL))"
    using c assms(4) by (simp add: MPI_Comm_free_def Let_def)
  note release = MPIR_Comm_release.simps[of e False p P] a(1) assms(7)
  show ?thesis
  proof (cases bad)
    case True
    let ?P' = "upd_comm p (\<lambda>b. b\<lparr>cm_ref_count := cm_ref_count b + 1\<rparr>) (?P0\<lparr>attrs := st'\<rparr>)"
    have "MPIR_Comm_release e False p P = Some (?P', Some (new_error MPI_ERR_OTHER ''**user''))"
      using True by (simp add: release user_err_def Let_def)
    moreover have "process_rel ?P' (L(p := None)) H" "attr_view ?P' (L(p := None)) = attr_view (?P0\<lparr>attrs := st'\<rparr>) (L(p := None))"
      by (rule process_rel_comms[OF a(2)]; simp)+
    moreover have "body (comms ?P') = body (comms P)" by (simp add: fun_eq_iff)
    moreover note process_relD(4)[OF assms(1,3)]
    ultimately show ?thesis using True a rel0(2) free assms(5) by (intro exI[of _ ?P']) simp
  next
    case False
    let ?P1 = "?P0\<lparr>attrs := st'\<rparr>"
    let ?P2 = "if comm_parent ?P1 = p then ?P1\<lparr>comm_parent := 0\<rparr> else ?P1"
    have s2: "comms ?P2 = comms ?P0" "attrs ?P2 = st'" "cm_recvcontext_id (body (comms ?P2) p) = cm_recvcontext_id ?b"
      "cm_kind (body (comms ?P2) p) = MPID_INTRACOMM" using assms(8) by simp_all
    obtain ids where ids: "MPIR_Free_contextid (cm_recvcontext_id ?b) (comm_ids (comms P)) = Some ids"
      "ids_split ids (used - {cm_recvcontext_id ?b})" by (rule ids_split_free[OF assms(10,11)])
    obtain h om where fr: "MPIU_Handle_obj_free (cheap (comms ?P0)) (MPID_Comm_mem (comms ?P0)) p = (h, om)" by fastforce
    have pf: "pool_free p (cpool (comms ?P0)) = (h, om)" using fr by (simp add: pool_free_def cpool_def)
    let ?cs = "(comms ?P0)\<lparr>comm_ids := ids, cheap := h, MPID_Comm_mem := om\<rparr>"
    obtain P' where rest: "comm_release_rest p ?P2 = Some (P', None)" "comms P' = ?cs" "attrs P' = st'"
      unfolding comm_release_rest_def Let_def s2(1,3) using ids(1) fr s2(2) by (simp add: Let_def)
    have "MPIR_Comm_release e False p P = Some (P', None)"
      using False rest(1) s2(4) assms(9) by (simp add: release user_err_def Let_def)
    then have f: "MPI_Comm_free e P comm = Some (P', Inr MPI_COMM_NULL)" using free by simp
    have pool: "pool_ok (cpool (comms ?P0))" "p \<in> pool_live (cpool (comms ?P0))"
    proof -
      have "comm_state_ok (comms ?P0)" using assms(5) by simp
      then show "pool_ok (cpool (comms ?P0))" by (simp add: comm_state_ok_def)
    qed (use assms(6) in simp)
    have "comm_state_ok ?cs"
      using hm.free_inv[OF pool] hm.free_rest[of p "cpool (comms ?P0)"] assms(5) unfolding pf
      by (simp add: comm_state_ok_def cpool_def pool_rest_def)
    moreover have cs: "cpool ?cs = (h, om)" by (simp add: cpool_def)
    have "pool_live (cpool ?cs) = pool_live (cpool (comms P)) - {p}"
      using hm.free_live[OF pool] unfolding pf cs by simp
    moreover have bd: "body ?cs = body (comms ?P0)"
      using fr by (auto simp: MPIU_Handle_obj_free_def)
    moreover have "process_rel P' (L(p := None)) H" "attr_view P' (L(p := None)) = attr_view ?P1 (L(p := None))"
      by (rule process_rel_comms[OF a(2)]; use rest bd in simp)+
    ultimately show ?thesis using False a rel0(2) f rest ids(2) by (intro exI[of _ P']) simp
  qed
qed


section \<open>Keyvals of a process\<close>

lemma alloc_sizes:
  assumes "MPIU_Handle_obj_alloc e h om = (h', om', q)"
  shows "om_direct_size om' = om_direct_size om" "om_indirect_size om' \<le> max (om_indirect_size om) (if om_indirect om = None then 1 else om_indirect_size om + 1)"
  using assms by (auto simp: MPIU_Handle_obj_alloc_def MPIU_Handle_indirect_init_def Let_def
      split: if_splits prod.splits option.splits)

lemma create_few:
  assumes "create_keyval obj msg ce st c d x = (st', r)" "om_direct_size (MPID_Keyval_mem st) \<le> 2 ^ 22"
    "om_indirect_size (MPID_Keyval_mem st) < 64"
  shows "few_keyvals st'"
proof -
  obtain h om q where al: "MPIU_Handle_obj_alloc ce (kheap st) (MPID_Keyval_mem st) = (h, om, q)" by (metis prod_cases3)
  then have "MPID_Keyval_mem st' = om"
    using assms(1) by (auto simp: create_keyval_def set_keyval_def Let_def split: if_splits)
  then show ?thesis using alloc_sizes[OF al] assms(2,3) by (auto simp: few_keyvals_def split: if_splits)
qed

lemma live_keyval_mono:
  assumes "live_keyval st kv k" "keyvals_ok st'" "few_keyvals st'" "k \<in> klive st'" "handle_of (kheap st') k = handle_of (kheap st) k"
  shows "live_keyval st' kv k" "MPID_Keyval_get_ptr st' kv = k"
proof -
  have kv: "handle_of (kheap st') k = kv" "drop_bit 22 (kv AND 0x03c00000) = MPID_COMM"
    using assms(1,5) by (auto simp: live_keyval_def errtest_keyval_def split: if_splits)
  show "live_keyval st' kv k" using comm_keyval_live[OF assms(2,3,4)] kv by simp
  show "MPID_Keyval_get_ptr st' kv = k" using keyval_get_ptr[OF assms(2,4,3)] kv by simp
qed

lemma process_keys:
  assumes "process_rel P L H" "attr st' = attr (attrs P)" "attrs_ok st' (nodes L) (MPID_Keyval_get_ptr st' ` J)"
    "\<And>kv. kv \<in> J \<Longrightarrow> live_keyval st' kv (MPID_Keyval_get_ptr st' kv)" "klive st' = {} \<or> attr_dup_set st'"
    "\<And>k. k \<in> klive (attrs P) \<Longrightarrow> handle_of (kheap st') k = handle_of (kheap (attrs P)) k"
  shows "process_rel (P\<lparr>attrs := st'\<rparr>) L J" "attr_view (P\<lparr>attrs := st'\<rparr>) L = attr_view P L"
proof -
  note r = process_relD[OF assms(1)]
  show "process_rel (P\<lparr>attrs := st'\<rparr>) L J"
    using r(1) assms(3-5) by (simp add: process_rel_def lists_ok_def assms(2))
  have "pairs st' ms = pairs (attrs P) ms" if "L q = Some ms" for q ms
  proof (rule pairs_cong)
    fix n assume "n \<in> set ms"
    then have "n \<in> nodes L" using in_nodes[of L q ms, OF that] by auto
    then have "at_keyval (attr (attrs P) n) \<in> klive (attrs P)" using attrs_okD(7)[OF r(2)] by blast
    then show "akey st' n = akey (attrs P) n \<and> at_value (attr st' n) = at_value (attr (attrs P) n)"
      by (simp add: akey_def assms(2,6))
  qed
  then have "map_option (pairs st') (L q) = map_option (pairs (attrs P)) (L q)" for q by (cases "L q") auto
  then show "attr_view (P\<lparr>attrs := st'\<rparr>) L = attr_view P L" by (simp add: attr_view_def)
qed

lemma create_comm_keyval:
  assumes "process_rel P L H" "calloc_fresh ce (MPID_Keyval_mem (attrs P))"
    "om_direct_size (MPID_Keyval_mem (attrs P)) \<le> 2 ^ 22" "om_indirect_size (MPID_Keyval_mem (attrs P)) < 64"
  obtains (nomem) st' where "MPI_Comm_create_keyval ce (attrs P) c d x
        = (st', Inl (fn_fail ''**mpi_comm_create_keyval'' (new_error MPI_ERR_OTHER ''**nomem'')))"
      "process_rel (P\<lparr>attrs := st'\<rparr>) L H" "attr_view (P\<lparr>attrs := st'\<rparr>) L = attr_view P L"
  | (new) st' kv where "MPI_Comm_create_keyval ce (attrs P) c d x = (st', Inr kv)" "kv \<notin> H"
      "process_rel (P\<lparr>attrs := st'\<rparr>) L (insert kv H)" "attr_view (P\<lparr>attrs := st'\<rparr>) L = attr_view P L"
      "keyval st' (MPID_Keyval_get_ptr st' kv) = new_keyval MPID_COMM c d x"
proof -
  note r = process_relD[OF assms(1)]
  have o: "unat MPID_COMM < 2 ^ 4" by simp
  let ?old = "\<lambda>kv. MPID_Keyval_get_ptr (attrs P) kv"
  show thesis
  proof (cases rule: create_keyval_spec[OF r(2) assms(2) o, of "''**mpi_comm_create_keyval''" c d x])
    case (1 st')
    have few: "few_keyvals st'" using create_few[OF 1(1) assms(3,4)] by simp
    have keep: "live_keyval st' kv (?old kv) \<and> MPID_Keyval_get_ptr st' kv = ?old kv" if "kv \<in> H" for kv
      using live_keyval_mono[OF r(3)[OF that] attrs_okD(2)[OF 1(2)] few] r(3)[OF that] 1(4,6)
      by (simp add: live_keyval_def)
    then have im: "MPID_Keyval_get_ptr st' ` H = ?old ` H" by (auto simp: image_iff)
    have "klive st' = {} \<or> attr_dup_set st'"
    proof (cases "klive (attrs P) = {}")
      case False
      then have "attr_dup_set (attrs P)" using r(5) by simp
      then have "attr_dup_set st'" using 1(1) by (auto simp: create_keyval_def set_keyval_def Let_def split: if_splits prod.splits)
      then show ?thesis by simp
    qed (use 1 in simp)
    then have "process_rel (P\<lparr>attrs := st'\<rparr>) L H" "attr_view (P\<lparr>attrs := st'\<rparr>) L = attr_view P L"
      by (intro process_keys[where J = H, OF assms(1)]; use 1 keep im in simp)+
    then show thesis by (rule nomem[OF 1(1)[folded MPI_Comm_create_keyval_def]])
  next
    case (2 st' q)
    let ?kv = "handle_of (kheap st') q"
    have few: "few_keyvals st'" using create_few[OF 2(1) assms(3,4)] by simp
    note ok = attrs_okD(2)[OF 2(2)]
    have keep: "live_keyval st' kv (?old kv) \<and> MPID_Keyval_get_ptr st' kv = ?old kv \<and> ?old kv \<noteq> q" if "kv \<in> H" for kv
      using live_keyval_mono[OF r(3)[OF that] ok few] r(3)[OF that] 2(4,5,7) by (auto simp: live_keyval_def)
    have q: "live_keyval st' ?kv q" "MPID_Keyval_get_ptr st' ?kv = q"
      using comm_keyval_live[OF ok few, of q] keyval_get_ptr[OF ok _ few, of q] 2(5,8) by auto
    have fresh: "?kv \<notin> H" using keep q(2) by metis
    have im: "MPID_Keyval_get_ptr st' ` insert ?kv H = insert q (?old ` H)" using keep q(2) by (auto simp: image_iff)
    have "live_keyval st' kv (MPID_Keyval_get_ptr st' kv)" if "kv \<in> insert ?kv H" for kv
      using that keep q by auto
    then have "process_rel (P\<lparr>attrs := st'\<rparr>) L (insert ?kv H)" "attr_view (P\<lparr>attrs := st'\<rparr>) L = attr_view P L"
      using process_keys[where J = "insert ?kv H", OF assms(1) 2(3)] 2(2,7,9) im by (simp_all del: image_insert)
    then show thesis using new[OF 2(1)[folded MPI_Comm_create_keyval_def] fresh] 2(6) q(2) by simp
  qed
qed


text \<open>
  \<open>MPI_Comm_create_keyval\<close>, in a process with fewer than 64 blocks of keyvals, gives a handle no keyval in use has
  and that finds the new keyval again, or runs out of memory; the attributes stay.
\<close>

theorem MPI_Comm_create_keyval_correct:
  assumes "process_rel P L H" "calloc_fresh ce (MPID_Keyval_mem (attrs P))"
    "om_direct_size (MPID_Keyval_mem (attrs P)) \<le> 2 ^ 22" "om_indirect_size (MPID_Keyval_mem (attrs P)) < 64"
  shows "\<exists>st' res. MPI_Comm_create_keyval ce (attrs P) c d x = (st', res) \<and> attr_view (P\<lparr>attrs := st'\<rparr>) L = attr_view P L
    \<and> (case res of
         Inl er \<Rightarrow> er = fn_fail ''**mpi_comm_create_keyval'' (new_error MPI_ERR_OTHER ''**nomem'')
           \<and> process_rel (P\<lparr>attrs := st'\<rparr>) L H
       | Inr kv \<Rightarrow> kv \<notin> H \<and> process_rel (P\<lparr>attrs := st'\<rparr>) L (insert kv H)
           \<and> keyval st' (MPID_Keyval_get_ptr st' kv) = new_keyval MPID_COMM c d x)"
  by (cases rule: create_comm_keyval[OF assms, of c d x]) auto

text \<open>
  \<open>MPI_Comm_free_keyval\<close> takes the handle away; the keyval itself stays allocated as long as an attribute refers to
  it, and no attribute changes.
\<close>

theorem MPI_Comm_free_keyval_correct:
  assumes "process_rel P L H" "kv \<in> H"
  shows "\<exists>st'. MPI_Comm_free_keyval (attrs P) kv = (st', Inr MPI_KEYVAL_INVALID)
    \<and> process_rel (P\<lparr>attrs := st'\<rparr>) L (H - {kv}) \<and> attr_view (P\<lparr>attrs := st'\<rparr>) L = attr_view P L
    \<and> (\<forall>n \<in> nodes L. at_keyval (attr st' n) \<in> klive st')"
proof -
  note r = process_relD[OF assms(1)]
  let ?ptr = "MPID_Keyval_get_ptr (attrs P)"
  have inj: "?ptr x \<noteq> ?ptr kv" if "x \<in> H - {kv}" for x
    using r(3)[OF assms(2)] r(3)[of x] that by (auto simp: live_keyval_def)
  obtain st' where f: "MPI_Comm_free_keyval (attrs P) kv = (st', Inr MPI_KEYVAL_INVALID)"
    "attrs_ok st' (nodes L) (?ptr ` H - {?ptr kv})" "attr st' = attr (attrs P)"
    "handle_of (kheap st') = handle_of (kheap (attrs P))" "attr_dup_set st' = attr_dup_set (attrs P)"
    "klive st' \<subseteq> klive (attrs P)" "kstatic st' = kstatic (attrs P)"
    using free_keyval_spec[OF r(2) r(3)[OF assms(2)] imageI[OF assms(2)]] by (auto split: if_splits)
  note ptr = keyval_get_ptr_kstatic[OF f(7)]
  have im: "?ptr ` H - {?ptr kv} = ?ptr ` (H - {kv})" using inj by auto
  have "live_keyval st' x (?ptr x)" if "x \<in> H - {kv}" for x
  proof -
    have "?ptr x \<in> klive st'" using attrs_okD(4)[OF f(2)] that im by auto
    then show ?thesis using r(3)[of x] that by (simp add: live_keyval_def f(4) ptr)
  qed
  then have "process_rel (P\<lparr>attrs := st'\<rparr>) L (H - {kv})" "attr_view (P\<lparr>attrs := st'\<rparr>) L = attr_view P L"
    by (intro process_keys[where J = "H - {kv}", OF assms(1) f(3)]; use f r(5) in \<open>auto simp: ptr im\<close>)+
  then show ?thesis using f(1) attrs_okD(7)[OF f(2)] by blast
qed

end
