(* ===== verification/CartSpec.thy ===== *)
theory CartSpec
  imports Cart MpiAttrSpec
begin

text \<open>
  Ranks of a grid in row-major order: the loops of \<open>Cart\<close> compute a mixed radix number and its digits,
  and each is the inverse of the other.
\<close>

section \<open>Row-major order\<close>

fun rank_of :: "int list \<Rightarrow> int list \<Rightarrow> int" where
  "rank_of (d # ds) (x # xs) = x * prod_list ds + rank_of ds xs"
| "rank_of _ _ = 0"

fun coords_of :: "int list \<Rightarrow> int \<Rightarrow> int list" where
  "coords_of [] r = []"
| "coords_of (d # ds) r = r div prod_list ds # coords_of ds (r mod prod_list ds)"

definition in_grid :: "int list \<Rightarrow> int list \<Rightarrow> bool" where
  "in_grid ds xs \<longleftrightarrow> list_all2 (\<lambda>d x. 0 \<le> x \<and> x < d) ds xs"

lemma in_grid_simps [simp]:
  "in_grid [] xs \<longleftrightarrow> xs = []" "in_grid (d # ds) (x # xs) \<longleftrightarrow> 0 \<le> x \<and> x < d \<and> in_grid ds xs"
  "in_grid ds [] \<longleftrightarrow> ds = []"
  by (auto simp: in_grid_def)

lemma in_grid_length: "in_grid ds xs \<Longrightarrow> length xs = length ds"
  by (auto simp: in_grid_def dest: list_all2_lengthD)

lemma prod_dims_pos: "\<forall>d \<in> set ds. d > 0 \<Longrightarrow> prod_list ds > (0 :: int)"
  by (induction ds) auto

lemma rank_of_range:
  assumes "in_grid ds xs"
  shows "0 \<le> rank_of ds xs \<and> rank_of ds xs < prod_list ds"
  using assms
proof (induction ds xs rule: rank_of.induct)
  case (1 d ds x xs)
  then have r: "0 \<le> rank_of ds xs" "rank_of ds xs < prod_list ds" by auto
  then have "x * prod_list ds + prod_list ds \<le> d * prod_list ds"
    using 1 by (metis add.commute distrib_right in_grid_simps(2) linorder_not_less mult.commute mult_1
        mult_right_mono order_le_less_trans zless_imp_add1_zle less_imp_le)
  with r show ?case using 1 by auto
qed auto

lemma int_div_less:
  assumes "(p :: int) > 0" "r < d * p"
  shows "r div p < d"
proof (rule ccontr)
  assume "\<not> r div p < d"
  then have "d * p \<le> r div p * p" using assms(1) by simp
  also have "\<dots> \<le> r" using pos_mod_sign[OF assms(1), of r] div_mult_mod_eq[of r p] by linarith
  finally show False using assms(2) by simp
qed

lemma coords_of_in_grid:
  assumes "\<forall>d \<in> set ds. d > 0" "0 \<le> r" "r < prod_list ds"
  shows "in_grid ds (coords_of ds r)"
  using assms
proof (induction ds arbitrary: r)
  case (Cons d ds)
  then have p: "prod_list ds > 0" by (simp add: prod_dims_pos)
  then have "r div prod_list ds < d" using Cons.prems int_div_less[OF p] by simp
  then show ?case using Cons p by (simp add: pos_imp_zdiv_nonneg_iff)
qed simp

lemma rank_of_coords_of:
  assumes "\<forall>d \<in> set ds. d > 0" "0 \<le> r" "r < prod_list ds"
  shows "rank_of ds (coords_of ds r) = r"
  using assms
proof (induction ds arbitrary: r)
  case (Cons d ds)
  then have "prod_list ds > 0" by (simp add: prod_dims_pos)
  then show ?case using Cons by simp
qed simp

lemma coords_of_rank_of:
  assumes "in_grid ds xs"
  shows "coords_of ds (rank_of ds xs) = xs"
  using assms
proof (induction ds xs rule: rank_of.induct)
  case (1 d ds x xs)
  then have "0 \<le> rank_of ds xs" "rank_of ds xs < prod_list ds" using rank_of_range by auto
  then show ?case using 1 by (simp add: mult.commute)
qed auto

lemma rank_of_inj:
  assumes "in_grid ds xs" "in_grid ds ys" "rank_of ds xs = rank_of ds ys"
  shows "xs = ys"
  using coords_of_rank_of[OF assms(1)] coords_of_rank_of[OF assms(2)] assms(3) by metis

section \<open>The loops\<close>

lemma position_loop_eq:
  assumes "\<forall>d \<in> set ds. d > 0" "0 \<le> r"
  shows "position_loop (prod_list ds) r ds = Some (coords_of ds r)"
  using assms
proof (induction ds arbitrary: r)
  case (Cons d ds)
  then have p: "prod_list ds > 0" "d > 0" by (simp_all add: prod_dims_pos)
  then have "(d * prod_list ds) sdiv d = prod_list ds" by (simp add: sdiv_pos)
  then show ?case using Cons p by (simp add: sdiv_pos smod_pos)
qed simp

text \<open>What a periodic dimension does is the remainder that is not negative.\<close>

lemma wrap_coord_mod:
  assumes "d > 0"
  shows "wrap_coord True d x = x mod d"
proof (cases "x < 0")
  case True
  have s: "x smod d = - ((- x) mod d)"
    using True assms by (simp add: signed_modulo_int_def)
  show ?thesis
  proof (cases "(- x) mod d = 0")
    case True
    then have "x mod d = 0" by (metis dvd_minus_iff dvd_imp_mod_0 mod_0_imp_dvd)
    then show ?thesis using True \<open>x < 0\<close> assms s by (simp add: wrap_coord_def)
  next
    case False
    then have "x mod d = d - (- x) mod d" using zmod_zminus1_eq_if[of "- x" d] by simp
    then show ?thesis using False \<open>x < 0\<close> assms s by (simp add: wrap_coord_def)
  qed
next
  case False
  then show ?thesis using assms by (simp add: wrap_coord_def smod_pos)
qed

definition wrap :: "MPIR_Cart_topology \<Rightarrow> int list \<Rightarrow> int list" where
  "wrap c xs = map (\<lambda>i. if ct_periodic c ! i then xs ! i mod ct_dims c ! i else xs ! i) [0..<length (ct_dims c)]"

text \<open>A grid as the routines make it.\<close>

definition cart_ok :: "MPIR_Cart_topology \<Rightarrow> bool" where
  "cart_ok c \<longleftrightarrow> ct_ndims c = int (length (ct_dims c)) \<and> length (ct_periodic c) = length (ct_dims c)
     \<and> length (ct_position c) = length (ct_dims c)
     \<and> (\<forall>d \<in> set (ct_dims c). d > 0) \<and> ct_nnodes c = prod_list (ct_dims c)"

lemma rank_of_drop:
  assumes "Suc i \<le> length ds" "length xs = length ds"
  shows "rank_of (drop i ds) (drop i xs) = xs ! i * prod_list (drop (Suc i) ds) + rank_of (drop (Suc i) ds) (drop (Suc i) xs)"
    "prod_list (drop i ds) = ds ! i * prod_list (drop (Suc i) ds)"
proof -
  have "drop i ds = ds ! i # drop (Suc i) ds" "drop i xs = xs ! i # drop (Suc i) xs"
    using assms by (simp_all add: Cons_nth_drop_Suc)
  then show "rank_of (drop i ds) (drop i xs) = xs ! i * prod_list (drop (Suc i) ds) + rank_of (drop (Suc i) ds) (drop (Suc i) xs)"
    "prod_list (drop i ds) = ds ! i * prod_list (drop (Suc i) ds)" by simp_all
qed

lemma cart_rank_loop_eq:
  assumes "cart_ok c" "n \<le> length (ct_dims c)"
  shows "cart_rank_loop c xs n (rank_of (drop n (ct_dims c)) (drop n (wrap c xs))) (prod_list (drop n (ct_dims c)))
    = rank_of (ct_dims c) (wrap c xs)"
  using assms(2)
proof (induction n)
  case (Suc n)
  let ?ds = "ct_dims c" and ?ys = "wrap c xs"
  have l: "length ?ys = length ?ds" by (simp add: wrap_def)
  have "?ds ! n > 0" using assms(1) Suc.prems by (simp add: cart_ok_def)
  then have w: "wrap_coord (ct_periodic c ! n) (?ds ! n) (xs ! n) = ?ys ! n"
    using Suc.prems wrap_coord_mod[of "?ds ! n" "xs ! n"] by (simp add: wrap_def) (simp add: wrap_coord_def)
  show ?case using Suc rank_of_drop[OF Suc.prems l] by (simp add: w mult.commute add.commute)
qed simp

lemma cart_rank_loop_rank_of:
  assumes "cart_ok c"
  shows "cart_rank_loop c xs (nat (ct_ndims c)) 0 1 = rank_of (ct_dims c) (wrap c xs)"
proof -
  have n: "nat (ct_ndims c) = length (ct_dims c)" using assms by (simp add: cart_ok_def)
  then show ?thesis using cart_rank_loop_eq[OF assms, of "length (ct_dims c)" xs] by simp
qed

lemma wrap_in_grid:
  assumes "cart_ok c" "\<not> coords_invalid c xs"
  shows "in_grid (ct_dims c) (wrap c xs)"
proof -
  have "0 \<le> xs ! i \<and> xs ! i < ct_dims c ! i" if "i < length (ct_dims c)" "\<not> ct_periodic c ! i" for i
    using assms that unfolding coords_invalid_def cart_ok_def by (metis nat_int not_less)
  then show ?thesis using assms(1) unfolding in_grid_def list_all2_conv_all_nth by (auto simp: wrap_def cart_ok_def)
qed

lemma wrap_same:
  assumes "in_grid (ct_dims c) xs"
  shows "wrap c xs = xs"
  using assms in_grid_length[OF assms]
  by (intro nth_equalityI) (auto simp: wrap_def in_grid_def list_all2_conv_all_nth)

lemma in_grid_valid: "cart_ok c \<Longrightarrow> in_grid (ct_dims c) xs \<Longrightarrow> \<not> coords_invalid c xs"
  by (auto simp: coords_invalid_def cart_ok_def in_grid_def list_all2_conv_all_nth not_less not_le)

end
