(* ===== verification/CartQuery.thy ===== *)
theory CartQuery
  imports CartSpec
begin

text \<open>
  What the queries on a grid answer: ranks and coordinates are inverse to each other, and a shift gives
  two processes that agree on who sends to whom.
\<close>

section \<open>A communicator with a grid\<close>

text \<open>The grid is the communicator's and the caller stands where its rank says.\<close>

definition cart_of :: "'v topo_user process_env \<Rightarrow> 'v topo_user process \<Rightarrow> handle \<Rightarrow> nat \<Rightarrow> MPIR_Cart_topology \<Rightarrow> bool" where
  "cart_of e P comm p c \<longleftrightarrow> get_comm (comms P) comm = Inr p \<and> topology_of e P p = Some (Some (MPI_CART c)) \<and> cart_ok c
     \<and> cm_remote_size (body (comms P) p) = ct_nnodes c
     \<and> in_grid (ct_dims c) (ct_position c) \<and> cm_rank (body (comms P) p) = rank_of (ct_dims c) (ct_position c)"

lemma cart_ofD:
  assumes "cart_of e P comm p c"
  shows "get_comm (comms P) comm = Inr p" "comm_cart msg e P comm = Some (Inr (p, c))" "get_cart msg e P p = Some (Inr c)"
    "cart_ok c" "ct_ndims c = int (length (ct_dims c))" "cm_remote_size (body (comms P) p) = ct_nnodes c"
    "in_grid (ct_dims c) (ct_position c)" "cm_rank (body (comms P) p) = rank_of (ct_dims c) (ct_position c)"
    "errtest_comm comm = None" "MPID_Comm_get_ptr (comms P) comm = p" "MPID_Comm_valid_ptr (comms P) p = None"
  using assms by (auto simp: cart_of_def comm_cart_def get_cart_def cart_ok_def get_comm_def Let_def split: option.splits)

lemma cart_rank_value:
  assumes "cart_of e P comm p c" "length xs = length (ct_dims c)"
  shows "MPI_Cart_rank e P comm xs = Some
    (if coords_invalid c xs then Inl (fn_fail ''**mpi_cart_rank'' (new_error MPI_ERR_ARG ''**cartcoordinvalid''))
     else Inr (rank_of (ct_dims c) (wrap c xs)))"
  using cart_ofD[OF assms(1)] assms(2) cart_rank_loop_rank_of[of c xs] by (simp add: MPI_Cart_rank_def)

text \<open>
  C6: \<open>MPI_Cart_rank\<close> refuses exactly the coordinates that leave the grid in a dimension that is not periodic; for
  the others it gives the rank, in row-major order, of the coordinates taken modulo the periodic dimensions,
  which is the rank of a process of the grid.
\<close>

theorem MPI_Cart_rank_correct:
  assumes "cart_of e P comm p c" "length xs = length (ct_dims c)"
  shows "MPI_Cart_rank e P comm xs = Some
      (if coords_invalid c xs then Inl (fn_fail ''**mpi_cart_rank'' (new_error MPI_ERR_ARG ''**cartcoordinvalid''))
       else Inr (rank_of (ct_dims c) (wrap c xs)))
    \<and> (\<not> coords_invalid c xs \<longrightarrow> in_grid (ct_dims c) (wrap c xs)
         \<and> 0 \<le> rank_of (ct_dims c) (wrap c xs) \<and> rank_of (ct_dims c) (wrap c xs) < cm_remote_size (body (comms P) p))"
  using cart_rank_value[OF assms] cart_ofD[OF assms(1)] wrap_in_grid[of c xs] rank_of_range[of "ct_dims c" "wrap c xs"]
  by (auto simp: cart_ok_def)

text \<open>
  C3: For every rank of the grid \<open>MPI_Cart_coords\<close> gives coordinates in the grid, from which \<open>MPI_Cart_rank\<close> gives the
  rank back, and no other coordinates in the grid have that rank.
\<close>

theorem MPI_Cart_coords_rank_roundtrip:
  assumes "cart_of e P comm p c" "0 \<le> r" "r < cm_remote_size (body (comms P) p)" "ct_ndims c \<le> maxdims"
  shows "\<exists>xs. MPI_Cart_coords e P comm r maxdims = Some (Inr xs) \<and> in_grid (ct_dims c) xs
    \<and> MPI_Cart_rank e P comm xs = Some (Inr r)
    \<and> (\<forall>ys. in_grid (ct_dims c) ys \<and> MPI_Cart_rank e P comm ys = Some (Inr r) \<longrightarrow> ys = xs)"
proof -
  note c = cart_ofD[OF assms(1)]
  let ?xs = "coords_of (ct_dims c) r"
  have d: "\<forall>d \<in> set (ct_dims c). d > 0" "ct_nnodes c = prod_list (ct_dims c)" "r < prod_list (ct_dims c)"
    using c(4,6) assms(3) by (simp_all add: cart_ok_def)
  note g = coords_of_in_grid[OF d(1) assms(2) d(3)] and r = rank_of_coords_of[OF d(1) assms(2) d(3)]
  have rank: "MPI_Cart_rank e P comm ys = Some (Inr (rank_of (ct_dims c) ys))" if "in_grid (ct_dims c) ys" for ys
    using cart_rank_value[OF assms(1) in_grid_length[OF that]] in_grid_valid[OF c(4) that] wrap_same[OF that] by simp
  have "MPI_Cart_coords e P comm r maxdims = Some (Inr ?xs)"
    using c assms(2-4) position_loop_eq[OF d(1) assms(2)] d(2) by (simp add: MPI_Cart_coords_def)
  moreover have "ys = ?xs" if "in_grid (ct_dims c) ys" "rank_of (ct_dims c) ys = r" for ys
    using rank_of_inj[OF that(1) g] that(2) r by simp
  moreover have "MPI_Cart_rank e P comm ?xs = Some (Inr r)" unfolding rank[OF g] r ..
  moreover have "rank_of (ct_dims c) ys = r" if "in_grid (ct_dims c) ys" "MPI_Cart_rank e P comm ys = Some (Inr r)" for ys
    using that(2) rank[OF that(1)] by simp
  ultimately show ?thesis using g by blast
qed

section \<open>Shifts\<close>

text \<open>The process \<open>displ\<close> steps along a dimension.\<close>

definition neighbour :: "MPIR_Cart_topology \<Rightarrow> nat \<Rightarrow> int \<Rightarrow> int" where
  "neighbour c dir displ =
     (let x = ct_position c ! dir + displ; d = ct_dims c ! dir in
      if \<not> ct_periodic c ! dir \<and> (x \<ge> d \<or> x < 0) then MPI_PROC_NULL
      else rank_of (ct_dims c) ((ct_position c)[dir := if ct_periodic c ! dir then x mod d else x]))"

lemma wrap_shift:
  assumes "in_grid (ct_dims c) pos" "dir < length (ct_dims c)"
  shows "wrap c (pos[dir := y]) = pos[dir := if ct_periodic c ! dir then y mod ct_dims c ! dir else y]"
proof -
  have "pos ! i mod ct_dims c ! i = pos ! i" if "i < length (ct_dims c)" for i
    using assms(1) that by (simp add: in_grid_def list_all2_conv_all_nth)
  then show ?thesis using assms(2) in_grid_length[OF assms(1)]
    by (intro nth_equalityI) (auto simp: wrap_def nth_list_update)
qed

lemma in_grid_upd:
  assumes "in_grid ds xs" "i < length ds" "0 \<le> y" "y < ds ! i"
  shows "in_grid ds (xs[i := y])"
  using assms by (auto simp: in_grid_def list_all2_conv_all_nth nth_list_update)

lemma invalid_shift:
  assumes "cart_ok c" "in_grid (ct_dims c) pos" "dir < length (ct_dims c)"
  shows "coords_invalid c (pos[dir := y]) \<longleftrightarrow> \<not> ct_periodic c ! dir \<and> (y < 0 \<or> y \<ge> ct_dims c ! dir)"
proof -
  have n: "nat (ct_ndims c) = length (ct_dims c)" using assms(1) by (simp add: cart_ok_def)
  have b: "\<not> pos ! i < 0 \<and> \<not> ct_dims c ! i \<le> pos ! i" if "i < length (ct_dims c)" for i
    using assms(2) that by (simp add: in_grid_def list_all2_conv_all_nth not_less not_le)
  have l: "length pos = length (ct_dims c)" using in_grid_length[OF assms(2)] .
  show ?thesis unfolding coords_invalid_def n
  proof
    assume "\<exists>i<length (ct_dims c). \<not> ct_periodic c ! i \<and> (pos[dir := y] ! i < 0 \<or> ct_dims c ! i \<le> pos[dir := y] ! i)"
    then obtain i where i: "i < length (ct_dims c)" "\<not> ct_periodic c ! i"
      "pos[dir := y] ! i < 0 \<or> ct_dims c ! i \<le> pos[dir := y] ! i" by blast
    then have "i = dir" using b[of i] by (cases "i = dir") auto
    then show "\<not> ct_periodic c ! dir \<and> (y < 0 \<or> ct_dims c ! dir \<le> y)" using i l by simp
  next
    assume "\<not> ct_periodic c ! dir \<and> (y < 0 \<or> ct_dims c ! dir \<le> y)"
    then show "\<exists>i<length (ct_dims c). \<not> ct_periodic c ! i \<and> (pos[dir := y] ! i < 0 \<or> ct_dims c ! i \<le> pos[dir := y] ! i)"
      using assms(3) l by (intro exI[of _ dir]) simp
  qed
qed

lemma shift_end_eq:
  assumes "cart_of e P comm p c" "dir < length (ct_dims c)" "int_ok (ct_position c ! dir + displ)"
  shows "shift_end e P comm c dir displ = Some (neighbour c dir displ)"
proof -
  note c = cart_ofD[OF assms(1)]
  have l: "length (ct_position c) = length (ct_dims c)" using c(7) in_grid_length by blast
  have "take (nat (ct_ndims c)) (ct_position c) = ct_position c" using c(5) l by simp
  then show ?thesis
    using assms(2,3) l cart_rank_value[OF assms(1), of "(ct_position c)[dir := ct_position c ! dir + displ]"]
      invalid_shift[OF c(4,7) assms(2)] wrap_shift[OF c(7) assms(2)]
    by (auto simp: shift_end_def neighbour_def Let_def)
qed

lemma position_bounds:
  assumes "in_grid (ct_dims c) (ct_position c)" "dir < length (ct_dims c)"
  shows "0 \<le> ct_position c ! dir" "ct_position c ! dir < ct_dims c ! dir"
  using assms by (auto simp: in_grid_def list_all2_conv_all_nth)

lemma neighbour_zero:
  assumes "in_grid (ct_dims c) (ct_position c)" "dir < length (ct_dims c)"
  shows "neighbour c dir 0 = rank_of (ct_dims c) (ct_position c)"
  using position_bounds[OF assms] by (simp add: neighbour_def Let_def)

lemma cart_shift_value:
  assumes "cart_of e P comm p c" "dir < length (ct_dims c)" "ct_ndims c \<le> MAX_CART_DIM"
    "\<bar>displ\<bar> + ct_dims c ! dir < 2 ^ 31"
  shows "MPI_Cart_shift e P comm (int dir) displ = Some (Inr (neighbour c dir (- displ), neighbour c dir displ))"
proof -
  note c = cart_ofD[OF assms(1)]
  note b = position_bounds[OF c(7) assms(2)]
  have "int_ok (ct_position c ! dir + displ)" "int_ok (ct_position c ! dir + - displ)"
    using b assms(4) by (auto simp: int_ok_def)
  then have e: "shift_end e P comm c dir displ = Some (neighbour c dir displ)"
    "shift_end e P comm c dir (- displ) = Some (neighbour c dir (- displ))"
    using shift_end_eq[OF assms(1,2)] by blast+
  have l: "last_of [None, None :: mpi_err option] = None" by simp
  show ?thesis
    using c(5,8-11) c(3)[of "''**mpi_cart_shift''"] assms(2,3) e neighbour_zero[OF c(7) assms(2)]
    by (simp add: MPI_Cart_shift_def Let_def l)
qed

text \<open>
  C7: \<open>MPI_Cart_shift\<close> gives the processes \<open>displ\<close> steps back and ahead along the dimension, around the edge when it
  is periodic and \<open>MPI_PROC_NULL\<close> beyond it when not; in grids of at most 16 dimensions, which the array in the
  routine has room for, and with displacements that do not overflow.
\<close>

theorem MPI_Cart_shift_correct:
  assumes "cart_of e P comm p c" "dir < length (ct_dims c)" "ct_ndims c \<le> MAX_CART_DIM"
    "\<bar>displ\<bar> + ct_dims c ! dir < 2 ^ 31"
  shows "MPI_Cart_shift e P comm (int dir) displ = Some (Inr (neighbour c dir (- displ), neighbour c dir displ))"
  by (rule cart_shift_value[OF assms])

lemma neighbour_position:
  assumes "cart_ok c" "in_grid (ct_dims c) (ct_position c)" "dir < length (ct_dims c)" "neighbour c dir displ \<noteq> MPI_PROC_NULL"
  defines "x \<equiv> ct_position c ! dir + displ" and "d \<equiv> ct_dims c ! dir"
  defines "y \<equiv> if ct_periodic c ! dir then x mod d else x"
  shows "in_grid (ct_dims c) ((ct_position c)[dir := y])" "neighbour c dir displ = rank_of (ct_dims c) ((ct_position c)[dir := y])"
    "0 \<le> y \<and> y < d"
proof -
  have "d > 0" using assms(1,3) by (simp add: cart_ok_def d_def)
  show n: "neighbour c dir displ = rank_of (ct_dims c) ((ct_position c)[dir := y])"
    using assms(4) by (auto simp: neighbour_def Let_def x_def d_def y_def split: if_splits)
  show y: "0 \<le> y \<and> y < d"
    using assms(4) \<open>d > 0\<close> by (auto simp: neighbour_def Let_def x_def d_def y_def split: if_splits)
  show "in_grid (ct_dims c) ((ct_position c)[dir := y])"
    by (rule in_grid_upd[OF assms(2,3)]) (use y in \<open>simp_all add: d_def\<close>)
qed

text \<open>
  C8: The shifts of two processes fit together: if the shift of one names the other as its destination, then
  the same shift in the other names the one as its source. The bounds are those of the shift.
\<close>

theorem MPI_Cart_shift_matches:
  assumes "cart_of e P comm p c" "cart_of e' P' comm' p' c'" "ct_dims c' = ct_dims c" "ct_periodic c' = ct_periodic c"
    "dir < length (ct_dims c)" "ct_ndims c \<le> MAX_CART_DIM" "\<bar>displ\<bar> + ct_dims c ! dir < 2 ^ 31"
    "MPI_Cart_shift e P comm (int dir) displ = Some (Inr (source, dest))" "dest \<noteq> MPI_PROC_NULL"
    "cm_rank (body (comms P') p') = dest"
  shows "\<exists>dest'. MPI_Cart_shift e' P' comm' (int dir) displ = Some (Inr (cm_rank (body (comms P) p), dest'))"
proof -
  note c = cart_ofD[OF assms(1)] and c' = cart_ofD[OF assms(2)]
  let ?x = "ct_position c ! dir" and ?d = "ct_dims c ! dir"
  let ?y = "if ct_periodic c ! dir then (?x + displ) mod ?d else ?x + displ"
  have dest: "dest = neighbour c dir displ" using cart_shift_value[OF assms(1,5-7)] assms(8) by simp
  note y = neighbour_position[OF c(4,7) assms(5) assms(9)[unfolded dest]]
  have pos: "ct_position c' = (ct_position c)[dir := ?y]"
    using rank_of_inj[of "ct_dims c" "ct_position c'" "(ct_position c)[dir := ?y]"] c'(7,8) y(1,2) assms(3,10) dest by simp
  have l: "dir < length (ct_position c)" using assms(5) c(7) in_grid_length by metis
  note b = position_bounds[OF c(7) assms(5)]
  have "neighbour c' dir (- displ) = rank_of (ct_dims c) (ct_position c)"
  proof (cases "ct_periodic c ! dir")
    case True
    have "((?x + displ) mod ?d - displ) mod ?d = ?x"
      using b by (simp add: mod_diff_left_eq)
    then show ?thesis using True l pos by (simp add: neighbour_def Let_def assms(3,4))
  next
    case False
    then show ?thesis using l b pos by (simp add: neighbour_def Let_def assms(3,4))
  qed
  moreover have "ct_ndims c' \<le> MAX_CART_DIM" using assms(3,6) c(5) c'(5) by simp
  ultimately show ?thesis
    using cart_shift_value[OF assms(2), of dir displ] assms(3,5,7) c(8) by simp
qed

end
