(* ===== verification/TopoSpec.thy ===== *)
theory TopoSpec
  imports Topo MpiAttrSpec
begin

text \<open>
  Putting a topology on a new communicator and finding it again: the attribute's list gets the pair of
  the library's keyval and the address of the structure, and nothing else changes.
\<close>

section \<open>Handles of communicators in use\<close>

lemma get_comm_of_live:
  assumes "comm_state_ok st" "q \<in> pool_live (cpool st)" "cm_ref_count (body st q) \<noteq> 0"
  shows "get_comm st (handle_of (cheap st) q) = Inr q"
proof -
  let ?h = "handle_of (cheap st) q"
  note g = get_ptr_of_new[OF assms(1,2)]
  obtain fs where inv: "pool_inv (cheap st) (MPID_Comm_mem st) fs" "om_kind (MPID_Comm_mem st) = MPID_COMM"
    using assms(1) by (auto simp: comm_state_ok_def pool_ok_def cpool_def)
  have "q \<in> set (pool_objs (MPID_Comm_mem st))" using assms(2) by (simp add: pool_live_def cpool_def)
  note h = get_ptr_handle[OF inv(1) this]
  have q: "q \<noteq> 0" using hm.null_not_live[of "cpool st"] assms(1,2) unfolding comm_state_ok_def by metis
  then have "HANDLE_GET_MPI_KIND ?h = MPID_COMM" "HANDLE_GET_KIND ?h \<noteq> HANDLE_KIND_INVALID"
    using h inv(2) by (auto simp: MPID_Get_ptr_def)
  then have "errtest_comm ?h = None" using g(2) by (simp add: errtest_comm_def)
  then show ?thesis using g(1) q assms(3) by (simp add: get_comm_def MPID_Comm_valid_ptr_def Let_def)
qed

definition nomem_error :: "mpi_err \<Rightarrow> bool" where
  "nomem_error er \<longleftrightarrow> {''**nomem'', ''**nomem2''} \<inter> set (err_msgs er) \<noteq> {}"

lemma nomem_error_simps [simp]:
  "nomem_error (new_error cls ''**nomem'')" "nomem_error (new_error cls ''**nomem2'')"
  "nomem_error er \<Longrightarrow> nomem_error (fn_fail msg er)"
  by (auto simp: nomem_error_def create_code_def fn_fail_def)

section \<open>The keyval of topologies\<close>

definition topo_keyval_ok :: "'v topo_user process \<Rightarrow> handle set \<Rightarrow> bool" where
  "topo_keyval_ok P H \<longleftrightarrow>
     (let kv = MPIR_Topology_keyval (user (attrs P)) in
      kv = MPI_KEYVAL_INVALID \<or> kv \<in> H \<and> (\<exists>n. keyval (attrs P) (MPID_Keyval_get_ptr (attrs P) kv)
        = (new_keyval MPID_COMM TOPO_FN TOPO_FN 0)\<lparr>kv_ref_count := n\<rparr>))"

definition topo_rel :: "'v topo_user process \<Rightarrow> (nat \<rightharpoonup> nat list) \<Rightarrow> handle set \<Rightarrow> bool" where
  "topo_rel P L H \<longleftrightarrow> process_rel P L H \<and> topo_keyval_ok P H"

lemma keyval_invalid: "process_rel P L H \<Longrightarrow> MPI_KEYVAL_INVALID \<notin> H"
  by (auto simp: process_rel_def live_keyval_def errtest_keyval_def)

lemma topology_lookup:
  assumes "topo_rel P L H" "get_comm (comms P) (handle_of (cheap (comms P)) p) = Inr p" "L p = Some ns"
    "MPIR_Topology_keyval (user (attrs P)) \<noteq> MPI_KEYVAL_INVALID"
  shows "MPIR_Topology_get e P p
    = Some (case map_of (pairs (attrs P) ns) (MPIR_Topology_keyval (user (attrs P))) of None \<Rightarrow> 0 | Some v \<Rightarrow> nat v)"
proof -
  have r: "process_rel P L H" "MPIR_Topology_keyval (user (attrs P)) \<in> H"
    using assms(1,4) by (auto simp: topo_rel_def topo_keyval_ok_def Let_def)
  show ?thesis using get_attr_value[OF r(1) assms(2,3) r(2), of e] assms(4)
    by (simp add: MPIR_Topology_get_def split: option.splits)
qed

text \<open>The state of the user's functions is not an attribute matter.\<close>

lemma process_user:
  "process_rel (P\<lparr>attrs := (attrs P)\<lparr>user := u\<rparr>\<rparr>) L H = process_rel P L H"
  "attr_view (P\<lparr>attrs := (attrs P)\<lparr>user := u\<rparr>\<rparr>) L = attr_view P L"
proof -
  have k: "MPID_Keyval_get_ptr ((attrs P)\<lparr>user := u\<rparr>) = MPID_Keyval_get_ptr (attrs P)"
    by (rule keyval_get_ptr_kstatic) simp
  show "process_rel (P\<lparr>attrs := (attrs P)\<lparr>user := u\<rparr>\<rparr>) L H = process_rel P L H"
    by (simp add: process_rel_def lists_ok_def k live_keyval_def)
  have "pairs ((attrs P)\<lparr>user := u\<rparr>) = pairs (attrs P)" by (simp add: fun_eq_iff)
  then show "attr_view (P\<lparr>attrs := (attrs P)\<lparr>user := u\<rparr>\<rparr>) L = attr_view P L" by (simp add: attr_view_def)
qed

lemma upd_topologies_simps [simp]:
  "comms (upd_topologies f P) = comms P" "user (attrs (upd_topologies f P)) = (user (attrs P))\<lparr>topologies := f (topologies (user (attrs P)))\<rparr>"
  "MPID_Attr_mem (attrs (upd_topologies f P)) = MPID_Attr_mem (attrs P)"
  "MPID_Keyval_mem (attrs (upd_topologies f P)) = MPID_Keyval_mem (attrs P)"
  by (simp_all add: upd_topologies_def)

lemma topo_rel_upd [simp]:
  "topo_rel (upd_topologies f P) L H = topo_rel P L H" "attr_view (upd_topologies f P) L = attr_view P L"
proof -
  note u = process_user[where P = P and u = "(user (attrs P))\<lparr>topologies := f (topologies (user (attrs P)))\<rparr>"]
  have k: "MPID_Keyval_get_ptr (attrs (upd_topologies f P)) = MPID_Keyval_get_ptr (attrs P)"
    by (rule keyval_get_ptr_kstatic) (simp add: upd_topologies_def)
  show "topo_rel (upd_topologies f P) L H = topo_rel P L H"
    unfolding topo_rel_def topo_keyval_ok_def k using u(1) by (simp add: upd_topologies_def)
  show "attr_view (upd_topologies f P) L = attr_view P L" using u(2) by (simp add: upd_topologies_def)
qed

section \<open>Putting a topology\<close>

lemma attr_set_new:
  assumes "attr_set e ce obj kp v 0 st = Some (st', head, er)"
  shows "user st' = user st \<and> (\<forall>k. \<exists>n. keyval st' k = (keyval st k)\<lparr>kv_ref_count := n\<rparr>) \<and> kstatic st' = kstatic st
    \<and> (er = None \<or> er = Some (new_error MPI_ERR_OTHER ''**nomem''))"
proof -
  have s: "set_search st (handle_of (kheap st) kp) 0 0 = Some (AtEnd 0)" by (simp add: set_search.simps)
  have upd: "\<exists>n. b = b\<lparr>kv_ref_count := n\<rparr>" for b :: keyval_body by (rule exI[of _ "kv_ref_count b"]) simp
  obtain st1 q where n: "new_attr ce kp v 0 st = (st1, q)" by fastforce
  then have "user st1 = user st \<and> (\<forall>k. \<exists>n. keyval st1 k = (keyval st k)\<lparr>kv_ref_count := n\<rparr>) \<and> kstatic st1 = kstatic st"
    using upd by (auto simp: kstatic_def new_attr_def keyval_add_ref_def Let_def split: prod.splits if_splits)
  moreover have "st' = st1" "er = None \<or> er = Some (new_error MPI_ERR_OTHER ''**nomem'')"
    using assms n by (auto simp: attr_set_def s link_attr_def split: if_splits)
  ultimately show ?thesis by simp
qed

text \<open>
  The keyval is made the first time. It can run out of memory; no list changes then, and neither do the
  structures and the state of the user's functions.
\<close>

definition keyval_room :: "'v topo_user process_env \<Rightarrow> 'v topo_user process \<Rightarrow> bool" where
  "keyval_room e P \<longleftrightarrow> (let om = MPID_Keyval_mem (attrs P) in
     calloc_fresh (pe_calloc e 0 om) om \<and> om_direct_size om \<le> 2 ^ 22 \<and> om_indirect_size om < 64)"

lemma topology_keyval_step:
  assumes "topo_rel P L H" "keyval_room e P"
  obtains (nomem) P' er where "topology_keyval e P = (P', Some er)" "nomem_error er" "topo_rel P' L H" "attr_view P' L = attr_view P L"
      "comms P' = comms P" "user (attrs P') = user (attrs P)"
  | (there) P' H' where "topology_keyval e P = (P', None)" "topo_rel P' L H'" "H \<subseteq> H'" "attr_view P' L = attr_view P L"
      "comms P' = comms P" "MPIR_Topology_keyval (user (attrs P')) \<in> H'"
      "topologies (user (attrs P')) = topologies (user (attrs P))" "other (user (attrs P')) = other (user (attrs P))"
      "MPID_Attr_mem (attrs P') = MPID_Attr_mem (attrs P)"
proof (cases "MPIR_Topology_keyval (user (attrs P)) = MPI_KEYVAL_INVALID")
  case False
  then show thesis using assms(1) there[of P H] by (auto simp: topology_keyval_def topo_rel_def topo_keyval_ok_def Let_def)
next
  case True
  have rel: "process_rel P L H" using assms(1) by (simp add: topo_rel_def)
  have room: "calloc_fresh (pe_calloc e 0 (MPID_Keyval_mem (attrs P))) (MPID_Keyval_mem (attrs P))"
    "om_direct_size (MPID_Keyval_mem (attrs P)) \<le> 2 ^ 22" "om_indirect_size (MPID_Keyval_mem (attrs P)) < 64"
    using assms(2) by (simp_all add: keyval_room_def Let_def)
  have frame: "user st' = user (attrs P) \<and> MPID_Attr_mem st' = MPID_Attr_mem (attrs P)"
    if "MPI_Comm_create_keyval ce (attrs P) c d x = (st', r)" for ce c d x st' r
    using that by (auto simp: MPI_Comm_create_keyval_def create_keyval_def Let_def split: prod.splits if_splits)
  show thesis
  proof (cases rule: create_comm_keyval[OF rel room, of TOPO_FN TOPO_FN 0])
    case (1 st')
    then show thesis using nomem[of "P\<lparr>attrs := st'\<rparr>"] True frame[OF 1(1)]
      by (simp add: topology_keyval_def topo_rel_def topo_keyval_ok_def)
  next
    case (2 st' kv)
    let ?u = "(user st')\<lparr>MPIR_Topology_keyval := kv\<rparr>"
    let ?P = "P\<lparr>attrs := st'\<lparr>user := ?u\<rparr>\<rparr>"
    note u = process_user[where P = "P\<lparr>attrs := st'\<rparr>" and u = ?u, simplified]
    have k: "MPID_Keyval_get_ptr (st'\<lparr>user := ?u\<rparr>) = MPID_Keyval_get_ptr st'" by (rule keyval_get_ptr_kstatic) simp
    have "\<exists>n. new_keyval MPID_COMM TOPO_FN TOPO_FN 0 = (new_keyval MPID_COMM TOPO_FN TOPO_FN 0)\<lparr>kv_ref_count := n\<rparr>"
      by (rule exI[of _ 1]) (simp add: new_keyval_def)
    then have "topo_rel ?P L (insert kv H)" using 2(3,5) u(1) by (simp add: topo_rel_def topo_keyval_ok_def k)
    then show thesis using there[of ?P "insert kv H"] True 2(1,4) u(2) frame[OF 2(1)] by (auto simp: topology_keyval_def)
  qed
qed

text \<open>The communicator is the same but for the head of its list.\<close>

definition head_changed :: "nat \<Rightarrow> comm_state \<Rightarrow> comm_state \<Rightarrow> bool" where
  "head_changed q cs cs' \<longleftrightarrow> (\<exists>h. cs' = set_body q ((body cs q)\<lparr>cm_attributes := h\<rparr>) cs)"

lemma head_changedD:
  assumes "head_changed q cs cs'"
  shows "comm_state_ok cs' = comm_state_ok cs" "pool_live (cpool cs') = pool_live (cpool cs)"
    "handle_of (cheap cs') = handle_of (cheap cs)" "comm_ids cs' = comm_ids cs" "x \<noteq> q \<Longrightarrow> body cs' x = body cs x"
    "(body cs' x)\<lparr>cm_attributes := 0\<rparr> = (body cs x)\<lparr>cm_attributes := 0\<rparr>" "MPID_Comm_get_ptr cs' = MPID_Comm_get_ptr cs"
proof -
  obtain h where h: "cs' = set_body q ((body cs q)\<lparr>cm_attributes := h\<rparr>) cs" using assms by (auto simp: head_changed_def)
  show "comm_state_ok cs' = comm_state_ok cs" "pool_live (cpool cs') = pool_live (cpool cs)"
    "handle_of (cheap cs') = handle_of (cheap cs)" "comm_ids cs' = comm_ids cs" "x \<noteq> q \<Longrightarrow> body cs' x = body cs x"
    "(body cs' x)\<lparr>cm_attributes := 0\<rparr> = (body cs x)\<lparr>cm_attributes := 0\<rparr>" by (simp_all add: h)
  show "MPID_Comm_get_ptr cs' = MPID_Comm_get_ptr cs" by (simp add: h fun_eq_iff MPID_Comm_get_ptr_def)
qed

lemma topology_put_step:
  assumes "topo_rel P L H" "keyval_room e P" "calloc_fresh (pe_calloc e 0 (MPID_Attr_mem (attrs P))) (MPID_Attr_mem (attrs P))"
    "L q = Some []" "get_comm (comms P) (handle_of (cheap (comms P)) q) = Inr q"
  obtains (failed) P' er H' where "MPIR_Topology_put e P q t = Some (P', Some er)" "nomem_error er" "topo_rel P' L H'" "H \<subseteq> H'"
      "attr_view P' L = attr_view P L" "head_changed q (comms P) (comms P')"
      "topologies (user (attrs P')) = topologies (user (attrs P))" "other (user (attrs P')) = other (user (attrs P))"
  | (was_put) P' H' ns kv where "MPIR_Topology_put e P q t = Some (P', None)" "topo_rel P' (L(q \<mapsto> ns)) H'" "H \<subseteq> H'"
      "attr_view P' (L(q \<mapsto> ns)) = (attr_view P L)(q \<mapsto> [(kv, int t)])" "head_changed q (comms P) (comms P')"
      "topologies (user (attrs P')) = topologies (user (attrs P))" "other (user (attrs P')) = other (user (attrs P))"
      "MPIR_Topology_keyval (user (attrs P')) = kv" "kv \<in> H'"
proof (cases rule: topology_keyval_step[OF assms(1,2)])
  case (1 P' er)
  have "head_changed q (comms P) (comms P')"
    unfolding head_changed_def 1(5) by (rule exI[of _ "cm_attributes (body (comms P) q)"]) (simp add: set_body_def)
  then show thesis using failed[of P' er H] 1 by (simp add: MPIR_Topology_put_def)
next
  case (2 P1 H1)
  let ?h = "handle_of (cheap (comms P)) q" and ?kv = "MPIR_Topology_keyval (user (attrs P1))"
  have rel: "process_rel P1 L H1" using 2(2) by (simp add: topo_rel_def)
  note r = process_relD[OF rel]
  have head: "cm_attributes (body (comms P1) q) = 0" using r(4)[OF assms(4)] by simp
  have c1: "get_comm (comms P1) ?h = Inr q" using assms(5) 2(5) by simp
  have fr: "calloc_fresh (pe_calloc e 0 (MPID_Attr_mem (attrs P1))) (MPID_Attr_mem (attrs P1))" using assms(3) 2(9) by simp
  have put: "MPIR_Topology_put e P q t = MPI_Comm_set_attr e P1 ?h ?kv (int t)"
    using 2(1,5) by (simp add: MPIR_Topology_put_def)
  obtain P' er ns where set: "MPI_Comm_set_attr e P1 ?h ?kv (int t) = Some (P', er)" "process_rel P' (L(q \<mapsto> ns)) H1"
    "case er of None \<Rightarrow> attr_view P' (L(q \<mapsto> ns)) = (attr_view P1 L)(q \<mapsto> put_pair ?kv (int t) (pairs (attrs P1) []))
       | Some x \<Rightarrow> ns = [] \<and> attr_view P' L = attr_view P1 L"
    using set_attr_step[OF rel c1 assms(4) 2(6) fr, of "int t"] by (fastforce split: option.splits)
  let ?kp = "MPID_Keyval_get_ptr (attrs P1) ?kv"
  have ck: "get_comm_keyval P1 ?h ?kv = Inr (q, ?kp)" by (rule checks_pass(1)[OF c1 r(3)[OF 2(6)] attrs_okD(2)[OF r(2)]])
  obtain st h er' where a: "attr_set (pe_attr e) (pe_calloc e 0 (MPID_Attr_mem (attrs P1))) ?h ?kp (int t) 0 (attrs P1) = Some (st, h, er')"
    "P' = set_attributes q h (P1\<lparr>attrs := st\<rparr>)" "er = map_option (fn_fail ''**mpi_comm_set_attr'') er'"
    using set(1) by (auto simp: MPI_Comm_set_attr_def ck head split: option.splits)
  note n = attr_set_new[OF a(1)]
  have u: "user (attrs P') = user (attrs P1)" using n a(2) by simp
  have hc: "head_changed q (comms P) (comms P')"
    using 2(5) a(2) by (auto simp: head_changed_def set_attributes_def upd_comm_def)
  have "MPID_Keyval_get_ptr (attrs P') ?kv = ?kp"
  proof -
    have "live_keyval (attrs P') ?kv (MPID_Keyval_get_ptr (attrs P') ?kv)" using process_relD(3)[OF set(2) 2(6)] .
    moreover have "kstatic (attrs P') = kstatic (attrs P1)" using n a(2) by simp
    ultimately show ?thesis using keyval_get_ptr_kstatic[of "attrs P'" "attrs P1"] by simp
  qed
  moreover have kvr: "\<exists>n. keyval (attrs P1) ?kp = (new_keyval MPID_COMM TOPO_FN TOPO_FN 0)\<lparr>kv_ref_count := n\<rparr>"
    using 2(2,6) keyval_invalid[OF rel] by (auto simp: topo_rel_def topo_keyval_ok_def Let_def)
  moreover have "\<exists>n. keyval (attrs P') ?kp = (keyval (attrs P1) ?kp)\<lparr>kv_ref_count := n\<rparr>" using n a(2) by simp
  ultimately have "topo_keyval_ok P' H1" using 2(6) unfolding topo_keyval_ok_def u by (auto simp: Let_def)
  then have rel': "topo_rel P' (L(q \<mapsto> ns)) H1" using set(2) by (simp add: topo_rel_def)
  show thesis
  proof (cases er)
    case None
    then have v: "attr_view P' (L(q \<mapsto> ns)) = (attr_view P L)(q \<mapsto> [(?kv, int t)])" using set(3) 2(4) by (simp add: pairs_def)
    show thesis by (rule was_put[OF _ rel' 2(3) v hc]) (use None set(1) put u 2 in simp_all)
  next
    case (Some x)
    then have "L(q \<mapsto> ns) = L" using set(3) assms(4) by auto
    then have r2: "topo_rel P' L H1" using rel' by simp
    have v: "attr_view P' L = attr_view P L" using Some set(3) 2(4) by simp
    have "nomem_error x" using Some a(3) n by auto
    then show thesis by (rule failed[OF _ _ r2 2(3) v hc, rotated]) (use Some set(1) put u 2 in simp_all)
  qed
qed

text \<open>A topology that was put is the one that is found.\<close>

lemma topology_found:
  assumes "topo_rel P L H" "get_comm (comms P) (handle_of (cheap (comms P)) q) = Inr q" "L q = Some ns"
    "map_of (pairs (attrs P) ns) (MPIR_Topology_keyval (user (attrs P))) = Some (int t)"
    "MPIR_Topology_keyval (user (attrs P)) \<in> H" "t \<noteq> 0"
  shows "topology_of e P q = Some (topologies (user (attrs P)) t)"
proof -
  have "MPIR_Topology_keyval (user (attrs P)) \<noteq> MPI_KEYVAL_INVALID"
    using assms(1,5) keyval_invalid[of P L H] by (auto simp: topo_rel_def)
  then show ?thesis using topology_lookup[OF assms(1-3), of e] assms(4,6) by (simp add: topology_of_def)
qed

lemma place_topology_step:
  assumes "topo_rel P L H" "keyval_room e P" "calloc_fresh (pe_calloc e 0 (MPID_Attr_mem (attrs P))) (MPID_Attr_mem (attrs P))"
    "L q = Some []" "q \<in> pool_live (cpool (comms P))" "comm_state_ok (comms P)" "cm_ref_count (body (comms P) q) \<noteq> 0" "t \<noteq> 0"
  obtains (failed) P' er H' where "place_topology e P q t topo = Some (P', Inl er)" "nomem_error er" "topo_rel P' L H'" "H \<subseteq> H'"
      "attr_view P' L = attr_view P L" "head_changed q (comms P) (comms P')"
      "topologies (user (attrs P')) = (topologies (user (attrs P)))(t := None)" "other (user (attrs P')) = other (user (attrs P))"
  | (placed) P' H' ns kv where "place_topology e P q t topo = Some (P', Inr (handle_of (cheap (comms P)) q))"
      "topo_rel P' (L(q \<mapsto> ns)) H'" "H \<subseteq> H'" "attr_view P' (L(q \<mapsto> ns)) = (attr_view P L)(q \<mapsto> [(kv, int t)])"
      "head_changed q (comms P) (comms P')" "topologies (user (attrs P')) = (topologies (user (attrs P)))(t \<mapsto> topo)"
      "other (user (attrs P')) = other (user (attrs P))" "topology_of e P' q = Some (Some topo)"
      "get_comm (comms P') (handle_of (cheap (comms P)) q) = Inr q"
proof -
  let ?P = "upd_topologies (\<lambda>h. h(t \<mapsto> topo)) P"
  have pre: "topo_rel ?P L H" "keyval_room e ?P" "calloc_fresh (pe_calloc e 0 (MPID_Attr_mem (attrs ?P))) (MPID_Attr_mem (attrs ?P))"
    "get_comm (comms ?P) (handle_of (cheap (comms ?P)) q) = Inr q"
    using assms get_comm_of_live[OF assms(6,5,7)] by (simp_all add: keyval_room_def)
  show thesis
  proof (cases rule: topology_put_step[OF pre(1-3) assms(4) pre(4), of t])
    case (1 P' er H')
    show thesis
      by (rule failed[of "upd_topologies (\<lambda>h. h(t := None)) P'" er H']) (use 1 in \<open>simp_all add: place_topology_def\<close>)
  next
    case (2 P' H' ns kv)
    have c: "get_comm (comms P') (handle_of (cheap (comms P')) q) = Inr q"
    proof (rule get_comm_of_live)
      note d = head_changedD[OF 2(5)]
      show "comm_state_ok (comms P')" "q \<in> pool_live (cpool (comms P'))" using d(1,2) assms(5,6) by simp_all
      have "cm_ref_count ((body (comms P') q)\<lparr>cm_attributes := 0\<rparr>) = cm_ref_count ((body (comms P) q)\<lparr>cm_attributes := 0\<rparr>)"
        using d(6)[of q] by simp
      then show "cm_ref_count (body (comms P') q) \<noteq> 0" using assms(7) by simp
    qed
    have h: "handle_of (cheap (comms P')) = handle_of (cheap (comms P))" using head_changedD(3)[OF 2(5)] by simp
    have p: "pairs (attrs P') ns = [(kv, int t)]" using fun_cong[OF 2(4), of q] by (simp add: attr_view_def)
    have mo: "map_of (pairs (attrs P') ns) (MPIR_Topology_keyval (user (attrs P'))) = Some (int t)" unfolding 2(8) p by simp
    have L': "(L(q \<mapsto> ns)) q = Some ns" by simp
    have f: "topology_of e P' q = Some (topologies (user (attrs P')) t)"
      using topology_found[OF 2(2) c L' mo _ assms(8)] 2(8,9) by simp
    show thesis
      by (rule placed[of P' ns H' kv]) (use 2 c f in \<open>simp_all add: place_topology_def h\<close>)
  qed
qed

end
