(* ===== verification/CartCreate.thy ===== *)
theory CartCreate
  imports CartQuery TopoSpec
begin

text \<open>
  Making a grid: the communicator, its topology and the position of the caller, put together from the
  routines that copy or split a communicator and that attach the topology.
\<close>

section \<open>The communicator\<close>

lemma product_loop_eq:
  assumes "\<forall>d \<in> set ds. d > 0" "n > 0" "n * prod_list ds < 2 ^ 31"
  shows "product_loop n ds = Some (n * prod_list ds)"
  using assms
proof (induction ds arbitrary: n)
  case (Cons d ds)
  have p: "prod_list ds \<ge> 1" using Cons.prems(1) prod_dims_pos[of ds] by simp
  have nd: "n * d > 0" using Cons.prems by simp
  have "n * d \<le> n * d * prod_list ds" using mult_left_mono[OF p, of "n * d"] nd by simp
  then have "int_ok (n * d)" using nd Cons.prems(3) by (simp add: int_ok_def mult.assoc)
  then show ?case using Cons.IH[of "n * d"] Cons.prems nd by (simp add: mult.assoc)
qed simp

text \<open>What the processes of the old communicator give to the split: those in the grid a color, in their order.\<close>

definition cart_table :: "nat \<Rightarrow> nat \<Rightarrow> splittype list" where
  "cart_table N n = map (\<lambda>i. if i < n then \<lparr>sp_color = 1, sp_key = int i\<rparr> else \<lparr>sp_color = MPI_UNDEFINED, sp_key = MPI_UNDEFINED\<rparr>) [0..<N]"

lemma cart_table_order:
  assumes "n \<le> N"
  shows "split_order (cart_table N n) 1 = [0..<n]"
proof -
  have u: "[0..<N] = [0..<n] @ [n..<N]" using assms upt_add_eq_append[of 0 n "N - n"] by simp
  have "of_color (cart_table N n) 1 = filter (\<lambda>i. i < n) [0..<N]"
    unfolding of_color_def by (auto simp: cart_table_def intro!: filter_cong split: if_splits)
  also have "\<dots> = [0..<n]" unfolding u by (auto simp: filter_empty_conv)
  finally have o: "of_color (cart_table N n) 1 = [0..<n]" .
  have k: "sp_key (cart_table N n ! i) = int i" if "i < n" for i using that assms by (simp add: cart_table_def)
  have "inj_on (\<lambda>i. sp_key (cart_table N n ! i)) (set (of_color (cart_table N n) 1))"
    using k by (auto simp: o intro!: inj_onI)
  note s = split_order_distinct_keys[OF this, unfolded o]
  have m: "map (\<lambda>i. sp_key (cart_table N n ! i)) [0..<n] = map int [0..<n]" using k by (intro map_cong) simp_all
  have "sorted (map (\<lambda>i. sp_key (cart_table N n ! i)) [0..<n])" unfolding m by (simp add: sorted_wrt_map sorted_wrt_iff_nth_less)
  then have "sort_key (\<lambda>i. sp_key (cart_table N n ! i)) [0..<n] = [0..<n]" by (rule sort_key_id_if_sorted)
  then show ?thesis using s by simp
qed

lemma split_copy_made:
  assumes "split_made c [0..<n] r b" "cm_rank c = int r" "n \<le> length (cm_vcr c)"
  shows "copy_made c n b"
proof -
  have "map ((!) (cm_vcr c)) [0..<n] = take n (cm_vcr c)" using assms(3) by (intro nth_equalityI) simp_all
  then show ?thesis using assms by (auto simp: split_made_def copy_made_def)
qed

text \<open>An intracommunicator of a process, with what the allocators and the other processes give.\<close>

definition comm_setting :: "comm_env \<Rightarrow> comm_state \<Rightarrow> handle \<Rightarrow> nat \<Rightarrow> int set \<Rightarrow> 32 word list \<Rightarrow> bool" where
  "comm_setting e st comm p used m \<longleftrightarrow> comm_state_ok st \<and> calloc_fresh (ce_calloc e) (MPID_Comm_mem st)
     \<and> comm_known (ce_calloc e) st p \<and> get_comm st comm = Inr p \<and> handle_of (cheap st) p = comm
     \<and> cm_kind (body st p) = MPID_INTRACOMM \<and> cm_local_size (body st p) = int (length (cm_vcr (body st p)))
     \<and> cm_remote_size (body st p) = cm_local_size (body st p)
     \<and> 0 \<le> cm_rank (body st p) \<and> cm_rank (body st p) < cm_local_size (body st p)
     \<and> ids_split (comm_ids st) used \<and> reduced_mask e st m"

lemma comm_settingD:
  assumes "comm_setting e st comm p used m"
  shows "comm_state_ok st" "calloc_fresh (ce_calloc e) (MPID_Comm_mem st)" "comm_known (ce_calloc e) st p"
    "get_comm st comm = Inr p" "handle_of (cheap st) p = comm" "cm_kind (body st p) = MPID_INTRACOMM"
    "cm_local_size (body st p) = int (length (cm_vcr (body st p)))" "cm_remote_size (body st p) = cm_local_size (body st p)"
    "0 \<le> cm_rank (body st p)" "cm_rank (body st p) < cm_local_size (body st p)" "ids_split (comm_ids st) used" "reduced_mask e st m"
  using assms by (simp_all add: comm_setting_def)

lemma cart_comm_step:
  assumes "comm_setting e st comm p used m" "dims \<noteq> []" "\<forall>d \<in> set dims. d > 0" "prod_list dims = int n"
    "n \<le> length (cm_vcr (body st p))" "int n < 2 ^ 31"
    "reorder \<longrightarrow> ce_table e = cart_table (length (cm_vcr (body st p))) n \<and> (\<forall>x. ce_malloc e x)"
  obtains (failed) st' er where "cart_comm e st p dims reorder (int n) = Some (st', Inl er)" "body st' = body st"
      "mask_ids m = {} \<or> nomem_error er"
  | (outside) st' rank where "cart_comm e st p dims reorder (int n) = Some (st', Inr (0, rank))" "body st' = body st"
      "cm_rank (body st p) \<ge> int n" "rank \<ge> int n \<or> rank = MPI_UNDEFINED"
  | (made) st' q b where "cart_comm e st p dims reorder (int n) = Some (st', Inr (q, cm_rank (body st p)))"
      "cm_rank (body st p) < int n" "q \<noteq> 0" "q \<notin> pool_live (cpool st)" "\<forall>x. comm_known (ce_calloc e) st x \<longrightarrow> x \<noteq> q"
      "comm_state_ok st'" "pool_live (cpool st') = insert q (pool_live (cpool st))" "body st' = (body st)(q := b)"
      "copy_made (body st p) n b" "cm_context_id b \<notin> used" "ids_split (comm_ids st') (insert (cm_context_id b) used)"
proof -
  note a = comm_settingD[OF assms(1)]
  show thesis
  proof (cases reorder)
    case False
    show thesis
    proof (cases rule: MPIR_Comm_copy_spec[OF a(1-3,6,7) assms(5) a(11,12)])
      case (1 st' er)
      then show thesis using False failed[of st' er] by (auto simp: cart_comm_def)
    next
      case (2 st' c)
      then show thesis using False outside[of st' "cm_rank (body st p)"] by (simp add: cart_comm_def)
    next
      case (3 st' q b)
      have "p \<noteq> q" using 3(5) a(3) by blast
      then show thesis using False made[of st' q b] 3 by (simp add: cart_comm_def)
    qed
  next
    case True
    let ?N = "length (cm_vcr (body st p))"
    obtain r where r: "cm_rank (body st p) = int r" "r < ?N" using a(7,9,10) by (metis nat_0_le of_nat_less_iff)
    let ?rank = "if r < n then int r else MPI_UNDEFINED"
    obtain d ds where dims: "dims = d # ds" using assms(2) by (cases dims) auto
    have "product_loop d ds = Some (int n)"
      using product_loop_eq[of ds d] assms(3,4,6) by (simp add: dims)
    then have map: "MPI_Cart_map st comm (int (length dims)) dims = Some (Inr ?rank)"
      using a r assms(5) by (auto simp: MPI_Cart_map_def MPIR_Cart_map_def get_comm_def Let_def dims split: option.splits)
    have n: "\<not> (int r < int n \<and> int r = MPI_UNDEFINED)" by simp
    have t: "ce_table e ! r = \<lparr>sp_color = (if ?rank = MPI_UNDEFINED then MPI_UNDEFINED else 1), sp_key = ?rank\<rparr>" "r < length (ce_table e)"
      using assms(7) True r(2) by (auto simp: cart_table_def)
    show thesis
    proof (cases rule: MPI_Comm_split_spec[OF a(1,2,4,3,6) r(1) t(2,1) a(11,12)])
      case 1
      then show ?case using assms(7) True by simp
    next
      case (2 st' er)
      then show thesis using True failed[of st' er] a map by (auto simp: cart_comm_def)
    next
      case (3 st')
      then have "\<not> r < n" by (auto split: if_splits)
      moreover have "MPID_Comm_get_ptr st' MPI_COMM_NULL = 0" by (simp add: MPID_Comm_get_ptr_def MPID_Get_ptr_def HANDLE_GET_KIND_def)
      ultimately show thesis using True outside[of st' ?rank] 3 a r map by (auto simp: cart_comm_def)
    next
      case (4 st' q b)
      have lt: "r < n" using 4(2) by (auto split: if_splits)
      then have o: "split_order (ce_table e) (if ?rank = MPI_UNDEFINED then MPI_UNDEFINED else 1) = [0..<n]"
        using assms(5,7) True cart_table_order[of n ?N] by simp
      have cm: "copy_made (body st p) n b" using split_copy_made[OF 4(6)[unfolded o] r(1) assms(5)] .
      have q0: "q \<noteq> 0" using hm.null_not_live[of "cpool st'"] 4(11,12) unfolding comm_state_ok_def by (metis insertI1)
      show thesis by (rule made[of st' q b]) (use True 4 a r map lt cm q0 in \<open>simp_all add: cart_comm_def\<close>)
    qed
  qed
qed

section \<open>Creation\<close>

lemma position_of_rank:
  assumes "\<forall>d \<in> set dims. d > 0" "0 \<le> r" "r < prod_list dims" "length periods = length dims"
  defines "c \<equiv> \<lparr>ct_nnodes = prod_list dims, ct_ndims = int (length dims), ct_dims = dims, ct_periodic = periods,
    ct_position = coords_of dims r\<rparr>"
  shows "cart_ok c" "in_grid (ct_dims c) (ct_position c)" "rank_of (ct_dims c) (ct_position c) = r"
  using coords_of_in_grid[OF assms(1-3)] rank_of_coords_of[OF assms(1-3)] in_grid_length[OF coords_of_in_grid[OF assms(1-3)]] assms(1,4)
  by (simp_all add: c_def cart_ok_def)

text \<open>
  What stays when a routine that makes a communicator with a topology fails or leaves the caller out: the
  communicators in use, their attributes, the topologies and the state of the user. The routines leave
  the new object and its context id behind when only the topology could not be stored.
\<close>

definition topo_kept :: "'v topo_user process \<Rightarrow> (nat \<rightharpoonup> nat list) \<Rightarrow> handle set \<Rightarrow> 'v topo_user process \<Rightarrow> bool" where
  "topo_kept P L H P' \<longleftrightarrow> (\<exists>H'. H \<subseteq> H' \<and> topo_rel P' L H') \<and> attr_view P' L = attr_view P L
     \<and> topologies (user (attrs P')) = topologies (user (attrs P)) \<and> other (user (attrs P')) = other (user (attrs P))
     \<and> (\<forall>x \<in> dom L. (body (comms P') x)\<lparr>cm_attributes := 0\<rparr> = (body (comms P) x)\<lparr>cm_attributes := 0\<rparr>)"

text \<open>A new communicator with a topology at a new address, as the only attribute; the others stay.\<close>

definition topo_made :: "'v topo_user process_env \<Rightarrow> 'v topo_user process \<Rightarrow> (nat \<rightharpoonup> nat list) \<Rightarrow> handle set \<Rightarrow> nat
    \<Rightarrow> MPIR_Topology \<Rightarrow> nat \<Rightarrow> 'v topo_user process \<Rightarrow> handle \<Rightarrow> bool" where
  "topo_made e P L H t topo q P' newcomm \<longleftrightarrow> L q = None \<and> get_comm (comms P') newcomm = Inr q
     \<and> topology_of e P' q = Some (Some topo)
     \<and> (\<exists>ns H' kv. H \<subseteq> H' \<and> topo_rel P' (L(q \<mapsto> ns)) H' \<and> attr_view P' (L(q \<mapsto> ns)) = (attr_view P L)(q \<mapsto> [(kv, int t)]))
     \<and> topologies (user (attrs P')) = (topologies (user (attrs P)))(t \<mapsto> topo) \<and> other (user (attrs P')) = other (user (attrs P))
     \<and> (\<forall>x \<in> dom L. (body (comms P') x)\<lparr>cm_attributes := 0\<rparr> = (body (comms P) x)\<lparr>cm_attributes := 0\<rparr>)"

lemma topo_rel_comms:
  assumes "topo_rel P L H" "\<forall>x \<in> dom L. cm_attributes (body st x) = cm_attributes (body (comms P) x)"
  shows "topo_rel (P\<lparr>comms := st\<rparr>) L H" "attr_view (P\<lparr>comms := st\<rparr>) L = attr_view P L"
proof -
  have "lists_ok (P\<lparr>comms := st\<rparr>) L"
    using assms unfolding topo_rel_def process_rel_def lists_ok_def by (auto simp: domI)
  then show "topo_rel (P\<lparr>comms := st\<rparr>) L H" using assms(1) by (simp add: topo_rel_def process_rel_def topo_keyval_ok_def)
  show "attr_view (P\<lparr>comms := st\<rparr>) L = attr_view P L" by (simp add: attr_view_def)
qed

text \<open>A structure placed on a communicator that was just made.\<close>

lemma place_new:
  assumes "topo_rel P L H" "keyval_room e P" "calloc_fresh (pe_calloc e 0 (MPID_Attr_mem (attrs P))) (MPID_Attr_mem (attrs P))"
    "comm_state_ok st" "pool_live (cpool st) = insert q (pool_live (cpool (comms P)))" "body st = (body (comms P))(q := b)"
    "cm_ref_count b = 1" "cm_attributes b = 0" "L q = None" "t \<noteq> 0" "topologies (user (attrs P)) t = None"
  obtains (failed) P' er where "place_topology e (P\<lparr>comms := st\<rparr>) q t topo = Some (P', Inl er)" "nomem_error er" "topo_kept P L H P'"
  | (placed) P' where "place_topology e (P\<lparr>comms := st\<rparr>) q t topo = Some (P', Inr (handle_of (cheap st) q))"
      "topo_made e P L H t topo q P' (handle_of (cheap st) q)" "(body (comms P') q)\<lparr>cm_attributes := 0\<rparr> = b"
      "comm_ids (comms P') = comm_ids st" "MPID_Comm_get_ptr (comms P') = MPID_Comm_get_ptr st"
proof -
  let ?P = "P\<lparr>comms := st\<rparr>"
  have heads: "\<forall>x \<in> dom L. cm_attributes (body st x) = cm_attributes (body (comms P) x)" using assms(6,9) by auto
  note topo_rel_comms[OF assms(1) heads]
  then have rel: "topo_rel ?P L H" "process_rel ?P L H" "attr_view ?P L = attr_view P L" by (simp_all add: topo_rel_def)
  note r = process_relD[OF rel(2)]
  have add: "process_rel ?P (L(q \<mapsto> [])) H" "attr_view ?P (L(q \<mapsto> [])) = (attr_view ?P L)(q \<mapsto> pairs (attrs ?P) [])"
    by (rule process_add[OF rel(2) assms(9)]; use r(2) assms(6,8) in simp)+
  have rel1: "topo_rel ?P (L(q \<mapsto> [])) H" using add(1) rel(1) by (simp add: topo_rel_def)
  have room: "keyval_room e ?P" "calloc_fresh (pe_calloc e 0 (MPID_Attr_mem (attrs ?P))) (MPID_Attr_mem (attrs ?P))"
    using assms(2,3) by (simp_all add: keyval_room_def)
  have q: "(L(q \<mapsto> [])) q = Some []" "q \<in> pool_live (cpool (comms ?P))" "comm_state_ok (comms ?P)" "cm_ref_count (body (comms ?P) q) \<noteq> 0"
    using assms(4-7) by simp_all
  have bodies: "(body (comms P') x)\<lparr>cm_attributes := 0\<rparr> = (body (comms P) x)\<lparr>cm_attributes := 0\<rparr>"
    if "head_changed q st (comms P')" "x \<in> dom L" for P' :: "'a topo_user process" and x
  proof -
    have "x \<noteq> q" using that(2) assms(9) by auto
    then show ?thesis using head_changedD(5)[OF that(1), of x] assms(6) by simp
  qed
  have same: "L(q := None) = L" using assms(9) by auto
  show thesis
  proof (cases rule: place_topology_step[OF rel1 room q assms(10), of topo])
    case (1 P' er H')
    note rm = process_remove[of P' "L(q \<mapsto> [])" H' q, unfolded fun_upd_upd same]
    have pr: "process_rel P' (L(q \<mapsto> [])) H'" "topo_keyval_ok P' H'" using 1(3) unfolding topo_rel_def by blast+
    have "topo_rel P' L H'" unfolding topo_rel_def using rm(1)[OF pr(1)] pr(2) by blast
    moreover have "attr_view P' L = attr_view P L"
    proof -
      have "attr_view P L q = None" using assms(9) by (simp add: attr_view_def)
      then have "(attr_view P L)(q := None) = attr_view P L" by auto
      then show ?thesis unfolding rm(2)[OF pr(1)] 1(5) add(2) rel(3) fun_upd_upd .
    qed
    ultimately have "topo_kept P L H P'"
      using 1(4,6-8) bodies[of P'] assms(11) by (auto simp: topo_kept_def fun_eq_iff)
    then show thesis using failed[OF 1(1,2)] by simp
  next
    case (2 P' H' ns kv)
    have v: "attr_view P' (L(q \<mapsto> ns)) = (attr_view P L)(q \<mapsto> [(kv, int t)])"
      using 2(4) unfolding add(2) rel(3) fun_upd_upd .
    have rel': "topo_rel P' (L(q \<mapsto> ns)) H'" using 2(2) unfolding fun_upd_upd .
    have "topo_made e P L H t topo q P' (handle_of (cheap st) q)"
      unfolding topo_made_def using 2(3,6-9) bodies[of P'] 2(5) rel' v assms(9) by auto
    moreover have "(body (comms P') q)\<lparr>cm_attributes := 0\<rparr> = b"
      using head_changedD(6)[OF 2(5), of q] assms(6,8) by simp
    ultimately show thesis
      using placed[of P'] 2(1) head_changedD(4,7)[OF 2(5)] by simp
  qed
qed

lemma topo_kept_comms:
  assumes "topo_rel P L H" "\<forall>x \<in> dom L. body st x = body (comms P) x"
  shows "topo_kept P L H (P\<lparr>comms := st\<rparr>)"
  using topo_rel_comms[OF assms(1), of st] assms by (auto simp: topo_kept_def)

text \<open>The rest of a routine that makes a communicator: the memory for the structure, and putting it on.\<close>

lemma place_wrapped:
  assumes "topo_rel P L H" "keyval_room e P" "calloc_fresh (pe_calloc e 0 (MPID_Attr_mem (attrs P))) (MPID_Attr_mem (attrs P))"
    "comm_state_ok st" "pool_live (cpool st) = insert q (pool_live (cpool (comms P)))" "body st = (body (comms P))(q := b)"
    "cm_ref_count b = 1" "cm_attributes b = 0" "L q = None"
    "topologies (user (attrs P)) (tm_topology m (topologies (user (attrs P)))) = None"
    "res = map_option (\<lambda>(P, r). (P, wrap_fail msg r))
       (let t = tm_topology m (topologies (user (attrs (P\<lparr>comms := st\<rparr>)))) in
        if t = 0 \<or> bad then Some (P\<lparr>comms := st\<rparr>, Inl (new_error MPI_ERR_OTHER ''**nomem2''))
        else place_topology e (P\<lparr>comms := st\<rparr>) q t topo)"
  obtains (failed) P' er where "res = Some (P', Inl er)" "nomem_error er" "topo_kept P L H P'"
  | (placed) P' where "res = Some (P', Inr (handle_of (cheap st) q))"
      "topo_made e P L H (tm_topology m (topologies (user (attrs P)))) topo q P' (handle_of (cheap st) q)"
      "(body (comms P') q)\<lparr>cm_attributes := 0\<rparr> = b" "comm_ids (comms P') = comm_ids st"
proof (cases "tm_topology m (topologies (user (attrs P))) = 0 \<or> bad")
  case True
  have "topo_kept P L H (P\<lparr>comms := st\<rparr>)" by (rule topo_kept_comms[OF assms(1)]) (use assms(6,9) in auto)
  then show thesis using True failed[of "P\<lparr>comms := st\<rparr>"] assms(11) by (auto simp: Let_def)
next
  case False
  then have t: "tm_topology m (topologies (user (attrs P))) \<noteq> 0" by simp
  show thesis
  proof (cases rule: place_new[OF assms(1-9) t assms(10), of topo])
    case (1 P' er)
    then show thesis using failed[of P' "fn_fail msg er"] False assms(11) by (auto simp: Let_def)
  next
    case (2 P')
    then show thesis using placed[of P'] False assms(11) by (auto simp: Let_def)
  qed
qed

text \<open>The grid of a process, and the communicator made for it.\<close>

definition new_cart :: "int list \<Rightarrow> bool list \<Rightarrow> int \<Rightarrow> MPIR_Cart_topology" where
  "new_cart dims periods rank = \<lparr>ct_nnodes = prod_list dims, ct_ndims = int (length dims), ct_dims = dims,
     ct_periodic = periods, ct_position = coords_of dims rank\<rparr>"

lemma place_cart_eq:
  assumes "\<forall>d \<in> set dims. d > 0" "0 \<le> rank" "q \<noteq> 0"
  shows "place_cart e m P q (prod_list dims) dims periods rank =
    (let t = tm_topology m (topologies (user (attrs P))) in
     if t = 0 \<or> \<not> tm_array m ''cart.dims'' \<or> \<not> tm_array m ''cart.periodic'' \<or> \<not> tm_array m ''cart.position''
     then Some (P, Inl (new_error MPI_ERR_OTHER ''**nomem2''))
     else place_topology e P q t (MPI_CART (new_cart dims periods rank)))"
  using position_loop_eq[OF assms(1,2)] assms(3) by (simp add: place_cart_def new_cart_def Let_def)

lemma wrap_fail_nomem: "wrap_fail msg (Inl er) = Inl er' \<Longrightarrow> nomem_error er \<Longrightarrow> nomem_error er'"
  by (auto simp: wrap_fail_def)

text \<open>What \<open>MPIR_Cart_create\<close> leaves.\<close>

lemma cart_create_step:
  assumes "topo_rel P L H" "keyval_room e P" "calloc_fresh (pe_calloc e 0 (MPID_Attr_mem (attrs P))) (MPID_Attr_mem (attrs P))"
    "comm_setting (pe_comm e) (comms P) comm p used ids" "\<forall>q \<in> dom L. comm_known (ce_calloc (pe_comm e)) (comms P) q"
    "dims \<noteq> []" "\<forall>d \<in> set dims. d > 0" "prod_list dims = int n" "n \<le> length (cm_vcr (body (comms P) p))" "int n < 2 ^ 31"
    "length periods = length dims" "topologies (user (attrs P)) (tm_topology m (topologies (user (attrs P)))) = None"
    "reorder \<longrightarrow> ce_table (pe_comm e) = cart_table (length (cm_vcr (body (comms P) p))) n \<and> (\<forall>x. ce_malloc (pe_comm e) x)"
  obtains (failed) P' er where "MPIR_Cart_create e m P p dims periods reorder = Some (P', Inl er)" "topo_kept P L H P'"
      "mask_ids ids = {} \<or> nomem_error er"
  | (outside) P' where "MPIR_Cart_create e m P p dims periods reorder = Some (P', Inr MPI_COMM_NULL)" "topo_kept P L H P'"
      "cm_rank (body (comms P) p) \<ge> int n"
  | (made) P' q newcomm b where "MPIR_Cart_create e m P p dims periods reorder = Some (P', Inr newcomm)"
      "cm_rank (body (comms P) p) < int n" "topo_made e P L H (tm_topology m (topologies (user (attrs P))))
        (MPI_CART (new_cart dims periods (cm_rank (body (comms P) p)))) q P' newcomm"
      "(body (comms P') q)\<lparr>cm_attributes := 0\<rparr> = b" "copy_made (body (comms P) p) n b" "cm_context_id b \<notin> used"
      "ids_split (comm_ids (comms P')) (insert (cm_context_id b) used)"
proof -
  note a = comm_settingD[OF assms(4)]
  let ?t = "tm_topology m (topologies (user (attrs P)))" and ?r = "cm_rank (body (comms P) p)"
  have prod: "product_loop 1 dims = Some (int n)" using product_loop_eq[of dims 1] assms(7,8,10) by simp
  have fits: "\<not> int n > cm_remote_size (body (comms P) p)" using a(7,8) assms(9) by simp
  note unf = MPIR_Cart_create_def prod fits
  show thesis
  proof (cases rule: cart_comm_step[OF assms(4,6-10,13)])
    case (1 st er)
    then show thesis using failed[of "P\<lparr>comms := st\<rparr>" "fn_fail ''**mpi_cart_create'' er"] topo_kept_comms[OF assms(1)]
      by (auto simp: unf)
  next
    case (2 st rank)
    then show thesis using outside[of "P\<lparr>comms := st\<rparr>"] topo_kept_comms[OF assms(1)] by (simp add: unf)
  next
    case (3 st q b)
    have L: "L q = None" using 3(5) assms(5) by blast
    have cond: "\<not> (?r \<ge> int n \<or> ?r = MPI_UNDEFINED)" using 3(2) a(9) by simp
    have create: "MPIR_Cart_create e m P p dims periods reorder = map_option (\<lambda>(P, r). (P, wrap_fail ''**mpi_cart_create'' r))
        (place_cart e m (P\<lparr>comms := st\<rparr>) q (int n) dims periods ?r)" using 3(1) cond by (simp add: unf)
    note res = create[unfolded place_cart_eq[OF assms(7) a(9) 3(3), of e m "P\<lparr>comms := st\<rparr>" periods, unfolded assms(8)]]
    have b: "cm_ref_count b = 1" "cm_attributes b = 0" using 3(9) by (simp_all add: copy_made_def)
    show thesis
    proof (cases rule: place_wrapped[OF assms(1-3) 3(6-8) b L assms(12) res])
      case (1 P' er)
      then show thesis using failed by simp
    next
      case (2 P')
      then show thesis using made[of P' "handle_of (cheap st) q" q b] 3(2,9-11) by simp
    qed
  qed
qed

text \<open>
  C1: \<open>MPI_Cart_create\<close> with dimensions that fit the group always returns. It fails only for want of a context id or
  of memory, and then, as for the processes the grid leaves out, which get \<open>MPI_COMM_NULL\<close>, no communicator
  that was there, no attribute and no topology changes (a new object and its id can be left behind). The
  others get a new communicator over the first processes of the group, with a context id of its own and the
  grid as its only attribute, in which they stand at the coordinates of their rank.
\<close>

theorem MPI_Cart_create_correct:
  assumes "topo_rel P L H" "keyval_room e P" "calloc_fresh (pe_calloc e 0 (MPID_Attr_mem (attrs P))) (MPID_Attr_mem (attrs P))"
    "comm_setting (pe_comm e) (comms P) comm p used ids" "\<forall>q \<in> dom L. comm_known (ce_calloc (pe_comm e)) (comms P) q"
    "dims \<noteq> []" "\<forall>d \<in> set dims. d > 0" "prod_list dims = int n" "n \<le> length (cm_vcr (body (comms P) p))" "int n < 2 ^ 31"
    "length periods = length dims" "topologies (user (attrs P)) (tm_topology m (topologies (user (attrs P)))) = None"
    "reorder \<longrightarrow> ce_table (pe_comm e) = cart_table (length (cm_vcr (body (comms P) p))) n \<and> (\<forall>x. ce_malloc (pe_comm e) x)"
  shows "\<exists>P' r. MPI_Cart_create e m P comm (int (length dims)) dims periods reorder = Some (P', r)
    \<and> (case r of
         Inl er \<Rightarrow> topo_kept P L H P' \<and> (mask_ids ids = {} \<or> nomem_error er)
       | Inr newcomm \<Rightarrow>
           if cm_rank (body (comms P) p) \<ge> int n then newcomm = MPI_COMM_NULL \<and> topo_kept P L H P'
           else (let c = new_cart dims periods (cm_rank (body (comms P) p)); t = tm_topology m (topologies (user (attrs P))) in
             \<exists>q. topo_made e P L H t (MPI_CART c) q P' newcomm \<and> cart_of e P' newcomm q c
               \<and> copy_made (body (comms P) p) n ((body (comms P') q)\<lparr>cm_attributes := 0\<rparr>)
               \<and> cm_context_id (body (comms P') q) \<notin> used))"
proof -
  note a = comm_settingD[OF assms(4)]
  have g: "errtest_comm comm = None" "MPID_Comm_get_ptr (comms P) comm = p" "MPID_Comm_valid_ptr (comms P) p = None"
    using a(4) by (auto simp: get_comm_def Let_def split: option.splits)
  have create: "MPI_Cart_create e m P comm (int (length dims)) dims periods reorder
    = map_option (\<lambda>(P, r). (P, wrap_fail ''**mpi_cart_create'' r)) (MPIR_Cart_create e m P p dims periods reorder)"
    using assms(6,11) a(6) g by (simp add: MPI_Cart_create_def Let_def)
  show ?thesis
  proof (cases rule: cart_create_step[OF assms])
    case (1 P' er)
    then show ?thesis by (auto simp: create)
  next
    case (2 P')
    then show ?thesis by (simp add: create)
  next
    case (3 P' q newcomm b)
    let ?c = "new_cart dims periods (cm_rank (body (comms P) p))"
    have r: "0 \<le> cm_rank (body (comms P) p)" "cm_rank (body (comms P) p) < prod_list dims" using a(9) 3(2) assms(8) by simp_all
    note c = position_of_rank[OF assms(7) r assms(11), folded new_cart_def]
    have b: "cm_remote_size (body (comms P') q) = cm_remote_size b" "cm_rank (body (comms P') q) = cm_rank b"
      "cm_context_id (body (comms P') q) = cm_context_id b" using 3(4) by auto
    have "cart_of e P' newcomm q ?c"
      using 3(3,5) b c assms(8) unfolding cart_of_def topo_made_def copy_made_def by (simp add: new_cart_def)
    moreover have "copy_made (body (comms P) p) n ((body (comms P') q)\<lparr>cm_attributes := 0\<rparr>)" unfolding 3(4) by (rule 3(5))
    moreover have "cm_context_id (body (comms P') q) \<notin> used" unfolding b(3) by (rule 3(6))
    moreover have "MPI_Cart_create e m P comm (int (length dims)) dims periods reorder = Some (P', Inr newcomm)"
      unfolding create 3(1) by simp
    ultimately show ?thesis using 3(2,3) unfolding Let_def
      by (intro exI[of _ P'] exI[of _ "Inr newcomm"]) (simp, blast)
  qed
qed

end
