(* ===== verification/GraphSpec.thy ===== *)
theory GraphSpec
  imports Graph CartCreate
begin

text \<open>
  Graphs: what the checks of \<open>MPI_Graph_create\<close> let through, the neighbours of a node as a piece of the array
  of edges, and the making of a communicator with a graph.
\<close>

section \<open>Neighbours\<close>

text \<open>The neighbours of the \<open>i\<close>-th of some consecutive nodes, whose edges start at \<open>j\<close>.\<close>

definition neighbours_from :: "nat \<Rightarrow> int list \<Rightarrow> int list \<Rightarrow> nat \<Rightarrow> int list" where
  "neighbours_from j index edges i = drop (nat ((int j # index) ! i)) (take (nat (index ! i)) edges)"

abbreviation neighbours :: "int list \<Rightarrow> int list \<Rightarrow> nat \<Rightarrow> int list" where
  "neighbours \<equiv> neighbours_from 0"

lemma neighbours_from_simps [simp]:
  "neighbours_from j (k # ks) edges 0 = drop j (take (nat k) edges)"
  "0 \<le> k \<Longrightarrow> neighbours_from j (k # ks) edges (Suc i) = neighbours_from (nat k) ks edges i"
  by (simp_all add: neighbours_from_def)

lemma null_edge_loop_iff:
  assumes "sorted (int j # ks)"
  shows "null_edge_loop edges i j ks \<longleftrightarrow> (\<exists>m < length ks. i + int m \<in> set (neighbours_from j ks edges m))"
  using assms
proof (induction edges i j ks rule: null_edge_loop.induct)
  case (2 edges i j k ks)
  have k: "0 \<le> k" "max j (nat k) = nat k" "sorted (int (nat k) # ks)" using 2(2) by auto
  have "(\<exists>m < length (k # ks). i + int m \<in> set (neighbours_from j (k # ks) edges m))
    \<longleftrightarrow> i \<in> set (drop j (take (nat k) edges)) \<or> (\<exists>m < length ks. i + 1 + int m \<in> set (neighbours_from (nat k) ks edges m))"
    using k(1) by (auto simp: Ex_less_Suc2 add.assoc)
  then show ?case using 2(1) k by auto
qed simp

text \<open>All neighbours together are the edges.\<close>

lemma concat_neighbours_from:
  assumes "sorted (int j # ks)"
  shows "concat (map (neighbours_from j ks edges) [0..<length ks]) = drop j (take (nat (last (int j # ks))) edges)"
  using assms
proof (induction ks arbitrary: j)
  case (Cons k ks)
  have k: "0 \<le> k" "j \<le> nat k" "sorted (int (nat k) # ks)" using Cons.prems by auto
  have le: "nat k \<le> nat (last (k # ks))" using Cons.prems last_in_set[of "k # ks"] by (intro nat_mono) auto
  have "map (neighbours_from j (k # ks) edges) [0..<length (k # ks)]
      = drop j (take (nat k) edges) # map (neighbours_from (nat k) ks edges) [0..<length ks]"
    using k(1) by (simp add: upt_conv_Cons map_Suc_upt[symmetric] del: upt_Suc)
  then have "concat (map (neighbours_from j (k # ks) edges) [0..<length (k # ks)])
      = drop j (take (nat k) edges) @ drop (nat k) (take (nat (last (k # ks))) edges)"
    using Cons.IH[OF k(3)] k(1) by simp
  also have "\<dots> = drop j (take (nat (last (k # ks))) edges)"
  proof -
    let ?t = "take (nat (last (k # ks))) edges"
    have "take (nat k) edges = take (nat k) ?t" using le by (simp add: min_def)
    then have "drop j (take (nat k) edges) @ drop (nat k) ?t = drop j (take (nat k) ?t) @ drop (nat k) ?t" by simp
    also have "\<dots> = drop j ?t" using k(2) by (metis append_take_drop_id drop_drop drop_take le_add_diff_inverse2)
    finally show ?thesis .
  qed
  finally show ?case by simp
qed simp

section \<open>Checks\<close>

text \<open>
  Arrays that are a graph: the ends of the pieces of edges do not decrease, every edge leads to one of the
  processes, and none leads from a node to itself.
\<close>

definition graph_ok :: "int \<Rightarrow> int list \<Rightarrow> int list \<Rightarrow> bool" where
  "graph_ok comm_size index edges \<longleftrightarrow> index \<noteq> [] \<and> sorted index \<and> (\<forall>k \<in> set index. 0 \<le> k) \<and> last index = int (length edges)
     \<and> (\<forall>x \<in> set edges. 0 \<le> x \<and> x < comm_size) \<and> (\<forall>i < length index. int i \<notin> set (neighbours index edges i))"

lemma check_none: "(if b then Some er else None) = None \<longleftrightarrow> \<not> b"
  by simp

lemma index_errors_none:
  "(\<forall>x \<in> set (index_errors (length index) index). x = None) \<longleftrightarrow> sorted index \<and> (\<forall>k \<in> set index. 0 \<le> k)"
proof -
  have nc: "(\<not> (A \<and> B)) = (A \<longrightarrow> \<not> B)" for A B by blast
  have "(\<forall>x \<in> set (index_errors n index). x = None)
    \<longleftrightarrow> (\<forall>i < n. 0 \<le> index ! i \<and> (Suc i < n \<longrightarrow> index ! i \<le> index ! Suc i))" for n
    unfolding index_errors_def
    by (simp only: set_concat set_map ball_UN ball_simps list.set check_none nc not_less) (simp add: Ball_def)
  then have "(\<forall>x \<in> set (index_errors (length index) index). x = None)
    \<longleftrightarrow> (\<forall>i < length index. 0 \<le> index ! i) \<and> (\<forall>i. Suc i < length index \<longrightarrow> index ! i \<le> index ! Suc i)"
    using Suc_lessD by metis
  then show ?thesis unfolding sorted_iff_nth_Suc all_set_conv_all_nth[of index] by blast
qed

lemma edge_errors_none:
  "(\<forall>x \<in> set (edge_errors comm_size edges). x = None) \<longleftrightarrow> (\<forall>x \<in> set edges. 0 \<le> x \<and> x \<le> comm_size)"
  unfolding edge_errors_def by (simp only: set_map ball_simps check_none) (auto simp: not_less)

lemma check_class: "Some er \<in> set (index_errors n index @ edge_errors comm_size edges) \<Longrightarrow> err_class er = MPI_ERR_ARG"
  by (auto simp: index_errors_def edge_errors_def split: if_splits)

text \<open>
  With arrays of the right length the checks answer. They let the graphs of one process more than there are
  through: the rank \<open>comm_size\<close>, which no process has, passes for an edge.
\<close>

lemma graph_checks_eq:
  assumes "index \<noteq> []" "int (length index) \<le> comm_size" "last index = int (length edges)"
  obtains (valid) "graph_checks comm_size (int (length index)) index edges = Some None" "graph_ok (comm_size + 1) index edges"
  | (invalid) er where "graph_checks comm_size (int (length index)) index edges = Some (Some er)"
      "\<not> graph_ok (comm_size + 1) index edges" "err_class er = MPI_ERR_ARG"
proof -
  let ?es = "index_errors (length index) index @ edge_errors comm_size edges"
  have nedges: "index ! (length index - 1) = int (length edges)" using assms(1,3) by (simp add: last_conv_nth)
  have g: "graph_checks comm_size (int (length index)) index edges = (case last_of ?es of Some er \<Rightarrow> Some (Some er)
      | None \<Rightarrow> Some (if null_edge_loop edges 0 0 index then Some (new_error MPI_ERR_ARG ''**nulledge'') else None))"
    using assms(1,2) nedges by (simp add: graph_checks_def Let_def)
  show thesis
  proof (cases "last_of ?es")
    case (Some er)
    then have "\<exists>x \<in> set ?es. x \<noteq> None" using last_of_None_iff[of ?es] by auto
    then have "\<not> graph_ok (comm_size + 1) index edges"
      using index_errors_none[of index] edge_errors_none[of comm_size edges] by (auto simp: graph_ok_def)
    then show thesis using Some g invalid[of er] check_class[OF last_of_Some[OF Some]] by simp
  next
    case None
    then have e: "sorted index" "\<forall>k \<in> set index. 0 \<le> k" "\<forall>x \<in> set edges. 0 \<le> x \<and> x \<le> comm_size"
      using last_of_None_iff[of ?es] index_errors_none[of index] edge_errors_none[of comm_size edges] by auto
    have "null_edge_loop edges 0 0 index \<longleftrightarrow> (\<exists>m < length index. int m \<in> set (neighbours index edges m))"
      using null_edge_loop_iff[of 0 index edges 0] e(1,2) by simp
    then show thesis
      using None g e valid invalid[of "new_error MPI_ERR_ARG ''**nulledge''"] assms(1,3)
      by (cases "null_edge_loop edges 0 0 index") (auto simp: graph_ok_def zless_add1_eq)
  qed
qed

section \<open>The communicator\<close>

lemma graph_comm_step:
  assumes "comm_setting e st comm p used ids" "0 < n" "n \<le> length (cm_vcr (body st p))" "int n < 2 ^ 31"
    "reorder \<longrightarrow> ce_table e = cart_table (length (cm_vcr (body st p))) n \<and> (\<forall>x. ce_malloc e x)"
  obtains (failed) st' er where "graph_comm e st p (int n) reorder = Some (st', Inl er)" "body st' = body st"
      "mask_ids ids = {} \<or> nomem_error er"
  | (outside) st' where "graph_comm e st p (int n) reorder = Some (st', Inr 0)" "body st' = body st" "cm_rank (body st p) \<ge> int n"
  | (made) st' q b where "graph_comm e st p (int n) reorder = Some (st', Inr q)"
      "cm_rank (body st p) < int n" "q \<noteq> 0" "q \<notin> pool_live (cpool st)" "\<forall>x. comm_known (ce_calloc e) st x \<longrightarrow> x \<noteq> q"
      "comm_state_ok st'" "pool_live (cpool st') = insert q (pool_live (cpool st))" "body st' = (body st)(q := b)"
      "copy_made (body st p) n b" "cm_context_id b \<notin> used" "ids_split (comm_ids st') (insert (cm_context_id b) used)"
proof -
  note a = comm_settingD[OF assms(1)]
  have g: "errtest_comm comm = None" "MPID_Comm_get_ptr st comm = p" "MPID_Comm_valid_ptr st p = None"
    using a(4) by (auto simp: get_comm_def Let_def split: option.splits)
  have m: "MPI_Graph_map st comm (int n) = Inr (MPIR_Graph_map (body st p) (int n))"
    "MPI_Cart_map st comm 1 [int n] = Some (Inr (MPIR_Graph_map (body st p) (int n)))"
    using g a(7,8) assms(2-4)
    by (simp_all add: MPI_Graph_map_def MPI_Cart_map_def MPIR_Cart_map_def MPIR_Graph_map_def Let_def)
  have same: "graph_comm e st p (int n) reorder
    = map_option (\<lambda>(st, r). (st, case r of Inl er \<Rightarrow> Inl er | Inr (q, rank) \<Rightarrow> Inr q)) (cart_comm e st p [int n] reorder (int n))"
    using m a(5) by (simp add: graph_comm_def cart_comm_def split: option.splits sum.splits prod.splits)
  have dims: "[int n] \<noteq> []" "\<forall>d \<in> set [int n]. d > 0" "prod_list [int n] = int n" using assms(2) by simp_all
  show thesis
  proof (cases rule: cart_comm_step[OF assms(1) dims assms(3,4,5)])
    case (1 st' er)
    then show thesis using failed[of st' er] same by simp
  next
    case (2 st' rank)
    then show thesis using outside[of st'] same by simp
  next
    case (3 st' q b)
    then show thesis using made[of st' q b] same by simp
  qed
qed

definition new_graph :: "int list \<Rightarrow> int list \<Rightarrow> MPIR_Graph_topology" where
  "new_graph index edges = \<lparr>gr_nnodes = int (length index), gr_nedges = int (length edges), gr_index = index, gr_edges = edges\<rparr>"

lemma place_graph_eq:
  assumes "index \<noteq> []" "last index = int (length edges)"
  shows "place_graph e m P q (int (length index)) index edges =
    (let t = tm_topology m (topologies (user (attrs P))) in
     if t = 0 \<or> \<not> tm_array m ''graph.index'' \<or> \<not> tm_array m ''graph.edges''
     then Some (P, Inl (new_error MPI_ERR_OTHER ''**nomem2''))
     else place_topology e P q t (MPI_GRAPH (new_graph index edges)))"
proof -
  have "index ! nat (int (length index) - 1) = int (length edges)" 
    using assms by (simp add: last_conv_nth nat_minus_as_int)
  then show ?thesis by (simp add: place_graph_def new_graph_def Let_def)
qed

lemma graph_create_step:
  assumes "topo_rel P L H" "keyval_room e P" "calloc_fresh (pe_calloc e 0 (MPID_Attr_mem (attrs P))) (MPID_Attr_mem (attrs P))"
    "comm_setting (pe_comm e) (comms P) comm p used ids" "\<forall>q \<in> dom L. comm_known (ce_calloc (pe_comm e)) (comms P) q"
    "index \<noteq> []" "last index = int (length edges)" "length index \<le> length (cm_vcr (body (comms P) p))" "int (length index) < 2 ^ 31"
    "topologies (user (attrs P)) (tm_topology m (topologies (user (attrs P)))) = None"
    "reorder \<longrightarrow> ce_table (pe_comm e) = cart_table (length (cm_vcr (body (comms P) p))) (length index) \<and> (\<forall>x. ce_malloc (pe_comm e) x)"
  obtains (failed) P' er where "MPIR_Graph_create e m P p (int (length index)) index edges reorder = Some (P', Inl er)"
      "topo_kept P L H P'" "mask_ids ids = {} \<or> nomem_error er"
  | (outside) P' where "MPIR_Graph_create e m P p (int (length index)) index edges reorder = Some (P', Inr MPI_COMM_NULL)"
      "topo_kept P L H P'" "cm_rank (body (comms P) p) \<ge> int (length index)"
  | (made) P' q newcomm b where "MPIR_Graph_create e m P p (int (length index)) index edges reorder = Some (P', Inr newcomm)"
      "cm_rank (body (comms P) p) < int (length index)"
      "topo_made e P L H (tm_topology m (topologies (user (attrs P)))) (MPI_GRAPH (new_graph index edges)) q P' newcomm"
      "(body (comms P') q)\<lparr>cm_attributes := 0\<rparr> = b" "copy_made (body (comms P) p) (length index) b" "cm_context_id b \<notin> used"
proof -
  let ?n = "length index" and ?t = "tm_topology m (topologies (user (attrs P)))"
  have n0: "0 < ?n" using assms(6) by simp
  note a = comm_settingD[OF assms(4)]
  show thesis
  proof (cases rule: graph_comm_step[OF assms(4) n0 assms(8,9,11)])
    case (1 st er)
    then show thesis using failed[of "P\<lparr>comms := st\<rparr>" "fn_fail ''**mpi_graph_create'' er"] topo_kept_comms[OF assms(1), of st]
      by (auto simp: MPIR_Graph_create_def)
  next
    case (2 st)
    then show thesis using outside[of "P\<lparr>comms := st\<rparr>"] topo_kept_comms[OF assms(1), of st] by (simp add: MPIR_Graph_create_def)
  next
    case (3 st q b)
    have L: "L q = None" using 3(5) assms(5) by blast
    have b: "cm_ref_count b = 1" "cm_attributes b = 0" using 3(9) by (simp_all add: copy_made_def)
    have create: "MPIR_Graph_create e m P p (int ?n) index edges reorder = map_option (\<lambda>(P, r). (P, wrap_fail ''**mpi_graph_create'' r))
        (place_graph e m (P\<lparr>comms := st\<rparr>) q (int ?n) index edges)" using 3(1,3) by (simp add: MPIR_Graph_create_def)
    show thesis
    proof (cases rule: place_wrapped[OF assms(1-3) 3(6-8) b L assms(10) create[unfolded place_graph_eq[OF assms(6,7)]]])
      case (1 P' er)
      then show thesis using failed by simp
    next
      case (2 P')
      then show thesis using made[of P' "handle_of (cheap st) q" q b] 3(2,9,10) by simp
    qed
  qed
qed

section \<open>A communicator with a graph\<close>

definition graph_of :: "'v topo_user process_env \<Rightarrow> 'v topo_user process \<Rightarrow> handle \<Rightarrow> nat \<Rightarrow> MPIR_Graph_topology \<Rightarrow> bool" where
  "graph_of e P comm p g \<longleftrightarrow> get_comm (comms P) comm = Inr p \<and> topology_of e P p = Some (Some (MPI_GRAPH g))
     \<and> gr_nnodes g = int (length (gr_index g)) \<and> gr_nedges g = int (length (gr_edges g)) \<and> gr_index g \<noteq> []
     \<and> sorted (gr_index g) \<and> (\<forall>k \<in> set (gr_index g). 0 \<le> k) \<and> last (gr_index g) = int (length (gr_edges g))"


lemma graph_bounds:
  assumes "graph_of e P comm p g" "i < length (gr_index g)"
  shows "0 \<le> (0 # gr_index g) ! i" "(0 # gr_index g) ! i \<le> gr_index g ! i" "gr_index g ! i \<le> int (length (gr_edges g))"
proof -
  have s: "sorted (0 # gr_index g)" "last (gr_index g) = int (length (gr_edges g))" "gr_index g \<noteq> []"
    using assms(1) by (simp_all add: graph_of_def)
  show "(0 # gr_index g) ! i \<le> gr_index g ! i" using sorted_nth_mono[OF s(1), of i "Suc i"] assms(2) by simp
  show "0 \<le> (0 # gr_index g) ! i" using sorted_nth_mono[OF s(1), of 0 i] assms(2) by simp
  have "gr_index g ! i \<le> gr_index g ! (length (gr_index g) - 1)"
    using sorted_nth_mono[of "gr_index g" i "length (gr_index g) - 1"] s(1) assms(2) by simp
  then show "gr_index g ! i \<le> int (length (gr_edges g))" using s(2,3) by (simp add: last_conv_nth)
qed

text \<open>
  C5: On a communicator with a graph, \<open>MPI_Graph_neighbors\<close> gives each node its piece of the edges when the array of
  the caller has room, \<open>MPI_Graph_neighbors_count\<close> gives its length, and the pieces of all nodes in order are
  the array of edges that was given and that \<open>MPI_Graph_get\<close> gives back.
\<close>

theorem MPI_Graph_neighbors_correct:
  assumes "graph_of e P comm p g" "i < length (gr_index g)" "int (length (neighbours (gr_index g) (gr_edges g) i)) \<le> maxneighbors"
    "gr_nnodes g \<le> maxindex" "gr_nedges g \<le> maxedges"
  shows "MPI_Graph_neighbors e P comm (int i) maxneighbors = Some (Inr (neighbours (gr_index g) (gr_edges g) i))
    \<and> MPI_Graph_neighbors_count e P comm (int i) = Some (Inr (int (length (neighbours (gr_index g) (gr_edges g) i))))
    \<and> MPI_Graph_get e P comm maxindex maxedges = Some (Inr (gr_index g, gr_edges g))
    \<and> concat (map (neighbours (gr_index g) (gr_edges g)) [0..<length (gr_index g)]) = gr_edges g"
proof -
  let ?index = "gr_index g" and ?edges = "gr_edges g"
  note b = graph_bounds[OF assms(1,2)]
  have g: "comm_graph msg e P comm = Some (Inr g)" for msg using assms(1) by (simp add: graph_of_def comm_graph_def)
  have n: "gr_nnodes g = int (length ?index)" "gr_nedges g = int (length ?edges)" using assms(1) by (simp_all add: graph_of_def)
  have len: "int (length (neighbours ?index ?edges i)) = ?index ! i - (0 # ?index) ! i"
    using b by (simp add: neighbours_from_def of_nat_diff min_def) linarith
  have "MPI_Graph_neighbors e P comm (int i) maxneighbors = Some (Inr (neighbours ?index ?edges i))"
    using b assms(2,3) n len by (cases i) (simp_all add: MPI_Graph_neighbors_def g neighbours_from_def Let_def nat_add_distrib)
  moreover have "MPI_Graph_neighbors_count e P comm (int i) = Some (Inr (int (length (neighbours ?index ?edges i))))"
    using assms(2) n(1) unfolding len by (cases i) (simp_all add: MPI_Graph_neighbors_count_def g nat_add_distrib)
  moreover have "MPI_Graph_get e P comm maxindex maxedges = Some (Inr (?index, ?edges))"
    using assms(4,5) n by (simp add: MPI_Graph_get_def g)
  moreover have "sorted (int 0 # ?index)" "last (int 0 # ?index) = int (length ?edges)"
    using assms(1) by (auto simp: graph_of_def)
  then have "concat (map (neighbours ?index ?edges) [0..<length ?index]) = ?edges"
    using concat_neighbours_from[of 0 ?index ?edges] by simp
  ultimately show ?thesis by simp
qed

end
