(* ===== verification/CartSub.thy ===== *)
theory CartSub
  imports CartCreate
begin

text \<open>
  Subgrids: splitting by the number of the dropped coordinates, with the number of the kept ones as key,
  gives each process its own kept coordinates in the grid that remains.
\<close>

section \<open>Kept and dropped coordinates\<close>

abbreviation dropped :: "bool list \<Rightarrow> 'a list \<Rightarrow> 'a list" where
  "dropped remain xs \<equiv> kept (map Not remain) xs"

lemma kept_simps [simp]:
  "kept [] xs = []" "kept rs [] = []" "kept (r # rs) (x # xs) = (if r then x # kept rs xs else kept rs xs)"
  by (simp_all add: kept_def)

lemma set_kept: "set (kept rs xs) \<subseteq> set xs"
proof (induction rs xs rule: list_induct2')
  case (4 r rs x xs)
  then show ?case by auto
qed simp_all

lemma length_kept: "length xs = length ys \<Longrightarrow> length (kept rs xs) = length (kept rs ys)"
proof (induction xs ys arbitrary: rs rule: list_induct2)
  case (Cons x xs y ys)
  then show ?case by (cases rs) auto
qed simp

lemma kept_in_grid: "in_grid ds xs \<Longrightarrow> in_grid (kept rs ds) (kept rs xs)"
proof (induction ds xs arbitrary: rs rule: list_induct2')
  case (4 d ds x xs)
  then show ?case by (cases rs) auto
qed auto

lemma kept_inj:
  assumes "length xs = length ys" "length rs = length xs" "kept rs xs = kept rs ys" "dropped rs xs = dropped rs ys"
  shows "xs = ys"
  using assms
proof (induction xs ys arbitrary: rs rule: list_induct2)
  case (Cons x xs y ys)
  then show ?case by (cases rs) (auto split: if_splits)
qed simp

lemma merge_coords:
  assumes "length rs = length ds" "in_grid (kept rs ds) xs" "in_grid (dropped rs ds) ys"
  shows "\<exists>zs. in_grid ds zs \<and> kept rs zs = xs \<and> dropped rs zs = ys"
  using assms
proof (induction rs ds arbitrary: xs ys rule: list_induct2)
  case (Cons r rs d ds)
  show ?case
  proof (cases r)
    case True
    then obtain x xs' where "xs = x # xs'" using Cons.prems by (cases xs) auto
    moreover then obtain zs where "in_grid ds zs" "kept rs zs = xs'" "dropped rs zs = ys"
      using Cons.IH[of xs' ys] Cons.prems True by auto
    ultimately show ?thesis using Cons.prems True by (intro exI[of _ "x # zs"]) simp
  next
    case False
    then obtain y ys' where "ys = y # ys'" using Cons.prems by (cases ys) auto
    moreover then obtain zs where "in_grid ds zs" "kept rs zs = xs" "dropped rs zs = ys'"
      using Cons.IH[of xs ys'] Cons.prems False by auto
    ultimately show ?thesis using Cons.prems False by (intro exI[of _ "y # zs"]) simp
  qed
qed simp

lemma horner_rank_of:
  assumes "length ds = length xs"
  shows "fold (\<lambda>(d, x) k. k * d + x) (zip ds xs) k = k * prod_list ds + rank_of ds xs"
  using assms by (induction ds xs arbitrary: k rule: list_induct2) (simp_all add: algebra_simps)

lemma sub_key_color_eq:
  assumes "length rs = length ds" "length ds = length xs"
  shows "sub_key_color (zip rs (zip ds xs)) = (rank_of (kept rs ds) (kept rs xs), rank_of (dropped rs ds) (dropped rs xs))"
proof -
  have l: "length (kept rs' ds) = length (kept rs' xs)" for rs' by (rule length_kept) (rule assms(2))
  have "fold (\<lambda>(remain, d, x) (key, color). if remain then (key * d + x, color) else (key, color * d + x))
      (zip rs (zip ds xs)) (k, c)
    = (fold (\<lambda>(d, x) k. k * d + x) (zip (kept rs ds) (kept rs xs)) k, fold (\<lambda>(d, x) k. k * d + x) (zip (dropped rs ds) (dropped rs xs)) c)"
    for k c
    using assms by (induction rs ds xs arbitrary: k c rule: list_induct3) auto
  then show ?thesis by (simp add: sub_key_color_def horner_rank_of l)
qed

lemma sub_size_eq:
  assumes "length rs = length ds"
  shows "sub_size (zip rs ds) = (int (length (kept rs ds)), prod_list (kept rs ds))"
proof -
  have "fold (\<lambda>(remain, d) (ndims, nnodes). if remain then (ndims + 1, nnodes * d) else (ndims, nnodes)) (zip rs ds) (n, m)
    = (n + int (length (kept rs ds)), m * prod_list (kept rs ds))" for n m :: int
    using assms by (induction rs ds arbitrary: n m rule: list_induct2) (auto simp: algebra_simps)
  then show ?thesis by (simp add: sub_size_def)
qed

section \<open>The split\<close>

definition sub_table :: "bool list \<Rightarrow> int list \<Rightarrow> nat \<Rightarrow> splittype list" where
  "sub_table rs ds n = map (\<lambda>r. let xs = coords_of ds (int r) in
     \<lparr>sp_color = rank_of (dropped rs ds) (dropped rs xs), sp_key = rank_of (kept rs ds) (kept rs xs)\<rparr>) [0..<n]"

lemma sorted_map_enum:
  assumes "sorted (map f xs)" "inj_on f (set xs)" "distinct xs" "f ` set xs = {0..<int m}"
  shows "map f xs = map int [0..<m]"
proof (rule sorted_distinct_set_unique)
  show "distinct (map f xs)" using assms(2,3) by (simp add: distinct_map)
  show "sorted (map int [0..<m])" by (simp add: sorted_wrt_map sorted_wrt_iff_nth_less)
  show "set (map f xs) = set (map int [0..<m])" using assms(4) by (auto simp: image_int_atLeastLessThan)
qed (use assms(1) in \<open>simp_all add: distinct_map\<close>)

text \<open>The members of the new communicator are enumerated by their kept coordinates.\<close>

lemma sub_table_order:
  assumes "length rs = length ds" "\<forall>d \<in> set ds. d > 0" "prod_list ds = int n" "in_grid ds pos"
  defines "order \<equiv> split_order (sub_table rs ds n) (rank_of (dropped rs ds) (dropped rs pos))"
  shows "map (\<lambda>r. rank_of (kept rs ds) (kept rs (coords_of ds (int r)))) order = map int [0..<nat (prod_list (kept rs ds))]"
    "set order = {r. r < n \<and> dropped rs (coords_of ds (int r)) = dropped rs pos}" "distinct order"
proof -
  let ?xs = "\<lambda>r. coords_of ds (int r)"
  have g: "in_grid ds (?xs r)" "rank_of ds (?xs r) = int r" if "r < n" for r
    using coords_of_in_grid[OF assms(2)] rank_of_coords_of[OF assms(2)] that assms(3) by simp_all
  have same: "rank_of (dropped rs ds) (dropped rs (?xs r)) = rank_of (dropped rs ds) (dropped rs pos)
      \<longleftrightarrow> dropped rs (?xs r) = dropped rs pos" if "r < n" for r
    using rank_of_inj[OF kept_in_grid[OF g(1)[OF that]] kept_in_grid[OF assms(4)]] by auto
  show s: "set order = {r. r < n \<and> dropped rs (?xs r) = dropped rs pos}"
    unfolding order_def split_order_facts(1) using same by (auto simp: sub_table_def Let_def)
  show d: "distinct order" unfolding order_def by (rule split_order_facts(2))
  let ?f = "\<lambda>r. rank_of (kept rs ds) (kept rs (?xs r))"
  have keys: "map (\<lambda>i. sp_key (sub_table rs ds n ! i)) order = map ?f order"
    using s by (intro map_cong) (auto simp: sub_table_def Let_def)
  have sorted: "sorted (map ?f order)" using split_order_sorted[of "sub_table rs ds n"] keys unfolding order_def by metis
  have inj: "inj_on ?f (set order)"
  proof (rule inj_onI)
    fix r r' assume r: "r \<in> set order" "r' \<in> set order" "?f r = ?f r'"
    then have lt: "r < n" "r' < n" "dropped rs (?xs r) = dropped rs (?xs r')" using s by auto
    have "kept rs (?xs r) = kept rs (?xs r')"
      using rank_of_inj[OF kept_in_grid[OF g(1)[OF lt(1)]] kept_in_grid[OF g(1)[OF lt(2)]] r(3)] .
    then have "?xs r = ?xs r'"
      using kept_inj[of "?xs r" "?xs r'" rs] lt(3) in_grid_length[OF g(1)[OF lt(1)]] in_grid_length[OF g(1)[OF lt(2)]] assms(1) by simp
    then show "r = r'" using g(2)[OF lt(1)] g(2)[OF lt(2)] by (metis of_nat_eq_iff)
  qed
  have kd: "\<forall>d \<in> set (kept rs ds). d > 0" using assms(2) set_kept[of rs ds] by auto
  have "?f ` set order = {0..<prod_list (kept rs ds)}"
  proof
    show "?f ` set order \<subseteq> {0..<prod_list (kept rs ds)}"
      using rank_of_range[OF kept_in_grid[OF g(1)]] s by auto
    show "{0..<prod_list (kept rs ds)} \<subseteq> ?f ` set order"
    proof
      fix k assume k: "k \<in> {0..<prod_list (kept rs ds)}"
      then have kx: "in_grid (kept rs ds) (coords_of (kept rs ds) k)" "rank_of (kept rs ds) (coords_of (kept rs ds) k) = k"
        using coords_of_in_grid[OF kd] rank_of_coords_of[OF kd] by simp_all
      obtain zs where z: "in_grid ds zs" "kept rs zs = coords_of (kept rs ds) k" "dropped rs zs = dropped rs pos"
        using merge_coords[OF assms(1) kx(1) kept_in_grid[OF assms(4)]] by blast
      let ?r = "nat (rank_of ds zs)"
      have r: "int ?r = rank_of ds zs" "?r < n" using rank_of_range[OF z(1)] assms(3) by auto
      have x: "?xs ?r = zs" unfolding r(1) by (rule coords_of_rank_of[OF z(1)])
      have "?r \<in> set order" unfolding s using r(2) x z(3) by simp
      moreover have "?f ?r = k" unfolding x z(2) by (rule kx(2))
      ultimately show "k \<in> ?f ` set order" by blast
    qed
  qed
  moreover have "prod_list (kept rs ds) = int (nat (prod_list (kept rs ds)))" using prod_dims_pos[OF kd] by simp
  ultimately show "map ?f order = map int [0..<nat (prod_list (kept rs ds))]"
    using sorted_map_enum[OF sorted inj d] by metis
qed

section \<open>MPI_Cart_sub\<close>

definition sub_cart :: "MPIR_Cart_topology \<Rightarrow> bool list \<Rightarrow> MPIR_Cart_topology" where
  "sub_cart c rs = \<lparr>ct_nnodes = prod_list (kept rs (ct_dims c)), ct_ndims = int (length (kept rs (ct_dims c))),
     ct_dims = kept rs (ct_dims c), ct_periodic = kept rs (ct_periodic c), ct_position = kept rs (ct_position c)\<rparr>"

lemma sub_cart_ok:
  assumes "cart_ok c" "in_grid (ct_dims c) (ct_position c)"
  shows "cart_ok (sub_cart c rs)" "in_grid (ct_dims (sub_cart c rs)) (ct_position (sub_cart c rs))"
proof -
  have l: "length (kept rs (ct_periodic c)) = length (kept rs (ct_dims c))" "length (kept rs (ct_position c)) = length (kept rs (ct_dims c))"
    using assms(1) length_kept unfolding cart_ok_def by metis+
  show "cart_ok (sub_cart c rs)" using assms(1) set_kept[of rs "ct_dims c"] l by (auto simp: cart_ok_def sub_cart_def)
  show "in_grid (ct_dims (sub_cart c rs)) (ct_position (sub_cart c rs))"
    using kept_in_grid[OF assms(2)] by (simp add: sub_cart_def)
qed

text \<open>The communicator of a subgrid, from the split.\<close>

lemma split_made_sub:
  assumes "cart_ok c" "in_grid (ct_dims c) (ct_position c)" "length rs = length (ct_dims c)" "ct_nnodes c = int n"
    "split_made b (split_order (sub_table rs (ct_dims c) n) (rank_of (dropped rs (ct_dims c)) (dropped rs (ct_position c)))) r b'"
    "int r = rank_of (ct_dims c) (ct_position c)"
  shows "cm_rank b' = rank_of (ct_dims (sub_cart c rs)) (ct_position (sub_cart c rs))" "cm_remote_size b' = ct_nnodes (sub_cart c rs)"
    "length (cm_vcr b') = nat (ct_nnodes (sub_cart c rs))"
    "x < n \<Longrightarrow> dropped rs (coords_of (ct_dims c) (int x)) = dropped rs (ct_position c)
      \<Longrightarrow> cm_vcr b' ! nat (rank_of (kept rs (ct_dims c)) (kept rs (coords_of (ct_dims c) (int x)))) = cm_vcr b ! x"
proof -
  let ?kd = "kept rs (ct_dims c)" and ?xs = "\<lambda>r. coords_of (ct_dims c) (int r)"
  define order where "order = split_order (sub_table rs (ct_dims c) n) (rank_of (dropped rs (ct_dims c)) (dropped rs (ct_position c)))"
  have d: "\<forall>d \<in> set (ct_dims c). d > 0" "prod_list (ct_dims c) = int n" using assms(1,4) by (simp_all add: cart_ok_def)
  note o = sub_table_order[OF assms(3) d assms(2), folded order_def]
  have pos: "prod_list ?kd > 0" using d(1) set_kept[of rs "ct_dims c"] by (intro prod_dims_pos) auto
  have len: "length order = nat (prod_list ?kd)" using arg_cong[OF o(1), of length] by simp
  have key: "rank_of ?kd (kept rs (?xs (order ! i))) = int i" if "i < length order" for i
    using arg_cong[OF o(1), of "\<lambda>xs. xs ! i"] that len by simp
  have at: "order ! nat (rank_of ?kd (kept rs (?xs x))) = x \<and> nat (rank_of ?kd (kept rs (?xs x))) < length order" if "x \<in> set order" for x
    using that key by (auto simp: in_set_conv_nth)
  have s: "split_made b order r b'" using assms(5) by (simp add: order_def)
  then have rank: "0 \<le> cm_rank b'" "nat (cm_rank b') < length order" "order ! nat (cm_rank b') = r" by (simp_all add: split_made_def)
  have "?xs r = ct_position c" using coords_of_rank_of[OF assms(2)] assms(6) by simp
  then show "cm_rank b' = rank_of (ct_dims (sub_cart c rs)) (ct_position (sub_cart c rs))"
    using key[OF rank(2)] rank by (simp add: sub_cart_def)
  show "cm_remote_size b' = ct_nnodes (sub_cart c rs)" "length (cm_vcr b') = nat (ct_nnodes (sub_cart c rs))"
    using s len pos by (simp_all add: split_made_def sub_cart_def)
  show "cm_vcr b' ! nat (rank_of ?kd (kept rs (?xs x))) = cm_vcr b ! x" if "x < n" "dropped rs (?xs x) = dropped rs (ct_position c)"
  proof -
    have "x \<in> set order" using that o(2) by simp
    then show ?thesis using at s by (simp add: split_made_def)
  qed
qed

lemma place_sub_eq:
  assumes "cart_ok c" "in_grid (ct_dims c) (ct_position c)" "length rs = length (ct_dims c)" "q \<noteq> 0"
    "cm_rank (body (comms P) q) = rank_of (ct_dims (sub_cart c rs)) (ct_position (sub_cart c rs))"
  shows "place_sub e m P q c rs =
    (let t = tm_topology m (topologies (user (attrs P))) in
     if t = 0 \<or> kept rs (ct_dims c) \<noteq> [] \<and> (\<not> tm_array m ''cart.dims'' \<or> \<not> tm_array m ''cart.periodic'' \<or> \<not> tm_array m ''cart.position'')
     then Some (P, Inl (new_error MPI_ERR_OTHER ''**nomem2''))
     else place_topology e P q t (MPI_CART (sub_cart c rs)))"
proof -
  note k = sub_cart_ok[OF assms(1,2), of rs]
  have "0 \<le> cm_rank (body (comms P) q)" using rank_of_range[OF k(2)] assms(5) by simp
  then have "position_loop (prod_list (kept rs (ct_dims c))) (cm_rank (body (comms P) q)) (kept rs (ct_dims c)) = Some (kept rs (ct_position c))"
    using position_loop_eq[of "kept rs (ct_dims c)"] k coords_of_rank_of[OF k(2)] assms(5) by (simp add: cart_ok_def sub_cart_def)
  then show ?thesis
    using assms(4) by (auto simp: place_sub_def sub_size_eq[OF assms(3)] sub_cart_def Let_def)
qed

lemma cart_sub_step:
  assumes "topo_rel P L H" "keyval_room e P" "calloc_fresh (pe_calloc e 0 (MPID_Attr_mem (attrs P))) (MPID_Attr_mem (attrs P))"
    "comm_setting (pe_comm e) (comms P) comm p used ids" "\<forall>q \<in> dom L. comm_known (ce_calloc (pe_comm e)) (comms P) q"
    "cart_of e P comm p c" "length rs = length (ct_dims c)" "ct_nnodes c = int n"
    "ce_table (pe_comm e) = sub_table rs (ct_dims c) n" "\<forall>x. ce_malloc (pe_comm e) x"
    "topologies (user (attrs P)) (tm_topology m (topologies (user (attrs P)))) = None"
  obtains (failed) P' er where "MPI_Cart_sub e m P comm rs = Some (P', Inl er)" "topo_kept P L H P'" "mask_ids ids = {} \<or> nomem_error er"
  | (made) P' q newcomm b r where "MPI_Cart_sub e m P comm rs = Some (P', Inr newcomm)"
      "topo_made e P L H (tm_topology m (topologies (user (attrs P)))) (MPI_CART (sub_cart c rs)) q P' newcomm"
      "(body (comms P') q)\<lparr>cm_attributes := 0\<rparr> = b" "int r = rank_of (ct_dims c) (ct_position c)"
      "split_made (body (comms P) p)
         (split_order (sub_table rs (ct_dims c) n) (rank_of (dropped rs (ct_dims c)) (dropped rs (ct_position c)))) r b"
      "cm_context_id b \<notin> used"
proof -
  note a = comm_settingD[OF assms(4)] and c = cart_ofD[OF assms(6)]
  let ?kd = "kept rs (ct_dims c)"
  let ?color = "rank_of (dropped rs (ct_dims c)) (dropped rs (ct_position c))" and ?key = "rank_of ?kd (kept rs (ct_position c))"
  define r where "r = nat (rank_of (ct_dims c) (ct_position c))"
  have nn: "prod_list (ct_dims c) = int n" using c(4) assms(8) by (simp add: cart_ok_def)
  have r: "int r = rank_of (ct_dims c) (ct_position c)" "r < n" using rank_of_range[OF c(7)] nn by (auto simp: r_def)
  have x: "coords_of (ct_dims c) (int r) = ct_position c" unfolding r(1) by (rule coords_of_rank_of[OF c(7)])
  have t: "r < length (ce_table (pe_comm e))" "ce_table (pe_comm e) ! r = \<lparr>sp_color = ?color, sp_key = ?key\<rparr>"
    using r(2) x assms(9) by (simp_all add: sub_table_def Let_def)
  have rank: "cm_rank (body (comms P) p) = int r" using c(8) r(1) by simp
  have kc: "sub_key_color (zip rs (zip (ct_dims c) (ct_position c))) = (?key, ?color)"
    by (rule sub_key_color_eq[OF assms(7) in_grid_length[OF c(7), symmetric]])
  have n: "take (nat (ct_ndims c)) rs = rs" "\<not> int (length rs) < ct_ndims c" using c(5) assms(7) by simp_all
  have topo: "topology_of e P p = Some (Some (MPI_CART c))" using assms(6) by (simp add: cart_of_def)
  note unf = MPI_Cart_sub_def c(1) topo n kc
  have color: "?color \<noteq> MPI_UNDEFINED" using rank_of_range[OF kept_in_grid[OF c(7)], of "map Not rs"] by auto
  show thesis
  proof (cases rule: MPI_Comm_split_spec[OF a(1,2,4,3,6) rank t a(11,12) assms(10)])
    case (1 st er)
    then show thesis using failed[of "P\<lparr>comms := st\<rparr>" "fn_fail ''**mpi_cart_sub'' er"] topo_kept_comms[OF assms(1), of st]
      by (auto simp: unf)
  next
    case (2 st)
    then show thesis using color by simp
  next
    case (3 st q b)
    have L: "L q = None" using 3(13) assms(5) by blast
    have b: "cm_ref_count b = 1" "cm_attributes b = 0" using 3(6) by (simp_all add: split_made_def)
    have q0: "q \<noteq> 0" using hm.null_not_live[of "cpool st"] 3(11,12) unfolding comm_state_ok_def by (metis insertI1)
    have "split_made (body (comms P) p) (split_order (sub_table rs (ct_dims c) n) ?color) r b" using 3(6) assms(9) by simp
    note s = this split_made_sub(1)[OF c(4,7) assms(7,8) this r(1)]
    have "cm_rank (body (comms (P\<lparr>comms := st\<rparr>)) q) = rank_of (ct_dims (sub_cart c rs)) (ct_position (sub_cart c rs))"
      using 3(5) s(2) by simp
    note ps = place_sub_eq[OF c(4,7) assms(7) q0 this, of e m]
    have sub: "MPI_Cart_sub e m P comm rs = map_option (\<lambda>(P, r). (P, wrap_fail ''**mpi_cart_sub'' r)) (place_sub e m (P\<lparr>comms := st\<rparr>) q c rs)"
      using 3(1,9) by (simp add: unf)
    show thesis
    proof (cases rule: place_wrapped[OF assms(1-3) 3(11,12,5) b L assms(11) sub[unfolded ps]])
      case (1 P' er)
      then show thesis using failed by simp
    next
      case (2 P')
      then show thesis using made[of P' "handle_of (cheap st) q" q b r] r(1) s(1) 3(7) by simp
    qed
  qed
qed

text \<open>
  C2: \<open>MPI_Cart_sub\<close> on a grid, called by all its processes, always returns. It fails only for want of a context
  id or of memory, and then no communicator that was there, no attribute and no topology changes (a new object
  and its id can be left behind). Else the process gets a new communicator with a context id of its own and a
  grid of the kept dimensions as its only attribute, in which it stands at its kept coordinates; the members
  are exactly the processes with the same dropped coordinates, each at the rank of its kept coordinates.
\<close>

theorem MPI_Cart_sub_correct:
  assumes "topo_rel P L H" "keyval_room e P" "calloc_fresh (pe_calloc e 0 (MPID_Attr_mem (attrs P))) (MPID_Attr_mem (attrs P))"
    "comm_setting (pe_comm e) (comms P) comm p used ids" "\<forall>q \<in> dom L. comm_known (ce_calloc (pe_comm e)) (comms P) q"
    "cart_of e P comm p c" "length rs = length (ct_dims c)" "ct_nnodes c = int n"
    "ce_table (pe_comm e) = sub_table rs (ct_dims c) n" "\<forall>x. ce_malloc (pe_comm e) x"
    "topologies (user (attrs P)) (tm_topology m (topologies (user (attrs P)))) = None"
  shows "\<exists>P' r. MPI_Cart_sub e m P comm rs = Some (P', r)
    \<and> (case r of
         Inl er \<Rightarrow> topo_kept P L H P' \<and> (mask_ids ids = {} \<or> nomem_error er)
       | Inr newcomm \<Rightarrow> (let t = tm_topology m (topologies (user (attrs P))); s = sub_cart c rs; old = cm_vcr (body (comms P) p) in
           \<exists>q. topo_made e P L H t (MPI_CART s) q P' newcomm \<and> cart_of e P' newcomm q s
             \<and> cm_context_id (body (comms P') q) \<notin> used
             \<and> (let new = cm_vcr (body (comms P') q) in
                length new = nat (ct_nnodes s)
                \<and> (\<forall>x < n. let xs = coords_of (ct_dims c) (int x) in dropped rs xs = dropped rs (ct_position c)
                     \<longrightarrow> new ! nat (rank_of (ct_dims s) (kept rs xs)) = old ! x))))"
proof (cases rule: cart_sub_step[OF assms])
  case (1 P' er)
  then show ?thesis by (intro exI[of _ P'] exI[of _ "Inl er"]) simp
next
  case (2 P' q newcomm b r)
  note c = cart_ofD[OF assms(6)]
  note s = split_made_sub[OF c(4,7) assms(7,8) 2(5,4)] and k = sub_cart_ok[OF c(4,7), of rs]
  have b: "cm_remote_size (body (comms P') q) = cm_remote_size b" "cm_rank (body (comms P') q) = cm_rank b"
    "cm_context_id (body (comms P') q) = cm_context_id b" "cm_vcr (body (comms P') q) = cm_vcr b" using 2(3) by auto
  have co: "cart_of e P' newcomm q (sub_cart c rs)"
    using 2(2) s(1,2) k b(1,2) unfolding cart_of_def topo_made_def by simp
  have kd: "ct_dims (sub_cart c rs) = kept rs (ct_dims c)" by (simp add: sub_cart_def)
  show ?thesis
    unfolding Let_def
  proof (intro exI conjI)
    show "MPI_Cart_sub e m P comm rs = Some (P', Inr newcomm)" by (rule 2(1))
    show "case Inr newcomm of Inl er \<Rightarrow> topo_kept P L H P' \<and> (mask_ids ids = {} \<or> nomem_error er)
       | Inr newcomm \<Rightarrow> \<exists>q. topo_made e P L H (tm_topology m (topologies (user (attrs P)))) (MPI_CART (sub_cart c rs)) q P' newcomm
             \<and> cart_of e P' newcomm q (sub_cart c rs) \<and> cm_context_id (body (comms P') q) \<notin> used
             \<and> length (cm_vcr (body (comms P') q)) = nat (ct_nnodes (sub_cart c rs))
             \<and> (\<forall>x < n. dropped rs (coords_of (ct_dims c) (int x)) = dropped rs (ct_position c)
                  \<longrightarrow> cm_vcr (body (comms P') q) ! nat (rank_of (ct_dims (sub_cart c rs)) (kept rs (coords_of (ct_dims c) (int x))))
                    = cm_vcr (body (comms P) p) ! x)"
      unfolding sum.case by (rule exI[of _ q]) (use 2(2,6) co s(3,4) in \<open>simp add: kd b\<close>)
  qed
qed

end
