(* ===== verification/MpiAttrRuns.thy ===== *)
theory MpiAttrRuns
  imports MpiAttrSpec
begin

text \<open>
  The theorems on attributes at a concrete process: two keyvals, the second one with a delete function that
  fails, and attributes on \<open>MPI_COMM_WORLD\<close> and on a duplicate of it.
\<close>

definition sample_attrs :: "nat attr_state" where
  "sample_attrs =
     \<lparr>aheap = \<lparr>handle_of = (\<lambda>_. 0), next_of = (\<lambda>_. 0),
        attr_of = (\<lambda>_. \<lparr>at_keyval = 0, at_next = 0, at_pre_sentinal = 0, at_value = 0, at_post_sentinal = 0\<rparr>)\<rparr>,
      MPID_Attr_mem = new_pool MPID_ATTR 40 2000 4,
      kheap = \<lparr>handle_of = (\<lambda>_. 0), next_of = (\<lambda>_. 0),
        keyval_of = (\<lambda>_. \<lparr>kv_ref_count = 0, kv_language = MPID_LANG_C, kv_kind = 0, kv_extra_state = 0, kv_copyfn = 0, kv_delfn = 0\<rparr>)\<rparr>,
      MPID_Keyval_mem = new_pool MPID_KEYVAL 40 3000 2, attr_dup_set = False, user = 0\<rparr>"

definition sample_process :: "nat process" where
  "sample_process =
     \<lparr>comms = sample_comms,
      groups = \<lparr>gheap = \<lparr>handle_of = (\<lambda>_. 0), next_of = (\<lambda>_. 0), g_ref = (\<lambda>_. 0), g_size = (\<lambda>_. 0), g_rank = (\<lambda>_. 0),
          g_first = (\<lambda>_. 0), pm_lrank = (\<lambda>_ _. 0), pm_lpid = (\<lambda>_ _. 0), pm_next = (\<lambda>_ _. 0), pm_flag = (\<lambda>_ _. 0)\<rparr>,
        MPID_Group_mem = new_pool MPID_GROUP 40 4000 4, MPID_Group_builtin = 5000\<rparr>,
      attrs = sample_attrs, comm_parent = 0,
      predef = \<lparr>pd_appnum = - 1, pd_host = - 1, pd_io = 0, pd_lastusedcode = 0, pd_tag_ub = 1000, pd_universe = - 1,
        pd_wtime_is_global = 0\<rparr>\<rparr>"

text \<open>Copy functions double the value; delete function 2 fails. The user's state counts the calls.\<close>

abbreviation no_memory :: calloc_env where "no_memory \<equiv> \<lparr>table_ok = False, new_block = 0\<rparr>"

definition sample_world :: "nat process_env" where
  "sample_world =
     \<lparr>pe_attr = \<lparr>ae_delete = (\<lambda>l fn obj kv extra v u. (if fn = 2 then 1 else 0, u + 1)),
        ae_copy = (\<lambda>l fn obj kv extra v u. (0, 2 * v, True, u + 1))\<rparr>,
      pe_calloc = (\<lambda>_ _. no_memory), pe_comm = sample_comm_env, pe_universe = Inr 4, pe_vcrt = (\<lambda>_ _. None)\<rparr>"

lemma world_fresh: "calloc_fresh (pe_calloc sample_world n om) om" "calloc_fresh no_memory om'"
  by (simp_all add: sample_world_def calloc_fresh_def)

abbreviation kv1 :: handle where "kv1 \<equiv> 0xA4400000"
abbreviation kv2 :: handle where "kv2 \<equiv> 0xA4400001"
abbreviation WORLD :: handle where "WORLD \<equiv> 0x44000000"

section \<open>The start\<close>

lemma fresh_rel:
  assumes "cm_attributes (body (comms P) 500) = 0" "MPID_Attr_mem (attrs P) = new_pool MPID_ATTR 40 2000 4"
    "MPID_Keyval_mem (attrs P) = new_pool MPID_KEYVAL 40 3000 2"
  shows "process_rel P [500 \<mapsto> []] {}"
proof -
  have live: "pool_live (h, new_pool k osize dir n) = {}" for h :: "'h handle_heap_scheme" and k osize dir n
    by (simp add: pool_live_def pool_objs_def new_pool_def blocks_def)
  have new: "pool_ok (h, new_pool k 40 d n)" if "unat k < 16" "d \<noteq> 0" "0 < n" "n \<le> 2 ^ 26" for h :: "'h handle_heap_scheme" and k d n
    using new_pool_inv[of k 40 d n h] that by (auto simp: pool_ok_def)
  have "pool_ok (apool (attrs P))" "pool_ok (kpool_of (attrs P) (handle_of (kheap (attrs P))))"
    by (simp_all add: apool_def kpool_of_def assms new)
  moreover have k: "klive (attrs P) = {}" by (simp add: klive_def assms live)
  ultimately have "attrs_ok (attrs P) {} {}"
    by (auto simp: attrs_ok_def keyvals_ok_def assms(2,3) new_pool_def intro!: exI[of _ "handle_of (kheap (attrs P))"])
  then show ?thesis using k by (simp add: process_rel_def lists_ok_def nodes_def assms(1))
qed

lemma sample_rel: "process_rel sample_process [500 \<mapsto> []] {}"
  by (rule fresh_rel) (simp_all add: sample_process_def sample_attrs_def sample_comms_def)

definition keyval_run :: "nat \<Rightarrow> nat process \<Rightarrow> nat process" where
  "keyval_run delfn P = P\<lparr>attrs := fst (MPI_Comm_create_keyval no_memory (attrs P) 1 delfn 0)\<rparr>"

definition one_keyval :: "nat process" where "one_keyval = keyval_run 1 sample_process"
definition two_keyvals :: "nat process" where "two_keyvals = keyval_run 2 one_keyval"

text \<open>The definitions a run of the routines unfolds.\<close>

lemma link_block_numeral: "link_block h ptr osize mk i (numeral v) hptr =
     link_block (h\<lparr>next_of := (next_of h)(ptr := ptr + osize), handle_of := (handle_of h)(ptr := mk i)\<rparr>)
       (ptr + osize) osize mk (Suc i) (pred_numeral v) ptr"
  by (simp add: numeral_eq_Suc)

lemmas alloc_runs = MPIU_Handle_obj_alloc_def MPIU_Handle_direct_init_def new_pool_def Let_def link_block_numeral direct_handle_def

lemmas keyval_runs = two_keyvals_def one_keyval_def keyval_run_def sample_process_def sample_attrs_def MPI_Comm_create_keyval_def
  create_keyval_def set_keyval_def keyval_handle_def

lemma keyval_values:
  "snd (MPI_Comm_create_keyval no_memory (attrs sample_process) 1 1 0) = Inr kv1
   \<and> snd (MPI_Comm_create_keyval no_memory (attrs one_keyval) 1 2 0) = Inr kv2
   \<and> om_direct_size (MPID_Keyval_mem (attrs sample_process)) = 2 \<and> om_indirect_size (MPID_Keyval_mem (attrs sample_process)) = 0
   \<and> om_direct_size (MPID_Keyval_mem (attrs one_keyval)) = 2 \<and> om_indirect_size (MPID_Keyval_mem (attrs one_keyval)) = 0"
  by (simp add: keyval_runs alloc_runs)

lemma keyval_run_rel:
  assumes "process_rel P L H" "snd (MPI_Comm_create_keyval no_memory (attrs P) 1 delfn 0) = Inr kv"
    "om_direct_size (MPID_Keyval_mem (attrs P)) = 2" "om_indirect_size (MPID_Keyval_mem (attrs P)) = 0"
  shows "process_rel (keyval_run delfn P) L (insert kv H)"
  using assms(2)
  by (cases rule: create_comm_keyval[OF assms(1) world_fresh(2), where c = 1 and d = delfn and x = 0])
    (simp_all add: assms(3,4) keyval_run_def)

lemma two_rel: "process_rel two_keyvals [500 \<mapsto> []] {kv2, kv1}"
  using keyval_run_rel[of one_keyval _ _ 2 kv2] keyval_run_rel[OF sample_rel, of 1 kv1] keyval_values
  by (simp add: two_keyvals_def one_keyval_def)

lemma two_comms: "comms two_keyvals = sample_comms" "predef two_keyvals = predef sample_process"
  by (simp_all add: two_keyvals_def one_keyval_def keyval_run_def sample_process_def)

lemma world_comm: "get_comm (comms two_keyvals) WORLD = Inr 500"
  unfolding two_comms by (rule sample_comms_ids(3))


text \<open>The state with the two keyvals, written out.\<close>

abbreviation two_keyval_heap :: keyval_heap where
  "two_keyval_heap \<equiv> \<lparr>handle_of = (\<lambda>_. 0)(3000 := kv1, 3040 := kv2), next_of = (\<lambda>_. 0)(3000 := 3040, 3040 := 0),
     keyval_of = (keyval_of (kheap sample_attrs))(3000 := new_keyval MPID_COMM 1 1 0, 3040 := new_keyval MPID_COMM 1 2 0)\<rparr>"

lemma two_keyvals_state:
  "two_keyvals = \<lparr>comms = sample_comms, groups = groups sample_process,
     attrs = \<lparr>aheap = aheap sample_attrs, MPID_Attr_mem = MPID_Attr_mem sample_attrs, kheap = two_keyval_heap,
       MPID_Keyval_mem = (new_pool MPID_KEYVAL 40 3000 2)\<lparr>om_initialized := True\<rparr>, attr_dup_set = True, user = 0\<rparr>,
     comm_parent = 0, predef = predef sample_process\<rparr>"
  by (simp add: keyval_runs alloc_runs new_keyval_def fun_upd_def fun_eq_iff)

section \<open>Attributes\<close>

lemmas attr_runs = MPI_Comm_set_attr_def MPI_Comm_delete_attr_def attr_set_def attr_delete_def set_search.simps attr_find.simps
  new_attr_def keyval_add_ref_def link_attr_def set_attr_def set_keyval_def set_attributes_def upd_comm_def set_body_def
  MPIR_Call_attr_delete_def keyval_release_def MPID_Attr_free_def MPIU_Handle_obj_free_def
  get_comm_keyval_def handle_checks_def errtest_comm_def errtest_keyval_def errtest_keyval_perm_def
  MPID_Comm_get_ptr_def MPID_Keyval_get_ptr_def MPID_Comm_valid_ptr_def keyval_valid_ptr_def
  HANDLE_GET_KIND_def HANDLE_GET_MPI_KIND_def HANDLE_INDEX_def last_of_def lang_value_def
  sample_world_def sample_comms_def sample_process_def sample_attrs_def

text \<open>\<open>MPI_COMM_WORLD\<close> with an attribute for the second keyval.\<close>

abbreviation attr_node :: "nat \<Rightarrow> nat \<Rightarrow> int \<Rightarrow> attr_body" where
  "attr_node k n v \<equiv> \<lparr>at_keyval = k, at_next = n, at_pre_sentinal = 0, at_value = v, at_post_sentinal = 0\<rparr>"

definition one_attr :: "nat process" where
  "one_attr = two_keyvals\<lparr>comms := set_body 500 ((body sample_comms 500)\<lparr>cm_attributes := 2000\<rparr>) sample_comms,
     attrs := (attrs two_keyvals)\<lparr>
       aheap := \<lparr>handle_of = (\<lambda>_. 0)(2000 := direct_handle MPID_ATTR 0, 2040 := direct_handle MPID_ATTR 1,
           2080 := direct_handle MPID_ATTR 2, 2120 := direct_handle MPID_ATTR 3),
         next_of = (\<lambda>_. 0)(2000 := 2040, 2040 := 2080, 2080 := 2120),
         attr_of = (attr_of (aheap sample_attrs))(2000 := attr_node 3040 0 7)\<rparr>,
       MPID_Attr_mem := (new_pool MPID_ATTR 40 2000 4)\<lparr>om_initialized := True, om_avail := 2040\<rparr>,
       kheap := two_keyval_heap\<lparr>keyval_of := (keyval_of two_keyval_heap)(3040 := (new_keyval MPID_COMM 1 2 0)\<lparr>kv_ref_count := 2\<rparr>)\<rparr>\<rparr>\<rparr>"

lemma one_attr_run: "MPI_Comm_set_attr sample_world two_keyvals WORLD kv2 7 = Some (one_attr, None)"
  by (simp add: two_keyvals_state one_attr_def attr_runs alloc_runs new_keyval_def fun_upd_def fun_eq_iff)


lemma one_attr_rel: "process_rel one_attr [500 \<mapsto> [2000]] {kv2, kv1}" "pairs (attrs one_attr) [2000] = [(kv2, 7)]"
  "get_comm (comms one_attr) WORLD = Inr 500"
proof -
  obtain ns where ns: "process_rel one_attr [500 \<mapsto> ns] {kv2, kv1}" "same_comms two_keyvals one_attr"
    using set_attr_step[OF two_rel world_comm, of "[]" kv2 sample_world 7] world_fresh(1) by (auto simp: one_attr_run)
  show "get_comm (comms one_attr) WORLD = Inr 500" using ns(2) world_comm by (simp add: same_comms_def)
  have "hlist (anext (attrs one_attr)) 2000 ns"
    using process_relD(4)[OF ns(1), of 500 ns] by (simp add: one_attr_def set_body_def)
  moreover have "hlist (anext (attrs one_attr)) 2000 [2000]" by (simp add: one_attr_def)
  ultimately have "ns = [2000]" by (rule hlist_functional)
  then show "process_rel one_attr [500 \<mapsto> [2000]] {kv2, kv1}" using ns(1) by simp
  show "pairs (attrs one_attr) [2000] = [(kv2, 7)]"
    by (simp add: pairs_def akey_def one_attr_def)
qed

text \<open>The second setting calls the delete function of the second keyval with the value 7, which fails.\<close>

lemma one_attr_entries: "del_entries (attrs one_attr) [2000] = [(kv2, MPID_LANG_C, 2, 0, 7)]" "user (attrs one_attr) = 0"
  by (simp_all add: del_entries_def akey_def one_attr_def two_keyvals_state new_keyval_def)

lemma MPI_Comm_set_attr_correct_witness:
  "\<exists>P1 P2 ns. MPI_Comm_set_attr sample_world two_keyvals WORLD kv2 7 = Some (P1, None)
     \<and> process_rel P1 [500 \<mapsto> ns] {kv2, kv1} \<and> attr_view P1 [500 \<mapsto> ns] 500 = Some [(kv2, 7)]
     \<and> MPI_Comm_set_attr sample_world P1 WORLD kv2 8
         = Some (P2, Some (fn_fail ''**mpi_comm_set_attr'' (new_error MPI_ERR_OTHER ''**user'')))
     \<and> user (attrs P2) = 1 \<and> attr_view P2 [500 \<mapsto> [2000]] 500 = Some [(kv2, 7)]"
proof -
  have L: "[500 \<mapsto> [2000]] 500 = Some [2000]" "kv2 \<in> {kv2, kv1}" by simp_all
  have 1: "\<exists>ns. process_rel one_attr [500 \<mapsto> ns] {kv2, kv1} \<and> attr_view one_attr [500 \<mapsto> ns] 500 = Some [(kv2, 7)]"
    using MPI_Comm_set_attr_correct[OF two_rel world_comm, of "[]" kv2 sample_world 7] world_fresh(1)
    by (auto simp: one_attr_run pairs_def)
  have calls: "delete_calls (pe_attr sample_world) WORLD (replaced kv2 (del_entries (attrs one_attr) [2000])) False (user (attrs one_attr))
      = (True, 1)" by (simp add: one_attr_entries) (simp add: sample_world_def)
  obtain P2 er ns where 2: "MPI_Comm_set_attr sample_world one_attr WORLD kv2 8 = Some (P2, er)"
    "(True, 1) = (er = Some (fn_fail ''**mpi_comm_set_attr'' (new_error MPI_ERR_OTHER ''**user'')), user (attrs P2))"
    "case er of None \<Rightarrow> True | Some x \<Rightarrow> attr_view P2 [500 \<mapsto> [2000]] = attr_view one_attr [500 \<mapsto> [2000]]"
    using MPI_Comm_set_attr_correct[OF one_attr_rel(1,3) L world_fresh(1), of 8] unfolding calls
    by (elim exE conjE) (rule that, assumption+, simp split: option.splits)
  have view: "attr_view one_attr [500 \<mapsto> [2000]] 500 = Some [(kv2, 7)]" by (simp add: attr_view_def one_attr_rel(2))
  obtain ns where ns: "process_rel one_attr [500 \<mapsto> ns] {kv2, kv1}" "attr_view one_attr [500 \<mapsto> ns] 500 = Some [(kv2, 7)]"
    using 1 by blast
  show ?thesis
    by (intro exI[of _ one_attr] exI[of _ P2] exI[of _ ns] conjI) (use one_attr_run ns 2 view in simp_all)
qed

lemma MPI_Comm_get_attr_correct_witness: "MPI_Comm_get_attr sample_world one_attr WORLD kv2 = Some (Inr (Value 7))"
  using MPI_Comm_get_attr_correct[OF one_attr_rel(1,3), of "[2000]" kv2 sample_world] by (simp add: one_attr_rel(2))

lemma stale_runs:
  "\<exists>P1 P2 P3. MPI_Comm_set_attr sample_world one_attr WORLD kv1 1 = Some (P1, None)
     \<and> MPI_Comm_set_attr sample_world P1 WORLD kv1 2 = Some (P2, None)
     \<and> MPI_Comm_delete_attr sample_world P2 WORLD kv1 = Some (P3, None)"
  by (simp add: two_keyvals_state one_attr_def attr_runs alloc_runs new_keyval_def)

lemma MPI_Comm_set_attr_stale_witness:
  "\<exists>P1 P2 P3. MPI_Comm_set_attr sample_world one_attr WORLD kv1 1 = Some (P1, None)
     \<and> MPI_Comm_set_attr sample_world P1 WORLD kv1 2 = Some (P2, None)
     \<and> MPI_Comm_delete_attr sample_world P2 WORLD kv1 = Some (P3, None)
     \<and> MPI_Comm_get_attr sample_world P3 WORLD kv1 = Some (Inr (Value 1))"
proof -
  have L: "[500 \<mapsto> [2000]] 500 = Some [2000]" "kv1 \<in> {kv2, kv1}" by simp_all
  have "kv1 \<notin> fst ` set (pairs (attrs one_attr) [2000])" "\<exists>y \<in> set (pairs (attrs one_attr) [2000]). sint (fst y) > sint kv1"
    by (simp_all add: one_attr_rel(2))
  note s = MPI_Comm_set_attr_stale[OF one_attr_rel(1,3) L this world_fresh(1)]
  show ?thesis using stale_runs s by blast
qed

lemma MPI_Comm_delete_attr_correct_witness:
  "\<exists>P1 P2 ns. MPI_Comm_set_attr sample_world one_attr WORLD kv1 1 = Some (P1, None)
     \<and> MPI_Comm_delete_attr sample_world P1 WORLD kv1 = Some (P2, None)
     \<and> process_rel P2 [500 \<mapsto> ns] {kv2, kv1} \<and> attr_view P2 [500 \<mapsto> ns] 500 = Some [(kv2, 7)]
     \<and> user (attrs P2) = 1"
proof -
  obtain P1 P2 where r: "MPI_Comm_set_attr sample_world one_attr WORLD kv1 1 = Some (P1, None)"
      "MPI_Comm_delete_attr sample_world P1 WORLD kv1 = Some (P2, None)" "user (attrs P1) = 0"
      "del_entries (attrs P1) [2000, 2040] = [(kv2, MPID_LANG_C, 2, 0, 7), (kv1, MPID_LANG_C, 1, 0, 1)]"
      "hlist (anext (attrs P1)) (cm_attributes (body (comms P1) 500)) [2000, 2040]"
    by (simp add: del_entries_def akey_def two_keyvals_state one_attr_def attr_runs alloc_runs new_keyval_def)
  obtain ns where 1: "process_rel P1 [500 \<mapsto> ns] {kv2, kv1}" "same_comms one_attr P1"
    "attr_view P1 [500 \<mapsto> ns] 500 = Some (put_pair kv1 1 [(kv2, 7)])"
    using set_attr_step[OF one_attr_rel(1,3), of "[2000]" kv1 sample_world 1] world_fresh(1)
    by (auto simp: r(1) one_attr_rel(2))
  have "get_comm (comms P1) WORLD = Inr 500" "pairs (attrs P1) ns = put_pair kv1 1 [(kv2, 7)]"
    using 1(2,3) one_attr_rel(3) by (simp_all add: same_comms_def attr_view_def)
  moreover have "ns = [2000, 2040]" using hlist_functional[OF process_relD(4)[OF 1(1), of 500 ns] r(5)] by simp
  then have "delete_calls (pe_attr sample_world) WORLD (first_of kv1 (del_entries (attrs P1) ns)) False (user (attrs P1)) = (False, 1)"
    by (simp add: r(3,4)) (simp add: sample_world_def)
  ultimately show ?thesis
    using MPI_Comm_delete_attr_correct[OF 1(1), of WORLD 500 ns kv1 sample_world] r(1,2) by auto
qed


lemma MPI_Comm_create_keyval_correct_witness:
  "\<exists>st'. MPI_Comm_create_keyval no_memory (attrs sample_process) 1 1 0 = (st', Inr kv1)
     \<and> process_rel (sample_process\<lparr>attrs := st'\<rparr>) [500 \<mapsto> []] {kv1}"
proof -
  have s: "om_direct_size (MPID_Keyval_mem (attrs sample_process)) \<le> 2 ^ 22"
    "om_indirect_size (MPID_Keyval_mem (attrs sample_process)) < 64" using keyval_values by simp_all
  obtain st' res where r: "MPI_Comm_create_keyval no_memory (attrs sample_process) 1 1 0 = (st', res)"
    "case res of Inl er \<Rightarrow> er = fn_fail ''**mpi_comm_create_keyval'' (new_error MPI_ERR_OTHER ''**nomem'')
         \<and> process_rel (sample_process\<lparr>attrs := st'\<rparr>) [500 \<mapsto> []] {}
     | Inr kv \<Rightarrow> kv \<notin> {} \<and> process_rel (sample_process\<lparr>attrs := st'\<rparr>) [500 \<mapsto> []] (insert kv {})
         \<and> keyval st' (MPID_Keyval_get_ptr st' kv) = new_keyval MPID_COMM 1 1 0"
    using MPI_Comm_create_keyval_correct[OF sample_rel world_fresh(2) s, of 1 1 0] by blast
  moreover have "res = Inr kv1" using keyval_values r(1) by simp
  ultimately show ?thesis by simp
qed

lemma MPI_Comm_free_keyval_correct_witness:
  "\<exists>st'. MPI_Comm_free_keyval (attrs one_attr) kv2 = (st', Inr MPI_KEYVAL_INVALID)
     \<and> process_rel (one_attr\<lparr>attrs := st'\<rparr>) [500 \<mapsto> [2000]] {kv1} \<and> at_keyval (attr st' 2000) \<in> klive st'"
proof -
  have "{kv2, kv1} - {kv2} = {kv1}" by auto
  then show ?thesis
    using MPI_Comm_free_keyval_correct[OF one_attr_rel(1), of kv2] by (auto simp: nodes_def)
qed

section \<open>A duplicate\<close>

lemma comm_known_set_body: "comm_known e (set_body p b st) q = comm_known e st q"
  by (simp add: comm_known_def)

lemma one_attr_comms:
  "comms one_attr = set_body 500 ((body sample_comms 500)\<lparr>cm_attributes := 2000\<rparr>) sample_comms"
  by (simp add: one_attr_def)

lemma world_env: "pe_comm sample_world = sample_comm_env" "pe_vcrt sample_world v d = None"
  by (simp_all add: sample_world_def)

lemma dup_hyps:
  "comm_state_ok (comms one_attr)" "calloc_fresh (ce_calloc sample_comm_env) (MPID_Comm_mem (comms one_attr))"
  "\<forall>q \<in> dom [500 \<mapsto> [2000]]. comm_known (ce_calloc sample_comm_env) (comms one_attr) q"
  "cm_kind (body (comms one_attr) 500) = MPID_INTRACOMM"
  "cm_local_size (body (comms one_attr) 500) = int (length (cm_vcr (body (comms one_attr) 500)))"
  "cm_rank (body (comms one_attr) 500) < cm_local_size (body (comms one_attr) 500)"
  "ids_split (comm_ids (comms one_attr)) {}"
  "reduced_mask sample_comm_env (comms one_attr) (context_mask (MPIR_Init_contextid start_contextid))"
  using sample_comms_ok sample_comms_ids(1,2)
  by (simp_all add: one_attr_comms comm_known_set_body reduced_mask_def) (simp_all add: sample_comms_def)

lemma world_copies:
  "copy_pairs (pe_attr sample_world) (handle_of (cheap (comms one_attr)) 500) (entries (attrs one_attr) [2000]) (user (attrs one_attr))
     = ([(kv2, 14)], False, 1)"
  by (simp add: entries_def akey_def one_attr_def two_keyvals_state new_keyval_def sample_world_def lang_value_def)


lemma copy_runs:
  "\<exists>cs. MPIR_Comm_copy sample_comm_env (comms one_attr) 500 4 = Some (cs, Inr 1000) \<and> handle_of (cheap cs) 1000 = 0x84000000
     \<and> cm_ref_count (body cs 1000) = 1 \<and> MPID_Comm_get_ptr cs 0x84000000 = 1000"
proof (cases rule: get_contextid_spec[OF dup_hyps(7,8)])
  case (1 ids)
  then show ?thesis using mask_ids_init[of start_contextid] by (auto simp: set_eq_iff dest!: spec[of _ 3])
next
  case (2 ids c)
  then show ?thesis
    by (simp add: MPIR_Comm_copy_def comm_copy_ids_def MPIR_Comm_create_def copy_body_def add_errhandler_ref_def alloc_runs
        one_attr_comms set_body_def sample_comms_def MPID_Comm_get_ptr_def MPID_Get_ptr_def HANDLE_GET_KIND_def HANDLE_INDEX_def)
qed

text \<open>The attributes once the one of \<open>MPI_COMM_WORLD\<close> is copied.\<close>

definition dup_attrs :: "nat attr_state" where
  "dup_attrs = (attrs one_attr)\<lparr>
     aheap := (aheap (attrs one_attr))\<lparr>attr_of := (attr_of (aheap (attrs one_attr)))(2040 := attr_node 3040 0 14)\<rparr>,
     MPID_Attr_mem := (MPID_Attr_mem (attrs one_attr))\<lparr>om_avail := 2080\<rparr>,
     kheap := (kheap (attrs one_attr))\<lparr>keyval_of := (keyval_of (kheap (attrs one_attr)))
       (3040 := (new_keyval MPID_COMM 1 2 0)\<lparr>kv_ref_count := 3\<rparr>)\<rparr>, user := 1\<rparr>"

lemma dup_run:
  assumes "MPIR_Comm_copy sample_comm_env (comms one_attr) 500 4 = Some (cs, Inr 1000)"
  shows "MPI_Comm_dup sample_world one_attr WORLD
    = Some (set_attributes 1000 2040 (one_attr\<lparr>attrs := dup_attrs, comms := cs\<rparr>), Inr (handle_of (cheap cs) 1000))"
proof -
  have "MPIR_Attr_dup_list (pe_attr sample_world) (pe_calloc sample_world) (handle_of (cheap (comms one_attr)) 500) 2000 (attrs one_attr)
      = Some (dup_attrs, 2040, None)"
    by (simp add: MPIR_Attr_dup_list_def dup_list_loop.simps dup_attrs_def one_attr_def two_keyvals_state attr_runs alloc_runs
        new_keyval_def fun_upd_def fun_eq_iff)
  moreover have "attr_dup_set (attrs one_attr)" "cm_attributes (body (comms one_attr) 500) = 2000"
      "cm_local_size (body (comms one_attr) 500) = 4"
    by (simp_all add: one_attr_def two_keyvals_state set_body_def sample_comms_def)
  ultimately show ?thesis using assms one_attr_rel(3) by (simp add: MPI_Comm_dup_def world_env)
qed


lemma length_four: "length [a, b, c, d] = 4"
  by simp

lemma MPI_Comm_dup_correct_witness:
  "\<exists>P' q qs. MPI_Comm_dup sample_world one_attr WORLD = Some (P', Inr 0x84000000)
     \<and> MPID_Comm_get_ptr (comms P') 0x84000000 = q \<and> cm_vcr (body (comms P') q) = [10, 11, 12, 13]
     \<and> process_rel P' [500 \<mapsto> [2000], q \<mapsto> qs] {kv2, kv1} \<and> pairs (attrs P') qs = [(kv2, 14)]"
proof -
  have L: "[500 \<mapsto> [2000]] 500 = Some [2000]" by simp
  obtain cs where cs: "MPIR_Comm_copy sample_comm_env (comms one_attr) 500 4 = Some (cs, Inr 1000)" "handle_of (cheap cs) 1000 = 0x84000000"
    using copy_runs by blast
  have v: "cm_vcr (body (comms one_attr) 500) = [10, 11, 12, 13]" by (simp add: one_attr_comms sample_comms_def)
  obtain P q qs b where "MPI_Comm_dup sample_world one_attr WORLD = Some (P, Inr 0x84000000)"
      "MPID_Comm_get_ptr (comms P) 0x84000000 = q" "body (comms P) = (body (comms one_attr))(q := b)"
      "process_rel P [500 \<mapsto> [2000], q \<mapsto> qs] {kv2, kv1}" "copy_made (body (comms one_attr) 500) 4 (b\<lparr>cm_attributes := 0\<rparr>)"
      "pairs (attrs P) qs = [(kv2, 14)]"
  proof -
    obtain P res where r: "MPI_Comm_dup sample_world one_attr WORLD = Some (P, res)"
      "let copied = ([(kv2, 14)], False, 1) in case res of Inl er \<Rightarrow> True
       | Inr newcomm \<Rightarrow> \<exists>q qs b. MPID_Comm_get_ptr (comms P) newcomm = q \<and> body (comms P) = (body (comms one_attr))(q := b)
           \<and> copy_made (body (comms one_attr) 500) 4 (b\<lparr>cm_attributes := 0\<rparr>)
           \<and> process_rel P [500 \<mapsto> [2000], q \<mapsto> qs] {kv2, kv1} \<and> copied = (pairs (attrs P) qs, False, user (attrs P))"
      using MPI_Comm_dup_correct[OF one_attr_rel(1,3) L world_fresh(1) _ _ _ dup_hyps(4-7), unfolded world_env, OF dup_hyps(1-3,8)]
      unfolding world_copies v by (simp only: length_four) (fastforce split: sum.splits simp: Let_def)
    moreover have "res = Inr 0x84000000" using r(1) dup_run[OF cs(1)] cs(2) by simp
    ultimately show thesis using that by (auto simp: Let_def)
  qed
  then show ?thesis using v by (intro exI[of _ P] exI[of _ q] exI[of _ qs]) (simp add: copy_made_def)
qed

text \<open>The duplicate, with what freeing it needs.\<close>

lemma dup_facts:
  "\<exists>P b. MPI_Comm_dup sample_world one_attr WORLD = Some (P, Inr 0x84000000) \<and> attrs P = dup_attrs
     \<and> get_comm (comms P) 0x84000000 = Inr 1000 \<and> handle_of (cheap (comms P)) 1000 = 0x84000000 \<and> body (comms P) 1000 = b
     \<and> process_rel P [500 \<mapsto> [2000], 1000 \<mapsto> [2040]] {kv2, kv1} \<and> comm_state_ok (comms P) \<and> 1000 \<in> pool_live (cpool (comms P))
     \<and> cm_ref_count b = 1 \<and> cm_kind b = MPID_INTRACOMM \<and> cm_attributes b = 2040
     \<and> ids_split (comm_ids (comms P)) {cm_recvcontext_id b}"
proof -
  have L: "[500 \<mapsto> [2000]] 500 = Some [2000]" by simp
  obtain cs where cs: "MPIR_Comm_copy sample_comm_env (comms one_attr) 500 4 = Some (cs, Inr 1000)" "handle_of (cheap cs) 1000 = 0x84000000"
    "cm_ref_count (body cs 1000) = 1" "MPID_Comm_get_ptr cs 0x84000000 = 1000" using copy_runs by blast
  let ?P = "set_attributes 1000 2040 (one_attr\<lparr>attrs := dup_attrs, comms := cs\<rparr>)"
  have "MPID_Comm_get_ptr (comms ?P) = MPID_Comm_get_ptr cs"
    by (simp add: fun_eq_iff MPID_Comm_get_ptr_def set_attributes_def upd_comm_def)
  then have ptr: "MPID_Comm_get_ptr (comms ?P) 0x84000000 = 1000" using cs(4) by simp
  obtain q qs b where d: "MPID_Comm_get_ptr (comms ?P) 0x84000000 = q" "comm_state_ok (comms ?P)"
      "pool_live (cpool (comms ?P)) = insert q (pool_live (cpool (comms one_attr)))"
      "body (comms ?P) = (body (comms one_attr))(q := b)" "process_rel ?P [500 \<mapsto> [2000], q \<mapsto> qs] {kv2, kv1}"
      "copy_made (body (comms one_attr) 500) (length (cm_vcr (body (comms one_attr) 500))) (b\<lparr>cm_attributes := 0\<rparr>)"
      "ids_split (comm_ids (comms ?P)) {cm_context_id b}"
    using comm_dup_step[OF one_attr_rel(1,3) L world_fresh(1) _ _ _ dup_hyps(4-7), unfolded world_env, OF dup_hyps(1-3,8)]
    unfolding dup_run[OF cs(1)] cs(2) by (auto simp: Let_def simp del: set_attributes_simps)
  have q: "q = 1000" using d(1) ptr by simp
  have "body (comms ?P) 1000 = (body cs 1000)\<lparr>cm_attributes := 2040\<rparr>" by simp
  then have b: "b = (body cs 1000)\<lparr>cm_attributes := 2040\<rparr>" using d(4) q by (simp del: set_attributes_simps)
  have "hlist (anext dup_attrs) 2040 qs"
    using process_relD(4)[OF d(5), of 1000 qs] q by simp
  moreover have "hlist (anext dup_attrs) 2040 [2040]" by (simp add: dup_attrs_def)
  ultimately have qs: "qs = [2040]" by (rule hlist_functional)
  have "get_comm (comms ?P) 0x84000000 = Inr 1000"
    using ptr cs(3) by (simp add: get_comm_def MPID_Comm_valid_ptr_def errtest_comm_def HANDLE_GET_MPI_KIND_def HANDLE_GET_KIND_def)
  moreover have "handle_of (cheap (comms ?P)) 1000 = 0x84000000" using cs(2) by (simp add: set_attributes_def)
  moreover have "cm_kind b = MPID_INTRACOMM" "cm_recvcontext_id b = cm_context_id b" "cm_ref_count b = 1"
    using d(6) by (simp_all add: copy_made_def)
  ultimately show ?thesis using dup_run[OF cs(1)] cs(2) d q qs b
    by (intro exI[of _ ?P] exI[of _ b]) (simp del: set_attributes_simps(2))
qed

text \<open>The delete function of the second keyval fails.\<close>

lemma MPI_Comm_free_correct_witness:
  "\<exists>P P'. MPI_Comm_dup sample_world one_attr WORLD = Some (P, Inr 0x84000000)
     \<and> MPI_Comm_free sample_world P 0x84000000 = Some (P', Inl (fn_fail ''**mpi_comm_free'' (new_error MPI_ERR_OTHER ''**user'')))
     \<and> cm_attributes (body (comms P') 1000) = 2040 \<and> 2040 \<notin> pool_live (apool (attrs P'))"
proof -
  obtain P b where d: "MPI_Comm_dup sample_world one_attr WORLD = Some (P, Inr 0x84000000)" "attrs P = dup_attrs"
     "get_comm (comms P) 0x84000000 = Inr 1000" "handle_of (cheap (comms P)) 1000 = 0x84000000" "body (comms P) 1000 = b"
     "process_rel P [500 \<mapsto> [2000], 1000 \<mapsto> [2040]] {kv2, kv1}" "comm_state_ok (comms P)" "1000 \<in> pool_live (cpool (comms P))"
     "cm_ref_count b = 1" "cm_kind b = MPID_INTRACOMM" "cm_attributes b = 2040" "ids_split (comm_ids (comms P)) {cm_recvcontext_id b}"
    using dup_facts by blast
  have L: "[500 \<mapsto> [2000], 1000 \<mapsto> [2040]] 1000 = Some [2040]" by simp
  have k: "HANDLE_GET_KIND 0x84000000 \<noteq> HANDLE_KIND_BUILTIN" by (simp add: HANDLE_GET_KIND_def)
  have v: "\<forall>vcrt d. pe_vcrt sample_world vcrt d = None" by (simp add: world_env)
  have c: "delete_calls (pe_attr sample_world) 0x84000000 (del_entries dup_attrs [2040]) False (user dup_attrs) = (True, 2)"
    by (simp add: del_entries_def dup_attrs_def one_attr_def two_keyvals_state new_keyval_def sample_world_def akey_def)
  have hyps: "cm_ref_count (body (comms P) 1000) = 1" "cm_kind (body (comms P) 1000) = MPID_INTRACOMM"
    "cm_recvcontext_id (body (comms P) 1000) \<in> {cm_recvcontext_id b}"
    "delete_calls (pe_attr sample_world) (handle_of (cheap (comms P)) 1000) (del_entries (attrs P) [2040]) False (user (attrs P)) = (True, 2)"
    using d c by simp_all
  show ?thesis
    using MPI_Comm_free_correct[OF d(6,3) L k d(7,8) hyps(1,2) v d(12) hyps(3,4)] d(1,5,11) by auto
qed

end
