(* ===== verification/CartRuns.thy ===== *)
theory CartRuns
  imports CartSub MpiAttrRuns
begin

text \<open>
  The theorems on grids at a process with rank 2 of four: a grid of two by two, periodic in the first
  dimension, on \<open>MPI_COMM_WORLD\<close>, and one that is made.
\<close>

abbreviation grid_topo :: "int list \<Rightarrow> MPIR_Topology" where
  "grid_topo pos \<equiv> MPI_CART \<lparr>ct_nnodes = 4, ct_ndims = 2, ct_dims = [2, 2], ct_periodic = [True, False], ct_position = pos\<rparr>"

abbreviation grid_at :: "int list \<Rightarrow> MPIR_Cart_topology" where
  "grid_at pos \<equiv> \<lparr>ct_nnodes = 4, ct_ndims = 2, ct_dims = [2, 2], ct_periodic = [True, False], ct_position = pos\<rparr>"

definition cart_world :: "splittype list \<Rightarrow> nat topo_user process_env" where
  "cart_world table = \<lparr>pe_attr = topo_attr_env \<lparr>tm_topology = (\<lambda>_. 8), tm_array = (\<lambda>_. True)\<rparr> (pe_attr sample_world),
     pe_calloc = (\<lambda>_ _. no_memory), pe_comm = sample_comm_env\<lparr>ce_table := table\<rparr>, pe_universe = Inr 4, pe_vcrt = (\<lambda>_ _. None)\<rparr>"

definition cart_mem :: topo_mem where
  "cart_mem = \<lparr>tm_topology = (\<lambda>_. 8), tm_array = (\<lambda>_. True)\<rparr>"

abbreviation cart_env :: "nat topo_user process_env" where "cart_env \<equiv> cart_world []"

section \<open>The start\<close>

text \<open>A process with some rank, no attributes and some structures.\<close>

definition cart_start :: "int \<Rightarrow> (nat \<rightharpoonup> MPIR_Topology) \<Rightarrow> nat topo_user process" where
  "cart_start rank topos =
     \<lparr>comms = set_body 500 ((body sample_comms 500)\<lparr>cm_rank := rank\<rparr>) sample_comms, groups = groups sample_process,
      attrs = \<lparr>aheap = aheap sample_attrs, MPID_Attr_mem = MPID_Attr_mem sample_attrs, kheap = kheap sample_attrs,
        MPID_Keyval_mem = MPID_Keyval_mem sample_attrs, attr_dup_set = False,
        user = \<lparr>topologies = topos, MPIR_Topology_keyval = MPI_KEYVAL_INVALID, other = 0\<rparr>\<rparr>,
      comm_parent = 0, predef = predef sample_process\<rparr>"

lemma cart_start_hyps:
  "topo_rel (cart_start rank topos) [500 \<mapsto> []] {}" "keyval_room (cart_world table) (cart_start rank topos)"
  "calloc_fresh (pe_calloc (cart_world table) 0 (MPID_Attr_mem (attrs (cart_start rank topos)))) (MPID_Attr_mem (attrs (cart_start rank topos)))"
proof -
  have "process_rel (cart_start rank topos) [500 \<mapsto> []] {}"
    by (rule fresh_rel) (simp_all add: cart_start_def sample_attrs_def sample_comms_def)
  then show "topo_rel (cart_start rank topos) [500 \<mapsto> []] {}"
    by (simp add: topo_rel_def topo_keyval_ok_def cart_start_def)
  show "keyval_room (cart_world table) (cart_start rank topos)"
    "calloc_fresh (pe_calloc (cart_world table) 0 (MPID_Attr_mem (attrs (cart_start rank topos)))) (MPID_Attr_mem (attrs (cart_start rank topos)))"
    by (simp_all add: keyval_room_def calloc_fresh_def cart_world_def cart_start_def sample_attrs_def new_pool_def)
qed

text \<open>The members of \<open>MPI_COMM_WORLD\<close> stay what they are when its list and the rank change.\<close>

lemma world_setting:
  assumes "0 \<le> rank" "rank < 4"
    and st: "st = set_body 500 ((body sample_comms 500)\<lparr>cm_attributes := h, cm_rank := rank\<rparr>) sample_comms"
  shows "comm_setting (pe_comm (cart_world table)) st WORLD 500 {} (context_mask (MPIR_Init_contextid start_contextid))"
    "comm_known (ce_calloc (pe_comm (cart_world table))) st 500"
proof -
  have env: "ce_calloc (pe_comm (cart_world table)) = no_memory" by (simp add: cart_world_def)
  show k: "comm_known (ce_calloc (pe_comm (cart_world table))) st 500"
    using sample_comms_ok(3) by (simp add: env st comm_known_set_body)
  have "get_comm st WORLD = Inr 500" by (simp add: st get_comm_def attr_runs alloc_runs)
  moreover have "reduced_mask (pe_comm (cart_world table)) st (context_mask (MPIR_Init_contextid start_contextid))"
    using sample_comms_ids(2) by (simp add: reduced_mask_def cart_world_def st)
  ultimately show "comm_setting (pe_comm (cart_world table)) st WORLD 500 {} (context_mask (MPIR_Init_contextid start_contextid))"
    using sample_comms_ok(1,2) sample_comms_ids(1) k assms(1,2) unfolding comm_setting_def env
    by (simp add: st) (simp add: sample_comms_def)
qed

section \<open>A process with a topology\<close>

text \<open>The value of the attribute is the address 7.\<close>

definition topo_process :: "int \<Rightarrow> MPIR_Topology \<Rightarrow> nat topo_user process" where
  "topo_process rank topo =
     \<lparr>comms = set_body 500 ((body sample_comms 500)\<lparr>cm_attributes := 2000, cm_rank := rank\<rparr>) sample_comms,
      groups = groups sample_process,
      attrs = \<lparr>aheap = \<lparr>handle_of = (\<lambda>_. 0)(2000 := direct_handle MPID_ATTR 0, 2040 := direct_handle MPID_ATTR 1,
             2080 := direct_handle MPID_ATTR 2, 2120 := direct_handle MPID_ATTR 3),
           next_of = (\<lambda>_. 0)(2000 := 2040, 2040 := 2080, 2080 := 2120),
           attr_of = (attr_of (aheap sample_attrs))(2000 := attr_node 3000 0 7)\<rparr>,
         MPID_Attr_mem = (new_pool MPID_ATTR 40 2000 4)\<lparr>om_initialized := True, om_avail := 2040\<rparr>,
         kheap = \<lparr>handle_of = (\<lambda>_. 0)(3000 := kv1, 3040 := direct_handle MPID_KEYVAL 1), next_of = (\<lambda>_. 0)(3000 := 3040),
           keyval_of = (keyval_of (kheap sample_attrs))(3000 := (new_keyval MPID_COMM TOPO_FN TOPO_FN 0)\<lparr>kv_ref_count := 2\<rparr>)\<rparr>,
         MPID_Keyval_mem = (new_pool MPID_KEYVAL 40 3000 2)\<lparr>om_initialized := True, om_avail := 3040\<rparr>, attr_dup_set = True,
         user = \<lparr>topologies = [7 \<mapsto> topo], MPIR_Topology_keyval = kv1, other = 0\<rparr>\<rparr>,
      comm_parent = 0, predef = predef sample_process\<rparr>"

abbreviation grid_process :: "int \<Rightarrow> int list \<Rightarrow> nat topo_user process" where
  "grid_process rank pos \<equiv> topo_process rank (grid_topo pos)"

lemmas topo_runs = MPIR_Topology_put_def topology_keyval_def upd_topologies_def MPI_Comm_create_keyval_def create_keyval_def
  keyval_handle_def new_keyval_def MPID_Get_ptr_def attr_runs alloc_runs

lemma grid_run: "MPIR_Topology_put (cart_world table) (cart_start rank [7 \<mapsto> topo]) 500 7 = Some (topo_process rank topo, None)"
  by (simp add: cart_start_def topo_process_def cart_world_def topo_runs fun_upd_def fun_eq_iff)

lemma grid_topology: "topology_of (cart_world table) (topo_process rank topo) 500 = Some (Some topo)"
  by (simp add: topology_of_def MPIR_Topology_get_def MPI_Comm_get_attr_def attr_get_def attr_find.simps topo_process_def
      attr_runs alloc_runs new_keyval_def)

lemma grid_cart:
  assumes "in_grid [2, 2] pos" "rank = rank_of [2, 2] pos"
  shows "cart_of (cart_world table) (grid_process rank pos) WORLD 500 (grid_at pos)"
proof -
  have "get_comm (comms (grid_process rank pos)) WORLD = Inr 500"
    by (simp add: topo_process_def get_comm_def attr_runs alloc_runs)
  then show ?thesis
    using assms in_grid_length[OF assms(1)] grid_topology by (simp add: cart_of_def cart_ok_def) (simp add: topo_process_def sample_comms_def)
qed

lemma MPI_Cart_rank_correct_witness:
  "MPI_Cart_rank cart_env (grid_process 2 [1, 0]) WORLD [- 3, 1] = Some (Inr 3)
   \<and> MPI_Cart_rank cart_env (grid_process 2 [1, 0]) WORLD [0, 2]
     = Some (Inl (fn_fail ''**mpi_cart_rank'' (new_error MPI_ERR_ARG ''**cartcoordinvalid'')))"
proof -
  have c: "cart_of cart_env (grid_process 2 [1, 0]) WORLD 500 (grid_at [1, 0])" by (rule grid_cart) simp_all
  have "\<not> coords_invalid (grid_at [1, 0]) [- 3, 1]" "coords_invalid (grid_at [1, 0]) [0, 2]"
    by (auto simp: coords_invalid_def less_Suc_eq numeral_2_eq_2)
  moreover have "wrap (grid_at [1, 0]) [- 3, 1] = [1, 1]" by (simp add: wrap_def upt_rec)
  ultimately show ?thesis using MPI_Cart_rank_correct[OF c, of "[- 3, 1]"] MPI_Cart_rank_correct[OF c, of "[0, 2]"] by simp
qed

lemma MPI_Cart_coords_rank_roundtrip_witness:
  "\<exists>xs. MPI_Cart_coords cart_env (grid_process 2 [1, 0]) WORLD 3 2 = Some (Inr xs)
     \<and> MPI_Cart_rank cart_env (grid_process 2 [1, 0]) WORLD xs = Some (Inr 3)"
proof -
  have c: "cart_of cart_env (grid_process 2 [1, 0]) WORLD 500 (grid_at [1, 0])" by (rule grid_cart) simp_all
  have "3 < cm_remote_size (body (comms (grid_process 2 [1, 0])) 500)" using cart_ofD(6)[OF c] by simp
  then show ?thesis using MPI_Cart_coords_rank_roundtrip[OF c, of 3 2] by auto
qed

lemma grid_shift_values:
  "neighbour (grid_at [1, 0]) 0 1 = 0" "neighbour (grid_at [1, 0]) 0 (- 1) = 0" "neighbour (grid_at [1, 0]) 1 1 = 3"
  "neighbour (grid_at [1, 0]) 1 (- 1) = MPI_PROC_NULL"
  by (simp_all add: neighbour_def)

lemma MPI_Cart_shift_correct_witness:
  "MPI_Cart_shift cart_env (grid_process 2 [1, 0]) WORLD 1 1 = Some (Inr (MPI_PROC_NULL, 3))"
proof -
  have c: "cart_of cart_env (grid_process 2 [1, 0]) WORLD 500 (grid_at [1, 0])" by (rule grid_cart) simp_all
  show ?thesis using MPI_Cart_shift_correct[OF c, of 1 1] grid_shift_values by simp
qed

lemma MPI_Cart_shift_matches_witness:
  "\<exists>source dest'. MPI_Cart_shift cart_env (grid_process 2 [1, 0]) WORLD 1 1 = Some (Inr (source, 3))
     \<and> MPI_Cart_shift cart_env (grid_process 3 [1, 1]) WORLD 1 1 = Some (Inr (2, dest'))"
proof -
  have c: "cart_of cart_env (grid_process 2 [1, 0]) WORLD 500 (grid_at [1, 0])"
    "cart_of cart_env (grid_process 3 [1, 1]) WORLD 500 (grid_at [1, 1])" by (rule grid_cart; simp)+
  have s: "MPI_Cart_shift cart_env (grid_process 2 [1, 0]) WORLD (int 1) 1 = Some (Inr (MPI_PROC_NULL, 3))"
    using cart_shift_value[OF c(1), of 1 1] grid_shift_values by simp
  have r: "cm_rank (body (comms (grid_process 2 [1, 0])) 500) = 2" "cm_rank (body (comms (grid_process 3 [1, 1])) 500) = 3"
    by (simp_all add: topo_process_def)
  show ?thesis using MPI_Cart_shift_matches[OF c _ _ _ _ _ s] s r by auto
qed

section \<open>A grid that is made\<close>

abbreviation no_grid :: "nat topo_user process" where "no_grid \<equiv> cart_start 2 Map.empty"

lemma no_grid_hyps:
  "comm_setting (pe_comm cart_env) (comms no_grid) WORLD 500 {} (context_mask (MPIR_Init_contextid start_contextid))"
  "\<forall>q \<in> dom [500 \<mapsto> []]. comm_known (ce_calloc (pe_comm cart_env)) (comms no_grid) q"
proof -
  have "comms no_grid = set_body 500 ((body sample_comms 500)\<lparr>cm_attributes := 0, cm_rank := 2\<rparr>) sample_comms"
    by (simp add: cart_start_def sample_comms_def)
  then show "comm_setting (pe_comm cart_env) (comms no_grid) WORLD 500 {} (context_mask (MPIR_Init_contextid start_contextid))"
    "\<forall>q \<in> dom [500 \<mapsto> []]. comm_known (ce_calloc (pe_comm cart_env)) (comms no_grid) q"
    using world_setting[where rank = 2 and h = 0 and table = "[]"] by simp_all
qed

lemma cart_create_run:
  "\<exists>P'. MPI_Cart_create cart_env cart_mem no_grid WORLD 2 [2, 2] [True, False] False = Some (P', Inr 0x84000000)"
proof (cases rule: get_contextid_spec[OF comm_settingD(11,12)[OF no_grid_hyps(1)]])
  case (1 ids)
  then show ?thesis using mask_ids_init[of start_contextid] by (auto simp: set_eq_iff dest!: spec[of _ 3])
next
  case (2 ids c)
  then show ?thesis
    by (simp add: MPI_Cart_create_def MPIR_Cart_create_def cart_comm_def place_cart_def place_topology_def
        cart_start_def cart_world_def cart_mem_def MPIR_Comm_copy_def comm_copy_ids_def MPIR_Comm_create_def copy_body_def
        add_errhandler_ref_def int_ok_def topo_runs)
qed

lemma MPI_Cart_create_correct_witness:
  "\<exists>P' q. MPI_Cart_create cart_env cart_mem no_grid WORLD 2 [2, 2] [True, False] False = Some (P', Inr 0x84000000)
     \<and> topology_of cart_env P' q = Some (Some (grid_topo [1, 0])) \<and> cm_vcr (body (comms P') q) = [10, 11, 12, 13]
     \<and> cart_of cart_env P' 0x84000000 q (grid_at [1, 0])"
proof -
  have b: "cm_vcr (body (comms no_grid) 500) = [10, 11, 12, 13]" "cm_rank (body (comms no_grid) 500) = 2"
    by (simp_all add: cart_start_def sample_comms_def)
  have c: "new_cart [2, 2] [True, False] 2 = grid_at [1, 0]" by (simp add: new_cart_def)
  obtain P' where run: "MPI_Cart_create cart_env cart_mem no_grid WORLD 2 [2, 2] [True, False] False = Some (P', Inr 0x84000000)"
    using cart_create_run by blast
  have "topologies (user (attrs no_grid)) (tm_topology cart_mem (topologies (user (attrs no_grid)))) = None"
    by (simp add: cart_start_def)
  then obtain q where q: "topo_made cart_env no_grid [500 \<mapsto> []] {} 8 (grid_topo [1, 0]) q P' 0x84000000"
      "cart_of cart_env P' 0x84000000 q (grid_at [1, 0])" "copy_made (body (comms no_grid) 500) 4 ((body (comms P') q)\<lparr>cm_attributes := 0\<rparr>)"
    using MPI_Cart_create_correct[OF cart_start_hyps no_grid_hyps, of "[2, 2]" 4 "[True, False]" cart_mem False] run b c
    by (auto simp: cart_start_def cart_mem_def Let_def)
  then show ?thesis using run b by (auto simp: topo_made_def copy_made_def)
qed

section \<open>A subgrid\<close>

text \<open>The first dimension is kept: the processes 0 and 2, and 1 and 3, stay together.\<close>

abbreviation sub_env :: "nat topo_user process_env" where
  "sub_env \<equiv> cart_world (sub_table [True, False] [2, 2] 4)"

lemma sub_values:
  "split_entries (sub_table [True, False] [2, 2] 4) 0 = [\<lparr>sp_color = 0, sp_key = 0\<rparr>, \<lparr>sp_color = 2, sp_key = 1\<rparr>]"
  "MPIU_Sort_inttable [\<lparr>sp_color = 0, sp_key = 0\<rparr>, \<lparr>sp_color = 2, sp_key = 1\<rparr>]
    = [\<lparr>sp_color = 0, sp_key = 0\<rparr>, \<lparr>sp_color = 2, sp_key = 1\<rparr>]"
  by code_simp+

lemma grid_hyps:
  "comm_setting (pe_comm sub_env) (comms (grid_process 2 [1, 0])) WORLD 500 {} (context_mask (MPIR_Init_contextid start_contextid))"
  "\<forall>q \<in> dom [500 \<mapsto> ns]. comm_known (ce_calloc (pe_comm sub_env)) (comms (grid_process 2 [1, 0])) q"
proof -
  have "comms (grid_process 2 [1, 0]) = set_body 500 ((body sample_comms 500)\<lparr>cm_attributes := 2000, cm_rank := 2\<rparr>) sample_comms"
    by (simp add: topo_process_def)
  then show "comm_setting (pe_comm sub_env) (comms (grid_process 2 [1, 0])) WORLD 500 {} (context_mask (MPIR_Init_contextid start_contextid))"
    "\<forall>q \<in> dom [500 \<mapsto> ns]. comm_known (ce_calloc (pe_comm sub_env)) (comms (grid_process 2 [1, 0])) q"
    using world_setting[where rank = 2 and h = 2000 and table = "sub_table [True, False] [2, 2] 4"] by simp_all
qed

lemma sub_place:
  "kept [True, False] [2, 2 :: int] = [2]" "sub_size [(True, 2), (False, 2)] = (1, 2)"
  "sub_key_color [(True, 2, 1), (False, 2, 0)] = (1, 0)"
  "rank_loop [\<lparr>sp_color = 0, sp_key = 0\<rparr>, \<lparr>sp_color = 2, sp_key = 1\<rparr>] 2 x = 1"
  by (simp_all add: sub_size_def sub_key_color_def rank_loop_def)

lemma cart_sub_run:
  "\<exists>P'. MPI_Cart_sub sub_env cart_mem (grid_process 2 [1, 0]) WORLD [True, False] = Some (P', Inr 0x84000000)"
proof (cases rule: get_contextid_spec[OF comm_settingD(11,12)[OF grid_hyps(1)]])
  case (1 ids)
  then show ?thesis using mask_ids_init[of start_contextid] by (auto simp: set_eq_iff dest!: spec[of _ 3])
next
  case (2 ids c)
  have g: "get_comm (comms (grid_process 2 [1, 0])) WORLD = Inr 500" by (rule comm_settingD(4)[OF grid_hyps(1)])
  have s: "MPI_Cart_sub sub_env cart_mem (grid_process 2 [1, 0]) WORLD [True, False]
    = (case MPI_Comm_split (pe_comm sub_env) (comms (grid_process 2 [1, 0])) WORLD 0 1 of
         Some (st, Inr ncomm) \<Rightarrow> map_option (\<lambda>(P, r). (P, wrap_fail ''**mpi_cart_sub'' r))
           (place_sub sub_env cart_mem ((grid_process 2 [1, 0])\<lparr>comms := st\<rparr>) (MPID_Comm_get_ptr st ncomm) (grid_at [1, 0]) [True, False])
       | Some (st, Inl er) \<Rightarrow> Some ((grid_process 2 [1, 0])\<lparr>comms := st\<rparr>, Inl (fn_fail ''**mpi_cart_sub'' er))
       | None \<Rightarrow> None)"
    by (simp add: MPI_Cart_sub_def g grid_topology sub_place Let_def)
  show ?thesis unfolding s using 2 g
    by (simp add: MPI_Comm_split_def split_finish_def split_body_def split_common_def topo_process_def cart_world_def cart_mem_def
        MPIR_Comm_create_def add_errhandler_ref_def sub_values sub_place place_sub_def place_topology_def topo_runs)
qed

lemma grid_rel: "\<exists>ns H. topo_rel (grid_process 2 [1, 0]) [500 \<mapsto> ns] H"
proof -
  let ?P = "cart_start 2 [7 \<mapsto> grid_topo [1, 0]]"
  have "get_comm (comms ?P) (handle_of (cheap (comms ?P)) 500) = Inr 500"
    by (simp add: cart_start_def sample_comms_def get_comm_def attr_runs)
  then show ?thesis
    by (rule topology_put_step[OF cart_start_hyps(1,2) cart_start_hyps(3), where t = 7 and table1 = "[]", rotated])
      (use grid_run[of "[]" 2 "grid_topo [1, 0]"] in auto)
qed

lemma MPI_Cart_sub_correct_witness:
  "\<exists>P' q. MPI_Cart_sub sub_env cart_mem (grid_process 2 [1, 0]) WORLD [True, False] = Some (P', Inr 0x84000000)
     \<and> topology_of sub_env P' q = Some (Some (MPI_CART \<lparr>ct_nnodes = 2, ct_ndims = 1, ct_dims = [2], ct_periodic = [True], ct_position = [1]\<rparr>))
     \<and> cm_vcr (body (comms P') q) = [10, 12]"
proof -
  obtain P' where run: "MPI_Cart_sub sub_env cart_mem (grid_process 2 [1, 0]) WORLD [True, False] = Some (P', Inr 0x84000000)"
    using cart_sub_run by blast
  obtain ns H where rel: "topo_rel (grid_process 2 [1, 0]) [500 \<mapsto> ns] H" using grid_rel by blast
  have room: "keyval_room sub_env (grid_process 2 [1, 0])"
    "calloc_fresh (pe_calloc sub_env 0 (MPID_Attr_mem (attrs (grid_process 2 [1, 0])))) (MPID_Attr_mem (attrs (grid_process 2 [1, 0])))"
    "topologies (user (attrs (grid_process 2 [1, 0]))) (tm_topology cart_mem (topologies (user (attrs (grid_process 2 [1, 0]))))) = None"
    "ce_table (pe_comm sub_env) = sub_table [True, False] [2, 2] 4" "\<forall>x. ce_malloc (pe_comm sub_env) x"
    by (simp_all add: keyval_room_def calloc_fresh_def cart_world_def topo_process_def cart_mem_def new_pool_def)
  have c: "cart_of sub_env (grid_process 2 [1, 0]) WORLD 500 (grid_at [1, 0])" by (rule grid_cart) simp_all
  have sub: "sub_cart (grid_at [1, 0]) [True, False]
    = \<lparr>ct_nnodes = 2, ct_ndims = 1, ct_dims = [2], ct_periodic = [True], ct_position = [1]\<rparr>" by (simp add: sub_cart_def)
  have v: "cm_vcr (body (comms (grid_process 2 [1, 0])) 500) = [10, 11, 12, 13]" by (simp add: topo_process_def sample_comms_def)
  obtain q where q: "topology_of sub_env P' q = Some (Some (MPI_CART (sub_cart (grid_at [1, 0]) [True, False])))"
      "length (cm_vcr (body (comms P') q)) = 2"
      "\<forall>x < 4. let xs = coords_of [2, 2] (int x) in dropped [True, False] xs = [0]
         \<longrightarrow> cm_vcr (body (comms P') q) ! nat (rank_of [2] (kept [True, False] xs)) = [10, 11, 12, 13] ! x"
    using MPI_Cart_sub_correct[OF rel room(1,2) grid_hyps c _ _ _ room(5,3), of "[True, False]" 4] run room(4)
    by (auto simp: topo_made_def sub Let_def v)
  have "cm_vcr (body (comms P') q) ! 0 = 10" "cm_vcr (body (comms P') q) ! 1 = 12"
    using q(3)[rule_format, of 0] q(3)[rule_format, of 2] by simp_all
  then have "cm_vcr (body (comms P') q) = [10, 12]" using q(2) by (intro nth_equalityI) (auto simp: less_Suc_eq numeral_2_eq_2)
  then show ?thesis using run q(1) sub by auto
qed

end
