(* ===== verification/GraphRuns.thy ===== *)
theory GraphRuns
  imports GraphSpec CartRuns
begin

text \<open>
  The theorems on graphs at the graph of the MPI standard: the edges 0-1, 0-3 and 2-3, each in both directions.
\<close>

abbreviation graph_index :: "int list" where "graph_index \<equiv> [2, 3, 4, 6]"
abbreviation graph_edges :: "int list" where "graph_edges \<equiv> [1, 3, 0, 3, 0, 2]"

lemma graph_create_run:
  "\<exists>P'. MPI_Graph_create cart_env cart_mem no_grid WORLD 4 graph_index graph_edges False = Some (P', Inr 0x84000000)"
proof (cases rule: get_contextid_spec[OF comm_settingD(11,12)[OF no_grid_hyps(1)]])
  case (1 ids)
  then show ?thesis using mask_ids_init[of start_contextid] by (auto simp: set_eq_iff dest!: spec[of _ 3])
next
  case (2 ids c)
  have "graph_checks 4 4 graph_index graph_edges = Some None" by code_simp
  with 2 show ?thesis
    by (simp add: MPI_Graph_create_def MPIR_Graph_create_def graph_comm_def place_graph_def place_topology_def
        cart_start_def cart_world_def cart_mem_def MPIR_Comm_copy_def comm_copy_ids_def MPIR_Comm_create_def copy_body_def
        add_errhandler_ref_def topo_runs)
qed


lemma MPI_Graph_neighbors_correct_witness:
  "MPI_Graph_neighbors cart_env (topo_process 2 (MPI_GRAPH (new_graph graph_index graph_edges))) WORLD 3 2 = Some (Inr [0, 2])
   \<and> MPI_Graph_neighbors_count cart_env (topo_process 2 (MPI_GRAPH (new_graph graph_index graph_edges))) WORLD 3 = Some (Inr 2)"
proof -
  let ?P = "topo_process 2 (MPI_GRAPH (new_graph graph_index graph_edges))"
  have "get_comm (comms ?P) WORLD = Inr 500" by (simp add: topo_process_def get_comm_def attr_runs alloc_runs)
  then have g: "graph_of cart_env ?P WORLD 500 (new_graph graph_index graph_edges)"
    using grid_topology by (simp add: graph_of_def new_graph_def)
  have "neighbours graph_index graph_edges 3 = [0, 2]" by (simp add: neighbours_from_def)
  then show ?thesis using MPI_Graph_neighbors_correct[OF g, of 3 2 4 6] by (simp add: new_graph_def)
qed

end
