(* ===== verification/Spec2Isabelle.thy ===== *)
theory Spec2Isabelle
  imports ArgStrWrite Info Recvq Bsend MpiGroupRanges ContextIdThreads Dims GraphRuns
begin

text \<open>
  A verification library for MPICH2, the sources under src/src. MPICH2 is a C library in layers: the
  MPI routines of src/src/mpi check their arguments, turn handles into objects and work on objects,
  groups, communicators and requests; a device under src/src/mpid (here CH3) moves messages; utilities
  under src/src/util serve both; process managers under src/src/pm start the programs. The library models
  the parts whose logic lives in memory: object storage, info objects, groups, communicators with their
  context ids, attributes and topologies, the storage of buffered sends, the receive queues, and the strings
  in which the parts of MPICH2 describe processes to each other.

  How the model follows the code. An address is a natural number and 0 the null pointer; the fields of the
  objects of a type are functions on addresses in one record, which a routine takes and returns changed.
  A C routine is a function of the same name. Its error code is a value of \<open>mpi_err\<close>, the class and the
  stack of generic messages that \<open>MPIR_Err_create_code\<close> puts together, in a sum or an option. Result \<open>None\<close>
  of a type \<open>option\<close> around all that is a run that C leaves undefined or that does not end: a null pointer
  followed, a read outside an array, a loop without end; a theorem says that a routine returns by
  stating that its result is \<open>Some\<close>. Loops are recursive functions, \<open>partial_function (option)\<close> where the
  loop runs along pointers. Integers that wrap or that are masked are words (handles, context masks, match
  fields); other C ints are \<open>int\<close>, and overflow is either shown to be out of reach, is a hypothesis that
  bounds the argument, or makes the result \<open>None\<close>. The following are arguments of the model: what
  \<open>MPIU_Malloc\<close> and \<open>MPIU_Calloc\<close> answer (memory nobody else has, or none), the answers of collective
  operations and of the device, and the functions of users. Where a pool of objects uses the field \<open>next\<close> of
  \<open>MPIU_Handle_common\<close> for its free list, the field that overlays it in the object is kept apart; the code
  never reads it between release and allocation. Output pointers of the interface routines are not null.
  Tracing, logging and the enter and exit macros are left out.

  The theories, bottom up.

  \<^item> \<open>Prelude\<close>: error codes, C strings in memory, linked lists in a heap, lists threaded through arrays.
  \<^item> \<open>SafeStr\<close>: util/mem/safestr.c, copies into buffers of a given size.
  \<^item> \<open>ArgStr\<close>, \<open>ArgStrParse\<close>, \<open>ArgStrWrite\<close>: util/mem/argstr.c. \<open>ArgStr\<close> has the tokenizer and the reading
    routines, \<open>ArgStrParse\<close> what they do on a string that consists of tokens, \<open>ArgStrWrite\<close> the writing
    routines, the round trips, and the store outside the buffer on the failure path.
  \<^item> \<open>HandleMem\<close>: util/mem/handlemem.c and mpihandlemem.h, the layout of handles and the pools of objects.
    The locale \<open>object_pool\<close> states what the users of a pool rely on; it is interpreted by the code's pool.
    All object types below live in such a pool and rest on the facts of the interpretation.
  \<^item> \<open>Info\<close>: util/info, info objects as lists of nodes of one pool; each routine refines an operation on
    association lists.
  \<^item> \<open>GroupSort\<close>, \<open>MpiGroup\<close>, \<open>MpiGroupSpec\<close>, \<open>MpiGroupOps\<close>, \<open>MpiGroupRanges\<close>: mpi/group. \<open>GroupSort\<close> is the
    merge sort of the array of processes by linking, \<open>MpiGroup\<close> has all routines, \<open>MpiGroupSpec\<close> relates a
    group to the list of its processes, the others state each routine as an operation on such lists.
  \<^item> \<open>ContextId\<close>, \<open>ContextIdThreads\<close>: mpi/comm/commutil.c, the masks of free context ids. \<open>ContextId\<close> has the
    search, the release and \<open>MPIR_Get_contextid\<close> of a build without threads, and a step relation of a
    whole job that takes and frees ids. \<open>ContextIdThreads\<close> cuts the routine of a build with threads where
    another thread can run, and states safety over every schedule, return of a round nobody competes
    with, and that calls never return when the ids are used up.
  \<^item> \<open>ExchangeSort\<close>: the exchange sort that two files have, over the locale \<open>exchange_order\<close>; \<open>Dims\<close> and
    \<open>CommSplit\<close> interpret it with their comparisons.
  \<^item> \<open>Dims\<close>: mpi/topo/dims_create.c.
  \<^item> \<open>CommSplit\<close>, \<open>MpiComm\<close>, \<open>MpiCommSpec\<close>: mpi/comm/commutil.c and comm_split.c. \<open>CommSplit\<close> has the tables
    of colors and keys, \<open>MpiComm\<close> the communicator objects and the routines that make them, \<open>MpiCommSpec\<close>
    states what copy and split give, from the pool, the context ids and the tables together.
  \<^item> \<open>Attr\<close>, \<open>AttrSpec\<close>, \<open>KeyvalSpec\<close>: mpi/attr/attrutil.c and the keyval routines. \<open>Attr\<close> has the pools
    of keyvals and attributes, the lists, and the calls of the user's copy and delete functions, which may
    change a state of their own; \<open>AttrSpec\<close> relates a list to the pairs of keys and values it holds,
    \<open>KeyvalSpec\<close> says what making and releasing a keyval does to the pool.
  \<^item> \<open>MpiAttr\<close>, \<open>MpiAttrSpec\<close>, \<open>MpiAttrRuns\<close>: the interface routines of mpi/attr on communicators,
    and MPI_Comm_dup and MPI_Comm_free of mpi/comm, on the state of a process: its communicators, groups,
    attributes and context ids. \<open>MpiAttrSpec\<close> states each routine on the lists of all live communicators
    at once (\<open>process_rel\<close>), so that what is said of one list includes that the others do not change;
    \<open>MpiAttrRuns\<close> runs them on one process.
  \<^item> \<open>Topo\<close>, \<open>TopoSpec\<close>: mpi/topo/topoutil.c, the structure of a topology as the value of an attribute with a
    keyval of the library. The state the copy and delete functions work on is the map from addresses to
    structures beside the user's own state. \<open>TopoSpec\<close> says what putting one on a communicator does to the
    process (\<open>topo_rel\<close>), with and without memory.
  \<^item> \<open>Cart\<close>, \<open>CartSpec\<close>, \<open>CartQuery\<close>, \<open>CartCreate\<close>, \<open>CartSub\<close>, \<open>CartRuns\<close>: mpi/topo/cart_*.c. \<open>Cart\<close> has the routines,
    \<open>CartSpec\<close> relates their loops to row-major numbers and their digits, \<open>CartQuery\<close> states the queries and
    the shifts, \<open>CartCreate\<close> the making of a grid from the routines on communicators, context ids and
    attributes together, \<open>CartSub\<close> the splitting into subgrids with the order of their members,
    \<open>CartRuns\<close> runs them on one process of a grid of two by two.
  \<^item> \<open>Graph\<close>, \<open>GraphSpec\<close>, \<open>GraphRuns\<close>: mpi/topo/graph*.c, in the same way: the routines, what the checks of
    \<open>MPI_Graph_create\<close> let through, creation and neighbours, and a run.
  \<^item> \<open>Recvq\<close>: mpid/ch3/src/ch3u_recvq.c, the posted and the unexpected queue; an abstract matching engine on
    two lists, refinement by each routine, and the guarantees of MPI over all reachable states.
  \<^item> \<open>Bsend\<close>: mpi/pt2pt/bsendutil.c, the segments of the buffer for buffered sends; the segments tile the
    buffer in every reachable state.

  What is stated of failures. Where a routine fails for want of memory or of a context id, the theorems say
  what the caller's objects are: the communicators, attributes and topologies that were there are unchanged.
  They do not say that nothing is left over, because the code leaves the new communicator and its context id
  allocated on several of these paths; the manifest lists them. Calls of the user's copy and delete functions are
  part of the statements: which functions are called, with which values, in which order, and what they make of
  the user's state. Specifications are written apart from the code's own loops and tests (\<open>graph_ok\<close>,
  \<open>color_order\<close>, \<open>replaced\<close>, \<open>first_of\<close>, \<open>dims_ok\<close>); where the code's test differs from the documented one, as for
  the edges of a graph, the theorem says by how much.

  Bounds. A pool has its direct objects and up to 1023 blocks of 256 objects. There are 1024 context ids,
  of which the first three are the builtin communicators'. The factors of \<open>Dims\<close> are searched in a table of
  168 primes, which is enough below \<open>2 ^ 19\<close> nodes. Nothing else in the model has fuel; loops over pointers
  are shown to end because the lists they walk are finite.

  Not modelled. The device but for its receive queues, the channels, sockets, locks and process managers:
  they are operating system calls, memory shared between processes and wire protocols. The collective
  operations: they are algorithms over messages of all processes. The attributes of datatypes and windows,
  whose lists the same code serves, because their objects are not modelled. Datatypes, error message tables, one-sided
  communication, MPI-IO, the bindings, logging and the tools: see the list of components in the manifest
  with the reason of each.
\<close>

end
